(* ===== verification/Prelude.thy ===== *)
theory Prelude
  imports Main "HOL-Library.Word" "HOL-Library.Signed_Division"
begin

text \<open>
  Shared vocabulary of the development: the machine types of the C sources, the result type
  that makes every way a C function can stop without returning a value of the model, and the
  lemmas about results, lists and bytes that the components share.
\<close>

unbundle bit_operations_syntax

section \<open>Machine types\<close>

text \<open>\<open>cell.h\<close> and \<open>hash.h\<close>: \<open>vm_int\<close> is \<open>int64_t\<close>, \<open>vm_char\<close> and \<open>hash_type\<close> are
  \<open>uint32_t\<close>. An address is a natural number and 0 is the null pointer.\<close>

type_synonym u8 = "8 word"
type_synonym u32 = "32 word"
type_synonym u64 = "64 word"
type_synonym vm_int = "64 word"
type_synonym addr = nat

section \<open>Results\<close>

text \<open>
  A C function that returns normally is \<open>Inr\<close> of its results. The other ways it can stop are
  the faults: a failed \<open>assert\<close>, a null or dangling pointer, an access outside the bounds of a
  block, a trapping division, a failed allocation, a
  recursion that needs more than the given depth of the C stack, and \<open>exit\<close> with an error status.
\<close>

datatype fault =
    Assert_Failed
  | Bad_Pointer
  | Out_Of_Bounds
  | Div_Trap
  | Alloc_Failed
  | Stack_Overflow
  | Exited

type_synonym 'a res = "fault + 'a"

definition rbind :: "'a res \<Rightarrow> ('a \<Rightarrow> 'b res) \<Rightarrow> 'b res" where
  "rbind m f = (case m of Inl e \<Rightarrow> Inl e | Inr x \<Rightarrow> f x)"

definition deref :: "'a option \<Rightarrow> 'a res" where
  "deref p = (case p of None \<Rightarrow> Inl Bad_Pointer | Some x \<Rightarrow> Inr x)"

definition nth_checked :: "'a list \<Rightarrow> nat \<Rightarrow> 'a res" where
  "nth_checked xs i = (if i < length xs then Inr (xs ! i) else Inl Out_Of_Bounds)"

named_theorems res_simps "evaluation of results"

lemma rbind_Inl [simp, res_simps]: "rbind (Inl e) f = Inl e"
  by (simp add: rbind_def)

lemma rbind_Inr [simp, res_simps]: "rbind (Inr x) f = f x"
  by (simp add: rbind_def)

lemma rbind_eq_Inr [res_simps]:
  "rbind m f = Inr y \<longleftrightarrow> (\<exists>x. m = Inr x \<and> f x = Inr y)"
  by (cases m) auto

lemma rbind_cong [fundef_cong]:
  "m = m' \<Longrightarrow> (\<And>x. m' = Inr x \<Longrightarrow> f x = f' x) \<Longrightarrow> rbind m f = rbind m' f'"
  by (cases m') auto

lemma rbind_assoc: "rbind (rbind m f) g = rbind m (\<lambda>x. rbind (f x) g)"
  by (cases m) auto

lemma rbind_InrE:
  assumes "rbind m f = Inr y"
  obtains x where "m = Inr x" "f x = Inr y"
  using assms by (cases m) auto

lemma deref_simps [simp]: "deref (Some x) = Inr x" "deref None = Inl Bad_Pointer"
  by (simp_all add: deref_def)

lemma deref_eq_Inr [simp, res_simps]: "deref p = Inr x \<longleftrightarrow> p = Some x"
  by (cases p) auto

lemma nth_checked_eq_Inr [res_simps]:
  "nth_checked xs i = Inr x \<longleftrightarrow> i < length xs \<and> xs ! i = x"
  by (auto simp: nth_checked_def)

lemma nth_checked_in [simp]: "i < length xs \<Longrightarrow> nth_checked xs i = Inr (xs ! i)"
  by (simp add: nth_checked_def)

lemma nth_checked_out [simp]: "length xs \<le> i \<Longrightarrow> nth_checked xs i = Inl Out_Of_Bounds"
  by (simp add: nth_checked_def)

section \<open>C strings\<close>

text \<open>
  The characters of a block up to its first null byte, which is what \<open>strlen\<close>, \<open>strcmp\<close> and
  \<open>printf("%s")\<close> see. A block without a null byte ends at its last byte: \<open>gc_malloc\<close> always
  asks \<open>calloc\<close> for strictly more bytes than were requested, so a zero byte follows every block
  (\<open>gc_malloc_slack\<close> in \<open>Gc_Props\<close>).
\<close>

definition c_str :: "u8 list \<Rightarrow> u8 list" where
  "c_str bs = takeWhile (\<lambda>b. b \<noteq> 0) bs"

text \<open>\<open>strncpy(dest, src, n)\<close>: the bytes written to \<open>dest\<close>, exactly \<open>n\<close> of them.\<close>

definition strncpy_bytes :: "u8 list \<Rightarrow> nat \<Rightarrow> u8 list" where
  "strncpy_bytes src n = take n (c_str src @ replicate n 0)"

text \<open>A string literal of the C source as bytes, without its terminating null.\<close>

definition chars :: "string \<Rightarrow> u8 list" where
  "chars s = map (\<lambda>c. of_nat (of_char c)) s"

lemma length_strncpy_bytes [simp]: "length (strncpy_bytes src n) = n"
  by (simp add: strncpy_bytes_def)

lemma zero_notin_c_str [simp]: "0 \<notin> set (c_str bs)"
  by (auto simp: c_str_def dest: set_takeWhileD)

lemma c_str_id [simp]: "0 \<notin> set bs \<Longrightarrow> c_str bs = bs"
  by (auto simp: c_str_def takeWhile_eq_all_conv)

lemma c_str_append_zero [simp]: "0 \<notin> set bs \<Longrightarrow> c_str (bs @ 0 # rest) = bs"
  by (induction bs) (auto simp: c_str_def)

lemma c_str_Nil [simp]: "c_str [] = []"
  by (simp add: c_str_def)

lemma c_str_Cons: "c_str (b # bs) = (if b = 0 then [] else b # c_str bs)"
  by (simp add: c_str_def)

lemma c_str_idem [simp]: "c_str (c_str bs) = c_str bs"
  by simp

lemma length_chars [simp]: "length (chars s) = length s"
  by (simp add: chars_def)

section \<open>Numbers as text\<close>

text \<open>What \<open>printf\<close> writes for a count and for a signed number.\<close>

fun show_nat :: "nat \<Rightarrow> u8 list" where
  "show_nat n = (if n < 10 then [of_nat (48 + n)] else show_nat (n div 10) @ [of_nat (48 + n mod 10)])"

declare show_nat.simps [simp del]

definition show_int :: "vm_int \<Rightarrow> u8 list" where
  "show_int i = (if sint i < 0 then 45 # show_nat (nat (- sint i)) else show_nat (nat (sint i)))"

section \<open>Lists\<close>

lemma take_chunk: "take n xs @ take m (drop n xs) = take (n + m) xs"
  by (simp add: take_add)

lemma set_list_update_subset: "set (xs[i := x]) \<subseteq> insert x (set xs)"
  by (rule set_update_subset_insert)

end
