(* ===== verification/Gc.thy ===== *)
theory Gc
  imports Prelude
begin

text \<open>
  The mark and sweep collector, \<open>src/src/libinsomniac_gc\<close>: the object lists, the type
  table with the pointer offsets of every type, the roots, marking, sweeping, allocation with
  reuse of dead cells, and destruction.

  A linked list threaded through \<open>next\<close> is the list of its nodes' addresses, in order. The
  heap maps the address of a meta object to its fields; the bytes after the header are read by
  the collector only as pointers, so \<open>obj\<close> maps a byte offset to the pointer stored there.
  \<open>vars\<close> is the memory the root pointers point into. Nodes of the root list and of the type
  table are not objects of the heap, and freeing one only counts.
\<close>

section \<open>State\<close>

datatype mark_type = RED | BLACK | PERM | DEAD

datatype meta_ptr_type = PTR | ARRAY

record meta_obj =
  mark :: mark_type
  obj_size :: nat
  type_def :: int
  obj :: "nat \<Rightarrow> addr"

record meta_obj_ptr_def =
  ptr_type :: meta_ptr_type
  ptr_offset :: nat

record meta_obj_def =
  def_size :: nat
  def_root_list :: "meta_obj_ptr_def list"

record gc_ms =
  heap :: "addr \<Rightarrow> meta_obj option"
  vars :: "addr \<Rightarrow> addr"
  active_list :: "addr list"
  dead_list :: "addr list"
  perm_list :: "addr list"
  root_list :: "addr list"
  type_defs :: "meta_obj_def list"
  cell_size :: nat
  size_granularity :: nat
  protect_count :: int
  allocations :: int
  current_mark :: mark_type
  array_type :: nat
  next_addr :: addr

text \<open>Sizes on x86-64: \<open>obj\<close> is a flexible array of bytes, so it starts right after
  \<open>type_def\<close>, before the end of the padded struct.\<close>

definition sizeof_meta :: nat where "sizeof_meta = 32"
definition sizeof_ptr :: nat where "sizeof_ptr = 8"
definition sizeof_meta_root :: nat where "sizeof_meta_root = 16"
definition sizeof_obj_def :: nat where "sizeof_obj_def = 16"
definition sizeof_ptr_def :: nat where "sizeof_ptr_def = 24"
definition OBJECT_OFFSET :: nat where "OBJECT_OFFSET = 28"

section \<open>Objects and meta objects\<close>

definition meta_from_obj :: "addr \<Rightarrow> addr" where
  "meta_from_obj ob = (if ob = 0 then 0 else ob - OBJECT_OFFSET)"

definition obj_from_meta :: "addr \<Rightarrow> addr" where
  "obj_from_meta meta = (if meta = 0 then 0 else meta + OBJECT_OFFSET)"

definition zero_meta :: meta_obj where
  "zero_meta = \<lparr>mark = RED, obj_size = 0, type_def = 0, obj = (\<lambda>_. 0)\<rparr>"

definition update_meta :: "gc_ms \<Rightarrow> addr \<Rightarrow> (meta_obj \<Rightarrow> meta_obj) \<Rightarrow> gc_ms" where
  "update_meta gc a f = gc\<lparr>heap := (heap gc)(a := map_option f (heap gc a))\<rparr>"

section \<open>Memory\<close>

definition gc_malloc :: "gc_ms \<Rightarrow> nat \<Rightarrow> gc_ms \<times> addr" where
  "gc_malloc gc sz =
     (let real_size = sz + (size_granularity gc - sz mod size_granularity gc)
      in (gc\<lparr>allocations := allocations gc + 1, next_addr := next_addr gc + real_size\<rparr>,
          next_addr gc))"

definition gc_free :: "gc_ms \<Rightarrow> addr \<Rightarrow> gc_ms" where
  "gc_free gc a = gc\<lparr>allocations := allocations gc - 1, heap := (heap gc)(a := None)\<rparr>"

definition set_next_mark :: "gc_ms \<Rightarrow> gc_ms" where
  "set_next_mark gc =
     gc\<lparr>current_mark := (if current_mark gc = RED then BLACK else RED)\<rparr>"

definition gc_protect :: "gc_ms \<Rightarrow> gc_ms" where
  "gc_protect gc = gc\<lparr>protect_count := protect_count gc + 1\<rparr>"

section \<open>Types\<close>

definition gc_register_type :: "gc_ms \<Rightarrow> nat \<Rightarrow> gc_ms \<times> nat" where
  "gc_register_type gc sz =
     (let new_type = length (type_defs gc);
          array_size = sizeof_obj_def * (new_type + 1);
          gc1 = fst (gc_malloc gc array_size);
          gc2 = (if new_type = 0 then gc1 else gc_free gc1 0)
      in (gc2\<lparr>type_defs := type_defs gc2 @ [\<lparr>def_size = sz, def_root_list = []\<rparr>]\<rparr>, new_type))"

definition register_ptr_def ::
  "gc_ms \<Rightarrow> nat \<Rightarrow> meta_ptr_type \<Rightarrow> nat \<Rightarrow> gc_ms res" where
  "register_ptr_def gc ty k off =
     (let gc1 = fst (gc_malloc gc sizeof_ptr_def)
      in rbind (nth_checked (type_defs gc1) ty) (\<lambda>def.
         Inr (gc1\<lparr>type_defs := (type_defs gc1)[ty :=
           def\<lparr>def_root_list := \<lparr>ptr_type = k, ptr_offset = off\<rparr> # def_root_list def\<rparr>]\<rparr>)))"

definition gc_register_pointer :: "gc_ms \<Rightarrow> nat \<Rightarrow> nat \<Rightarrow> gc_ms res" where
  "gc_register_pointer gc ty off = register_ptr_def gc ty PTR off"

definition gc_register_array :: "gc_ms \<Rightarrow> nat \<Rightarrow> nat \<Rightarrow> gc_ms res" where
  "gc_register_array gc ty off = register_ptr_def gc ty ARRAY off"

text \<open>The block that holds the collector itself is allocated with a null collector, so it is
  not counted.\<close>

definition gc_create :: "nat \<Rightarrow> gc_ms res" where
  "gc_create csize =
     (let gc = \<lparr>heap = (\<lambda>_. None), vars = (\<lambda>_. 0), active_list = [], dead_list = [],
                perm_list = [], root_list = [], type_defs = [], cell_size = csize,
                size_granularity = sizeof_meta + csize, protect_count = 0, allocations = 0,
                current_mark = RED, array_type = 0, next_addr = 1\<rparr>;
          (gc, ty) = gc_register_type gc sizeof_ptr
      in gc_register_array (gc\<lparr>array_type := ty\<rparr>) ty 0)"

section \<open>Roots\<close>

definition gc_register_root :: "gc_ms \<Rightarrow> addr \<Rightarrow> gc_ms" where
  "gc_register_root gc root =
     (let gc = fst (gc_malloc gc sizeof_meta_root) in gc\<lparr>root_list := root # root_list gc\<rparr>)"

text \<open>The search stops at a match or at the last node; removing is only done for a match.\<close>

fun unlink_root :: "addr list \<Rightarrow> addr \<Rightarrow> addr list res" where
  "unlink_root [] root = Inl Bad_Pointer"
| "unlink_root (r # rs) root =
     (if r = root then Inr rs
      else if rs = [] then Inl Assert_Failed
      else rbind (unlink_root rs root) (\<lambda>rs. Inr (r # rs)))"

definition gc_unregister_root :: "gc_ms \<Rightarrow> addr \<Rightarrow> gc_ms res" where
  "gc_unregister_root gc root =
     rbind (unlink_root (root_list gc) root) (\<lambda>rs. Inr (gc_free (gc\<lparr>root_list := rs\<rparr>) 0))"

section \<open>Marking\<close>

definition mark_object :: "gc_ms \<Rightarrow> addr \<Rightarrow> mark_type \<Rightarrow> gc_ms" where
  "mark_object gc m k =
     update_meta gc m (\<lambda>mo. if mark mo = PERM then mo else mo\<lparr>mark := k\<rparr>)"

text \<open>The pointers one entry of a type's list of offsets stands for.\<close>

definition pointers_of :: "gc_ms \<Rightarrow> meta_obj \<Rightarrow> meta_obj_ptr_def \<Rightarrow> addr list" where
  "pointers_of gc mo rd =
     (case ptr_type rd of
        PTR \<Rightarrow> [obj mo (ptr_offset rd)]
      | ARRAY \<Rightarrow> (let size_max = obj_size mo div def_size (type_defs gc ! array_type gc)
                 in map (\<lambda>i. obj mo (ptr_offset rd + sizeof_ptr * i)) [0..<size_max]))"

text \<open>The first argument is the depth of the C stack that is left.\<close>

fun mark_graph :: "nat \<Rightarrow> gc_ms \<Rightarrow> addr \<Rightarrow> mark_type \<Rightarrow> gc_ms res"
and mark_pointers :: "nat \<Rightarrow> gc_ms \<Rightarrow> addr list \<Rightarrow> mark_type \<Rightarrow> gc_ms res" where
  "mark_graph 0 gc m k = Inl Stack_Overflow"
| "mark_graph (Suc d) gc m k =
     (if m = 0 then Inr gc
      else rbind (deref (heap gc m)) (\<lambda>mo.
        if mark mo = k then Inr gc
        else if mark mo = DEAD then Inl Assert_Failed
        else if type_def mo < 0 then Inr (mark_object gc m k)
        else rbind (nth_checked (type_defs gc) (nat (type_def mo))) (\<lambda>def.
          mark_pointers d (mark_object gc m k)
            (concat (map (pointers_of gc mo) (def_root_list def))) k)))"
| "mark_pointers d gc [] k = Inr gc"
| "mark_pointers d gc (p # ps) k =
     rbind (mark_graph d gc (meta_from_obj p) k) (\<lambda>gc. mark_pointers d gc ps k)"

fun mark_list :: "nat \<Rightarrow> gc_ms \<Rightarrow> addr list \<Rightarrow> mark_type \<Rightarrow> gc_ms res" where
  "mark_list d gc [] k = Inr gc"
| "mark_list d gc (m # ms) k = rbind (mark_graph d gc m k) (\<lambda>gc. mark_list d gc ms k)"

fun mark_root :: "nat \<Rightarrow> gc_ms \<Rightarrow> addr list \<Rightarrow> mark_type \<Rightarrow> gc_ms res" where
  "mark_root d gc [] k = Inr gc"
| "mark_root d gc (r # rs) k =
     rbind (mark_graph d gc (meta_from_obj (vars gc r)) k) (\<lambda>gc. mark_root d gc rs k)"

section \<open>Sweeping and allocation\<close>

text \<open>The loop of \<open>sweep_list\<close> over the active list, with the new active list and the dead
  list built so far.\<close>

fun sweep_loop ::
  "gc_ms \<Rightarrow> mark_type \<Rightarrow> addr list \<Rightarrow> addr list \<Rightarrow> addr list \<Rightarrow> gc_ms res" where
  "sweep_loop gc k [] new_active dead =
     Inr (gc\<lparr>active_list := new_active, dead_list := dead\<rparr>)"
| "sweep_loop gc k (a # active) new_active dead =
     rbind (deref (heap gc a)) (\<lambda>mo.
       if mark mo = k then sweep_loop gc k active (a # new_active) dead
       else if obj_size mo = cell_size gc
       then sweep_loop (update_meta gc a (\<lambda>mo. mo\<lparr>mark := DEAD\<rparr>)) k active new_active (a # dead)
       else sweep_loop (gc_free gc a) k active new_active dead)"

definition sweep_list :: "gc_ms \<Rightarrow> mark_type \<Rightarrow> gc_ms res" where
  "sweep_list gc k =
     (if protect_count gc \<noteq> 0 then Inr gc
      else sweep_loop gc k (active_list gc) [] (dead_list gc))"

text \<open>The end of \<open>internal_alloc\<close>: the size, the mark and the list of a new object.\<close>

definition attach_object :: "gc_ms \<Rightarrow> addr \<Rightarrow> bool \<Rightarrow> nat \<Rightarrow> gc_ms" where
  "attach_object gc m perm sz =
     (let gc = update_meta gc m (\<lambda>mo. mo\<lparr>obj_size := sz\<rparr>)
      in if perm
         then (update_meta gc m (\<lambda>mo. mo\<lparr>mark := PERM\<rparr>))\<lparr>perm_list := m # perm_list gc\<rparr>
         else (update_meta gc m (\<lambda>mo. mo\<lparr>mark := current_mark gc\<rparr>))
                \<lparr>active_list := m # active_list gc\<rparr>)"

fun sweep :: "nat \<Rightarrow> gc_ms \<Rightarrow> gc_ms res"
and pre_alloc :: "nat \<Rightarrow> gc_ms \<Rightarrow> gc_ms res"
and pre_alloc_loop :: "nat \<Rightarrow> nat \<Rightarrow> gc_ms \<Rightarrow> gc_ms res"
and gc_alloc :: "nat \<Rightarrow> gc_ms \<Rightarrow> bool \<Rightarrow> nat \<Rightarrow> (gc_ms \<times> addr) res"
and internal_alloc :: "nat \<Rightarrow> gc_ms \<Rightarrow> bool \<Rightarrow> nat \<Rightarrow> (gc_ms \<times> addr) res"
and gc_unprotect :: "nat \<Rightarrow> gc_ms \<Rightarrow> gc_ms res"
where
  "sweep 0 gc = Inl Stack_Overflow"
| "sweep (Suc d) gc =
     (if protect_count gc \<noteq> 0 then Inr gc
      else let gc = set_next_mark gc; k = current_mark gc
        in rbind (mark_list d gc (perm_list gc) k) (\<lambda>gc.
           rbind (mark_root d gc (root_list gc) k) (\<lambda>gc.
           rbind (sweep_list gc k) (\<lambda>gc.
             if dead_list gc = [] then pre_alloc d gc else Inr gc))))"
| "pre_alloc 0 gc = Inl Stack_Overflow"
| "pre_alloc (Suc d) gc =
     rbind (pre_alloc_loop d 1000 (gc_protect gc)) (\<lambda>gc.
     rbind (gc_unprotect d gc) (\<lambda>gc.
     sweep d gc))"
| "pre_alloc_loop d 0 gc = Inr gc"
| "pre_alloc_loop d (Suc i) gc =
     rbind (gc_alloc d gc False (cell_size gc)) (\<lambda>(gc, ob). pre_alloc_loop d i gc)"
| "gc_alloc 0 gc perm sz = Inl Stack_Overflow"
| "gc_alloc (Suc d) gc perm sz =
     rbind (internal_alloc d gc perm sz) (\<lambda>(gc, m).
       Inr (update_meta gc m (\<lambda>mo. mo\<lparr>type_def := -1\<rparr>), obj_from_meta m))"
| "internal_alloc 0 gc perm sz = Inl Stack_Overflow"
| "internal_alloc (Suc d) gc perm sz =
     (let real_size = sizeof_meta + sz in
      rbind
        (if sz = cell_size gc then
           rbind (if dead_list gc = [] then sweep d gc else Inr gc) (\<lambda>gc.
             case dead_list gc of
               [] \<Rightarrow> Inr (gc, 0)
             | m # rest \<Rightarrow> Inr (gc\<lparr>dead_list := rest, heap := (heap gc)(m \<mapsto> zero_meta)\<rparr>, m))
         else Inr (gc, 0))
        (\<lambda>(gc, m).
           let (gc, m) = (if m = 0 then (case gc_malloc gc real_size of
                                           (gc, m) \<Rightarrow> (gc\<lparr>heap := (heap gc)(m \<mapsto> zero_meta)\<rparr>, m))
                          else (gc, m))
           in Inr (attach_object gc m perm sz, m)))"
| "gc_unprotect 0 gc = Inl Stack_Overflow"
| "gc_unprotect (Suc d) gc =
     (let gc = gc\<lparr>protect_count := protect_count gc - 1\<rparr>
      in if protect_count gc < 0 then Inl Assert_Failed
         else if protect_count gc = 0 \<and> dead_list gc = [] then sweep d gc
         else Inr gc)"

definition gc_sweep :: "nat \<Rightarrow> gc_ms \<Rightarrow> gc_ms res" where
  "gc_sweep d gc = sweep d gc"

definition gc_alloc_type :: "nat \<Rightarrow> gc_ms \<Rightarrow> bool \<Rightarrow> nat \<Rightarrow> (gc_ms \<times> addr) res" where
  "gc_alloc_type d gc perm ty =
     rbind (nth_checked (type_defs gc) ty) (\<lambda>def.
     rbind (internal_alloc d gc perm (def_size def)) (\<lambda>(gc, m).
       Inr (update_meta gc m (\<lambda>mo. mo\<lparr>type_def := int ty\<rparr>), obj_from_meta m)))"

definition gc_alloc_pointer_array :: "nat \<Rightarrow> gc_ms \<Rightarrow> bool \<Rightarrow> nat \<Rightarrow> (gc_ms \<times> addr) res" where
  "gc_alloc_pointer_array d gc perm cells =
     rbind (nth_checked (type_defs gc) (array_type gc)) (\<lambda>def.
     rbind (internal_alloc d gc perm (def_size def * cells)) (\<lambda>(gc, m).
       Inr (update_meta gc m (\<lambda>mo. mo\<lparr>type_def := int (array_type gc)\<rparr>), obj_from_meta m)))"

text \<open>\<open>gc_make_substring\<close> allocates a block for a copy of a C string and its null.\<close>

definition gc_make_substring :: "nat \<Rightarrow> gc_ms \<Rightarrow> u8 list \<Rightarrow> nat \<Rightarrow> (gc_ms \<times> addr \<times> u8 list) res" where
  "gc_make_substring d gc src len =
     rbind (gc_alloc d gc False (len + 1)) (\<lambda>(gc, ob).
       Inr (gc, ob, strncpy_bytes src len @ [0]))"

section \<open>Permanent objects, destruction, statistics\<close>

text \<open>The search of \<open>gc_de_perm\<close> stops at the object or at the last node of the list, and
  the node it stopped at is moved.\<close>

fun unlink_perm :: "addr list \<Rightarrow> addr \<Rightarrow> (addr list \<times> addr) res" where
  "unlink_perm [] m = Inl Bad_Pointer"
| "unlink_perm (p # ps) m =
     (if ps = [] \<or> p = m then Inr (ps, p)
      else rbind (unlink_perm ps m) (\<lambda>(ps, q). Inr (p # ps, q)))"

definition gc_de_perm :: "gc_ms \<Rightarrow> addr \<Rightarrow> gc_ms res" where
  "gc_de_perm gc obj_in =
     (let m = meta_from_obj obj_in in
      rbind (deref (heap gc m)) (\<lambda>mo.
        if mark mo \<noteq> PERM then Inr gc
        else let gc = update_meta gc m (\<lambda>mo. mo\<lparr>mark := current_mark gc\<rparr>)
          in rbind (unlink_perm (perm_list gc) m) (\<lambda>(ps, q).
             Inr (gc\<lparr>perm_list := ps, active_list := q # active_list gc\<rparr>))))"

definition count_list :: "addr list \<Rightarrow> nat" where
  "count_list xs = length xs"

fun destroy_list :: "gc_ms \<Rightarrow> addr list \<Rightarrow> gc_ms" where
  "destroy_list gc [] = gc"
| "destroy_list gc (m # ms) = destroy_list (gc_free gc m) ms"

fun destroy_types :: "gc_ms \<Rightarrow> meta_obj_def list \<Rightarrow> gc_ms" where
  "destroy_types gc [] = gc_free gc 0"
| "destroy_types gc (def # defs) =
     destroy_types (foldl (\<lambda>gc _. gc_free gc 0) gc (def_root_list def)) defs"

definition gc_destroy :: "gc_ms \<Rightarrow> gc_ms" where
  "gc_destroy gc =
     (let gc = (destroy_list gc (active_list gc))\<lparr>active_list := []\<rparr>;
          gc = (destroy_list gc (dead_list gc))\<lparr>dead_list := []\<rparr>;
          gc = (destroy_list gc (perm_list gc))\<lparr>perm_list := []\<rparr>;
          gc = destroy_types gc (type_defs gc)
      in gc_free gc 0)"

definition gc_stats :: "gc_ms \<Rightarrow> nat \<times> nat \<times> nat \<times> int" where
  "gc_stats gc =
     (count_list (active_list gc), count_list (dead_list gc), count_list (perm_list gc),
      allocations gc)"

end
