(* ===== verification/Gc_Mark.thy ===== *)
theory Gc_Mark
  imports Gc
begin

text \<open>
  Marking: the object graph that the type table and the slots of the objects define, what one
  call of \<open>mark_graph\<close> changes (\<open>visited\<close>: a set of objects, closed under pointers up to what was
  marked before, gets the mark and nothing else changes), and the depth of the C stack that is
  enough for it.
\<close>

section \<open>Object graph\<close>

definition slot_pointers :: "gc_ms \<Rightarrow> meta_obj \<Rightarrow> addr list" where
  "slot_pointers gc mo =
     (if type_def mo < 0 \<or> length (type_defs gc) \<le> nat (type_def mo) then []
      else concat (map (pointers_of gc mo) (def_root_list (type_defs gc ! nat (type_def mo)))))"

definition succs :: "gc_ms \<Rightarrow> addr \<Rightarrow> addr set" where
  "succs gc a = (case heap gc a of None \<Rightarrow> {}
     | Some mo \<Rightarrow> meta_from_obj ` set (slot_pointers gc mo) - {0})"

definition gc_reach :: "gc_ms \<Rightarrow> addr \<Rightarrow> addr set" where
  "gc_reach gc a = (if a = 0 then {} else {(x, y). y \<in> succs gc x}\<^sup>* `` {a})"

definition mark_set :: "gc_ms \<Rightarrow> addr set \<Rightarrow> mark_type \<Rightarrow> gc_ms" where
  "mark_set gc V k = gc\<lparr>heap := (\<lambda>a. if a \<in> V
     then map_option (\<lambda>mo. if mark mo = PERM then mo else mo\<lparr>mark := k\<rparr>) (heap gc a)
     else heap gc a)\<rparr>"

definition marked :: "gc_ms \<Rightarrow> mark_type \<Rightarrow> addr \<Rightarrow> bool" where
  "marked gc k a = (\<exists>mo. heap gc a = Some mo \<and> mark mo = k)"

definition visited :: "gc_ms \<Rightarrow> mark_type \<Rightarrow> addr set \<Rightarrow> gc_ms \<Rightarrow> bool" where
  "visited gc k V gc' \<longleftrightarrow> gc' = mark_set gc V k
     \<and> (\<forall>a\<in>V. a \<noteq> 0 \<and> heap gc a \<noteq> None \<and> \<not> marked gc k a \<and> \<not> marked gc DEAD a)
     \<and> (\<forall>a\<in>V. \<forall>c\<in>succs gc a. c \<in> V \<or> marked gc k c)"

lemma mark_set_simps [simp]:
  "vars (mark_set gc V k) = vars gc" "active_list (mark_set gc V k) = active_list gc"
  "dead_list (mark_set gc V k) = dead_list gc" "perm_list (mark_set gc V k) = perm_list gc"
  "root_list (mark_set gc V k) = root_list gc" "type_defs (mark_set gc V k) = type_defs gc"
  "cell_size (mark_set gc V k) = cell_size gc"
  "size_granularity (mark_set gc V k) = size_granularity gc"
  "protect_count (mark_set gc V k) = protect_count gc"
  "allocations (mark_set gc V k) = allocations gc"
  "current_mark (mark_set gc V k) = current_mark gc"
  "array_type (mark_set gc V k) = array_type gc" "next_addr (mark_set gc V k) = next_addr gc"
  by (simp_all add: mark_set_def)

lemma mark_set_empty [simp]: "mark_set gc {} k = gc"
  by (simp add: mark_set_def)

lemma mark_set_None [simp]: "heap (mark_set gc V k) a = None \<longleftrightarrow> heap gc a = None"
  by (simp add: mark_set_def)

lemma heap_mark_set: "heap (mark_set gc V k) a = (if a \<in> V
     then map_option (\<lambda>mo. if mark mo = PERM then mo else mo\<lparr>mark := k\<rparr>) (heap gc a)
     else heap gc a)"
  by (simp add: mark_set_def)

lemma mark_set_Un: "mark_set (mark_set gc V k) W k = mark_set gc (V \<union> W) k"
proof -
  have "heap (mark_set (mark_set gc V k) W k) = heap (mark_set gc (V \<union> W) k)"
  proof
    fix a
    show "heap (mark_set (mark_set gc V k) W k) a = heap (mark_set gc (V \<union> W) k) a"
      by (cases "heap gc a") (auto simp: heap_mark_set)
  qed
  then show ?thesis by (simp add: mark_set_def)
qed

lemma mark_object_set: "mark_object gc m k = mark_set gc {m} k"
  by (simp add: mark_object_def mark_set_def update_meta_def fun_eq_iff)

lemma pointers_of_mark [simp]: "pointers_of (mark_set gc V k) mo = pointers_of gc mo"
  by (simp add: pointers_of_def fun_eq_iff split: meta_ptr_type.split)

lemma slot_pointers_mark [simp]: "slot_pointers (mark_set gc V k) mo = slot_pointers gc mo"
  by (simp add: slot_pointers_def)

lemma pointers_of_upd_mark [simp]: "pointers_of gc (mo\<lparr>mark := k\<rparr>) = pointers_of gc mo"
  by (simp add: pointers_of_def fun_eq_iff split: meta_ptr_type.split)

lemma slot_pointers_upd_mark [simp]: "slot_pointers gc (mo\<lparr>mark := k\<rparr>) = slot_pointers gc mo"
  by (simp add: slot_pointers_def)

lemma succs_mark_set [simp]: "succs (mark_set gc V k) a = succs gc a"
  by (auto simp: succs_def heap_mark_set slot_pointers_mark split: option.splits)

lemma marked_mark_set: "marked (mark_set gc V k) j a \<longleftrightarrow>
   (if a \<in> V \<and> \<not> marked gc PERM a then j = k \<and> heap gc a \<noteq> None else marked gc j a)"
  by (cases "heap gc a") (auto simp: marked_def heap_mark_set)

lemma visited_empty: "visited gc k {} gc"
  by (simp add: visited_def)

lemma visited_trans:
  assumes "visited gc k V g1" and "visited g1 k W g2" and "k \<noteq> PERM" "k \<noteq> DEAD"
  shows "visited gc k (V \<union> W) g2"
  using assms unfolding visited_def
  by (auto simp: mark_set_Un marked_mark_set split: if_splits)

lemma succs_typed: "heap gc m = Some mo \<Longrightarrow> \<not> type_def mo < 0 \<Longrightarrow> nat (type_def mo) < length (type_defs gc)
  \<Longrightarrow> succs gc m = meta_from_obj ` set (concat (map (pointers_of gc mo) (def_root_list (type_defs gc ! nat (type_def mo))))) - {0}"
  by (simp add: succs_def slot_pointers_def)

lemma gc_reach_mark_set [simp]: "gc_reach (mark_set gc V k) a = gc_reach gc a"
  by (simp add: gc_reach_def)

lemma gc_reach_zero [simp]: "gc_reach gc 0 = {}"
  by (simp add: gc_reach_def)

lemma gc_reach_refl: "a \<noteq> 0 \<Longrightarrow> a \<in> gc_reach gc a"
  by (simp add: gc_reach_def)

lemma gc_reach_succ: "a \<noteq> 0 \<Longrightarrow> c \<in> succs gc a \<Longrightarrow> gc_reach gc c \<subseteq> gc_reach gc a"
  by (auto simp: gc_reach_def intro: converse_rtrancl_into_rtrancl split: if_splits)

lemma visited_object:
  assumes m: "m \<noteq> 0" "heap gc m = Some mo" "mark mo \<noteq> k" "mark mo \<noteq> DEAD"
    and W: "visited (mark_set gc {m} k) k W gc'"
    and c: "\<forall>c\<in>succs gc m. c \<in> W \<or> marked (mark_set gc {m} k) k c"
    and k: "k \<noteq> PERM" "k \<noteq> DEAD"
  shows "visited gc k (insert m W) gc'"
proof -
  have "\<forall>a\<in>W. \<forall>c\<in>succs gc a. c \<in> insert m W \<or> marked gc k c"
    using W by (auto simp: visited_def marked_mark_set split: if_splits)
  moreover have "\<forall>c\<in>succs gc m. c \<in> insert m W \<or> marked gc k c"
    using c by (auto simp: marked_mark_set split: if_splits)
  moreover have "\<forall>a\<in>W. a \<noteq> 0 \<and> heap gc a \<noteq> None \<and> \<not> marked gc k a \<and> \<not> marked gc DEAD a"
    using W m k by (auto simp: visited_def marked_mark_set split: if_splits)
  moreover have "gc' = mark_set gc (insert m W) k"
    using W by (simp add: visited_def mark_set_Un)
  ultimately show ?thesis
    using m by (auto simp: visited_def marked_def)
qed

lemma mark_graph_visited:
  "mark_graph d gc m k = Inr gc' \<Longrightarrow> k \<noteq> PERM \<Longrightarrow> k \<noteq> DEAD \<Longrightarrow>
     \<exists>V. visited gc k V gc' \<and> (m = 0 \<or> m \<in> V \<or> marked gc k m) \<and> V \<subseteq> gc_reach gc m"
  "mark_pointers d gc ps k = Inr gc' \<Longrightarrow> k \<noteq> PERM \<Longrightarrow> k \<noteq> DEAD \<Longrightarrow>
     \<exists>V. visited gc k V gc' \<and> (\<forall>c \<in> meta_from_obj ` set ps - {0}. c \<in> V \<or> marked gc k c)
       \<and> V \<subseteq> (\<Union>c \<in> meta_from_obj ` set ps. gc_reach gc c)"
proof (induction d gc m k and d gc ps k arbitrary: gc' and gc'
       rule: mark_graph_mark_pointers.induct)
  case (1 gc m k)
  then show ?case by simp
next
  case (2 d gc m k)
  show ?case
  proof (cases "m = 0 \<or> marked gc k m")
    case True
    then have "gc' = gc" using "2.prems" by (auto simp: marked_def res_simps split: if_splits)
    with True show ?thesis by (auto intro!: exI [of _ "{}"] simp: visited_empty)
  next
    case False
    then have m0: "m \<noteq> 0" by simp
    with "2.prems"(1) obtain mo where mo1: "heap gc m = Some mo"
      by (cases "heap gc m") auto
    with False have mo2: "mark mo \<noteq> k" by (simp add: marked_def)
    with mo1 m0 "2.prems"(1) have "mark mo \<noteq> DEAD" by auto
    note mo = mo1 mo2 this
    show ?thesis
    proof (cases "type_def mo < 0")
      case True
      then have s: "succs gc m = {}"
        using mo by (simp add: succs_def slot_pointers_def)
      from "2.prems"(1) True mo m0 have g: "gc' = mark_set gc {m} k"
        by (simp add: mark_object_set)
      have "visited gc k {m} gc'"
        unfolding g using visited_object [OF m0 mo visited_empty _ "2.prems"(2,3)] s by simp
      then show ?thesis using m0 by (auto intro!: exI [of _ "{m}"] gc_reach_refl)
    next
      case t: False
      define ps where "ps = slot_pointers gc mo"
      have ps: "mark_pointers d (mark_set gc {m} k) ps k = Inr gc'"
        and sc: "succs gc m = meta_from_obj ` set ps - {0}"
        using "2.prems" mo m0 t
        by (auto simp: mark_object_set ps_def slot_pointers_def succs_def res_simps)
      obtain W where W: "visited (mark_set gc {m} k) k W gc'"
        "\<forall>c \<in> meta_from_obj ` set ps - {0}. c \<in> W \<or> marked (mark_set gc {m} k) k c"
        "W \<subseteq> (\<Union>c \<in> meta_from_obj ` set ps. gc_reach gc c)"
        using "2.IH" [of mo "type_defs gc ! nat (type_def mo)" gc'] "2.prems" ps mo m0 t
        by (auto simp: mark_object_set ps_def slot_pointers_def res_simps split: if_splits)
      have "visited gc k (insert m W) gc'"
        using visited_object [OF m0 mo W(1)] W(2) sc "2.prems" by auto
      moreover have "W \<subseteq> gc_reach gc m"
      proof -
        have "gc_reach gc c \<subseteq> gc_reach gc m" if "c \<in> meta_from_obj ` set ps" for c
          using that sc gc_reach_succ [OF m0, of c gc] by (cases "c = 0") auto
        then show ?thesis using W(3) by blast
      qed
      ultimately show ?thesis using m0 gc_reach_refl by (intro exI [of _ "insert m W"]) auto
    qed
  qed
next
  case (3 d gc k)
  then show ?case by (auto intro!: exI [of _ "{}"] simp: visited_empty)
next
  case (4 d gc p ps k)
  from "4.prems" obtain g1 where g1: "mark_graph d gc (meta_from_obj p) k = Inr g1"
    "mark_pointers d g1 ps k = Inr gc'" by (auto simp: res_simps)
  from "4.IH"(1) [OF g1(1)] "4.prems" obtain V where V: "visited gc k V g1"
    "meta_from_obj p = 0 \<or> meta_from_obj p \<in> V \<or> marked gc k (meta_from_obj p)"
    "V \<subseteq> gc_reach gc (meta_from_obj p)" by auto
  from "4.IH"(2) [OF g1] "4.prems" obtain W where W: "visited g1 k W gc'"
    "\<forall>c \<in> meta_from_obj ` set ps - {0}. c \<in> W \<or> marked g1 k c"
    "W \<subseteq> (\<Union>c \<in> meta_from_obj ` set ps. gc_reach g1 c)" by auto
  have g1': "g1 = mark_set gc V k" using V by (simp add: visited_def)
  have "visited gc k (V \<union> W) gc'"
    using visited_trans [OF V(1) W(1)] "4.prems" by simp
  moreover have "\<forall>c \<in> meta_from_obj ` set (p # ps) - {0}. c \<in> V \<union> W \<or> marked gc k c"
    using V(2) W(2) by (auto simp: g1' marked_mark_set split: if_splits)
  moreover have "V \<union> W \<subseteq> (\<Union>c \<in> meta_from_obj ` set (p # ps). gc_reach gc c)"
    using V(3) W(3) by (auto simp: g1')
  ultimately show ?case by blast
qed

subsection \<open>Enough stack\<close>

definition live_objs :: "gc_ms \<Rightarrow> addr set" where
  "live_objs gc = set (active_list gc) \<union> set (perm_list gc)"

text \<open>What marking needs of the heap; no pointer leads to a permanent object.\<close>

definition mark_ok :: "gc_ms \<Rightarrow> bool" where
  "mark_ok gc \<longleftrightarrow>
     (\<forall>a\<in>live_objs gc. a \<noteq> 0 \<and> (\<exists>mo. heap gc a = Some mo \<and> mark mo \<noteq> DEAD
        \<and> type_def mo < int (length (type_defs gc)))
        \<and> succs gc a \<subseteq> set (active_list gc))
     \<and> (\<forall>a\<in>set (active_list gc). \<not> marked gc PERM a)"

definition white :: "gc_ms \<Rightarrow> mark_type \<Rightarrow> addr set" where
  "white gc k = {a \<in> set (active_list gc). \<not> marked gc k a}"

lemma finite_white [simp]: "finite (white gc k)"
  by (simp add: white_def)

lemma white_mark_set: "k \<noteq> PERM \<Longrightarrow> white (mark_set gc V k) k \<subseteq> white gc k"
  by (auto simp: white_def marked_mark_set split: if_splits) (auto simp: marked_def)

lemma mark_okE:
  assumes "mark_ok gc" "a \<in> live_objs gc"
  obtains mo where "a \<noteq> 0" "heap gc a = Some mo" "mark mo \<noteq> DEAD"
    "type_def mo < int (length (type_defs gc))" "succs gc a \<subseteq> set (active_list gc)"
  using assms unfolding mark_ok_def by blast

lemma mark_ok_mark_set:
  assumes "mark_ok gc" "k \<noteq> DEAD" "k \<noteq> PERM"
  shows "mark_ok (mark_set gc V k)"
  unfolding mark_ok_def
proof (intro conjI ballI)
  fix a assume "a \<in> live_objs (mark_set gc V k)"
  then have "a \<in> live_objs gc" by (simp add: live_objs_def)
  with assms(1) obtain mo where "a \<noteq> 0" "heap gc a = Some mo" "mark mo \<noteq> DEAD"
    "type_def mo < int (length (type_defs gc))" "succs gc a \<subseteq> set (active_list gc)"
    by (rule mark_okE)
  then show "a \<noteq> 0"
    "\<exists>mo. heap (mark_set gc V k) a = Some mo \<and> mark mo \<noteq> DEAD
      \<and> type_def mo < int (length (type_defs (mark_set gc V k)))"
    "succs (mark_set gc V k) a \<subseteq> set (active_list (mark_set gc V k))"
    using assms(2) by (auto simp: heap_mark_set)
next
  fix a assume "a \<in> set (active_list (mark_set gc V k))"
  then show "\<not> marked (mark_set gc V k) PERM a"
    using assms by (auto simp: mark_ok_def marked_mark_set)
qed

lemma white_mark_object:
  assumes "mark_ok gc" "m \<in> white gc k" "k \<noteq> PERM" "k \<noteq> DEAD"
  shows "card (white (mark_set gc {m} k) k) < card (white gc k)"
proof (rule psubset_card_mono)
  show "white (mark_set gc {m} k) k \<subset> white gc k"
  proof
    show "white (mark_set gc {m} k) k \<subseteq> white gc k" using assms(3) by (rule white_mark_set)
    have "m \<in> live_objs gc" using assms(2) by (simp add: white_def live_objs_def)
    with assms(1) have "heap gc m \<noteq> None" by (auto elim: mark_okE)
    moreover have "\<not> marked gc PERM m" using assms(1,2) by (auto simp: mark_ok_def white_def)
    ultimately have "m \<notin> white (mark_set gc {m} k) k"
      by (auto simp: white_def marked_mark_set)
    then show "white (mark_set gc {m} k) k \<noteq> white gc k" using assms(2) by auto
  qed
qed simp

lemma mark_graph_total:
  "mark_ok gc \<Longrightarrow> k \<noteq> PERM \<Longrightarrow> k \<noteq> DEAD \<Longrightarrow> m = 0 \<or> m \<in> set (active_list gc) \<Longrightarrow>
     card (white gc k) < d \<Longrightarrow> \<exists>gc'. mark_graph d gc m k = Inr gc'"
  "mark_ok gc \<Longrightarrow> k \<noteq> PERM \<Longrightarrow> k \<noteq> DEAD \<Longrightarrow>
     (\<forall>c \<in> meta_from_obj ` set ps - {0}. c \<in> set (active_list gc)) \<Longrightarrow>
     card (white gc k) < d \<Longrightarrow> \<exists>gc'. mark_pointers d gc ps k = Inr gc'"
proof (induction d gc m k and d gc ps k rule: mark_graph_mark_pointers.induct)
  case (1 gc m k)
  then show ?case by simp
next
  case (2 d gc m k)
  show ?case
  proof (cases "m = 0 \<or> marked gc k m")
    case True
    then show ?thesis by (auto simp: marked_def)
  next
    case False
    then have m0: "m \<noteq> 0" and ma: "m \<in> set (active_list gc)" using "2.prems" by auto
    with "2.prems"(1) obtain mo where mo: "heap gc m = Some mo" "mark mo \<noteq> DEAD"
      "type_def mo < int (length (type_defs gc))" "succs gc m \<subseteq> set (active_list gc)"
      by (auto simp: live_objs_def elim!: mark_okE [of gc m])
    with False have mk: "mark mo \<noteq> k" by (simp add: marked_def)
    show ?thesis
    proof (cases "type_def mo < 0")
      case True
      with mo m0 mk show ?thesis by simp
    next
      case t: False
      let ?def = "type_defs gc ! nat (type_def mo)"
      have ok: "mark_ok (mark_object gc m k)"
        using mark_ok_mark_set [OF "2.prems"(1)] "2.prems"(2,3) by (simp add: mark_object_set)
      have "card (white (mark_object gc m k) k) < card (white gc k)"
        using white_mark_object [OF "2.prems"(1)] "2.prems"(2,3) False ma
        by (simp add: mark_object_set white_def)
      then have "card (white (mark_object gc m k) k) < d" using "2.prems"(5) by simp
      moreover have "\<forall>c \<in> meta_from_obj ` set (concat (map (pointers_of gc mo)
          (def_root_list ?def))) - {0}. c \<in> set (active_list (mark_object gc m k))"
        using mo t succs_typed [OF mo(1) t] by (auto simp: mark_object_set)
      ultimately have "\<exists>gc'. mark_pointers d (mark_object gc m k)
          (concat (map (pointers_of gc mo) (def_root_list ?def))) k = Inr gc'"
        using "2.IH" [of mo ?def] mo m0 mk t ok "2.prems"(2,3) by auto
      then show ?thesis using mo m0 mk t by auto
    qed
  qed
next
  case (3 d gc k)
  then show ?case by simp
next
  case (4 d gc p ps k)
  obtain g1 where g1: "mark_graph d gc (meta_from_obj p) k = Inr g1"
    using "4.IH"(1) "4.prems" by auto
  with mark_graph_visited(1) [OF g1] "4.prems" obtain V where V: "g1 = mark_set gc V k"
    by (auto simp: visited_def)
  have "card (white g1 k) \<le> card (white gc k)"
    using white_mark_set "4.prems"(2) by (auto simp: V intro!: card_mono)
  then have "\<exists>gc'. mark_pointers d g1 ps k = Inr gc'"
    using "4.IH"(2) [OF g1] "4.prems" mark_ok_mark_set [of gc k V] by (auto simp: V)
  then show ?case using g1 by auto
qed

lemma mark_graph_total_perm:
  assumes "mark_ok gc" "k \<noteq> PERM" "k \<noteq> DEAD" "m \<in> set (perm_list gc)" "card (white gc k) < d"
  shows "\<exists>gc'. mark_graph (Suc d) gc m k = Inr gc'"
proof -
  obtain mo where mo: "m \<noteq> 0" "heap gc m = Some mo" "mark mo \<noteq> DEAD"
      "type_def mo < int (length (type_defs gc))" "succs gc m \<subseteq> set (active_list gc)"
    using assms by (auto simp: live_objs_def elim!: mark_okE [of gc m])
  let ?ps = "concat (map (pointers_of gc mo) (def_root_list (type_defs gc ! nat (type_def mo))))"
  show ?thesis
  proof (cases "mark mo = k \<or> type_def mo < 0")
    case True
    with mo show ?thesis by auto
  next
    case False
    have "card (white (mark_object gc m k) k) \<le> card (white gc k)"
      using white_mark_set assms(2) by (auto simp: mark_object_set intro!: card_mono)
    moreover have "\<forall>c \<in> meta_from_obj ` set ?ps - {0}.
        c \<in> set (active_list (mark_object gc m k))"
    proof -
      from False mo(4) have "nat (type_def mo) < length (type_defs gc)" by auto
      with succs_typed [OF mo(2)] False mo(5) show ?thesis by (auto simp: mark_object_set)
    qed
    ultimately have "\<exists>gc'. mark_pointers d (mark_object gc m k) ?ps k = Inr gc'"
      using mark_graph_total(2) [of "mark_object gc m k" k ?ps d] assms
        mark_ok_mark_set [OF assms(1)] by (simp add: mark_object_set)
    then show ?thesis using mo False by auto
  qed
qed

end
