(* ===== verification/Gc_Sweep.thy ===== *)
theory Gc_Sweep
  imports Gc_Mark
begin

text \<open>
  Collection: the invariant of the collector, the live objects (what is reachable from the
  permanent objects and the roots), and what one mark and sweep does: exactly the live objects
  stay, and every other object of the active list becomes a dead cell or is freed.
\<close>

section \<open>Invariant\<close>

definition root_objs :: "gc_ms \<Rightarrow> addr set" where
  "root_objs gc = (set (perm_list gc) \<union> (\<lambda>r. meta_from_obj (vars gc r)) ` set (root_list gc)) - {0}"

definition live :: "gc_ms \<Rightarrow> addr set" where
  "live gc = (\<Union>a\<in>root_objs gc. gc_reach gc a)"

definition gc_inv :: "gc_ms \<Rightarrow> bool" where
  "gc_inv gc \<longleftrightarrow>
     distinct (active_list gc @ dead_list gc @ perm_list gc)
   \<and> (\<forall>a. heap gc a \<noteq> None \<longleftrightarrow> a \<in> set (active_list gc @ dead_list gc @ perm_list gc))
   \<and> (\<forall>a. heap gc a \<noteq> None \<longrightarrow> 0 < a \<and> a < next_addr gc)
   \<and> 0 < next_addr gc \<and> 0 < size_granularity gc \<and> 0 \<le> protect_count gc
   \<and> (current_mark gc = RED \<or> current_mark gc = BLACK)
   \<and> (\<forall>a\<in>set (active_list gc). marked gc (current_mark gc) a)
   \<and> (\<forall>a\<in>set (dead_list gc). marked gc DEAD a \<and> obj_size (the (heap gc a)) = cell_size gc)
   \<and> (\<forall>a\<in>set (perm_list gc). marked gc PERM a)
   \<and> (\<forall>a\<in>live_objs gc. type_def (the (heap gc a)) < int (length (type_defs gc)))
   \<and> (\<forall>a\<in>live_objs gc. succs gc a \<subseteq> live_objs gc)
   \<and> root_objs gc \<subseteq> live_objs gc"

text \<open>No object points to a permanent object: permanent objects are reached as roots only.\<close>

definition perm_isolated :: "gc_ms \<Rightarrow> bool" where
  "perm_isolated gc \<longleftrightarrow> (\<forall>a\<in>live_objs gc. succs gc a \<inter> set (perm_list gc) = {})"

definition balance :: "gc_ms \<Rightarrow> int" where
  "balance gc = allocations gc
     - int (length (active_list gc) + length (dead_list gc) + length (perm_list gc))"

definition same_object :: "gc_ms \<Rightarrow> gc_ms \<Rightarrow> addr \<Rightarrow> bool" where
  "same_object gc gc' a \<longleftrightarrow> (\<exists>mo mo'. heap gc a = Some mo \<and> heap gc' a = Some mo'
     \<and> mo'\<lparr>mark := mark mo\<rparr> = mo)"

definition same_frame :: "gc_ms \<Rightarrow> gc_ms \<Rightarrow> bool" where
  "same_frame gc gc' \<longleftrightarrow> vars gc' = vars gc \<and> perm_list gc' = perm_list gc
     \<and> root_list gc' = root_list gc \<and> type_defs gc' = type_defs gc
     \<and> cell_size gc' = cell_size gc \<and> size_granularity gc' = size_granularity gc
     \<and> protect_count gc' = protect_count gc \<and> array_type gc' = array_type gc"

text \<open>What a collection does: exactly the live objects stay, unchanged but for their mark.\<close>

definition collected :: "gc_ms \<Rightarrow> gc_ms \<Rightarrow> bool" where
  "collected gc gc' \<longleftrightarrow> gc_inv gc' \<and> perm_isolated gc' \<and> same_frame gc gc'
     \<and> set (active_list gc') = live gc - set (perm_list gc)
     \<and> (\<forall>a\<in>live gc. same_object gc gc' a) \<and> live gc' = live gc
     \<and> balance gc' = balance gc"

lemma live_iff: "b \<in> live gc \<longleftrightarrow> (\<exists>r\<in>root_objs gc. (r, b) \<in> {(x, y). y \<in> succs gc x}\<^sup>*)"
  by (auto simp: live_def gc_reach_def root_objs_def)

lemma live_closed: "a \<in> live gc \<Longrightarrow> c \<in> succs gc a \<Longrightarrow> c \<in> live gc"
  by (auto simp: live_iff intro: rtrancl_into_rtrancl)

lemma root_objs_live: "root_objs gc \<subseteq> live gc"
  by (auto simp: live_iff)

lemma live_least:
  assumes "root_objs gc \<subseteq> V" "\<And>a c. a \<in> V \<Longrightarrow> c \<in> succs gc a \<Longrightarrow> c \<in> V"
  shows "live gc \<subseteq> V"
proof -
  have "b \<in> V" if "(a, b) \<in> {(x, y). y \<in> succs gc x}\<^sup>*" "a \<in> V" for a b
    using that by (induction rule: rtrancl_induct) (auto intro: assms(2))
  with assms(1) show ?thesis unfolding subset_iff live_iff by blast
qed

lemma live_cong:
  assumes "root_objs gc' = root_objs gc" "\<And>a. a \<in> live gc \<Longrightarrow> succs gc' a = succs gc a"
  shows "live gc' = live gc"
proof
  show "live gc' \<subseteq> live gc"
    using assms root_objs_live [of gc] live_closed [of _ gc] by (intro live_least) auto
  have "live gc \<subseteq> live gc \<inter> live gc'"
    using assms root_objs_live [of gc] root_objs_live [of gc'] live_closed [of _ gc]
      live_closed [of _ gc'] by (intro live_least) auto
  then show "live gc \<subseteq> live gc'" by simp
qed

lemma slot_pointers_frame:
  assumes "type_defs gc' = type_defs gc" "array_type gc' = array_type gc"
  shows "slot_pointers gc' mo = slot_pointers gc mo"
proof -
  have "pointers_of gc' mo = pointers_of gc mo"
    using assms by (simp add: pointers_of_def fun_eq_iff split: meta_ptr_type.split)
  then show ?thesis using assms by (simp add: slot_pointers_def)
qed

lemma same_object_succs:
  assumes "same_object gc gc' a" "same_frame gc gc'"
  shows "succs gc' a = succs gc a"
proof -
  obtain mo mo' where m: "heap gc a = Some mo" "heap gc' a = Some mo'"
    "mo'\<lparr>mark := mark mo\<rparr> = mo" using assms(1) by (auto simp: same_object_def)
  have "slot_pointers gc' mo' = slot_pointers gc mo"
    using slot_pointers_upd_mark [where gc = gc and mo = mo' and k = "mark mo"] m(3) assms(2)
      slot_pointers_frame [of gc' gc mo'] by (simp add: same_frame_def)
  then show ?thesis by (simp add: succs_def m)
qed

lemma same_frame_roots: "same_frame gc gc' \<Longrightarrow> root_objs gc' = root_objs gc"
  by (simp add: same_frame_def root_objs_def)

lemma gc_invI:
  assumes "distinct (active_list gc @ dead_list gc @ perm_list gc)"
    and "\<And>a. heap gc a \<noteq> None \<longleftrightarrow> a \<in> set (active_list gc @ dead_list gc @ perm_list gc)"
    and "\<And>a. heap gc a \<noteq> None \<Longrightarrow> 0 < a \<and> a < next_addr gc"
    and "0 < next_addr gc" "0 < size_granularity gc" "0 \<le> protect_count gc"
    and "current_mark gc = RED \<or> current_mark gc = BLACK"
    and "\<And>a. a \<in> set (active_list gc) \<Longrightarrow> marked gc (current_mark gc) a"
    and "\<And>a. a \<in> set (dead_list gc) \<Longrightarrow> marked gc DEAD a \<and> obj_size (the (heap gc a)) = cell_size gc"
    and "\<And>a. a \<in> set (perm_list gc) \<Longrightarrow> marked gc PERM a"
    and "\<And>a. a \<in> live_objs gc \<Longrightarrow> type_def (the (heap gc a)) < int (length (type_defs gc))"
    and "\<And>a. a \<in> live_objs gc \<Longrightarrow> succs gc a \<subseteq> live_objs gc"
    and "root_objs gc \<subseteq> live_objs gc"
  shows "gc_inv gc"
  unfolding gc_inv_def by (intro conjI allI ballI impI assms) assumption+

lemma gc_inv_live: "gc_inv gc \<Longrightarrow> live gc \<subseteq> live_objs gc"
  by (intro live_least) (auto simp: gc_inv_def)

lemma gc_inv_dom:
  assumes "gc_inv gc"
  shows "heap gc a \<noteq> None \<longleftrightarrow> a \<in> set (active_list gc @ dead_list gc @ perm_list gc)"
proof -
  from assms have "\<forall>a. heap gc a \<noteq> None \<longleftrightarrow>
      a \<in> set (active_list gc @ dead_list gc @ perm_list gc)"
    unfolding gc_inv_def by (elim conjE)
  then show ?thesis by (rule spec)
qed

lemma gc_inv_addr:
  assumes "gc_inv gc" "heap gc a \<noteq> None"
  shows "0 < a" "a < next_addr gc"
proof -
  from assms(1) have "\<forall>a. heap gc a \<noteq> None \<longrightarrow> 0 < a \<and> a < next_addr gc"
    unfolding gc_inv_def by (elim conjE)
  with assms(2) show "0 < a" "a < next_addr gc" by simp_all
qed

lemma gc_inv_heap:
  assumes "gc_inv gc" "a \<in> set (active_list gc @ dead_list gc @ perm_list gc)"
  obtains mo where "heap gc a = Some mo" "0 < a" "a < next_addr gc"
  using assms gc_inv_dom [OF assms(1), of a] gc_inv_addr [OF assms(1), of a]
  by (cases "heap gc a") auto

lemma gc_inv_disjoint:
  assumes "gc_inv gc"
  shows "set (active_list gc) \<inter> set (dead_list gc) = {}"
    "set (active_list gc) \<inter> set (perm_list gc) = {}"
    "set (dead_list gc) \<inter> set (perm_list gc) = {}"
    "distinct (active_list gc)" "distinct (dead_list gc)" "distinct (perm_list gc)"
  using assms unfolding gc_inv_def by auto

lemma marked_unique: "marked gc j a \<Longrightarrow> marked gc k a \<longleftrightarrow> j = k"
  by (auto simp: marked_def)

lemma gc_inv_marks:
  assumes "gc_inv gc"
  shows "a \<in> set (active_list gc) \<Longrightarrow> marked gc (current_mark gc) a"
    "a \<in> set (dead_list gc) \<Longrightarrow> marked gc DEAD a"
    "a \<in> set (perm_list gc) \<Longrightarrow> marked gc PERM a"
    "current_mark gc \<noteq> PERM" "current_mark gc \<noteq> DEAD"
  using assms unfolding gc_inv_def by auto

lemma gc_inv_mark_ok:
  assumes inv: "gc_inv gc" and iso: "perm_isolated gc"
  shows "mark_ok gc"
  unfolding mark_ok_def
proof (intro conjI ballI)
  fix a assume a: "a \<in> live_objs gc"
  then obtain mo where mo: "heap gc a = Some mo" "0 < a"
    using gc_inv_heap [OF inv, of a] by (auto simp: live_objs_def)
  show "a \<noteq> 0" using mo by simp
  have "\<not> marked gc DEAD a"
    using a gc_inv_marks(1-3) [OF inv, of a] gc_inv_marks(4,5) [OF inv] marked_unique [of gc _ a DEAD] by (auto simp: live_objs_def)
  moreover have "type_def mo < int (length (type_defs gc))"
    using inv a mo by (auto simp: gc_inv_def)
  ultimately show "\<exists>mo. heap gc a = Some mo \<and> mark mo \<noteq> DEAD
      \<and> type_def mo < int (length (type_defs gc))"
    using mo by (auto simp: marked_def)
  have "succs gc a \<subseteq> live_objs gc" using inv a by (simp add: gc_inv_def)
  then show "succs gc a \<subseteq> set (active_list gc)"
    using iso a by (auto simp: perm_isolated_def live_objs_def)
next
  fix a assume "a \<in> set (active_list gc)"
  then show "\<not> marked gc PERM a"
    using gc_inv_marks(1-3) [OF inv, of a] gc_inv_marks(4,5) [OF inv] marked_unique [of gc _ a PERM] by auto
qed

section \<open>The mark phase\<close>

lemma mark_list_visited:
  "mark_list d gc ms k = Inr g \<Longrightarrow> k \<noteq> PERM \<Longrightarrow> k \<noteq> DEAD \<Longrightarrow>
     \<exists>V. visited gc k V g \<and> (\<forall>m\<in>set ms. m = 0 \<or> m \<in> V \<or> marked gc k m)
       \<and> V \<subseteq> (\<Union>m\<in>set ms. gc_reach gc m)"
proof (induction ms arbitrary: gc)
  case Nil
  then show ?case by (auto intro!: exI [of _ "{}"] simp: visited_empty)
next
  case (Cons m ms)
  then obtain g1 where g1: "mark_graph d gc m k = Inr g1" "mark_list d g1 ms k = Inr g"
    by (auto simp: res_simps)
  from mark_graph_visited(1) [OF g1(1) Cons.prems(2,3)] obtain V where V: "visited gc k V g1"
    "m = 0 \<or> m \<in> V \<or> marked gc k m" "V \<subseteq> gc_reach gc m" by auto
  from Cons.IH [OF g1(2) Cons.prems(2,3)] obtain W where W: "visited g1 k W g"
    "\<forall>m\<in>set ms. m = 0 \<or> m \<in> W \<or> marked g1 k m" "W \<subseteq> (\<Union>m\<in>set ms. gc_reach g1 m)" by auto
  have g1': "g1 = mark_set gc V k" using V(1) by (simp add: visited_def)
  have "visited gc k (V \<union> W) g" using visited_trans [OF V(1) W(1) Cons.prems(2,3)] .
  moreover have "\<forall>m\<in>set (m # ms). m = 0 \<or> m \<in> V \<union> W \<or> marked gc k m"
    using V(2) W(2) by (auto simp: g1' marked_mark_set split: if_splits)
  moreover have "V \<union> W \<subseteq> (\<Union>m\<in>set (m # ms). gc_reach gc m)"
    using V(3) W(3) by (auto simp: g1')
  ultimately show ?case by blast
qed

lemma mark_root_list:
  "mark_root d gc rs k = mark_list d gc (map (\<lambda>r. meta_from_obj (vars gc r)) rs) k"
  if "k \<noteq> PERM" "k \<noteq> DEAD"
proof (induction rs arbitrary: gc)
  case (Cons r rs)
  show ?case
  proof (cases "mark_graph d gc (meta_from_obj (vars gc r)) k")
    case (Inr g)
    then have "vars g = vars gc"
      using mark_graph_visited(1) [OF Inr that] by (auto simp: visited_def)
    then show ?thesis using Inr Cons by simp
  qed simp
qed simp

lemma mark_list_total:
  "mark_ok gc \<Longrightarrow> k \<noteq> PERM \<Longrightarrow> k \<noteq> DEAD \<Longrightarrow> card (white gc k) < d \<Longrightarrow>
     (\<forall>m\<in>set ms. m = 0 \<or> m \<in> live_objs gc) \<Longrightarrow> \<exists>g. mark_list (Suc d) gc ms k = Inr g"
proof (induction ms arbitrary: gc)
  case (Cons m ms)
  obtain g1 where g1: "mark_graph (Suc d) gc m k = Inr g1"
    using Cons.prems mark_graph_total(1) [of gc k m "Suc d"] mark_graph_total_perm [of gc k m d]
    by (auto simp: live_objs_def simp del: mark_graph.simps)
  from mark_graph_visited(1) [OF g1 Cons.prems(2,3)] obtain V where V: "g1 = mark_set gc V k"
    by (auto simp: visited_def)
  have "card (white g1 k) \<le> card (white gc k)"
    using white_mark_set Cons.prems(2) by (auto simp: V intro!: card_mono)
  then have "\<exists>g. mark_list (Suc d) g1 ms k = Inr g"
    using Cons.prems mark_ok_mark_set [of gc k V]
    by (intro Cons.IH) (auto simp: V live_objs_def)
  then show ?case using g1 by (auto simp del: mark_graph.simps)
qed simp

lemma gc_inv_white_card: "card (white gc k) \<le> length (active_list gc)"
proof -
  have "card (white gc k) \<le> card (set (active_list gc))"
    by (rule card_mono) (auto simp: white_def)
  then show ?thesis using card_length [of "active_list gc"] by simp
qed

lemma mark_phase:
  assumes ok: "mark_ok gc" and roots: "root_objs gc \<subseteq> live_objs gc"
    and liv: "live gc \<subseteq> live_objs gc" and unm: "\<And>a. a \<in> live_objs gc \<Longrightarrow> \<not> marked gc k a"
    and k: "k \<noteq> PERM" "k \<noteq> DEAD" and d: "length (active_list gc) < d"
  obtains g where "mark_list (Suc d) gc (perm_list gc) k = Inr g"
    "mark_root (Suc d) g (root_list g) k = Inr (mark_set gc (live gc) k)"
proof -
  have w: "card (white gc k) < d" using gc_inv_white_card [of gc k] d by simp
  obtain g where g: "mark_list (Suc d) gc (perm_list gc) k = Inr g"
    using mark_list_total [OF ok k(1,2) w] by (auto simp: live_objs_def)
  from mark_list_visited [OF g k(1,2)] obtain V where V: "visited gc k V g"
    "\<forall>m\<in>set (perm_list gc). m = 0 \<or> m \<in> V \<or> marked gc k m"
    "V \<subseteq> (\<Union>m\<in>set (perm_list gc). gc_reach gc m)" by auto
  have g': "g = mark_set gc V k" using V(1) by (simp add: visited_def)
  let ?rs = "map (\<lambda>r. meta_from_obj (vars g r)) (root_list g)"
  have okg: "mark_ok g" unfolding g' using ok k by (intro mark_ok_mark_set)
  have wg: "card (white g k) < d"
    using gc_inv_white_card [of g k] d by (simp add: g')
  have "\<forall>m\<in>set ?rs. m = 0 \<or> m \<in> live_objs g"
    using roots by (auto simp: root_objs_def live_objs_def g')
  from mark_list_total [OF okg k(1,2) wg this] obtain g2 where
    g2: "mark_list (Suc d) g ?rs k = Inr g2" by auto
  from mark_list_visited [OF g2 k(1,2)] obtain W where W: "visited g k W g2"
    "\<forall>m\<in>set ?rs. m = 0 \<or> m \<in> W \<or> marked g k m" "W \<subseteq> (\<Union>m\<in>set ?rs. gc_reach g m)" by auto
  have vis: "visited gc k (V \<union> W) g2" using visited_trans [OF V(1) W(1) k(1,2)] .
  have sub: "V \<union> W \<subseteq> live gc"
  proof -
    have r: "gc_reach gc m \<subseteq> live gc" if "m = 0 \<or> m \<in> root_objs gc" for m
      using that by (auto simp: live_def)
    have "gc_reach gc m \<subseteq> live gc" if "m \<in> set (perm_list gc)" for m
      using that by (intro r) (auto simp: root_objs_def)
    moreover have "gc_reach gc m \<subseteq> live gc" if "m \<in> set ?rs" for m
      using that by (intro r) (auto simp: root_objs_def g')
    ultimately show ?thesis using V(3) W(3) unfolding g' gc_reach_mark_set by blast
  qed
  have "root_objs gc \<subseteq> V \<union> W"
  proof
    fix a assume a: "a \<in> root_objs gc"
    then have "a \<in> live_objs gc" using liv root_objs_live [of gc] by blast
    then have na: "\<not> marked gc k a" "a \<noteq> 0" using unm a by (auto simp: root_objs_def)
    show "a \<in> V \<union> W"
    proof (cases "a \<in> set (perm_list gc)")
      case True
      then show ?thesis using V(2) na by auto
    next
      case False
      then have "a \<in> set ?rs" using a by (auto simp: root_objs_def g')
      then show ?thesis using W(2) na by (auto simp: g' marked_mark_set split: if_splits)
    qed
  qed
  moreover have "c \<in> V \<union> W" if "a \<in> V \<union> W" "c \<in> succs gc a" for a c
  proof -
    have "c \<in> live_objs gc"
      using that sub live_closed [of a gc c] liv by auto
    then show ?thesis using vis that unm by (auto simp: visited_def)
  qed
  ultimately have "V \<union> W = live gc" using sub live_least [of gc "V \<union> W"] by blast
  then have "g2 = mark_set gc (live gc) k" using vis by (simp add: visited_def)
  then show ?thesis using that [OF g] g2 by (simp add: mark_root_list [OF k(1,2)])
qed

section \<open>The sweep phase\<close>

definition freed :: "gc_ms \<Rightarrow> mark_type \<Rightarrow> addr \<Rightarrow> bool" where
  "freed gc k a \<longleftrightarrow> \<not> marked gc k a \<and> obj_size (the (heap gc a)) \<noteq> cell_size gc"

definition recycled :: "gc_ms \<Rightarrow> mark_type \<Rightarrow> addr \<Rightarrow> bool" where
  "recycled gc k a \<longleftrightarrow> \<not> marked gc k a \<and> obj_size (the (heap gc a)) = cell_size gc"

definition swept_heap :: "gc_ms \<Rightarrow> mark_type \<Rightarrow> addr set \<Rightarrow> addr \<Rightarrow> meta_obj option" where
  "swept_heap gc k A a =
     (if a \<in> A \<and> freed gc k a then None
      else if a \<in> A \<and> recycled gc k a then map_option (\<lambda>mo. mo\<lparr>mark := DEAD\<rparr>) (heap gc a)
      else heap gc a)"

lemma sweep_loop_spec:
  assumes "distinct xs" "\<forall>a\<in>set xs. heap gc a \<noteq> None"
  shows "sweep_loop gc k xs na dead = Inr (gc\<lparr>heap := swept_heap gc k (set xs),
     active_list := rev (filter (marked gc k) xs) @ na,
     dead_list := rev (filter (recycled gc k) xs) @ dead,
     allocations := allocations gc - int (length (filter (freed gc k) xs))\<rparr>)"
  using assms
proof (induction xs arbitrary: gc na dead)
  case Nil
  have "swept_heap gc k {} = heap gc" by (simp add: swept_heap_def fun_eq_iff)
  then show ?case by simp
next
  case (Cons a xs)
  then obtain mo where mo: "heap gc a = Some mo" by auto
  have out: "a \<notin> set xs" using Cons.prems by simp
  define g where "g = (if mark mo = k then gc
    else if obj_size mo = cell_size gc then update_meta gc a (\<lambda>mo. mo\<lparr>mark := DEAD\<rparr>)
    else gc_free gc a)"
  have same: "heap g b = heap gc b" if "b \<noteq> a" for b
    using that by (simp add: g_def update_meta_def gc_free_def)
  have cs: "cell_size g = cell_size gc" by (simp add: g_def update_meta_def gc_free_def)
  have pr: "marked g k b = marked gc k b" "recycled g k b = recycled gc k b"
    "freed g k b = freed gc k b" if "b \<in> set xs" for b
  proof -
    have "heap g b = heap gc b" using that out by (intro same) auto
    then show "marked g k b = marked gc k b" "recycled g k b = recycled gc k b"
      "freed g k b = freed gc k b" by (simp_all add: marked_def recycled_def freed_def cs)
  qed
  have fl: "filter (marked g k) xs = filter (marked gc k) xs"
    "filter (recycled g k) xs = filter (recycled gc k) xs"
    "filter (freed g k) xs = filter (freed gc k) xs"
    using pr by (auto cong: filter_cong)
  have hp: "swept_heap g k (set xs) = swept_heap gc k (set (a # xs))"
  proof
    fix b
    show "swept_heap g k (set xs) b = swept_heap gc k (set (a # xs)) b"
    proof (cases "b = a")
      case True
      then show ?thesis using mo out
        by (auto simp: swept_heap_def g_def update_meta_def gc_free_def freed_def recycled_def
            marked_def)
    next
      case False
      then show ?thesis using same [OF False] pr [of b]
        by (cases "b \<in> set xs") (simp_all add: swept_heap_def)
    qed
  qed
  have hx: "\<forall>b\<in>set xs. heap g b \<noteq> None"
  proof
    fix b assume b: "b \<in> set xs"
    then have "heap g b = heap gc b" using out by (intro same) auto
    then show "heap g b \<noteq> None" using Cons.prems b by simp
  qed
  have IH: "sweep_loop g k xs na' dead' = Inr (g\<lparr>heap := swept_heap gc k (set (a # xs)),
     active_list := rev (filter (marked gc k) xs) @ na',
     dead_list := rev (filter (recycled gc k) xs) @ dead',
     allocations := allocations g - int (length (filter (freed gc k) xs))\<rparr>)" for na' dead'
    using Cons.IH [of g na' dead'] Cons.prems hx by (simp add: fl hp)
  show ?case
  proof (cases "mark mo = k")
    case True
    then have "marked gc k a" "\<not> recycled gc k a" "\<not> freed gc k a" "g = gc"
      using mo by (auto simp: marked_def recycled_def freed_def g_def)
    then show ?thesis using IH [of "a # na" dead] mo True by simp
  next
    case nk: False
    then have um: "\<not> marked gc k a" using mo by (simp add: marked_def)
    show ?thesis
    proof (cases "obj_size mo = cell_size gc")
      case True
      then have "recycled gc k a" "\<not> freed gc k a"
        and g: "g = update_meta gc a (\<lambda>mo. mo\<lparr>mark := DEAD\<rparr>)"
        using mo um nk by (auto simp: recycled_def freed_def g_def)
      then show ?thesis using IH [of na "a # dead"] mo um nk True by (simp add: update_meta_def)
    next
      case False
      then have "\<not> recycled gc k a" "freed gc k a" and g: "g = gc_free gc a"
        using mo um nk by (auto simp: recycled_def freed_def g_def)
      then show ?thesis using IH [of na dead] mo um nk False by (simp add: gc_free_def)
    qed
  qed
qed

section \<open>Collection\<close>

text \<open>A sweep without the preallocation at its end.\<close>

definition collect :: "nat \<Rightarrow> gc_ms \<Rightarrow> gc_ms res" where
  "collect d gc = (let gc = set_next_mark gc; k = current_mark gc
     in rbind (mark_list d gc (perm_list gc) k) (\<lambda>gc.
        rbind (mark_root d gc (root_list gc) k) (\<lambda>gc. sweep_list gc k)))"

lemma sweep_collect:
  "sweep (Suc d) gc = (if protect_count gc \<noteq> 0 then Inr gc
     else rbind (collect d gc) (\<lambda>gc. if dead_list gc = [] then pre_alloc d gc else Inr gc))"
  by (simp add: collect_def Let_def rbind_assoc)

lemma set_next_mark_frame [simp]:
  "heap (set_next_mark gc) = heap gc" "vars (set_next_mark gc) = vars gc"
  "active_list (set_next_mark gc) = active_list gc" "dead_list (set_next_mark gc) = dead_list gc"
  "perm_list (set_next_mark gc) = perm_list gc" "root_list (set_next_mark gc) = root_list gc"
  "type_defs (set_next_mark gc) = type_defs gc" "cell_size (set_next_mark gc) = cell_size gc"
  "size_granularity (set_next_mark gc) = size_granularity gc"
  "protect_count (set_next_mark gc) = protect_count gc"
  "allocations (set_next_mark gc) = allocations gc" "array_type (set_next_mark gc) = array_type gc"
  "next_addr (set_next_mark gc) = next_addr gc"
  by (simp_all add: set_next_mark_def)

lemma set_next_mark_current:
  "current_mark (set_next_mark gc) \<noteq> current_mark gc" "current_mark (set_next_mark gc) \<noteq> PERM"
  "current_mark (set_next_mark gc) \<noteq> DEAD"
  "current_mark (set_next_mark gc) = RED \<or> current_mark (set_next_mark gc) = BLACK"
  by (auto simp: set_next_mark_def)

lemma length_three_filters:
  assumes "\<And>x. x \<in> set xs \<Longrightarrow> (P x \<and> \<not> Q x \<and> \<not> R x) \<or> (\<not> P x \<and> Q x \<and> \<not> R x) \<or> (\<not> P x \<and> \<not> Q x \<and> R x)"
  shows "length xs = length (filter P xs) + length (filter Q xs) + length (filter R xs)"
  using assms
proof (induction xs)
  case (Cons x xs)
  have "length xs = length (filter P xs) + length (filter Q xs) + length (filter R xs)"
    using Cons.prems by (intro Cons.IH) simp
  with Cons.prems [of x] show ?case by auto
qed simp

lemma succs_frame:
  "type_defs gc' = type_defs gc \<Longrightarrow> array_type gc' = array_type gc \<Longrightarrow> heap gc' a = heap gc a
     \<Longrightarrow> succs gc' a = succs gc a"
  using slot_pointers_frame [of gc' gc] by (simp add: succs_def split: option.split)

lemma marked_frame: "heap gc' a = heap gc a \<Longrightarrow> marked gc' k a = marked gc k a"
  by (simp add: marked_def)

lemma gc_inv_perm_live:
  assumes inv: "gc_inv gc"
  shows "set (perm_list gc) \<subseteq> live gc"
proof
  fix a assume a: "a \<in> set (perm_list gc)"
  have "heap gc a \<noteq> None" unfolding gc_inv_dom [OF inv] using a by auto
  from gc_inv_addr(1) [OF inv this] have "0 < a" .
  with a have "a \<in> root_objs gc" unfolding root_objs_def by blast
  then show "a \<in> live gc" using root_objs_live [of gc] by blast
qed

lemma collect_spec:
  assumes inv: "gc_inv gc" and iso: "perm_isolated gc" and pr: "protect_count gc = 0"
    and d: "length (active_list gc) < d"
  obtains g where "collect (Suc d) gc = Inr g" "collected gc g" "next_addr g = next_addr gc"
    "set (dead_list g) = set (dead_list gc)
       \<union> {a \<in> set (active_list gc). a \<notin> live gc \<and> obj_size (the (heap gc a)) = cell_size gc}"
proof -
  define n where "n = set_next_mark gc"
  define k where "k = current_mark n"
  define h where "h = mark_set n (live gc) k"
  define g where "g = h\<lparr>heap := swept_heap h k (set (active_list gc)),
     active_list := rev (filter (marked h k) (active_list gc)),
     dead_list := rev (filter (recycled h k) (active_list gc)) @ dead_list gc,
     allocations := allocations gc - int (length (filter (freed h k) (active_list gc)))\<rparr>"
  have k: "k \<noteq> current_mark gc" "k \<noteq> PERM" "k \<noteq> DEAD" "k = RED \<or> k = BLACK"
    using set_next_mark_current [of gc] by (auto simp: k_def n_def)
  have nn: "succs n = succs gc" "marked n = marked gc" "live_objs n = live_objs gc"
    "root_objs n = root_objs gc"
    by (simp_all add: n_def fun_eq_iff succs_frame [of "set_next_mark gc" gc]
        marked_frame [of "set_next_mark gc" _ gc] live_objs_def root_objs_def)
  have lno: "live n = live gc" by (intro live_cong) (simp_all add: nn)
  have ok: "mark_ok n"
    using gc_inv_mark_ok [OF inv iso] by (simp add: mark_ok_def nn) (simp add: n_def)
  have unm: "\<not> marked gc k a" if a: "a \<in> live_objs gc" for a
    using a [unfolded live_objs_def]
  proof
    assume "a \<in> set (active_list gc)"
    then have "marked gc (current_mark gc) a" by (rule gc_inv_marks(1) [OF inv])
    from marked_unique [OF this, of k] k(1) show ?thesis by simp
  next
    assume "a \<in> set (perm_list gc)"
    then have "marked gc PERM a" by (rule gc_inv_marks(3) [OF inv])
    from marked_unique [OF this, of k] k(2) show ?thesis by simp
  qed
  have nperm: "\<not> marked gc PERM a" if "a \<in> set (active_list gc)" for a
    using that gc_inv_marks(1) [OF inv, of a] gc_inv_marks(4) [OF inv]
      marked_unique [of gc _ a PERM] by auto
  have roots: "root_objs gc \<subseteq> live_objs gc" using inv by (simp add: gc_inv_def)
  note liv = gc_inv_live [OF inv]
  obtain g1 where g1: "mark_list (Suc d) n (perm_list n) k = Inr g1"
    "mark_root (Suc d) g1 (root_list g1) k = Inr h"
    using mark_phase [OF ok, of k d] roots liv unm k d
    by (auto simp: nn lno h_def) (auto simp: n_def)
  have hs: "cell_size h = cell_size gc" "active_list h = active_list gc"
    "dead_list h = dead_list gc" "allocations h = allocations gc" "protect_count h = 0"
    by (simp_all add: h_def n_def pr)
  have hh: "heap h a = (if a \<in> live gc then map_option (\<lambda>mo. if mark mo = PERM then mo
      else mo\<lparr>mark := k\<rparr>) (heap gc a) else heap gc a)" for a
    by (simp add: h_def heap_mark_set n_def)
  have act: "\<forall>a\<in>set (active_list gc). heap gc a \<noteq> None"
    using gc_inv_dom [OF inv] by auto
  have "sweep_list h k = Inr g"
    using sweep_loop_spec [of "active_list gc" h k "[]" "dead_list gc"]
      gc_inv_disjoint(4) [OF inv] act
    by (simp add: sweep_list_def hs g_def hh)
  then have co: "collect (Suc d) gc = Inr g"
    using g1 by (simp add: collect_def Let_def n_def [symmetric] k_def [symmetric])
  have mk: "marked h k a \<longleftrightarrow> a \<in> live gc" if a: "a \<in> set (active_list gc)" for a
    using nperm [OF a] unm [of a] act a
    by (auto simp: h_def marked_mark_set nn live_objs_def) (simp add: n_def)
  have sz: "obj_size (the (heap h a)) = obj_size (the (heap gc a))" if "heap gc a \<noteq> None" for a
    using that by (auto simp: hh)
  have rec: "recycled h k a \<longleftrightarrow> a \<notin> live gc \<and> obj_size (the (heap gc a)) = cell_size gc"
    "freed h k a \<longleftrightarrow> a \<notin> live gc \<and> obj_size (the (heap gc a)) \<noteq> cell_size gc"
    if a: "a \<in> set (active_list gc)" for a
    using a mk [OF a] sz [of a] act hs by (auto simp: recycled_def freed_def)
  have hg: "heap g a = (if a \<in> set (active_list gc) \<and> a \<notin> live gc then
        (if obj_size (the (heap gc a)) = cell_size gc
         then map_option (\<lambda>mo. mo\<lparr>mark := DEAD\<rparr>) (heap gc a) else None)
      else heap h a)" for a
    using rec [of a] by (auto simp: g_def swept_heap_def hh)
  have lv: "a \<in> set (active_list gc) \<or> a \<in> set (perm_list gc)" if "a \<in> live gc" for a
    using that liv by (auto simp: live_objs_def)
  note pl = gc_inv_perm_live [OF inv]
  have gs: "vars g = vars gc" "perm_list g = perm_list gc" "root_list g = root_list gc"
    "type_defs g = type_defs gc" "cell_size g = cell_size gc"
    "size_granularity g = size_granularity gc" "protect_count g = protect_count gc"
    "array_type g = array_type gc" "next_addr g = next_addr gc" "current_mark g = k"
    by (simp_all add: g_def h_def n_def) (simp add: k_def n_def)
  have fr: "same_frame gc g" by (simp add: same_frame_def gs)
  have ag: "set (active_list g) = {a \<in> set (active_list gc). a \<in> live gc}"
    using mk by (auto simp: g_def)
  have dg: "set (dead_list g) = set (dead_list gc)
       \<union> {a \<in> set (active_list gc). a \<notin> live gc \<and> obj_size (the (heap gc a)) = cell_size gc}"
    using rec(1) by (auto simp: g_def)
  have hl: "heap g a = map_option (\<lambda>mo. if mark mo = PERM then mo else mo\<lparr>mark := k\<rparr>) (heap gc a)"
    if "a \<in> live gc" for a using that by (simp add: hg hh)
  have so: "same_object gc g a" if a: "a \<in> live gc" for a
  proof -
    obtain mo where "heap gc a = Some mo"
      using lv [OF a] gc_inv_dom [OF inv, of a] by auto
    then show ?thesis using hl [OF a] by (auto simp: same_object_def)
  qed
  have sg: "succs g a = succs gc a" if "a \<in> live gc" for a
    using same_object_succs [OF so [OF that] fr] .
  have lg: "live g = live gc"
    using sg by (intro live_cong) (simp_all add: same_frame_roots [OF fr])
  have og: "live_objs g = live gc"
    using lv pl by (auto simp: live_objs_def ag gs(2))
  show ?thesis
  proof (rule that [OF co _ gs(9) dg])
    have dj: "distinct (active_list g @ dead_list g @ perm_list g)"
      using gc_inv_disjoint [OF inv] mk rec(1) by (auto simp: g_def h_def n_def)
    have dm: "heap g a \<noteq> None \<longleftrightarrow> a \<in> set (active_list g @ dead_list g @ perm_list g)" for a
    proof -
      consider (act) "a \<in> set (active_list gc)" | (oth) "a \<notin> set (active_list gc)" by blast
      then show ?thesis
      proof cases
        case act
        then have "heap gc a \<noteq> None" "a \<notin> set (dead_list gc)" "a \<notin> set (perm_list gc)"
          using gc_inv_dom [OF inv, of a] gc_inv_disjoint(1,2) [OF inv] by auto
        then show ?thesis using act by (auto simp: hg hh ag dg gs(2))
      next
        case oth
        then show ?thesis using gc_inv_dom [OF inv, of a] by (auto simp: hg hh ag dg gs(2))
      qed
    qed
    have old: "heap gc a \<noteq> None" if "heap g a \<noteq> None" for a
      using that by (auto simp: hg hh split: if_splits)
    have ty: "type_def (the (heap g a)) = type_def (the (heap gc a))" if "a \<in> live gc" for a
      using so [OF that] by (auto simp: same_object_def) (metis meta_obj.select_convs(3) meta_obj.surjective meta_obj.update_convs(1))
    have inv': "gc_inv g"
    proof (rule gc_invI)
      show "distinct (active_list g @ dead_list g @ perm_list g)" by (rule dj)
      show "heap g a \<noteq> None \<longleftrightarrow> a \<in> set (active_list g @ dead_list g @ perm_list g)" for a
        by (rule dm)
      show "0 < a \<and> a < next_addr g" if "heap g a \<noteq> None" for a
        using gc_inv_addr [OF inv old [OF that]] gs by simp
      show "0 < next_addr g" "0 < size_granularity g" "0 \<le> protect_count g"
        using inv gs by (simp_all add: gc_inv_def)
      show "current_mark g = RED \<or> current_mark g = BLACK" using k(4) gs by simp
      show "marked g (current_mark g) a" if "a \<in> set (active_list g)" for a
      proof -
        have a: "a \<in> set (active_list gc)" "a \<in> live gc" using that ag by auto
        then have "heap g a = heap h a" by (simp add: hg)
        then show ?thesis using mk [OF a(1)] a(2) by (simp add: gs marked_def)
      qed
      show "marked g DEAD a \<and> obj_size (the (heap g a)) = cell_size g"
        if a: "a \<in> set (dead_list g)" for a
      proof (cases "a \<in> set (dead_list gc)")
        case True
        then have "a \<notin> set (active_list gc)" "a \<notin> live gc"
          using gc_inv_disjoint(1,3) [OF inv] lv by blast+
        then have "heap g a = heap gc a" by (simp add: hg hh)
        then show ?thesis using inv True by (simp add: gc_inv_def marked_def gs)
      next
        case False
        then have "a \<in> set (active_list gc)" "a \<notin> live gc"
          "obj_size (the (heap gc a)) = cell_size gc" using a dg by auto
        then show ?thesis using act by (auto simp: hg hh marked_def gs)
      qed
      show "marked g PERM a" if a: "a \<in> set (perm_list g)" for a
      proof -
        have "marked gc PERM a" "a \<in> live gc"
          using a gc_inv_marks(3) [OF inv] gs pl by auto
        then show ?thesis using hl [of a] by (auto simp: marked_def)
      qed
      show "type_def (the (heap g a)) < int (length (type_defs g))" if "a \<in> live_objs g" for a
        using that ty [of a] inv liv gs by (auto simp: og gc_inv_def)
      show "succs g a \<subseteq> live_objs g" if "a \<in> live_objs g" for a
        using that sg [of a] live_closed [of a gc] by (auto simp: og)
      show "root_objs g \<subseteq> live_objs g"
        using root_objs_live [of gc] by (simp add: og same_frame_roots [OF fr])
    qed
    have iso': "perm_isolated g"
      using iso liv sg by (auto simp: perm_isolated_def og gs(2))
    have "length (active_list gc) = length (filter (marked h k) (active_list gc))
        + length (filter (recycled h k) (active_list gc)) + length (filter (freed h k) (active_list gc))"
      using mk rec by (intro length_three_filters) auto
    then have "balance g = balance gc" by (simp add: balance_def g_def h_def n_def)
    moreover have "set (active_list g) = live gc - set (perm_list gc)"
      using lv gc_inv_disjoint(2) [OF inv] by (auto simp: ag)
    ultimately show "collected gc g"
      using inv' iso' fr so lg by (simp add: collected_def)
  qed
qed

end
