(* ===== verification/Gc_Alloc.thy ===== *)
theory Gc_Alloc
  imports Gc_Sweep
begin

text \<open>
  Allocation: placing a new object in a dead cell or a new block, the preallocation of cells
  under protection, the sweep that runs when no dead cell is left, and what every allocation
  promises its caller (\<open>allocated\<close>). The depth of the C stack these need is the length of the
  active list plus a constant, about the 1000 objects of the preallocation.
\<close>

section \<open>Placing a new object\<close>

definition new_object :: "gc_ms \<Rightarrow> bool \<Rightarrow> nat \<Rightarrow> int \<Rightarrow> meta_obj" where
  "new_object gc perm sz td = \<lparr>mark = (if perm then PERM else current_mark gc), obj_size = sz,
     type_def = td, obj = (\<lambda>_. 0)\<rparr>"

text \<open>\<open>m\<close> is a dead cell or a block no object has; it becomes an object without pointers.\<close>

definition placed :: "gc_ms \<Rightarrow> bool \<Rightarrow> nat \<Rightarrow> int \<Rightarrow> addr \<Rightarrow> gc_ms \<Rightarrow> bool" where
  "placed gc perm sz td m gc' \<longleftrightarrow> (\<exists>n.
     (m \<in> set (dead_list gc) \<and> n = next_addr gc \<or> m = next_addr gc \<and> m < n)
   \<and> gc' = gc\<lparr>heap := (heap gc)(m \<mapsto> new_object gc perm sz td),
       active_list := (if perm then active_list gc else m # active_list gc),
       perm_list := (if perm then m # perm_list gc else perm_list gc),
       dead_list := filter (\<lambda>a. a \<noteq> m) (dead_list gc),
       allocations := allocations gc + (if m \<in> set (dead_list gc) then 0 else 1),
       next_addr := n\<rparr>)"

lemma slot_pointers_zero:
  assumes "obj mo = (\<lambda>_. 0)"
  shows "set (slot_pointers gc mo) \<subseteq> {0}"
  using assms by (auto simp: slot_pointers_def pointers_of_def Let_def split: meta_ptr_type.splits)

lemma placed_new:
  assumes inv: "gc_inv gc" and p: "placed gc perm sz td m gc'"
  shows "m \<notin> live_objs gc" "0 < m" "m \<notin> live gc"
proof -
  have "heap gc (next_addr gc) = None" using gc_inv_addr(2) [OF inv, of "next_addr gc"]
    by (cases "heap gc (next_addr gc)") simp_all
  then have f: "next_addr gc \<notin> live_objs gc"
    using gc_inv_dom [OF inv, of "next_addr gc"] by (auto simp: live_objs_def)
  have "a \<notin> live_objs gc" if "a \<in> set (dead_list gc)" for a
    using gc_inv_disjoint(1,3) [OF inv] that by (auto simp: live_objs_def)
  then show n: "m \<notin> live_objs gc" using p f by (auto simp: placed_def)
  have "0 < a" if "a \<in> set (dead_list gc)" for a
    using that gc_inv_dom [OF inv, of a] gc_inv_addr(1) [OF inv, of a] by auto
  moreover have "0 < next_addr gc" using inv by (simp add: gc_inv_def)
  ultimately show "0 < m" using p by (auto simp: placed_def)
  show "m \<notin> live gc" using n gc_inv_live [OF inv] by blast
qed

lemma placed_frame:
  assumes p: "placed gc perm sz td m gc'"
  shows "vars gc' = vars gc" "root_list gc' = root_list gc" "type_defs gc' = type_defs gc"
    "cell_size gc' = cell_size gc" "size_granularity gc' = size_granularity gc"
    "protect_count gc' = protect_count gc" "array_type gc' = array_type gc"
    "current_mark gc' = current_mark gc"
    "heap gc' = (heap gc)(m \<mapsto> new_object gc perm sz td)"
    "active_list gc' = (if perm then active_list gc else m # active_list gc)"
    "perm_list gc' = (if perm then m # perm_list gc else perm_list gc)"
    "dead_list gc' = filter (\<lambda>a. a \<noteq> m) (dead_list gc)"
    "allocations gc' = allocations gc + (if m \<in> set (dead_list gc) then 0 else 1)"
proof -
  from p obtain n where e: "gc' = gc\<lparr>heap := (heap gc)(m \<mapsto> new_object gc perm sz td),
       active_list := (if perm then active_list gc else m # active_list gc),
       perm_list := (if perm then m # perm_list gc else perm_list gc),
       dead_list := filter (\<lambda>a. a \<noteq> m) (dead_list gc),
       allocations := allocations gc + (if m \<in> set (dead_list gc) then 0 else 1),
       next_addr := n\<rparr>" unfolding placed_def by (elim exE conjE)
  show "vars gc' = vars gc" "root_list gc' = root_list gc" "type_defs gc' = type_defs gc"
    "cell_size gc' = cell_size gc" "size_granularity gc' = size_granularity gc"
    "protect_count gc' = protect_count gc" "array_type gc' = array_type gc"
    "current_mark gc' = current_mark gc"
    "heap gc' = (heap gc)(m \<mapsto> new_object gc perm sz td)"
    "active_list gc' = (if perm then active_list gc else m # active_list gc)"
    "perm_list gc' = (if perm then m # perm_list gc else perm_list gc)"
    "dead_list gc' = filter (\<lambda>a. a \<noteq> m) (dead_list gc)"
    "allocations gc' = allocations gc + (if m \<in> set (dead_list gc) then 0 else 1)"
    by (subst e, simp)+
qed

lemma placed_succs:
  assumes p: "placed gc perm sz td m gc'"
  shows "succs gc' a = (if a = m then {} else succs gc a)"
proof (cases "a = m")
  case True
  have "set (slot_pointers gc' (new_object gc perm sz td)) \<subseteq> {0}"
    by (rule slot_pointers_zero) (simp add: new_object_def)
  then have "meta_from_obj ` set (slot_pointers gc' (new_object gc perm sz td)) \<subseteq> {0}"
    by (auto simp: meta_from_obj_def)
  then show ?thesis using True by (auto simp: succs_def placed_frame(9) [OF p])
next
  case False
  then show ?thesis
    using succs_frame [of gc' gc a] placed_frame(3,7,9) [OF p] by simp
qed

lemma placed_objs:
  assumes p: "placed gc perm sz td m gc'"
  shows "live_objs gc' = insert m (live_objs gc)"
  by (auto simp: live_objs_def placed_frame(10,11) [OF p])

lemma placed_roots:
  assumes inv: "gc_inv gc" and p: "placed gc perm sz td m gc'"
  shows "root_objs gc' = root_objs gc \<union> (if perm then {m} else {})"
  using placed_new(2) [OF inv p] by (auto simp: root_objs_def placed_frame(1,2,11) [OF p])

lemma placed_live:
  assumes inv: "gc_inv gc" and p: "placed gc perm sz td m gc'"
  shows "live gc' = live gc \<union> (if perm then {m} else {})"
proof
  show "live gc' \<subseteq> live gc \<union> (if perm then {m} else {})"
    using root_objs_live [of gc] live_closed [of _ gc]
    by (intro live_least) (auto simp: placed_roots [OF inv p] placed_succs [OF p] split: if_splits)
  have "live gc \<subseteq> live gc' \<inter> live_objs gc"
  proof (rule live_least)
    have "root_objs gc \<subseteq> live gc'" using root_objs_live [of gc'] placed_roots [OF inv p] by auto
    then show "root_objs gc \<subseteq> live gc' \<inter> live_objs gc" using inv by (auto simp: gc_inv_def)
    fix a c assume a: "a \<in> live gc' \<inter> live_objs gc" and c: "c \<in> succs gc a"
    have "a \<noteq> m" using a placed_new(1) [OF inv p] by auto
    then have "c \<in> live gc'" using a c live_closed [of a gc' c] placed_succs [OF p, of a] by simp
    moreover have "c \<in> live_objs gc" using inv a c by (auto simp: gc_inv_def)
    ultimately show "c \<in> live gc' \<inter> live_objs gc" by simp
  qed
  moreover have "m \<in> live gc'" if perm
    using that root_objs_live [of gc'] placed_roots [OF inv p] by auto
  ultimately show "live gc \<union> (if perm then {m} else {}) \<subseteq> live gc'" by auto
qed

lemma placed_inv:
  assumes inv: "gc_inv gc" and p: "placed gc perm sz td m gc'"
    and td: "td < int (length (type_defs gc))"
  shows "gc_inv gc'"
proof (rule gc_invI)
  note new = placed_new [OF inv p]
  note fr = placed_frame [OF p]
  have nd: "m \<notin> set (active_list gc)" "m \<notin> set (perm_list gc)"
    using new(1) by (simp_all add: live_objs_def)
  have nx: "next_addr gc \<le> next_addr gc'" "m < next_addr gc'"
  proof -
    show "next_addr gc \<le> next_addr gc'" using p by (auto simp: placed_def)
    show "m < next_addr gc'"
      using p gc_inv_dom [OF inv, of m] gc_inv_addr(2) [OF inv, of m] by (auto simp: placed_def)
  qed
  show "distinct (active_list gc' @ dead_list gc' @ perm_list gc')"
    using gc_inv_disjoint [OF inv] nd by (auto simp: fr)
  show "heap gc' a \<noteq> None \<longleftrightarrow> a \<in> set (active_list gc' @ dead_list gc' @ perm_list gc')" for a
    using gc_inv_dom [OF inv, of a] by (auto simp: fr)
  show "0 < a \<and> a < next_addr gc'" if "heap gc' a \<noteq> None" for a
    using that gc_inv_addr [OF inv, of a] new(2) nx by (auto simp: fr split: if_splits)
  show "0 < next_addr gc'" "0 < size_granularity gc'" "0 \<le> protect_count gc'"
    "current_mark gc' = RED \<or> current_mark gc' = BLACK"
    using inv nx by (auto simp: gc_inv_def fr)
  show "marked gc' (current_mark gc') a" if "a \<in> set (active_list gc')" for a
  proof (cases "a = m")
    case True
    then have "\<not> perm" using that nd by (auto simp: fr)
    with True show ?thesis by (simp add: marked_def fr new_object_def)
  next
    case False
    then have "a \<in> set (active_list gc)" using that by (auto simp: fr split: if_splits)
    then show ?thesis using gc_inv_marks(1) [OF inv] False by (simp add: marked_def fr)
  qed
  show "marked gc' DEAD a \<and> obj_size (the (heap gc' a)) = cell_size gc'"
    if "a \<in> set (dead_list gc')" for a
    using that inv by (auto simp: gc_inv_def marked_def fr)
  show "marked gc' PERM a" if "a \<in> set (perm_list gc')" for a
  proof (cases "a = m")
    case True
    then have "perm" using that nd by (auto simp: fr split: if_splits)
    with True show ?thesis by (simp add: marked_def fr new_object_def)
  next
    case False
    then have "a \<in> set (perm_list gc)" using that by (auto simp: fr split: if_splits)
    then show ?thesis using gc_inv_marks(3) [OF inv] False by (simp add: marked_def fr)
  qed
  show "type_def (the (heap gc' a)) < int (length (type_defs gc'))" if "a \<in> live_objs gc'" for a
    using that inv td by (auto simp: placed_objs [OF p] gc_inv_def fr new_object_def)
  show "succs gc' a \<subseteq> live_objs gc'" if "a \<in> live_objs gc'" for a
    using that inv by (auto simp: placed_objs [OF p] gc_inv_def placed_succs [OF p] split: if_splits)
  show "root_objs gc' \<subseteq> live_objs gc'"
    using inv by (auto simp: placed_objs [OF p] gc_inv_def placed_roots [OF inv p] split: if_splits)
qed

lemma placed_isolated:
  assumes inv: "gc_inv gc" and iso: "perm_isolated gc" and p: "placed gc perm sz td m gc'"
  shows "perm_isolated gc'"
  unfolding perm_isolated_def
proof
  fix a assume a: "a \<in> live_objs gc'"
  show "succs gc' a \<inter> set (perm_list gc') = {}"
  proof (cases "a = m")
    case False
    then have "a \<in> live_objs gc" using a by (simp add: placed_objs [OF p])
    then have "succs gc a \<inter> set (perm_list gc) = {}" "succs gc a \<subseteq> live_objs gc"
      using iso inv by (auto simp: perm_isolated_def gc_inv_def)
    then show ?thesis using False placed_new(1) [OF inv p]
      by (auto simp: placed_succs [OF p] placed_frame(11) [OF p])
  qed (simp add: placed_succs [OF p])
qed

lemma placed_same:
  assumes inv: "gc_inv gc" and p: "placed gc perm sz td m gc'" and a: "a \<in> live gc"
  shows "heap gc' a = heap gc a"
  using placed_new(3) [OF inv p] a by (auto simp: placed_frame(9) [OF p])

lemma filter_neq_id: "m \<notin> set xs \<Longrightarrow> filter (\<lambda>a. a \<noteq> m) xs = xs"
  by (induction xs) auto

lemma length_remove1_distinct:
  "distinct xs \<Longrightarrow> m \<in> set xs \<Longrightarrow> Suc (length (filter (\<lambda>a. a \<noteq> m) xs)) = length xs"
  by (induction xs) (auto simp: filter_neq_id)

lemma placed_balance:
  assumes inv: "gc_inv gc" and p: "placed gc perm sz td m gc'"
  shows "balance gc' = balance gc"
proof (cases "m \<in> set (dead_list gc)")
  case True
  then have "Suc (length (dead_list gc')) = length (dead_list gc)"
    using length_remove1_distinct [of "dead_list gc" m] gc_inv_disjoint(5) [OF inv]
    by (simp add: placed_frame [OF p])
  then show ?thesis using True by (auto simp: balance_def placed_frame [OF p])
next
  case False
  then have "filter (\<lambda>a. a \<noteq> m) (dead_list gc) = dead_list gc" by (auto simp: filter_id_conv)
  then show ?thesis using False by (auto simp: balance_def placed_frame [OF p])
qed

section \<open>Allocation when no sweep is needed\<close>

text \<open>The last step of the three allocation functions: the type of the new object.\<close>

definition set_type :: "gc_ms \<Rightarrow> addr \<Rightarrow> int \<Rightarrow> gc_ms" where
  "set_type gc m td = update_meta gc m (\<lambda>mo. mo\<lparr>type_def := td\<rparr>)"

lemma placed_set_type:
  "placed gc perm sz td m gc' \<Longrightarrow> placed gc perm sz td' m (set_type gc' m td')"
  unfolding placed_def
proof (elim exE, goal_cases)
  case (1 n)
  then show ?case
    by (intro exI [of _ n]) (simp add: set_type_def update_meta_def new_object_def)
qed

lemma attach_malloc:
  assumes "0 < size_granularity gc" "gc_malloc gc rs = (g, m)" "gc_inv gc"
  shows "placed gc perm sz 0 m (attach_object (g\<lparr>heap := (heap g)(m \<mapsto> zero_meta)\<rparr>) m perm sz)"
proof -
  have n: "next_addr gc \<notin> set (dead_list gc)"
    using gc_inv_dom [OF assms(3), of "next_addr gc"] gc_inv_addr(2) [OF assms(3), of "next_addr gc"]
    by auto
  have "0 < rs + (size_granularity gc - rs mod size_granularity gc)"
    using mod_less_divisor [OF assms(1), of rs] by arith
  moreover have "filter (\<lambda>a. a \<noteq> next_addr gc) (dead_list gc) = dead_list gc"
    using n by (auto simp: filter_id_conv)
  moreover from assms(2) have
    "g = gc\<lparr>allocations := allocations gc + 1,
       next_addr := next_addr gc + (rs + (size_granularity gc - rs mod size_granularity gc))\<rparr>"
    "m = next_addr gc" by (auto simp: gc_malloc_def Let_def)
  ultimately show ?thesis using n unfolding placed_def
    by (intro exI [of _ "next_addr gc + (rs + (size_granularity gc - rs mod size_granularity gc))"])
      (simp add: attach_object_def update_meta_def zero_meta_def new_object_def)
qed

lemma attach_dead:
  assumes "dead_list gc = m # rest" "gc_inv gc"
  shows "placed gc perm sz 0 m
    (attach_object (gc\<lparr>dead_list := rest, heap := (heap gc)(m \<mapsto> zero_meta)\<rparr>) m perm sz)"
proof -
  have "filter (\<lambda>a. a \<noteq> m) rest = rest"
    using gc_inv_disjoint(5) [OF assms(2)] assms(1) by (auto simp: filter_id_conv)
  then show ?thesis using assms(1) unfolding placed_def
    by (intro exI [of _ "next_addr gc"])
      (simp add: attach_object_def update_meta_def zero_meta_def new_object_def)
qed

lemma internal_alloc_placed:
  assumes inv: "gc_inv g" and g: "sz = cell_size gc \<and> dead_list gc = [] \<and> sweep d gc = Inr g
      \<or> (sz \<noteq> cell_size gc \<or> dead_list gc \<noteq> []) \<and> g = gc"
    and cs: "cell_size g = cell_size gc"
  obtains gc' m where "internal_alloc (Suc d) gc perm sz = Inr (gc', m)" "placed g perm sz 0 m gc'"
proof -
  have sg: "0 < size_granularity g" using inv by (simp add: gc_inv_def)
  obtain g' m' where m': "gc_malloc g (sizeof_meta + sz) = (g', m')" by force
  note mal = attach_malloc [OF sg m' inv, of perm sz]
  show ?thesis
  proof (cases "sz = cell_size gc \<and> dead_list g \<noteq> []")
    case True
    then obtain m rest where dl: "dead_list g = m # rest" by (cases "dead_list g") auto
    have "m \<noteq> 0"
      using dl gc_inv_dom [OF inv, of m] gc_inv_addr(1) [OF inv, of m] by auto
    moreover have "rbind (if dead_list gc = [] then sweep d gc else Inr gc) f = f g" for f :: "gc_ms \<Rightarrow> (gc_ms \<times> addr) res"
      using g True by auto
    ultimately have "internal_alloc (Suc d) gc perm sz = Inr (attach_object (g\<lparr>dead_list := rest, heap := (heap g)(m \<mapsto> zero_meta)\<rparr>) m perm sz, m)"
      using True dl by (simp add: Let_def)
    from that [OF this attach_dead [OF dl inv]] show ?thesis .
  next
    case False
    have "internal_alloc (Suc d) gc perm sz = Inr (attach_object (g'\<lparr>heap := (heap g')(m' \<mapsto> zero_meta)\<rparr>) m' perm sz, m')"
    proof (cases "sz = cell_size gc")
      case True
      then have "dead_list g = []" using False by simp
      moreover have "rbind (if dead_list gc = [] then sweep d gc else Inr gc) f = f g" for f :: "gc_ms \<Rightarrow> (gc_ms \<times> addr) res"
        using g True by auto
      ultimately show ?thesis using True m' by (simp add: Let_def)
    next
      case sz: False
      then have "g = gc" using g by auto
      then show ?thesis using sz m' by (simp add: Let_def)
    qed
    from that [OF this mal] show ?thesis .
  qed
qed


section \<open>The preallocation loop\<close>

text \<open>Cell-sized objects without pointers were added to the active list; nothing else changed.\<close>

definition grown :: "gc_ms \<Rightarrow> nat \<Rightarrow> gc_ms \<Rightarrow> bool" where
  "grown gc n gc' \<longleftrightarrow> gc_inv gc' \<and> perm_isolated gc' \<and> same_frame gc gc' \<and> dead_list gc' = []
     \<and> live gc' = live gc \<and> balance gc' = balance gc
     \<and> (\<forall>a\<in>live gc. heap gc' a = heap gc a)
     \<and> length (active_list gc') = length (active_list gc) + n
     \<and> (0 < n \<longrightarrow> (\<exists>a\<in>set (active_list gc'). a \<notin> live gc' \<and> obj_size (the (heap gc' a)) = cell_size gc'))"

lemma grown_refl:
  "gc_inv gc \<Longrightarrow> perm_isolated gc \<Longrightarrow> dead_list gc = [] \<Longrightarrow> grown gc 0 gc"
  by (simp add: grown_def same_frame_def)

lemma grown_step:
  assumes g: "grown gc n g1" and p: "placed g1 False (cell_size g1) (- 1) m gc'"
  shows "grown gc (Suc n) gc'"
proof -
  have inv: "gc_inv g1" and iso: "perm_isolated g1" using g by (auto simp: grown_def)
  have "m \<in> set (active_list gc')" "obj_size (the (heap gc' m)) = cell_size gc'"
    by (simp_all add: placed_frame [OF p] new_object_def)
  moreover have "m \<notin> live gc'" using placed_live [OF inv p] placed_new(3) [OF inv p] by simp
  ultimately have "\<exists>a\<in>set (active_list gc'). a \<notin> live gc' \<and> obj_size (the (heap gc' a)) = cell_size gc'"
    by blast
  moreover have "same_frame gc gc'" "dead_list gc' = []"
    "length (active_list gc') = length (active_list gc) + Suc n"
    using g by (simp_all add: grown_def same_frame_def placed_frame [OF p])
  moreover have "\<forall>a\<in>live gc. heap gc' a = heap gc a"
    using g placed_same [OF inv p] by (simp add: grown_def)
  ultimately show ?thesis
    using g placed_inv [OF inv p] placed_isolated [OF inv iso p] placed_live [OF inv p]
      placed_balance [OF inv p] by (simp add: grown_def)
qed

lemma gc_alloc_placed:
  assumes "internal_alloc d gc perm sz = Inr (g, m)"
  shows "gc_alloc (Suc d) gc perm sz = Inr (set_type g m (- 1), obj_from_meta m)"
  using assms by (simp add: set_type_def)

lemma pre_alloc_loop_grown:
  assumes "grown gc j g" "protect_count gc \<noteq> 0"
  shows "\<exists>gc'. pre_alloc_loop (Suc (Suc (Suc d))) n g = Inr gc' \<and> grown gc (j + n) gc'"
  using assms
proof (induction n arbitrary: j g)
  case (Suc n)
  have g: "gc_inv g" "dead_list g = []" "protect_count g \<noteq> 0"
    using Suc.prems by (simp_all add: grown_def same_frame_def)
  obtain g1 m where a: "internal_alloc (Suc (Suc d)) g False (cell_size g) = Inr (g1, m)"
    and p: "placed g False (cell_size g) 0 m g1"
    using internal_alloc_placed [of g "cell_size g" g "Suc d" False] g by auto
  let ?g = "set_type g1 m (- 1)"
  have "grown gc (Suc j) ?g"
    using grown_step [OF Suc.prems(1) placed_set_type [OF p]] .
  from Suc.IH [OF this Suc.prems(2)] obtain gc' where
    "pre_alloc_loop (Suc (Suc (Suc d))) n ?g = Inr gc'" "grown gc (j + Suc n) gc'" by auto
  moreover have "gc_alloc (Suc (Suc (Suc d))) g False (cell_size g) = Inr (?g, obj_from_meta m)"
    by (rule gc_alloc_placed) (rule a)
  ultimately show ?case by (simp del: gc_alloc.simps)
qed auto

lemma set_protect_frame [simp]:
  "heap (gc\<lparr>protect_count := n\<rparr>) = heap gc"
  "live_objs (gc\<lparr>protect_count := n\<rparr>) = live_objs gc"
  "root_objs (gc\<lparr>protect_count := n\<rparr>) = root_objs gc"
  "marked (gc\<lparr>protect_count := n\<rparr>) = marked gc"
  "succs (gc\<lparr>protect_count := n\<rparr>) = succs gc"
  "balance (gc\<lparr>protect_count := n\<rparr>) = balance gc"
  by (simp_all add: live_objs_def root_objs_def marked_def fun_eq_iff balance_def
      succs_frame [of "gc\<lparr>protect_count := n\<rparr>" gc])

lemma live_set_protect [simp]: "live (gc\<lparr>protect_count := n\<rparr>) = live gc"
  by (intro live_cong) simp_all

lemma gc_inv_set_protect: "gc_inv gc \<Longrightarrow> 0 \<le> n \<Longrightarrow> gc_inv (gc\<lparr>protect_count := n\<rparr>)"
  unfolding gc_inv_def by simp

lemma perm_isolated_set_protect [simp]:
  "perm_isolated (gc\<lparr>protect_count := n\<rparr>) = perm_isolated gc"
  by (simp add: perm_isolated_def)

lemma same_object_trans:
  "same_object gc g a \<Longrightarrow> same_object g gc' a \<Longrightarrow> same_object gc gc' a"
  unfolding same_object_def by (metis meta_obj.surjective meta_obj.update_convs(1) option.inject)

section \<open>Sweeping\<close>

lemma collected_trans:
  assumes "collected gc g" "collected g gc'"
  shows "collected gc gc'"
  using assms same_object_trans [of gc g _ gc']
  by (auto simp: collected_def same_frame_def)


lemma same_object_heap: "same_object gc g a \<Longrightarrow> heap g' a = heap g a \<Longrightarrow> same_object gc g' a"
  by (simp add: same_object_def)

lemma collected_length:
  assumes "gc_inv gc" "collected gc g"
  shows "length (active_list g) \<le> length (active_list gc)"
proof -
  have "gc_inv g" "set (active_list g) \<subseteq> set (active_list gc)"
    using assms gc_inv_live [OF assms(1)] by (auto simp: collected_def live_objs_def)
  then have "card (set (active_list g)) \<le> card (set (active_list gc))"
    by (intro card_mono) auto
  then show ?thesis
    using gc_inv_disjoint(4) assms(1) \<open>gc_inv g\<close> by (simp add: distinct_card)
qed

lemma collected_grown:
  assumes c: "collected gc g1" and g: "grown (gc_protect g1) n g2"
    and e: "collected (g2\<lparr>protect_count := protect_count g1\<rparr>) g3"
  shows "collected gc g3"
proof -
  have l: "live g1 = live gc" "live g2 = live gc"
    using c g by (simp_all add: collected_def grown_def gc_protect_def)
  have "same_object gc g3 a" if a: "a \<in> live gc" for a
  proof -
    have "same_object gc g1 a" using c a by (simp add: collected_def)
    then have "same_object gc (g2\<lparr>protect_count := protect_count g1\<rparr>) a"
      by (rule same_object_heap) (use g a l in \<open>simp add: grown_def gc_protect_def\<close>)
    moreover have "same_object (g2\<lparr>protect_count := protect_count g1\<rparr>) g3 a"
      using e a l by (simp add: collected_def)
    ultimately show ?thesis by (rule same_object_trans)
  qed
  moreover have "same_frame gc g3"
    using c g e by (simp add: collected_def grown_def same_frame_def gc_protect_def)
  moreover have "balance g3 = balance gc" "live g3 = live gc"
    using c g e by (simp_all add: collected_def grown_def gc_protect_def)
  moreover have "gc_inv g3" "perm_isolated g3" using e by (simp_all add: collected_def)
  moreover have "set (active_list g3) = live gc - set (perm_list gc)"
    using c g e l by (simp add: collected_def grown_def same_frame_def gc_protect_def)
  ultimately show ?thesis by (simp add: collected_def)
qed

lemma collected_protect: "collected gc g \<Longrightarrow> protect_count g = protect_count gc"
  by (simp add: collected_def same_frame_def)

lemma pre_alloc_spec:
  assumes c: "collected gc g" and pr: "protect_count gc = 0" and dl: "dead_list g = []"
    and d: "length (active_list g) + 1004 < d"
  obtains gc' where "pre_alloc d g = Inr gc'" "collected gc gc'" "dead_list gc' \<noteq> []"
proof -
  define d3 where "d3 = d - 4"
  have d3: "d = Suc (Suc (Suc (Suc d3)))" "length (active_list g) + 1000 < d3"
    using d by (simp_all add: d3_def)
  have g: "gc_inv g" "perm_isolated g" "protect_count g = 0"
    using c collected_protect [OF c] pr by (simp_all add: collected_def)
  have gp: "grown (gc_protect g) 0 (gc_protect g)"
    using g dl by (intro grown_refl) (simp_all add: gc_protect_def gc_inv_set_protect)
  have "protect_count (gc_protect g) \<noteq> 0" using g by (simp add: gc_protect_def)
  from pre_alloc_loop_grown [OF gp this, of d3 1000] obtain g2 where
    g2: "pre_alloc_loop (Suc (Suc (Suc d3))) 1000 (gc_protect g) = Inr g2"
    "grown (gc_protect g) 1000 g2" by auto
  define h where "h = g2\<lparr>protect_count := 0\<rparr>"
  have pc: "protect_count g2 = 1" "dead_list g2 = []"
    "length (active_list g2) = length (active_list g) + 1000"
    using g2(2) g(3) by (simp_all add: grown_def same_frame_def gc_protect_def)
  have h: "gc_inv h" "perm_isolated h" "protect_count h = 0" "dead_list h = []"
    "length (active_list h) < d3"
    using g2(2) pc d3 by (simp_all add: h_def grown_def gc_inv_set_protect)
  obtain g3 where g3: "collect (Suc d3) h = Inr g3" "collected h g3"
    and "next_addr g3 = next_addr h" and dd: "set (dead_list g3) = set (dead_list h)
       \<union> {a \<in> set (active_list h). a \<notin> live h \<and> obj_size (the (heap h a)) = cell_size h}"
    by (rule collect_spec [OF h(1-3) h(5)])
  have "\<exists>a\<in>set (active_list g2). a \<notin> live g2 \<and> obj_size (the (heap g2 a)) = cell_size g2"
    using g2(2) unfolding grown_def by (elim conjE) (erule mp, simp)
  then have dg3: "dead_list g3 \<noteq> []" using dd by (auto simp: h_def)
  have "collected gc g3"
    using collected_grown [OF c g2(2), of g3] g3(2) g(3) by (simp add: h_def)
  have un: "gc_unprotect (Suc (Suc (Suc d3))) g2 = Inr g3"
    using g3(1) dg3 h(4) pc by (simp add: h_def [symmetric] sweep_collect h(3) del: sweep.simps)
  have i3: "gc_inv g3" "perm_isolated g3" "protect_count g3 = 0"
    using g3(2) collected_protect [OF g3(2)] h(3) by (simp_all add: collected_def)
  have "length (active_list g3) < Suc d3" using collected_length [OF h(1) g3(2)] h(5) by simp
  obtain g4 where g4: "collect (Suc (Suc d3)) g3 = Inr g4" "collected g3 g4"
    and "next_addr g4 = next_addr g3" and dd4: "set (dead_list g4) = set (dead_list g3)
       \<union> {a \<in> set (active_list g3). a \<notin> live g3 \<and> obj_size (the (heap g3 a)) = cell_size g3}"
    by (rule collect_spec [OF i3 \<open>length (active_list g3) < Suc d3\<close>])
  have "dead_list g4 \<noteq> []" using dg3 dd4 by auto
  moreover from this have "sweep (Suc (Suc (Suc d3))) g3 = Inr g4"
    using g4(1) by (simp add: sweep_collect i3(3) del: sweep.simps)
  then have "pre_alloc d g = Inr g4"
    using g2(1) un by (simp add: d3(1) del: sweep.simps gc_unprotect.simps)
  ultimately show ?thesis
    using that collected_trans [OF \<open>collected gc g3\<close> g4(2)] by blast
qed

lemma sweep_spec:
  assumes inv: "gc_inv gc" and iso: "perm_isolated gc" and pr: "protect_count gc = 0"
    and d: "length (active_list gc) + 1005 < d"
  obtains gc' where "sweep d gc = Inr gc'" "collected gc gc'" "dead_list gc' \<noteq> []"
proof -
  obtain d1 where d1: "d = Suc (Suc d1)" "length (active_list gc) + 1003 < d1"
    using d by (intro that [of "d - 2"]) auto
  then have "length (active_list gc) < d1" by simp
  obtain g where g: "collect (Suc d1) gc = Inr g" "collected gc g"
    by (rule collect_spec [OF inv iso pr \<open>length (active_list gc) < d1\<close>])
  have len: "length (active_list g) + 1004 < Suc d1"
    using collected_length [OF inv g(2)] d1 by simp
  show ?thesis
  proof (cases "dead_list g = []")
    case True
    obtain gc' where "pre_alloc (Suc d1) g = Inr gc'" "collected gc gc'" "dead_list gc' \<noteq> []"
      using pre_alloc_spec [OF g(2) pr True len] .
    then show ?thesis using that [of gc'] g(1) True pr
      by (simp add: d1(1) sweep_collect del: sweep.simps pre_alloc.simps)
  next
    case False
    then show ?thesis using that [of g] g pr
      by (simp add: d1(1) sweep_collect del: sweep.simps)
  qed
qed

section \<open>Allocation\<close>

text \<open>The state in which the new object is placed: the old one, or what a sweep left of it.\<close>

definition maybe_collected :: "gc_ms \<Rightarrow> gc_ms \<Rightarrow> bool" where
  "maybe_collected gc g \<longleftrightarrow> g = gc \<or> collected gc g"

lemma maybe_collected_facts:
  assumes "gc_inv gc" "perm_isolated gc" "maybe_collected gc g"
  shows "gc_inv g" "perm_isolated g" "same_frame gc g" "live g = live gc" "balance g = balance gc"
    and "a \<in> live gc \<Longrightarrow> same_object gc g a"
proof -
  have "same_object gc gc a" if "a \<in> live gc" for a
    using gc_inv_live [OF assms(1)] that gc_inv_dom [OF assms(1), of a]
    by (auto simp: same_object_def live_objs_def)
  then show "a \<in> live gc \<Longrightarrow> same_object gc g a"
    using assms(3) by (auto simp: maybe_collected_def collected_def)
qed (use assms in \<open>auto simp: maybe_collected_def collected_def same_frame_def\<close>)

lemma internal_alloc_spec:
  assumes inv: "gc_inv gc" and iso: "perm_isolated gc"
    and d: "length (active_list gc) + 1006 < d"
  obtains g gc' m where "internal_alloc d gc perm sz = Inr (gc', m)" "maybe_collected gc g"
    "placed g perm sz 0 m gc'"
proof -
  obtain d1 where d1: "d = Suc d1" "length (active_list gc) + 1005 < d1"
    using d by (intro that [of "d - 1"]) auto
  consider (sweep) "sz = cell_size gc" "dead_list gc = []" "protect_count gc = 0"
    | (idle) "sz = cell_size gc" "dead_list gc = []" "protect_count gc \<noteq> 0"
    | (no) "sz \<noteq> cell_size gc \<or> dead_list gc \<noteq> []" by blast
  then show ?thesis
  proof cases
    case sweep
    then obtain g where g: "sweep d1 gc = Inr g" "collected gc g"
      using sweep_spec [OF inv iso _ d1(2)] by blast
    then have "gc_inv g" "cell_size g = cell_size gc" by (simp_all add: collected_def same_frame_def)
    with sweep g obtain gc' m where "internal_alloc d gc perm sz = Inr (gc', m)"
      "placed g perm sz 0 m gc'" using internal_alloc_placed [of g sz gc d1 perm] d1(1) by blast
    then show ?thesis using that g by (auto simp: maybe_collected_def)
  next
    case idle
    then have "sweep d1 gc = Inr gc" using d1(2) by (cases d1) auto
    with idle inv obtain gc' m where "internal_alloc d gc perm sz = Inr (gc', m)"
      "placed gc perm sz 0 m gc'" using internal_alloc_placed [of gc sz gc d1 perm] d1(1) by blast
    then show ?thesis using that by (auto simp: maybe_collected_def)
  next
    case no
    with inv obtain gc' m where "internal_alloc d gc perm sz = Inr (gc', m)"
      "placed gc perm sz 0 m gc'" using internal_alloc_placed [of gc sz gc d1 perm] d1(1) by blast
    then show ?thesis using that by (auto simp: maybe_collected_def)
  qed
qed


text \<open>The two ways a typed allocation ends in \<open>placed\<close>.\<close>

lemma gc_alloc_type_spec:
  assumes "gc_inv gc" "perm_isolated gc" "length (active_list gc) + 1006 < d"
    and ty: "ty < length (type_defs gc)"
  obtains g gc' m where "gc_alloc_type d gc perm ty = Inr (gc', obj_from_meta m)"
    "maybe_collected gc g" "placed g perm (def_size (type_defs gc ! ty)) (int ty) m gc'"
proof -
  obtain g g1 m where "internal_alloc d gc perm (def_size (type_defs gc ! ty)) = Inr (g1, m)"
    "maybe_collected gc g" and p: "placed g perm (def_size (type_defs gc ! ty)) 0 m g1"
    by (rule internal_alloc_spec [OF assms(1-3)])
  moreover from this have "gc_alloc_type d gc perm ty
      = Inr (set_type g1 m (int ty), obj_from_meta m)"
    using ty by (simp add: gc_alloc_type_def set_type_def)
  ultimately show ?thesis using that placed_set_type [OF p] by blast
qed

lemma gc_alloc_spec:
  assumes "gc_inv gc" "perm_isolated gc" "length (active_list gc) + 1007 < d"
  obtains g gc' m where "gc_alloc d gc perm sz = Inr (gc', obj_from_meta m)"
    "maybe_collected gc g" "placed g perm sz (- 1) m gc'"
proof -
  obtain d1 where d1: "d = Suc d1" "length (active_list gc) + 1006 < d1"
    using assms(3) by (intro that [of "d - 1"]) auto
  obtain g g1 m where a: "internal_alloc d1 gc perm sz = Inr (g1, m)"
    and "maybe_collected gc g" and p: "placed g perm sz 0 m g1"
    by (rule internal_alloc_spec [OF assms(1,2) d1(2)])
  with gc_alloc_placed [OF a] that placed_set_type [OF p] show ?thesis unfolding d1(1) by blast
qed

lemma obj_from_meta_inverse [simp]: "meta_from_obj (obj_from_meta m) = m"
  by (simp add: meta_from_obj_def obj_from_meta_def OBJECT_OFFSET_def)

text \<open>What every allocation promises its caller.\<close>

definition allocated :: "gc_ms \<Rightarrow> bool \<Rightarrow> nat \<Rightarrow> int \<Rightarrow> gc_ms \<Rightarrow> addr \<Rightarrow> bool" where
  "allocated gc perm sz td gc' ob \<longleftrightarrow> (let m = meta_from_obj ob in
     m \<noteq> 0 \<and> m \<notin> live gc \<and> heap gc' m = Some (new_object gc' perm sz td)
   \<and> (\<forall>a\<in>live gc. same_object gc gc' a)
   \<and> live gc' = live gc \<union> (if perm then {m} else {})
   \<and> gc_inv gc' \<and> perm_isolated gc' \<and> balance gc' = balance gc)"

lemma placed_allocated:
  assumes inv: "gc_inv gc" and iso: "perm_isolated gc" and c: "maybe_collected gc g"
    and p: "placed g perm sz td m gc'" and td: "td < int (length (type_defs gc))"
  shows "allocated gc perm sz td gc' (obj_from_meta m)"
proof -
  note f = maybe_collected_facts [OF inv iso c]
  have td': "td < int (length (type_defs g))" using f(3) td by (simp add: same_frame_def)
  have "same_object gc gc' a" if "a \<in> live gc" for a
    using same_object_heap [OF f(6) [OF that]] placed_same [OF f(1) p, of a] that f(4) by simp
  moreover have "heap gc' m = Some (new_object gc' perm sz td)"
    by (simp add: placed_frame [OF p] new_object_def)
  ultimately show ?thesis
    using placed_new [OF f(1) p] placed_inv [OF f(1) p td'] placed_isolated [OF f(1,2) p]
      placed_live [OF f(1) p] placed_balance [OF f(1) p] f(4,5)
    by (simp add: allocated_def)
qed

end
