(* ===== verification/Interfaces.thy ===== *)
theory Interfaces
  imports Prelude
begin

text \<open>
  The interfaces between the components, as locales. \<open>allocator\<close>: what a client of a store may
  assume of the blocks it gets (the collector provides it for permanent objects, the store of the
  virtual machine for its cells). \<open>key_map\<close>: a map from keys to values with lookup, update and
  removal (the hash table provides it; the environments and the label table of the assembler use
  it). \<open>byte_sink\<close>: a place bytes are appended to (the buffer provides it; the assembler and the
  code generator use it). The clients' lemmas are proved here once.
\<close>

section \<open>Allocation\<close>

locale allocator =
  fixes ok :: "'s \<Rightarrow> bool"
    and owned :: "'s \<Rightarrow> addr set"
    and content :: "'s \<Rightarrow> addr \<Rightarrow> 'v"
    and alloc :: "'s \<Rightarrow> 's \<Rightarrow> addr \<Rightarrow> bool"
  assumes alloc_ok: "ok s \<Longrightarrow> alloc s s' a \<Longrightarrow> ok s'"
    and alloc_fresh: "ok s \<Longrightarrow> alloc s s' a \<Longrightarrow> a \<noteq> 0 \<and> a \<notin> owned s"
    and alloc_owned: "ok s \<Longrightarrow> alloc s s' a \<Longrightarrow> owned s' = insert a (owned s)"
    and alloc_content: "ok s \<Longrightarrow> alloc s s' a \<Longrightarrow> b \<in> owned s \<Longrightarrow> content s' b = content s b"
begin

inductive allocs :: "'s \<Rightarrow> addr list \<Rightarrow> 's \<Rightarrow> bool" where
  none: "allocs s [] s"
| more: "alloc s s1 a \<Longrightarrow> allocs s1 as s2 \<Longrightarrow> allocs s (a # as) s2"

lemma allocs_spec:
  assumes "allocs s as s'" "ok s"
  shows "ok s' \<and> distinct as \<and> 0 \<notin> set as \<and> set as \<inter> owned s = {}
    \<and> owned s' = owned s \<union> set as \<and> (\<forall>b\<in>owned s. content s' b = content s b)"
  using assms
proof (induction rule: allocs.induct)
  case (more s s1 a as s2)
  note a = alloc_fresh [OF more.prems more.hyps(1)] alloc_owned [OF more.prems more.hyps(1)]
  have "ok s1" using alloc_ok [OF more.prems more.hyps(1)] .
  from more.IH [OF this] show ?case
    using a alloc_content [OF more.prems more.hyps(1)] by auto
qed auto

end

section \<open>Maps\<close>

locale key_map =
  fixes inv :: "'m \<Rightarrow> bool"
    and lookup :: "'m \<Rightarrow> 'k \<Rightarrow> 'v option"
    and update :: "'m \<Rightarrow> 'k \<Rightarrow> 'v \<Rightarrow> 'm"
    and remove :: "'m \<Rightarrow> 'k \<Rightarrow> 'm"
    and same :: "'k \<Rightarrow> 'k \<Rightarrow> bool"
  assumes update_inv: "inv m \<Longrightarrow> inv (update m k v)"
    and remove_inv: "inv m \<Longrightarrow> inv (remove m k)"
    and lookup_update: "inv m \<Longrightarrow> lookup (update m k v) j = (if same k j then Some v else lookup m j)"
    and lookup_remove: "inv m \<Longrightarrow> lookup (remove m k) j = (if same k j then None else lookup m j)"
begin

lemma foldl_update_inv: "inv m \<Longrightarrow> inv (foldl (\<lambda>m (k, v). update m k v) m kvs)"
  by (induction kvs arbitrary: m) (auto simp: update_inv)

lemma lookup_foldl_other:
  "inv m \<Longrightarrow> \<forall>(k, v)\<in>set kvs. \<not> same k j \<Longrightarrow>
     lookup (foldl (\<lambda>m (k, v). update m k v) m kvs) j = lookup m j"
  by (induction kvs arbitrary: m) (auto simp: update_inv lookup_update)

lemma lookup_foldl_last:
  assumes "inv m" "same k j" "\<forall>(k, v)\<in>set post. \<not> same k j"
  shows "lookup (foldl (\<lambda>m (k, v). update m k v) m (pre @ (k, v) # post)) j = Some v"
  using assms lookup_foldl_other [of "update (foldl (\<lambda>m (k, v). update m k v) m pre) k v" post j]
    foldl_update_inv [of m pre] by (simp add: update_inv lookup_update)

end

section \<open>Byte sinks\<close>

locale byte_sink =
  fixes inv :: "'b \<Rightarrow> bool"
    and contents :: "'b \<Rightarrow> u8 list"
    and put :: "'b \<Rightarrow> u8 list \<Rightarrow> 'b"
  assumes put_inv: "inv b \<Longrightarrow> inv (put b bs)"
    and contents_put: "inv b \<Longrightarrow> contents (put b bs) = contents b @ bs"
begin

lemma foldl_put_inv: "inv b \<Longrightarrow> inv (foldl put b bss)"
  by (induction bss arbitrary: b) (auto simp: put_inv)

lemma contents_foldl: "inv b \<Longrightarrow> contents (foldl put b bss) = contents b @ concat bss"
  by (induction bss arbitrary: b) (auto simp: put_inv contents_put)

end

end
