(* ===== verification/Gc_Props.thy ===== *)
theory Gc_Props
  imports Gc_Alloc Interfaces
begin

text \<open>
  The properties of the collector: collection, allocation, permanent objects, roots, the count
  of allocated blocks and destruction, with a new collector (\<open>fresh_gc\<close>) and a small heap
  (\<open>small_gc\<close>) to apply them to. The collector provides the interface \<open>allocator\<close>.
\<close>

section \<open>A new collector\<close>

definition fresh_gc :: "nat \<Rightarrow> gc_ms" where
  "fresh_gc csize = \<lparr>heap = (\<lambda>_. None), vars = (\<lambda>_. 0), active_list = [], dead_list = [],
     perm_list = [], root_list = [],
     type_defs = [\<lparr>def_size = 8, def_root_list = [\<lparr>ptr_type = ARRAY, ptr_offset = 0\<rparr>]\<rparr>],
     cell_size = csize, size_granularity = sizeof_meta + csize, protect_count = 0,
     allocations = 2, current_mark = RED, array_type = 0,
     next_addr = next_addr (fst (gc_malloc (fst (gc_malloc
       \<lparr>heap = (\<lambda>_. None), vars = (\<lambda>_. 0), active_list = [], dead_list = [],
        perm_list = [], root_list = [], type_defs = [], cell_size = csize,
        size_granularity = sizeof_meta + csize, protect_count = 0, allocations = 0,
        current_mark = RED, array_type = 0, next_addr = 1\<rparr> 16)) 24))\<rparr>"

lemma gc_create_fresh: "gc_create csize = Inr (fresh_gc csize)"
  by (simp add: gc_create_def Let_def gc_register_type_def gc_malloc_def gc_register_array_def
      register_ptr_def_def fresh_gc_def sizeof_obj_def_def sizeof_ptr_def_def sizeof_ptr_def)

lemma fresh_gc_live [simp]: "live (fresh_gc csize) = {}"
  by (simp add: live_def root_objs_def fresh_gc_def)

lemma fresh_gc_inv: "gc_inv (fresh_gc csize)"
  by (simp add: gc_inv_def fresh_gc_def root_objs_def live_objs_def sizeof_meta_def gc_malloc_def)

lemma fresh_gc_isolated: "perm_isolated (fresh_gc csize)"
  by (simp add: perm_isolated_def fresh_gc_def live_objs_def)

text \<open>Every block is longer than what was asked for: strings in it end with a null byte.\<close>

lemma gc_malloc_slack:
  assumes "0 < size_granularity gc"
  shows "next_addr gc + sz < next_addr (fst (gc_malloc gc sz))"
  using mod_less_divisor [OF assms, of sz] by (simp add: gc_malloc_def Let_def)

section \<open>Roots, permanent objects, destruction\<close>

lemma unlink_root_remove1:
  "unlink_root rs r = (if r \<in> set rs then Inr (remove1 r rs)
     else if rs = [] then Inl Bad_Pointer else Inl Assert_Failed)"
  by (induction rs) (auto simp: rbind_def)

lemma unlink_perm_remove1: "m \<in> set ps \<Longrightarrow> unlink_perm ps m = Inr (remove1 m ps, m)"
  by (induction ps) (auto simp: rbind_def)

lemma gc_free_simps [simp]:
  "heap (gc_free gc b) a = (if a = b then None else heap gc a)"
  "allocations (gc_free gc b) = allocations gc - 1"
  "active_list (gc_free gc b) = active_list gc" "dead_list (gc_free gc b) = dead_list gc"
  "perm_list (gc_free gc b) = perm_list gc" "type_defs (gc_free gc b) = type_defs gc"
  "root_list (gc_free gc b) = root_list gc"
  by (simp_all add: gc_free_def)

lemma destroy_list_heap:
  "heap (destroy_list gc ms) a = (if a \<in> set ms then None else heap gc a)"
  "allocations (destroy_list gc ms) = allocations gc - int (length ms)"
  "active_list (destroy_list gc ms) = active_list gc"
  "dead_list (destroy_list gc ms) = dead_list gc"
  "perm_list (destroy_list gc ms) = perm_list gc"
  "type_defs (destroy_list gc ms) = type_defs gc"
  by (induction ms arbitrary: gc) auto

lemma foldl_free:
  "heap (foldl (\<lambda>gc _. gc_free gc 0) gc xs) a = (if a = 0 \<and> xs \<noteq> [] then None else heap gc a)"
  "allocations (foldl (\<lambda>gc _. gc_free gc 0) gc xs) = allocations gc - int (length xs)"
  by (induction xs arbitrary: gc) auto

lemma destroy_types_heap:
  "heap (destroy_types gc ds) a = (if a = 0 then None else heap gc a)"
  "allocations (destroy_types gc ds)
     = allocations gc - int (sum_list (map (\<lambda>d. length (def_root_list d)) ds)) - 1"
  by (induction ds arbitrary: gc) (auto simp: foldl_free)

section \<open>A small heap\<close>

text \<open>
  Four objects: the root variable 7 points to 100, whose slot points to 200; 300 is garbage of
  the cell size; 400 is permanent and points to 200.
\<close>

definition small_gc :: gc_ms where
  "small_gc = (fresh_gc 16)\<lparr>
     heap := [100 \<mapsto> \<lparr>mark = RED, obj_size = 8, type_def = 1, obj = (\<lambda>_. 0)(0 := 228)\<rparr>,
              200 \<mapsto> \<lparr>mark = RED, obj_size = 16, type_def = -1, obj = (\<lambda>_. 0)\<rparr>,
              300 \<mapsto> \<lparr>mark = RED, obj_size = 16, type_def = 1, obj = (\<lambda>_. 0)(0 := 128)\<rparr>,
              400 \<mapsto> \<lparr>mark = PERM, obj_size = 16, type_def = 1, obj = (\<lambda>_. 0)(0 := 228)\<rparr>],
     vars := (\<lambda>_. 0)(7 := 128), active_list := [100, 200, 300], perm_list := [400],
     root_list := [7], next_addr := 500, allocations := 8,
     type_defs := type_defs (fresh_gc 16)
       @ [\<lparr>def_size = 16, def_root_list = [\<lparr>ptr_type = PTR, ptr_offset = 0\<rparr>]\<rparr>]\<rparr>"

lemma small_succs: "succs small_gc a =
   (if a = 100 \<or> a = 400 then {200} else if a = 300 then {100} else {})"
  by (simp add: succs_def small_gc_def slot_pointers_def fresh_gc_def pointers_of_def
      meta_from_obj_def OBJECT_OFFSET_def)

lemma small_roots: "root_objs small_gc = {100, 400}"
  by (auto simp: root_objs_def small_gc_def meta_from_obj_def OBJECT_OFFSET_def)

lemma small_live: "live small_gc = {100, 200, 400}"
proof
  show "live small_gc \<subseteq> {100, 200, 400}"
    by (rule live_least) (auto simp: small_roots small_succs)
  have "{100, 400} \<subseteq> live small_gc" using root_objs_live [of small_gc] by (simp add: small_roots)
  then show "{100, 200, 400} \<subseteq> live small_gc"
    using live_closed [of 100 small_gc 200] by (simp add: small_succs)
qed

lemma small_lists [simp]:
  "active_list small_gc = [100, 200, 300]" "dead_list small_gc = []" "perm_list small_gc = [400]"
  "protect_count small_gc = 0" "length (type_defs small_gc) = 2" "root_list small_gc = [7]"
  "current_mark small_gc = RED" "cell_size small_gc = 16"
  by (simp_all add: small_gc_def fresh_gc_def)

lemma small_inv: "gc_inv small_gc"
proof (rule gc_invI)
  show "succs small_gc a \<subseteq> live_objs small_gc" if "a \<in> live_objs small_gc" for a
    by (auto simp: small_succs live_objs_def)
  show "root_objs small_gc \<subseteq> live_objs small_gc" by (simp add: small_roots live_objs_def)
qed (auto simp: small_gc_def fresh_gc_def sizeof_meta_def marked_def live_objs_def split: if_splits)

lemma small_isolated: "perm_isolated small_gc"
  by (auto simp: perm_isolated_def small_succs)


section \<open>Permanent allocation\<close>

text \<open>Permanent objects of the given types, allocated in order.\<close>

fun alloc_perms :: "nat \<Rightarrow> gc_ms \<Rightarrow> nat list \<Rightarrow> (gc_ms \<times> addr list) res" where
  "alloc_perms d gc [] = Inr (gc, [])"
| "alloc_perms d gc (ty # tys) =
     rbind (gc_alloc_type d gc True ty) (\<lambda>(gc, ob).
     rbind (alloc_perms d gc tys) (\<lambda>(gc, obs). Inr (gc, meta_from_obj ob # obs)))"

definition gc_content :: "gc_ms \<Rightarrow> addr \<Rightarrow> meta_obj option" where
  "gc_content gc a = map_option (\<lambda>mo. mo\<lparr>mark := RED\<rparr>) (heap gc a)"

definition alloc_perm :: "gc_ms \<Rightarrow> gc_ms \<Rightarrow> addr \<Rightarrow> bool" where
  "alloc_perm gc gc' m \<longleftrightarrow> (\<exists>d ty. ty < length (type_defs gc) \<and> length (active_list gc) + 1006 < d
     \<and> gc_alloc_type d gc True ty = Inr (gc', obj_from_meta m))"

lemma obj_from_meta_inj: "a \<noteq> 0 \<Longrightarrow> obj_from_meta a = obj_from_meta b \<longleftrightarrow> a = b"
  by (auto simp: obj_from_meta_def OBJECT_OFFSET_def)

lemma alloc_type_allocated:
  assumes "gc_inv gc" "perm_isolated gc" "length (active_list gc) + 1006 < d"
    and "ty < length (type_defs gc)"
  obtains gc' m where "gc_alloc_type d gc perm ty = Inr (gc', obj_from_meta m)"
    "allocated gc perm (def_size (type_defs gc ! ty)) (int ty) gc' (obj_from_meta m)"
    "type_defs gc' = type_defs gc"
    "length (active_list gc') \<le> length (active_list gc) + (if perm then 0 else 1)"
proof -
  obtain g gc' m where a: "gc_alloc_type d gc perm ty = Inr (gc', obj_from_meta m)"
    "maybe_collected gc g" "placed g perm (def_size (type_defs gc ! ty)) (int ty) m gc'"
    by (rule gc_alloc_type_spec [OF assms])
  have "length (active_list g) \<le> length (active_list gc)"
    using a(2) collected_length [OF assms(1)] by (auto simp: maybe_collected_def)
  then have "length (active_list gc') \<le> length (active_list gc) + (if perm then 0 else 1)"
    "type_defs gc' = type_defs gc"
    using maybe_collected_facts(3) [OF assms(1,2) a(2)]
    by (auto simp: placed_frame [OF a(3)] same_frame_def)
  with that a placed_allocated [OF assms(1,2) a(2,3)] assms(4) show ?thesis by simp
qed

lemma alloc_perm_allocated:
  assumes "gc_inv gc \<and> perm_isolated gc" "alloc_perm gc gc' m"
  shows "\<exists>sz td. allocated gc True sz td gc' (obj_from_meta m)"
proof -
  from assms(2) obtain d ty where d: "ty < length (type_defs gc)"
    "length (active_list gc) + 1006 < d" "gc_alloc_type d gc True ty = Inr (gc', obj_from_meta m)"
    by (auto simp: alloc_perm_def)
  obtain g1 n where n: "gc_alloc_type d gc True ty = Inr (g1, obj_from_meta n)"
    "allocated gc True (def_size (type_defs gc ! ty)) (int ty) g1 (obj_from_meta n)"
    using alloc_type_allocated [of gc d ty True] assms(1) d by metis
  with d show ?thesis by auto
qed

lemma same_object_content:
  "same_object gc gc' a \<Longrightarrow> gc_content gc' a = gc_content gc a"
  unfolding same_object_def gc_content_def
  by (metis (no_types, lifting) meta_obj.surjective meta_obj.update_convs(1) option.simps(9))

interpretation gc_perm: allocator "\<lambda>gc. gc_inv gc \<and> perm_isolated gc" live gc_content alloc_perm
proof
  fix gc gc' m assume ok: "gc_inv gc \<and> perm_isolated gc" and al: "alloc_perm gc gc' m"
  from alloc_perm_allocated [OF this] obtain sz td where
    a: "allocated gc True sz td gc' (obj_from_meta m)" by blast
  then show "gc_inv gc' \<and> perm_isolated gc'" "m \<noteq> 0 \<and> m \<notin> live gc"
    "live gc' = insert m (live gc)" by (simp_all add: allocated_def)
  show "gc_content gc' b = gc_content gc b" if "b \<in> live gc" for b
    using a that by (simp add: allocated_def same_object_content)
qed

lemma alloc_perms_run:
  "gc_inv gc \<and> perm_isolated gc \<Longrightarrow> length (active_list gc) + 1006 < d \<Longrightarrow>
     \<forall>ty\<in>set tys. ty < length (type_defs gc) \<Longrightarrow>
     \<exists>gc' ms. alloc_perms d gc tys = Inr (gc', ms) \<and> length ms = length tys \<and> gc_perm.allocs gc ms gc'"
proof (induction tys arbitrary: gc)
  case Nil
  then show ?case by (auto intro: gc_perm.allocs.none)
next
  case (Cons ty tys)
  then obtain g1 m where g1: "gc_alloc_type d gc True ty = Inr (g1, obj_from_meta m)"
    "allocated gc True (def_size (type_defs gc ! ty)) (int ty) g1 (obj_from_meta m)"
    "type_defs g1 = type_defs gc" "length (active_list g1) \<le> length (active_list gc)"
    using alloc_type_allocated [of gc d ty True] by (metis add_0_right list.set_intros(1))
  have "gc_inv g1 \<and> perm_isolated g1" using g1(2) by (simp add: allocated_def)
  moreover have "length (active_list g1) + 1006 < d" "\<forall>ty\<in>set tys. ty < length (type_defs g1)"
    using Cons.prems g1(3,4) by auto
  ultimately obtain gc' ms where r: "alloc_perms d g1 tys = Inr (gc', ms)"
    "length ms = length tys" "gc_perm.allocs g1 ms gc'" using Cons.IH by blast
  have "alloc_perm gc g1 m" using Cons.prems g1(1) by (auto simp: alloc_perm_def)
  then have "gc_perm.allocs gc (m # ms) gc'" using r(3) by (rule gc_perm.allocs.more)
  then show ?case using r g1(1) by auto
qed


section \<open>Accounting\<close>

lemma int_length_remove1: "x \<in> set xs \<Longrightarrow> int (length (remove1 x xs)) = int (length xs) - 1"
  by (induction xs) auto

definition accounted :: "gc_ms \<Rightarrow> bool" where
  "accounted gc \<longleftrightarrow> balance gc
     = 1 + int (sum_list (map (\<lambda>d. length (def_root_list d)) (type_defs gc)))
       + int (length (root_list gc))"

lemma accounted_fresh: "accounted (fresh_gc csize)"
  by (simp add: accounted_def balance_def fresh_gc_def)

lemma accounted_type:
  "accounted gc \<Longrightarrow> type_defs gc \<noteq> [] \<Longrightarrow> accounted (fst (gc_register_type gc sz))"
  by (simp add: accounted_def balance_def gc_register_type_def Let_def gc_malloc_def gc_free_def)

lemma accounted_ptr_def:
  assumes "accounted gc" "register_ptr_def gc ty k off = Inr gc'"
  shows "accounted gc'"
proof -
  have "sum_list (map f (xs[i := x])) + f (xs ! i) = sum_list (map f xs) + f x"
    if "i < length xs" for f :: "meta_obj_def \<Rightarrow> nat" and xs i x
    using that by (induction xs arbitrary: i) (auto split: nat.split)
  note upd = this [of ty "type_defs gc" "\<lambda>d. length (def_root_list d)"]
  let ?def = "type_defs gc ! ty"
  let ?new = "?def\<lparr>def_root_list := \<lparr>ptr_type = k, ptr_offset = off\<rparr> # def_root_list ?def\<rparr>"
  from assms(2) have ty: "ty < length (type_defs gc)"
    and g: "type_defs gc' = (type_defs gc)[ty := ?new]" "allocations gc' = allocations gc + 1"
      "active_list gc' = active_list gc" "dead_list gc' = dead_list gc"
      "perm_list gc' = perm_list gc" "root_list gc' = root_list gc"
    by (auto simp: register_ptr_def_def Let_def gc_malloc_def res_simps)
  have "sum_list (map (\<lambda>d. length (def_root_list d)) (type_defs gc'))
      = Suc (sum_list (map (\<lambda>d. length (def_root_list d)) (type_defs gc)))"
    using upd [OF ty, of ?new] by (simp add: g)
  then show ?thesis using assms(1) by (simp add: accounted_def balance_def g)
qed

lemma accounted_root: "accounted gc \<Longrightarrow> accounted (gc_register_root gc r)"
  by (simp add: accounted_def balance_def gc_register_root_def Let_def gc_malloc_def)

lemma accounted_unroot:
  assumes "accounted gc" "gc_unregister_root gc r = Inr gc'"
  shows "accounted gc'"
proof -
  have r: "r \<in> set (root_list gc)"
    "gc' = gc_free (gc\<lparr>root_list := remove1 r (root_list gc)\<rparr>) 0"
    using assms(2) by (auto simp: gc_unregister_root_def unlink_root_remove1 split: if_splits)
  with assms(1) int_length_remove1 [OF r(1)] show ?thesis
    by (simp add: accounted_def balance_def gc_free_def)
qed

section \<open>Properties\<close>

text \<open>C6: a sweep of an unprotected collector always returns, given stack for the active list and
  the preallocation; exactly the live objects stay on their lists, unchanged but for the mark, the
  invariant holds again, and at least one dead cell is ready for the next allocation.\<close>

theorem gc_sweep_exact:
  assumes "gc_inv gc" and "perm_isolated gc" and "protect_count gc = 0"
    and "length (active_list gc) + 1005 < d"
  shows "\<exists>gc'. gc_sweep d gc = Inr gc' \<and> set (active_list gc') = live gc - set (perm_list gc)
    \<and> (\<forall>a\<in>live gc. same_object gc gc' a) \<and> live gc' = live gc
    \<and> gc_inv gc' \<and> perm_isolated gc' \<and> dead_list gc' \<noteq> [] \<and> balance gc' = balance gc"
proof -
  obtain gc' where "sweep d gc = Inr gc'" "collected gc gc'" "dead_list gc' \<noteq> []"
    by (rule sweep_spec [OF assms])
  then show ?thesis by (auto simp: gc_sweep_def collected_def)
qed

theorem gc_sweep_exact_witness:
  "\<exists>gc'. gc_sweep 2000 small_gc = Inr gc' \<and> set (active_list gc') = {100, 200}"
  using gc_sweep_exact [OF small_inv small_isolated, of 2000] by (auto simp: small_live)

text \<open>C17: a typed allocation always returns, whether it reuses a dead cell, sweeps first or takes
  a new block; the object is new (never a live one), zeroed, of the type's size, and every live
  object keeps its contents.\<close>

theorem gc_alloc_type_safe:
  assumes "gc_inv gc" and "perm_isolated gc" and "length (active_list gc) + 1006 < d"
    and "ty < length (type_defs gc)"
  shows "\<exists>gc' ob. gc_alloc_type d gc perm ty = Inr (gc', ob)
    \<and> allocated gc perm (def_size (type_defs gc ! ty)) (int ty) gc' ob"
proof -
  obtain gc' m where "gc_alloc_type d gc perm ty = Inr (gc', obj_from_meta m)"
    "allocated gc perm (def_size (type_defs gc ! ty)) (int ty) gc' (obj_from_meta m)"
    by (rule alloc_type_allocated [OF assms])
  then show ?thesis by blast
qed

theorem gc_alloc_type_safe_witness:
  "\<exists>gc' ob. gc_alloc_type 2000 small_gc False 1 = Inr (gc', ob)
     \<and> meta_from_obj ob \<notin> {100, 200, 400}"
  using gc_alloc_type_safe [OF small_inv small_isolated, of 2000 1 False]
  by (auto simp: allocated_def small_live Let_def)

text \<open>an untyped allocation of any size always returns a new, zeroed object of that size.\<close>

theorem gc_alloc_safe:
  assumes "gc_inv gc" and "perm_isolated gc" and "length (active_list gc) + 1007 < d"
  shows "\<exists>gc' ob. gc_alloc d gc perm sz = Inr (gc', ob) \<and> allocated gc perm sz (- 1) gc' ob"
proof -
  obtain g gc' m where "gc_alloc d gc perm sz = Inr (gc', obj_from_meta m)"
    "maybe_collected gc g" "placed g perm sz (- 1) m gc'" by (rule gc_alloc_spec [OF assms])
  then show ?thesis using placed_allocated [OF assms(1,2)] by fastforce
qed

theorem gc_alloc_safe_witness:
  "\<exists>gc' ob. gc_alloc 2000 small_gc True 40 = Inr (gc', ob) \<and> meta_from_obj ob \<notin> {100, 200, 400}"
  using gc_alloc_safe [OF small_inv small_isolated, of 2000 True 40]
  by (auto simp: allocated_def small_live Let_def)

text \<open>permanent objects allocated one after the other, with whatever sweeps happen between,
  are distinct, none is an object that was live before, all stay live, and no live object's
  contents change.\<close>

theorem perm_objects_kept:
  assumes "gc_inv gc" and "perm_isolated gc" and "length (active_list gc) + 1006 < d"
    and "\<forall>ty\<in>set tys. ty < length (type_defs gc)"
  shows "\<exists>gc' ms. alloc_perms d gc tys = Inr (gc', ms) \<and> length ms = length tys
    \<and> distinct ms \<and> 0 \<notin> set ms \<and> set ms \<inter> live gc = {} \<and> live gc' = live gc \<union> set ms
    \<and> (\<forall>a\<in>live gc. gc_content gc' a = gc_content gc a)"
proof -
  obtain gc' ms where r: "alloc_perms d gc tys = Inr (gc', ms)" "length ms = length tys"
    "gc_perm.allocs gc ms gc'" using alloc_perms_run [of gc d tys] assms by blast
  from gc_perm.allocs_spec [OF r(3)] assms(1,2) r(1,2) show ?thesis by auto
qed

theorem perm_objects_kept_witness:
  "\<exists>gc' ms. alloc_perms 2000 small_gc [1, 0, 1] = Inr (gc', ms) \<and> distinct ms \<and> length ms = 3"
  using perm_objects_kept [OF small_inv small_isolated, of 2000 "[1, 0, 1]"] by auto

text \<open>a new collector satisfies the invariant and has nothing live.\<close>

theorem gc_create_ok:
  "\<exists>gc. gc_create csize = Inr gc \<and> gc_inv gc \<and> perm_isolated gc \<and> live gc = {}
     \<and> gc_stats gc = (0, 0, 0, 2)"
  using fresh_gc_inv [of csize] fresh_gc_isolated [of csize]
  by (auto simp: gc_create_fresh gc_stats_def count_list_def) (simp_all add: fresh_gc_def)

text \<open>unregistering a root removes its most recent registration and nothing else, and so
  undoes the registration; a root that is not registered stops the program.\<close>

theorem unregister_root_spec:
  "gc_unregister_root gc r = (if r \<in> set (root_list gc)
      then Inr (gc_free (gc\<lparr>root_list := remove1 r (root_list gc)\<rparr>) 0)
      else if root_list gc = [] then Inl Bad_Pointer else Inl Assert_Failed)
   \<and> (\<exists>gc'. gc_unregister_root (gc_register_root gc r) r = Inr gc'
        \<and> root_list gc' = root_list gc \<and> allocations gc' = allocations gc)"
  by (simp add: gc_unregister_root_def unlink_root_remove1 gc_register_root_def gc_malloc_def Let_def)

text \<open>registering types, pointers and roots keeps the count of allocated blocks exact: the
  objects, one block for the type table, one for every pointer of a type, one for every root.\<close>

theorem registration_accounted:
  "accounted (fresh_gc csize)
   \<and> (accounted gc \<and> type_defs gc \<noteq> [] \<longrightarrow> accounted (fst (gc_register_type gc sz)))
   \<and> (accounted gc \<and> gc_register_pointer gc ty off = Inr gc1 \<longrightarrow> accounted gc1)
   \<and> (accounted gc \<and> gc_register_array gc ty off = Inr gc2 \<longrightarrow> accounted gc2)
   \<and> (accounted gc \<longrightarrow> accounted (gc_register_root gc r))
   \<and> (accounted gc \<and> gc_unregister_root gc r = Inr gc3 \<longrightarrow> accounted gc3)"
  using accounted_ptr_def [of gc ty PTR off gc1] accounted_ptr_def [of gc ty ARRAY off gc2]
    accounted_fresh [of csize] accounted_type [of gc sz] accounted_root [of gc r]
    accounted_unroot [of gc r gc3]
  by (simp add: gc_register_pointer_def gc_register_array_def)

theorem registration_accounted_witness:
  "accounted (fst (gc_register_type (fresh_gc 64) 16))
   \<and> accounted (gc_register_root (fresh_gc 64) 7)"
  using registration_accounted [of 64 "fresh_gc 64" 16 0 0 "fresh_gc 64" "fresh_gc 64" 7 "fresh_gc 64"]
  by (simp add: fresh_gc_def)

text \<open>destroying a collector frees every object it has, on whatever list, and every other
  block that was counted except the nodes of the roots that are still registered: these leak. (The
  collector's own block is freed but was never counted, hence the one that is subtracted.)\<close>

theorem gc_destroy_leaks_roots:
  assumes "gc_inv gc" and "accounted gc"
  shows "heap (gc_destroy gc) a = None
    \<and> allocations (gc_destroy gc) = int (length (root_list gc)) - 1"
proof
  have h: "heap (gc_destroy gc) a = (if a \<in> insert 0 (set (active_list gc @ dead_list gc @ perm_list gc))
      then None else heap gc a)"
    by (simp add: gc_destroy_def Let_def destroy_list_heap destroy_types_heap)
  show "heap (gc_destroy gc) a = None"
    unfolding h using gc_inv_dom [OF assms(1), of a] by (cases "heap gc a") auto
  show "allocations (gc_destroy gc) = int (length (root_list gc)) - 1"
    using assms(2) by (simp add: gc_destroy_def Let_def destroy_list_heap destroy_types_heap
        accounted_def balance_def)
qed

theorem gc_destroy_leaks_roots_witness:
  "allocations (gc_destroy small_gc) = 0 \<and> heap (gc_destroy small_gc) 400 = None"
proof -
  have "accounted small_gc"
    by (simp add: accounted_def balance_def small_gc_def fresh_gc_def)
  from gc_destroy_leaks_roots [OF small_inv this, of 400] show ?thesis by simp
qed

text \<open>Objects from which no pointer leads to a freed one, with registered types; and permanent objects of
  which each has a pointer to one of them.\<close>

definition traceable :: "gc_ms \<Rightarrow> addr set \<Rightarrow> bool" where
  "traceable gc A \<longleftrightarrow> (\<forall>a\<in>A. \<exists>mo. heap gc a = Some mo \<and> mark mo \<noteq> DEAD
     \<and> (type_def mo < 0 \<or> nat (type_def mo) < length (type_defs gc)) \<and> meta_from_obj ` set (slot_pointers gc mo) \<subseteq> insert 0 A)"

definition perm_cycle :: "gc_ms \<Rightarrow> addr set \<Rightarrow> bool" where
  "perm_cycle gc S \<longleftrightarrow> (\<forall>a\<in>S. a \<noteq> 0 \<and> (\<exists>mo. heap gc a = Some mo \<and> mark mo = PERM
     \<and> meta_from_obj ` set (slot_pointers gc mo) \<inter> S \<noteq> {}))"

lemma traceable_mark:
  assumes "k \<noteq> DEAD" "traceable gc A"
  shows "traceable (mark_set gc V k) A"
  unfolding traceable_def
proof
  fix a assume "a \<in> A"
  then obtain mo where m: "heap gc a = Some mo" "mark mo \<noteq> DEAD" "type_def mo < 0 \<or> nat (type_def mo) < length (type_defs gc)"
    "meta_from_obj ` set (slot_pointers gc mo) \<subseteq> insert 0 A" using assms(2) unfolding traceable_def by blast
  let ?mo = "if a \<in> V \<and> mark mo \<noteq> PERM then mo\<lparr>mark := k\<rparr> else mo"
  have "slot_pointers gc ?mo = slot_pointers gc mo" by (simp add: slot_pointers_def pointers_of_def)
  then show "\<exists>mo. heap (mark_set gc V k) a = Some mo \<and> mark mo \<noteq> DEAD \<and> (type_def mo < 0 \<or> nat (type_def mo) < length (type_defs (mark_set gc V k)))
      \<and> meta_from_obj ` set (slot_pointers (mark_set gc V k) mo) \<subseteq> insert 0 A"
    using m assms(1) by (intro exI [of _ ?mo]) (simp add: heap_mark_set)
qed

lemma perm_cycle_mark: "perm_cycle gc S \<Longrightarrow> perm_cycle (mark_set gc V k) S"
  by (fastforce simp: perm_cycle_def heap_mark_set)

lemma mark_graph_cycle:
  "k \<noteq> PERM \<Longrightarrow> k \<noteq> DEAD \<Longrightarrow> traceable gc A \<Longrightarrow> perm_cycle gc S \<Longrightarrow> m \<in> insert 0 A \<Longrightarrow>
     mark_graph d gc m k = Inl Stack_Overflow \<or> m \<notin> S \<and> (\<exists>gc'. mark_graph d gc m k = Inr gc')"
  "k \<noteq> PERM \<Longrightarrow> k \<noteq> DEAD \<Longrightarrow> traceable gc A \<Longrightarrow> perm_cycle gc S \<Longrightarrow> meta_from_obj ` set ps \<subseteq> insert 0 A \<Longrightarrow>
     mark_pointers d gc ps k = Inl Stack_Overflow
     \<or> meta_from_obj ` set ps \<inter> S = {} \<and> (\<exists>gc'. mark_pointers d gc ps k = Inr gc')"
proof (induction d gc m k and d gc ps k rule: mark_graph_mark_pointers.induct)
  case (2 d gc m k)
  show ?case
  proof (cases "m = 0")
    case True
    then show ?thesis using "2.prems"(4) by (auto simp: perm_cycle_def)
  next
    case False
    then obtain mo where m: "heap gc m = Some mo" "mark mo \<noteq> DEAD" "type_def mo < 0 \<or> nat (type_def mo) < length (type_defs gc)"
      "meta_from_obj ` set (slot_pointers gc mo) \<subseteq> insert 0 A" using "2.prems"(3,5) by (auto simp: traceable_def)
    have s: "m \<in> S \<Longrightarrow> mark mo = PERM \<and> meta_from_obj ` set (slot_pointers gc mo) \<inter> S \<noteq> {}"
      using "2.prems"(4) m(1) by (fastforce simp: perm_cycle_def)
    show ?thesis
    proof (cases "mark mo = k \<or> type_def mo < 0")
      case True
      then have "m \<notin> S" using s "2.prems"(1) by (auto simp: slot_pointers_def)
      then show ?thesis using True False m(1,2) by auto
    next
      case n: False
      let ?ps = "slot_pointers gc mo"
      have e: "mark_graph (Suc d) gc m k = mark_pointers d (mark_object gc m k) ?ps k"
        using False n m(1-3) by (auto simp: slot_pointers_def)
      have "mark_pointers d (mark_object gc m k) ?ps k = Inl Stack_Overflow
          \<or> meta_from_obj ` set ?ps \<inter> S = {} \<and> (\<exists>gc'. mark_pointers d (mark_object gc m k) ?ps k = Inr gc')"
        using "2.IH" [of mo "type_defs gc ! nat (type_def mo)"] False n m "2.prems" traceable_mark perm_cycle_mark
        by (simp add: mark_object_set slot_pointers_def)
      then show ?thesis unfolding e using s by blast
    qed
  qed
next
  case (4 d gc p ps k)
  show ?case
  proof (cases "\<exists>g. mark_graph d gc (meta_from_obj p) k = Inr g")
    case True
    then obtain g where g: "mark_graph d gc (meta_from_obj p) k = Inr g" by blast
    obtain V where v: "g = mark_set gc V k" using mark_graph_visited(1) [OF g "4.prems"(1,2)] by (auto simp: visited_def)
    have "meta_from_obj p \<notin> S" using "4.IH"(1) "4.prems" g by auto
    moreover have "mark_pointers d g ps k = Inl Stack_Overflow \<or> meta_from_obj ` set ps \<inter> S = {} \<and> (\<exists>gc'. mark_pointers d g ps k = Inr gc')"
      using "4.IH"(2) [OF g "4.prems"(1,2)] "4.prems" traceable_mark perm_cycle_mark unfolding v by simp
    ultimately show ?thesis using g by auto
  next
    case False
    then have "mark_graph d gc (meta_from_obj p) k = Inl Stack_Overflow" using "4.IH"(1) "4.prems" by auto
    then show ?thesis by simp
  qed
qed auto

text \<open>C33: marking never sets the mark of a permanent object, so when permanent objects point to each
  other in a cycle, marking one of them exhausts the C stack, however deep it is.\<close>

theorem mark_perm_cycle:
  assumes "traceable gc A" "perm_cycle gc S" "S \<subseteq> A" "m \<in> S" "k \<noteq> PERM" "k \<noteq> DEAD"
  shows "mark_graph d gc m k = Inl Stack_Overflow"
  using mark_graph_cycle(1) [OF assms(5,6,1,2), of m d] assms(3,4) by blast

text \<open>Two permanent objects that point to each other.\<close>

definition looping_gc :: gc_ms where
  "looping_gc = small_gc\<lparr>heap := (heap small_gc)(400 \<mapsto> \<lparr>mark = PERM, obj_size = 16, type_def = 1, obj = (\<lambda>_. 0)(0 := 528)\<rparr>,
     500 \<mapsto> \<lparr>mark = PERM, obj_size = 16, type_def = 1, obj = (\<lambda>_. 0)(0 := 428)\<rparr>)\<rparr>"

theorem mark_perm_cycle_witness:
  "\<forall>d. mark_graph d looping_gc 400 BLACK = Inl Stack_Overflow"
proof
  fix d
  have "traceable looping_gc {400, 500}" "perm_cycle looping_gc {400, 500}"
    by (simp_all add: traceable_def perm_cycle_def looping_gc_def small_gc_def fresh_gc_def slot_pointers_def pointers_of_def
        meta_from_obj_def OBJECT_OFFSET_def)
  from mark_perm_cycle [OF this] show "mark_graph d looping_gc 400 BLACK = Inl Stack_Overflow" by simp
qed

text \<open>taking an object off the permanent list keeps the invariant: the object moves to the
  active list with the current mark, and from then on it lives only as long as it is reachable.\<close>

theorem gc_de_perm_ok:
  assumes "gc_inv gc" and "m \<in> set (perm_list gc)"
  shows "\<exists>gc'. gc_de_perm gc (obj_from_meta m) = Inr gc' \<and> gc_inv gc'
    \<and> active_list gc' = m # active_list gc \<and> perm_list gc' = remove1 m (perm_list gc)
    \<and> live gc' \<subseteq> live gc \<and> balance gc' = balance gc"
proof -
  let ?g = "update_meta gc m (\<lambda>mo. mo\<lparr>mark := current_mark gc\<rparr>)"
  define gc' where "gc' = ?g\<lparr>perm_list := remove1 m (perm_list gc), active_list := m # active_list gc\<rparr>"
  have dom: "heap gc m \<noteq> None" using gc_inv_dom [OF assms(1), of m] assms(2) by auto
  then obtain mo where mo: "heap gc m = Some mo" "mark mo = PERM"
    using gc_inv_marks(3) [OF assms(1,2)] by (auto simp: marked_def)
  have m: "m \<notin> set (active_list gc)" "m \<notin> set (dead_list gc)"
    using gc_inv_disjoint [OF assms(1)] assms(2) by auto
  have sets: "set (remove1 m (perm_list gc)) = set (perm_list gc) - {m}"
    "distinct (remove1 m (perm_list gc))"
    using gc_inv_disjoint(6) [OF assms(1)] by simp_all
  have r: "gc_de_perm gc (obj_from_meta m) = Inr gc'"
    using mo assms(2) by (simp add: gc_de_perm_def Let_def unlink_perm_remove1 gc'_def update_meta_def)
  have f: "active_list gc' = m # active_list gc" "perm_list gc' = remove1 m (perm_list gc)"
    "dead_list gc' = dead_list gc" "vars gc' = vars gc" "root_list gc' = root_list gc"
    "type_defs gc' = type_defs gc" "cell_size gc' = cell_size gc" "next_addr gc' = next_addr gc"
    "size_granularity gc' = size_granularity gc" "protect_count gc' = protect_count gc"
    "current_mark gc' = current_mark gc" "allocations gc' = allocations gc"
    "heap gc' = (heap gc)(m \<mapsto> mo\<lparr>mark := current_mark gc\<rparr>)" "array_type gc' = array_type gc"
    by (simp_all add: gc'_def update_meta_def mo)
  have objs: "live_objs gc' = live_objs gc" using assms(2) by (auto simp: live_objs_def f sets)
  have roots: "root_objs gc' \<subseteq> root_objs gc" by (auto simp: root_objs_def f sets)
  have succs: "succs gc' a = succs gc a" for a
    using succs_frame [of gc' gc a] slot_pointers_frame [of gc' gc]
    by (cases "a = m") (simp_all add: f, simp add: succs_def mo f)
  have "gc_inv gc'"
  proof (rule gc_invI)
    show "distinct (active_list gc' @ dead_list gc' @ perm_list gc')"
      using gc_inv_disjoint [OF assms(1)] m by (auto simp: f sets)
    show "heap gc' a \<noteq> None \<longleftrightarrow> a \<in> set (active_list gc' @ dead_list gc' @ perm_list gc')" for a
      using gc_inv_dom [OF assms(1), of a] assms(2) by (auto simp: f sets)
    show "0 < a \<and> a < next_addr gc'" if "heap gc' a \<noteq> None" for a
      using that gc_inv_addr [OF assms(1), of a] mo by (auto simp: f split: if_splits)
    show "marked gc' (current_mark gc') a" if "a \<in> set (active_list gc')" for a
      using that gc_inv_marks(1) [OF assms(1), of a] by (auto simp: f marked_def)
    show "marked gc' DEAD a \<and> obj_size (the (heap gc' a)) = cell_size gc'"
      if "a \<in> set (dead_list gc')" for a
      using that m assms(1) by (auto simp: f marked_def gc_inv_def)
    show "marked gc' PERM a" if "a \<in> set (perm_list gc')" for a
      using that gc_inv_marks(3) [OF assms(1), of a] by (auto simp: f marked_def sets)
    show "type_def (the (heap gc' a)) < int (length (type_defs gc'))" if "a \<in> live_objs gc'" for a
      using that assms(1) mo by (auto simp: f objs gc_inv_def)
    show "succs gc' a \<subseteq> live_objs gc'" if "a \<in> live_objs gc'" for a
      using that assms(1) by (simp add: objs succs gc_inv_def)
    show "root_objs gc' \<subseteq> live_objs gc'" using roots assms(1) by (auto simp: objs gc_inv_def)
  qed (use assms(1) in \<open>simp_all add: f gc_inv_def\<close>)
  moreover have "live gc' \<subseteq> live gc"
    using roots root_objs_live [of gc] live_closed [of _ gc] by (intro live_least) (auto simp: succs)
  moreover have "balance gc' = balance gc"
    using int_length_remove1 [OF assms(2)] by (simp add: balance_def f)
  ultimately show ?thesis using r f by blast
qed

theorem gc_de_perm_ok_witness:
  "\<exists>gc'. gc_de_perm small_gc 428 = Inr gc' \<and> active_list gc' = [400, 100, 200, 300]"
  using gc_de_perm_ok [OF small_inv, of 400] by (auto simp: obj_from_meta_def OBJECT_OFFSET_def)

end
