(* ===== verification/Floats.thy ===== *)
theory Floats
  imports Complex_Main "HOL-Library.Log_Nat"
begin

text \<open>
  The numbers that C's \<open>float\<close> and \<open>double\<close> make of positive rationals: rounding to the nearest number
  with 24 or 53 significant bits, to the even one when there are two. Numbers near the ends of the range of
  exponents do not occur in the code.
\<close>

section \<open>Rounding\<close>

text \<open>The exponent \<open>e\<close> with \<open>2 ^ e \<le> q < 2 ^ (e + 1)\<close>.\<close>

definition exponent :: "rat \<Rightarrow> int" where
  "exponent q = (if 1 \<le> q then int (floorlog 2 (nat \<lfloor>q\<rfloor>)) - 1 else - int (floorlog 2 (nat (\<lceil>1 / q\<rceil> - 1))))"

definition nearest_even :: "rat \<Rightarrow> int" where
  "nearest_even x = (let n = \<lfloor>x\<rfloor>; f = x - of_int n in if f < 1 / 2 \<or> f = 1 / 2 \<and> even n then n else n + 1)"

text \<open>The distance of two numbers with \<open>p\<close> bits around \<open>q\<close>.\<close>

definition ulp :: "nat \<Rightarrow> rat \<Rightarrow> rat" where
  "ulp p q = 2 powi (exponent q + 1 - int p)"

definition round_bits :: "nat \<Rightarrow> rat \<Rightarrow> rat" where
  "round_bits p q = (if q = 0 then 0 else of_int (nearest_even (q / ulp p q)) * ulp p q)"

abbreviation to_double :: "rat \<Rightarrow> rat" where "to_double \<equiv> round_bits 53"
abbreviation to_float :: "rat \<Rightarrow> rat" where "to_float \<equiv> round_bits 24"

section \<open>The error\<close>

lemma floorlog_pow:
  assumes "0 < n"
  shows "2 ^ (floorlog 2 n - 1) \<le> n" "n < 2 ^ floorlog 2 n" "0 < floorlog 2 n"
  using floorlog_bounds [of n 2] assms floorlog_eq_zero_iff [of 2 n] by auto

lemma exponent_bounds:
  assumes "0 < q"
  shows "2 powi exponent q \<le> q" "q < 2 powi (exponent q + 1)"
proof -
  have "2 powi exponent q \<le> q \<and> q < 2 powi (exponent q + 1)"
  proof (cases "1 \<le> q")
    case True
    define n where "n = nat \<lfloor>q\<rfloor>"
    have n: "of_nat n \<le> q" "q < of_nat n + 1" "0 < n" using True unfolding n_def by linarith+
    obtain k where k: "floorlog 2 n = Suc k" using floorlog_pow(3) [OF n(3)] by (cases "floorlog 2 n") auto
    have "(2 :: rat) ^ k \<le> of_nat n" "of_nat n + 1 \<le> (2 :: rat) ^ Suc k"
      using floorlog_pow(1,2) [OF n(3)] unfolding k diff_Suc_1 by (metis of_nat_le_iff of_nat_numeral of_nat_power,
        metis Suc_le_eq of_nat_Suc add.commute of_nat_le_iff of_nat_numeral of_nat_power)
    then have "(2 :: rat) ^ k \<le> q" "q < 2 ^ Suc k" using n(1,2) by linarith+
    moreover have "exponent q = int k" "exponent q + 1 = int (Suc k)" using True by (simp_all add: exponent_def n_def [symmetric] k)
    ultimately show ?thesis by (simp only: power_int_of_nat)
  next
    case False
    define n where "n = nat (\<lceil>1 / q\<rceil> - 1)"
    have "1 < 1 / q" using False assms by simp
    then have n: "of_nat n < 1 / q" "1 / q \<le> of_nat n + 1" "0 < n" unfolding n_def by linarith+
    let ?k = "floorlog 2 n"
    have k: "(2 :: rat) ^ (?k - 1) \<le> of_nat n" "of_nat n + 1 \<le> (2 :: rat) ^ ?k"
      using floorlog_pow [OF n(3)] by (metis of_nat_le_iff of_nat_numeral of_nat_power,
        metis Suc_le_eq of_nat_Suc add.commute of_nat_le_iff of_nat_numeral of_nat_power)
    have e: "exponent q = - int ?k" "exponent q + 1 = - int (?k - 1)"
      using False floorlog_pow(3) [OF n(3)] by (simp_all add: exponent_def n_def [symmetric])
    have "1 / q \<le> 2 ^ ?k" "2 ^ (?k - 1) < 1 / q" using n k by linarith+
    then have "1 / 2 ^ ?k \<le> q" "q < 1 / 2 ^ (?k - 1)" using assms by (simp_all add: field_simps)
    moreover have "(2 :: rat) powi (exponent q) = 1 / 2 ^ ?k" unfolding e(1) power_int_minus power_int_of_nat by (simp add: inverse_eq_divide)
    moreover have "(2 :: rat) powi (exponent q + 1) = 1 / 2 ^ (?k - 1)" unfolding e(2) power_int_minus power_int_of_nat by (simp add: inverse_eq_divide)
    ultimately show ?thesis by metis
  qed
  then show "2 powi exponent q \<le> q" "q < 2 powi (exponent q + 1)" by blast+
qed

lemma nearest_even_error: "\<bar>of_int (nearest_even x) - x\<bar> \<le> 1 / 2"
proof -
  have "of_int \<lfloor>x\<rfloor> \<le> x" "x < of_int \<lfloor>x\<rfloor> + 1" by linarith+
  then show ?thesis by (auto simp: nearest_even_def Let_def abs_le_iff)
qed

lemma round_error:
  assumes "0 < q"
  shows "\<bar>round_bits p q - q\<bar> \<le> q / 2 ^ p"
proof -
  let ?u = "ulp p q"
  have u: "0 < ?u" by (simp add: ulp_def)
  have "round_bits p q - q = (of_int (nearest_even (q / ?u)) - q / ?u) * ?u"
    using assms u by (simp add: round_bits_def algebra_simps)
  then have "\<bar>round_bits p q - q\<bar> \<le> 1 / 2 * ?u"
    using mult_right_mono [OF nearest_even_error [of "q / ?u"], of ?u] u by (simp add: abs_mult)
  also have "1 / 2 * ?u = 2 powi exponent q / 2 ^ p"
  proof -
    have "?u = 2 powi exponent q * 2 / 2 powi int p"
      unfolding ulp_def by (simp add: power_int_diff power_int_add)
    then show ?thesis by simp
  qed
  also have "\<dots> \<le> q / 2 ^ p" using exponent_bounds(1) [OF assms] by (simp add: divide_right_mono)
  finally show ?thesis .
qed

lemma round_bounds:
  assumes "0 \<le> q"
  shows "q * (1 - 1 / 2 ^ p) \<le> round_bits p q" "round_bits p q \<le> q * (1 + 1 / 2 ^ p)"
proof -
  have "q * (1 - 1 / 2 ^ p) \<le> round_bits p q \<and> round_bits p q \<le> q * (1 + 1 / 2 ^ p)"
  proof (cases "q = 0")
    case False
    then have "\<bar>round_bits p q - q\<bar> \<le> q / 2 ^ p" using assms by (intro round_error) simp
    then show ?thesis by (simp add: abs_le_iff algebra_simps)
  qed (simp add: round_bits_def)
  then show "q * (1 - 1 / 2 ^ p) \<le> round_bits p q" "round_bits p q \<le> q * (1 + 1 / 2 ^ p)" by blast+
qed

text \<open>A whole number stays whole, and itself when it has no more than \<open>p\<close> bits.\<close>

lemma nearest_even_int [simp]: "nearest_even (of_int n) = n"
  by (simp add: nearest_even_def)

lemma round_whole: "round_bits p (of_nat n) \<in> \<int>"
proof (cases "n = 0")
  case False
  let ?q = "of_nat n :: rat" let ?k = "exponent ?q + 1 - int p"
  show ?thesis
  proof (cases "0 \<le> ?k")
    case True
    then have "ulp p ?q = of_int (2 ^ nat ?k)" by (simp add: ulp_def power_int_def)
    then show ?thesis using False by (simp add: round_bits_def Ints_mult)
  next
    case neg: False
    then have "ulp p ?q = 1 / 2 ^ nat (- ?k)" by (simp add: ulp_def power_int_def inverse_eq_divide power_one_over)
    then have u: "?q / ulp p ?q = of_int (int n * 2 ^ nat (- ?k))" "ulp p ?q \<noteq> 0" by simp_all
    have "round_bits p ?q = ?q" unfolding round_bits_def u(1) nearest_even_int unfolding u(1) [symmetric] using u(2) by simp
    then show ?thesis by simp
  qed
qed (simp add: round_bits_def)

end
