(* ===== verification/Hash_Table.thy ===== *)
theory Hash_Table
  imports Interfaces Floats
begin

text \<open>
  The chained hash table, \<open>src/src/libinsomniac_hash\<close>: the hash functions and comparators of
  string and pointer keys, lookup, update and removal, growth, copies on write and iteration.
\<close>

section \<open>Hash functions and comparators\<close>

datatype cmp_type = GT | EQ | LT

fun hash_string_loop :: "u32 \<Rightarrow> u8 list \<Rightarrow> u32" where
  "hash_string_loop hash [] = hash"
| "hash_string_loop hash (b # bs) =
     (if b = 0 then hash
      else hash_string_loop (ucast b + push_bit 6 hash + push_bit 16 hash - hash) bs)"

definition hash_string :: "u8 list \<Rightarrow> u32" where
  "hash_string key = hash_string_loop 0 key"

text \<open>A byte past the end of a block reads as the null the block is followed by.\<close>

fun hash_string_cmp :: "u8 list \<Rightarrow> u8 list \<Rightarrow> cmp_type" where
  "hash_string_cmp (a # as) (b # bs) =
     (if a = b \<and> a \<noteq> 0 \<and> b \<noteq> 0 then hash_string_cmp as bs
      else if a = b then EQ else if a > b then GT else LT)"
| "hash_string_cmp [] (b # bs) = (if b = 0 then EQ else LT)"
| "hash_string_cmp (a # as) [] = (if a = 0 then EQ else GT)"
| "hash_string_cmp [] [] = EQ"

text \<open>The bytes of a pointer in memory order, the least significant first.\<close>

definition pointer_bytes :: "addr \<Rightarrow> u8 list" where
  "pointer_bytes p = map (\<lambda>i. of_nat (p div 256 ^ i)) [0..<8]"

definition hash_pointer :: "addr \<Rightarrow> u32" where
  "hash_pointer key = foldl (\<lambda>hash b. hash * 32 + ucast b) 0 (pointer_bytes key)"

definition hash_pointer_cmp :: "addr \<Rightarrow> addr \<Rightarrow> cmp_type" where
  "hash_pointer_cmp key1 key2 = (if key1 > key2 then GT else if key1 < key2 then LT else EQ)"

section \<open>Tables\<close>

datatype hash_action = READ | DELETE | CREATE

text \<open>
  The pointer arrays of the tables live in a store, because a copy on write shares the array of
  its source. Every bucket is the chain of its entries, the head first; the nodes of a chain belong
  to one array only.
\<close>

record ('k, 'v) hstore =
  arrays :: "addr \<Rightarrow> ('k \<times> 'v) list list option"
  next_array :: addr

record hash_table =
  table :: addr
  tsize :: nat
  entries :: nat
  copy_on_write :: bool

type_synonym kv_ptr = "addr \<times> nat \<times> nat"

definition HASH_SIZE :: nat where "HASH_SIZE = 4"

fun find_pos :: "('k \<Rightarrow> 'k \<Rightarrow> cmp_type) \<Rightarrow> 'k \<Rightarrow> ('k \<times> 'v) list \<Rightarrow> nat option" where
  "find_pos cmp key [] = None"
| "find_pos cmp key (kv # chain) =
     (if cmp key (fst kv) = EQ then Some 0 else map_option Suc (find_pos cmp key chain))"

definition alloc_array :: "('k, 'v) hstore \<Rightarrow> nat \<Rightarrow> ('k, 'v) hstore \<times> addr" where
  "alloc_array st n = (st\<lparr>arrays := (arrays st)(next_array st \<mapsto> replicate n []),
     next_array := next_array st + 1\<rparr>, next_array st)"

definition set_bucket ::
  "('k, 'v) hstore \<Rightarrow> addr \<Rightarrow> ('k \<times> 'v) list list \<Rightarrow> nat \<Rightarrow> ('k \<times> 'v) list \<Rightarrow> ('k, 'v) hstore" where
  "set_bucket st a bs i chain = st\<lparr>arrays := (arrays st)(a \<mapsto> bs[i := chain])\<rparr>"

text \<open>\<open>kv->value = v\<close> and \<open>kv->value\<close> for the node a \<open>hash_find\<close> returned.\<close>

definition set_value :: "('k, 'v) hstore \<Rightarrow> kv_ptr \<Rightarrow> 'v \<Rightarrow> ('k, 'v) hstore res" where
  "set_value st kv v = (case kv of (a, i, p) \<Rightarrow>
     rbind (deref (arrays st a)) (\<lambda>bs.
     rbind (nth_checked bs i) (\<lambda>chain.
     rbind (nth_checked chain p) (\<lambda>node.
       Inr (set_bucket st a bs i (chain[p := (fst node, v)]))))))"

definition get_value :: "('k, 'v) hstore \<Rightarrow> kv_ptr \<Rightarrow> 'v res" where
  "get_value st kv = (case kv of (a, i, p) \<Rightarrow>
     rbind (deref (arrays st a)) (\<lambda>bs.
     rbind (nth_checked bs i) (\<lambda>chain.
     rbind (nth_checked chain p) (\<lambda>node. Inr (snd node)))))"

text \<open>The two nested loops of \<open>hash_resize\<close>, over the buckets of the old array and over a chain,
  with \<open>hash_find(table, key, CREATE)\<close> as their argument.\<close>

type_synonym ('k, 'v) find_fn = "('k, 'v) hstore \<Rightarrow> hash_table \<Rightarrow> 'k
  \<Rightarrow> (('k, 'v) hstore \<times> hash_table \<times> kv_ptr option) res"

fun rehash_chain :: "('k, 'v) find_fn \<Rightarrow> ('k, 'v) hstore \<Rightarrow> hash_table \<Rightarrow> ('k \<times> 'v) list
    \<Rightarrow> (('k, 'v) hstore \<times> hash_table) res" where
  "rehash_chain look st t [] = Inr (st, t)"
| "rehash_chain look st t ((k, v) # kvs) =
     rbind (look st t k) (\<lambda>(st, t, kv).
     rbind (deref kv) (\<lambda>kv.
     rbind (set_value st kv v) (\<lambda>st. rehash_chain look st t kvs)))"

fun rehash :: "('k, 'v) find_fn \<Rightarrow> ('k, 'v) hstore \<Rightarrow> hash_table \<Rightarrow> addr \<Rightarrow> nat list
    \<Rightarrow> (('k, 'v) hstore \<times> hash_table) res" where
  "rehash look st t old [] = Inr (st, t)"
| "rehash look st t old (i # is) =
     rbind (deref (arrays st old)) (\<lambda>bs.
     rbind (nth_checked bs i) (\<lambda>chain.
     rbind (rehash_chain look st t chain) (\<lambda>(st, t). rehash look st t old is)))"

text \<open>
  The first argument is the depth of the C stack that is left: a write to a copy on write table
  resizes it while the flag is still set, and the writes of that resize resize again.
\<close>

fun hash_find :: "nat \<Rightarrow> ('k \<Rightarrow> u32) \<Rightarrow> ('k \<Rightarrow> 'k \<Rightarrow> cmp_type) \<Rightarrow> hash_action \<Rightarrow> ('k, 'v::zero) find_fn"
and hash_resize :: "nat \<Rightarrow> ('k \<Rightarrow> u32) \<Rightarrow> ('k \<Rightarrow> 'k \<Rightarrow> cmp_type) \<Rightarrow> ('k, 'v::zero) hstore \<Rightarrow> hash_table
      \<Rightarrow> nat \<Rightarrow> (('k, 'v) hstore \<times> hash_table) res"
where
  "hash_find 0 calc cmp action st t key = Inl Stack_Overflow"
| "hash_find (Suc d) calc cmp action st t key =
     (if tsize t = 0 then Inl Div_Trap
      else let index = unat (calc key) mod tsize t in
      rbind (if copy_on_write t \<and> (action = CREATE \<or> action = DELETE)
             then rbind (hash_resize d calc cmp st t (tsize t)) (\<lambda>(st, t).
               Inr (st, t\<lparr>copy_on_write := False\<rparr>))
             else Inr (st, t)) (\<lambda>(st, t).
      rbind (deref (arrays st (table t))) (\<lambda>bs.
      rbind (nth_checked bs index) (\<lambda>chain.
      case find_pos cmp key chain of
        Some p \<Rightarrow>
          if action = DELETE
          then Inr (set_bucket st (table t) bs index (take p chain @ drop (Suc p) chain), t,
                    Some (table t, index, p))
          else Inr (st, t, Some (table t, index, p))
      | None \<Rightarrow>
          if action = CREATE
          then Inr (set_bucket st (table t) bs index ((key, 0) # chain),
                    t\<lparr>entries := entries t + 1\<rparr>, Some (table t, index, 0))
          else Inr (st, t, None)))))"
| "hash_resize 0 calc cmp st t n = Inl Stack_Overflow"
| "hash_resize (Suc d) calc cmp st t n =
     (let old_table = table t; old_size = tsize t; (st, a) = alloc_array st n;
          t = t\<lparr>table := a, tsize := n, entries := 0\<rparr>
      in if old_table = 0 then Inr (st, t)
         else rehash (\<lambda>st t k. hash_find d calc cmp CREATE st t k) st t old_table [0..<old_size])"

definition hash_create ::
  "('k \<Rightarrow> u32) \<Rightarrow> ('k \<Rightarrow> 'k \<Rightarrow> cmp_type) \<Rightarrow> ('k, 'v::zero) hstore \<Rightarrow> (('k, 'v) hstore \<times> hash_table) res" where
  "hash_create calc cmp st =
     hash_resize 4 calc cmp st \<lparr>table = 0, tsize = 0, entries = 0, copy_on_write = False\<rparr> HASH_SIZE"

definition hash_cow :: "hash_table \<Rightarrow> hash_table" where
  "hash_cow src = src\<lparr>copy_on_write := True\<rparr>"

text \<open>\<open>hash_load\<close> divides in \<open>double\<close> and returns a \<open>float\<close>; the limits are constants of type \<open>double\<close>.\<close>

definition MAX_LOAD :: rat where "MAX_LOAD = to_double (9 / 10)"
definition TARGET_LOAD :: rat where "TARGET_LOAD = to_double (6 / 10)"

definition hash_load :: "hash_table \<Rightarrow> rat" where
  "hash_load t = to_float (to_double (to_double (of_nat (entries t)) / to_double (of_nat (tsize t))))"

definition over_max_load :: "hash_table \<Rightarrow> bool" where
  "over_max_load t \<longleftrightarrow> MAX_LOAD < hash_load t"

text \<open>\<open>floor(table->entries / TARGET_LOAD) + 1\<close>, in \<open>double\<close>.\<close>

definition grown_size :: "hash_table \<Rightarrow> nat" where
  "grown_size t = nat \<lfloor>to_double (of_nat (nat \<lfloor>to_double (to_double (of_nat (entries t)) / TARGET_LOAD)\<rfloor> + 1))\<rfloor>"

definition hash_set :: "('k \<Rightarrow> u32) \<Rightarrow> ('k \<Rightarrow> 'k \<Rightarrow> cmp_type) \<Rightarrow> ('k, 'v::zero) hstore \<Rightarrow> hash_table
      \<Rightarrow> 'k \<Rightarrow> 'v \<Rightarrow> (('k, 'v) hstore \<times> hash_table) res" where
  "hash_set calc cmp st t key v =
     rbind (hash_find 4 calc cmp CREATE st t key) (\<lambda>(st, t, kv).
     rbind (deref kv) (\<lambda>kv.
     rbind (set_value st kv v) (\<lambda>st.
       if over_max_load t then hash_resize 4 calc cmp st t (grown_size t) else Inr (st, t))))"

definition hash_erase :: "('k \<Rightarrow> u32) \<Rightarrow> ('k \<Rightarrow> 'k \<Rightarrow> cmp_type) \<Rightarrow> ('k, 'v::zero) hstore \<Rightarrow> hash_table
      \<Rightarrow> 'k \<Rightarrow> (('k, 'v) hstore \<times> hash_table) res" where
  "hash_erase calc cmp st t key =
     rbind (hash_find 4 calc cmp DELETE st t key) (\<lambda>(st, t, kv). Inr (st, t))"

definition hash_get :: "('k \<Rightarrow> u32) \<Rightarrow> ('k \<Rightarrow> 'k \<Rightarrow> cmp_type) \<Rightarrow> ('k, 'v::zero) hstore \<Rightarrow> hash_table
      \<Rightarrow> 'k \<Rightarrow> 'v option res" where
  "hash_get calc cmp st t key =
     rbind (hash_find 4 calc cmp READ st t key) (\<lambda>(st, t, kv).
       case kv of None \<Rightarrow> Inr None | Some kv \<Rightarrow> rbind (get_value st kv) (\<lambda>v. Inr (Some v)))"

definition hash_size :: "hash_table \<Rightarrow> nat" where
  "hash_size t = entries t"

section \<open>Iteration\<close>

text \<open>\<open>entry\<close> is the rest of the chain the iterator stands in; no write happens between two
  calls.\<close>

record ('k, 'v) hash_iterator =
  idx :: nat
  entry :: "('k \<times> 'v) list"

definition new_iterator :: "('k, 'v) hash_iterator" where
  "new_iterator = \<lparr>idx = 0, entry = []\<rparr>"

text \<open>
  The pointers that fit into the block of an array of \<open>n\<close> buckets: the header takes 32 bytes, \<open>gc_malloc\<close>
  rounds the size up to more than it is, by steps of 64 bytes (the header and an object), and clears the
  block; the first bucket is at byte 28. What lies after the array reads as null.
\<close>

definition block_cells :: "nat \<Rightarrow> nat" where
  "block_cells n = (let real_size = 32 + 8 * n in (real_size + (64 - real_size mod 64) - 28) div 8)"

definition read_bucket :: "('k \<times> 'v) list list \<Rightarrow> nat \<Rightarrow> ('k \<times> 'v) list res" where
  "read_bucket bs i =
     (if i < length bs then Inr (bs ! i) else if i < block_cells (length bs) then Inr [] else Inl Out_Of_Bounds)"

text \<open>The loop of \<open>hash_next\<close> runs at most once per bucket that is left, plus once.\<close>

fun next_loop :: "nat \<Rightarrow> nat \<Rightarrow> ('k \<times> 'v) list list \<Rightarrow> ('k, 'v) hash_iterator
      \<Rightarrow> (('k, 'v) hash_iterator \<times> ('k \<times> 'v) option) res" where
  "next_loop 0 tsz bs it = Inr (it, None)"
| "next_loop (Suc n) tsz bs it =
     rbind (if entry it = []
            then rbind (read_bucket bs (idx it)) (\<lambda>chain. Inr (it\<lparr>entry := chain, idx := idx it + 1\<rparr>))
            else Inr it) (\<lambda>it.
       case entry it of
         e # rest \<Rightarrow> Inr (it\<lparr>entry := rest\<rparr>, Some e)
       | [] \<Rightarrow> if idx it < tsz then next_loop n tsz bs it else Inr (it, None))"

definition hash_next :: "('k, 'v) hstore \<Rightarrow> hash_table \<Rightarrow> ('k, 'v) hash_iterator option
      \<Rightarrow> (('k, 'v) hash_iterator \<times> ('k \<times> 'v) option) res" where
  "hash_next st t iterator =
     (let it = (case iterator of None \<Rightarrow> new_iterator | Some it \<Rightarrow> it)
      in rbind (deref (arrays st (table t))) (\<lambda>bs. next_loop (tsize t - idx it + 1) (tsize t) bs it))"

end
