(* ===== verification/Hash_Map.thy ===== *)
theory Hash_Map
  imports Hash_Table
begin

text \<open>
  The hash table as a map: chains and buckets as pure functions, the contract of a comparator
  (\<open>hash_key\<close>), the copy loop of \<open>hash_resize\<close> and what every operation does to the bindings.
\<close>

section \<open>Chains and buckets\<close>

fun chain_lookup :: "('k \<Rightarrow> 'k \<Rightarrow> cmp_type) \<Rightarrow> ('k \<times> 'v) list \<Rightarrow> 'k \<Rightarrow> 'v option" where
  "chain_lookup cmp [] j = None"
| "chain_lookup cmp ((k, v) # c) j = (if cmp j k = EQ then Some v else chain_lookup cmp c j)"

definition chain_put :: "('k \<Rightarrow> 'k \<Rightarrow> cmp_type) \<Rightarrow> ('k \<times> 'v) list \<Rightarrow> 'k \<Rightarrow> 'v \<Rightarrow> ('k \<times> 'v) list" where
  "chain_put cmp c k v = (case find_pos cmp k c of None \<Rightarrow> (k, v) # c
     | Some p \<Rightarrow> c[p := (fst (c ! p), v)])"

definition chain_del :: "('k \<Rightarrow> 'k \<Rightarrow> cmp_type) \<Rightarrow> ('k \<times> 'v) list \<Rightarrow> 'k \<Rightarrow> ('k \<times> 'v) list" where
  "chain_del cmp c k = (case find_pos cmp k c of None \<Rightarrow> c | Some p \<Rightarrow> take p c @ drop (Suc p) c)"

fun keys_ok :: "('k \<Rightarrow> 'k \<Rightarrow> cmp_type) \<Rightarrow> 'k list \<Rightarrow> bool" where
  "keys_ok cmp [] \<longleftrightarrow> True"
| "keys_ok cmp (k # ks) \<longleftrightarrow> (\<forall>j\<in>set ks. cmp k j \<noteq> EQ) \<and> keys_ok cmp ks"

definition chain_ok :: "('k \<Rightarrow> 'k \<Rightarrow> cmp_type) \<Rightarrow> ('k \<times> 'v) list \<Rightarrow> bool" where
  "chain_ok cmp c \<longleftrightarrow> keys_ok cmp (map fst c)"

definition bucket_of :: "('k \<Rightarrow> u32) \<Rightarrow> nat \<Rightarrow> 'k \<Rightarrow> nat" where
  "bucket_of calc n k = unat (calc k) mod n"

definition b_lookup where
  "b_lookup calc cmp bs k = chain_lookup cmp (bs ! bucket_of calc (length bs) k) k"

definition b_put where
  "b_put calc cmp bs k v = (let i = bucket_of calc (length bs) k
     in bs[i := chain_put cmp (bs ! i) k v])"

definition b_del where
  "b_del calc cmp bs k = (let i = bucket_of calc (length bs) k
     in bs[i := chain_del cmp (bs ! i) k])"

definition b_inv :: "('k \<Rightarrow> u32) \<Rightarrow> ('k \<Rightarrow> 'k \<Rightarrow> cmp_type) \<Rightarrow> ('k \<times> 'v) list list \<Rightarrow> bool" where
  "b_inv calc cmp bs \<longleftrightarrow> bs \<noteq> [] \<and> (\<forall>i<length bs. chain_ok cmp (bs ! i)
     \<and> (\<forall>kv\<in>set (bs ! i). bucket_of calc (length bs) (fst kv) = i))"

text \<open>A table of a store whose array is \<open>bs\<close>.\<close>

definition table_ok :: "('k \<Rightarrow> u32) \<Rightarrow> ('k \<Rightarrow> 'k \<Rightarrow> cmp_type) \<Rightarrow> ('k, 'v) hstore \<Rightarrow> hash_table
    \<Rightarrow> ('k \<times> 'v) list list \<Rightarrow> bool" where
  "table_ok calc cmp st t bs \<longleftrightarrow> table t \<noteq> 0 \<and> arrays st (table t) = Some bs \<and> tsize t = length bs
     \<and> table t < next_array st \<and> b_inv calc cmp bs \<and> length (concat bs) \<le> entries t"

text \<open>The comparator of a table is an equivalence when it answers \<open>EQ\<close>, and the hash respects it.\<close>

locale hash_key =
  fixes calc_hash :: "'k \<Rightarrow> u32" and cmp :: "'k \<Rightarrow> 'k \<Rightarrow> cmp_type"
  assumes cmp_refl: "cmp k k = EQ"
    and cmp_sym: "cmp j k = EQ \<Longrightarrow> cmp k j = EQ"
    and cmp_trans: "cmp i j = EQ \<Longrightarrow> cmp j k = EQ \<Longrightarrow> cmp i k = EQ"
    and cmp_hash: "cmp j k = EQ \<Longrightarrow> calc_hash j = calc_hash k"
begin

lemma cmp_commute: "cmp j k = EQ \<longleftrightarrow> cmp k j = EQ"
  using cmp_sym by blast

lemma cmp_left: "cmp j k = EQ \<Longrightarrow> cmp j i = EQ \<longleftrightarrow> cmp k i = EQ"
  using cmp_sym cmp_trans by blast

lemma find_pos_None: "find_pos cmp k c = None \<longleftrightarrow> (\<forall>kv\<in>set c. cmp k (fst kv) \<noteq> EQ)"
  by (induction c) auto

lemma find_pos_Some:
  "find_pos cmp k c = Some p \<Longrightarrow> p < length c \<and> cmp k (fst (c ! p)) = EQ
     \<and> chain_lookup cmp c k = Some (snd (c ! p)) \<and> (\<forall>q<p. cmp k (fst (c ! q)) \<noteq> EQ)"
  by (induction c arbitrary: p) (auto split: if_splits simp: less_Suc_eq_0_disj)

lemma chain_lookup_None: "chain_lookup cmp c k = None \<longleftrightarrow> (\<forall>kv\<in>set c. cmp k (fst kv) \<noteq> EQ)"
proof (induction c)
  case (Cons kv c)
  then show ?case by (cases kv) auto
qed simp

lemma find_lookup: "find_pos cmp k c = None \<longleftrightarrow> chain_lookup cmp c k = None"
  by (simp add: find_pos_None chain_lookup_None)

lemma chain_put_Cons:
  "chain_put cmp ((k0, v0) # c) k v = (if cmp k k0 = EQ then (k0, v) # c
     else if find_pos cmp k c = None then (k, v) # (k0, v0) # c else (k0, v0) # chain_put cmp c k v)"
  by (auto simp: chain_put_def split: option.split)

lemma chain_lookup_put:
  "chain_lookup cmp (chain_put cmp c k v) j = (if cmp k j = EQ then Some v else chain_lookup cmp c j)"
proof (induction c)
  case Nil
  then show ?case by (simp add: chain_put_def cmp_commute)
next
  case (Cons kv c)
  obtain k0 v0 where kv: "kv = (k0, v0)" by force
  consider "cmp k k0 = EQ" | "cmp k k0 \<noteq> EQ" "find_pos cmp k c = None"
    | "cmp k k0 \<noteq> EQ" "find_pos cmp k c \<noteq> None" by blast
  then show ?case
  proof cases
    case 1
    then have "cmp j k0 = EQ \<longleftrightarrow> cmp k j = EQ" using cmp_sym cmp_trans by blast
    then show ?thesis using 1 by (simp add: chain_put_Cons kv)
  next
    case 2
    then show ?thesis by (simp add: chain_put_Cons kv cmp_commute [of j k])
  next
    case 3
    then have "cmp j k0 = EQ \<Longrightarrow> cmp k j \<noteq> EQ" using cmp_trans by blast
    then show ?thesis using 3 Cons.IH by (auto simp: chain_put_Cons kv)
  qed
qed

lemma chain_put_keys:
  "map fst (chain_put cmp c k v) = (if find_pos cmp k c = None then k # map fst c else map fst c)"
  using find_pos_Some by (fastforce simp: chain_put_def map_update list_update_same_conv split: option.split)

lemma chain_ok_put: "chain_ok cmp c \<Longrightarrow> chain_ok cmp (chain_put cmp c k v)"
  by (auto simp: chain_ok_def chain_put_keys find_pos_None)

lemma keys_ok_append:
  "keys_ok cmp (xs @ ys) \<longleftrightarrow> keys_ok cmp xs \<and> keys_ok cmp ys \<and> (\<forall>x\<in>set xs. \<forall>y\<in>set ys. cmp x y \<noteq> EQ)"
  by (induction xs) auto

lemma chain_del_split:
  assumes "find_pos cmp k c = Some p"
  obtains xs k0 v0 ys where "c = xs @ (k0, v0) # ys" "chain_del cmp c k = xs @ ys" "cmp k k0 = EQ"
proof -
  have p: "p < length c" "cmp k (fst (c ! p)) = EQ" using find_pos_Some [OF assms] by auto
  then show ?thesis
    using that [of "take p c" "fst (c ! p)" "snd (c ! p)" "drop (Suc p) c"] assms
    by (simp add: chain_del_def id_take_nth_drop [symmetric])
qed

lemma chain_ok_del: "chain_ok cmp c \<Longrightarrow> chain_ok cmp (chain_del cmp c k)"
proof (cases "find_pos cmp k c")
  case (Some p)
  assume "chain_ok cmp c"
  with Some show ?thesis by (elim chain_del_split) (simp add: chain_ok_def keys_ok_append)
qed (simp add: chain_del_def)

lemma chain_lookup_append:
  "chain_lookup cmp (xs @ ys) j
     = (case chain_lookup cmp xs j of None \<Rightarrow> chain_lookup cmp ys j | Some v \<Rightarrow> Some v)"
  by (induction xs) auto

lemma chain_lookup_del:
  assumes "chain_ok cmp c"
  shows "chain_lookup cmp (chain_del cmp c k) j = (if cmp k j = EQ then None else chain_lookup cmp c j)"
proof (cases "find_pos cmp k c")
  case None
  then have "cmp k j = EQ \<Longrightarrow> chain_lookup cmp c j = None"
    using cmp_left by (auto simp: chain_lookup_None find_pos_None)
  with None show ?thesis by (simp add: chain_del_def)
next
  case (Some p)
  then obtain xs k0 v0 ys where s: "c = xs @ (k0, v0) # ys" "chain_del cmp c k = xs @ ys" "cmp k k0 = EQ"
    by (rule chain_del_split)
  have o: "\<forall>kv\<in>set (xs @ ys). cmp k (fst kv) \<noteq> EQ"
    using assms s cmp_left [OF s(3)] cmp_commute by (fastforce simp: chain_ok_def keys_ok_append)
  show ?thesis
  proof (cases "cmp k j = EQ")
    case True
    then have "chain_lookup cmp (xs @ ys) j = None"
      using o cmp_left [OF True] by (simp add: chain_lookup_None)
    then show ?thesis using s True by simp
  next
    case False
    then have "cmp j k0 \<noteq> EQ" using s(3) cmp_sym cmp_trans by blast
    then show ?thesis using s False
      by (simp add: chain_lookup_append split: option.split)
  qed
qed

section \<open>Arrays of buckets\<close>

lemma bucket_lt: "bs \<noteq> [] \<Longrightarrow> bucket_of calc_hash (length bs) k < length bs"
  by (simp add: bucket_of_def)

lemma bucket_cong: "cmp j k = EQ \<Longrightarrow> bucket_of calc_hash n j = bucket_of calc_hash n k"
  by (simp add: bucket_of_def cmp_hash)

lemma b_put_length [simp]: "length (b_put calc_hash cmp bs k v) = length bs"
  by (simp add: b_put_def Let_def)

lemma b_del_length [simp]: "length (b_del calc_hash cmp bs k) = length bs"
  by (simp add: b_del_def Let_def)

lemma b_inv_put:
  assumes "b_inv calc_hash cmp bs"
  shows "b_inv calc_hash cmp (b_put calc_hash cmp bs k v)"
proof -
  let ?i = "bucket_of calc_hash (length bs) k"
  have i: "?i < length bs" using assms by (intro bucket_lt) (simp add: b_inv_def)
  have "\<forall>j\<in>set (map fst (chain_put cmp (bs ! ?i) k v)). bucket_of calc_hash (length bs) j = ?i"
    using assms i unfolding chain_put_keys by (auto simp: b_inv_def)
  then show ?thesis using assms i
    by (auto simp: b_inv_def b_put_def Let_def nth_list_update chain_ok_put)
qed

lemma b_inv_del:
  assumes "b_inv calc_hash cmp bs"
  shows "b_inv calc_hash cmp (b_del calc_hash cmp bs k)"
proof -
  let ?i = "bucket_of calc_hash (length bs) k"
  have i: "?i < length bs" using assms by (intro bucket_lt) (simp add: b_inv_def)
  have "set (chain_del cmp (bs ! ?i) k) \<subseteq> set (bs ! ?i)"
    by (auto simp: chain_del_def dest: in_set_takeD in_set_dropD split: option.splits)
  then show ?thesis using assms i
    by (auto simp: b_inv_def b_del_def Let_def nth_list_update chain_ok_del)
qed

lemma b_lookup_put:
  assumes "b_inv calc_hash cmp bs"
  shows "b_lookup calc_hash cmp (b_put calc_hash cmp bs k v) j
    = (if cmp k j = EQ then Some v else b_lookup calc_hash cmp bs j)"
proof -
  have "bs \<noteq> []" using assms by (simp add: b_inv_def)
  then show ?thesis using bucket_cong [of k j "length bs"] bucket_lt [of bs]
    by (cases "bucket_of calc_hash (length bs) k = bucket_of calc_hash (length bs) j")
      (auto simp: b_lookup_def b_put_def Let_def nth_list_update chain_lookup_put)
qed

lemma b_lookup_del:
  assumes "b_inv calc_hash cmp bs"
  shows "b_lookup calc_hash cmp (b_del calc_hash cmp bs k) j
    = (if cmp k j = EQ then None else b_lookup calc_hash cmp bs j)"
proof -
  have b: "bs \<noteq> []" "\<And>i. i < length bs \<Longrightarrow> chain_ok cmp (bs ! i)" using assms by (auto simp: b_inv_def)
  then show ?thesis using bucket_cong [of k j "length bs"] bucket_lt [of bs]
    by (cases "bucket_of calc_hash (length bs) k = bucket_of calc_hash (length bs) j")
      (auto simp: b_lookup_def b_del_def Let_def nth_list_update chain_lookup_del)
qed

lemma b_empty: "0 < n \<Longrightarrow> b_inv calc_hash cmp (replicate n [])"
  by (auto simp: b_inv_def chain_ok_def)

lemma b_lookup_empty: "0 < n \<Longrightarrow> b_lookup calc_hash cmp (replicate n []) k = None"
  by (simp add: b_lookup_def bucket_of_def)

lemma length_concat_update:
  "i < length bs \<Longrightarrow> length (concat (bs[i := c])) + length (bs ! i) = length (concat bs) + length c"
  by (induction bs arbitrary: i) (auto split: nat.split)

lemma length_concat_put:
  assumes "b_inv calc_hash cmp bs"
  shows "length (concat (b_put calc_hash cmp bs k v))
    = length (concat bs) + (if b_lookup calc_hash cmp bs k = None then 1 else 0)"
proof -
  let ?i = "bucket_of calc_hash (length bs) k"
  have "?i < length bs" using assms by (intro bucket_lt) (simp add: b_inv_def)
  from length_concat_update [OF this, of "chain_put cmp (bs ! ?i) k v"]
  show ?thesis
    by (auto simp: b_put_def Let_def b_lookup_def find_lookup [symmetric] chain_put_def split: option.splits)
qed

text \<open>The entries of an array, in the order \<open>hash_resize\<close> reads them.\<close>

lemma b_concat:
  assumes "b_inv calc_hash cmp bs"
  shows "chain_ok cmp (concat bs)" "chain_lookup cmp (concat bs) j = b_lookup calc_hash cmp bs j"
proof -
  have b: "chain_ok cmp (bs ! i)" "\<forall>kv\<in>set (bs ! i). bucket_of calc_hash (length bs) (fst kv) = i"
    if "i < length bs" for i using assms that by (auto simp: b_inv_def)
  have t: "chain_ok cmp (concat (take n bs))
    \<and> (\<forall>kv\<in>set (concat (take n bs)). bucket_of calc_hash (length bs) (fst kv) < n)
    \<and> chain_lookup cmp (concat (take n bs)) j
      = (if bucket_of calc_hash (length bs) j < n then b_lookup calc_hash cmp bs j else None)"
    if "n \<le> length bs" for n using that
  proof (induction n)
    case (Suc n)
    then have n: "n < length bs" by simp
    have "\<forall>x\<in>set (concat (take n bs)). \<forall>y\<in>set (bs ! n). cmp (fst x) (fst y) \<noteq> EQ"
      using Suc b(2) [OF n] bucket_cong [of _ _ "length bs"] by fastforce
    then have 1: "chain_ok cmp (concat (take (Suc n) bs))"
      using Suc b(1) [OF n] n by (simp add: take_Suc_conv_app_nth chain_ok_def keys_ok_append)
    have 2: "\<forall>kv\<in>set (concat (take (Suc n) bs)). bucket_of calc_hash (length bs) (fst kv) < Suc n"
      using Suc b(2) [OF n] n by (auto simp: take_Suc_conv_app_nth less_Suc_eq)
    have "chain_lookup cmp (bs ! n) j = None" if "bucket_of calc_hash (length bs) j \<noteq> n"
      using that b(2) [OF n] bucket_cong [of j _ "length bs"] by (auto simp: chain_lookup_None)
    then have 3: "chain_lookup cmp (concat (take (Suc n) bs)) j
      = (if bucket_of calc_hash (length bs) j < Suc n then b_lookup calc_hash cmp bs j else None)"
      using Suc n by (auto simp: take_Suc_conv_app_nth chain_lookup_append less_Suc_eq b_lookup_def
        split: option.split)
    show ?case using 1 2 3 by blast
  qed (simp add: chain_ok_def)
  have "bs \<noteq> []" using assms by (simp add: b_inv_def)
  with t [of "length bs"] bucket_lt [of bs j]
  show "chain_ok cmp (concat bs)" "chain_lookup cmp (concat bs) j = b_lookup calc_hash cmp bs j"
    by simp_all
qed

lemma foldl_put:
  assumes "0 < n" "chain_ok cmp kvs"
  defines "bs \<equiv> foldl (\<lambda>bs (k, v). b_put calc_hash cmp bs k v) (replicate n []) kvs"
  shows "b_inv calc_hash cmp bs" "length bs = n"
    "b_lookup calc_hash cmp bs j = chain_lookup cmp kvs j" "length (concat bs) = length kvs"
proof -
  have "b_inv calc_hash cmp bs \<and> length bs = n \<and> length (concat bs) = length kvs
    \<and> (\<forall>j. b_lookup calc_hash cmp bs j = chain_lookup cmp kvs j)"
    using assms(2) unfolding bs_def
  proof (induction kvs rule: rev_induct)
    case Nil
    then show ?case using assms(1) by (simp add: b_empty b_lookup_empty)
  next
    case (snoc kv kvs)
    obtain k v where kv: "kv = (k, v)" by force
    let ?bs = "foldl (\<lambda>bs (k, v). b_put calc_hash cmp bs k v) (replicate n []) kvs"
    have ok: "chain_ok cmp kvs" "\<forall>x\<in>set kvs. cmp (fst x) k \<noteq> EQ"
      using snoc.prems by (auto simp: chain_ok_def keys_ok_append kv)
    note IH = snoc.IH [OF ok(1)]
    have new: "chain_lookup cmp kvs k = None" using ok(2) cmp_sym by (auto simp: chain_lookup_None)
    have "b_lookup calc_hash cmp (b_put calc_hash cmp ?bs k v) j = chain_lookup cmp (kvs @ [(k, v)]) j" for j
    proof -
      have "cmp k j = EQ \<Longrightarrow> chain_lookup cmp kvs j = None"
        using new cmp_left [of k j] by (auto simp: chain_lookup_None)
      then show ?thesis using IH
        by (auto simp: b_lookup_put chain_lookup_append cmp_commute [of j k] split: option.split)
    qed
    then show ?case using IH new by (simp add: kv b_inv_put length_concat_put)
  qed
  then show "b_inv calc_hash cmp bs" "length bs = n"
    "b_lookup calc_hash cmp bs j = chain_lookup cmp kvs j" "length (concat bs) = length kvs" by auto
qed

section \<open>Tables in a store\<close>

lemma set_value_put:
  assumes "bs \<noteq> []" and "i = bucket_of calc_hash (length bs) k"
  shows "find_pos cmp k (bs ! i) = None \<Longrightarrow>
      set_value (set_bucket st a bs i ((k, z) # bs ! i)) (a, i, 0) v
        = Inr (st\<lparr>arrays := (arrays st)(a \<mapsto> b_put calc_hash cmp bs k v)\<rparr>)"
    and "find_pos cmp k (bs ! i) = Some p \<Longrightarrow> arrays st a = Some bs \<Longrightarrow>
      set_value st (a, i, p) v = Inr (st\<lparr>arrays := (arrays st)(a \<mapsto> b_put calc_hash cmp bs k v)\<rparr>)"
  using bucket_lt [OF assms(1), of k] find_pos_Some [of k "bs ! i" p]
  by (simp_all add: set_value_def set_bucket_def b_put_def chain_put_def assms(2) Let_def)

text \<open>\<open>hash_find(t, k, CREATE)->value = v\<close> on a table that is not copy on write.\<close>

definition create_set where
  "create_set d st t k v = rbind (hash_find d calc_hash cmp CREATE st t k) (\<lambda>(st, t, kv).
     rbind (deref kv) (\<lambda>kv. rbind (set_value st kv v) (\<lambda>st. Inr (st, t))))"

lemma rehash_chain_create:
  "rehash_chain (\<lambda>st t k. hash_find d calc_hash cmp CREATE st t k) st t ((k, v) # kvs)
     = rbind (create_set d st t k v) (\<lambda>(st, t). rehash_chain (\<lambda>st t k. hash_find d calc_hash cmp CREATE st t k) st t kvs)"
  by (simp add: create_set_def rbind_assoc case_prod_unfold)

lemma create_set_plain:
  assumes "arrays st (table t) = Some bs" "tsize t = length bs" "bs \<noteq> []" "\<not> copy_on_write t"
  shows "create_set (Suc d) st t k v = Inr (st\<lparr>arrays := (arrays st)(table t \<mapsto> b_put calc_hash cmp bs k v)\<rparr>,
     t\<lparr>entries := entries t + (if b_lookup calc_hash cmp bs k = None then 1 else 0)\<rparr>)"
proof (cases "find_pos cmp k (bs ! bucket_of calc_hash (length bs) k)")
  case None
  then have "b_lookup calc_hash cmp bs k = None" by (simp add: b_lookup_def find_lookup)
  then show ?thesis
    using None assms bucket_lt [OF assms(3), of k] set_value_put(1) [OF assms(3) refl None]
    by (simp add: create_set_def bucket_of_def Let_def)
next
  case (Some p)
  then have "b_lookup calc_hash cmp bs k \<noteq> None" using find_lookup
    by (metis b_lookup_def option.distinct(1))
  then show ?thesis
    using Some assms bucket_lt [OF assms(3), of k] set_value_put(2) [OF assms(3) refl Some assms(1)]
    by (simp add: create_set_def bucket_of_def Let_def)
qed

text \<open>The copy in progress: \<open>kvs\<close> are the entries already in the new array.\<close>

definition copying where
  "copying st0 t0 n kvs st t \<longleftrightarrow> (let bs = foldl (\<lambda>bs (k, v). b_put calc_hash cmp bs k v) (replicate n []) kvs
     in arrays st (table t) = Some bs \<and> tsize t = n \<and> entries t = length kvs
      \<and> next_array st0 \<le> table t \<and> table t < next_array st \<and> 0 < table t
      \<and> (\<forall>a<next_array st0. arrays st a = arrays st0 a)
      \<and> (copy_on_write t \<longrightarrow> copy_on_write t0 \<and> kvs = []))"

lemma rehash_empty:
  assumes "arrays st a = Some (replicate n [])" "set is \<subseteq> {..<n}"
  shows "rehash look st t a is = Inr (st, t)"
  using assms by (induction "is") auto

lemma copying_step:
  assumes c: "copying st0 t0 n kvs st t" and n: "0 < n" and ok: "chain_ok cmp (kvs @ [(k, v)])"
  shows "\<exists>st' t'. create_set (Suc (Suc d)) st t k v = Inr (st', t') \<and> copying st0 t0 n (kvs @ [(k, v)]) st' t'"
proof -
  define bs where "bs = foldl (\<lambda>bs (k, v). b_put calc_hash cmp bs k v) (replicate n []) kvs"
  have kvs: "chain_ok cmp kvs" "\<forall>x\<in>set kvs. cmp (fst x) k \<noteq> EQ"
    using ok by (auto simp: chain_ok_def keys_ok_append)
  have "chain_lookup cmp kvs k = None" using kvs(2) cmp_sym by (auto simp: chain_lookup_None)
  then have b: "b_inv calc_hash cmp bs" "length bs = n" "b_lookup calc_hash cmp bs k = None"
    using foldl_put [OF n kvs(1)] by (simp_all add: bs_def)
  have bn: "bs \<noteq> []" using b n by auto
  show ?thesis
  proof (cases "copy_on_write t")
    case False
    from c have "arrays st (table t) = Some bs" "tsize t = length bs"
      by (simp_all add: copying_def Let_def bs_def [symmetric] b)
    from create_set_plain [OF this bn False, of "Suc d" k v] show ?thesis
      using c b False by (simp add: copying_def Let_def bs_def [symmetric])
  next
    case True
    then have e: "kvs = []" "copy_on_write t0" "bs = replicate n []"
      using c by (auto simp: copying_def bs_def)
    define a where "a = next_array st"
    define st1 where "st1 = fst (alloc_array st n)"
    define t1 where "t1 = t\<lparr>table := a, tsize := n, entries := 0, copy_on_write := False\<rparr>"
    have c': "arrays st (table t) = Some bs" "tsize t = n" "table t \<noteq> 0" "table t < a"
      using c by (simp_all add: copying_def Let_def bs_def [symmetric] a_def)
    have ar: "arrays st1 (table t) = Some (replicate n [])" "arrays st1 a = Some (replicate n [])"
      "next_array st1 = a + 1" "alloc_array st n = (st1, a)"
      using c' e by (simp_all add: st1_def alloc_array_def a_def)
    have "hash_resize (Suc d) calc_hash cmp st t n = Inr (st1, t1\<lparr>copy_on_write := True\<rparr>)"
      using c' ar rehash_empty [OF ar(1)] True by (simp add: t1_def Let_def atLeast0LessThan)
    then have f: "hash_find (Suc (Suc d)) calc_hash cmp CREATE st t k
        = hash_find (Suc d) calc_hash cmp CREATE st1 t1 k"
      using True c' n by (simp add: t1_def)
    have p: "create_set (Suc d) st1 t1 k v = Inr (st1\<lparr>arrays := (arrays st1)(table t1 \<mapsto> b_put calc_hash cmp bs k v)\<rparr>,
       t1\<lparr>entries := entries t1 + (if b_lookup calc_hash cmp bs k = None then 1 else 0)\<rparr>)"
      by (rule create_set_plain) (simp_all add: t1_def ar e bn n)
    have "create_set (Suc (Suc d)) st t k v = create_set (Suc d) st1 t1 k v"
      unfolding create_set_def f ..
    then show ?thesis using p c e b c'
      by (simp add: copying_def Let_def t1_def ar a_def st1_def alloc_array_def)
  qed
qed

lemma copying_chain:
  "copying st0 t0 n kvs st t \<Longrightarrow> 0 < n \<Longrightarrow> chain_ok cmp (kvs @ c) \<Longrightarrow>
   \<exists>st' t'. rehash_chain (\<lambda>st t k. hash_find (Suc (Suc d)) calc_hash cmp CREATE st t k) st t c = Inr (st', t')
     \<and> copying st0 t0 n (kvs @ c) st' t'"
proof (induction c arbitrary: kvs st t)
  case (Cons kv c)
  obtain k v where kv: "kv = (k, v)" by force
  have "chain_ok cmp (kvs @ [(k, v)])"
    using Cons.prems(3) by (auto simp: chain_ok_def keys_ok_append kv)
  from copying_step [OF Cons.prems(1,2) this, of d] obtain st1 t1 where
    s: "create_set (Suc (Suc d)) st t k v = Inr (st1, t1)" "copying st0 t0 n (kvs @ [(k, v)]) st1 t1" by blast
  have "chain_ok cmp ((kvs @ [(k, v)]) @ c)" using Cons.prems(3) by (simp add: kv)
  from Cons.IH [OF s(2) Cons.prems(2) this] show ?case
    unfolding kv rehash_chain_create s(1) by (simp del: hash_find.simps)
qed auto

lemma copying_rehash:
  assumes "copying st0 t0 n (concat (take i bs)) st t" "0 < n" "arrays st0 old = Some bs"
    "old < next_array st0" "chain_ok cmp (concat bs)" "i \<le> length bs"
  shows "\<exists>st' t'. rehash (\<lambda>st t k. hash_find (Suc (Suc d)) calc_hash cmp CREATE st t k) st t old [i..<length bs] = Inr (st', t')
     \<and> copying st0 t0 n (concat bs) st' t'"
  using assms(1,6)
proof (induction "length bs - i" arbitrary: i st t)
  case 0
  then show ?case by (simp del: hash_find.simps)
next
  case (Suc m)
  then have i: "i < length bs" by simp
  have cc: "concat (take (Suc i) bs) = concat (take i bs) @ bs ! i"
    using i by (simp add: take_Suc_conv_app_nth)
  have "concat bs = concat (take (Suc i) bs) @ concat (drop (Suc i) bs)"
    by (metis append_take_drop_id concat_append)
  then have "chain_ok cmp (concat (take i bs) @ bs ! i)"
    using assms(5) cc by (auto simp: chain_ok_def keys_ok_append)
  from copying_chain [OF Suc.prems(1) assms(2) this, of d] obtain st1 t1 where
    s: "rehash_chain (\<lambda>st t k. hash_find (Suc (Suc d)) calc_hash cmp CREATE st t k) st t (bs ! i) = Inr (st1, t1)"
    "copying st0 t0 n (concat (take (Suc i) bs)) st1 t1" by (auto simp: cc)
  have o: "arrays st old = Some bs" using Suc.prems(1) assms(3,4) by (simp add: copying_def Let_def)
  have "m = length bs - Suc i" "Suc i \<le> length bs" using Suc.hyps(2) i by auto
  from Suc.hyps(1) [OF this(1) s(2) this(2)] show ?case
    using i o s(1) by (simp add: upt_conv_Cons del: hash_find.simps)
qed

text \<open>Growing and copying keep every binding and touch no old array.\<close>

lemma hash_resize_spec:
  assumes t: "table_ok calc_hash cmp st t bs" and n: "0 < n"
  obtains st' t' bs' where "hash_resize (Suc (Suc (Suc d))) calc_hash cmp st t n = Inr (st', t')"
    "table_ok calc_hash cmp st' t' bs'" "tsize t' = n" "entries t' = length (concat bs)"
    "\<forall>j. b_lookup calc_hash cmp bs' j = b_lookup calc_hash cmp bs j" "next_array st \<le> table t'"
    "\<forall>a<next_array st. arrays st' a = arrays st a" "next_array st \<le> next_array st'"
    "copy_on_write t' \<longrightarrow> copy_on_write t"
proof -
  define a where "a = next_array st"
  define st1 where "st1 = st\<lparr>arrays := (arrays st)(a \<mapsto> replicate n []), next_array := a + 1\<rparr>"
  define t1 where "t1 = t\<lparr>table := a, tsize := n, entries := 0\<rparr>"
  have tt: "table t \<noteq> 0" "arrays st (table t) = Some bs" "tsize t = length bs" "table t < a"
    "b_inv calc_hash cmp bs" using t by (auto simp: table_ok_def a_def)
  note b = b_concat [OF tt(5)]
  have "copying st t n (concat (take 0 bs)) st1 t1"
    using tt by (simp add: copying_def Let_def st1_def t1_def a_def)
  from copying_rehash [OF this n tt(2) _ b(1), of d] tt obtain st' t' where
    r: "rehash (\<lambda>st t k. hash_find (Suc (Suc d)) calc_hash cmp CREATE st t k) st1 t1 (table t) [0..<length bs] = Inr (st', t')"
    "copying st t n (concat bs) st' t'" by (auto simp: a_def)
  have e: "hash_resize (Suc (Suc (Suc d))) calc_hash cmp st t n = Inr (st', t')"
    using r(1) tt by (simp add: alloc_array_def Let_def st1_def t1_def a_def del: hash_find.simps)
  note f = foldl_put [OF n b(1)]
  show ?thesis
    by (rule that [OF e, of "foldl (\<lambda>bs (k, v). b_put calc_hash cmp bs k v) (replicate n []) (concat bs)"])
      (use r(2) f b(2) in \<open>simp_all add: copying_def Let_def table_ok_def\<close>)
qed

end

end
