(* ===== verification/Hash_Load.thy ===== *)
theory Hash_Load
  imports Hash_Table
begin

text \<open>
  The load of a hash table, which the code computes in floating point: how far rounding can take it from
  the quotient, that a table that has grown is below the limit, and what the limit means for the entries.
\<close>

text \<open>What the rounding may change: a millionth, as bounds on the load.\<close>

lemma limit_bounds: "9 / 10 * (1 - 1 / 2 ^ 53) \<le> MAX_LOAD" "MAX_LOAD \<le> 9 / 10 * (1 + 1 / 2 ^ 53)"
  "6 / 10 * (1 - 1 / 2 ^ 53) \<le> TARGET_LOAD" "TARGET_LOAD \<le> 6 / 10 * (1 + 1 / 2 ^ 53)"
  using round_bounds [of "9 / 10" 53] round_bounds [of "6 / 10" 53] by (simp_all add: MAX_LOAD_def TARGET_LOAD_def)

lemma load_bounds:
  assumes "0 < tsize t"
  shows "of_nat (entries t) / of_nat (tsize t) * (1 - 3 / 2 ^ 25) \<le> hash_load t"
    "hash_load t \<le> of_nat (entries t) / of_nat (tsize t) * (1 + 1 / 2 ^ 23)"
proof -
  let ?e = "of_nat (entries t) :: rat" and ?s = "of_nat (tsize t) :: rat" and ?a = "1 - 1 / 2 ^ 53 :: rat" and ?b = "1 + 1 / 2 ^ 53 :: rat"
  have s: "0 < ?s" "0 \<le> ?e" using assms by simp_all
  note e = round_bounds [OF s(2), of 53] and d = round_bounds [OF less_imp_le [OF s(1)], of 53]
  have p: "0 < ?s * ?a" using s(1) by simp
  have "?e * ?a / (?s * ?b) \<le> to_double ?e / to_double ?s"
    by (rule frac_le) (use e(1) d s p in \<open>auto intro: order_trans [OF _ e(1)]\<close>)
  moreover have "to_double ?e / to_double ?s \<le> ?e * ?b / (?s * ?a)"
    by (rule frac_le) (use e(2) d s p in \<open>auto\<close>)
  ultimately have q: "?e / ?s * (?a / ?b) \<le> to_double ?e / to_double ?s" "to_double ?e / to_double ?s \<le> ?e / ?s * (?b / ?a)"
    by simp_all
  let ?q = "to_double ?e / to_double ?s"
  have es: "0 \<le> ?e / ?s" using s by simp
  have q0: "0 \<le> ?q" using order_trans [OF _ q(1)] es by simp
  note dq = round_bounds [OF q0, of 53]
  have dq0: "0 \<le> to_double ?q" using order_trans [OF _ dq(1)] q0 by simp
  note fq = round_bounds [OF dq0, of 24]
  have "?e / ?s * (1 - 3 / 2 ^ 25) \<le> ?e / ?s * (?a / ?b) * ?a * (1 - 1 / 2 ^ 24)"
    using mult_left_mono [OF _ es, of "1 - 3 / 2 ^ 25" "?a / ?b * ?a * (1 - 1 / 2 ^ 24)"] by (simp add: mult.assoc)
  also have "\<dots> \<le> ?q * ?a * (1 - 1 / 2 ^ 24)" by (intro mult_right_mono q(1)) simp_all
  also have "\<dots> \<le> to_double ?q * (1 - 1 / 2 ^ 24)" by (intro mult_right_mono dq(1)) simp
  finally show "?e / ?s * (1 - 3 / 2 ^ 25) \<le> hash_load t" using fq(1) by (simp add: hash_load_def)
  have "to_double ?q * (1 + 1 / 2 ^ 24) \<le> ?q * ?b * (1 + 1 / 2 ^ 24)" by (intro mult_right_mono dq(2)) simp
  also have "\<dots> \<le> ?e / ?s * (?b / ?a) * ?b * (1 + 1 / 2 ^ 24)" by (intro mult_right_mono q(2)) simp_all
  also have "\<dots> \<le> ?e / ?s * (1 + 1 / 2 ^ 23)"
    using mult_left_mono [OF _ es, of "?b / ?a * ?b * (1 + 1 / 2 ^ 24)" "1 + 1 / 2 ^ 23"] by (simp add: mult.assoc)
  finally show "hash_load t \<le> ?e / ?s * (1 + 1 / 2 ^ 23)" using fq(2) by (simp add: hash_load_def)
qed

lemma grown_size_bound: "of_nat (entries t) * (3 / 2) \<le> (of_nat (grown_size t) :: rat)" "0 < grown_size t"
proof -
  let ?e = "of_nat (entries t) :: rat" and ?a = "1 - 1 / 2 ^ 53 :: rat"
  let ?x = "to_double (to_double ?e / TARGET_LOAD)" and ?n = "nat \<lfloor>to_double (to_double ?e / TARGET_LOAD)\<rfloor> + 1"
  have tl: "0 < TARGET_LOAD" using limit_bounds(3) by (rule less_le_trans [rotated]) simp
  have e: "?e * ?a \<le> to_double ?e" using round_bounds(1) [of ?e 53] by simp
  have "?e * ?a / (6 / 10 * (1 + 1 / 2 ^ 53)) \<le> to_double ?e / TARGET_LOAD"
    by (rule frac_le) (use e tl limit_bounds(4) in \<open>auto intro: order_trans [OF _ e]\<close>)
  moreover have "?e * ?a / (6 / 10 * (1 + 1 / 2 ^ 53)) = ?e * (10 / 6 * ?a / (1 + 1 / 2 ^ 53))" by simp
  ultimately have q2: "?e * (10 / 6 * ?a / (1 + 1 / 2 ^ 53)) \<le> to_double ?e / TARGET_LOAD" by argo
  have "0 \<le> to_double ?e" using order_trans [OF _ e] by simp
  then have q: "0 \<le> to_double ?e / TARGET_LOAD" using tl by simp
  have "?e * (10 / 6 * ?a / (1 + 1 / 2 ^ 53)) * ?a \<le> to_double ?e / TARGET_LOAD * ?a" by (intro mult_right_mono q2) simp
  also have "\<dots> \<le> ?x" by (rule round_bounds(1) [OF q])
  also have "?x \<le> of_nat ?n" by linarith
  finally have n: "?e * (10 / 6 * ?a / (1 + 1 / 2 ^ 53) * ?a) \<le> of_nat ?n" by (simp add: mult.assoc)
  have "?e * (3 / 2) \<le> ?e * (10 / 6 * ?a / (1 + 1 / 2 ^ 53) * ?a) * ?a"
    using mult_left_mono [of "3 / 2" "10 / 6 * ?a / (1 + 1 / 2 ^ 53) * ?a * ?a" ?e] by (simp add: mult.assoc)
  also have "\<dots> \<le> of_nat ?n * ?a" by (intro mult_right_mono n) simp
  finally have y: "?e * (3 / 2) \<le> to_double (of_nat ?n)" using round_bounds(1) [of "of_nat ?n" 53] by simp
  obtain z where z: "to_double (of_nat ?n) = of_int z" using round_whole [of 53 ?n] by (auto elim: Ints_cases)
  have "(1 :: rat) * ?a \<le> of_nat ?n * ?a" by (intro mult_right_mono) simp_all
  then have "(1 :: rat) * ?a \<le> of_int z" using round_bounds(1) [of "of_nat ?n" 53] z by simp
  then have z1: "1 \<le> z" by (cases "z \<le> 0") (use order_trans in \<open>force simp: of_int_le_iff [of z 0, symmetric]\<close>)+
  have g: "grown_size t = nat z" unfolding grown_size_def z by simp
  then show "0 < grown_size t" using z1 by simp
  show "?e * (3 / 2) \<le> of_nat (grown_size t)" using y z1 unfolding z g by simp
qed

lemma grown_load:
  assumes "entries t' \<le> entries t" "tsize t' = grown_size t"
  shows "\<not> over_max_load t'"
proof -
  let ?e = "of_nat (entries t') :: rat" and ?s = "of_nat (tsize t') :: rat"
  have s: "0 < tsize t'" using assms(2) grown_size_bound(2) by simp
  have "?e \<le> of_nat (entries t)" using assms(1) by simp
  then have "?e * (3 / 2) \<le> ?s" using grown_size_bound(1) [of t] unfolding assms(2) by linarith
  then have "?e / ?s \<le> 2 / 3" using s by (simp add: field_simps)
  then have "hash_load t' \<le> 2 / 3 * (1 + 1 / 2 ^ 23)"
    using load_bounds(2) [OF s] mult_right_mono [of "?e / ?s" "2 / 3" "1 + 1 / 2 ^ 23"] by simp
  also have "\<dots> \<le> MAX_LOAD" by (rule order_trans [OF _ limit_bounds(1)]) simp
  finally show ?thesis by (simp add: over_max_load_def)
qed

lemma max_load_bound:
  assumes "\<not> over_max_load t" "0 < tsize t"
  shows "10 * entries t \<le> 9 * tsize t + tsize t div 2 ^ 20"
proof -
  let ?e = "of_nat (entries t) :: rat" and ?s = "of_nat (tsize t) :: rat"
  have "?e / ?s * (1 - 3 / 2 ^ 25) \<le> 9 / 10 * (1 + 1 / 2 ^ 53)"
    using load_bounds(1) [OF assms(2)] assms(1) limit_bounds(2) by (simp add: over_max_load_def)
  then have "?e / ?s \<le> 9 / 10 * (1 + 1 / 2 ^ 53) / (1 - 3 / 2 ^ 25)" by (simp add: field_simps)
  also have "\<dots> \<le> (9 + 1 / 2 ^ 20) / 10" by simp
  finally have "?e * (10 * 2 ^ 20) \<le> ?s * (9 * 2 ^ 20 + 1)" using assms(2) by (simp add: field_simps)
  then have "of_nat (entries t * (10 * 2 ^ 20)) \<le> (of_nat (tsize t * (9 * 2 ^ 20 + 1)) :: rat)" by simp
  then have "entries t * (10 * 2 ^ 20) \<le> tsize t * (9 * 2 ^ 20 + 1)" by (simp only: of_nat_le_iff)
  then show ?thesis by simp
qed

lemma under_max_load:
  assumes "10 * entries t \<le> 8 * tsize t" "0 < tsize t"
  shows "\<not> over_max_load t"
proof -
  let ?e = "of_nat (entries t) :: rat" and ?s = "of_nat (tsize t) :: rat"
  have "of_nat (10 * entries t) \<le> (of_nat (8 * tsize t) :: rat)" using assms(1) by (simp only: of_nat_le_iff)
  then have "?e / ?s \<le> 8 / 10" using assms(2) by (simp add: field_simps)
  then have "hash_load t \<le> 8 / 10 * (1 + 1 / 2 ^ 23)"
    using load_bounds(2) [OF assms(2)] mult_right_mono [of "?e / ?s" "8 / 10" "1 + 1 / 2 ^ 23"] by simp
  also have "\<dots> \<le> MAX_LOAD" by (rule order_trans [OF _ limit_bounds(1)]) simp
  finally show ?thesis by (simp add: over_max_load_def)
qed

end
