(* ===== verification/Hash_Ops.thy ===== *)
theory Hash_Ops
  imports Hash_Map Hash_Load
begin

text \<open>
  What \<open>hash_set\<close>, \<open>hash_erase\<close>, \<open>hash_get\<close> and \<open>hash_create\<close> do to a table in a store, and the
  table as a provider of the interface \<open>key_map\<close>.
\<close>

text \<open>The table as a map: the operations of \<open>key_map\<close> on a store and a table in it.\<close>

type_synonym ('k, 'v) hmap = "('k, 'v) hstore \<times> hash_table"

definition map_lookup where
  "map_lookup calc cmp m k = (case hash_get calc cmp (fst m) (snd m) k of Inr r \<Rightarrow> r | Inl e \<Rightarrow> None)"

definition map_update where
  "map_update calc cmp m k v = (case hash_set calc cmp (fst m) (snd m) k v of Inr r \<Rightarrow> r | Inl e \<Rightarrow> m)"

definition map_remove where
  "map_remove calc cmp m k = (case hash_erase calc cmp (fst m) (snd m) k of Inr r \<Rightarrow> r | Inl e \<Rightarrow> m)"

text \<open>What an operation does to the other arrays of the store.\<close>

definition frame :: "('k, 'v) hstore \<Rightarrow> hash_table \<Rightarrow> ('k, 'v) hstore \<Rightarrow> hash_table \<Rightarrow> bool" where
  "frame st t st' t' \<longleftrightarrow> next_array st \<le> next_array st'
     \<and> (\<forall>a<next_array st. a \<noteq> table t \<or> copy_on_write t \<longrightarrow> arrays st' a = arrays st a)
     \<and> (table t' = table t \<and> \<not> copy_on_write t \<or> next_array st \<le> table t')"

definition hmap_ok :: "('k \<Rightarrow> u32) \<Rightarrow> ('k \<Rightarrow> 'k \<Rightarrow> cmp_type) \<Rightarrow> ('k, 'v::zero) hmap \<Rightarrow> bool" where
  "hmap_ok calc cmp m \<longleftrightarrow> (\<exists>bs. table_ok calc cmp (fst m) (snd m) bs)"

context hash_key
begin

lemma find_unshare:
  assumes "copy_on_write t" "hash_resize d calc_hash cmp st t (tsize t) = Inr (st1, t1)"
    "tsize t1 = tsize t" "act \<noteq> READ"
  shows "hash_find (Suc d) calc_hash cmp act st t k
    = hash_find (Suc d) calc_hash cmp act st1 (t1\<lparr>copy_on_write := False\<rparr>) k"
  using assms by (cases act) simp_all

lemma frame_trans:
  assumes "frame st t st1 t1" "frame st1 t1 st2 t2" "\<not> copy_on_write t1" "table t < next_array st"
  shows "frame st t st2 t2"
proof -
  have le: "next_array st \<le> next_array st1" "next_array st1 \<le> next_array st2"
    and t1: "table t1 = table t \<and> \<not> copy_on_write t \<or> next_array st \<le> table t1"
    using assms(1,2) by (simp_all add: frame_def)
  have "arrays st2 a = arrays st a" if a: "a < next_array st" "a \<noteq> table t \<or> copy_on_write t" for a
  proof -
    have "a \<noteq> table t1" using t1 a by auto
    then have "arrays st2 a = arrays st1 a" using assms(2) a le by (simp add: frame_def)
    then show ?thesis using assms(1) a by (simp add: frame_def)
  qed
  moreover have "table t2 = table t \<and> \<not> copy_on_write t \<or> next_array st \<le> table t2"
    using assms(2) t1 le by (auto simp: frame_def)
  ultimately show ?thesis using le by (simp add: frame_def)
qed

lemma unshare:
  assumes t: "table_ok calc_hash cmp st t bs" and act: "act \<noteq> READ"
  obtains st1 t1 bs1 where
    "hash_find 4 calc_hash cmp act st t k = hash_find 4 calc_hash cmp act st1 t1 k"
    "table_ok calc_hash cmp st1 t1 bs1" "\<not> copy_on_write t1" "frame st t st1 t1"
    "\<forall>j. b_lookup calc_hash cmp bs1 j = b_lookup calc_hash cmp bs j"
    "copy_on_write t \<or> entries t1 = entries t"
proof (cases "copy_on_write t")
  case True
  have n: "0 < tsize t" using t by (auto simp: table_ok_def b_inv_def)
  obtain st1 t1 bs1 where r: "hash_resize (Suc (Suc (Suc 0))) calc_hash cmp st t (tsize t) = Inr (st1, t1)"
    "table_ok calc_hash cmp st1 t1 bs1" "tsize t1 = tsize t" "entries t1 = length (concat bs)"
    "\<forall>j. b_lookup calc_hash cmp bs1 j = b_lookup calc_hash cmp bs j" "next_array st \<le> table t1"
    "\<forall>a<next_array st. arrays st1 a = arrays st a" "next_array st \<le> next_array st1"
    "copy_on_write t1 \<longrightarrow> copy_on_write t"
    by (rule hash_resize_spec [OF t n, where d = 0])
  from find_unshare [OF True r(1,3) act, of k] show ?thesis
    using that [of st1 "t1\<lparr>copy_on_write := False\<rparr>" bs1] r(2,5-8) True
    by (simp add: eval_nat_numeral table_ok_def frame_def del: hash_find.simps)
next
  case False
  show ?thesis by (rule that [OF refl t False]) (use False in \<open>simp_all add: frame_def\<close>)
qed

lemma hash_set_create: "hash_set calc_hash cmp st t k v = rbind (create_set 4 st t k v) (\<lambda>(st, t).
    if over_max_load t then hash_resize 4 calc_hash cmp st t (grown_size t) else Inr (st, t))"
  by (simp add: hash_set_def create_set_def rbind_assoc case_prod_unfold cong: if_cong)

lemma table_ok_put:
  assumes t: "table_ok calc_hash cmp st t bs" and cow: "\<not> copy_on_write t"
  obtains st' t' where "create_set 4 st t k v = Inr (st', t')"
    "table_ok calc_hash cmp st' t' (b_put calc_hash cmp bs k v)" "\<not> copy_on_write t'" "frame st t st' t'"
proof -
  have a: "arrays st (table t) = Some bs" "tsize t = length bs" "bs \<noteq> []"
    and i: "b_inv calc_hash cmp bs" using t by (auto simp: table_ok_def b_inv_def)
  let ?st = "st\<lparr>arrays := (arrays st)(table t \<mapsto> b_put calc_hash cmp bs k v)\<rparr>"
  let ?t = "t\<lparr>entries := entries t + (if b_lookup calc_hash cmp bs k = None then 1 else 0)\<rparr>"
  have "create_set 4 st t k v = Inr (?st, ?t)"
    using create_set_plain [OF a cow, of 3] by (simp add: numeral_eq_Suc del: hash_find.simps)
  moreover have "table_ok calc_hash cmp ?st ?t (b_put calc_hash cmp bs k v)"
    using t i by (simp add: table_ok_def b_inv_put length_concat_put)
  ultimately show ?thesis using that cow by (simp add: frame_def)
qed

lemma hash_set_spec:
  assumes t: "table_ok calc_hash cmp st t bs"
  obtains st' t' bs' where "hash_set calc_hash cmp st t k v = Inr (st', t')" "table_ok calc_hash cmp st' t' bs'"
    "\<forall>j. b_lookup calc_hash cmp bs' j = (if cmp k j = EQ then Some v else b_lookup calc_hash cmp bs j)"
    "\<not> copy_on_write t'" "\<not> over_max_load t'" "frame st t st' t'"
proof -
  obtain st1 t1 bs1 where u:
    "hash_find 4 calc_hash cmp CREATE st t k = hash_find 4 calc_hash cmp CREATE st1 t1 k"
    "table_ok calc_hash cmp st1 t1 bs1" "\<not> copy_on_write t1" "frame st t st1 t1"
    "\<forall>j. b_lookup calc_hash cmp bs1 j = b_lookup calc_hash cmp bs j"
    by (rule unshare [OF t, of CREATE k]) auto
  obtain st2 t2 where c: "create_set 4 st1 t1 k v = Inr (st2, t2)"
    "table_ok calc_hash cmp st2 t2 (b_put calc_hash cmp bs1 k v)" "\<not> copy_on_write t2" "frame st1 t1 st2 t2"
    by (rule table_ok_put [OF u(2,3)])
  have e: "create_set 4 st t k v = Inr (st2, t2)" using c(1) unfolding create_set_def u(1) .
  have b1: "b_inv calc_hash cmp bs1" using u(2) by (simp add: table_ok_def)
  have l: "b_lookup calc_hash cmp (b_put calc_hash cmp bs1 k v) j
      = (if cmp k j = EQ then Some v else b_lookup calc_hash cmp bs j)" for j
    by (simp add: b_lookup_put [OF b1] u(5))
  have tn: "table t < next_array st" using t by (simp add: table_ok_def)
  note f2 = frame_trans [OF u(4) c(4) u(3) tn]
  show ?thesis
  proof (cases "over_max_load t2")
    case False
    then show ?thesis using that [OF _ c(2) _ c(3)] l e f2 by (simp add: hash_set_create)
  next
    case True
    have "0 < grown_size t2" by (rule grown_size_bound(2))
    then obtain st3 t3 bs3 where r:
      "hash_resize (Suc (Suc (Suc 1))) calc_hash cmp st2 t2 (grown_size t2) = Inr (st3, t3)"
      "table_ok calc_hash cmp st3 t3 bs3" "tsize t3 = grown_size t2"
      "entries t3 = length (concat (b_put calc_hash cmp bs1 k v))"
      "\<forall>j. b_lookup calc_hash cmp bs3 j = b_lookup calc_hash cmp (b_put calc_hash cmp bs1 k v) j"
      "next_array st2 \<le> table t3" "\<forall>a<next_array st2. arrays st3 a = arrays st2 a"
      "next_array st2 \<le> next_array st3" "copy_on_write t3 \<longrightarrow> copy_on_write t2"
      by (rule hash_resize_spec [OF c(2), where d = 1 and n = "grown_size t2"])
    have "length (concat (b_put calc_hash cmp bs1 k v)) \<le> entries t2"
      using c(2) by (simp add: table_ok_def)
    then have "\<not> over_max_load t3" using grown_load [OF _ r(3)] r(4) by simp
    moreover have "frame st2 t2 st3 t3" using r(6-8) by (simp add: frame_def)
    then have "frame st t st3 t3" by (rule frame_trans [OF f2 _ c(3) tn])
    moreover have "hash_set calc_hash cmp st t k v = Inr (st3, t3)"
      using True r(1) unfolding hash_set_create e by (simp add: numeral_eq_Suc del: hash_resize.simps)
    ultimately show ?thesis using that r(2,5,9) l c(3) by simp
  qed
qed

lemma hash_erase_spec:
  assumes t: "table_ok calc_hash cmp st t bs"
  obtains st' t' bs' where "hash_erase calc_hash cmp st t k = Inr (st', t')" "table_ok calc_hash cmp st' t' bs'"
    "\<forall>j. b_lookup calc_hash cmp bs' j = (if cmp k j = EQ then None else b_lookup calc_hash cmp bs j)"
    "\<not> copy_on_write t'" "frame st t st' t'" "copy_on_write t \<or> entries t' = entries t"
proof -
  obtain st1 t1 bs1 where u:
    "hash_find 4 calc_hash cmp DELETE st t k = hash_find 4 calc_hash cmp DELETE st1 t1 k"
    "table_ok calc_hash cmp st1 t1 bs1" "\<not> copy_on_write t1" "frame st t st1 t1"
    "\<forall>j. b_lookup calc_hash cmp bs1 j = b_lookup calc_hash cmp bs j"
    "copy_on_write t \<or> entries t1 = entries t"
    by (rule unshare [OF t, of DELETE k]) auto
  have a: "arrays st1 (table t1) = Some bs1" "tsize t1 = length bs1" "bs1 \<noteq> []"
    and b1: "b_inv calc_hash cmp bs1" using u(2) by (auto simp: table_ok_def b_inv_def)
  let ?i = "bucket_of calc_hash (length bs1) k"
  let ?st = "st1\<lparr>arrays := (arrays st1)(table t1 \<mapsto> b_del calc_hash cmp bs1 k)\<rparr>"
  have del: "b_del calc_hash cmp bs1 k = bs1[?i := chain_del cmp (bs1 ! ?i) k]"
    by (simp add: b_del_def Let_def)
  have st1: "st1\<lparr>arrays := (arrays st1)(table t1 \<mapsto> bs1)\<rparr> = st1"
    using a(1) by (simp add: fun_upd_idem)
  have e: "hash_erase calc_hash cmp st t k = Inr (?st, t1)"
  proof (cases "find_pos cmp k (bs1 ! ?i)")
    case None
    then show ?thesis using a u(3) bucket_lt [OF a(3), of k] st1
      unfolding hash_erase_def u(1)
      by (simp add: numeral_eq_Suc bucket_of_def Let_def del chain_del_def)
  next
    case (Some p)
    then show ?thesis using a u(3) bucket_lt [OF a(3), of k]
      unfolding hash_erase_def u(1)
      by (simp add: numeral_eq_Suc bucket_of_def Let_def del chain_del_def
          set_bucket_def)
  qed
  have "length (chain_del cmp (bs1 ! ?i) k) \<le> length (bs1 ! ?i)"
    by (cases "find_pos cmp k (bs1 ! ?i)") (auto simp: chain_del_def dest: find_pos_Some)
  with length_concat_update [OF bucket_lt [OF a(3), of k], of "chain_del cmp (bs1 ! ?i) k"]
  have len: "length (concat (b_del calc_hash cmp bs1 k)) \<le> length (concat bs1)" by (simp add: del)
  have ok: "table_ok calc_hash cmp ?st t1 (b_del calc_hash cmp bs1 k)"
    using u(2) len b_inv_del [OF b1, of k] by (simp add: table_ok_def)
  have l: "b_lookup calc_hash cmp (b_del calc_hash cmp bs1 k) j
      = (if cmp k j = EQ then None else b_lookup calc_hash cmp bs j)" for j
    by (simp add: b_lookup_del [OF b1] u(5))
  have tn: "table t < next_array st" using t by (simp add: table_ok_def)
  have "frame st1 t1 ?st t1" using u(3) by (simp add: frame_def)
  from frame_trans [OF u(4) this u(3) tn] show ?thesis using that [OF e ok _ u(3)] l u(6) by blast
qed

lemma hash_get_spec:
  assumes "table_ok calc_hash cmp st t bs"
  shows "hash_get calc_hash cmp st t k = Inr (b_lookup calc_hash cmp bs k)"
proof -
  have a: "arrays st (table t) = Some bs" "tsize t = length bs" "bs \<noteq> []"
    using assms by (auto simp: table_ok_def b_inv_def)
  show ?thesis
  proof (cases "find_pos cmp k (bs ! bucket_of calc_hash (length bs) k)")
    case None
    then have "b_lookup calc_hash cmp bs k = None" by (simp add: b_lookup_def find_lookup)
    with None a bucket_lt [OF a(3), of k] show ?thesis
      by (simp add: hash_get_def numeral_eq_Suc bucket_of_def Let_def)
  next
    case (Some p)
    then show ?thesis using a bucket_lt [OF a(3), of k] find_pos_Some [OF Some]
      by (simp add: hash_get_def numeral_eq_Suc bucket_of_def Let_def get_value_def b_lookup_def)
  qed
qed

text \<open>The table provides the interface of maps.\<close>

lemma map_lookup_ok:
  "table_ok calc_hash cmp (fst m) (snd m) bs \<Longrightarrow> map_lookup calc_hash cmp m k = b_lookup calc_hash cmp bs k"
  by (simp add: map_lookup_def hash_get_spec)

lemma map_update_ok:
  assumes "hmap_ok calc_hash cmp m"
  shows "hmap_ok calc_hash cmp (map_update calc_hash cmp m k v)"
    and "map_lookup calc_hash cmp (map_update calc_hash cmp m k v) j
      = (if cmp k j = EQ then Some v else map_lookup calc_hash cmp m j)"
proof -
  obtain bs where t: "table_ok calc_hash cmp (fst m) (snd m) bs" using assms by (auto simp: hmap_ok_def)
  obtain st' t' bs' where r: "hash_set calc_hash cmp (fst m) (snd m) k v = Inr (st', t')"
    "table_ok calc_hash cmp st' t' bs'"
    "\<forall>j. b_lookup calc_hash cmp bs' j = (if cmp k j = EQ then Some v else b_lookup calc_hash cmp bs j)"
    "\<not> copy_on_write t'" "\<not> over_max_load t'" "frame (fst m) (snd m) st' t'"
    by (rule hash_set_spec [OF t, where k = k and v = v])
  then have u: "map_update calc_hash cmp m k v = (st', t')" by (simp add: map_update_def)
  show "hmap_ok calc_hash cmp (map_update calc_hash cmp m k v)" using r(2) by (auto simp: u hmap_ok_def)
  show "map_lookup calc_hash cmp (map_update calc_hash cmp m k v) j
      = (if cmp k j = EQ then Some v else map_lookup calc_hash cmp m j)"
    using map_lookup_ok [of "(st', t')" bs'] map_lookup_ok [OF t] r(2,3) by (simp add: u)
qed

lemma map_remove_ok:
  assumes "hmap_ok calc_hash cmp m"
  shows "hmap_ok calc_hash cmp (map_remove calc_hash cmp m k)"
    and "map_lookup calc_hash cmp (map_remove calc_hash cmp m k) j
      = (if cmp k j = EQ then None else map_lookup calc_hash cmp m j)"
proof -
  obtain bs where t: "table_ok calc_hash cmp (fst m) (snd m) bs" using assms by (auto simp: hmap_ok_def)
  obtain st' t' bs' where r: "hash_erase calc_hash cmp (fst m) (snd m) k = Inr (st', t')"
    "table_ok calc_hash cmp st' t' bs'"
    "\<forall>j. b_lookup calc_hash cmp bs' j = (if cmp k j = EQ then None else b_lookup calc_hash cmp bs j)"
    "\<not> copy_on_write t'" "frame (fst m) (snd m) st' t'"
    "copy_on_write (snd m) \<or> entries t' = entries (snd m)"
    by (rule hash_erase_spec [OF t, where k = k])
  then have u: "map_remove calc_hash cmp m k = (st', t')" by (simp add: map_remove_def)
  show "hmap_ok calc_hash cmp (map_remove calc_hash cmp m k)" using r(2) by (auto simp: u hmap_ok_def)
  show "map_lookup calc_hash cmp (map_remove calc_hash cmp m k) j
      = (if cmp k j = EQ then None else map_lookup calc_hash cmp m j)"
    using map_lookup_ok [of "(st', t')" bs'] map_lookup_ok [OF t] r(2,3) by (simp add: u)
qed

lemma hash_create_spec:
  assumes "0 < next_array st"
  obtains st' t' bs where "hash_create calc_hash cmp st = Inr (st', t')" "table_ok calc_hash cmp st' t' bs"
    "\<forall>j. b_lookup calc_hash cmp bs j = None" "\<not> copy_on_write t'" "entries t' = 0"
    "table t' = next_array st" "\<forall>a<next_array st. arrays st' a = arrays st a"
proof -
  let ?bs = "replicate 4 []"
  let ?st = "st\<lparr>arrays := (arrays st)(next_array st \<mapsto> ?bs), next_array := next_array st + 1\<rparr>"
  let ?t = "\<lparr>table = next_array st, tsize = 4, entries = 0, copy_on_write = False\<rparr>"
  have e: "hash_create calc_hash cmp st = Inr (?st, ?t)"
    by (simp add: hash_create_def alloc_array_def HASH_SIZE_def numeral_eq_Suc)
  have "table_ok calc_hash cmp ?st ?t ?bs" using assms b_empty [of 4] by (simp add: table_ok_def)
  then show ?thesis by (rule that [OF e]) (simp_all add: b_lookup_empty)
qed

end

sublocale hash_key < tbl: key_map "hmap_ok calc_hash cmp" "map_lookup calc_hash cmp" "map_update calc_hash cmp"
  "map_remove calc_hash cmp" "\<lambda>j k. cmp j k = EQ"
  by unfold_locales (simp_all add: map_update_ok map_remove_ok)

end
