(* ===== verification/Hash_Props.thy ===== *)
theory Hash_Props
  imports Hash_Ops
begin

text \<open>
  The properties of the hash table: string and pointer keys, update, removal, copies on write,
  iteration, and the interface \<open>key_map\<close> at string tables.
\<close>

section \<open>String and pointer keys\<close>

lemma hash_string_loop_c_str: "hash_string_loop h (c_str bs) = hash_string_loop h bs"
  by (induction bs arbitrary: h) (auto simp: c_str_Cons)

lemma hash_string_c_str: "hash_string (c_str bs) = hash_string bs"
  by (simp add: hash_string_def hash_string_loop_c_str)

lemma hash_string_cmp_EQ: "hash_string_cmp as bs = EQ \<longleftrightarrow> c_str as = c_str bs"
  by (induction as bs rule: hash_string_cmp.induct) (auto simp: c_str_Cons)

lemma hash_pointer_cmp_EQ: "hash_pointer_cmp p q = EQ \<longleftrightarrow> p = q"
  by (auto simp: hash_pointer_cmp_def)

interpretation string_key: hash_key hash_string hash_string_cmp
proof
  fix j k :: "u8 list" assume "hash_string_cmp j k = EQ"
  then have "c_str j = c_str k" by (simp add: hash_string_cmp_EQ)
  then show "hash_string j = hash_string k" by (metis hash_string_c_str)
qed (simp_all add: hash_string_cmp_EQ)

interpretation pointer_key: hash_key hash_pointer hash_pointer_cmp
  by unfold_locales (simp_all add: hash_pointer_cmp_EQ)

lemma shift_step: "ucast b + push_bit 6 h + push_bit 16 h - h = h * 65599 + ucast (b :: u8)"
  for h :: u32
  by (simp add: push_bit_eq_mult algebra_simps)

lemma hash_string_loop_poly:
  "0 \<notin> set bs \<Longrightarrow> hash_string_loop h bs = foldl (\<lambda>h b. h * 65599 + ucast b) h bs"
proof (induction bs arbitrary: h)
  case (Cons b bs)
  have "hash_string_loop h (b # bs) = hash_string_loop (h * 65599 + ucast b) bs"
    using Cons.prems by (simp add: shift_step [symmetric])
  then show ?case using Cons by simp
qed simp

section \<open>Iteration\<close>

lemma read_bucket_in [simp]: "i < length bs \<Longrightarrow> read_bucket bs i = Inr (bs ! i)"
  by (simp add: read_bucket_def)

lemma block_cells_more: "n < block_cells n"
proof -
  have "32 + 8 * n + 8 \<le> 32 + 8 * n + (64 - (32 + 8 * n) mod 64)" by presburger
  then show ?thesis unfolding block_cells_def Let_def by linarith
qed

lemma read_bucket_end [simp]: "read_bucket bs (length bs) = Inr []"
  using block_cells_more [of "length bs"] by (simp add: read_bucket_def)

fun next_n :: "nat \<Rightarrow> ('k, 'v) hstore \<Rightarrow> hash_table \<Rightarrow> ('k, 'v) hash_iterator option
    \<Rightarrow> (('k, 'v) hash_iterator option \<times> ('k \<times> 'v) option list) res" where
  "next_n 0 st t it = Inr (it, [])"
| "next_n (Suc n) st t it =
     rbind (hash_next st t it) (\<lambda>(it, e).
     rbind (next_n n st t (Some it)) (\<lambda>(it, es). Inr (it, e # es)))"

text \<open>What the iterator still has to give.\<close>

definition remaining :: "('k \<times> 'v) list list \<Rightarrow> ('k, 'v) hash_iterator \<Rightarrow> ('k \<times> 'v) list" where
  "remaining bs it = entry it @ concat (drop (idx it) bs)"

definition iter_ok :: "('k \<times> 'v) list list \<Rightarrow> ('k, 'v) hash_iterator \<Rightarrow> bool" where
  "iter_ok bs it \<longleftrightarrow> idx it \<le> length bs
     \<and> (entry it \<noteq> [] \<or> 0 < idx it \<longrightarrow> 0 < idx it \<and> bs ! (idx it - 1) \<noteq> [])"

lemma next_loop_some:
  assumes "remaining bs it = e # es" "idx it \<le> length bs" "length bs - idx it < n"
    "entry it = [] \<or> 0 < idx it \<and> bs ! (idx it - 1) \<noteq> []"
  shows "\<exists>it'. next_loop n (length bs) bs it = Inr (it', Some e) \<and> remaining bs it' = es
    \<and> iter_ok bs it'"
  using assms
proof (induction n arbitrary: it)
  case (Suc n)
  show ?case
  proof (cases "entry it")
    case (Cons x rest)
    then show ?thesis using Suc.prems by (auto simp: remaining_def iter_ok_def)
  next
    case Nil
    then have i: "idx it < length bs"
      using Suc.prems by (cases "idx it < length bs") (auto simp: remaining_def)
    have d: "drop (idx it) bs = bs ! idx it # drop (Suc (idx it)) bs" using i by (simp add: Cons_nth_drop_Suc)
    let ?it = "it\<lparr>entry := bs ! idx it, idx := idx it + 1\<rparr>"
    show ?thesis
    proof (cases "bs ! idx it")
      case (Cons x rest)
      then show ?thesis using Suc.prems Nil i d by (auto simp: remaining_def iter_ok_def)
    next
      case n: Nil
      have r: "remaining bs ?it = e # es" using Suc.prems(1) Nil n d by (simp add: remaining_def)
      then have "idx ?it < length bs"
        using n by (cases "Suc (idx it) < length bs") (auto simp: remaining_def)
      moreover have "length bs - idx ?it < n" using Suc.prems(3) i by simp
      moreover from Suc.IH [OF r _ this] calculation obtain it' where
        "next_loop n (length bs) bs ?it = Inr (it', Some e)" "remaining bs it' = es"
        "iter_ok bs it'" by (auto simp: n)
      ultimately show ?thesis using Nil i n by (intro exI [of _ it']) simp
    qed
  qed
qed simp

lemma next_loop_end:
  assumes "entry it = []" "concat (drop (idx it) bs) = []"
    and "idx it < length bs" "length bs - idx it < n"
  shows "\<exists>it'. next_loop n (length bs) bs it = Inr (it', None) \<and> idx it' = length bs"
  using assms
proof (induction n arbitrary: it)
  case (Suc n)
  have d: "drop (idx it) bs = bs ! idx it # drop (Suc (idx it)) bs"
    using Suc.prems by (simp add: Cons_nth_drop_Suc)
  let ?it = "it\<lparr>entry := [], idx := idx it + 1\<rparr>"
  have e: "bs ! idx it = []" using Suc.prems(2) by (simp add: d)
  have "\<exists>it'. (if idx ?it < length bs then next_loop n (length bs) bs ?it else Inr (?it, None)) = Inr (it', None) \<and> idx it' = length bs"
  proof (cases "idx ?it < length bs")
    case True
    with Suc.IH [of ?it] Suc.prems show ?thesis by (simp add: d)
  qed (use Suc.prems in simp)
  then show ?case using Suc.prems e by (cases "idx ?it < length bs") simp_all
qed simp

definition iter_of :: "('k, 'v) hash_iterator option \<Rightarrow> ('k, 'v) hash_iterator" where
  "iter_of it = (case it of None \<Rightarrow> new_iterator | Some i \<Rightarrow> i)"

lemma next_n_all:
  assumes "arrays st (table t) = Some bs" "tsize t = length bs" "bs \<noteq> []"
  shows "remaining bs (iter_of it) = es @ fs \<Longrightarrow> iter_ok bs (iter_of it) \<Longrightarrow>
    \<exists>it'. next_n (length es) st t it = Inr (it', map Some es)
      \<and> remaining bs (iter_of it') = fs \<and> iter_ok bs (iter_of it')"
proof (induction es arbitrary: it)
  case (Cons e es)
  from next_loop_some [of bs "iter_of it" e "es @ fs" "length bs - idx (iter_of it) + 1"] Cons.prems
  obtain i1 where
    i1: "next_loop (length bs - idx (iter_of it) + 1) (length bs) bs (iter_of it) = Inr (i1, Some e)"
    "remaining bs i1 = es @ fs" "iter_ok bs i1" by (auto simp: iter_ok_def)
  have "hash_next st t it = Inr (i1, Some e)"
    using assms i1(1) by (simp add: hash_next_def Let_def iter_of_def)
  with Cons.IH [of "Some i1"] i1 show ?case by (auto simp: iter_of_def)
qed auto

lemma hash_next_end:
  assumes "arrays st (table t) = Some bs" "tsize t = length bs" "bs \<noteq> []" "iter_ok bs (iter_of it)" "remaining bs (iter_of it) = []"
  shows "\<exists>it'. hash_next st t it = Inr (it', None) \<and> idx it' = tsize t + (if last bs = [] then 0 else 1)"
proof -
  let ?it = "iter_of it"
  have e: "entry ?it = []" "concat (drop (idx ?it) bs) = []" "idx ?it \<le> length bs"
    using assms(4,5) by (simp_all add: remaining_def iter_ok_def)
  have h: "hash_next st t it = next_loop (length bs - idx ?it + 1) (length bs) bs ?it"
    using assms(1,2) by (simp add: hash_next_def iter_of_def Let_def)
  show ?thesis
  proof (cases "idx ?it < length bs")
    case True
    then have "last bs \<in> set (drop (idx ?it) bs)" by (metis last_drop last_in_set drop_eq_Nil not_le)
    then have "last bs = []" using e(2) by auto
    then show ?thesis using next_loop_end [OF e(1,2) True, of "length bs - idx ?it + 1"] h assms(2) by simp
  next
    case False
    then have "idx ?it = length bs" using e(3) by simp
    moreover from this have "last bs \<noteq> []" using assms(3,4) by (simp add: iter_ok_def last_conv_nth)
    ultimately show ?thesis using h e(1) assms(2) by simp
  qed
qed

section \<open>Example tables\<close>

definition demo_store :: "(u8 list, addr) hstore" where
  "demo_store = \<lparr>arrays = [5 \<mapsto> [[], [(chars ''a'', 7)], [], [(chars ''c'', 8)]]], next_array = 6\<rparr>"

definition demo_table :: hash_table where
  "demo_table = \<lparr>table = 5, tsize = 4, entries = 2, copy_on_write = False\<rparr>"

abbreviation string_table_ok :: "(u8 list, addr) hstore \<Rightarrow> hash_table \<Rightarrow> (u8 list \<times> addr) list list \<Rightarrow> bool" where
  "string_table_ok \<equiv> table_ok hash_string hash_string_cmp"

lemma demo_ok: "string_table_ok demo_store demo_table [[], [(chars ''a'', 7)], [], [(chars ''c'', 8)]]"
  unfolding table_ok_def
proof (intro conjI)
  show "b_inv hash_string hash_string_cmp [[], [(chars ''a'', 7)], [], [(chars ''c'', 8 :: addr)]]"
    by code_simp
qed (simp_all add: demo_store_def demo_table_def)

section \<open>Properties\<close>

text \<open>C12: \<open>hash_set\<close> returns on every table, copy on write or not, growing or not; it binds the key
  and no other, keeps the table well formed, leaves at most nine entries for ten buckets, or one in ten
  million more where the rounding of \<open>hash_load\<close> shows, with more than a million buckets, and changes no array a
  copy on write table shares.\<close>

theorem hash_set_refines:
  fixes st :: "('k, 'v::zero) hstore"
  assumes "hash_key calc cmp" and "table_ok calc cmp st t bs"
  shows "\<exists>st' t' bs'. hash_set calc cmp st t k v = Inr (st', t') \<and> table_ok calc cmp st' t' bs'
    \<and> (\<forall>j. hash_get calc cmp st' t' j
          = (if cmp k j = EQ then Inr (Some v) else hash_get calc cmp st t j))
    \<and> \<not> copy_on_write t' \<and> 10 * hash_size t' \<le> 9 * tsize t' + tsize t' div 2 ^ 20 \<and> frame st t st' t'"
proof -
  obtain st' t' bs' where r: "hash_set calc cmp st t k v = Inr (st', t')" "table_ok calc cmp st' t' bs'"
    "\<forall>j. b_lookup calc cmp bs' j = (if cmp k j = EQ then Some v else b_lookup calc cmp bs j)"
    "\<not> copy_on_write t'" "\<not> over_max_load t'" "frame st t st' t'"
    by (rule hash_key.hash_set_spec [OF assms, where k = k and v = v])
  show ?thesis using r hash_key.hash_get_spec [OF assms(1,2)] hash_key.hash_get_spec [OF assms(1) r(2)]
      max_load_bound [OF r(5)] r(2) by (auto simp: hash_size_def table_ok_def b_inv_def)
qed

lemma demo_get:
  "hash_get hash_string hash_string_cmp demo_store demo_table (chars ''a'') = Inr (Some 7)"
  "hash_get hash_string hash_string_cmp demo_store demo_table (chars ''c'') = Inr (Some 8)"
  "hash_get hash_string hash_string_cmp demo_store demo_table (chars ''b'') = Inr None"
  by (simp_all add: hash_key.hash_get_spec [OF string_key.hash_key_axioms demo_ok]) (code_simp+)

theorem hash_set_refines_witness:
  "\<exists>st' t'. hash_set hash_string hash_string_cmp demo_store demo_table (chars ''a'') 9 = Inr (st', t')
     \<and> hash_get hash_string hash_string_cmp st' t' (chars ''a'') = Inr (Some 9)
     \<and> hash_get hash_string hash_string_cmp st' t' (chars ''c'') = Inr (Some 8)"
proof -
  have "hash_string_cmp (chars ''a'') (chars ''a'') = EQ" "hash_string_cmp (chars ''a'') (chars ''c'') \<noteq> EQ"
    by code_simp+
  then show ?thesis
    using hash_set_refines [OF string_key.hash_key_axioms demo_ok, of "chars ''a''" 9] demo_get(2)
    by auto
qed

text \<open>C34: \<open>hash_erase\<close> returns on every table and removes the key and no other; it does not count
  the removal, so \<open>hash_size\<close> of a table that is not copy on write stays the same.\<close>

theorem hash_erase_refines:
  fixes st :: "('k, 'v::zero) hstore"
  assumes "hash_key calc cmp" and "table_ok calc cmp st t bs"
  shows "\<exists>st' t' bs'. hash_erase calc cmp st t k = Inr (st', t') \<and> table_ok calc cmp st' t' bs'
    \<and> (\<forall>j. hash_get calc cmp st' t' j
          = (if cmp k j = EQ then Inr None else hash_get calc cmp st t j))
    \<and> (copy_on_write t \<or> hash_size t' = hash_size t) \<and> frame st t st' t'"
proof -
  obtain st' t' bs' where r: "hash_erase calc cmp st t k = Inr (st', t')" "table_ok calc cmp st' t' bs'"
    "\<forall>j. b_lookup calc cmp bs' j = (if cmp k j = EQ then None else b_lookup calc cmp bs j)"
    "\<not> copy_on_write t'" "frame st t st' t'" "copy_on_write t \<or> entries t' = entries t"
    by (rule hash_key.hash_erase_spec [OF assms, where k = k])
  show ?thesis using r hash_key.hash_get_spec [OF assms(1,2)] hash_key.hash_get_spec [OF assms(1) r(2)]
    by (auto simp: hash_size_def)
qed

theorem hash_erase_refines_witness:
  "\<exists>st' t'. hash_erase hash_string hash_string_cmp demo_store demo_table (chars ''a'') = Inr (st', t')
     \<and> hash_get hash_string hash_string_cmp st' t' (chars ''a'') = Inr None
     \<and> hash_get hash_string hash_string_cmp st' t' (chars ''c'') = Inr (Some 8) \<and> hash_size t' = 2"
proof -
  have "hash_string_cmp (chars ''a'') (chars ''a'') = EQ" "hash_string_cmp (chars ''a'') (chars ''c'') \<noteq> EQ"
    by code_simp+
  moreover have "\<not> copy_on_write demo_table" "hash_size demo_table = 2"
    by (simp_all add: demo_table_def hash_size_def)
  ultimately show ?thesis
    using hash_erase_refines [OF string_key.hash_key_axioms demo_ok, of "chars ''a''"] demo_get(2)
    by auto
qed

text \<open>C35: a write to a copy on write copy is invisible in its source, whatever the copy's growth does.\<close>

theorem hash_cow_isolates_source:
  fixes st :: "('k, 'v::zero) hstore"
  assumes "hash_key calc cmp" and "table_ok calc cmp st t bs"
    and "hash_set calc cmp st (hash_cow t) k v = Inr (st', t')"
  shows "hash_get calc cmp st' t j = hash_get calc cmp st t j
    \<and> hash_get calc cmp st' t' j = (if cmp k j = EQ then Inr (Some v) else hash_get calc cmp st t j)"
proof -
  have c: "table_ok calc cmp st (hash_cow t) bs" using assms(2) by (simp add: table_ok_def hash_cow_def)
  obtain st2 t2 bs2 where r: "hash_set calc cmp st (hash_cow t) k v = Inr (st2, t2)"
    "table_ok calc cmp st2 t2 bs2"
    "\<forall>j. b_lookup calc cmp bs2 j = (if cmp k j = EQ then Some v else b_lookup calc cmp bs j)"
    "\<not> copy_on_write t2" "\<not> over_max_load t2" "frame st (hash_cow t) st2 t2"
    by (rule hash_key.hash_set_spec [OF assms(1) c, where k = k and v = v])
  have e: "st2 = st'" "t2 = t'" using r(1) assms(3) by simp_all
  have "arrays st' (table t) = arrays st (table t)" "next_array st \<le> next_array st'"
    using r(6) assms(2) by (auto simp: e frame_def hash_cow_def table_ok_def)
  then have "table_ok calc cmp st' t bs" using assms(2) by (simp add: table_ok_def)
  from hash_key.hash_get_spec [OF assms(1) this] show ?thesis
    using hash_key.hash_get_spec [OF assms(1) assms(2)] hash_key.hash_get_spec [OF assms(1) r(2)] r(3)
    by (simp add: e)
qed

theorem hash_cow_isolates_source_witness:
  "\<exists>st' t'. hash_set hash_string hash_string_cmp demo_store (hash_cow demo_table) (chars ''a'') 9 = Inr (st', t')
     \<and> hash_get hash_string hash_string_cmp st' demo_table (chars ''a'') = Inr (Some 7)
     \<and> hash_get hash_string hash_string_cmp st' t' (chars ''a'') = Inr (Some 9)"
proof -
  have c: "string_table_ok demo_store (hash_cow demo_table) [[], [(chars ''a'', 7)], [], [(chars ''c'', 8)]]"
    using demo_ok by (simp add: table_ok_def hash_cow_def)
  obtain st' t' bs' where r:
    "hash_set hash_string hash_string_cmp demo_store (hash_cow demo_table) (chars ''a'') 9 = Inr (st', t')"
    "string_table_ok st' t' bs'" "\<forall>j. b_lookup hash_string hash_string_cmp bs' j
      = (if hash_string_cmp (chars ''a'') j = EQ then Some 9 else b_lookup hash_string hash_string_cmp
          [[], [(chars ''a'', 7)], [], [(chars ''c'', 8)]] j)"
    "\<not> copy_on_write t'" "\<not> over_max_load t'" "frame demo_store (hash_cow demo_table) st' t'"
    by (rule hash_key.hash_set_spec [OF string_key.hash_key_axioms c, where k = "chars ''a''" and v = 9])
  have "hash_string_cmp (chars ''a'') (chars ''a'') = EQ" by code_simp
  with hash_cow_isolates_source [OF string_key.hash_key_axioms demo_ok r(1), of "chars ''a''"] r(1) demo_get(1)
  show ?thesis by auto
qed

text \<open>the other direction does not hold: a copy shares its source's array until the copy itself
  is written, so rebinding a key in the source, below the maximal load, changes what a lookup in
  the copy finds.\<close>

theorem hash_cow_sees_source_writes:
  fixes st :: "('k, 'v::zero) hstore"
  assumes "hash_key calc cmp" and "table_ok calc cmp st t bs" and "\<not> copy_on_write t"
    and "b_lookup calc cmp bs k \<noteq> None" and "\<not> over_max_load t"
  shows "\<exists>st' t'. hash_set calc cmp st t k v = Inr (st', t')
    \<and> hash_get calc cmp st' (hash_cow t) k = Inr (Some v)"
proof -
  let ?st = "st\<lparr>arrays := (arrays st)(table t \<mapsto> b_put calc cmp bs k v)\<rparr>"
  have a: "arrays st (table t) = Some bs" "tsize t = length bs" "bs \<noteq> []" and i: "b_inv calc cmp bs"
    using assms(2) by (auto simp: table_ok_def b_inv_def)
  have "hash_key.create_set calc cmp 4 st t k v = Inr (?st, t\<lparr>entries := entries t + 0\<rparr>)"
    using hash_key.create_set_plain [OF assms(1) a assms(3), of 3 k v] assms(4)
    by (simp add: numeral_eq_Suc)
  then have s: "hash_set calc cmp st t k v = Inr (?st, t)"
    using assms(5) by (simp add: hash_key.hash_set_create [OF assms(1)])
  have "table_ok calc cmp ?st (hash_cow t) (b_put calc cmp bs k v)"
    using assms(2,4) by (auto simp: table_ok_def hash_cow_def hash_key.b_inv_put [OF assms(1) i]
        hash_key.length_concat_put [OF assms(1) i] hash_key.b_put_length [OF assms(1)])
  from hash_key.hash_get_spec [OF assms(1) this] s show ?thesis
    by (simp add: hash_key.b_lookup_put [OF assms(1) i] hash_key.cmp_refl [OF assms(1)])
qed

theorem hash_cow_sees_source_writes_witness:
  "\<exists>st' t'. hash_set hash_string hash_string_cmp demo_store demo_table (chars ''a'') 9 = Inr (st', t')
     \<and> hash_get hash_string hash_string_cmp st' (hash_cow demo_table) (chars ''a'') = Inr (Some 9)"
proof (rule hash_cow_sees_source_writes [OF string_key.hash_key_axioms demo_ok])
  show "b_lookup hash_string hash_string_cmp [[], [(chars ''a'', 7 :: addr)], [], [(chars ''c'', 8)]] (chars ''a'') \<noteq> None"
    by code_simp
qed (simp_all add: demo_table_def under_max_load)

text \<open>string keys are equal exactly when they are the same C string, and the hash is the
  polynomial with base 65599 in its bytes, modulo 2^32: the shifts and the subtraction are that
  multiplication.\<close>

theorem string_key_correct:
  "(hash_string_cmp as bs = EQ \<longleftrightarrow> c_str as = c_str bs)
   \<and> hash_string bs = foldl (\<lambda>h b. h * 65599 + ucast b) 0 (c_str bs)"
  using hash_string_loop_poly [of "c_str bs" 0] hash_string_c_str [of bs]
  by (simp add: hash_string_cmp_EQ hash_string_def)

text \<open>C36: iterating over an unchanged table gives every entry exactly once, bucket by bucket, and the call
  after the last entry returns null. When the last bucket is not empty that call reads one pointer past
  the array, which is null because it lies in the block's padding, and leaves the iterator there.\<close>

theorem hash_next_enumerates:
  assumes "table_ok calc cmp st t bs"
  shows "\<exists>it it'. next_n (length (concat bs)) st t None = Inr (it, map Some (concat bs))
    \<and> hash_next st t it = Inr (it', None) \<and> idx it' = tsize t + (if last bs = [] then 0 else 1)"
proof -
  have a: "arrays st (table t) = Some bs" "tsize t = length bs" "bs \<noteq> []"
    using assms by (auto simp: table_ok_def b_inv_def)
  obtain it where it: "next_n (length (concat bs)) st t None = Inr (it, map Some (concat bs))"
    "remaining bs (iter_of it) = []" "iter_ok bs (iter_of it)"
    using next_n_all [OF a, of None "concat bs" "[]"]
    by (auto simp: iter_of_def remaining_def new_iterator_def iter_ok_def)
  then show ?thesis using hash_next_end [OF a it(3,2)] a(2) by auto
qed

theorem hash_next_enumerates_witness:
  "\<exists>it it'. next_n 2 demo_store demo_table None = Inr (it, [Some (chars ''a'', 7), Some (chars ''c'', 8)])
     \<and> hash_next demo_store demo_table it = Inr (it', None) \<and> idx it' = 5"
  using hash_next_enumerates [OF demo_ok] by (simp add: numeral_eq_Suc demo_table_def)

text \<open>in any run of updates of a string table the last binding of a name is the one a lookup
  finds.\<close>

theorem last_write_wins:
  fixes m :: "(u8 list, 'v::zero) hmap"
  assumes "hmap_ok hash_string hash_string_cmp m" and "c_str k = c_str j"
    and "\<forall>(i, w)\<in>set later. c_str i \<noteq> c_str j"
  shows "map_lookup hash_string hash_string_cmp
    (foldl (\<lambda>m (k, v). map_update hash_string hash_string_cmp m k v) m (earlier @ (k, v) # later)) j = Some v"
  using assms by (intro string_key.tbl.lookup_foldl_last) (auto simp: hash_string_cmp_EQ)

theorem last_write_wins_witness:
  "map_lookup hash_string hash_string_cmp (foldl (\<lambda>m (k, v). map_update hash_string hash_string_cmp m k v)
     (demo_store, demo_table) ([] @ (chars ''b'', 1) # [(chars ''c'', 2)])) (chars ''b'') = Some 1"
proof (rule last_write_wins)
  show "hmap_ok hash_string hash_string_cmp (demo_store, demo_table)" using demo_ok by (auto simp: hmap_ok_def)
  show "\<forall>(i, w)\<in>set [(chars ''c'', 2 :: addr)]. c_str i \<noteq> c_str (chars ''b'')" by code_simp
qed simp

end
