(* ===== verification/Buffer.thy ===== *)
theory Buffer
  imports Interfaces
begin

text \<open>
  The elastic buffer, \<open>src/src/libinsomniac_buffer\<close>. The chain of blocks is the list of their
  bytes, the head first; the tail is the last one.
\<close>

section \<open>Buffers\<close>

definition BLOCK_SIZE :: nat where "BLOCK_SIZE = 4096"

record buffer =
  blocks :: "u8 list list"
  used :: nat

definition new_block :: "u8 list" where
  "new_block = replicate BLOCK_SIZE 0"

definition buffer_create :: buffer where
  "buffer_create = \<lparr>blocks = [new_block], used = 0\<rparr>"

definition buffer_reset :: "buffer \<Rightarrow> buffer" where
  "buffer_reset buf = buf\<lparr>used := 0, blocks := [last (blocks buf)]\<rparr>"

definition buffer_push :: "buffer \<Rightarrow> buffer" where
  "buffer_push buf = buf\<lparr>blocks := blocks buf @ [new_block]\<rparr>"

text \<open>\<open>memcpy\<close> of \<open>n\<close> bytes of \<open>src\<close> from \<open>soff\<close> to \<open>doff\<close> of the block \<open>dst\<close>.\<close>

definition copy_bytes :: "u8 list \<Rightarrow> nat \<Rightarrow> u8 list \<Rightarrow> nat \<Rightarrow> nat \<Rightarrow> u8 list res" where
  "copy_bytes dst doff src soff n =
     (if doff + n \<le> length dst \<and> soff + n \<le> length src
      then Inr (take doff dst @ take n (drop soff src) @ drop (doff + n) dst)
      else Inl Out_Of_Bounds)"

text \<open>The loop of \<open>buffer_write\<close>; \<open>n\<close> is \<open>block_remaining\<close>. The C loop would not end on a round that
  copies nothing or more than is left; no call gets there (\<open>buffer_write_appends\<close>), and the model
  has a fault in that place.\<close>

function write_loop :: "buffer \<Rightarrow> u8 list \<Rightarrow> nat \<Rightarrow> nat \<Rightarrow> nat \<Rightarrow> nat \<Rightarrow> buffer res" where
  "write_loop buf bytes len woff off n =
     (if len = 0 then Inr buf
      else if n = 0 \<or> len < n then Inl Assert_Failed
      else rbind (copy_bytes (last (blocks buf)) woff bytes off n) (\<lambda>blk.
        let buf = buf\<lparr>blocks := butlast (blocks buf) @ [blk], used := used buf + n\<rparr>;
            len = len - n;
            (woff, buf) = (if used buf mod BLOCK_SIZE = 0 then (0, buffer_push buf) else (woff, buf))
        in write_loop buf bytes len woff (off + n) (if BLOCK_SIZE \<le> len then BLOCK_SIZE else len)))"
  by pat_completeness auto
termination by (relation "measure (\<lambda>(_, _, len, _). len)") auto

declare write_loop.simps [simp del]

definition buffer_write :: "buffer \<Rightarrow> u8 list \<Rightarrow> nat \<Rightarrow> buffer res" where
  "buffer_write buf bytes len =
     (let write_offset = used buf mod BLOCK_SIZE;
          block_remaining = BLOCK_SIZE - write_offset;
          buf = (if block_remaining = 0 then buffer_push buf else buf);
          block_remaining = (if len < block_remaining then len else block_remaining)
      in write_loop buf bytes len write_offset 0 block_remaining)"

text \<open>The walk of \<open>buffer_read\<close> over the blocks: the bytes it stores in \<open>dest\<close>, in order, as many as
  the returned offset says.\<close>

fun read_loop :: "u8 list list \<Rightarrow> nat \<Rightarrow> nat \<Rightarrow> u8 list" where
  "read_loop [] len off = []"
| "read_loop (b # bs) len off =
     (if off < len
      then (let copy_amount = len - off;
                copy_amount = (if BLOCK_SIZE \<le> copy_amount then BLOCK_SIZE else copy_amount)
            in take copy_amount b @ read_loop bs len (off + copy_amount))
      else [])"

definition buffer_read :: "buffer \<Rightarrow> nat \<Rightarrow> u8 list" where
  "buffer_read buf len = read_loop (blocks buf) len 0"

definition buffer_size :: "buffer \<Rightarrow> nat" where
  "buffer_size buf = used buf"

text \<open>\<open>buffer_append\<close> between two different buffers; a length of -1 is \<open>None\<close>.\<close>

fun append_loop :: "buffer \<Rightarrow> u8 list list \<Rightarrow> nat \<Rightarrow> nat \<Rightarrow> (buffer \<times> nat) res" where
  "append_loop buf [] len off = Inr (buf, off)"
| "append_loop buf (b # bs) len off =
     (if off < len
      then (let copy_amount = len - off;
                copy_amount = (if BLOCK_SIZE \<le> copy_amount then BLOCK_SIZE else copy_amount)
            in rbind (buffer_write buf b copy_amount) (\<lambda>buf.
               append_loop buf bs len (off + copy_amount)))
      else Inr (buf, off))"

definition buffer_append :: "buffer \<Rightarrow> buffer \<Rightarrow> nat option \<Rightarrow> (buffer \<times> nat) res" where
  "buffer_append buf src len =
     append_loop buf (blocks src) (case len of None \<Rightarrow> buffer_size src | Some n \<Rightarrow> n) 0"

section \<open>Files\<close>

text \<open>
  A file is what \<open>open\<close> and the \<open>read\<close> calls on it return: \<open>None\<close> if it cannot be opened,
  otherwise the results of \<open>read\<close> up to the end of the file, each at most \<open>BLOCK_SIZE\<close> bytes or
  \<open>None\<close> for an error. \<open>count\<close> is unsigned, so an error is a count of \<open>2 ^ 64 - 1\<close> bytes.
\<close>

type_synonym file_reads = "u8 list option list option"

fun load_loop :: "buffer \<Rightarrow> u8 list option list \<Rightarrow> nat \<Rightarrow> (buffer \<times> nat) res" where
  "load_loop buf [] loaded = Inr (buf, loaded)"
| "load_loop buf (None # rs) loaded =
     rbind (buffer_write buf (replicate BLOCK_SIZE 0) (2 ^ 64 - 1)) (\<lambda>buf.
       load_loop buf rs (loaded + (2 ^ 64 - 1)))"
| "load_loop buf (Some bytes # rs) loaded =
     (if bytes = [] then Inr (buf, loaded)
      else rbind (buffer_write buf bytes (length bytes)) (\<lambda>buf. load_loop buf rs (loaded + length bytes)))"

definition buffer_load :: "buffer \<Rightarrow> file_reads \<Rightarrow> (buffer \<times> nat option) res" where
  "buffer_load buf f =
     (case f of
        None \<Rightarrow> Inr (buf, None)
      | Some rs \<Rightarrow> rbind (load_loop buf rs 0) (\<lambda>(buf, n). Inr (buf, Some n)))"

text \<open>The block that receives the file is one byte longer and zeroed.\<close>

definition buffer_load_string :: "file_reads \<Rightarrow> (u8 list \<times> nat) res" where
  "buffer_load_string f =
     rbind (buffer_load buffer_create f) (\<lambda>(buf, count).
       case count of
         None \<Rightarrow> Inl Exited
       | Some n \<Rightarrow> Inr (buffer_read buf n @ [0], n))"

text \<open>A stream opened on a buffer writes through.\<close>

definition buffer_write_wrapper :: "buffer \<Rightarrow> u8 list \<Rightarrow> nat \<Rightarrow> (buffer \<times> nat) res" where
  "buffer_write_wrapper buf c n = rbind (buffer_write buf c n) (\<lambda>buf. Inr (buf, n))"

section \<open>Contents\<close>

definition contents :: "buffer \<Rightarrow> u8 list" where
  "contents buf = take (used buf) (concat (blocks buf))"

definition buffer_ok :: "buffer \<Rightarrow> bool" where
  "buffer_ok buf \<longleftrightarrow> (\<forall>b\<in>set (blocks buf). length b = BLOCK_SIZE)
     \<and> length (blocks buf) = used buf div BLOCK_SIZE + 1"

lemma length_concat_blocks:
  "\<forall>b\<in>set bs. length b = BLOCK_SIZE \<Longrightarrow> length (concat bs) = BLOCK_SIZE * length bs"
  by (induction bs) auto

lemma length_contents: "buffer_ok buf \<Longrightarrow> length (contents buf) = used buf"
proof -
  assume ok: "buffer_ok buf"
  have "used buf \<le> BLOCK_SIZE * (used buf div BLOCK_SIZE + 1)"
    by (simp add: BLOCK_SIZE_def)
  then show ?thesis using ok by (simp add: contents_def length_concat_blocks buffer_ok_def)
qed

text \<open>One round of the loop: a chunk that fits in the tail block.\<close>

lemma write_round:
  assumes ok: "buffer_ok buf" and n: "0 < n" "woff + n \<le> BLOCK_SIZE" "woff = used buf mod BLOCK_SIZE"
    and src: "off + n \<le> length bytes"
  shows "\<exists>blk. copy_bytes (last (blocks buf)) woff bytes off n = Inr blk
    \<and> (let b = buf\<lparr>blocks := butlast (blocks buf) @ [blk], used := used buf + n\<rparr>;
           b' = (if used b mod BLOCK_SIZE = 0 then buffer_push b else b)
       in buffer_ok b' \<and> contents b' = contents buf @ take n (drop off bytes)
          \<and> used b' = used buf + n)"
proof -
  define bs where "bs = butlast (blocks buf)"
  define tl where "tl = last (blocks buf)"
  have ne: "blocks buf \<noteq> []" using ok by (auto simp: buffer_ok_def)
  then have bl: "blocks buf = bs @ [tl]" by (simp add: bs_def tl_def)
  have len: "length tl = BLOCK_SIZE" "\<forall>b\<in>set bs. length b = BLOCK_SIZE"
    "length bs = used buf div BLOCK_SIZE" using ok by (simp_all add: buffer_ok_def bl)
  have cl: "length (concat bs) = BLOCK_SIZE * (used buf div BLOCK_SIZE)"
    using length_concat_blocks [OF len(2)] len(3) by simp
  have u: "used buf = length (concat bs) + woff" using n(3) cl by simp
  let ?ch = "take n (drop off bytes)"
  let ?blk = "take woff tl @ ?ch @ drop (woff + n) tl"
  have cp: "copy_bytes tl woff bytes off n = Inr ?blk"
    using n src len(1) by (simp add: copy_bytes_def)
  have lb: "length ?blk = BLOCK_SIZE" using n(2) src len(1) by simp
  have c0: "contents buf = concat bs @ take woff tl" by (simp add: contents_def bl u)
  let ?b = "buf\<lparr>blocks := bs @ [?blk], used := used buf + n\<rparr>"
  have c1: "contents ?b = contents buf @ ?ch" "contents (buffer_push ?b) = contents buf @ ?ch"
    using n(2) src len(1) by (simp_all add: contents_def u c0 bl buffer_push_def)
  have blksz: "0 < BLOCK_SIZE" by (simp add: BLOCK_SIZE_def)
  have "(used buf + n) div BLOCK_SIZE = used buf div BLOCK_SIZE + (if woff + n = BLOCK_SIZE then 1 else 0)"
    "(used buf + n) mod BLOCK_SIZE = (if woff + n = BLOCK_SIZE then 0 else woff + n)"
  proof -
    have e: "used buf + n = (woff + n) + BLOCK_SIZE * (used buf div BLOCK_SIZE)" using n(3) by simp
    show "(used buf + n) div BLOCK_SIZE = used buf div BLOCK_SIZE + (if woff + n = BLOCK_SIZE then 1 else 0)"
      "(used buf + n) mod BLOCK_SIZE = (if woff + n = BLOCK_SIZE then 0 else woff + n)"
      using n(2) blksz by (subst e, cases "woff + n = BLOCK_SIZE"; simp)+
  qed
  then show ?thesis
    using cp lb len c1 n(1) unfolding tl_def [symmetric] bs_def [symmetric]
    by (auto simp: Let_def buffer_ok_def buffer_push_def new_block_def)
qed

lemma write_loop_appends:
  assumes "buffer_ok buf" "off + len \<le> length bytes" "woff = used buf mod BLOCK_SIZE \<or> len = 0"
    "n = min len (BLOCK_SIZE - woff)"
  shows "\<exists>buf'. write_loop buf bytes len woff off n = Inr buf' \<and> buffer_ok buf'
    \<and> contents buf' = contents buf @ take len (drop off bytes)"
  using assms
proof (induction len arbitrary: buf woff off n rule: less_induct)
  case (less len)
  show ?case
  proof (cases "len = 0")
    case False
    have "used buf mod BLOCK_SIZE < BLOCK_SIZE" by (simp add: BLOCK_SIZE_def)
    then have n: "0 < n" "woff + n \<le> BLOCK_SIZE" "woff = used buf mod BLOCK_SIZE" "n \<le> len"
      using less.prems False by auto
    have src: "off + n \<le> length bytes" using less.prems(2) n(4) by simp
    obtain blk b' where cp: "copy_bytes (last (blocks buf)) woff bytes off n = Inr blk"
      and b': "b' = (let b = buf\<lparr>blocks := butlast (blocks buf) @ [blk], used := used buf + n\<rparr>
                in if used b mod BLOCK_SIZE = 0 then buffer_push b else b)"
      and r: "buffer_ok b'" "contents b' = contents buf @ take n (drop off bytes)" "used b' = used buf + n"
      using write_round [OF less.prems(1) n(1-3) src] by (auto simp: Let_def)
    define w' where "w' = (if used b' mod BLOCK_SIZE = 0 then 0 else woff)"
    have u: "used buf + n = (woff + n) + BLOCK_SIZE * (used buf div BLOCK_SIZE)" using n(3) by simp
    have w: "w' = used b' mod BLOCK_SIZE \<or> len - n = 0"
    proof (cases "woff + n = BLOCK_SIZE")
      case True
      then have "used b' mod BLOCK_SIZE = 0" using u r(3) by simp
      then show ?thesis by (simp add: w'_def)
    next
      case False
      then show ?thesis using less.prems(4) n(2) by auto
    qed
    have nn: "(if BLOCK_SIZE \<le> len - n then BLOCK_SIZE else len - n) = min (len - n) (BLOCK_SIZE - w')"
    proof (cases "len - n = 0")
      case ne: False
      then have "woff + n = BLOCK_SIZE" using less.prems(4) n(2) by auto
      then have "w' = 0" using u r(3) by (simp add: w'_def)
      then show ?thesis by (simp add: min_def)
    qed (simp add: BLOCK_SIZE_def)
    have "write_loop buf bytes len woff off n
        = write_loop b' bytes (len - n) w' (off + n) (if BLOCK_SIZE \<le> len - n then BLOCK_SIZE else len - n)"
      using False n cp by (subst write_loop.simps) (auto simp: b' w'_def Let_def buffer_push_def)
    moreover obtain buf' where
      "write_loop b' bytes (len - n) w' (off + n) (min (len - n) (BLOCK_SIZE - w')) = Inr buf'"
      "buffer_ok buf'" "contents buf' = contents b' @ take (len - n) (drop (off + n) bytes)"
      using less.IH [of "len - n" b' "off + n" w' "min (len - n) (BLOCK_SIZE - w')"] n r less.prems(2) w
      by auto
    moreover have "take n (drop off bytes) @ take (len - n) (drop (off + n) bytes) = take len (drop off bytes)"
      using take_add [of n "len - n" "drop off bytes"] n(4) by (simp add: add.commute)
    ultimately show ?thesis using nn r(2) by simp
  qed (use less.prems in \<open>simp add: write_loop.simps\<close>)
qed

lemma buffer_write_ok:
  assumes "buffer_ok buf" "len \<le> length bytes"
  obtains buf' where "buffer_write buf bytes len = Inr buf'" "buffer_ok buf'"
    "contents buf' = contents buf @ take len bytes"
proof -
  have "used buf mod BLOCK_SIZE < BLOCK_SIZE" by (simp add: BLOCK_SIZE_def)
  then have "buffer_write buf bytes len = write_loop buf bytes len (used buf mod BLOCK_SIZE) 0
      (min len (BLOCK_SIZE - used buf mod BLOCK_SIZE))"
    by (simp add: buffer_write_def Let_def min_def)
  with write_loop_appends [OF assms(1), of 0 len bytes] assms(2) that show ?thesis by auto
qed

lemma read_loop_take:
  "\<forall>b\<in>set bs. length b = BLOCK_SIZE \<Longrightarrow> off \<le> len \<Longrightarrow> read_loop bs len off = take (len - off) (concat bs)"
proof (induction bs arbitrary: off)
  case (Cons b bs)
  show ?case
  proof (cases "off < len")
    case True
    define n where "n = (if BLOCK_SIZE \<le> len - off then BLOCK_SIZE else len - off)"
    have n: "n \<le> len - off" "n \<le> BLOCK_SIZE" by (simp_all add: n_def)
    have "read_loop bs len (off + n) = take (len - (off + n)) (concat bs)"
      using Cons True n by (intro Cons.IH) auto
    moreover have "take n b @ take (len - (off + n)) (concat bs) = take (len - off) (b @ concat bs)"
      using Cons.prems by (auto simp: n_def)
    ultimately show ?thesis using True by (simp add: n_def [symmetric] Let_def)
  qed (use Cons.prems in simp)
qed simp

lemma buffer_read_take:
  assumes "buffer_ok buf" "len \<le> used buf"
  shows "buffer_read buf len = take len (contents buf)"
  using assms read_loop_take [of "blocks buf" 0 len] by (simp add: buffer_read_def buffer_ok_def contents_def)

lemma append_loop_spec:
  "\<forall>b\<in>set bs. length b = BLOCK_SIZE \<Longrightarrow> off \<le> len \<Longrightarrow> buffer_ok buf \<Longrightarrow> len - off \<le> length (concat bs) \<Longrightarrow>
   \<exists>buf'. append_loop buf bs len off = Inr (buf', len) \<and> buffer_ok buf'
     \<and> contents buf' = contents buf @ take (len - off) (concat bs)"
proof (induction bs arbitrary: off buf)
  case (Cons b bs)
  show ?case
  proof (cases "off < len")
    case True
    define n where "n = (if BLOCK_SIZE \<le> len - off then BLOCK_SIZE else len - off)"
    have n: "n \<le> len - off" "n \<le> length b" using Cons.prems by (simp_all add: n_def)
    obtain b1 where b1: "buffer_write buf b n = Inr b1" "buffer_ok b1"
      "contents b1 = contents buf @ take n b" by (rule buffer_write_ok [OF Cons.prems(3) n(2)])
    have "len - (off + n) \<le> length (concat bs)" "off + n \<le> len"
      using Cons.prems n True by (auto simp: n_def)
    with Cons.IH [of "off + n" b1] Cons.prems b1 obtain buf' where
      "append_loop b1 bs len (off + n) = Inr (buf', len)" "buffer_ok buf'"
      "contents buf' = contents b1 @ take (len - (off + n)) (concat bs)" by auto
    moreover have "take n b @ take (len - (off + n)) (concat bs) = take (len - off) (b @ concat bs)"
      using Cons.prems by (auto simp: n_def diff_diff_left)
    ultimately show ?thesis using True b1 by (simp add: n_def [symmetric] Let_def)
  qed (use Cons.prems in simp)
qed simp

lemma buffer_create_ok: "buffer_ok buffer_create" "contents buffer_create = []"
  by (simp_all add: buffer_ok_def buffer_create_def new_block_def contents_def)

definition put_bytes :: "buffer \<Rightarrow> u8 list \<Rightarrow> buffer" where
  "put_bytes buf bytes = (case buffer_write buf bytes (length bytes) of Inr b \<Rightarrow> b | Inl e \<Rightarrow> buf)"

lemma put_bytes_ok:
  assumes "buffer_ok buf"
  shows "buffer_write buf bytes (length bytes) = Inr (put_bytes buf bytes)"
    "buffer_ok (put_bytes buf bytes)" "contents (put_bytes buf bytes) = contents buf @ bytes"
proof -
  obtain b where "buffer_write buf bytes (length bytes) = Inr b" "buffer_ok b"
    "contents b = contents buf @ take (length bytes) bytes"
    by (rule buffer_write_ok [OF assms order_refl])
  then show "buffer_write buf bytes (length bytes) = Inr (put_bytes buf bytes)"
    "buffer_ok (put_bytes buf bytes)" "contents (put_bytes buf bytes) = contents buf @ bytes"
    by (simp_all add: put_bytes_def)
qed

interpretation buffer_sink: byte_sink buffer_ok contents put_bytes
  by unfold_locales (simp_all add: put_bytes_ok)

lemma load_loop_foldl:
  "buffer_ok buf \<Longrightarrow> \<forall>c\<in>set cs. c \<noteq> [] \<Longrightarrow>
   load_loop buf (map Some cs) n = Inr (foldl put_bytes buf cs, n + length (concat cs))"
  by (induction cs arbitrary: buf n) (simp_all add: put_bytes_ok)

section \<open>Properties\<close>

text \<open>C37: a write of bytes that are there always returns, whatever the number of blocks it fills;
  the buffer's contents grow by exactly these bytes and the blocks stay well formed.\<close>

theorem buffer_write_appends:
  assumes "buffer_ok buf" and "len \<le> length bytes"
  shows "\<exists>buf'. buffer_write buf bytes len = Inr buf' \<and> buffer_ok buf'
    \<and> contents buf' = contents buf @ take len bytes \<and> buffer_size buf' = buffer_size buf + len"
proof -
  obtain buf' where b: "buffer_write buf bytes len = Inr buf'" "buffer_ok buf'"
    "contents buf' = contents buf @ take len bytes" by (rule buffer_write_ok [OF assms])
  have "length (contents buf') = length (contents buf) + len" using b(3) assms(2) by simp
  then have "used buf' = used buf + len"
    using length_contents [OF b(2)] length_contents [OF assms(1)] by simp
  then show ?thesis using b by (auto simp: buffer_size_def)
qed

theorem buffer_write_appends_witness:
  "\<exists>buf'. buffer_write buffer_create (replicate 10000 7) 9000 = Inr buf' \<and> buffer_size buf' = 9000"
  using buffer_write_appends [OF buffer_create_ok(1), of 9000 "replicate 10000 7"]
  by (auto simp: buffer_size_def buffer_create_def)

text \<open>C38: reading gives back the first bytes written, and appending one buffer to another appends
  its contents; a length of -1 stands for all of them.\<close>

theorem buffer_read_append:
  assumes "buffer_ok buf" and "buffer_ok src" and "len \<le> buffer_size src"
  shows "buffer_read src len = take len (contents src)
    \<and> (\<exists>buf'. buffer_append buf src (Some len) = Inr (buf', len) \<and> buffer_ok buf'
        \<and> contents buf' = contents buf @ take len (contents src))
    \<and> (\<exists>buf'. buffer_append buf src None = Inr (buf', buffer_size src)
        \<and> contents buf' = contents buf @ contents src)"
proof -
  have s: "\<forall>b\<in>set (blocks src). length b = BLOCK_SIZE" using assms(2) by (simp add: buffer_ok_def)
  have c: "used src \<le> length (concat (blocks src))"
    using length_contents [OF assms(2)] by (simp add: contents_def)
  have t: "take m (concat (blocks src)) = take m (contents src)" if "m \<le> used src" for m
    using that by (simp add: contents_def min_def)
  have "contents src = take (used src) (concat (blocks src))" by (simp add: contents_def)
  then show ?thesis
    using append_loop_spec [OF s, of 0 len buf] append_loop_spec [OF s, of 0 "used src" buf]
      assms c t [of len] buffer_read_take [OF assms(2), of len]
    by (auto simp: buffer_append_def buffer_size_def)
qed

theorem buffer_read_append_witness:
  "buffer_read (put_bytes buffer_create [1, 2, 3]) 2 = [1, 2]
   \<and> (\<exists>buf'. buffer_append (put_bytes buffer_create [9]) (put_bytes buffer_create [1, 2, 3]) None
        = Inr (buf', 3) \<and> contents buf' = [9, 1, 2, 3])"
proof -
  have ok: "buffer_ok (put_bytes buffer_create bs)" "contents (put_bytes buffer_create bs) = bs" for bs
    using put_bytes_ok [OF buffer_create_ok(1), of bs] by (simp_all add: buffer_create_ok)
  have sz: "buffer_size (put_bytes buffer_create [1, 2, 3]) = 3"
    using length_contents [OF ok(1), of "[1, 2, 3]"] by (simp add: ok buffer_size_def)
  show ?thesis using buffer_read_append [OF ok(1) [of "[9]"] ok(1) [of "[1, 2, 3]"], of 2] sz ok by auto
qed

text \<open>loading a file gives exactly the bytes its reads returned, in one string with a null after
  them, however the reads were cut; a file that cannot be opened ends the program.\<close>

theorem buffer_load_string_ok:
  assumes "\<forall>c\<in>set cs. c \<noteq> []"
  shows "buffer_load_string (Some (map Some cs)) = Inr (concat cs @ [0], length (concat cs))
    \<and> buffer_load_string None = Inl Exited"
proof -
  let ?b = "foldl put_bytes buffer_create cs"
  have b: "buffer_ok ?b" "contents ?b = concat cs"
    using buffer_sink.foldl_put_inv [OF buffer_create_ok(1), of cs]
      buffer_sink.contents_foldl [OF buffer_create_ok(1), of cs] by (simp_all add: buffer_create_ok)
  then have "buffer_read ?b (length (concat cs)) = concat cs"
    using buffer_read_take [OF b(1), of "length (concat cs)"] length_contents [OF b(1)] by simp
  then show ?thesis using load_loop_foldl [OF buffer_create_ok(1) assms, of 0]
    by (simp add: buffer_load_string_def buffer_load_def)
qed

theorem buffer_load_string_ok_witness:
  "buffer_load_string (Some [Some [1, 2], Some [3]]) = Inr ([1, 2, 3, 0], 3)"
  using buffer_load_string_ok [of "[[1, 2], [3]]"] by simp

text \<open>an error of \<open>read\<close> is not seen as one: the unsigned count makes it a write of 2^64 - 1 bytes,
  far past the end of the read buffer.\<close>

theorem buffer_load_read_error:
  assumes "buffer_ok buf"
  shows "buffer_load buf (Some (None # rs)) = Inl Out_Of_Bounds"
proof -
  let ?w = "used buf mod BLOCK_SIZE" and ?z = "replicate BLOCK_SIZE (0 :: u8)"
  have w: "?w < BLOCK_SIZE" by (simp add: BLOCK_SIZE_def)
  define n where "n = BLOCK_SIZE - ?w"
  have n: "0 < n" "?w + n \<le> BLOCK_SIZE" "0 + n \<le> length ?z" "n \<le> 4096"
    using w by (simp_all add: n_def BLOCK_SIZE_def)
  obtain blk where cp: "copy_bytes (last (blocks buf)) ?w ?z 0 n = Inr blk"
    using write_round [OF assms n(1,2) refl n(3)] by blast
  define b1 where "b1 = buffer_push (buf\<lparr>blocks := butlast (blocks buf) @ [blk], used := used buf + n\<rparr>)"
  have "BLOCK_SIZE * (used buf div BLOCK_SIZE) + ?w = used buf" by simp
  then have "used buf + n = BLOCK_SIZE * (used buf div BLOCK_SIZE) + BLOCK_SIZE"
    using w unfolding n_def by linarith
  then have "(used buf + n) mod BLOCK_SIZE = 0" by simp
  moreover have "4096 \<le> 18446744073709551615 - n" using n(4) by arith
  ultimately have "write_loop buf ?z (2 ^ 64 - 1) ?w 0 n = write_loop b1 ?z (2 ^ 64 - 1 - n) 0 n BLOCK_SIZE"
    using n cp by (subst write_loop.simps) (simp add: b1_def Let_def BLOCK_SIZE_def)
  also have "\<dots> = Inl Out_Of_Bounds"
    using n by (subst write_loop.simps) (simp add: copy_bytes_def BLOCK_SIZE_def)
  finally have "write_loop buf ?z (2 ^ 64 - 1) ?w 0 n = Inl Out_Of_Bounds" .
  moreover have "n \<noteq> 0" "\<not> 2 ^ 64 - 1 < n" using n(1,4) by simp_all
  ultimately show ?thesis
    by (simp add: buffer_load_def buffer_write_def n_def [symmetric] del: diff_is_0_eq)
qed

theorem buffer_load_read_error_witness:
  "buffer_load buffer_create (Some [None, Some [1]]) = Inl Out_Of_Bounds"
  by (rule buffer_load_read_error [OF buffer_create_ok(1)])

end
