(* ===== verification/Utf8.thy ===== *)
theory Utf8
  imports Prelude
begin

text \<open>
  Characters as UTF-8, \<open>src/src/libinsomniac_vm/vm_utf8.c\<close>. A \<open>char\<close> is signed on x86-64, which
  shows where a byte becomes a character without a mask.
\<close>

definition BIT_MASK :: "nat \<Rightarrow> u32" where
  "BIT_MASK i = drop_bit (32 - i) (- 1)"

definition NOT_MASK :: "nat \<Rightarrow> u32" where
  "NOT_MASK i = push_bit i (- 1)"

definition UTF8_TAIL :: u8 where "UTF8_TAIL = 0x80"
definition UTF8_8TH_BIT :: u8 where "UTF8_8TH_BIT = 0x80"

text \<open>Only the low byte of the macro is ever used.\<close>

definition UTF8_HEAD :: "nat \<Rightarrow> u8" where
  "UTF8_HEAD i = ucast (push_bit (6 - i) 0xFE :: u32)"

fun head_count_loop :: "nat \<Rightarrow> u8 \<Rightarrow> nat \<Rightarrow> nat" where
  "head_count_loop 0 c count = count"
| "head_count_loop (Suc n) c count =
     (if c AND UTF8_8TH_BIT \<noteq> 0 \<and> count < 6
      then head_count_loop n (push_bit 1 c) (count + 1) else count)"

text \<open>The loop stops at a count of 6.\<close>

definition utf8_head_count_bytes :: "u8 \<Rightarrow> nat" where
  "utf8_head_count_bytes c =
     (let count = head_count_loop 7 c 0 in if count = 0 then 1 else count)"

text \<open>\<open>getchar\<close> on the bytes of the standard input; its value at the end of the file is -1.\<close>

fun getchar :: "u8 list \<Rightarrow> u8 option \<times> u8 list" where
  "getchar [] = (None, [])"
| "getchar (b # bs) = (Some b, bs)"

definition char_of_int :: "u8 option \<Rightarrow> u8" where
  "char_of_int c = (case c of None \<Rightarrow> - 1 | Some b \<Rightarrow> b)"

fun read_tail :: "nat \<Rightarrow> u8 list \<Rightarrow> u32 \<Rightarrow> u32 \<times> u8 list" where
  "read_tail 0 inp character = (character, inp)"
| "read_tail (Suc n) inp character =
     (let (in_c, inp) = getchar inp; c = char_of_int in_c
      in read_tail n inp (push_bit 6 character OR (scast c AND BIT_MASK 6)))"

definition utf8_read_char :: "u8 list \<Rightarrow> u32 \<times> u8 list" where
  "utf8_read_char inp =
     (let (in_c, inp) = getchar inp in
      case in_c of
        None \<Rightarrow> (- 1, inp)
      | Some c \<Rightarrow>
          let bytes = utf8_head_count_bytes c in
          if bytes = 1 then (scast c, inp)
          else let c = c AND NOT (UTF8_HEAD bytes)
            in read_tail (bytes - 1) inp (scast c))"

definition tail_byte :: "u32 \<Rightarrow> u8" where
  "tail_byte character = UTF8_TAIL OR ucast (character AND BIT_MASK 6)"

definition head_byte :: "nat \<Rightarrow> u32 \<Rightarrow> u8" where
  "head_byte i character = UTF8_HEAD i OR ucast character"

text \<open>The seven bytes of \<open>output\<close>. Every branch fills its bytes from the last to the first,
  shifting the character by six bits after each tail byte.\<close>

definition utf8_encode_char :: "u32 \<Rightarrow> u8 list" where
  "utf8_encode_char character =
     (let sh = (\<lambda>k. drop_bit (6 * k) character) in
      if character AND NOT_MASK 7 = 0 then
        [ucast (character AND BIT_MASK 7), 0, 0, 0, 0, 0, 0]
      else if character AND NOT_MASK 11 = 0 then
        [head_byte 1 (sh 1), tail_byte character, 0, 0, 0, 0, 0]
      else if character AND NOT_MASK 16 = 0 then
        [head_byte 2 (sh 2), tail_byte (sh 1), tail_byte character, 0, 0, 0, 0]
      else if character AND NOT_MASK 21 = 0 then
        [head_byte 3 (sh 3), tail_byte (sh 2), tail_byte (sh 1), tail_byte character, 0, 0, 0]
      else if character AND NOT_MASK 26 = 0 then
        [head_byte 4 (sh 4), tail_byte (sh 3), tail_byte (sh 2), tail_byte (sh 1),
         tail_byte character, 0, 0]
      else if character AND NOT_MASK 31 = 0 then
        [head_byte 5 (sh 5), tail_byte (sh 4), tail_byte (sh 3), tail_byte (sh 2),
         tail_byte (sh 1), tail_byte character, 0]
      else [0, 0, 0, 0, 0, 0, 0])"

section \<open>Round trip\<close>

text \<open>The number of bytes a character is encoded in.\<close>

definition utf8_length :: "u32 \<Rightarrow> nat" where
  "utf8_length ch = (if ch < 2 ^ 7 then 1 else if ch < 2 ^ 11 then 2 else if ch < 2 ^ 16 then 3
     else if ch < 2 ^ 21 then 4 else if ch < 2 ^ 26 then 5 else 6)"

lemma take_bit_self: "i < 32 \<Longrightarrow> take_bit i ch = ch \<longleftrightarrow> ch < 2 ^ i" for ch :: u32
proof -
  assume i: "i < 32"
  have "take_bit i ch = ch \<longleftrightarrow> take_bit i (unat ch) = unat ch"
    by (simp only: word_unat_eq_iff unsigned_take_bit_eq)
  also have "\<dots> \<longleftrightarrow> unat ch < 2 ^ i" by (rule take_bit_nat_eq_self_iff)
  also have "(2 :: nat) ^ i = unat (of_nat (2 ^ i) :: u32)"
    using i power_strict_increasing [of i 32 "2 :: nat"]
    by (simp only: unsigned_of_nat) (simp add: take_bit_nat_eq_self)
  finally show ?thesis by (simp add: word_less_nat_alt)
qed

lemma NOT_MASK_zero: "i < 32 \<Longrightarrow> ch AND NOT_MASK i = 0 \<longleftrightarrow> ch < 2 ^ i"
proof -
  assume i: "i < 32"
  have "ch AND NOT_MASK i = 0 \<longleftrightarrow> take_bit i ch = ch"
    unfolding NOT_MASK_def by (auto simp: bit_eq_iff [where 'a = "32 word"] bit_simps)
  then show ?thesis using take_bit_self [OF i] by simp
qed

text \<open>The bits of the two constants, in the form \<open>bit_simps\<close> leaves them.\<close>

lemma bit_80: "bit (128 :: int) n \<longleftrightarrow> n = 7"
proof -
  have "(128 :: int) = push_bit 7 1" by simp
  then show ?thesis by (simp only: bit_simps) auto
qed

lemma bit_FE: "bit (254 :: int) n \<longleftrightarrow> 0 < n \<and> n < 8"
proof -
  have "(254 :: int) = push_bit 1 (mask 7)" by (simp add: mask_eq_exp_minus_1)
  then show ?thesis by (simp only: bit_simps) auto
qed

lemma bit_UTF8_HEAD: "i \<le> 6 \<Longrightarrow> bit (UTF8_HEAD i) n \<longleftrightarrow> n < 8 \<and> 7 - i \<le> n"
  unfolding UTF8_HEAD_def by (auto simp: bit_simps bit_FE)

lemma bit_tail_byte: "bit (tail_byte ch) n \<longleftrightarrow> n = 7 \<or> n < 6 \<and> bit ch n"
  unfolding tail_byte_def BIT_MASK_def UTF8_TAIL_def by (auto simp: bit_simps bit_80)

lemma bit_small: "ch < 2 ^ k \<Longrightarrow> k < 32 \<Longrightarrow> bit (ch :: u32) n \<Longrightarrow> n < k"
  using take_bit_self [of k ch] by (metis bit_take_bit_iff)

lemma head_count:
  assumes "\<And>n. n < 8 \<Longrightarrow> 7 - i \<le> n \<Longrightarrow> bit c n" "\<not> bit c (6 - i)" "0 < i" "i < 6"
  shows "utf8_head_count_bytes c = i + 1"
proof -
  have t: "c' AND UTF8_8TH_BIT \<noteq> 0 \<longleftrightarrow> bit c' 7" for c' :: u8
    unfolding UTF8_8TH_BIT_def by (auto simp: bit_eq_iff [where 'a = "8 word"] bit_simps bit_80)
  define q where "q k = head_count_loop (7 - k) (push_bit k c) k" for k
  have q: "q k = (if bit c (7 - k) \<and> k < 6 then q (Suc k) else k)" if "k < 7" for k
  proof -
    obtain n where n: "7 - k = Suc n" using \<open>k < 7\<close> by (cases "7 - k") auto
    then have "n = 7 - Suc k" by simp
    then show ?thesis using that n by (auto simp: q_def t bit_simps)
  qed
  have "q 0 = q k" if "k \<le> i + 1" for k
    using that
  proof (induction k)
    case (Suc k)
    then have "bit c (7 - k)" "k < 6" using assms by auto
    then show ?case using Suc q [of k] by simp
  qed simp
  then have "q 0 = q (i + 1)" by simp
  also have "q (i + 1) = i + 1" using q [of "i + 1"] assms(2,4) by simp
  finally have "head_count_loop 7 c 0 = i + 1" by (simp add: q_def)
  then show ?thesis by (simp add: utf8_head_count_bytes_def)
qed

lemma head_byte_count:
  assumes "ch < 2 ^ (6 - i)" "0 < i" "i < 6"
  shows "utf8_head_count_bytes (head_byte i ch) = i + 1"
proof (rule head_count)
  have "6 - i < 32" using assms(2) by simp
  from bit_small [OF assms(1) this, of "6 - i"] have "\<not> bit ch (6 - i)" by auto
  then show "\<not> bit (head_byte i ch) (6 - i)"
    using assms(2,3) by (auto simp: head_byte_def bit_simps bit_UTF8_HEAD)
qed (use assms in \<open>auto simp: head_byte_def bit_simps bit_UTF8_HEAD\<close>)

lemma head_byte_value:
  assumes "ch < 2 ^ (6 - i)" "0 < i" "i < 6"
  shows "scast (head_byte i ch AND NOT (UTF8_HEAD (i + 1))) = ch"
proof (rule bit_word_eqI)
  fix n assume "n < LENGTH(32)"
  then show "bit (scast (head_byte i ch AND NOT (UTF8_HEAD (i + 1))) :: u32) n = bit ch n"
    using assms(2,3) bit_small [OF assms(1), of n]
    by (auto simp: head_byte_def bit_simps bit_UTF8_HEAD min_def)
qed

lemma tail_byte_value: "scast (tail_byte ch) AND BIT_MASK 6 = take_bit 6 ch"
proof (rule bit_word_eqI)
  fix n assume "n < LENGTH(32)"
  then show "bit (scast (tail_byte ch) AND BIT_MASK 6 :: u32) n = bit (take_bit 6 ch) n"
    by (auto simp: BIT_MASK_def bit_simps bit_tail_byte)
qed

lemma join_bits: "push_bit 6 (drop_bit 6 ch) OR take_bit 6 ch = (ch :: u32)"
  by (rule bit_word_eqI) (auto simp: bit_simps)

text \<open>The tail bytes of a character, the last one for its lowest six bits.\<close>

definition tail_bytes :: "nat \<Rightarrow> u32 \<Rightarrow> u8 list" where
  "tail_bytes n ch = map (\<lambda>k. tail_byte (drop_bit (6 * k) ch)) (rev [0..<n])"

lemma read_tail_bytes: "read_tail n (tail_bytes n ch @ rest) (drop_bit (6 * n) ch) = (ch, rest)"
proof (induction n)
  case (Suc n)
  have "push_bit 6 (drop_bit (6 * Suc n) ch) OR take_bit 6 (drop_bit (6 * n) ch) = drop_bit (6 * n) ch"
    using join_bits [of "drop_bit (6 * n) ch"] by (simp add: drop_bit_drop_bit add.commute)
  then show ?case using Suc
    by (simp add: tail_bytes_def tail_byte_value char_of_int_def)
qed (simp add: tail_bytes_def)

lemma read_encoded:
  assumes "ch < 2 ^ (6 + 5 * i)" "0 < i" "i < 6"
  shows "utf8_read_char (head_byte i (drop_bit (6 * i) ch) # tail_bytes i ch @ rest) = (ch, rest)"
proof -
  have small: "drop_bit (6 * i) ch < 2 ^ (6 - i)"
  proof -
    have "take_bit (6 - i) (drop_bit (6 * i) ch) = drop_bit (6 * i) ch"
    proof (rule bit_word_eqI)
      fix n assume "n < LENGTH(32)"
      have "bit ch (6 * i + n) \<Longrightarrow> 6 * i + n < 6 + 5 * i"
        using bit_small [OF assms(1)] assms(3) by simp
      then show "bit (take_bit (6 - i) (drop_bit (6 * i) ch)) n = bit (drop_bit (6 * i) ch) n"
        by (auto simp: bit_simps)
    qed
    then show ?thesis using take_bit_self [of "6 - i"] by simp
  qed
  show ?thesis
    using head_byte_count [OF small assms(2,3)] head_byte_value [OF small assms(2,3)]
      read_tail_bytes [of i ch rest] assms(2)
    by (simp add: utf8_read_char_def)
qed


lemma tail_bytes_simps:
  "tail_bytes 0 ch = []"
  "tail_bytes (Suc n) ch = tail_byte (drop_bit (6 * n) ch) # tail_bytes n ch"
  by (simp_all add: tail_bytes_def)

lemma encode_bytes:
  assumes "ch < 2 ^ 31"
  shows "take (utf8_length ch) (utf8_encode_char ch) = (if ch < 2 ^ 7 then [ucast ch]
    else (let i = utf8_length ch - 1 in head_byte i (drop_bit (6 * i) ch) # tail_bytes i ch))"
proof -
  have "ch AND BIT_MASK 7 = ch" if "ch < 2 ^ 7"
  proof (rule bit_word_eqI)
    fix n assume "n < LENGTH(32)"
    show "bit (ch AND BIT_MASK 7) n = bit ch n"
      using bit_small [OF that, of n] by (auto simp: BIT_MASK_def bit_simps)
  qed
  then show ?thesis using assms NOT_MASK_zero [of 7 ch] NOT_MASK_zero [of 11 ch] NOT_MASK_zero [of 16 ch]
      NOT_MASK_zero [of 21 ch] NOT_MASK_zero [of 26 ch] NOT_MASK_zero [of 31 ch]
    by (simp add: utf8_encode_char_def utf8_length_def Let_def numeral_eq_Suc tail_bytes_simps
        del: power.simps)
qed

section \<open>Properties\<close>

text \<open>C39: reading back an encoded character gives the character and leaves the input after it, for
  every character below 2^31, whatever the number of bytes it takes.\<close>

theorem utf8_round_trip:
  assumes "ch < 2 ^ 31"
  shows "utf8_read_char (take (utf8_length ch) (utf8_encode_char ch) @ rest) = (ch, rest)"
proof (cases "ch < 2 ^ 7")
  case True
  have "\<not> bit (ucast ch :: u8) 7" using bit_small [OF True, of 7] by (auto simp: bit_simps)
  then have "utf8_head_count_bytes (ucast ch) = 1"
    by (auto simp: utf8_head_count_bytes_def numeral_eq_Suc UTF8_8TH_BIT_def bit_eq_iff [where 'a = "8 word"] bit_simps bit_80)
  moreover have "scast (ucast ch :: u8) = ch"
  proof (rule bit_word_eqI)
    fix n assume "n < LENGTH(32)"
    then show "bit (scast (ucast ch :: u8) :: u32) n = bit ch n"
      using bit_small [OF True, of n] bit_small [OF True, of 7] by (auto simp: bit_simps min_def)
  qed
  ultimately show ?thesis using True
    by (simp add: encode_bytes [OF assms] utf8_read_char_def)
next
  case False
  have i: "0 < utf8_length ch - 1" "utf8_length ch - 1 < 6"
    using False by (simp_all add: utf8_length_def)
  have "ch < 2 ^ (6 + 5 * (utf8_length ch - 1))" using False assms by (auto simp: utf8_length_def)
  from read_encoded [OF this i, of rest] show ?thesis using False
    by (simp add: encode_bytes [OF assms] Let_def)
qed

theorem utf8_round_trip_witness:
  "utf8_read_char ([0xE2, 0x82, 0xAC] @ [0x41]) = (0x20AC, [0x41])"
proof -
  have "take (utf8_length 0x20AC) (utf8_encode_char 0x20AC) = [0xE2, 0x82, 0xAC]" by code_simp
  then show ?thesis using utf8_round_trip [of "0x20AC" "[0x41]"] by simp
qed

text \<open>the encoding is a C string: the bytes of a character other than the null one are not null
  and the rest of the seven is; a value of 2^31 or more is encoded as the empty string.\<close>

theorem utf8_encode_terminated:
  "length (utf8_encode_char ch) = 7
   \<and> (2 ^ 31 \<le> ch \<longrightarrow> c_str (utf8_encode_char ch) = [])
   \<and> (0 < ch \<and> ch < 2 ^ 31 \<longrightarrow> c_str (utf8_encode_char ch) = take (utf8_length ch) (utf8_encode_char ch))"
proof (intro conjI impI)
  show len: "length (utf8_encode_char ch) = 7" by (simp add: utf8_encode_char_def Let_def)
  note masks = NOT_MASK_zero [of 7 ch] NOT_MASK_zero [of 11 ch] NOT_MASK_zero [of 16 ch]
    NOT_MASK_zero [of 21 ch] NOT_MASK_zero [of 26 ch] NOT_MASK_zero [of 31 ch]
  show "c_str (utf8_encode_char ch) = []" if "2 ^ 31 \<le> ch"
  proof -
    have "\<not> ch < 128" "\<not> ch < 2048" "\<not> ch < 65536" "\<not> ch < 2097152" "\<not> ch < 67108864"
      "\<not> ch < 2147483648"
      using that by (simp_all add: word_less_nat_alt word_le_nat_alt)
    then show ?thesis using masks by (simp add: utf8_encode_char_def c_str_Cons)
  qed
  assume ch: "0 < ch \<and> ch < 2 ^ 31"
  have tb: "tail_byte x \<noteq> 0" for x
    using bit_tail_byte [of x 7] by auto
  have hb: "head_byte i x \<noteq> 0" if "0 < i" "i < 6" for i x
  proof -
    have "bit (head_byte i x) 7" using that by (simp add: head_byte_def bit_simps bit_UTF8_HEAD)
    then show ?thesis by auto
  qed
  have "0 \<notin> set (take (utf8_length ch) (utf8_encode_char ch))"
  proof (cases "ch < 2 ^ 7")
    case True
    have "(ucast ch :: u8) \<noteq> 0"
    proof
      assume z: "(ucast ch :: u8) = 0"
      have "ch = 0"
      proof (rule bit_word_eqI)
        fix n assume "n < LENGTH(32)"
        have "\<not> bit (ucast ch :: u8) n" by (simp add: z)
        then show "bit ch n = bit 0 n" using bit_small [OF True, of n] by (auto simp: bit_simps)
      qed
      with ch show False by simp
    qed
    then show ?thesis using True ch by (simp add: encode_bytes)
  next
    case False
    then have "0 < utf8_length ch - 1" "utf8_length ch - 1 < 6" by (simp_all add: utf8_length_def)
    then show ?thesis using False ch hb tb by (auto simp: encode_bytes Let_def tail_bytes_def)
  qed
  moreover have "utf8_length ch < 7" "utf8_encode_char ch ! utf8_length ch = 0"
    using ch masks by (auto simp: utf8_encode_char_def utf8_length_def Let_def)
  moreover have "c_str xs = take n xs" if "n < length xs" "0 \<notin> set (take n xs)" "xs ! n = 0" for n and xs :: "u8 list"
  proof -
    have "xs = take n xs @ 0 # drop (Suc n) xs" using that(1,3) by (metis id_take_nth_drop)
    then show ?thesis using that(2) by (metis c_str_append_zero)
  qed
  ultimately show "c_str (utf8_encode_char ch) = take (utf8_length ch) (utf8_encode_char ch)"
    using len by simp
qed

theorem utf8_encode_terminated_witness:
  "c_str (utf8_encode_char 0x3BB) = [0xCE, 0xBB]"
proof -
  have "take (utf8_length 0x3BB) (utf8_encode_char 0x3BB) = [0xCE, 0xBB]" by code_simp
  then show ?thesis using utf8_encode_terminated [of "0x3BB"] by simp
qed

end
