(* ===== verification/Ops.thy ===== *)
theory Ops
  imports Prelude
begin

text \<open>
  The instruction codes, \<open>src/src/include/ops.h\<close>: an enumeration from 0, in the order of the header.
\<close>

definition OP_NOP :: u8 where "OP_NOP = 0"
definition OP_LIT_EMPTY :: u8 where "OP_LIT_EMPTY = 1"
definition OP_LIT_FIXNUM :: u8 where "OP_LIT_FIXNUM = 2"
definition OP_LIT_CHAR :: u8 where "OP_LIT_CHAR = 3"
definition OP_LIT_TRUE :: u8 where "OP_LIT_TRUE = 4"
definition OP_LIT_FALSE :: u8 where "OP_LIT_FALSE = 5"
definition OP_LIT_STRING :: u8 where "OP_LIT_STRING = 6"
definition OP_LIT_SYMBOL :: u8 where "OP_LIT_SYMBOL = 7"
definition OP_MAKE_SYMBOL :: u8 where "OP_MAKE_SYMBOL = 8"
definition OP_CONS :: u8 where "OP_CONS = 9"
definition OP_CAR :: u8 where "OP_CAR = 10"
definition OP_CDR :: u8 where "OP_CDR = 11"
definition OP_SET_CAR :: u8 where "OP_SET_CAR = 12"
definition OP_SET_CDR :: u8 where "OP_SET_CDR = 13"
definition OP_MAKE_VECTOR :: u8 where "OP_MAKE_VECTOR = 14"
definition OP_MAKE_BYTE_VECTOR :: u8 where "OP_MAKE_BYTE_VECTOR = 15"
definition OP_MAKE_RECORD :: u8 where "OP_MAKE_RECORD = 16"
definition OP_INDEX_SET :: u8 where "OP_INDEX_SET = 17"
definition OP_INDEX_REF :: u8 where "OP_INDEX_REF = 18"
definition OP_VECTOR_LENGTH :: u8 where "OP_VECTOR_LENGTH = 19"
definition OP_STRING_BYTE_VECTOR :: u8 where "OP_STRING_BYTE_VECTOR = 20"
definition OP_BYTE_VECTOR_STRING :: u8 where "OP_BYTE_VECTOR_STRING = 21"
definition OP_CALL :: u8 where "OP_CALL = 22"
definition OP_ADOPT :: u8 where "OP_ADOPT = 23"
definition OP_PROC :: u8 where "OP_PROC = 24"
definition OP_JMP :: u8 where "OP_JMP = 25"
definition OP_JNF :: u8 where "OP_JNF = 26"
definition OP_RET :: u8 where "OP_RET = 27"
definition OP_JIN :: u8 where "OP_JIN = 28"
definition OP_CALL_IN :: u8 where "OP_CALL_IN = 29"
definition OP_TAIL_CALL_IN :: u8 where "OP_TAIL_CALL_IN = 30"
definition OP_CONTINUE :: u8 where "OP_CONTINUE = 31"
definition OP_RESTORE :: u8 where "OP_RESTORE = 32"
definition OP_BIND :: u8 where "OP_BIND = 33"
definition OP_SET :: u8 where "OP_SET = 34"
definition OP_READ :: u8 where "OP_READ = 35"
definition OP_SWAP :: u8 where "OP_SWAP = 36"
definition OP_ROT :: u8 where "OP_ROT = 37"
definition OP_DUP_REF :: u8 where "OP_DUP_REF = 38"
definition OP_DROP :: u8 where "OP_DROP = 39"
definition OP_DEPTH :: u8 where "OP_DEPTH = 40"
definition OP_ADD :: u8 where "OP_ADD = 41"
definition OP_SUB :: u8 where "OP_SUB = 42"
definition OP_MUL :: u8 where "OP_MUL = 43"
definition OP_DIV :: u8 where "OP_DIV = 44"
definition OP_MOD :: u8 where "OP_MOD = 45"
definition OP_NUMERIC_EQUAL :: u8 where "OP_NUMERIC_EQUAL = 46"
definition OP_NUMERIC_LT :: u8 where "OP_NUMERIC_LT = 47"
definition OP_NUMERIC_GT :: u8 where "OP_NUMERIC_GT = 48"
definition OP_NOT :: u8 where "OP_NOT = 49"
definition OP_EQ :: u8 where "OP_EQ = 50"
definition OP_OUTPUT :: u8 where "OP_OUTPUT = 51"
definition OP_FD_READ :: u8 where "OP_FD_READ = 52"
definition OP_FD_WRITE :: u8 where "OP_FD_WRITE = 53"
definition OP_OPEN :: u8 where "OP_OPEN = 54"
definition OP_CLOSE :: u8 where "OP_CLOSE = 55"
definition OP_SLURP :: u8 where "OP_SLURP = 56"
definition OP_ASM :: u8 where "OP_ASM = 57"
definition OP_IMPORT :: u8 where "OP_IMPORT = 58"
definition OP_CALL_EXT :: u8 where "OP_CALL_EXT = 59"
definition OP_IS_FIXNUM :: u8 where "OP_IS_FIXNUM = 60"
definition OP_IS_BOOL :: u8 where "OP_IS_BOOL = 61"
definition OP_IS_CHAR :: u8 where "OP_IS_CHAR = 62"
definition OP_IS_STRING :: u8 where "OP_IS_STRING = 63"
definition OP_IS_SYMBOL :: u8 where "OP_IS_SYMBOL = 64"
definition OP_IS_VECTOR :: u8 where "OP_IS_VECTOR = 65"
definition OP_IS_BYTE_VECTOR :: u8 where "OP_IS_BYTE_VECTOR = 66"
definition OP_IS_RECORD :: u8 where "OP_IS_RECORD = 67"
definition OP_IS_PAIR :: u8 where "OP_IS_PAIR = 68"
definition OP_IS_EMPTY :: u8 where "OP_IS_EMPTY = 69"
definition OP_IS_CLOSURE :: u8 where "OP_IS_CLOSURE = 70"
definition OP_IS_LIBRARY :: u8 where "OP_IS_LIBRARY = 71"
definition OP_IS_SELF :: u8 where "OP_IS_SELF = 72"
definition OP_SET_EXIT :: u8 where "OP_SET_EXIT = 73"
definition OP_GC_STATS :: u8 where "OP_GC_STATS = 74"
definition OP_MAX_INS :: nat where "OP_MAX_INS = 75"

lemmas op_codes =
  OP_NOP_def OP_LIT_EMPTY_def OP_LIT_FIXNUM_def OP_LIT_CHAR_def OP_LIT_TRUE_def
  OP_LIT_FALSE_def OP_LIT_STRING_def OP_LIT_SYMBOL_def OP_MAKE_SYMBOL_def OP_CONS_def
  OP_CAR_def OP_CDR_def OP_SET_CAR_def OP_SET_CDR_def OP_MAKE_VECTOR_def
  OP_MAKE_BYTE_VECTOR_def OP_MAKE_RECORD_def OP_INDEX_SET_def OP_INDEX_REF_def OP_VECTOR_LENGTH_def
  OP_STRING_BYTE_VECTOR_def OP_BYTE_VECTOR_STRING_def OP_CALL_def OP_ADOPT_def OP_PROC_def
  OP_JMP_def OP_JNF_def OP_RET_def OP_JIN_def OP_CALL_IN_def
  OP_TAIL_CALL_IN_def OP_CONTINUE_def OP_RESTORE_def OP_BIND_def OP_SET_def
  OP_READ_def OP_SWAP_def OP_ROT_def OP_DUP_REF_def OP_DROP_def
  OP_DEPTH_def OP_ADD_def OP_SUB_def OP_MUL_def OP_DIV_def
  OP_MOD_def OP_NUMERIC_EQUAL_def OP_NUMERIC_LT_def OP_NUMERIC_GT_def OP_NOT_def
  OP_EQ_def OP_OUTPUT_def OP_FD_READ_def OP_FD_WRITE_def OP_OPEN_def
  OP_CLOSE_def OP_SLURP_def OP_ASM_def OP_IMPORT_def OP_CALL_EXT_def
  OP_IS_FIXNUM_def OP_IS_BOOL_def OP_IS_CHAR_def OP_IS_STRING_def OP_IS_SYMBOL_def
  OP_IS_VECTOR_def OP_IS_BYTE_VECTOR_def OP_IS_RECORD_def OP_IS_PAIR_def OP_IS_EMPTY_def
  OP_IS_CLOSURE_def OP_IS_LIBRARY_def OP_IS_SELF_def OP_SET_EXIT_def OP_GC_STATS_def

text \<open>All instructions, in order; \<open>OP_MAX_INS\<close> is their number.\<close>

definition all_ops :: "u8 list" where
  "all_ops = [
     OP_NOP, OP_LIT_EMPTY, OP_LIT_FIXNUM, OP_LIT_CHAR, OP_LIT_TRUE,
     OP_LIT_FALSE, OP_LIT_STRING, OP_LIT_SYMBOL, OP_MAKE_SYMBOL, OP_CONS,
     OP_CAR, OP_CDR, OP_SET_CAR, OP_SET_CDR, OP_MAKE_VECTOR,
     OP_MAKE_BYTE_VECTOR, OP_MAKE_RECORD, OP_INDEX_SET, OP_INDEX_REF, OP_VECTOR_LENGTH,
     OP_STRING_BYTE_VECTOR, OP_BYTE_VECTOR_STRING, OP_CALL, OP_ADOPT, OP_PROC,
     OP_JMP, OP_JNF, OP_RET, OP_JIN, OP_CALL_IN,
     OP_TAIL_CALL_IN, OP_CONTINUE, OP_RESTORE, OP_BIND, OP_SET,
     OP_READ, OP_SWAP, OP_ROT, OP_DUP_REF, OP_DROP,
     OP_DEPTH, OP_ADD, OP_SUB, OP_MUL, OP_DIV,
     OP_MOD, OP_NUMERIC_EQUAL, OP_NUMERIC_LT, OP_NUMERIC_GT, OP_NOT,
     OP_EQ, OP_OUTPUT, OP_FD_READ, OP_FD_WRITE, OP_OPEN,
     OP_CLOSE, OP_SLURP, OP_ASM, OP_IMPORT, OP_CALL_EXT,
     OP_IS_FIXNUM, OP_IS_BOOL, OP_IS_CHAR, OP_IS_STRING, OP_IS_SYMBOL,
     OP_IS_VECTOR, OP_IS_BYTE_VECTOR, OP_IS_RECORD, OP_IS_PAIR, OP_IS_EMPTY,
     OP_IS_CLOSURE, OP_IS_LIBRARY, OP_IS_SELF, OP_SET_EXIT, OP_GC_STATS]"

lemma all_ops_upt: "map unat all_ops = [0..<OP_MAX_INS]"
  unfolding all_ops_def OP_MAX_INS_def by (simp add: op_codes upt_rec)

lemma length_all_ops: "length all_ops = OP_MAX_INS"
proof -
  have "length (map unat all_ops) = OP_MAX_INS" unfolding all_ops_upt by simp
  then show ?thesis by simp
qed

lemma distinct_all_ops: "distinct all_ops"
proof -
  have "distinct (map unat all_ops)" unfolding all_ops_upt by (rule distinct_upt)
  then show ?thesis by (simp only: distinct_map)
qed

end
