(* ===== verification/Vm_State.thy ===== *)
theory Vm_State
  imports Hash_Props Buffer Utf8 Ops
begin

text \<open>
  The state of the virtual machine, \<open>src/src/libinsomniac_vm\<close>: memory cells, environments, the
  stack, and the functions of \<open>vm_alloc.c\<close>, \<open>vm_util.c\<close>, \<open>vm_env.c\<close> and \<open>vm_core.c\<close> the
  instructions are built from.

  Every kind of block has its own store, all with one counter of fresh addresses: objects, byte
  blocks, blocks of object pointers, environments and hash tables. The collector appears through
  its contract only (\<open>allocated\<close> in \<open>Gc_Alloc\<close>): a new block is zeroed and has an address no
  other block has, and a block in use keeps its contents. The registers \<open>reg1\<close> to \<open>reg3\<close> and the
  calls that register roots exist for the collector and have no part here. \<open>out\<close> is what has been
  printed, \<open>out_depth\<close> the static variable of \<open>output_object\<close>, and \<open>world\<close> what lies outside the
  process.
\<close>

section \<open>Cells\<close>

datatype cell_type =
    FIXNUM | BOOL | CHAR | STRING | SYMBOL | VECTOR | BYTE_VECTOR | RECORD | PAIR | EMPTY
  | CLOSURE | LIBRARY

text \<open>
  The union of a cell, by the member last written. Strings, vectors and byte vectors have the same
  layout, a length and a pointer. Reading another member reads the same bytes again, on a
  little-endian 64-bit machine; \<open>Zeroed\<close> is the union of a new cell.
\<close>

datatype cell_value =
    Zeroed
  | Integer vm_int
  | Pair addr addr
  | Boolean bool
  | Character u32
  | Block vm_int addr
  | Closure addr
  | Library addr addr vm_int

fun words_of :: "cell_value \<Rightarrow> u64 \<times> u64 \<times> u64" where
  "words_of Zeroed = (0, 0, 0)"
| "words_of (Integer i) = (i, 0, 0)"
| "words_of (Pair a d) = (of_nat a, of_nat d, 0)"
| "words_of (Boolean b) = (if b then 1 else 0, 0, 0)"
| "words_of (Character c) = (ucast c, 0, 0)"
| "words_of (Block n p) = (n, of_nat p, 0)"
| "words_of (Closure e) = (of_nat e, 0, 0)"
| "words_of (Library h f n) = (of_nat h, of_nat f, n)"

definition integer :: "cell_value \<Rightarrow> vm_int" where
  "integer v = fst (words_of v)"

definition boolean :: "cell_value \<Rightarrow> bool" where
  "boolean v \<longleftrightarrow> (case v of Boolean b \<Rightarrow> b | _ \<Rightarrow> take_bit 8 (fst (words_of v)) \<noteq> 0)"

definition character :: "cell_value \<Rightarrow> u32" where
  "character v = (case v of Character c \<Rightarrow> c | _ \<Rightarrow> ucast (fst (words_of v)))"

definition pair :: "cell_value \<Rightarrow> addr \<times> addr" where
  "pair v = (case v of Pair a d \<Rightarrow> (a, d)
     | _ \<Rightarrow> (unat (fst (words_of v)), unat (fst (snd (words_of v)))))"

definition block :: "cell_value \<Rightarrow> vm_int \<times> addr" where
  "block v = (case v of Block n p \<Rightarrow> (n, p)
     | _ \<Rightarrow> (fst (words_of v), unat (fst (snd (words_of v)))))"

definition closure :: "cell_value \<Rightarrow> addr" where
  "closure v = (case v of Closure e \<Rightarrow> e | _ \<Rightarrow> unat (fst (words_of v)))"

definition library :: "cell_value \<Rightarrow> addr \<times> addr \<times> vm_int" where
  "library v = (case v of Library h f n \<Rightarrow> (h, f, n)
     | _ \<Rightarrow> (case words_of v of (a, b, c) \<Rightarrow> (unat a, unat b, c)))"

record object =
  otype :: cell_type
  ovalue :: cell_value

section \<open>Environments and the machine\<close>

record debug_range =
  dr_file :: "u8 list"
  dr_line :: u64
  dr_column :: u64
  start_addr :: u64

record env =
  code_ref :: addr
  code_length :: u64
  ip :: u64
  bindings :: addr
  handler :: bool
  handler_addr :: u64
  parent :: addr
  debug :: "debug_range list"

record 'w vm =
  objs :: "addr \<Rightarrow> object option"
  blobs :: "addr \<Rightarrow> u8 list option"
  vecs :: "addr \<Rightarrow> addr list option"
  envs :: "addr \<Rightarrow> env option"
  tables :: "addr \<Rightarrow> hash_table option"
  hs :: "(addr, addr) hstore"
  next_addr :: addr
  stack_root :: addr
  depth :: vm_int
  empty :: addr
  vm_true :: addr
  vm_false :: addr
  symbol_table :: addr
  import_table :: addr
  env :: addr
  exit_status :: u32
  out :: "u8 list"
  out_depth :: nat
  world :: 'w

section \<open>Allocation\<close>

text \<open>
  The size of a request and the header are added in 64 bits, so a small negative size wraps to a
  block without usable bytes, and one that stays huge is refused by \<open>calloc\<close>: the collector then
  writes to the null pointer.
\<close>

definition block_size :: "u64 \<Rightarrow> nat res" where
  "block_size n =
     (if unat n < 2 ^ 63 - 64 then Inr (unat n)
      else if 2 ^ 64 - 32 \<le> unat n then Inr 0
      else Inl Alloc_Failed)"

definition alloc_object :: "'w vm \<Rightarrow> object \<Rightarrow> 'w vm \<times> addr" where
  "alloc_object vm ob =
     (vm\<lparr>objs := (objs vm)(next_addr vm \<mapsto> ob), next_addr := next_addr vm + 1\<rparr>, next_addr vm)"

definition alloc_blob :: "'w vm \<Rightarrow> u64 \<Rightarrow> ('w vm \<times> addr) res" where
  "alloc_blob vm n =
     rbind (block_size n) (\<lambda>n.
       Inr (vm\<lparr>blobs := (blobs vm)(next_addr vm \<mapsto> replicate n 0), next_addr := next_addr vm + 1\<rparr>,
            next_addr vm))"

text \<open>\<open>gc_alloc_pointer_array\<close> multiplies by the size of a pointer.\<close>

definition alloc_vec :: "'w vm \<Rightarrow> u64 \<Rightarrow> ('w vm \<times> addr) res" where
  "alloc_vec vm cells =
     rbind (block_size (8 * cells)) (\<lambda>n.
       Inr (vm\<lparr>vecs := (vecs vm)(next_addr vm \<mapsto> replicate (n div 8) 0), next_addr := next_addr vm + 1\<rparr>,
            next_addr vm))"

definition alloc_env :: "'w vm \<Rightarrow> env \<Rightarrow> 'w vm \<times> addr" where
  "alloc_env vm e =
     (vm\<lparr>envs := (envs vm)(next_addr vm \<mapsto> e), next_addr := next_addr vm + 1\<rparr>, next_addr vm)"

definition alloc_table :: "'w vm \<Rightarrow> hash_table \<Rightarrow> 'w vm \<times> addr" where
  "alloc_table vm t =
     (vm\<lparr>tables := (tables vm)(next_addr vm \<mapsto> t), next_addr := next_addr vm + 1\<rparr>, next_addr vm)"

definition get_obj :: "'w vm \<Rightarrow> addr \<Rightarrow> object res" where
  "get_obj vm a = deref (objs vm a)"

definition get_env :: "'w vm \<Rightarrow> addr \<Rightarrow> env res" where
  "get_env vm a = deref (envs vm a)"

definition set_obj :: "'w vm \<Rightarrow> addr \<Rightarrow> object \<Rightarrow> 'w vm" where
  "set_obj vm a ob = vm\<lparr>objs := (objs vm)(a \<mapsto> ob)\<rparr>"

definition upd_env :: "'w vm \<Rightarrow> addr \<Rightarrow> (env \<Rightarrow> env) \<Rightarrow> 'w vm res" where
  "upd_env vm a f = rbind (get_env vm a) (\<lambda>e. Inr (vm\<lparr>envs := (envs vm)(a \<mapsto> f e)\<rparr>))"

definition vm_alloc :: "'w vm \<Rightarrow> cell_type \<Rightarrow> 'w vm \<times> addr" where
  "vm_alloc vm ty =
     (if ty = EMPTY \<and> empty vm \<noteq> 0 then (vm, empty vm)
      else alloc_object vm \<lparr>otype = ty, ovalue = Zeroed\<rparr>)"

text \<open>A new cell of a type and the value its fields are set to.\<close>

definition vm_new :: "'w vm \<Rightarrow> cell_type \<Rightarrow> cell_value \<Rightarrow> 'w vm \<times> addr" where
  "vm_new vm ty v =
     (case vm_alloc vm ty of (vm, a) \<Rightarrow> (set_obj vm a \<lparr>otype = ty, ovalue = v\<rparr>, a))"

text \<open>\<open>strncpy(bytes, buf, length)\<close> with the length converted to \<open>size_t\<close>, into the new block.\<close>

definition vm_make_string :: "'w vm \<Rightarrow> u8 list \<Rightarrow> vm_int \<Rightarrow> ('w vm \<times> addr) res" where
  "vm_make_string vm buf len =
     (let (vm, ob) = vm_alloc vm STRING in
      rbind (alloc_blob vm (len + 1)) (\<lambda>(vm, p).
      rbind (deref (blobs vm p)) (\<lambda>dest.
        if length dest < unat len then Inl Out_Of_Bounds
        else let dest = strncpy_bytes buf (unat len) @ drop (unat len) dest
          in Inr (set_obj (vm\<lparr>blobs := (blobs vm)(p \<mapsto> dest)\<rparr>) ob \<lparr>otype = STRING, ovalue = Block len p\<rparr>,
                  ob))))"

definition vm_make_byte_vector :: "'w vm \<Rightarrow> vm_int \<Rightarrow> ('w vm \<times> addr) res" where
  "vm_make_byte_vector vm len =
     (let (vm, ob) = vm_alloc vm BYTE_VECTOR in
      rbind (alloc_blob vm len) (\<lambda>(vm, p).
        Inr (set_obj vm ob \<lparr>otype = BYTE_VECTOR, ovalue = Block len p\<rparr>, ob)))"

definition vm_make_vector :: "'w vm \<Rightarrow> vm_int \<Rightarrow> ('w vm \<times> addr) res" where
  "vm_make_vector vm len =
     (let (vm, ob) = vm_alloc vm VECTOR in
      rbind (alloc_vec vm len) (\<lambda>(vm, p).
        Inr (set_obj vm ob \<lparr>otype = VECTOR, ovalue = Block len p\<rparr>, ob)))"

definition vm_make_record :: "'w vm \<Rightarrow> vm_int \<Rightarrow> ('w vm \<times> addr) res" where
  "vm_make_record vm len =
     rbind (vm_make_vector vm (len + 1)) (\<lambda>(vm, ob).
     rbind (get_obj vm ob) (\<lambda>o'. Inr (set_obj vm ob (o'\<lparr>otype := RECORD\<rparr>), ob)))"

definition cons :: "'w vm \<Rightarrow> addr \<Rightarrow> addr \<Rightarrow> 'w vm \<times> addr" where
  "cons vm car cdr = vm_new vm PAIR (Pair car cdr)"

section \<open>Hash tables of the machine\<close>

text \<open>The tables are keyed by pointers to C strings: hashing and comparing read the strings through
  the pointers. A block that does not exist reads as the empty string here; every use below checks
  the key first.\<close>

definition str_at :: "(addr \<Rightarrow> u8 list option) \<Rightarrow> addr \<Rightarrow> u8 list" where
  "str_at bl p = (case bl p of None \<Rightarrow> [] | Some bs \<Rightarrow> bs)"

definition key_hash :: "(addr \<Rightarrow> u8 list option) \<Rightarrow> addr \<Rightarrow> u32" where
  "key_hash bl p = hash_string (str_at bl p)"

definition key_cmp :: "(addr \<Rightarrow> u8 list option) \<Rightarrow> addr \<Rightarrow> addr \<Rightarrow> cmp_type" where
  "key_cmp bl p q = hash_string_cmp (str_at bl p) (str_at bl q)"

definition vm_hash_create :: "'w vm \<Rightarrow> ('w vm \<times> addr) res" where
  "vm_hash_create vm =
     rbind (hash_create (key_hash (blobs vm)) (key_cmp (blobs vm)) (hs vm)) (\<lambda>(st, t).
       Inr (alloc_table (vm\<lparr>hs := st\<rparr>) t))"

definition vm_hash_set :: "'w vm \<Rightarrow> addr \<Rightarrow> addr \<Rightarrow> addr \<Rightarrow> 'w vm res" where
  "vm_hash_set vm tbl key v =
     rbind (deref (tables vm tbl)) (\<lambda>t.
     rbind (deref (blobs vm key)) (\<lambda>_.
     rbind (hash_set (key_hash (blobs vm)) (key_cmp (blobs vm)) (hs vm) t key v) (\<lambda>(st, t).
       Inr (vm\<lparr>hs := st, tables := (tables vm)(tbl \<mapsto> t)\<rparr>))))"

definition vm_hash_get :: "'w vm \<Rightarrow> addr \<Rightarrow> addr \<Rightarrow> addr option res" where
  "vm_hash_get vm tbl key =
     rbind (deref (tables vm tbl)) (\<lambda>t.
     rbind (deref (blobs vm key)) (\<lambda>_.
       hash_get (key_hash (blobs vm)) (key_cmp (blobs vm)) (hs vm) t key))"

definition vm_hash_cow :: "'w vm \<Rightarrow> addr \<Rightarrow> ('w vm \<times> addr) res" where
  "vm_hash_cow vm src = rbind (deref (tables vm src)) (\<lambda>t. Inr (alloc_table vm (hash_cow t)))"

section \<open>Environments\<close>

definition zero_env :: env where
  "zero_env = \<lparr>code_ref = 0, code_length = 0, ip = 0, bindings = 0, handler = False, handler_addr = 0,
     parent = 0, debug = []\<rparr>"

definition push_env :: "'w vm \<Rightarrow> 'w vm res" where
  "push_env vm =
     (let (vm, e) = alloc_env vm zero_env in
      rbind (vm_hash_create vm) (\<lambda>(vm, tbl).
      rbind (upd_env vm e (\<lambda>ev. ev\<lparr>bindings := tbl, parent := env vm\<rparr>)) (\<lambda>vm.
        let parent = env vm; vm = vm\<lparr>env := e\<rparr> in
        if parent = 0 then Inr vm
        else rbind (get_env vm parent) (\<lambda>p.
          upd_env vm e (\<lambda>ev. ev\<lparr>code_ref := code_ref p, ip := ip p, code_length := code_length p,
            debug := debug p\<rparr>)))))"

definition clone_env :: "'w vm \<Rightarrow> addr \<Rightarrow> bool \<Rightarrow> ('w vm \<times> addr) res" where
  "clone_env vm e cow =
     rbind (get_env vm e) (\<lambda>ev.
       let (vm, target) = alloc_env vm ev in
       if cow
       then rbind (vm_hash_cow vm (bindings ev)) (\<lambda>(vm, tbl).
            rbind (upd_env vm target (\<lambda>ev. ev\<lparr>bindings := tbl\<rparr>)) (\<lambda>vm. Inr (vm, target)))
       else Inr (vm, target))"

definition pop_env :: "'w vm \<Rightarrow> 'w vm res" where
  "pop_env vm =
     (if env vm = 0 then Inr vm
      else rbind (get_env vm (env vm)) (\<lambda>e. Inr (vm\<lparr>env := parent e\<rparr>)))"

section \<open>The stack\<close>

definition vm_push :: "'w vm \<Rightarrow> addr \<Rightarrow> 'w vm" where
  "vm_push vm ob =
     (let (vm, p) = cons vm ob (stack_root vm)
      in vm\<lparr>stack_root := p, depth := depth vm + 1\<rparr>)"

text \<open>Both errors are fatal: the machine reports them and aborts.\<close>

definition vm_pop :: "'w vm \<Rightarrow> ('w vm \<times> addr) res" where
  "vm_pop vm =
     rbind (get_obj vm (stack_root vm)) (\<lambda>root.
       if otype root = EMPTY then Inl Assert_Failed
       else let (ob, rest) = pair (ovalue root) in
         if ob = 0 then Inl Assert_Failed
         else Inr (vm\<lparr>stack_root := rest, depth := depth vm - 1\<rparr>, ob))"

definition vm_reset :: "'w vm \<Rightarrow> 'w vm res" where
  "vm_reset vm = push_env (vm\<lparr>stack_root := empty vm, depth := 0, env := 0\<rparr>)"

definition vm_create :: "'w \<Rightarrow> 'w vm res" where
  "vm_create w =
     (let vm = \<lparr>objs = (\<lambda>_. None), blobs = (\<lambda>_. None), vecs = (\<lambda>_. None), envs = (\<lambda>_. None),
                tables = (\<lambda>_. None), hs = \<lparr>arrays = (\<lambda>_. None), next_array = 1\<rparr>, next_addr = 1,
                stack_root = 0, depth = 0, empty = 0, vm_true = 0, vm_false = 0,
                symbol_table = 0, import_table = 0, env = 0, exit_status = 0, out = [], out_depth = 0, world = w\<rparr>;
          (vm, e) = vm_alloc vm EMPTY; vm = vm\<lparr>empty := e\<rparr>;
          (vm, t) = vm_new vm BOOL (Boolean True); vm = vm\<lparr>vm_true := t\<rparr>;
          (vm, f) = vm_new vm BOOL (Boolean False); vm = vm\<lparr>vm_false := f\<rparr>;
          vm = vm\<lparr>stack_root := e\<rparr>
      in rbind (vm_hash_create vm) (\<lambda>(vm, s). let vm = vm\<lparr>symbol_table := s\<rparr> in
         rbind (vm_hash_create vm) (\<lambda>(vm, i). let vm = vm\<lparr>import_table := i\<rparr> in
           push_env vm)))"

section \<open>Exceptions\<close>

text \<open>The loop that looks for a handler; it follows at most \<open>n\<close> parents.\<close>

fun find_handler :: "nat \<Rightarrow> 'w vm \<Rightarrow> addr \<Rightarrow> addr res" where
  "find_handler 0 vm e = Inl Stack_Overflow"
| "find_handler (Suc n) vm e =
     (if e = 0 then Inr 0
      else rbind (get_env vm e) (\<lambda>ev. if handler ev then Inr e else find_handler n vm (parent ev)))"

fun cons_all :: "'w vm \<Rightarrow> addr list \<Rightarrow> addr \<Rightarrow> 'w vm \<times> addr" where
  "cons_all vm [] acc = (vm, acc)"
| "cons_all vm (ob # obs) acc = (case cons vm ob acc of (vm, p) \<Rightarrow> cons_all vm obs p)"

text \<open>\<open>throw_fatal\<close>, and \<open>throw\<close> when there is no handler, report and abort. The environments a
  program builds have finitely many parents (\<open>env_chain\<close>), all allocated before the environment,
  so \<open>next_addr\<close> bounds the search.\<close>

definition throw :: "'w vm \<Rightarrow> u8 list \<Rightarrow> addr list \<Rightarrow> 'w vm res" where
  "throw vm msg args =
     (let (vm, exception) = cons_all vm args (empty vm);
          (vm, ob) = vm_alloc vm CLOSURE in
      rbind (clone_env vm (env vm) False) (\<lambda>(vm, e).
        let vm = set_obj vm ob \<lparr>otype = CLOSURE, ovalue = Closure e\<rparr>;
            (vm, exception) = cons vm ob exception in
      rbind (vm_make_string vm msg (of_nat (length (c_str msg)))) (\<lambda>(vm, ob).
        let (vm, exception) = cons vm ob exception;
            vm = vm_push vm exception in
      rbind (find_handler (next_addr vm) vm (env vm)) (\<lambda>h.
        if h = 0 then Inl Assert_Failed
        else rbind (clone_env vm h False) (\<lambda>(vm, e).
             upd_env (vm\<lparr>env := e\<rparr>) e (\<lambda>ev. ev\<lparr>handler := False, ip := handler_addr ev\<rparr>))))))"

section \<open>Code\<close>

text \<open>A byte of the code block of the current environment.\<close>

definition code_byte :: "'w vm \<Rightarrow> u64 \<Rightarrow> u8 res" where
  "code_byte vm a =
     rbind (get_env vm (env vm)) (\<lambda>e.
     rbind (deref (blobs vm (code_ref e))) (\<lambda>code. nth_checked code (unat a)))"

definition vm_peek :: "'w vm \<Rightarrow> vm_int \<Rightarrow> u8 res" where
  "vm_peek vm offset =
     rbind (get_env vm (env vm)) (\<lambda>e.
       let a = ip e + offset in
       if a > code_length e then Inr OP_NOP else code_byte vm a)"

text \<open>The bytes at the instruction pointer from offset \<open>n - 1\<close> down to 0, shifted in one after the
  other, then a step over \<open>adv\<close> bytes.\<close>

fun read_bytes :: "'w vm \<Rightarrow> u64 \<Rightarrow> nat \<Rightarrow> 'b::len word \<Rightarrow> 'b word res" where
  "read_bytes vm i 0 num = Inr num"
| "read_bytes vm i (Suc n) num =
     rbind (code_byte vm (i + of_nat n)) (\<lambda>b. read_bytes vm i n (push_bit 8 num OR ucast b))"

definition parse_int :: "'w vm \<Rightarrow> ('w vm \<times> vm_int) res" where
  "parse_int vm =
     rbind (get_env vm (env vm)) (\<lambda>e.
     rbind (read_bytes vm (ip e) 8 0) (\<lambda>num.
     rbind (upd_env vm (env vm) (\<lambda>e. e\<lparr>ip := ip e + 8\<rparr>)) (\<lambda>vm. Inr (vm, num))))"

definition parse_string :: "'w vm \<Rightarrow> ('w vm \<times> addr) res" where
  "parse_string vm =
     rbind (parse_int vm) (\<lambda>(vm, len).
     rbind (get_env vm (env vm)) (\<lambda>e.
     rbind (deref (blobs vm (code_ref e))) (\<lambda>code.
       if length code < unat (ip e) then Inl Out_Of_Bounds
       else rbind (vm_make_string vm (drop (unat (ip e)) code) len) (\<lambda>(vm, ob).
            rbind (upd_env vm (env vm) (\<lambda>e. e\<lparr>ip := ip e + len\<rparr>)) (\<lambda>vm. Inr (vm, ob))))))"

text \<open>The interned symbol of the object's string, which may be the object itself.\<close>

definition make_symbol :: "'w vm \<Rightarrow> addr \<Rightarrow> ('w vm \<times> addr) res" where
  "make_symbol vm ob =
     rbind (get_obj vm ob) (\<lambda>o'.
       let key = snd (block (ovalue o')) in
       rbind (vm_hash_get vm (symbol_table vm) key) (\<lambda>found.
         case found of
           Some s \<Rightarrow> Inr (vm, s)
         | None \<Rightarrow>
             rbind (vm_hash_set (set_obj vm ob (o'\<lparr>otype := SYMBOL\<rparr>)) (symbol_table vm) key ob) (\<lambda>vm.
               Inr (vm, ob))))"

end
