(* ===== verification/Vm_Ops.thy ===== *)
theory Vm_Ops
  imports Vm_State
begin

text \<open>
  The instructions on literals, lists, the stack, logic, numbers and types:
  \<open>vm_literals.c\<close>, \<open>vm_list.c\<close>, \<open>vm_stack.c\<close>, \<open>vm_logic.c\<close>, \<open>vm_math.h\<close> and \<open>vm_types.h\<close> of
  \<open>src/src/libinsomniac_vm/libinsomniac_vm_instructions\<close>. Every instruction maps the machine to the
  machine after it; a \<open>throw\<close> that finds a handler is a normal return.
\<close>

text \<open>The test \<open>obj && obj->type == ty\<close>.\<close>

definition is_type :: "'w vm \<Rightarrow> addr \<Rightarrow> cell_type \<Rightarrow> bool res" where
  "is_type vm a ty = (if a = 0 then Inr False else rbind (get_obj vm a) (\<lambda>ob. Inr (otype ob = ty)))"

section \<open>Literals\<close>

definition op_lit_64bit :: "'w vm \<Rightarrow> 'w vm res" where
  "op_lit_64bit vm =
     rbind (parse_int vm) (\<lambda>(vm, num).
       let (vm, ob) = vm_new vm FIXNUM (Integer num) in Inr (vm_push vm ob))"

definition op_lit_char :: "'w vm \<Rightarrow> 'w vm res" where
  "op_lit_char vm =
     rbind (get_env vm (env vm)) (\<lambda>e.
     rbind (read_bytes vm (ip e) 5 0) (\<lambda>character.
     rbind (upd_env vm (env vm) (\<lambda>e. e\<lparr>ip := ip e + 4\<rparr>)) (\<lambda>vm.
       let (vm, ob) = vm_new vm cell_type.CHAR (Character character) in Inr (vm_push vm ob))))"

definition op_lit_empty :: "'w vm \<Rightarrow> 'w vm res" where
  "op_lit_empty vm = Inr (vm_push vm (empty vm))"

definition op_lit_true :: "'w vm \<Rightarrow> 'w vm res" where
  "op_lit_true vm = Inr (vm_push vm (vm_true vm))"

definition op_lit_false :: "'w vm \<Rightarrow> 'w vm res" where
  "op_lit_false vm = Inr (vm_push vm (vm_false vm))"

definition op_lit_symbol :: "'w vm \<Rightarrow> 'w vm res" where
  "op_lit_symbol vm =
     rbind (parse_string vm) (\<lambda>(vm, ob).
     rbind (make_symbol vm ob) (\<lambda>(vm, ob). Inr (vm_push vm ob)))"

definition op_lit_string :: "'w vm \<Rightarrow> 'w vm res" where
  "op_lit_string vm = rbind (parse_string vm) (\<lambda>(vm, ob). Inr (vm_push vm ob))"

text \<open>There is no return after the \<open>throw\<close>: when a handler takes the exception the object is still
  made a symbol and pushed.\<close>

definition op_make_symbol :: "'w vm \<Rightarrow> 'w vm res" where
  "op_make_symbol vm =
     rbind (vm_pop vm) (\<lambda>(vm, ob).
     rbind (get_obj vm ob) (\<lambda>o'.
     rbind (if otype o' \<noteq> STRING
            then throw vm (chars ''Only string can be converted into a symbol.'') [ob]
            else Inr vm) (\<lambda>vm.
     rbind (make_symbol vm ob) (\<lambda>(vm, ob). Inr (vm_push vm ob)))))"

section \<open>Lists\<close>

definition op_cons :: "'w vm \<Rightarrow> 'w vm res" where
  "op_cons vm =
     rbind (vm_pop vm) (\<lambda>(vm, car).
     rbind (vm_pop vm) (\<lambda>(vm, cdr).
       let (vm, p) = cons vm car cdr in Inr (vm_push vm p)))"

definition op_car :: "'w vm \<Rightarrow> 'w vm res" where
  "op_car vm =
     rbind (vm_pop vm) (\<lambda>(vm, ob).
     rbind (is_type vm ob PAIR) (\<lambda>ok.
       if ok then rbind (get_obj vm ob) (\<lambda>o'. Inr (vm_push vm (fst (pair (ovalue o')))))
       else throw vm (chars ''Attempt to read the car of a non-pair'') [ob]))"

definition op_cdr :: "'w vm \<Rightarrow> 'w vm res" where
  "op_cdr vm =
     rbind (vm_pop vm) (\<lambda>(vm, ob).
     rbind (is_type vm ob PAIR) (\<lambda>ok.
       if ok then rbind (get_obj vm ob) (\<lambda>o'. Inr (vm_push vm (snd (pair (ovalue o')))))
       else throw vm (chars ''Attempt to read the cdr of a non-pair'') [ob]))"

definition op_set_car :: "'w vm \<Rightarrow> 'w vm res" where
  "op_set_car vm =
     rbind (vm_pop vm) (\<lambda>(vm, ob).
     rbind (vm_pop vm) (\<lambda>(vm, p).
     rbind (if ob \<noteq> 0 then is_type vm p PAIR else Inr False) (\<lambda>ok.
       if ok
       then rbind (get_obj vm p) (\<lambda>o'.
              Inr (vm_push (set_obj vm p (o'\<lparr>ovalue := Pair ob (snd (pair (ovalue o')))\<rparr>)) p))
       else throw vm (chars ''Attempt to set the car of a non-pair or set car to non-object'') [ob, p])))"

definition op_set_cdr :: "'w vm \<Rightarrow> 'w vm res" where
  "op_set_cdr vm =
     rbind (vm_pop vm) (\<lambda>(vm, ob).
     rbind (vm_pop vm) (\<lambda>(vm, p).
     rbind (if ob \<noteq> 0 then is_type vm p PAIR else Inr False) (\<lambda>ok.
       if ok
       then rbind (get_obj vm p) (\<lambda>o'.
              Inr (vm_push (set_obj vm p (o'\<lparr>ovalue := Pair (fst (pair (ovalue o'))) ob\<rparr>)) p))
       else throw vm (chars ''Attempt to set the cdr of a non-pair or set cdr to non-object'') [ob, p])))"

section \<open>The stack\<close>

definition op_swap :: "'w vm \<Rightarrow> 'w vm res" where
  "op_swap vm =
     rbind (vm_pop vm) (\<lambda>(vm, r1).
     rbind (vm_pop vm) (\<lambda>(vm, r2).
       Inr (vm_push (vm_push vm r1) r2)))"

definition op_rot :: "'w vm \<Rightarrow> 'w vm res" where
  "op_rot vm =
     rbind (vm_pop vm) (\<lambda>(vm, r1).
     rbind (vm_pop vm) (\<lambda>(vm, r2).
     rbind (vm_pop vm) (\<lambda>(vm, r3).
       Inr (vm_push (vm_push (vm_push vm r1) r3) r2))))"

definition op_dup_ref :: "'w vm \<Rightarrow> 'w vm res" where
  "op_dup_ref vm = rbind (vm_pop vm) (\<lambda>(vm, r1). Inr (vm_push (vm_push vm r1) r1))"

definition op_depth :: "'w vm \<Rightarrow> 'w vm res" where
  "op_depth vm = (let (vm, ob) = vm_new vm FIXNUM (Integer (depth vm)) in Inr (vm_push vm ob))"

definition op_drop :: "'w vm \<Rightarrow> 'w vm res" where
  "op_drop vm = rbind (vm_pop vm) (\<lambda>(vm, ob). Inr vm)"

section \<open>Logic\<close>

definition bool_obj :: "'w vm \<Rightarrow> bool \<Rightarrow> addr" where
  "bool_obj vm b = (if b then vm_true vm else vm_false vm)"

text \<open>The two tests on null pointers are joined by \<open>&&\<close>: the first disjunct is only reached with
  objects that exist, and their types are then not compared.\<close>

definition op_eq :: "'w vm \<Rightarrow> 'w vm res" where
  "op_eq vm =
     rbind (vm_pop vm) (\<lambda>(vm, obj1).
     rbind (vm_pop vm) (\<lambda>(vm, obj2).
     rbind (if obj1 = 0 \<or> obj2 = 0
            then rbind (get_obj vm obj1) (\<lambda>o1. rbind (get_obj vm obj2) (\<lambda>o2. Inr (otype o1 \<noteq> otype o2)))
            else Inr False) (\<lambda>differ.
       if differ then Inr (vm_push vm (vm_false vm))
       else
         rbind (get_obj vm obj1) (\<lambda>o1.
         rbind (case otype o1 of
                  FIXNUM \<Rightarrow> rbind (get_obj vm obj2) (\<lambda>o2. Inr (integer (ovalue o1) = integer (ovalue o2)))
                | BOOL \<Rightarrow> rbind (get_obj vm obj2) (\<lambda>o2. Inr (boolean (ovalue o1) = boolean (ovalue o2)))
                | cell_type.CHAR \<Rightarrow> rbind (get_obj vm obj2) (\<lambda>o2. Inr (character (ovalue o1) = character (ovalue o2)))
                | STRING \<Rightarrow>
                    rbind (get_obj vm obj2) (\<lambda>o2.
                    rbind (deref (blobs vm (snd (block (ovalue o1))))) (\<lambda>s1.
                    rbind (deref (blobs vm (snd (block (ovalue o2))))) (\<lambda>s2.
                      Inr (c_str s1 = c_str s2))))
                | _ \<Rightarrow> Inr (obj1 = obj2)) (\<lambda>result.
           Inr (vm_push vm (bool_obj vm result)))))))"

definition op_not :: "'w vm \<Rightarrow> 'w vm res" where
  "op_not vm =
     rbind (vm_pop vm) (\<lambda>(vm, ob).
     rbind (get_obj vm ob) (\<lambda>o'.
       Inr (vm_push vm (bool_obj vm (otype o' = BOOL \<and> \<not> boolean (ovalue o'))))))"

section \<open>Numbers\<close>

text \<open>\<open>num1->type != FIXNUM\<close> is tested before \<open>num2\<close> is looked at.\<close>

definition both_fixnum :: "'w vm \<Rightarrow> addr \<Rightarrow> addr \<Rightarrow> bool res" where
  "both_fixnum vm num1 num2 =
     rbind (is_type vm num1 FIXNUM) (\<lambda>ok. if ok then is_type vm num2 FIXNUM else Inr False)"

definition NUMERIC_OP :: "(vm_int \<Rightarrow> vm_int \<Rightarrow> vm_int res) \<Rightarrow> 'w vm \<Rightarrow> 'w vm res" where
  "NUMERIC_OP f vm =
     rbind (vm_pop vm) (\<lambda>(vm, num2).
     rbind (vm_pop vm) (\<lambda>(vm, num1).
     rbind (both_fixnum vm num1 num2) (\<lambda>ok.
       if \<not> ok then throw vm (chars ''Attempt to calculate with non-number'' @ [10]) [num1, num2]
       else
         let (vm, result) = vm_alloc vm FIXNUM in
         rbind (get_obj vm num1) (\<lambda>o1.
         rbind (get_obj vm num2) (\<lambda>o2.
         rbind (f (integer (ovalue o1)) (integer (ovalue o2))) (\<lambda>i.
           Inr (vm_push (set_obj vm result \<lparr>otype = FIXNUM, ovalue = Integer i\<rparr>) result)))))))"

definition NUMERIC_LOGIC :: "(vm_int \<Rightarrow> vm_int \<Rightarrow> bool) \<Rightarrow> 'w vm \<Rightarrow> 'w vm res" where
  "NUMERIC_LOGIC f vm =
     rbind (vm_pop vm) (\<lambda>(vm, num2).
     rbind (vm_pop vm) (\<lambda>(vm, num1).
     rbind (both_fixnum vm num1 num2) (\<lambda>ok.
       if \<not> ok then throw vm (chars ''Attempt to compare with non-number'' @ [10]) [num1, num2]
       else
         rbind (get_obj vm num1) (\<lambda>o1.
         rbind (get_obj vm num2) (\<lambda>o2.
           Inr (vm_push vm (bool_obj vm (f (integer (ovalue o1)) (integer (ovalue o2))))))))))"

text \<open>The sums wrap around at 64 bits, as the machine's instructions do. Signed division truncates
  and traps on a divisor of zero and on an overflowing quotient.\<close>

definition div_traps :: "vm_int \<Rightarrow> vm_int \<Rightarrow> bool" where
  "div_traps i j \<longleftrightarrow> j = 0 \<or> (sint i = - (2 ^ 63) \<and> sint j = - 1)"

definition op_add :: "'w vm \<Rightarrow> 'w vm res" where "op_add = NUMERIC_OP (\<lambda>i j. Inr (i + j))"
definition op_sub :: "'w vm \<Rightarrow> 'w vm res" where "op_sub = NUMERIC_OP (\<lambda>i j. Inr (i - j))"
definition op_mul :: "'w vm \<Rightarrow> 'w vm res" where "op_mul = NUMERIC_OP (\<lambda>i j. Inr (i * j))"

definition op_div :: "'w vm \<Rightarrow> 'w vm res" where
  "op_div = NUMERIC_OP (\<lambda>i j. if div_traps i j then Inl Div_Trap else Inr (word_of_int (sint i sdiv sint j)))"

definition op_mod :: "'w vm \<Rightarrow> 'w vm res" where
  "op_mod = NUMERIC_OP (\<lambda>i j. if div_traps i j then Inl Div_Trap else Inr (word_of_int (sint i smod sint j)))"

definition op_numeric_equal :: "'w vm \<Rightarrow> 'w vm res" where "op_numeric_equal = NUMERIC_LOGIC (=)"

definition op_numeric_lt :: "'w vm \<Rightarrow> 'w vm res" where
  "op_numeric_lt = NUMERIC_LOGIC (\<lambda>i j. sint i < sint j)"

definition op_numeric_gt :: "'w vm \<Rightarrow> 'w vm res" where
  "op_numeric_gt = NUMERIC_LOGIC (\<lambda>i j. sint j < sint i)"

section \<open>Types\<close>

definition TYPE_OP :: "(cell_type \<Rightarrow> bool) \<Rightarrow> 'w vm \<Rightarrow> 'w vm res" where
  "TYPE_OP test vm =
     rbind (vm_pop vm) (\<lambda>(vm, ob).
     rbind (if ob = 0 then Inr False else rbind (get_obj vm ob) (\<lambda>o'. Inr (test (otype o')))) (\<lambda>ok.
       Inr (vm_push vm (bool_obj vm ok))))"

definition op_is_fixnum :: "'w vm \<Rightarrow> 'w vm res" where "op_is_fixnum = TYPE_OP (\<lambda>ty. ty = FIXNUM)"
definition op_is_bool :: "'w vm \<Rightarrow> 'w vm res" where "op_is_bool = TYPE_OP (\<lambda>ty. ty = BOOL)"
definition op_is_char :: "'w vm \<Rightarrow> 'w vm res" where "op_is_char = TYPE_OP (\<lambda>ty. ty = cell_type.CHAR)"
definition op_is_string :: "'w vm \<Rightarrow> 'w vm res" where "op_is_string = TYPE_OP (\<lambda>ty. ty = STRING)"
definition op_is_symbol :: "'w vm \<Rightarrow> 'w vm res" where "op_is_symbol = TYPE_OP (\<lambda>ty. ty = SYMBOL)"
definition op_is_vector :: "'w vm \<Rightarrow> 'w vm res" where "op_is_vector = TYPE_OP (\<lambda>ty. ty = VECTOR)"
definition op_is_byte_vector :: "'w vm \<Rightarrow> 'w vm res" where
  "op_is_byte_vector = TYPE_OP (\<lambda>ty. ty = BYTE_VECTOR)"
definition op_is_record :: "'w vm \<Rightarrow> 'w vm res" where "op_is_record = TYPE_OP (\<lambda>ty. ty = RECORD)"
definition op_is_pair :: "'w vm \<Rightarrow> 'w vm res" where "op_is_pair = TYPE_OP (\<lambda>ty. ty = PAIR)"
definition op_is_empty :: "'w vm \<Rightarrow> 'w vm res" where "op_is_empty = TYPE_OP (\<lambda>ty. ty = EMPTY)"
definition op_is_closure :: "'w vm \<Rightarrow> 'w vm res" where "op_is_closure = TYPE_OP (\<lambda>ty. ty = CLOSURE)"
definition op_is_library :: "'w vm \<Rightarrow> 'w vm res" where "op_is_library = TYPE_OP (\<lambda>ty. ty = LIBRARY)"

definition op_is_self :: "'w vm \<Rightarrow> 'w vm res" where
  "op_is_self = TYPE_OP (\<lambda>ty. ty = FIXNUM \<or> ty = BOOL \<or> ty = cell_type.CHAR \<or> ty = STRING \<or> ty = VECTOR
     \<or> ty = BYTE_VECTOR)"

end
