(* ===== verification/Vm_Flow.thy ===== *)
theory Vm_Flow
  imports Vm_Ops
begin

text \<open>
  The instructions on control flow, locations and vectors: \<open>vm_jump.c\<close>, \<open>vm_locations.c\<close> and
  \<open>vm_vector.c\<close> of \<open>src/src/libinsomniac_vm/libinsomniac_vm_instructions\<close>.
\<close>

section \<open>Jumps and calls\<close>

definition jump_by :: "'w vm \<Rightarrow> vm_int \<Rightarrow> 'w vm res" where
  "jump_by vm target = upd_env vm (env vm) (\<lambda>e. e\<lparr>ip := ip e + target\<rparr>)"

text \<open>It jumps unless the object is false.\<close>

definition op_jnf :: "'w vm \<Rightarrow> 'w vm res" where
  "op_jnf vm =
     rbind (parse_int vm) (\<lambda>(vm, target).
     rbind (vm_pop vm) (\<lambda>(vm, ob).
     rbind (is_type vm ob BOOL) (\<lambda>is_bool.
     rbind (if is_bool then rbind (get_obj vm ob) (\<lambda>o'. Inr (\<not> boolean (ovalue o'))) else Inr False) (\<lambda>false.
       if \<not> false then jump_by vm target else Inr vm))))"

definition op_jmp :: "'w vm \<Rightarrow> 'w vm res" where
  "op_jmp vm = rbind (parse_int vm) (\<lambda>(vm, target). jump_by vm target)"

definition op_call :: "'w vm \<Rightarrow> 'w vm res" where
  "op_call vm =
     rbind (parse_int vm) (\<lambda>(vm, target).
       let (vm, closure) = vm_new vm CLOSURE (Closure (env vm)); vm = vm_push vm closure in
       rbind (push_env vm) (\<lambda>vm. jump_by vm target))"

text \<open>The environment of a closure object.\<close>

definition closure_env :: "'w vm \<Rightarrow> addr \<Rightarrow> addr res" where
  "closure_env vm ob = rbind (get_obj vm ob) (\<lambda>o'. Inr (closure (ovalue o')))"

definition op_adopt :: "'w vm \<Rightarrow> 'w vm res" where
  "op_adopt vm =
     rbind (vm_pop vm) (\<lambda>(vm, par).
     rbind (vm_pop vm) (\<lambda>(vm, child).
     rbind (is_type vm par CLOSURE) (\<lambda>ok.
       if \<not> ok then throw vm (chars ''Attempt to adopt with non-closure'') [par]
       else rbind (is_type vm child CLOSURE) (\<lambda>ok.
         if \<not> ok then throw vm (chars ''Attempt to adopt non-closure'') [child]
         else
           let (vm, adopted) = vm_alloc vm CLOSURE in
           rbind (closure_env vm child) (\<lambda>ce.
           rbind (clone_env vm ce True) (\<lambda>(vm, e).
           let vm = set_obj vm adopted \<lparr>otype = CLOSURE, ovalue = Closure e\<rparr> in
           rbind (closure_env vm par) (\<lambda>pe.
           rbind (get_env vm pe) (\<lambda>pev.
           rbind (upd_env vm e (\<lambda>ev. ev\<lparr>parent := parent pev, bindings := bindings pev\<rparr>)) (\<lambda>vm.
             Inr (vm_push vm adopted))))))))))"

definition op_proc :: "'w vm \<Rightarrow> 'w vm res" where
  "op_proc vm =
     rbind (parse_int vm) (\<lambda>(vm, target).
       let (vm, closure) = vm_alloc vm CLOSURE in
       rbind (clone_env vm (env vm) False) (\<lambda>(vm, e).
       rbind (upd_env vm e (\<lambda>ev. ev\<lparr>ip := ip ev + target\<rparr>)) (\<lambda>vm.
         Inr (vm_push (set_obj vm closure \<lparr>otype = CLOSURE, ovalue = Closure e\<rparr>) closure))))"

definition not_closure :: "'w vm \<Rightarrow> addr \<Rightarrow> 'w vm res" where
  "not_closure vm ob = throw vm (chars ''Attempt to jump to non-closure'') [ob]"

definition op_jin :: "'w vm \<Rightarrow> 'w vm res" where
  "op_jin vm =
     rbind (vm_pop vm) (\<lambda>(vm, ob).
     rbind (is_type vm ob CLOSURE) (\<lambda>ok.
       if \<not> ok then not_closure vm ob
       else
         rbind (closure_env vm ob) (\<lambda>ce.
         rbind (clone_env vm ce False) (\<lambda>(vm', e).
         rbind (get_env vm' (env vm)) (\<lambda>old.
           upd_env (vm'\<lparr>env := e\<rparr>) e (\<lambda>ev. ev\<lparr>bindings := bindings old, parent := parent old\<rparr>))))))"

definition op_ret :: "'w vm \<Rightarrow> 'w vm res" where
  "op_ret vm =
     rbind (vm_pop vm) (\<lambda>(vm, ob).
     rbind (is_type vm ob CLOSURE) (\<lambda>ok.
       if \<not> ok then not_closure vm ob
       else
         rbind (closure_env vm ob) (\<lambda>ce.
         rbind (clone_env vm ce False) (\<lambda>(vm, e). Inr (vm\<lparr>env := e\<rparr>)))))"

text \<open>Enter a closure: a copy of its environment, and a child of the copy.\<close>

definition enter_closure :: "'w vm \<Rightarrow> addr \<Rightarrow> 'w vm res" where
  "enter_closure vm ob =
     rbind (closure_env vm ob) (\<lambda>ce.
     rbind (clone_env vm ce False) (\<lambda>(vm, e). push_env (vm\<lparr>env := e\<rparr>)))"

definition op_call_in :: "'w vm \<Rightarrow> 'w vm res" where
  "op_call_in vm =
     rbind (vm_pop vm) (\<lambda>(vm, ob).
     rbind (is_type vm ob CLOSURE) (\<lambda>ok.
       if \<not> ok then not_closure vm ob
       else
         let (vm, ret) = vm_new vm CLOSURE (Closure (env vm)) in
         enter_closure (vm_push vm ret) ob))"

definition op_tail_call_in :: "'w vm \<Rightarrow> 'w vm res" where
  "op_tail_call_in vm =
     rbind (vm_pop vm) (\<lambda>(vm, ob).
     rbind (is_type vm ob CLOSURE) (\<lambda>ok.
       if \<not> ok then not_closure vm ob
       else
         rbind (vm_pop vm) (\<lambda>(vm, r2).
         rbind (vm_pop vm) (\<lambda>(vm, r3).
           enter_closure (vm_push (vm_push vm r2) r3) ob))))"

definition op_continue :: "'w vm \<Rightarrow> 'w vm res" where
  "op_continue vm =
     rbind (parse_int vm) (\<lambda>(vm, target).
       upd_env vm (env vm) (\<lambda>e. e\<lparr>handler := True, handler_addr := ip e + target\<rparr>))"

definition op_restore :: "'w vm \<Rightarrow> 'w vm res" where
  "op_restore vm = upd_env vm (env vm) (\<lambda>e. e\<lparr>handler := True\<rparr>)"

section \<open>Locations\<close>

text \<open>The key's string, by the pointer the tables hash.\<close>

definition key_of :: "'w vm \<Rightarrow> addr \<Rightarrow> addr res" where
  "key_of vm ob = rbind (get_obj vm ob) (\<lambda>o'. Inr (snd (block (ovalue o'))))"

definition op_bind :: "'w vm \<Rightarrow> 'w vm res" where
  "op_bind vm =
     rbind (vm_pop vm) (\<lambda>(vm, key).
     rbind (vm_pop vm) (\<lambda>(vm, v).
     rbind (is_type vm key SYMBOL) (\<lambda>ok.
       if \<not> ok then throw vm (chars ''Attempt to bind with non-symbol'') [key, v]
       else
         rbind (key_of vm key) (\<lambda>k.
         rbind (get_env vm (env vm)) (\<lambda>e. vm_hash_set vm (bindings e) k v)))))"

text \<open>The loops over an environment and its parents; at most \<open>n\<close> of them, see \<open>find_handler\<close>.\<close>

fun find_env :: "nat \<Rightarrow> 'w vm \<Rightarrow> addr \<Rightarrow> addr \<Rightarrow> (addr \<times> addr) option res" where
  "find_env 0 vm e k = Inl Stack_Overflow"
| "find_env (Suc n) vm e k =
     (if e = 0 then Inr None
      else
        rbind (get_env vm e) (\<lambda>ev.
        rbind (vm_hash_get vm (bindings ev) k) (\<lambda>found.
          case found of
            Some v \<Rightarrow> Inr (Some (bindings ev, v))
          | None \<Rightarrow> find_env n vm (parent ev) k)))"

definition op_read :: "'w vm \<Rightarrow> 'w vm res" where
  "op_read vm =
     rbind (vm_pop vm) (\<lambda>(vm, key).
     rbind (is_type vm key SYMBOL) (\<lambda>ok.
       if \<not> ok then throw vm (chars ''Attempt to read with non-symbol'') [key]
       else
         rbind (key_of vm key) (\<lambda>k.
         rbind (find_env (next_addr vm) vm (env vm) k) (\<lambda>found.
           case found of
             None \<Rightarrow> throw vm (chars ''Attempt to read undefined symbol'') [key]
           | Some (tbl, v) \<Rightarrow> Inr (vm_push vm v)))))"

definition op_set :: "'w vm \<Rightarrow> 'w vm res" where
  "op_set vm =
     rbind (vm_pop vm) (\<lambda>(vm, key).
     rbind (vm_pop vm) (\<lambda>(vm, v).
     rbind (is_type vm key SYMBOL) (\<lambda>ok.
       if \<not> ok then throw vm (chars ''Attempt to set with non-symbol'') [key, v]
       else
         rbind (key_of vm key) (\<lambda>k.
         rbind (find_env (next_addr vm) vm (env vm) k) (\<lambda>found.
           case found of
             None \<Rightarrow> throw vm (chars ''Attempt to set undefined symbol'') [key, v]
           | Some (tbl, _) \<Rightarrow> vm_hash_set vm tbl k v)))))"

definition op_set_exit :: "'w vm \<Rightarrow> 'w vm res" where
  "op_set_exit vm =
     rbind (vm_pop vm) (\<lambda>(vm, v).
     rbind (is_type vm v FIXNUM) (\<lambda>ok.
       if \<not> ok then throw vm (chars ''Attempt to set non-number exit status'') [v]
       else rbind (get_obj vm v) (\<lambda>o'. Inr (vm\<lparr>exit_status := ucast (integer (ovalue o'))\<rparr>))))"

section \<open>Vectors\<close>

text \<open>The three instructions that make a block differ in the constructor and the message.\<close>

definition make_block ::
  "('w vm \<Rightarrow> vm_int \<Rightarrow> ('w vm \<times> addr) res) \<Rightarrow> u8 list \<Rightarrow> 'w vm \<Rightarrow> 'w vm res" where
  "make_block mk msg vm =
     rbind (vm_pop vm) (\<lambda>(vm, ob).
     rbind (get_obj vm ob) (\<lambda>o'.
       if otype o' \<noteq> FIXNUM then throw vm msg [ob]
       else rbind (mk vm (integer (ovalue o'))) (\<lambda>(vm, ob). Inr (vm_push vm ob))))"

definition op_make_byte_vector :: "'w vm \<Rightarrow> 'w vm res" where
  "op_make_byte_vector =
     make_block vm_make_byte_vector (chars ''Make byte vector requires a number argument.'')"

definition op_make_vector :: "'w vm \<Rightarrow> 'w vm res" where
  "op_make_vector = make_block vm_make_vector (chars ''Make vector requires a number argument.'')"

definition op_make_record :: "'w vm \<Rightarrow> 'w vm res" where
  "op_make_record = make_block vm_make_record (chars ''Make record requires a number argument.'')"

definition op_vector_length :: "'w vm \<Rightarrow> 'w vm res" where
  "op_vector_length vm =
     rbind (vm_pop vm) (\<lambda>(vm, ob).
     rbind (get_obj vm ob) (\<lambda>o'.
       if otype o' \<noteq> VECTOR \<and> otype o' \<noteq> BYTE_VECTOR
       then throw vm (chars ''Attempt to read vector length of non-vector!'') [ob]
       else let (vm, len) = vm_new vm FIXNUM (Integer (fst (block (ovalue o')))) in Inr (vm_push vm len)))"

definition indexable :: "object \<Rightarrow> vm_int \<Rightarrow> bool" where
  "indexable v index \<longleftrightarrow>
     (otype v = VECTOR \<or> otype v = RECORD \<or> otype v = BYTE_VECTOR) \<and> sint index \<le> sint (fst (block (ovalue v)))"

definition op_index_set :: "'w vm \<Rightarrow> 'w vm res" where
  "op_index_set vm =
     rbind (vm_pop vm) (\<lambda>(vm, vector).
     rbind (vm_pop vm) (\<lambda>(vm, ob).
     rbind (vm_pop vm) (\<lambda>(vm, obj_index).
     rbind (get_obj vm obj_index) (\<lambda>i.
       if otype i \<noteq> FIXNUM then throw vm (chars ''The index must be a number.'') [obj_index]
       else
         let index = integer (ovalue i) in
         rbind (get_obj vm vector) (\<lambda>v.
           if \<not> indexable v index then throw vm (chars ''Set by index requires a vector.'') [vector]
           else
             let p = snd (block (ovalue v)) in
             if otype v = VECTOR \<or> otype v = RECORD then
               rbind (deref (vecs vm p)) (\<lambda>cells.
               rbind (nth_checked cells (unat index)) (\<lambda>_.
                 Inr (vm\<lparr>vecs := (vecs vm)(p \<mapsto> cells[unat index := ob])\<rparr>)))
             else
               rbind (get_obj vm ob) (\<lambda>o'.
                 if otype o' \<noteq> FIXNUM then throw vm (chars ''Byte vectors may only contain numbers.'') [ob]
                 else
                   rbind (deref (blobs vm p)) (\<lambda>bytes.
                   rbind (nth_checked bytes (unat index)) (\<lambda>_.
                     Inr (vm\<lparr>blobs := (blobs vm)(p \<mapsto> bytes[unat index := ucast (integer (ovalue o'))])\<rparr>)))))))))"

definition op_index_ref :: "'w vm \<Rightarrow> 'w vm res" where
  "op_index_ref vm =
     rbind (vm_pop vm) (\<lambda>(vm, vector).
     rbind (vm_pop vm) (\<lambda>(vm, obj_index).
     rbind (get_obj vm obj_index) (\<lambda>i.
       if otype i \<noteq> FIXNUM then throw vm (chars ''The index must be a number.'') [obj_index]
       else
         let index = integer (ovalue i) in
         rbind (get_obj vm vector) (\<lambda>v.
           if \<not> indexable v index then throw vm (chars ''Read by index requires a vector.'') [vector]
           else
             let p = snd (block (ovalue v)) in
             if otype v = VECTOR \<or> otype v = RECORD then
               rbind (deref (vecs vm p)) (\<lambda>cells.
               rbind (nth_checked cells (unat index)) (\<lambda>ob. Inr (vm_push vm ob)))
             else
               rbind (deref (blobs vm p)) (\<lambda>bytes.
               rbind (nth_checked bytes (unat index)) (\<lambda>b.
                 let (vm, ob) = vm_new vm FIXNUM (Integer (ucast b)) in Inr (vm_push vm ob)))))))"

text \<open>The byte vector shares the bytes of the string.\<close>

definition op_string_byte_vector :: "'w vm \<Rightarrow> 'w vm res" where
  "op_string_byte_vector vm =
     rbind (vm_pop vm) (\<lambda>(vm, str).
     rbind (get_obj vm str) (\<lambda>o'.
       if otype o' \<noteq> STRING then throw vm (chars ''str->u8 requires a string argument.'') [str]
       else
         let (vm, slice) = vm_new vm BYTE_VECTOR (Block (fst (block (ovalue o'))) (snd (block (ovalue o'))))
         in Inr (vm_push vm slice)))"

definition op_byte_vector_string :: "'w vm \<Rightarrow> 'w vm res" where
  "op_byte_vector_string vm =
     rbind (vm_pop vm) (\<lambda>(vm, vector).
     rbind (get_obj vm vector) (\<lambda>o'.
       if otype o' \<noteq> BYTE_VECTOR then throw vm (chars ''u8->str requires a bytevector argument.'') [vector]
       else
         rbind (deref (blobs vm (snd (block (ovalue o'))))) (\<lambda>bytes.
         rbind (vm_make_string vm bytes (fst (block (ovalue o')))) (\<lambda>(vm, ob). Inr (vm_push vm ob)))))"

end
