(* ===== verification/Asm.thy ===== *)
theory Asm
  imports Hash_Props Buffer Ops
begin

text \<open>
  The assembler, \<open>src/src/libinsomniac_asm\<close>, and the macros of \<open>src/src/include/emit.h\<close>. The
  scanner is generated from \<open>lexer.l\<close>; here it is the list of tokens it returns, with the text and
  the line of each.
\<close>

section \<open>Emitting code\<close>

definition BYTE :: "u64 \<Rightarrow> nat \<Rightarrow> u8" where
  "BYTE i b = ucast (drop_bit (b * 8) (push_bit (b * 8) 0xFF AND i))"

definition INT_64 :: "u64 \<Rightarrow> u8 list" where
  "INT_64 i = [BYTE i 0, BYTE i 1, BYTE i 2, BYTE i 3, BYTE i 4, BYTE i 5, BYTE i 6, BYTE i 7]"

definition EMIT :: "buffer \<Rightarrow> u8 list \<Rightarrow> nat \<Rightarrow> buffer res" where
  "EMIT buf code n = buffer_write buf code n"

definition EMIT_LIT_FIXNUM :: "buffer \<Rightarrow> vm_int \<Rightarrow> buffer res" where
  "EMIT_LIT_FIXNUM buf i = EMIT buf (OP_LIT_FIXNUM # INT_64 i) 9"

definition LIT_CHAR :: "u32 \<Rightarrow> u8 list" where
  "LIT_CHAR c = [OP_LIT_CHAR, BYTE (ucast c) 0, BYTE (ucast c) 1, BYTE (ucast c) 2, BYTE (ucast c) 3]"

definition EMIT_LIT_CHAR :: "buffer \<Rightarrow> u32 \<Rightarrow> buffer res" where
  "EMIT_LIT_CHAR buf c = EMIT buf (LIT_CHAR c) 5"

definition EMIT_LIT_STRING :: "buffer \<Rightarrow> u8 list \<Rightarrow> buffer res" where
  "EMIT_LIT_STRING buf str =
     (let len = length (c_str str) in
      rbind (EMIT buf (INT_64 (of_nat len)) 8) (\<lambda>buf. buffer_write buf str len))"

section \<open>Numbers in text\<close>

text \<open>\<open>strtoq\<close> and \<open>strtoul\<close> of the standard library: an optional sign, then digits of the base,
  as many as there are; base 0 takes it from the prefix. The result saturates.\<close>

definition digit_value :: "u8 \<Rightarrow> nat" where
  "digit_value c = (let n = unat c in
     if 48 \<le> n \<and> n \<le> 57 then n - 48
     else if 97 \<le> n \<and> n \<le> 122 then n - 87
     else if 65 \<le> n \<and> n \<le> 90 then n - 55 else 99)"

fun digits :: "nat \<Rightarrow> nat \<Rightarrow> u8 list \<Rightarrow> nat" where
  "digits base acc [] = acc"
| "digits base acc (c # cs) =
     (if digit_value c < base then digits base (acc * base + digit_value c) cs else acc)"

definition magnitude :: "u8 list \<Rightarrow> nat" where
  "magnitude s = (case s of
       c0 # c1 # cs \<Rightarrow>
         if c0 = 48 \<and> (c1 = 120 \<or> c1 = 88) then digits 16 0 cs
         else if c0 = 48 then digits 8 0 s else digits 10 0 s
     | _ \<Rightarrow> digits 10 0 s)"

definition strtoq :: "u8 list \<Rightarrow> vm_int" where
  "strtoq s =
     (let s = c_str s;
          (neg, s) = (case s of [] \<Rightarrow> (False, []) | c # cs \<Rightarrow>
             if c = 45 then (True, cs) else if c = 43 then (False, cs) else (False, c # cs));
          n = int (magnitude s); i = (if neg then - n else n)
      in word_of_int (max (- (2 ^ 63)) (min (2 ^ 63 - 1) i)))"

definition strtoul16 :: "u8 list \<Rightarrow> u64" where
  "strtoul16 s = of_nat (min (2 ^ 64 - 1) (digits 16 0 (c_str s)))"

section \<open>Tokens and the state of the assembler\<close>

definition END_OF_FILE :: nat where "END_OF_FILE = OP_MAX_INS + 1"
definition LABEL_TOKEN :: nat where "LABEL_TOKEN = OP_MAX_INS + 2"
definition STRING_START_TOKEN :: nat where "STRING_START_TOKEN = OP_MAX_INS + 3"
definition STRING_END_TOKEN :: nat where "STRING_END_TOKEN = OP_MAX_INS + 4"
definition SYMBOL_START_TOKEN :: nat where "SYMBOL_START_TOKEN = OP_MAX_INS + 5"
definition DIRECTIVE_FILE :: nat where "DIRECTIVE_FILE = OP_MAX_INS + 6"

lemmas token_codes = END_OF_FILE_def LABEL_TOKEN_def STRING_START_TOKEN_def STRING_END_TOKEN_def
  SYMBOL_START_TOKEN_def DIRECTIVE_FILE_def OP_MAX_INS_def

record token =
  kind :: nat
  get_text :: "u8 list"
  lineno :: vm_int

fun yyasmlex :: "token list \<Rightarrow> token \<times> token list" where
  "yyasmlex [] = (\<lparr>kind = END_OF_FILE, get_text = [], lineno = 0\<rparr>, [])"
| "yyasmlex (t # ts) = (t, ts)"

record jump =
  jump_label :: "u8 list"
  jump_addr :: vm_int
  jump_lineno :: vm_int

record debug_state =
  ds_file :: "u8 list"
  ds_line :: vm_int
  ds_column :: vm_int
  ds_start :: vm_int

text \<open>The table of file names maps a name to the pointer to its copy, which reads the same; the
  model keeps 1 for that pointer.\<close>

record debug_info =
  files_store :: "(u8 list, nat) hstore"
  files :: hash_table
  states :: "debug_state list"

record asm_state =
  buf :: buffer
  labels_store :: "(u8 list, vm_int) hstore"
  labels :: hash_table
  jump_list :: "jump list"
  debug_out :: "debug_info option"

section \<open>Debug information\<close>

definition push_debug :: "debug_info \<Rightarrow> u8 list \<Rightarrow> vm_int \<Rightarrow> vm_int \<Rightarrow> vm_int \<Rightarrow> debug_info" where
  "push_debug d file line column a =
     (if states d \<noteq> [] \<and> c_str (ds_file (last (states d))) = c_str file
         \<and> ds_line (last (states d)) = line \<and> ds_column (last (states d)) = column
      then d
      else d\<lparr>states := states d @ [\<lparr>ds_file = file, ds_line = line, ds_column = column, ds_start = a\<rparr>]\<rparr>)"

text \<open>\<open>int\<close> cuts the number to 32 bits.\<close>

definition get_debug_num :: "token list \<Rightarrow> (vm_int \<times> token list) res" where
  "get_debug_num toks =
     (let (t, toks) = yyasmlex toks in
      if kind t \<noteq> unat OP_LIT_FIXNUM then Inl Assert_Failed
      else Inr (scast (ucast (strtoq (get_text t)) :: u32), toks))"

text \<open>
  \<open>filename\<close> points into the scanner's input: when the next token has been read, the null after
  the name is gone and the name runs on to the end of that token, the closing quote. Dropping the
  last character when the name is copied relies on this.
\<close>

definition add_debug_file :: "token list \<Rightarrow> debug_info \<Rightarrow> vm_int \<Rightarrow> (debug_info \<times> token list) res" where
  "add_debug_file toks d a =
     (let (t, toks) = yyasmlex toks in
      if kind t \<noteq> STRING_START_TOKEN then Inl Assert_Failed
      else
        let (t, toks) = yyasmlex toks;
            (filename, t, toks) =
              (if kind t = unat OP_LIT_STRING
               then (let (t2, toks) = yyasmlex toks in (Some (get_text t @ get_text t2), t2, toks))
               else (None, t, toks))
        in if kind t \<noteq> STRING_END_TOKEN then Inl Assert_Failed
           else rbind (deref filename) (\<lambda>filename.
             rbind (hash_get hash_string hash_string_cmp (files_store d) (files d) filename) (\<lambda>found.
             rbind (case found of
                      Some p \<Rightarrow> Inr (d, c_str filename)
                    | None \<Rightarrow>
                        let v = strncpy_bytes filename (length (c_str filename) - 1) in
                        rbind (hash_set hash_string hash_string_cmp (files_store d) (files d) v 1)
                          (\<lambda>(st, t). Inr (d\<lparr>files_store := st, files := t\<rparr>, v)))
               (\<lambda>(d, file).
             rbind (get_debug_num toks) (\<lambda>(line, toks).
             rbind (get_debug_num toks) (\<lambda>(column, toks).
               Inr (push_debug d file line column a, toks)))))))"

section \<open>Literals, labels and jumps\<close>

definition asm_lit_fixnum :: "asm_state \<Rightarrow> token \<Rightarrow> asm_state res" where
  "asm_lit_fixnum s t =
     rbind (EMIT_LIT_FIXNUM (buf s) (strtoq (get_text t))) (\<lambda>b. Inr (s\<lparr>buf := b\<rparr>))"

definition asm_lit_char :: "asm_state \<Rightarrow> token \<Rightarrow> asm_state res" where
  "asm_lit_char s t =
     (let str = c_str (get_text t);
          c = (if str = chars ''newline'' then 10
               else if str = chars ''space'' then 32
               else if str = chars ''eof'' then - 1
               else if str \<noteq> [] \<and> hd str = 120 \<and> 1 < length str then ucast (strtoul16 (tl str))
               else if str = [] then 0 else scast (hd str))
      in rbind (EMIT_LIT_CHAR (buf s) c) (\<lambda>b. Inr (s\<lparr>buf := b\<rparr>)))"

definition asm_lit_string :: "asm_state \<Rightarrow> token list \<Rightarrow> (asm_state \<times> token list) res" where
  "asm_lit_string s toks =
     (let (t, toks) = yyasmlex toks in
      rbind (if kind t = unat OP_LIT_STRING
             then rbind (EMIT_LIT_STRING (buf s) (get_text t)) (\<lambda>b.
                  let (t, toks) = yyasmlex toks in Inr (s\<lparr>buf := b\<rparr>, t, toks, False))
             else Inr (s, t, toks, True)) (\<lambda>(s, t, toks, empty).
        if kind t = STRING_END_TOKEN
        then if empty
             then rbind (EMIT_LIT_STRING (buf s) []) (\<lambda>b. Inr (s\<lparr>buf := b\<rparr>, toks))
             else Inr (s, toks)
        else Inl Assert_Failed))"

definition asm_label :: "asm_state \<Rightarrow> u8 list \<Rightarrow> asm_state res" where
  "asm_label s str =
     rbind (hash_set hash_string hash_string_cmp (labels_store s) (labels s) (c_str str)
              (of_nat (buffer_size (buf s)))) (\<lambda>(st, t).
       Inr (s\<lparr>labels_store := st, labels := t\<rparr>))"

text \<open>The line is the scanner's before it reads the label.\<close>

definition asm_jump :: "asm_state \<Rightarrow> token \<Rightarrow> token list \<Rightarrow> (asm_state \<times> token list) res" where
  "asm_jump s op_tok toks =
     (let (t, toks) = yyasmlex toks in
      if kind t \<noteq> LABEL_TOKEN then Inl Assert_Failed
      else
        let jump = \<lparr>jump_label = c_str (get_text t), jump_addr = of_nat (buffer_size (buf s)),
                    jump_lineno = lineno op_tok\<rparr>
        in rbind (EMIT (buf s) (INT_64 0) 8) (\<lambda>b.
             Inr (s\<lparr>jump_list := jump # jump_list s, buf := b\<rparr>, toks)))"

fun write_bytes :: "u8 list \<Rightarrow> nat \<Rightarrow> u8 list \<Rightarrow> u8 list res" where
  "write_bytes code a [] = Inr code"
| "write_bytes code a (b # bs) =
     (if a < length code then write_bytes (code[a := b]) (a + 1) bs else Inl Out_Of_Bounds)"

fun rewrite_jumps :: "u8 list \<Rightarrow> jump list \<Rightarrow> (u8 list, vm_int) hstore \<Rightarrow> hash_table \<Rightarrow> u8 list res" where
  "rewrite_jumps code [] st lbls = Inr code"
| "rewrite_jumps code (j # js) st lbls =
     rbind (hash_get hash_string hash_string_cmp st lbls (jump_label j)) (\<lambda>found.
       case found of
         None \<Rightarrow> Inl Assert_Failed
       | Some label_addr \<Rightarrow>
           let target = label_addr - jump_addr j - 8
           in rbind (write_bytes code (unat (jump_addr j)) (INT_64 target)) (\<lambda>code.
                rewrite_jumps code js st lbls))"

section \<open>The assembler\<close>

definition jump_ops :: "u8 list" where
  "jump_ops = [OP_JMP, OP_JNF, OP_CALL, OP_PROC, OP_CONTINUE]"

text \<open>One round of the loop of \<open>asm_string\<close>: a token that is not the end of the input.\<close>

definition asm_token :: "asm_state \<Rightarrow> token \<Rightarrow> token list \<Rightarrow> (asm_state \<times> token list) res" where
  "asm_token s t toks =
     (if kind t = unat OP_LIT_FIXNUM then rbind (asm_lit_fixnum s t) (\<lambda>s. Inr (s, toks))
      else if kind t = unat OP_LIT_CHAR then rbind (asm_lit_char s t) (\<lambda>s. Inr (s, toks))
      else if kind t = STRING_START_TOKEN then
        rbind (EMIT (buf s) [OP_LIT_STRING] 1) (\<lambda>b. asm_lit_string (s\<lparr>buf := b\<rparr>) toks)
      else if kind t = SYMBOL_START_TOKEN then
        rbind (EMIT (buf s) [OP_LIT_SYMBOL] 1) (\<lambda>b. asm_lit_string (s\<lparr>buf := b\<rparr>) toks)
      else if kind t \<in> unat ` set jump_ops then
        rbind (EMIT (buf s) [of_nat (kind t)] 1) (\<lambda>b. asm_jump (s\<lparr>buf := b\<rparr>) t toks)
      else if kind t = LABEL_TOKEN then rbind (asm_label s (get_text t)) (\<lambda>s. Inr (s, toks))
      else if kind t = DIRECTIVE_FILE then
        (case debug_out s of
           None \<Rightarrow> Inr (s, toks)
         | Some d \<Rightarrow> rbind (add_debug_file toks d (of_nat (buffer_size (buf s)))) (\<lambda>(d, toks).
             Inr (s\<lparr>debug_out := Some d\<rparr>, toks)))
      else if kind t < OP_MAX_INS then
        rbind (EMIT (buf s) [of_nat (kind t)] 1) (\<lambda>b. Inr (s\<lparr>buf := b\<rparr>, toks))
      else Inr (s, toks))"

lemma yyasmlex_length: "yyasmlex toks = (t, toks') \<Longrightarrow> length toks' \<le> length toks"
  by (cases toks) auto

lemma get_debug_num_length: "get_debug_num toks = Inr (n, toks') \<Longrightarrow> length toks' \<le> length toks"
  by (auto simp: get_debug_num_def Let_def split: prod.splits if_splits dest: yyasmlex_length)

lemma add_debug_file_length:
  "add_debug_file toks d a = Inr (d', toks') \<Longrightarrow> length toks' \<le> length toks"
  by (auto simp: add_debug_file_def Let_def res_simps split: prod.splits if_splits option.splits
      dest!: yyasmlex_length get_debug_num_length)

lemma asm_lit_string_length:
  assumes "asm_lit_string s toks = Inr (s', toks')"
  shows "length toks' \<le> length toks"
proof -
  obtain t1 r1 where y1: "yyasmlex toks = (t1, r1)" by force
  obtain t2 r2 where y2: "yyasmlex r1 = (t2, r2)" by force
  show ?thesis using assms yyasmlex_length [OF y1] yyasmlex_length [OF y2]
    by (auto simp: asm_lit_string_def y1 y2 res_simps split: if_splits)
qed

lemma asm_jump_length: "asm_jump s t toks = Inr (s', toks') \<Longrightarrow> length toks' \<le> length toks"
  by (auto simp: asm_jump_def Let_def res_simps split: prod.splits if_splits dest: yyasmlex_length)

lemma asm_token_length: "asm_token s t toks = Inr (s', toks') \<Longrightarrow> length toks' \<le> length toks"
  by (auto simp: asm_token_def res_simps split: if_splits option.splits
      dest!: asm_lit_string_length asm_jump_length add_debug_file_length)

function asm_loop :: "asm_state \<Rightarrow> token list \<Rightarrow> asm_state res" where
  "asm_loop s [] = Inr s"
| "asm_loop s (t # toks) =
     (if kind t = END_OF_FILE then Inr s
      else rbind (asm_token s t toks) (\<lambda>(s, toks). asm_loop s toks))"
  by pat_completeness auto
termination
  by (relation "measure (\<lambda>(s, toks). length toks)") (auto dest!: asm_token_length)

text \<open>The state the loop starts in: an empty buffer, an empty table of labels and, when debug
  information is wanted, an empty table of files.\<close>

definition asm_start :: "bool \<Rightarrow> asm_state res" where
  "asm_start dbg =
     rbind (hash_create hash_string hash_string_cmp \<lparr>arrays = (\<lambda>_. None), next_array = 1\<rparr>) (\<lambda>(st, t).
     rbind (if dbg
            then rbind (hash_create hash_string hash_string_cmp \<lparr>arrays = (\<lambda>_. None), next_array = 1\<rparr>)
                   (\<lambda>(fst', ft). Inr (Some \<lparr>files_store = fst', files = ft, states = []\<rparr>))
            else Inr None) (\<lambda>d.
       Inr \<lparr>buf = buffer_create, labels_store = st, labels = t, jump_list = [], debug_out = d\<rparr>))"

definition asm_string :: "token list \<Rightarrow> bool \<Rightarrow> (u8 list \<times> debug_info option) res" where
  "asm_string toks dbg =
     rbind (asm_start dbg) (\<lambda>s.
     rbind (asm_loop s toks) (\<lambda>s.
       let code = buffer_read (buf s) (buffer_size (buf s)) in
       rbind (rewrite_jumps code (jump_list s) (labels_store s) (labels s)) (\<lambda>code.
         Inr (code, debug_out s))))"

end
