(* ===== verification/Asm_Scan.thy ===== *)
theory Asm_Scan
  imports Asm
begin

text \<open>
  The scanner of the assembler, \<open>libinsomniac_asm/lexer.l\<close>: its patterns, its rules in the order of the
  file, and the scanner \<open>flex\<close> makes of them, which takes the longest match and of equal ones the first.
  The lemmas say that a line whose strings are closed is read on its own.
\<close>

section \<open>Patterns\<close>

text \<open>A pattern gives the length of its longest match at the start of the input, with the trailing context,
  and the length of the text without it; no match is length 0.\<close>

type_synonym pattern = "u8 list \<Rightarrow> nat \<times> nat"

definition between :: "nat \<Rightarrow> nat \<Rightarrow> u8 \<Rightarrow> bool" where
  "between a b ch \<longleftrightarrow> a \<le> unat ch \<and> unat ch \<le> b"

definition is_ws :: "u8 \<Rightarrow> bool" where
  "is_ws ch \<longleftrightarrow> ch = 10 \<or> ch = 13 \<or> ch = 32 \<or> ch = 9"

definition digit :: "u8 \<Rightarrow> bool" where
  "digit ch \<longleftrightarrow> between 48 57 ch"

definition alnum :: "u8 \<Rightarrow> bool" where
  "alnum ch \<longleftrightarrow> digit ch \<or> between 65 90 ch \<or> between 97 122 ch"

text \<open>\<open>!$%&*+-./<=>?@^_~\<close> and the alphanumeric characters.\<close>

definition ident :: "u8 \<Rightarrow> bool" where
  "ident ch \<longleftrightarrow> alnum ch \<or> ch \<in> set [33, 36, 37, 38, 42, 43, 45, 46, 47, 60, 61, 62, 63, 64, 94, 95, 126]"

definition xdigit :: "u8 \<Rightarrow> bool" where
  "xdigit ch \<longleftrightarrow> digit ch \<or> between 65 70 ch \<or> between 97 102 ch"

fun run_of :: "(u8 \<Rightarrow> bool) \<Rightarrow> u8 list \<Rightarrow> nat" where
  "run_of P [] = 0"
| "run_of P (c # cs) = (if P c then Suc (run_of P cs) else 0)"

fun starts :: "u8 list \<Rightarrow> u8 list \<Rightarrow> bool" where
  "starts [] s = True"
| "starts (p # ps) [] = False"
| "starts (p # ps) (c # cs) = (p = c \<and> starts ps cs)"

definition whole :: "nat \<Rightarrow> nat \<times> nat" where "whole n = (n, n)"

definition lit :: "u8 list \<Rightarrow> pattern" where
  "lit p s = whole (if starts p s then length p else 0)"

definition one :: "(u8 \<Rightarrow> bool) \<Rightarrow> pattern" where
  "one P s = whole (case s of c # _ \<Rightarrow> if P c then 1 else 0 | [] \<Rightarrow> 0)"

definition many :: "(u8 \<Rightarrow> bool) \<Rightarrow> pattern" where
  "many P s = whole (run_of P s)"

text \<open>\<open>";".*$\<close>\<close>

definition comment :: pattern where
  "comment s = (case s of
       c # cs \<Rightarrow> let n = run_of (\<lambda>ch. ch \<noteq> 10) cs in
         if c = 59 \<and> starts [10] (drop n cs) then (n + 2, n + 1) else (0, 0)
     | [] \<Rightarrow> (0, 0))"

text \<open>\<open>{SIGNS}?{DIGITS}\<close>\<close>

definition number :: pattern where
  "number s =
     (case s of
        c # cs \<Rightarrow>
          if c = 43 \<or> c = 45 then (let n = run_of digit cs in whole (if n = 0 then 0 else n + 1))
          else whole (run_of digit s)
      | [] \<Rightarrow> whole 0)"

text \<open>\<open>{LABEL}/":"\<close>\<close>

definition label_mark :: pattern where
  "label_mark s = (let n = run_of ident s in if n \<noteq> 0 \<and> starts [58] (drop n s) then (n + 1, n) else (0, 0))"

text \<open>\<open>"x"[[:xdigit:]]+\<close>\<close>

definition hex_char :: pattern where
  "hex_char s = (case s of
       c # cs \<Rightarrow> let n = run_of xdigit cs in whole (if c = 120 \<and> n \<noteq> 0 then n + 1 else 0)
     | [] \<Rightarrow> whole 0)"

text \<open>\<open>([^\"]|\\\")*\<close>: up to a quote that does not follow a backslash.\<close>

fun body :: "bool \<Rightarrow> u8 list \<Rightarrow> nat" where
  "body escaped [] = 0"
| "body escaped (c # cs) =
     (if c = 34 then (if escaped then Suc (body False cs) else 0) else Suc (body (c = 92) cs))"

definition string_body :: pattern where
  "string_body s = whole (body False s)"

section \<open>Rules\<close>

datatype start_cond = INITIAL | EXPECT_CHAR | EXPECT_STRING | EXPECT_TARGET | EXPECT_LABEL

text \<open>A pattern, the condition its action begins, and the token it returns, if any.\<close>

type_synonym rule = "pattern \<times> start_cond \<times> nat option"

text \<open>The words, in the order of the file.\<close>

definition words :: "(string \<times> start_cond \<times> u8) list" where
  "words =
     [(''#t'', INITIAL, OP_LIT_TRUE), (''#f'', INITIAL, OP_LIT_FALSE), (''()'', INITIAL, OP_LIT_EMPTY),
      (''fixnum?'', INITIAL, OP_IS_FIXNUM), (''bool?'', INITIAL, OP_IS_BOOL), (''char?'', INITIAL, OP_IS_CHAR),
      (''string?'', INITIAL, OP_IS_STRING), (''symbol?'', INITIAL, OP_IS_SYMBOL), (''vector?'', INITIAL, OP_IS_VECTOR),
      (''vector-u8?'', INITIAL, OP_IS_BYTE_VECTOR), (''record?'', INITIAL, OP_IS_RECORD), (''pair?'', INITIAL, OP_IS_PAIR),
      (''null?'', INITIAL, OP_IS_EMPTY), (''proc?'', INITIAL, OP_IS_CLOSURE), (''self?'', INITIAL, OP_IS_SELF),
      (''vector'', INITIAL, OP_MAKE_VECTOR), (''vector-u8'', INITIAL, OP_MAKE_BYTE_VECTOR), (''record'', INITIAL, OP_MAKE_RECORD),
      (''idx@'', INITIAL, OP_INDEX_REF), (''idx!'', INITIAL, OP_INDEX_SET), (''vec-len'', INITIAL, OP_VECTOR_LENGTH),
      (''str->u8'', INITIAL, OP_STRING_BYTE_VECTOR), (''u8->str'', INITIAL, OP_BYTE_VECTOR_STRING),
      (''out'', INITIAL, OP_OUTPUT), (''read'', INITIAL, OP_FD_READ), (''write'', INITIAL, OP_FD_WRITE),
      (''open'', INITIAL, OP_OPEN), (''close'', INITIAL, OP_CLOSE), (''slurp'', INITIAL, OP_SLURP),
      (''asm'', INITIAL, OP_ASM), (''import'', INITIAL, OP_IMPORT),
      (''nop'', INITIAL, OP_NOP), (''dup'', INITIAL, OP_DUP_REF), (''depth'', INITIAL, OP_DEPTH),
      (''drop'', INITIAL, OP_DROP), (''swap'', INITIAL, OP_SWAP), (''rot'', INITIAL, OP_ROT), (''sym'', INITIAL, OP_MAKE_SYMBOL),
      (''cons'', INITIAL, OP_CONS), (''car'', INITIAL, OP_CAR), (''cdr'', INITIAL, OP_CDR),
      (''set-car'', INITIAL, OP_SET_CAR), (''set-cdr'', INITIAL, OP_SET_CDR),
      (''bind'', INITIAL, OP_BIND), (''!'', INITIAL, OP_SET), (''@'', INITIAL, OP_READ),
      (''+'', INITIAL, OP_ADD), (''-'', INITIAL, OP_SUB), (''*'', INITIAL, OP_MUL), (''/'', INITIAL, OP_DIV), (''%'', INITIAL, OP_MOD),
      (''='', INITIAL, OP_NUMERIC_EQUAL), (''<'', INITIAL, OP_NUMERIC_LT), (''>'', INITIAL, OP_NUMERIC_GT),
      (''eq'', INITIAL, OP_EQ), (''not'', INITIAL, OP_NOT),
      (''restore'', INITIAL, OP_RESTORE), (''set-exit'', INITIAL, OP_SET_EXIT), (''adopt'', INITIAL, OP_ADOPT),
      (''proc'', EXPECT_TARGET, OP_PROC), (''call'', EXPECT_TARGET, OP_CALL), (''continue'', EXPECT_TARGET, OP_CONTINUE),
      (''jnf'', EXPECT_TARGET, OP_JNF), (''jmp'', EXPECT_TARGET, OP_JMP), (''gc-stats'', INITIAL, OP_GC_STATS)]"

text \<open>The words after \<open>.file\<close>.\<close>

definition more_words :: "(string \<times> start_cond \<times> u8) list" where
  "more_words =
     [(''jin'', INITIAL, OP_JIN), (''ret'', INITIAL, OP_RET), (''call_in'', INITIAL, OP_CALL_IN),
      (''tail_call_in'', INITIAL, OP_TAIL_CALL_IN), (''call_ext'', INITIAL, OP_CALL_EXT)]"

definition word_rule :: "string \<times> start_cond \<times> u8 \<Rightarrow> rule" where
  "word_rule = (\<lambda>(w, sc, k). (lit (chars w), sc, Some (unat k)))"

fun rules :: "start_cond \<Rightarrow> rule list" where
  "rules INITIAL =
     [(one is_ws, INITIAL, None), (comment, INITIAL, None), (number, INITIAL, Some (unat OP_LIT_FIXNUM))]
     @ map word_rule words
     @ [(lit (chars ''.file''), INITIAL, Some DIRECTIVE_FILE)]
     @ map word_rule more_words
     @ [(label_mark, EXPECT_LABEL, Some LABEL_TOKEN), (lit [35, 92], EXPECT_CHAR, None),
        (lit [115, 34], EXPECT_STRING, Some SYMBOL_START_TOKEN), (lit [83, 34], EXPECT_STRING, Some SYMBOL_START_TOKEN),
        (lit [92], INITIAL, None), (lit [34], EXPECT_STRING, Some STRING_START_TOKEN)]"
| "rules EXPECT_TARGET = [(many ident, INITIAL, Some LABEL_TOKEN), (one is_ws, EXPECT_TARGET, None)]"
| "rules EXPECT_LABEL = [(lit [58], INITIAL, None)]"
| "rules EXPECT_CHAR =
     [(hex_char, INITIAL, Some (unat OP_LIT_CHAR)), (lit (chars ''newline''), INITIAL, Some (unat OP_LIT_CHAR)),
      (lit (chars ''space''), INITIAL, Some (unat OP_LIT_CHAR)), (lit (chars ''eof''), INITIAL, Some (unat OP_LIT_CHAR)),
      (one (\<lambda>ch. ch \<notin> set [123, 87, 83, 125]), INITIAL, Some (unat OP_LIT_CHAR))]"
| "rules EXPECT_STRING =
     [(string_body, EXPECT_STRING, Some (unat OP_LIT_STRING)), (lit [34], INITIAL, Some STRING_END_TOKEN)]"

text \<open>The longest match wins, and of matches of one length the first rule.\<close>

fun longest :: "(pattern \<times> 'a) list \<Rightarrow> u8 list \<Rightarrow> nat \<times> nat \<times> 'a option" where
  "longest [] s = (0, 0, None)"
| "longest ((p, act) # rs) s =
     (let (t, l) = p s; (t', l', a) = longest rs s in
      if t \<noteq> 0 \<and> t' \<le> t then (t, l, Some act) else (t', l', a))"

section \<open>The scanner\<close>

definition newlines :: "u8 list \<Rightarrow> nat" where
  "newlines s = length (filter (\<lambda>ch. ch = 10) s)"

text \<open>The tokens of an input, each with its text and the line after it. A character that starts no match is
  only reported.\<close>

function scan :: "start_cond \<Rightarrow> nat \<Rightarrow> u8 list \<Rightarrow> token list" where
  "scan sc lno [] = []"
| "scan sc lno (c # cs) =
     (case longest (rules sc) (c # cs) of
        (t, l, None) \<Rightarrow> scan sc (lno + newlines [c]) cs
      | (t, l, Some (sc', tok)) \<Rightarrow>
          let txt = c # take (l - 1) cs; lno' = lno + newlines txt in
          (case tok of None \<Rightarrow> [] | Some k \<Rightarrow> [\<lparr>kind = k, get_text = txt, lineno = of_nat lno'\<rparr>])
            @ scan sc' lno' (drop (l - 1) cs))"
  by pat_completeness auto
termination by (relation "measure (\<lambda>(sc, lno, s). length s)") auto

text \<open>\<open>yyasm_scan_string\<close> reads up to the null.\<close>

definition yyasm_scan :: "u8 list \<Rightarrow> token list" where
  "yyasm_scan str = scan INITIAL 1 (c_str str)"

section \<open>Lines\<close>

text \<open>Outside strings a pattern does not look past the end of a line.\<close>

definition local :: "pattern \<Rightarrow> bool" where
  "local p \<longleftrightarrow> (\<forall>w rest. 10 \<notin> set w \<longrightarrow> p (w @ 10 # rest) = p (w @ [10]))"

lemma run_of_append: "\<not> P c \<Longrightarrow> run_of P (w @ c # rest) = run_of P w"
  by (induction w) auto

lemma run_of_all: "\<forall>c\<in>set w. P c \<Longrightarrow> run_of P w = length w"
  by (induction w) auto

lemma starts_local: "10 \<notin> set p \<Longrightarrow> starts p (w @ 10 # rest) = starts p (w @ [10])"
proof (induction w arbitrary: p)
  case Nil
  then show ?case by (cases p) auto
next
  case (Cons c w)
  then show ?case by (cases p) auto
qed

lemma drop_run: "n \<le> length w \<Longrightarrow> starts p (drop n (w @ s)) = starts p (drop n w @ s)"
  by simp

lemma run_of_le: "run_of P w \<le> length w"
  by (induction w) auto

lemma local_lit: "10 \<notin> set p \<Longrightarrow> local (lit p)"
  unfolding local_def lit_def
  by (intro allI impI arg_cong [where f = whole] if_cong starts_local refl)

lemma local_one: "local (one P)"
proof -
  have "one P (w @ 10 # rest) = one P (w @ [10])" for w rest by (cases w) (simp_all add: one_def)
  then show ?thesis by (simp add: local_def)
qed

lemma local_many: "\<not> P 10 \<Longrightarrow> local (many P)"
  by (simp add: local_def many_def run_of_append)

lemma starts_one: "starts [c] (w @ 10 # rest) = starts [c] (w @ [10])"
  by (cases w) auto

lemma local_comment: "local comment"
proof -
  have "comment (w @ 10 # rest) = comment (w @ [10])" for w rest
  proof (cases w)
    case (Cons c cs)
    have "run_of (\<lambda>ch. ch \<noteq> 10) (cs @ 10 # r) = run_of (\<lambda>ch. ch \<noteq> 10) cs" for r by (simp add: run_of_append)
    moreover have "drop (run_of (\<lambda>ch. ch \<noteq> 10) cs) (cs @ 10 # r) = drop (run_of (\<lambda>ch. ch \<noteq> 10) cs) cs @ 10 # r" for r
      using run_of_le [of "\<lambda>ch. ch \<noteq> 10" cs] by simp
    ultimately show ?thesis using starts_one [of 10 "drop (run_of (\<lambda>ch. ch \<noteq> 10) cs) cs" rest]
      by (simp add: comment_def Cons Let_def)
  qed (simp add: comment_def)
  then show ?thesis by (simp add: local_def)
qed

lemma not_digit_10: "\<not> digit 10" "\<not> xdigit 10" "\<not> ident 10"
  by (simp_all add: digit_def xdigit_def ident_def alnum_def between_def)

lemma local_number: "local number"
proof -
  have "number (w @ 10 # rest) = number (w @ [10])" for w rest
    using run_of_append [of digit 10 "tl w"] run_of_append [of digit 10 w] not_digit_10
    by (cases w) (simp_all add: number_def Let_def)
  then show ?thesis by (simp add: local_def)
qed

lemma local_hex: "local hex_char"
proof -
  have "hex_char (w @ 10 # rest) = hex_char (w @ [10])" for w rest
    using not_digit_10 by (cases w) (simp_all add: hex_char_def Let_def run_of_append)
  then show ?thesis by (simp add: local_def)
qed

lemma local_label: "local label_mark"
proof -
  have "label_mark (w @ 10 # rest) = label_mark (w @ [10])" for w rest
  proof -
    have "run_of ident (w @ 10 # r) = run_of ident w" for r using not_digit_10 by (simp add: run_of_append)
    moreover have "drop (run_of ident w) (w @ 10 # r) = drop (run_of ident w) w @ 10 # r" for r
      using run_of_le [of ident w] by simp
    ultimately show ?thesis using starts_one [of 58 "drop (run_of ident w) w" rest] by (simp add: label_mark_def Let_def)
  qed
  then show ?thesis by (simp add: local_def)
qed

lemma longest_local:
  "\<forall>(p, act)\<in>set rs. local p \<Longrightarrow> 10 \<notin> set w \<Longrightarrow> longest rs (w @ 10 # rest) = longest rs (w @ [10])"
proof (induction rs)
  case (Cons r rs)
  obtain p act where r: "r = (p, act)" by (cases r)
  have "local p" "\<forall>(p, act)\<in>set rs. local p" using Cons.prems(1) by (simp_all add: r)
  note p = this(1) [unfolded local_def, rule_format, OF Cons.prems(2), of rest] and l = Cons.IH [OF this(2) Cons.prems(2)]
  show ?case by (simp only: r longest.simps p l)
qed simp

lemma words_one_line: "list_all (\<lambda>(w, sc, k). 10 \<notin> set (chars w)) (words @ more_words)"
  by (simp add: words_def more_words_def chars_def)

lemma word_rules_local: "\<forall>(p, act)\<in>set (map word_rule words) \<union> set (map word_rule more_words). local p"
proof -
  have "local (fst (word_rule x))" if "x \<in> set words \<union> set more_words" for x
    using that words_one_line local_lit by (cases x) (auto simp: list_all_iff word_rule_def)
  then show ?thesis by (auto simp: case_prod_beta)
qed

lemma rules_local:
  assumes "sc \<noteq> EXPECT_STRING"
  shows "\<forall>(p, act)\<in>set (rules sc). local p"
proof (cases sc)
  case INITIAL
  have "local (lit (chars ''.file''))" by (rule local_lit) (simp add: chars_def)
  then show ?thesis using word_rules_local local_one local_comment local_number local_label
    by (auto simp: INITIAL intro!: local_lit)
next
  case EXPECT_CHAR
  have "10 \<notin> set (chars ''newline'')" "10 \<notin> set (chars ''space'')" "10 \<notin> set (chars ''eof'')" by (simp_all add: chars_def)
  then show ?thesis by (simp add: EXPECT_CHAR local_lit local_hex local_one)
next
  case EXPECT_TARGET
  then show ?thesis by (simp add: local_many local_one not_digit_10)
next
  case EXPECT_LABEL
  then show ?thesis by (simp add: local_lit)
qed (use assms in simp)


text \<open>The scanner reads a line to its end and is then where it began.\<close>

function line_ok :: "start_cond \<Rightarrow> u8 list \<Rightarrow> bool" where
  "line_ok sc [] = (sc = INITIAL)"
| "line_ok sc (c # cs) =
     (case longest (rules sc) (c # cs @ [10]) of
        (t, l, None) \<Rightarrow> line_ok sc cs
      | (t, l, Some (sc', tok)) \<Rightarrow>
          l \<le> length (c # cs) \<and> (sc = EXPECT_STRING \<longrightarrow> c = 34 \<or> l < length (c # cs)) \<and> line_ok sc' (drop (l - 1) cs))"
  by pat_completeness auto
termination by (relation "measure (\<lambda>(sc, s). length s)") auto

lemma body_local: "body e (w @ [10]) < length w \<Longrightarrow> body e (w @ 10 # rest) = body e (w @ [10])"
  by (induction w arbitrary: e) (auto split: if_splits)

lemma longest_line:
  assumes "10 \<notin> set (c # cs)" "longest (rules sc) (c # cs @ [10]) = (t, l, a)"
    "sc = EXPECT_STRING \<Longrightarrow> a \<noteq> None \<Longrightarrow> c = 34 \<or> l < length (c # cs)"
  shows "longest (rules sc) (c # cs @ 10 # rest) = (t, l, a)"
proof (cases "sc = EXPECT_STRING")
  case False
  from longest_local [OF rules_local [OF this] assms(1), of rest] show ?thesis using assms(2) by simp
next
  case True
  show ?thesis
  proof (cases "c = 34")
    case True
    then show ?thesis using assms(2) \<open>sc = EXPECT_STRING\<close> by (simp add: string_body_def whole_def lit_def)
  next
    case False
    have "t = Suc (body (c = 92) (cs @ [10])) \<and> l = t \<and> a = Some (EXPECT_STRING, Some (unat OP_LIT_STRING))"
      using assms(2) False True by (auto simp: string_body_def whole_def lit_def)
    moreover from this have "body (c = 92) (cs @ [10]) < length cs" using assms(3) True False by simp
    ultimately show ?thesis using assms(2) False True body_local [of "c = 92" cs rest]
      by (simp add: string_body_def whole_def lit_def)
  qed
qed

lemma newlines_simps [simp]: "newlines [] = 0" "newlines (c # cs) = (if c = 10 then 1 else 0) + newlines cs"
  "newlines (xs @ ys) = newlines xs + newlines ys"
  by (simp_all add: newlines_def)

lemma newlines_none: "10 \<notin> set w \<Longrightarrow> newlines w = 0"
  by (auto simp: newlines_def filter_empty_conv)

lemma scan_newline: "scan INITIAL lno (10 # rest) = scan INITIAL (Suc lno) rest"
proof -
  have "longest (rules INITIAL) (10 # rest) = longest (rules INITIAL) [10]"
    using longest_local [OF rules_local [of INITIAL], of "[]" rest] by simp
  also have "\<dots> = (1, 1, Some (INITIAL, None))" by code_simp
  finally show ?thesis by simp
qed

lemma scan_line:
  assumes "line_ok sc w" "10 \<notin> set w"
  shows "scan sc lno (w @ 10 # rest) = scan sc lno (w @ [10]) @ scan INITIAL (Suc lno) rest"
  using assms
proof (induction sc w arbitrary: lno rule: line_ok.induct)
  case (1 sc)
  then show ?case using scan_newline [of lno rest] scan_newline [of lno "[]"] by simp
next
  case (2 sc c cs)
  obtain t l a where m: "longest (rules sc) (c # cs @ [10]) = (t, l, a)" by (metis prod_cases3)
  show ?case
  proof (cases a)
    case None
    have "longest (rules sc) (c # cs @ 10 # rest) = (t, l, None)"
      using longest_line [OF _ m, of rest] 2 None by simp
    then show ?thesis using 2 None m by simp
  next
    case (Some r)
    obtain sc' tok where r: "r = (sc', tok)" by (cases r)
    have l: "l \<le> length (c # cs)" "sc = EXPECT_STRING \<longrightarrow> c = 34 \<or> l < length (c # cs)" "line_ok sc' (drop (l - 1) cs)"
      using "2.prems"(1) m Some r by simp_all
    have b: "longest (rules sc) (c # cs @ 10 # rest) = (t, l, a)"
      using longest_line [OF _ m, of rest] 2 l(2) by simp
    have n: "newlines (c # take (l - 1) cs) = 0" "10 \<notin> set (drop (l - 1) cs)" using "2.prems"(2)
      by (auto intro!: newlines_none dest: in_set_takeD in_set_dropD)
    have tk: "take (l - 1) (cs @ y) = take (l - 1) cs" "drop (l - 1) (cs @ y) = drop (l - 1) cs @ y" for y
      using l(1) by simp_all
    with "2.IH"(2) [OF m [symmetric] refl Some r [symmetric]] l n show ?thesis
      using m b Some r
      by (cases tok) (simp_all add: Let_def tk [unfolded One_nat_def] del: take_append drop_append)
  qed
qed

end
