(* ===== verification/Vm_Io.thy ===== *)
theory Vm_Io
  imports Vm_Flow Asm_Scan
begin

text \<open>
  Output and the instructions that reach outside the machine: \<open>vm_output.c\<close>, \<open>vm_exception.c\<close>
  (\<open>find_source_location\<close>), \<open>vm_io.c\<close> and \<open>vm_library.c\<close>. The operating system, the dynamic linker,
  the functions of loaded libraries and the generated scanner are arguments of the definitions,
  gathered in the record \<open>externs\<close>; they work on \<open>world\<close>.
\<close>

section \<open>What lies outside\<close>

text \<open>
  A system call gives its result or the \<open>errno\<close>. \<open>x_exports\<close> is the list of bindings at a pointer, up
  to the entry without function that ends it. \<open>x_call\<close> is a library function, \<open>x_gc_stats\<close> what
  \<open>gc_stats\<close> prints and \<open>x_ptr\<close> the text of an address.
\<close>

record 'w externs =
  x_open :: "u8 list \<Rightarrow> bool \<Rightarrow> 'w \<Rightarrow> (u32 + u32) \<times> 'w"
  x_close :: "u32 \<Rightarrow> 'w \<Rightarrow> u32 option \<times> 'w"
  x_write :: "u32 \<Rightarrow> u8 list \<Rightarrow> 'w \<Rightarrow> (u32 + nat) \<times> 'w"
  x_read :: "u32 \<Rightarrow> u64 \<Rightarrow> 'w \<Rightarrow> (u32 + u8 list) \<times> 'w"
  x_strerror :: "u32 \<Rightarrow> u8 list"
  x_slurp :: "u8 list \<Rightarrow> 'w \<Rightarrow> file_reads \<times> 'w"
  x_dlopen :: "u8 list \<Rightarrow> bool \<Rightarrow> 'w \<Rightarrow> addr \<times> 'w"
  x_dlsym :: "addr \<Rightarrow> u8 list \<Rightarrow> 'w \<Rightarrow> addr \<times> 'w"
  x_dlerror :: "'w \<Rightarrow> u8 list option \<times> 'w"
  x_exports :: "addr \<Rightarrow> (u8 list \<times> addr) list option"
  x_call :: "addr \<Rightarrow> 'w vm \<Rightarrow> 'w vm res"
  x_gc_stats :: "'w vm \<Rightarrow> u8 list"
  x_ptr :: "addr \<Rightarrow> u8 list"

section \<open>Output\<close>

definition print :: "'w vm \<Rightarrow> u8 list \<Rightarrow> 'w vm" where
  "print vm bs = vm\<lparr>out := out vm @ bs\<rparr>"

definition print_s :: "'w vm \<Rightarrow> string \<Rightarrow> 'w vm" where
  "print_s vm s = print vm (chars s)"

text \<open>The first range that starts at the instruction pointer or after it.\<close>

fun find_range :: "debug_range list \<Rightarrow> u64 \<Rightarrow> debug_range option" where
  "find_range [] a = None"
| "find_range (d # ds) a = (if start_addr d < a then find_range ds a else Some d)"

definition find_source_location :: "env \<Rightarrow> u8 list" where
  "find_source_location e =
     (if debug e = [] then chars ''No debugging info found.'' @ [10]
      else if ip e < start_addr (hd (debug e)) then chars ''[Preamble code.]'' @ [10]
      else case find_range (debug e) (ip e) of
        Some d \<Rightarrow> chars ''At File: '' @ c_str (dr_file d) @ chars '', Line: '' @ show_int (dr_line d)
          @ chars '' Col: '' @ show_int (dr_column d) @ chars '' Addr: '' @ show_int (start_addr d)
          @ chars '' Real Addr: '' @ show_nat (unat (ip e)) @ [10]
      | None \<Rightarrow> chars ''Uknown location!'' @ [10])"

definition OUTPUT_MAX_DEPTH :: nat where "OUTPUT_MAX_DEPTH = 100"
definition OUTPUT_MAX_LENGTH :: nat where "OUTPUT_MAX_LENGTH = 100"

text \<open>The loops of \<open>output_pair\<close>, \<open>output_vector\<close>, \<open>output_record\<close> and \<open>output_byte_vector\<close>; \<open>f\<close> is
  the call of \<open>output_object\<close>.\<close>

fun pair_loop :: "('w vm \<Rightarrow> addr \<Rightarrow> 'w vm res) \<Rightarrow> nat \<Rightarrow> 'w vm \<Rightarrow> bool \<Rightarrow> addr \<Rightarrow> ('w vm \<times> addr) res" where
  "pair_loop f 0 vm flag p = Inr (vm, p)"
| "pair_loop f (Suc n) vm flag p =
     (let vm = (if flag then print_s vm '' '' else vm) in
      rbind (get_obj vm p) (\<lambda>o'.
        let (car, cdr) = pair (ovalue o') in
        rbind (f vm car) (\<lambda>vm.
        rbind (is_type vm cdr PAIR) (\<lambda>more.
          if more then pair_loop f n vm True cdr else Inr (vm, cdr)))))"

definition output_pair :: "('w vm \<Rightarrow> addr \<Rightarrow> 'w vm res) \<Rightarrow> 'w vm \<Rightarrow> addr \<Rightarrow> 'w vm res" where
  "output_pair f vm p =
     rbind (pair_loop f OUTPUT_MAX_LENGTH (print_s vm ''('') False p) (\<lambda>(vm, p).
     rbind (is_type vm p EMPTY) (\<lambda>done.
     rbind (if done then Inr vm else f (print_s vm '' . '') p) (\<lambda>vm.
       Inr (print_s vm '')''))))"

fun vector_loop :: "('w vm \<Rightarrow> addr \<Rightarrow> 'w vm res) \<Rightarrow> addr \<Rightarrow> nat list \<Rightarrow> 'w vm \<Rightarrow> 'w vm res" where
  "vector_loop f p [] vm = Inr vm"
| "vector_loop f p (i # is) vm =
     (let vm = (if 0 < i then print_s vm '' '' else vm) in
      rbind (deref (vecs vm p)) (\<lambda>cells.
      rbind (nth_checked cells i) (\<lambda>x.
      rbind (f vm x) (\<lambda>vm. vector_loop f p is vm))))"

definition indices :: "vm_int \<Rightarrow> nat list" where
  "indices len = [0 ..< nat (sint len)]"

definition output_cells :: "string \<Rightarrow> string \<Rightarrow> ('w vm \<Rightarrow> addr \<Rightarrow> 'w vm res) \<Rightarrow> 'w vm \<Rightarrow> object \<Rightarrow> 'w vm res" where
  "output_cells open_s close_s f vm v =
     (let (len, p) = block (ovalue v) in
      rbind (vector_loop f p (indices len) (print_s vm open_s)) (\<lambda>vm. Inr (print_s vm close_s)))"

fun bytes_loop :: "addr \<Rightarrow> nat list \<Rightarrow> 'w vm \<Rightarrow> 'w vm res" where
  "bytes_loop p [] vm = Inr vm"
| "bytes_loop p (i # is) vm =
     (let vm = (if 0 < i then print_s vm '' '' else vm) in
      rbind (deref (blobs vm p)) (\<lambda>bytes.
      rbind (nth_checked bytes i) (\<lambda>b. bytes_loop p is (print vm (show_nat (unat b))))))"

definition output_byte_vector :: "'w vm \<Rightarrow> object \<Rightarrow> 'w vm res" where
  "output_byte_vector vm v =
     (let (len, p) = block (ovalue v) in
      rbind (bytes_loop p (indices len) (print_s vm ''#u8('')) (\<lambda>vm. Inr (print_s vm '')'')))"

text \<open>The loop over the environments of a closure, see \<open>find_handler\<close>.\<close>

fun output_envs :: "nat \<Rightarrow> (addr \<Rightarrow> u8 list) \<Rightarrow> addr \<Rightarrow> 'w vm \<Rightarrow> addr \<Rightarrow> 'w vm res" where
  "output_envs 0 ptr ob vm e = Inl Stack_Overflow"
| "output_envs (Suc n) ptr ob vm e =
     (if e = 0 then Inr vm
      else rbind (get_env vm e) (\<lambda>ev.
        output_envs n ptr ob
          (print vm (chars ''<CLOSURE '' @ ptr ob @ chars '':'' @ ptr e @ chars ''('' @ ptr (bindings ev)
             @ chars '') -> '' @ ptr (parent ev) @ [10] @ find_source_location ev @ chars ''>'' @ [10]))
          (parent ev)))"

text \<open>\<open>n\<close> bounds the depth of the recursion; \<open>OUTPUT_MAX_DEPTH\<close> is enough. A null object leaves
  \<open>depth\<close> incremented.\<close>

fun output_object :: "nat \<Rightarrow> (addr \<Rightarrow> u8 list) \<Rightarrow> 'w vm \<Rightarrow> addr \<Rightarrow> 'w vm res" where
  "output_object 0 ptr vm ob = Inl Stack_Overflow"
| "output_object (Suc n) ptr vm ob =
     (let vm = vm\<lparr>out_depth := out_depth vm + 1\<rparr> in
      if OUTPUT_MAX_DEPTH \<le> out_depth vm then Inr ((print_s vm '' ...'')\<lparr>out_depth := out_depth vm - 1\<rparr>)
      else if ob = 0 then Inr (print_s vm ''<nil>'')
      else
        rbind (get_obj vm ob) (\<lambda>o'.
        rbind (case otype o' of
                 FIXNUM \<Rightarrow> Inr (print vm (show_int (integer (ovalue o'))))
               | EMPTY \<Rightarrow> Inr (print_s vm ''()'')
               | PAIR \<Rightarrow> output_pair (output_object n ptr) vm ob
               | cell_type.CHAR \<Rightarrow> Inr (print vm (c_str (utf8_encode_char (character (ovalue o')))))
               | VECTOR \<Rightarrow> output_cells ''#('' '')'' (output_object n ptr) vm o'
               | BYTE_VECTOR \<Rightarrow> output_byte_vector vm o'
               | RECORD \<Rightarrow> output_cells ''<RECORD '' ''>'' (output_object n ptr) vm o'
               | BOOL \<Rightarrow> Inr (print_s vm (if boolean (ovalue o') then ''#t'' else ''#f''))
               | CLOSURE \<Rightarrow>
                   rbind (output_envs (next_addr vm) ptr ob (print_s vm ''{'') (closure (ovalue o')))
                     (\<lambda>vm. Inr (print_s vm ''}''))
               | LIBRARY \<Rightarrow>
                   (case library (ovalue o') of (h, fs, n) \<Rightarrow>
                      Inr (print vm (chars ''<LIBRARY '' @ ptr ob @ chars '':'' @ ptr h @ chars '' #'' @ show_int n
                        @ chars ''>'')))
               | _ \<Rightarrow> rbind (deref (blobs vm (snd (block (ovalue o'))))) (\<lambda>bytes. Inr (print vm (c_str bytes))))
          (\<lambda>vm. Inr (vm\<lparr>out_depth := out_depth vm - 1\<rparr>))))"

definition vm_output_object :: "'w externs \<Rightarrow> 'w vm \<Rightarrow> addr \<Rightarrow> 'w vm res" where
  "vm_output_object x vm ob = output_object OUTPUT_MAX_DEPTH (x_ptr x) vm ob"

section \<open>Files\<close>

text \<open>The string an object points to.\<close>

definition string_of :: "'w vm \<Rightarrow> addr \<Rightarrow> u8 list res" where
  "string_of vm ob =
     rbind (get_obj vm ob) (\<lambda>o'. rbind (deref (blobs vm (snd (block (ovalue o'))))) (\<lambda>bs. Inr (c_str bs)))"

definition vm_load_buf :: "'w externs \<Rightarrow> 'w vm \<Rightarrow> u8 list \<Rightarrow> ('w vm \<times> addr) res" where
  "vm_load_buf x vm path =
     (let (vm, ob) = vm_alloc vm STRING; (f, w) = x_slurp x path (world vm) in
      rbind (buffer_load_string f) (\<lambda>(bytes, count).
      rbind (alloc_blob (vm\<lparr>world := w\<rparr>) (of_nat (length bytes))) (\<lambda>(vm, p).
        Inr (set_obj (vm\<lparr>blobs := (blobs vm)(p \<mapsto> bytes)\<rparr>) ob
               \<lparr>otype = STRING, ovalue = Block (of_nat count) p\<rparr>, ob))))"

definition op_slurp :: "'w externs \<Rightarrow> 'w vm \<Rightarrow> 'w vm res" where
  "op_slurp x vm =
     rbind (vm_pop vm) (\<lambda>(vm, ob).
     rbind (is_type vm ob STRING) (\<lambda>ok.
       if \<not> ok then throw vm (chars ''Slurp file name not a string!'') [ob]
       else rbind (string_of vm ob) (\<lambda>path.
            rbind (vm_load_buf x vm path) (\<lambda>(vm, ob). Inr (vm_push vm ob)))))"

definition op_output :: "'w externs \<Rightarrow> 'w vm \<Rightarrow> 'w vm res" where
  "op_output x vm = rbind (vm_pop vm) (\<lambda>(vm, ob). vm_output_object x vm ob)"

text \<open>The number and the text of an error, thrown with the message.\<close>

definition throw_errno :: "'w externs \<Rightarrow> 'w vm \<Rightarrow> string \<Rightarrow> addr \<Rightarrow> u32 \<Rightarrow> 'w vm res" where
  "throw_errno x vm msg ob err =
     (let vm = set_obj vm ob \<lparr>otype = FIXNUM, ovalue = Integer (scast err)\<rparr>; text = x_strerror x err in
      rbind (vm_make_string vm text (of_nat (length (c_str text)))) (\<lambda>(vm, str).
        throw vm (chars msg) [ob, str]))"

definition op_open :: "'w externs \<Rightarrow> 'w vm \<Rightarrow> 'w vm res" where
  "op_open x vm =
     rbind (vm_pop vm) (\<lambda>(vm, wr).
     rbind (vm_pop vm) (\<lambda>(vm, path).
     rbind (is_type vm wr BOOL) (\<lambda>ok.
       if \<not> ok then throw vm (chars ''Open expected a boolean for write!'') [wr]
       else rbind (is_type vm path STRING) (\<lambda>ok.
         if \<not> ok then throw vm (chars ''Open expected a string for path!'') [path]
         else
           rbind (get_obj vm wr) (\<lambda>wo.
           rbind (string_of vm path) (\<lambda>name.
             let (fd, w) = x_open x name (boolean (ovalue wo)) (world vm);
                 (vm, ob) = vm_alloc (vm\<lparr>world := w\<rparr>) FIXNUM in
             case fd of
               Inl err \<Rightarrow> throw_errno x vm ''There was an error opening the file'' ob err
             | Inr fd \<Rightarrow> Inr (vm_push (set_obj vm ob \<lparr>otype = FIXNUM, ovalue = Integer (scast fd)\<rparr>) ob)))))))"

definition op_close :: "'w externs \<Rightarrow> 'w vm \<Rightarrow> 'w vm res" where
  "op_close x vm =
     rbind (vm_pop vm) (\<lambda>(vm, fd).
     rbind (is_type vm fd FIXNUM) (\<lambda>ok.
       if \<not> ok then throw vm (chars ''Close expects an integer file descriptor!'') [fd]
       else
         rbind (get_obj vm fd) (\<lambda>o'.
           let (r, w) = x_close x (ucast (integer (ovalue o'))) (world vm); vm = vm\<lparr>world := w\<rparr> in
           case r of
             None \<Rightarrow> Inr vm
           | Some err \<Rightarrow> (let (vm, ob) = vm_alloc vm FIXNUM in
               throw_errno x vm ''There was an error closing the file'' ob err))))"

text \<open>Nothing compares the number with the length of the vector.\<close>

definition op_fd_write :: "'w externs \<Rightarrow> 'w vm \<Rightarrow> 'w vm res" where
  "op_fd_write x vm =
     rbind (vm_pop vm) (\<lambda>(vm, fd).
     rbind (vm_pop vm) (\<lambda>(vm, num).
     rbind (vm_pop vm) (\<lambda>(vm, v).
     rbind (is_type vm fd FIXNUM) (\<lambda>ok.
       if \<not> ok then throw vm (chars ''Read expected file descriptor!'') [fd]
       else rbind (is_type vm num FIXNUM) (\<lambda>ok.
       if \<not> ok then throw vm (chars ''Read expected a number of bytes to read!'') [num]
       else rbind (is_type vm v BYTE_VECTOR) (\<lambda>ok.
       if \<not> ok then throw vm (chars ''Read expected a byte vector!'') [v]
       else
         rbind (get_obj vm fd) (\<lambda>fo.
         rbind (get_obj vm num) (\<lambda>no.
         rbind (get_obj vm v) (\<lambda>vo.
         rbind (deref (blobs vm (snd (block (ovalue vo))))) (\<lambda>bytes.
           let n = integer (ovalue no) in
           if length bytes < unat n then Inl Out_Of_Bounds
           else
             let (r, w) = x_write x (ucast (integer (ovalue fo))) (take (unat n) bytes) (world vm);
                 (vm, ob) = vm_alloc (vm\<lparr>world := w\<rparr>) FIXNUM in
             case r of
               Inl err \<Rightarrow> (let (vm, ob) = vm_alloc vm FIXNUM in
                 throw_errno x vm ''An error ocurred while writing.'' ob err)
             | Inr written \<Rightarrow>
                 let vm = set_obj vm ob \<lparr>otype = FIXNUM, ovalue = Integer (of_nat written)\<rparr> in
                 if of_nat written \<noteq> n then throw vm (chars ''Did not write all bytes.'') [ob]
                 else Inr (vm_push vm ob)))))))))))"

definition op_fd_read :: "'w externs \<Rightarrow> 'w vm \<Rightarrow> 'w vm res" where
  "op_fd_read x vm =
     rbind (vm_pop vm) (\<lambda>(vm, fd).
     rbind (vm_pop vm) (\<lambda>(vm, num).
     rbind (is_type vm fd FIXNUM) (\<lambda>ok.
       if \<not> ok then throw vm (chars ''Read expected a file descriptor!'') [fd]
       else rbind (is_type vm num FIXNUM) (\<lambda>ok.
       if \<not> ok then throw vm (chars ''Read expected a number of bytes to read!'') [num]
       else
         rbind (get_obj vm fd) (\<lambda>fo.
         rbind (get_obj vm num) (\<lambda>no.
         rbind (vm_make_byte_vector vm (integer (ovalue no))) (\<lambda>(vm, u8).
         rbind (get_obj vm u8) (\<lambda>uo.
         rbind (deref (blobs vm (snd (block (ovalue uo))))) (\<lambda>bytes.
           let (r, w) = x_read x (ucast (integer (ovalue fo))) (integer (ovalue no)) (world vm);
               vm = vm\<lparr>world := w\<rparr>; p = snd (block (ovalue uo)) in
           case r of
             Inl err \<Rightarrow> (let (vm, ob) = vm_alloc vm FIXNUM in
               throw_errno x vm ''An error ocurred while reading.'' ob err)
           | Inr bs \<Rightarrow>
               if length bytes < length bs then Inl Out_Of_Bounds
               else Inr (vm_push (set_obj (vm\<lparr>blobs := (blobs vm)(p \<mapsto> bs @ drop (length bs) bytes)\<rparr>) u8
                      \<lparr>otype = BYTE_VECTOR, ovalue = Block (of_nat (length bs)) p\<rparr>) u8))))))))))"

section \<open>Libraries\<close>

definition LIB_EXT :: "u8 list" where "LIB_EXT = chars ''.so''"

text \<open>\<open>path\<close>: a zeroed block of the length of the name and 4, filled by \<open>strncpy\<close> and \<open>strncat\<close>.\<close>

definition lib_path :: "u8 list \<Rightarrow> nat \<Rightarrow> u8 list res" where
  "lib_path name len =
     (let s = c_str (strncpy_bytes name len) in
      if len < length s + length LIB_EXT + 1 then Inl Out_Of_Bounds
      else Inr (s @ LIB_EXT @ replicate (len - (length s + length LIB_EXT)) 0))"

text \<open>The alist of the exported symbols and their numbers.\<close>

fun bind_exports :: "'w vm \<Rightarrow> (u8 list \<times> addr) list \<Rightarrow> vm_int \<Rightarrow> addr \<Rightarrow> ('w vm \<times> addr) res" where
  "bind_exports vm [] n alist = Inr (vm, alist)"
| "bind_exports vm ((symbol, f) # es) n alist =
     rbind (vm_make_string vm symbol (of_nat (length (c_str symbol)))) (\<lambda>(vm, ob).
     rbind (make_symbol vm ob) (\<lambda>(vm, ob).
       let (vm, ob2) = vm_new vm FIXNUM (Integer n);
           (vm, entry) = cons vm ob ob2;
           (vm, alist) = cons vm entry alist in
       bind_exports vm es (n + 1) alist))"

text \<open>What \<open>op_import\<close> does when the table has no library of that path: the machine and \<open>lib\<close>, 0 when
  there is none.\<close>

definition load_library :: "'w externs \<Rightarrow> 'w vm \<Rightarrow> addr \<Rightarrow> addr \<Rightarrow> u8 list \<Rightarrow> ('w vm \<times> addr) res" where
  "load_library x vm ob path_p path =
     (let (handle, w) = x_dlopen x path True (world vm);
          (handle, w) = (if handle = 0 then x_dlopen x path False w else (handle, w)) in
      if handle = 0
      then let (msg, w) = x_dlerror x w in
           rbind (deref msg) (\<lambda>msg. rbind (throw (vm\<lparr>world := w\<rparr>) msg [ob]) (\<lambda>vm. Inr (vm, 0)))
      else
        let (vm, lib) = vm_alloc vm LIBRARY;
            (_, w) = x_dlerror x w;
            (export_list, w) = x_dlsym x handle (chars ''export_list'') w;
            (msg, w) = x_dlerror x w;
            vm = vm\<lparr>world := w\<rparr> in
        case msg of
          Some msg \<Rightarrow> rbind (throw vm msg [ob]) (\<lambda>vm. Inr (vm, lib))
        | None \<Rightarrow>
            rbind (deref (x_exports x export_list)) (\<lambda>es.
              let vm = set_obj vm lib \<lparr>otype = LIBRARY, ovalue = Library handle export_list (of_nat (length es))\<rparr> in
              rbind (vm_hash_set vm (import_table vm) path_p lib) (\<lambda>vm. Inr (vm_push vm lib, lib))))"

definition op_import :: "'w externs \<Rightarrow> 'w vm \<Rightarrow> 'w vm res" where
  "op_import x vm =
     rbind (vm_pop vm) (\<lambda>(vm, ob).
     rbind (is_type vm ob STRING) (\<lambda>ok.
       if \<not> ok then throw vm (chars ''Attempt to import with non-string filename'') [ob]
       else
         rbind (get_obj vm ob) (\<lambda>o'.
         rbind (alloc_blob vm (fst (block (ovalue o')) + 4)) (\<lambda>(vm, p).
         rbind (deref (blobs vm p)) (\<lambda>dest.
         rbind (string_of vm ob) (\<lambda>name.
         rbind (lib_path name (length dest)) (\<lambda>path.
         let vm = vm\<lparr>blobs := (blobs vm)(p \<mapsto> path)\<rparr> in
         rbind (vm_hash_get vm (import_table vm) p) (\<lambda>found.
         rbind (case found of
                  Some lib \<Rightarrow> Inr (vm_push vm lib, lib)
                | None \<Rightarrow> load_library x vm ob p (c_str path)) (\<lambda>(vm, lib).
           if lib = 0 then Inr vm
           else
             rbind (get_obj vm lib) (\<lambda>lo.
             rbind (deref (x_exports x (fst (snd (library (ovalue lo)))))) (\<lambda>es.
             rbind (bind_exports vm es 0 (empty vm)) (\<lambda>(vm, alist). Inr (vm_push vm alist)))))))))))))"

text \<open>The exception of a wrong argument is on the stack when the depths are compared.\<close>

definition call_export :: "'w externs \<Rightarrow> 'w vm \<Rightarrow> addr \<Rightarrow> vm_int \<Rightarrow> 'w vm res" where
  "call_export x vm functions func =
     rbind (deref (x_exports x functions)) (\<lambda>es.
       if unat func = length es then Inl Bad_Pointer
       else rbind (nth_checked es (unat func)) (\<lambda>(symbol, f). x_call x f vm))"

definition op_call_ext :: "'w externs \<Rightarrow> 'w vm \<Rightarrow> 'w vm res" where
  "op_call_ext x vm =
     rbind (vm_pop vm) (\<lambda>(vm, ob).
     rbind (vm_pop vm) (\<lambda>(vm, lib).
       let d = depth vm in
       rbind (rbind (is_type vm ob FIXNUM) (\<lambda>ok. if ok then is_type vm lib LIBRARY else Inr False)) (\<lambda>ok.
       rbind (if \<not> ok then throw vm (chars ''Invalid arguments to call_ext'') [ob, lib]
              else
                rbind (get_obj vm ob) (\<lambda>fo.
                rbind (get_obj vm lib) (\<lambda>lo.
                  case library (ovalue lo) of (h, functions, func_count) \<Rightarrow>
                    let func = integer (ovalue fo) in
                    if sint func_count < sint func then throw vm (chars ''Invalid function number'') [ob, lib]
                    else call_export x vm functions func))) (\<lambda>vm.
         if depth vm \<noteq> d then throw vm (chars ''Stack uneven after call_ext'') [] else Inr vm))))"

definition op_asm :: "'w externs \<Rightarrow> 'w vm \<Rightarrow> 'w vm res" where
  "op_asm x vm =
     rbind (vm_pop vm) (\<lambda>(vm, ob).
     rbind (is_type vm ob STRING) (\<lambda>ok.
       if \<not> ok then throw vm (chars ''Attempt to assemble non-string'') [ob]
       else
         rbind (string_of vm ob) (\<lambda>str.
         rbind (asm_string (yyasm_scan str) False) (\<lambda>(code, _).
         rbind (alloc_blob vm (of_nat (length code))) (\<lambda>(vm, p).
         let vm = vm\<lparr>blobs := (blobs vm)(p \<mapsto> code)\<rparr> in
         rbind (clone_env vm (env vm) False) (\<lambda>(vm, e).
         rbind (upd_env vm e (\<lambda>ev. ev\<lparr>code_ref := p, ip := 0, code_length := of_nat (length code)\<rparr>)) (\<lambda>vm.
           let (vm, closure) = vm_new vm CLOSURE (Closure e) in Inr (vm_push vm closure))))))))"

definition op_gc_stats :: "'w externs \<Rightarrow> 'w vm \<Rightarrow> 'w vm res" where
  "op_gc_stats x vm = Inr (print vm (x_gc_stats x vm))"

end
