(* ===== verification/Vm_Eval.thy ===== *)
theory Vm_Eval
  imports Vm_Io
begin

text \<open>
  The table of instructions, \<open>vm_ops.c\<close>, the loop of \<open>vm_eval.c\<close>, and the machine as a step
  relation.
\<close>

section \<open>The table of instructions\<close>

definition instructions :: "'w externs \<Rightarrow> (u8 \<times> ('w vm \<Rightarrow> 'w vm res)) list" where
  "instructions x =
     [(OP_LIT_FIXNUM, op_lit_64bit),
      (OP_LIT_EMPTY, op_lit_empty),
      (OP_LIT_CHAR, op_lit_char),
      (OP_LIT_STRING, op_lit_string),
      (OP_LIT_SYMBOL, op_lit_symbol),
      (OP_MAKE_SYMBOL, op_make_symbol),
      (OP_LIT_TRUE, op_lit_true),
      (OP_LIT_FALSE, op_lit_false),
      (OP_MAKE_VECTOR, op_make_vector),
      (OP_MAKE_BYTE_VECTOR, op_make_byte_vector),
      (OP_MAKE_RECORD, op_make_record),
      (OP_INDEX_SET, op_index_set),
      (OP_INDEX_REF, op_index_ref),
      (OP_VECTOR_LENGTH, op_vector_length),
      (OP_STRING_BYTE_VECTOR, op_string_byte_vector),
      (OP_BYTE_VECTOR_STRING, op_byte_vector_string),
      (OP_CONS, op_cons),
      (OP_CAR, op_car),
      (OP_CDR, op_cdr),
      (OP_SET_CAR, op_set_car),
      (OP_SET_CDR, op_set_cdr),
      (OP_BIND, op_bind),
      (OP_SET, op_set),
      (OP_READ, op_read),
      (OP_SWAP, op_swap),
      (OP_ROT, op_rot),
      (OP_DUP_REF, op_dup_ref),
      (OP_DROP, op_drop),
      (OP_DEPTH, op_depth),
      (OP_OUTPUT, op_output x),
      (OP_FD_READ, op_fd_read x),
      (OP_FD_WRITE, op_fd_write x),
      (OP_OPEN, op_open x),
      (OP_CLOSE, op_close x),
      (OP_SLURP, op_slurp x),
      (OP_ASM, op_asm x),
      (OP_ADD, op_add),
      (OP_SUB, op_sub),
      (OP_MUL, op_mul),
      (OP_DIV, op_div),
      (OP_MOD, op_mod),
      (OP_NUMERIC_EQUAL, op_numeric_equal),
      (OP_NUMERIC_LT, op_numeric_lt),
      (OP_NUMERIC_GT, op_numeric_gt),
      (OP_NOT, op_not),
      (OP_EQ, op_eq),
      (OP_JMP, op_jmp),
      (OP_JNF, op_jnf),
      (OP_CALL, op_call),
      (OP_ADOPT, op_adopt),
      (OP_PROC, op_proc),
      (OP_RET, op_ret),
      (OP_JIN, op_jin),
      (OP_CALL_IN, op_call_in),
      (OP_TAIL_CALL_IN, op_tail_call_in),
      (OP_IMPORT, op_import x),
      (OP_CALL_EXT, op_call_ext x),
      (OP_CONTINUE, op_continue),
      (OP_RESTORE, op_restore),
      (OP_SET_EXIT, op_set_exit),
      (OP_IS_FIXNUM, op_is_fixnum),
      (OP_IS_BOOL, op_is_bool),
      (OP_IS_CHAR, op_is_char),
      (OP_IS_STRING, op_is_string),
      (OP_IS_SYMBOL, op_is_symbol),
      (OP_IS_VECTOR, op_is_vector),
      (OP_IS_BYTE_VECTOR, op_is_byte_vector),
      (OP_IS_RECORD, op_is_record),
      (OP_IS_PAIR, op_is_pair),
      (OP_IS_EMPTY, op_is_empty),
      (OP_IS_CLOSURE, op_is_closure),
      (OP_IS_SELF, op_is_self),
      (OP_GC_STATS, op_gc_stats x)]"

definition setup_instructions :: "'w externs \<Rightarrow> u8 \<Rightarrow> ('w vm \<Rightarrow> 'w vm res) option" where
  "setup_instructions x = map_of (instructions x)"

section \<open>Evaluation\<close>

definition running :: "'w vm \<Rightarrow> bool res" where
  "running vm = rbind (get_env vm (env vm)) (\<lambda>e. Inr (ip e < code_length e))"

text \<open>One round of the loop. An undefined instruction is fatal.\<close>

definition vm_step :: "'w externs \<Rightarrow> 'w vm \<Rightarrow> 'w vm res" where
  "vm_step x vm =
     rbind (get_env vm (env vm)) (\<lambda>e.
     rbind (code_byte vm (ip e)) (\<lambda>op_code.
     rbind (upd_env vm (env vm) (\<lambda>e. e\<lparr>ip := ip e + 1\<rparr>)) (\<lambda>vm.
       case setup_instructions x op_code of
         None \<Rightarrow> Inl Assert_Failed
       | Some f \<Rightarrow> f vm)))"

text \<open>The loop may run forever: \<open>None\<close> when it has not ended after \<open>n\<close> instructions.\<close>

fun eval_loop :: "nat \<Rightarrow> 'w externs \<Rightarrow> 'w vm \<Rightarrow> 'w vm res option" where
  "eval_loop 0 x vm = None"
| "eval_loop (Suc n) x vm =
     (case running vm of
        Inl f \<Rightarrow> Some (Inl f)
      | Inr True \<Rightarrow> (case vm_step x vm of Inl f \<Rightarrow> Some (Inl f) | Inr vm' \<Rightarrow> eval_loop n x vm')
      | Inr False \<Rightarrow> Some (Inr vm))"

definition vm_load :: "'w vm \<Rightarrow> u64 \<Rightarrow> addr \<Rightarrow> debug_range list \<Rightarrow> 'w vm res" where
  "vm_load vm len code dbg =
     upd_env vm (env vm) (\<lambda>e. e\<lparr>ip := 0, code_ref := code, code_length := len, debug := dbg\<rparr>)"

definition vm_eval ::
  "nat \<Rightarrow> 'w externs \<Rightarrow> 'w vm \<Rightarrow> u64 \<Rightarrow> addr \<Rightarrow> debug_range list \<Rightarrow> ('w vm \<times> u32) res option" where
  "vm_eval n x vm len code dbg =
     (case vm_load vm len code dbg of
        Inl f \<Rightarrow> Some (Inl f)
      | Inr vm \<Rightarrow> map_option (\<lambda>r. rbind r (\<lambda>vm. Inr (vm, exit_status vm))) (eval_loop n x vm))"

section \<open>The machine as a transition system\<close>

inductive vm_next :: "'w externs \<Rightarrow> 'w vm \<Rightarrow> 'w vm \<Rightarrow> bool" for x where
  instruction: "running vm = Inr True \<Longrightarrow> vm_step x vm = Inr vm' \<Longrightarrow> vm_next x vm vm'"

inductive vm_reach :: "'w externs \<Rightarrow> 'w vm \<Rightarrow> 'w vm \<Rightarrow> bool" for x where
  refl: "vm_reach x vm vm"
| step: "vm_next x vm vm1 \<Longrightarrow> vm_reach x vm1 vm2 \<Longrightarrow> vm_reach x vm vm2"

inductive_cases vm_nextE: "vm_next x vm vm'"
inductive_simps vm_next_simps: "vm_next x vm vm'"

lemma eval_loop_reach:
  "eval_loop n x vm = Some (Inr vm') \<Longrightarrow> vm_reach x vm vm' \<and> running vm' = Inr False"
  by (induction n x vm rule: eval_loop.induct)
    (auto split: sum.splits bool.splits intro: vm_reach.intros vm_next.intros)

lemma eval_loop_more: "eval_loop n x vm = Some r \<Longrightarrow> eval_loop (n + m) x vm = Some r"
  by (induction n x vm rule: eval_loop.induct) (auto split: sum.splits bool.splits)

lemma reach_eval_loop:
  "vm_reach x vm vm' \<Longrightarrow> running vm' = Inr False \<Longrightarrow> \<exists>n. eval_loop n x vm = Some (Inr vm')"
proof (induction rule: vm_reach.induct)
  case (refl vm)
  then have "eval_loop 1 x vm = Some (Inr vm)" by simp
  then show ?case by blast
next
  case (step vm vm1 vm2)
  then obtain n where n: "eval_loop n x vm1 = Some (Inr vm2)" by blast
  have "eval_loop (Suc n) x vm = Some (Inr vm2)" using step.hyps(1) n by (auto elim: vm_nextE)
  then show ?case by blast
qed

end
