(* ===== verification/Vm_Inv.thy ===== *)
theory Vm_Inv
  imports Vm_Eval
begin

text \<open>
  The invariant of the machine's environments: every environment was allocated after its parent,
  so the chains of parents end. Every instruction keeps it; a calculus of rules for results proves
  this instruction by instruction. The searches for bindings and handlers follow a chain, so the
  bound \<open>next_addr\<close> on their steps is never reached.
\<close>

section \<open>Environments have older parents\<close>

definition env_ok :: "'w vm \<Rightarrow> bool" where
  "env_ok vm \<longleftrightarrow> 0 < next_addr vm
     \<and> (\<forall>e ev. envs vm e = Some ev \<longrightarrow> 0 < e \<and> e < next_addr vm \<and> parent ev < e
         \<and> (parent ev \<noteq> 0 \<longrightarrow> envs vm (parent ev) \<noteq> None))
     \<and> (env vm \<noteq> 0 \<longrightarrow> envs vm (env vm) \<noteq> None)"

lemma env_ok_stores [simp]:
  "env_ok (vm\<lparr>objs := a\<rparr>) = env_ok vm" "env_ok (vm\<lparr>blobs := b\<rparr>) = env_ok vm"
  "env_ok (vm\<lparr>vecs := c\<rparr>) = env_ok vm" "env_ok (vm\<lparr>tables := t\<rparr>) = env_ok vm"
  "env_ok (vm\<lparr>hs := h\<rparr>) = env_ok vm" "env_ok (vm\<lparr>stack_root := r\<rparr>) = env_ok vm"
  "env_ok (vm\<lparr>depth := d\<rparr>) = env_ok vm" "env_ok (vm\<lparr>world := w\<rparr>) = env_ok vm"
  "env_ok (vm\<lparr>out := ou\<rparr>) = env_ok vm" "env_ok (vm\<lparr>out_depth := od\<rparr>) = env_ok vm"
  "env_ok (vm\<lparr>exit_status := es\<rparr>) = env_ok vm"
  "env_ok (vm\<lparr>empty := em\<rparr>) = env_ok vm" "env_ok (vm\<lparr>vm_true := vt\<rparr>) = env_ok vm"
  "env_ok (vm\<lparr>vm_false := vf\<rparr>) = env_ok vm" "env_ok (vm\<lparr>symbol_table := st\<rparr>) = env_ok vm"
  "env_ok (vm\<lparr>import_table := it\<rparr>) = env_ok vm"
  by (simp_all add: env_ok_def)

lemma env_ok_next [simp]: "env_ok vm \<Longrightarrow> next_addr vm \<le> n \<Longrightarrow> env_ok (vm\<lparr>next_addr := n\<rparr>)"
  by (fastforce simp: env_ok_def)

lemma set_obj_keeps [simp]: "env_ok (set_obj vm a ob) = env_ok vm"
  by (simp add: set_obj_def)

lemma alloc_keeps [simp]:
  "env_ok vm \<Longrightarrow> env_ok (fst (alloc_object vm ob))" "env_ok vm \<Longrightarrow> env_ok (fst (alloc_table vm t))"
  by (simp_all add: alloc_object_def alloc_table_def)

lemma vm_alloc_keeps [simp]: "env_ok vm \<Longrightarrow> env_ok (fst (vm_alloc vm ty))"
  by (simp add: vm_alloc_def)

lemma vm_new_keeps [simp]: "env_ok vm \<Longrightarrow> env_ok (fst (vm_new vm ty v))"
  by (simp add: vm_new_def case_prod_unfold)

lemma cons_keeps [simp]: "env_ok vm \<Longrightarrow> env_ok (fst (cons vm x y))"
  by (simp add: cons_def)

lemma vm_push_keeps [simp]: "env_ok vm \<Longrightarrow> env_ok (vm_push vm a)"
  by (simp add: vm_push_def Let_def case_prod_unfold)

lemma cons_all_keeps [simp]: "env_ok vm \<Longrightarrow> env_ok (fst (cons_all vm obs acc))"
  by (induction vm obs acc rule: cons_all.induct) (simp_all add: case_prod_unfold)

section \<open>A calculus for results\<close>

text \<open>Every result of a computation that returns satisfies a predicate. The rules read a definition
  from its end to its start.\<close>

definition okr :: "('a \<Rightarrow> bool) \<Rightarrow> 'a res \<Rightarrow> bool" where
  "okr P r \<longleftrightarrow> (\<forall>x. r = Inr x \<longrightarrow> P x)"

named_theorems wp "rules for results, to be applied backwards"

lemma okrD: "okr P r \<Longrightarrow> r = Inr x \<Longrightarrow> P x"
  by (simp add: okr_def)

lemma okr_Inr [wp]: "P x \<Longrightarrow> okr P (Inr x)"
  by (simp add: okr_def)

lemma okr_Inl [wp]: "okr P (Inl e)"
  by (simp add: okr_def)

lemma okr_bind [wp]: "okr (\<lambda>x. okr P (f x)) m \<Longrightarrow> okr P (rbind m f)"
  by (cases m) (simp_all add: okr_def)

lemma okr_if [wp]: "(c \<Longrightarrow> okr P x) \<Longrightarrow> (\<not> c \<Longrightarrow> okr P y) \<Longrightarrow> okr P (if c then x else y)"
  by simp

lemma okr_option [wp]: "okr P x \<Longrightarrow> (\<And>y. okr P (f y)) \<Longrightarrow> okr P (case z of None \<Rightarrow> x | Some y \<Rightarrow> f y)"
  by (cases z) simp_all

lemma okr_sum [wp]: "(\<And>x. okr P (f x)) \<Longrightarrow> (\<And>y. okr P (g y)) \<Longrightarrow> okr P (case z of Inl x \<Rightarrow> f x | Inr y \<Rightarrow> g y)"
  by (cases z) simp_all

lemma okr_cell_type [wp]:
  assumes "okr P a" "okr P b" "okr P c" "okr P d" "okr P e" "okr P f" "okr P g" "okr P h" "okr P i" "okr P j"
    "okr P k" "okr P l"
  shows "okr P (case_cell_type a b c d e f g h i j k l ty)"
  using assms by (cases ty) simp_all

lemma okr_weaken: "okr Q r \<Longrightarrow> (\<And>x. Q x \<Longrightarrow> P x) \<Longrightarrow> okr P r"
  by (simp add: okr_def)

lemma okr_any: "(\<And>x. P x) \<Longrightarrow> okr P r"
  by (simp add: okr_def)

lemmas reads [wp] =
  okr_any [of P "get_obj vm a" for P vm a] okr_any [of P "is_type vm a ty" for P vm a ty]
  okr_any [of P "deref q" for P q] okr_any [of P "nth_checked xs i" for P xs i]
  okr_any [of P "both_fixnum vm a b" for P vm a b] okr_any [of P "closure_env vm a" for P vm a]
  okr_any [of P "key_of vm a" for P vm a] okr_any [of P "string_of vm a" for P vm a]
  okr_any [of P "code_byte vm i" for P vm i] okr_any [of P "read_bytes vm i n (w :: 'c::len word)" for P vm i n w]
  okr_any [of P "find_env n vm e k" for P n vm e k] okr_any [of P "vm_hash_get vm t k" for P vm t k]
  okr_any [of P "block_size n" for P n] okr_any [of P "lib_path nm n" for P nm n]
  okr_any [of P "asm_string toks d" for P toks d] okr_any [of P "buffer_load_string r" for P r]
  okr_any [of P "hash_set h c st t k v" for P h c st t k v] okr_any [of P "hash_create h c st" for P h c st]

lemma okr_get_env [wp]: "(\<And>ev. envs vm a = Some ev \<Longrightarrow> P ev) \<Longrightarrow> okr P (get_env vm a)"
  by (auto simp: okr_def get_env_def)

text \<open>A pair of a machine and a value that a definition takes apart.\<close>

lemma okr_split [wp]:
  fixes f :: "'w vm \<Rightarrow> 'a \<Rightarrow> 'b res"
  shows "env_ok (fst p) \<Longrightarrow> (\<And>vm a. env_ok vm \<Longrightarrow> okr P (f vm a)) \<Longrightarrow> okr P (case p of (vm, a) \<Rightarrow> f vm a)"
  by (cases p) simp

lemma vm_pop_wp [wp]: "env_ok vm \<Longrightarrow> (\<And>vm' a. env_ok vm' \<Longrightarrow> P (vm', a)) \<Longrightarrow> okr P (vm_pop vm)"
  by (auto simp: vm_pop_def Let_def case_prod_unfold intro!: wp)

lemma alloc_blob_wp [wp]: "env_ok vm \<Longrightarrow> (\<And>vm' a. env_ok vm' \<Longrightarrow> P (vm', a)) \<Longrightarrow> okr P (alloc_blob vm n)"
  by (auto simp: alloc_blob_def intro!: wp)

lemma alloc_vec_wp [wp]: "env_ok vm \<Longrightarrow> (\<And>vm' a. env_ok vm' \<Longrightarrow> P (vm', a)) \<Longrightarrow> okr P (alloc_vec vm n)"
  by (auto simp: alloc_vec_def intro!: wp)

lemma vm_make_string_wp [wp]:
  "env_ok vm \<Longrightarrow> (\<And>vm' a. env_ok vm' \<Longrightarrow> P (vm', a)) \<Longrightarrow> okr P (vm_make_string vm s n)"
  by (auto simp: vm_make_string_def Let_def intro!: wp)

lemma vm_make_byte_vector_wp [wp]:
  "env_ok vm \<Longrightarrow> (\<And>vm' a. env_ok vm' \<Longrightarrow> P (vm', a)) \<Longrightarrow> okr P (vm_make_byte_vector vm n)"
  by (auto simp: vm_make_byte_vector_def Let_def intro!: wp)

lemma vm_make_vector_wp [wp]:
  "env_ok vm \<Longrightarrow> (\<And>vm' a. env_ok vm' \<Longrightarrow> P (vm', a)) \<Longrightarrow> okr P (vm_make_vector vm n)"
  by (auto simp: vm_make_vector_def Let_def intro!: wp)

lemma vm_make_record_wp [wp]:
  "env_ok vm \<Longrightarrow> (\<And>vm' a. env_ok vm' \<Longrightarrow> P (vm', a)) \<Longrightarrow> okr P (vm_make_record vm n)"
  by (auto simp: vm_make_record_def Let_def intro!: wp)

lemma vm_hash_create_wp [wp]:
  assumes "env_ok vm" "\<And>vm' a. env_ok vm' \<Longrightarrow> envs vm' = envs vm \<Longrightarrow> env vm' = env vm
    \<Longrightarrow> next_addr vm \<le> next_addr vm' \<Longrightarrow> P (vm', a)"
  shows "okr P (vm_hash_create vm)"
  using assms by (auto simp: vm_hash_create_def alloc_table_def intro!: wp)

lemma vm_hash_set_wp [wp]: "env_ok vm \<Longrightarrow> (\<And>vm'. env_ok vm' \<Longrightarrow> P vm') \<Longrightarrow> okr P (vm_hash_set vm t k v)"
  by (auto simp: vm_hash_set_def intro!: wp)

lemma vm_hash_cow_wp [wp]:
  assumes "env_ok vm" "\<And>vm' a. env_ok vm' \<Longrightarrow> envs vm' = envs vm \<Longrightarrow> env vm' = env vm
    \<Longrightarrow> next_addr vm \<le> next_addr vm' \<Longrightarrow> P (vm', a)"
  shows "okr P (vm_hash_cow vm t)"
  using assms by (auto simp: vm_hash_cow_def alloc_table_def intro!: wp)

text \<open>An update of an environment that leaves its parent alone.\<close>

lemma upd_env_keeps:
  assumes "upd_env vm a f = Inr vm'" "env_ok vm" "\<And>ev. parent (f ev) = parent ev"
  shows "env_ok vm'"
proof -
  obtain ev where ev: "envs vm a = Some ev" "vm' = vm\<lparr>envs := (envs vm)(a \<mapsto> f ev)\<rparr>"
    using assms(1) by (auto simp: upd_env_def get_env_def res_simps)
  have "parent (f ev) = parent ev" by (rule assms(3))
  then show ?thesis using assms(2) ev unfolding env_ok_def by (auto split: if_splits) 
qed

lemma env_ok_envs:
  assumes "env_ok vm" "parent e < a" "parent e \<noteq> 0 \<longrightarrow> envs vm (parent e) \<noteq> None" "next_addr vm \<le> a" "a < n"
  shows "env_ok (vm\<lparr>envs := (envs vm)(a \<mapsto> e), next_addr := n\<rparr>)"
proof -
  have old: "0 < b \<and> b < next_addr vm \<and> parent ev < b \<and> (parent ev \<noteq> 0 \<longrightarrow> envs vm (parent ev) \<noteq> None)"
    if "envs vm b = Some ev" for b ev
    using assms(1) that by (simp add: env_ok_def)
  have n: "0 < next_addr vm" "env vm \<noteq> 0 \<longrightarrow> envs vm (env vm) \<noteq> None" using assms(1) by (simp_all add: env_ok_def)
  show ?thesis unfolding env_ok_def
  proof (intro conjI allI impI)
    fix b ev
    assume b: "envs (vm\<lparr>envs := (envs vm)(a \<mapsto> e), next_addr := n\<rparr>) b = Some ev"
    show "0 < b" using b old n(1) assms(4,5) by (cases "b = a") auto
    show "b < next_addr (vm\<lparr>envs := (envs vm)(a \<mapsto> e), next_addr := n\<rparr>)"
      using b old [of b ev] assms(4,5) by (cases "b = a") auto
    show "parent ev < b" using b old [of b ev] assms(2) by (cases "b = a") auto
    show "envs (vm\<lparr>envs := (envs vm)(a \<mapsto> e), next_addr := n\<rparr>) (parent ev) \<noteq> None" if "parent ev \<noteq> 0"
      using b old [of b ev] assms(3) that by (cases "b = a") auto
  qed (use n assms(4,5) in auto)
qed

text \<open>What a new environment adds to a machine.\<close>

definition new_env :: "'w vm \<Rightarrow> 'w vm \<Rightarrow> addr \<Rightarrow> bool" where
  "new_env vm vm' a \<longleftrightarrow> env_ok vm' \<and> next_addr vm \<le> a \<and> a < next_addr vm' \<and> envs vm' a \<noteq> None
     \<and> env vm' = env vm \<and> (\<forall>b. b \<noteq> a \<longrightarrow> envs vm' b = envs vm b)"

lemma alloc_env_new:
  assumes "env_ok vm" "alloc_env vm e = (vm', a)" "parent e < next_addr vm"
    "parent e \<noteq> 0 \<longrightarrow> envs vm (parent e) \<noteq> None"
  shows "new_env vm vm' a \<and> envs vm' a = Some e"
  using assms(2) env_ok_envs [OF assms(1,3,4) order_refl lessI] by (auto simp: new_env_def alloc_env_def)

lemma env_parent: "env_ok vm \<Longrightarrow> envs vm e = Some ev \<Longrightarrow> parent ev < next_addr vm
    \<and> (parent ev \<noteq> 0 \<longrightarrow> envs vm (parent ev) \<noteq> None) \<and> 0 < e \<and> e < next_addr vm \<and> parent ev < e"
  unfolding env_ok_def using less_trans by blast

lemma clone_env_new:
  assumes "clone_env vm e cow = Inr (vm', a)" "env_ok vm"
  shows "new_env vm vm' a \<and> (\<exists>ev ev'. envs vm e = Some ev \<and> envs vm' a = Some ev' \<and> (\<not> cow \<longrightarrow> ev' = ev)
      \<and> parent ev' = parent ev)"
proof -
  obtain ev where ev: "envs vm e = Some ev" using assms(1) by (auto simp: clone_env_def get_env_def res_simps)
  obtain vm1 b where a1: "alloc_env vm ev = (vm1, b)" by force
  have n: "new_env vm vm1 b" "envs vm1 b = Some ev"
    using alloc_env_new [OF assms(2) a1] env_parent [OF assms(2) ev] by auto
  show ?thesis
  proof (cases cow)
    case False
    then show ?thesis using assms(1) n ev a1 by (auto simp: clone_env_def get_env_def)
  next
    case True
    then obtain vm2 tbl where c: "vm_hash_cow vm1 (bindings ev) = Inr (vm2, tbl)"
      "upd_env vm2 b (\<lambda>ev. ev\<lparr>bindings := tbl\<rparr>) = Inr vm'" "a = b"
      using assms(1) ev a1 by (auto simp: clone_env_def get_env_def res_simps)
    have e2: "envs vm2 = envs vm1" "env vm2 = env vm1" "next_addr vm1 \<le> next_addr vm2"
      using c(1) by (auto simp: vm_hash_cow_def alloc_table_def res_simps)
    have v: "vm' = vm2\<lparr>envs := (envs vm2)(b \<mapsto> ev\<lparr>bindings := tbl\<rparr>)\<rparr>"
      using c(2) n(2) e2 by (simp add: upd_env_def get_env_def)
    have "env_ok vm1" using n(1) by (simp add: new_env_def)
    then have "okr (\<lambda>p. env_ok (fst p)) (vm_hash_cow vm1 (bindings ev))" by (auto intro!: wp)
    then have "env_ok vm2" using c(1) by (auto dest: okrD)
    then have "env_ok vm'" by (rule upd_env_keeps [OF c(2)]) simp
    then show ?thesis using n e2 ev v c(3) True by (auto simp: new_env_def)
  qed
qed

lemma env_ok_same: "env_ok v \<Longrightarrow> envs v' = envs v \<Longrightarrow> next_addr v' = next_addr v \<Longrightarrow> envs v' (env v') \<noteq> None
    \<Longrightarrow> env_ok v'"
  by (simp add: env_ok_def)

lemma env_ok_enter: "new_env vm vm' a \<Longrightarrow> env_ok (vm'\<lparr>env := a\<rparr>)"
  by (simp add: new_env_def env_ok_def)

lemma clone_env_wp [wp]:
  assumes "env_ok vm" "\<And>vm' a. env_ok vm' \<Longrightarrow> env_ok (vm'\<lparr>env := a\<rparr>) \<Longrightarrow> new_env vm vm' a \<Longrightarrow> P (vm', a)"
  shows "okr P (clone_env vm e cow)"
  unfolding okr_def
proof (intro allI impI)
  fix x assume r: "clone_env vm e cow = Inr x"
  obtain vm' a where x: "x = (vm', a)" by force
  have n: "new_env vm vm' a" using clone_env_new [OF _ assms(1)] r x by simp
  then have "env_ok vm'" by (simp add: new_env_def)
  from assms(2) [OF this env_ok_enter [OF n] n] show "P x" by (simp add: x)
qed

lemma upd_env_wp [wp]:
  assumes "env_ok vm" "\<And>ev. parent (f ev) = parent ev" "\<And>vm'. env_ok vm' \<Longrightarrow> P vm'"
  shows "okr P (upd_env vm a f)"
  using upd_env_keeps [OF _ assms(1,2)] assms(3) by (auto simp: okr_def)

lemma vm_hash_create_frame: "vm_hash_create vm = Inr (vm', a) \<Longrightarrow> envs vm' = envs vm \<and> env vm' = env vm
    \<and> next_addr vm \<le> next_addr vm'"
  by (auto simp: vm_hash_create_def alloc_table_def res_simps split: prod.splits)

lemma push_env_new:
  assumes "push_env vm = Inr vm'" "env_ok vm"
  shows "env_ok vm' \<and> (\<exists>a ev. next_addr vm \<le> a \<and> env vm' = a \<and> envs vm' a = Some ev \<and> parent ev = env vm
      \<and> (\<forall>b. b \<noteq> a \<longrightarrow> envs vm' b = envs vm b)
      \<and> (\<forall>p. envs vm (env vm) = Some p \<and> env vm \<noteq> 0 \<longrightarrow> ip ev = ip p \<and> code_ref ev = code_ref p
           \<and> code_length ev = code_length p))"
proof -
  obtain vm1 a where a1: "alloc_env vm zero_env = (vm1, a)" by force
  have n: "new_env vm vm1 a" "envs vm1 a = Some zero_env" 
    using alloc_env_new [OF assms(2) a1] assms(2) by (simp_all add: zero_env_def env_ok_def)
  obtain vm2 tbl vm3 where c: "vm_hash_create vm1 = Inr (vm2, tbl)"
    "upd_env vm2 a (\<lambda>ev. ev\<lparr>bindings := tbl, parent := env vm2\<rparr>) = Inr vm3"
    and r: "(if env vm3 = 0 then Inr (vm3\<lparr>env := a\<rparr>)
        else rbind (get_env (vm3\<lparr>env := a\<rparr>) (env vm3)) (\<lambda>p.
          upd_env (vm3\<lparr>env := a\<rparr>) a (\<lambda>ev. ev\<lparr>code_ref := code_ref p, ip := ip p, code_length := code_length p,
            debug := debug p\<rparr>))) = Inr vm'"
    using assms(1) a1 by (auto simp: push_env_def Let_def res_simps split: prod.splits if_splits)
  have e2: "envs vm2 = envs vm1" "env vm2 = env vm" "next_addr vm1 \<le> next_addr vm2"
    using vm_hash_create_frame [OF c(1)] n(1) by (simp_all add: new_env_def)
  let ?ev = "zero_env\<lparr>bindings := tbl, parent := env vm\<rparr>"
  have v3: "vm3 = vm2\<lparr>envs := (envs vm2)(a \<mapsto> ?ev)\<rparr>"
    using c(2) n(2) e2 by (simp add: upd_env_def get_env_def)
  obtain ev where ev: "envs vm' = (envs vm1)(a \<mapsto> ev)" "env vm' = a" "next_addr vm' = next_addr vm2"
      "parent ev = env vm" "\<forall>p. envs vm (env vm) = Some p \<and> env vm \<noteq> 0 \<longrightarrow> ip ev = ip p \<and> code_ref ev = code_ref p
           \<and> code_length ev = code_length p"
  proof (cases "env vm = 0")
    case True
    then show ?thesis using that [of ?ev] r v3 e2 by auto
  next
    case False
    then obtain p where p: "envs vm (env vm) = Some p" using assms(2) by (auto simp: env_ok_def)
    have "env vm \<noteq> a" using env_parent [OF assms(2) p] n(1) by (simp add: new_env_def)
    then have "envs vm1 (env vm) = Some p" using n(1) p by (simp add: new_env_def)
    moreover have "env vm3 = env vm" "envs vm3 (env vm) = Some p" "envs vm3 a = Some ?ev"
      using v3 e2 \<open>env vm \<noteq> a\<close> calculation by simp_all
    ultimately have "vm' = vm3\<lparr>env := a, envs := (envs vm3)(a \<mapsto> ?ev\<lparr>code_ref := code_ref p, ip := ip p,
        code_length := code_length p, debug := debug p\<rparr>)\<rparr>"
      using r False by (simp add: upd_env_def get_env_def)
    then show ?thesis
      using that [of "?ev\<lparr>code_ref := code_ref p, ip := ip p, code_length := code_length p, debug := debug p\<rparr>"] v3 e2 p
      by simp
  qed
  have "env vm < next_addr vm" "env vm \<noteq> 0 \<longrightarrow> envs vm (env vm) \<noteq> None"
    using assms(2) env_parent [OF assms(2)] by (auto simp: env_ok_def)
  then have "env_ok (vm\<lparr>envs := (envs vm)(a \<mapsto> ev), next_addr := next_addr vm'\<rparr>)"
    using n(1) e2 ev(3,4) by (intro env_ok_envs assms(2)) (auto simp: new_env_def)
  moreover have "envs vm' = (envs vm)(a \<mapsto> ev)" using n(1) ev(1) by (auto simp: new_env_def)
  ultimately have ok: "env_ok vm'" using env_ok_same [of _ vm'] ev(2) by fastforce
  have "next_addr vm \<le> a" using n(1) by (simp add: new_env_def)
  then show ?thesis using ok ev(2-) \<open>envs vm' = (envs vm)(a \<mapsto> ev)\<close> by simp
qed

lemma push_env_wp [wp]: "env_ok vm \<Longrightarrow> (\<And>vm'. env_ok vm' \<Longrightarrow> P vm') \<Longrightarrow> okr P (push_env vm)"
  using push_env_new [of vm] by (auto simp: okr_def)

section \<open>Searches end\<close>

text \<open>The handler the search finds: the first environment of the chain that has one.\<close>

inductive chain :: "'w vm \<Rightarrow> addr \<Rightarrow> addr \<Rightarrow> bool" for vm where
  here: "chain vm e e"
| up: "envs vm e = Some ev \<Longrightarrow> chain vm (parent ev) e' \<Longrightarrow> chain vm e e'"

lemma find_handler_ok:
  assumes "env_ok vm" "e \<noteq> 0 \<longrightarrow> envs vm e \<noteq> None" "e < n"
  shows "\<exists>h. find_handler n vm e = Inr h \<and> (h \<noteq> 0 \<longrightarrow> (\<exists>hv. envs vm h = Some hv \<and> handler hv))"
  using assms(2,3)
proof (induction n arbitrary: e)
  case (Suc n)
  show ?case
  proof (cases "e = 0")
    case False
    then obtain ev where ev: "envs vm e = Some ev" using Suc.prems by auto
    have "parent ev < n" "parent ev \<noteq> 0 \<longrightarrow> envs vm (parent ev) \<noteq> None"
      using env_parent [OF assms(1) ev] Suc.prems by auto
    from Suc.IH [OF this(2,1)] show ?thesis using False ev by (auto simp: get_env_def)
  qed simp
qed simp

lemma hash_find_depth: "hash_find (Suc d) calc cmp READ st t k \<noteq> Inl Stack_Overflow"
  by (auto simp: rbind_def deref_def nth_checked_def Let_def split: option.splits)

lemma hash_get_depth: "hash_get calc cmp st t k \<noteq> Inl Stack_Overflow"
proof -
  have "hash_find 4 calc cmp READ st t k \<noteq> Inl Stack_Overflow"
    using hash_find_depth [of 3 calc cmp st t k] by simp
  then show ?thesis
    by (auto simp: hash_get_def get_value_def rbind_def deref_def nth_checked_def simp del: hash_find.simps
        split: sum.splits option.splits if_splits)
qed

lemma vm_hash_get_depth: "vm_hash_get vm t k \<noteq> Inl Stack_Overflow"
  by (auto simp: vm_hash_get_def rbind_def deref_def hash_get_depth split: option.splits)

lemma find_env_ok:
  assumes "env_ok vm" "e < n"
  shows "find_env n vm e k \<noteq> Inl Stack_Overflow"
  using assms(2)
proof (induction n arbitrary: e)
  case (Suc n)
  have "find_env n vm (parent ev) k \<noteq> Inl Stack_Overflow" if "envs vm e = Some ev" for ev
    using Suc env_parent [OF assms(1) that] by auto
  moreover note vm_hash_get_depth
  ultimately show ?case by (auto simp: get_env_def rbind_def deref_def split: sum.splits option.splits)
qed simp

lemma output_envs_ok:
  assumes "env_ok vm" "e < n"
  shows "output_envs n ptr ob vm e \<noteq> Inl Stack_Overflow"
  using assms
proof (induction n arbitrary: e vm)
  case (Suc n)
  have "output_envs n ptr ob (print vm t) (parent ev) \<noteq> Inl Stack_Overflow" if "envs vm e = Some ev" for ev t
    using Suc env_parent [OF Suc.prems(1) that] by (auto simp: print_def)
  then show ?case by (auto simp: get_env_def rbind_def deref_def split: sum.splits option.splits)
qed simp

lemma find_handler_parent:
  assumes "find_handler n vm e = Inr h" "h \<noteq> 0"
  shows "\<exists>hv. envs vm h = Some hv \<and> handler hv"
  using assms by (induction n vm e rule: find_handler.induct) (auto simp: res_simps get_env_def split: if_splits)

lemma find_handler_wp [wp]: "(\<And>h. h \<noteq> 0 \<longrightarrow> envs vm h \<noteq> None \<Longrightarrow> P h) \<Longrightarrow> okr P (find_handler n vm e)"
  using find_handler_parent [of n vm e] by (fastforce simp: okr_def)

lemma throw_wp [wp]: "env_ok vm \<Longrightarrow> (\<And>vm'. env_ok vm' \<Longrightarrow> P vm') \<Longrightarrow> okr P (throw vm msg args)"
  by (auto simp: throw_def Let_def intro!: wp)

section \<open>The instructions\<close>

lemma parse_int_wp [wp]: "env_ok vm \<Longrightarrow> (\<And>vm' a. env_ok vm' \<Longrightarrow> P (vm', a)) \<Longrightarrow> okr P (parse_int vm)"
  by (auto simp: parse_int_def intro!: wp)

lemma parse_string_wp [wp]: "env_ok vm \<Longrightarrow> (\<And>vm' a. env_ok vm' \<Longrightarrow> P (vm', a)) \<Longrightarrow> okr P (parse_string vm)"
  by (auto simp: parse_string_def intro!: wp)

lemma make_symbol_wp [wp]: "env_ok vm \<Longrightarrow> (\<And>vm' a. env_ok vm' \<Longrightarrow> P (vm', a)) \<Longrightarrow> okr P (make_symbol vm ob)"
  by (auto simp: make_symbol_def Let_def intro!: wp)

lemma literals_ok:
  "env_ok vm \<Longrightarrow> okr env_ok (op_lit_64bit vm)" "env_ok vm \<Longrightarrow> okr env_ok (op_lit_char vm)"
  "env_ok vm \<Longrightarrow> okr env_ok (op_lit_empty vm)" "env_ok vm \<Longrightarrow> okr env_ok (op_lit_true vm)"
  "env_ok vm \<Longrightarrow> okr env_ok (op_lit_false vm)" "env_ok vm \<Longrightarrow> okr env_ok (op_lit_symbol vm)"
  "env_ok vm \<Longrightarrow> okr env_ok (op_lit_string vm)" "env_ok vm \<Longrightarrow> okr env_ok (op_make_symbol vm)"
  by (auto simp: op_lit_64bit_def op_lit_char_def op_lit_empty_def op_lit_true_def op_lit_false_def
    op_lit_symbol_def op_lit_string_def op_make_symbol_def Let_def intro!: wp)

lemma lists_ok:
  "env_ok vm \<Longrightarrow> okr env_ok (op_cons vm)" "env_ok vm \<Longrightarrow> okr env_ok (op_car vm)"
  "env_ok vm \<Longrightarrow> okr env_ok (op_cdr vm)" "env_ok vm \<Longrightarrow> okr env_ok (op_set_car vm)"
  "env_ok vm \<Longrightarrow> okr env_ok (op_set_cdr vm)"
  by (auto simp: op_cons_def op_car_def op_cdr_def op_set_car_def op_set_cdr_def Let_def intro!: wp)


lemma stacks_ok:
  "env_ok vm \<Longrightarrow> okr env_ok (op_swap vm)" "env_ok vm \<Longrightarrow> okr env_ok (op_rot vm)"
  "env_ok vm \<Longrightarrow> okr env_ok (op_dup_ref vm)" "env_ok vm \<Longrightarrow> okr env_ok (op_depth vm)"
  "env_ok vm \<Longrightarrow> okr env_ok (op_drop vm)" "env_ok vm \<Longrightarrow> okr env_ok (op_not vm)"
  by (auto simp: op_swap_def op_rot_def op_dup_ref_def op_depth_def op_drop_def op_not_def Let_def intro!: wp)

lemma op_eq_ok: "env_ok vm \<Longrightarrow> okr env_ok (op_eq vm)"
  by (auto simp: op_eq_def intro!: wp)

lemma numbers_ok:
  "env_ok vm \<Longrightarrow> okr env_ok (NUMERIC_OP f vm)" "env_ok vm \<Longrightarrow> okr env_ok (NUMERIC_LOGIC g vm)"
  "env_ok vm \<Longrightarrow> okr env_ok (TYPE_OP h vm)"
  by (auto simp: NUMERIC_OP_def NUMERIC_LOGIC_def TYPE_OP_def Let_def intro!: wp okr_any [of _ "f i j" for i j])

lemma control_ok:
  "env_ok vm \<Longrightarrow> okr env_ok (op_jnf vm)" "env_ok vm \<Longrightarrow> okr env_ok (op_jmp vm)"
  "env_ok vm \<Longrightarrow> okr env_ok (op_call vm)" "env_ok vm \<Longrightarrow> okr env_ok (op_proc vm)"
  "env_ok vm \<Longrightarrow> okr env_ok (op_ret vm)" "env_ok vm \<Longrightarrow> okr env_ok (op_continue vm)"
  "env_ok vm \<Longrightarrow> okr env_ok (op_restore vm)"
  by (auto simp: op_jnf_def op_jmp_def op_call_def op_proc_def op_ret_def op_continue_def op_restore_def
    jump_by_def not_closure_def Let_def intro!: wp)

lemma closure_calls_ok:
  "env_ok vm \<Longrightarrow> okr env_ok (op_call_in vm)" "env_ok vm \<Longrightarrow> okr env_ok (op_tail_call_in vm)"
  by (auto simp: op_call_in_def op_tail_call_in_def enter_closure_def not_closure_def Let_def intro!: wp)

text \<open>The two instructions that give an environment another parent give it to a new one.\<close>

lemma upd_parent_wp:
  assumes "new_env vm vm' a" "env_ok vm'" "\<And>ev. parent (f ev) = q" "q < a" "q \<noteq> 0 \<longrightarrow> envs vm' q \<noteq> None"
    "envs v = envs vm'" "next_addr v = next_addr vm'" "env v = env vm' \<or> env v = a"
  shows "okr env_ok (upd_env v a f)"
  unfolding okr_def
proof (intro allI impI)
  fix v' assume r: "upd_env v a f = Inr v'"
  obtain ev where ev: "envs vm' a = Some ev" using assms(1) by (auto simp: new_env_def)
  have v': "v' = v\<lparr>envs := (envs v)(a \<mapsto> f ev)\<rparr>" using r ev assms(6) by (simp add: upd_env_def get_env_def)
  have e: "0 < b \<and> b < next_addr vm' \<and> parent ev < b \<and> (parent ev \<noteq> 0 \<longrightarrow> envs vm' (parent ev) \<noteq> None)"
    if "envs vm' b = Some ev" for b ev
    using assms(2) that by (simp add: env_ok_def)
  have "env v' \<noteq> 0 \<longrightarrow> envs v' (env v') \<noteq> None" using assms(2,6,8) v' by (auto simp: env_ok_def)
  moreover have "0 < next_addr v'" using assms(2,7) v' by (simp add: env_ok_def)
  moreover have "0 < b \<and> b < next_addr v' \<and> parent ev' < b \<and> (parent ev' \<noteq> 0 \<longrightarrow> envs v' (parent ev') \<noteq> None)"
    if "envs v' b = Some ev'" for b ev'
    using that e [of b] e [OF ev] assms(3-7) v' by (cases "b = a") auto
  ultimately show "env_ok v'" by (simp add: env_ok_def)
qed

lemma old_env_parent:
  assumes "new_env vm vm' a" "env_ok vm" "envs vm e = Some ev"
  shows "parent ev < a \<and> (parent ev \<noteq> 0 \<longrightarrow> envs vm' (parent ev) \<noteq> None)"
proof -
  have p: "parent ev < next_addr vm" "parent ev \<noteq> 0 \<longrightarrow> envs vm (parent ev) \<noteq> None"
    using env_parent [OF assms(2,3)] by simp_all
  have "next_addr vm \<le> a" "\<forall>b. b \<noteq> a \<longrightarrow> envs vm' b = envs vm b" using assms(1) by (simp_all add: new_env_def)
  then show ?thesis using p by (cases "parent ev = a") auto
qed

lemma new_env_old: "new_env vm vm' a \<Longrightarrow> env_ok vm \<Longrightarrow> env vm \<noteq> 0 \<Longrightarrow> envs vm' (env vm) = envs vm (env vm)"
  unfolding new_env_def env_ok_def by (metis leD option.exhaust)

lemma op_jin_ok:
  fixes vm :: "'w vm"
  assumes ok: "env_ok vm" 
  shows "okr env_ok (op_jin vm)"
proof -
  have body: "okr env_ok (rbind (clone_env vm ce False) (\<lambda>(vm', e).
         rbind (get_env vm' (env vm)) (\<lambda>old.
           upd_env (vm'\<lparr>env := e\<rparr>) e (\<lambda>ev. ev\<lparr>bindings := bindings old, parent := parent old\<rparr>))))"
    if ok: "env_ok vm" for vm :: "'w vm" and ce
  proof (rule okr_bind, rule clone_env_wp [OF ok], simp, rule okr_bind, rule okr_get_env)
    fix vm' :: "'w vm" and a old
    assume a: "env_ok vm'" "env_ok (vm'\<lparr>env := a\<rparr>)" "new_env vm vm' a" "envs vm' (env vm) = Some old"
    have "env vm \<noteq> 0" using env_parent [OF a(1,4)] by simp
    then have "envs vm (env vm) = Some old" using new_env_old [OF a(3) ok] a(4) by simp
    from old_env_parent [OF a(3) ok this]
    show "okr env_ok (upd_env (vm'\<lparr>env := a\<rparr>) a (\<lambda>ev. ev\<lparr>bindings := bindings old, parent := parent old\<rparr>))"
      by (intro upd_parent_wp [OF a(3,1), where q = "parent old"]) auto
  qed
  show ?thesis using ok by (auto simp: op_jin_def not_closure_def intro!: wp body)
qed

lemma adopt_body_ok:
  fixes vm :: "'w vm"
  assumes ok: "env_ok vm"
  shows "okr env_ok (rbind (clone_env vm ce True) (\<lambda>(vm, e).
           let vm = set_obj vm adopted \<lparr>otype = CLOSURE, ovalue = Closure e\<rparr> in
           rbind (closure_env vm par) (\<lambda>pe.
           rbind (get_env vm pe) (\<lambda>pev.
           rbind (upd_env vm e (\<lambda>ev. ev\<lparr>parent := parent pev, bindings := bindings pev\<rparr>)) (\<lambda>vm.
             Inr (vm_push vm adopted))))))"
proof (rule okr_bind, rule clone_env_wp [OF ok], simp add: Let_def, rule okr_bind, rule reads, rule okr_bind,
    rule okr_get_env, rule okr_bind)
  fix vm' :: "'w vm" and a pe pev
  let ?v = "set_obj vm' adopted \<lparr>otype = CLOSURE, ovalue = Closure a\<rparr>"
  assume a: "env_ok vm'" "env_ok (vm'\<lparr>env := a\<rparr>)" "new_env vm vm' a" "envs ?v pe = Some pev"
  have pe: "envs vm' pe = Some pev" using a(4) by (simp add: set_obj_def)
  have "parent pev < a \<and> (parent pev \<noteq> 0 \<longrightarrow> envs vm' (parent pev) \<noteq> None)"
  proof (cases "pe = a")
    case True
    then show ?thesis using env_parent [OF a(1) pe] by simp
  next
    case False
    then have "envs vm pe = Some pev" using a(3) pe by (simp add: new_env_def)
    then show ?thesis by (rule old_env_parent [OF a(3) ok])
  qed
  then have "okr env_ok (upd_env ?v a (\<lambda>ev. ev\<lparr>parent := parent pev, bindings := bindings pev\<rparr>))"
    by (intro upd_parent_wp [OF a(3,1), where q = "parent pev"]) (auto simp: set_obj_def)
  then show "okr (\<lambda>x. okr env_ok (Inr (vm_push x adopted)))
      (upd_env ?v a (\<lambda>ev. ev\<lparr>parent := parent pev, bindings := bindings pev\<rparr>))"
    by (rule okr_weaken) (auto intro!: wp)
qed

lemma op_adopt_ok: "env_ok vm \<Longrightarrow> okr env_ok (op_adopt vm)"
  by (auto simp: op_adopt_def intro!: wp adopt_body_ok)

lemma locations_ok:
  "env_ok vm \<Longrightarrow> okr env_ok (op_bind vm)" "env_ok vm \<Longrightarrow> okr env_ok (op_read vm)"
  "env_ok vm \<Longrightarrow> okr env_ok (op_set vm)" "env_ok vm \<Longrightarrow> okr env_ok (op_set_exit vm)"
  by (auto simp: op_bind_def op_read_def op_set_def op_set_exit_def Let_def intro!: wp)

lemma vectors_ok:
  "env_ok vm \<Longrightarrow> okr env_ok (op_make_byte_vector vm)" "env_ok vm \<Longrightarrow> okr env_ok (op_make_vector vm)"
  "env_ok vm \<Longrightarrow> okr env_ok (op_make_record vm)" "env_ok vm \<Longrightarrow> okr env_ok (op_vector_length vm)"
  "env_ok vm \<Longrightarrow> okr env_ok (op_index_set vm)" "env_ok vm \<Longrightarrow> okr env_ok (op_index_ref vm)"
  "env_ok vm \<Longrightarrow> okr env_ok (op_string_byte_vector vm)" "env_ok vm \<Longrightarrow> okr env_ok (op_byte_vector_string vm)"
  by (auto simp: op_make_byte_vector_def op_make_vector_def op_make_record_def make_block_def op_vector_length_def
    op_index_set_def op_index_ref_def op_string_byte_vector_def op_byte_vector_string_def Let_def intro!: wp)


section \<open>Instructions that reach outside\<close>

lemma print_ok [simp]: "env_ok (print vm bs) = env_ok vm" "env_ok (print_s vm s) = env_ok vm"
  by (simp_all add: print_def print_s_def)

lemma pair_loop_wp:
  assumes "\<And>vm a. env_ok vm \<Longrightarrow> okr env_ok (f vm a)" "env_ok vm"
  shows "okr (\<lambda>q. env_ok (fst q)) (pair_loop f n vm flag p)"
  using assms(2)
proof (induction n arbitrary: vm flag p)
  case (Suc n)
  show ?case
    by (auto simp: Let_def split_beta Suc.prems intro!: wp okr_weaken [OF assms(1)] Suc.IH)
qed (auto intro!: wp)

lemma vector_loop_wp:
  assumes "\<And>vm a. env_ok vm \<Longrightarrow> okr env_ok (f vm a)" "env_ok vm"
  shows "okr env_ok (vector_loop f p is vm)"
  using assms(2)
proof (induction "is" arbitrary: vm)
  case (Cons i "is")
  show ?case by (auto simp: Let_def Cons.prems intro!: wp okr_weaken [OF assms(1)] Cons.IH)
qed (auto intro!: wp)

lemma bytes_loop_wp: "env_ok vm \<Longrightarrow> okr env_ok (bytes_loop p is vm)"
  by (induction "is" arbitrary: vm) (auto simp: Let_def intro!: wp)

lemma output_envs_wp: "env_ok vm \<Longrightarrow> okr env_ok (output_envs n ptr ob vm e)"
  by (induction n arbitrary: vm e) (auto intro!: wp)

lemma output_object_ok: "env_ok vm \<Longrightarrow> okr env_ok (output_object n ptr vm ob)"
proof (induction n arbitrary: vm ob)
  case (Suc n)
  have v: "env_ok vm \<Longrightarrow> okr env_ok (output_cells s1 s2 (output_object n ptr) vm x)" for s1 s2 x and vm :: "'a vm"
    by (auto simp: output_cells_def split_beta intro!: wp okr_weaken [OF vector_loop_wp [OF Suc.IH]])
  have b: "env_ok vm \<Longrightarrow> okr env_ok (output_byte_vector vm x)" for x and vm :: "'a vm"
    by (auto simp: output_byte_vector_def split_beta intro!: wp okr_weaken [OF bytes_loop_wp])
  have p: "env_ok vm \<Longrightarrow> okr env_ok (output_pair (output_object n ptr) vm x)" for x and vm :: "'a vm"
    by (auto simp: output_pair_def intro!: wp okr_weaken [OF pair_loop_wp [OF Suc.IH]] okr_weaken [OF Suc.IH])
  show ?case using Suc.prems
    by (auto simp: Let_def split_beta intro!: wp okr_weaken [OF v] okr_weaken [OF b] okr_weaken [OF p]
      okr_weaken [OF output_envs_wp])
qed (auto intro!: wp)


lemma vm_output_object_wp: "env_ok vm \<Longrightarrow> okr env_ok (vm_output_object x vm ob)"
  by (simp add: vm_output_object_def output_object_ok)

lemma vm_load_buf_wp [wp]: "env_ok vm \<Longrightarrow> (\<And>vm' a. env_ok vm' \<Longrightarrow> P (vm', a)) \<Longrightarrow> okr P (vm_load_buf x vm path)"
  by (auto simp: vm_load_buf_def Let_def split_beta intro!: wp)

lemma throw_errno_wp: "env_ok vm \<Longrightarrow> okr env_ok (throw_errno x vm msg ob err)"
  by (auto simp: throw_errno_def Let_def intro!: wp)

lemma io_ok:
  "env_ok vm \<Longrightarrow> okr env_ok (op_slurp x vm)" "env_ok vm \<Longrightarrow> okr env_ok (op_output x vm)"
  "env_ok vm \<Longrightarrow> okr env_ok (op_close x vm)" "env_ok vm \<Longrightarrow> okr env_ok (op_open x vm)"
  by (auto simp: op_slurp_def op_output_def op_close_def op_open_def Let_def split_beta
    intro!: wp vm_output_object_wp throw_errno_wp)

lemma fd_ok:
  "env_ok vm \<Longrightarrow> okr env_ok (op_fd_write x vm)" "env_ok vm \<Longrightarrow> okr env_ok (op_fd_read x vm)"
  by (auto simp: op_fd_write_def op_fd_read_def Let_def split_beta intro!: wp throw_errno_wp)

lemma bind_exports_wp [wp]:
  "env_ok vm \<Longrightarrow> (\<And>vm' a. env_ok vm' \<Longrightarrow> P (vm', a)) \<Longrightarrow> okr P (bind_exports vm es n alist)"
proof (induction es arbitrary: vm n alist)
  case (Cons e es)
  then show ?case by (cases e) (auto simp: Let_def split_beta intro!: wp)
qed (auto intro!: wp)

lemma load_library_wp [wp]:
  "env_ok vm \<Longrightarrow> (\<And>vm' a. env_ok vm' \<Longrightarrow> P (vm', a)) \<Longrightarrow> okr P (load_library x vm ob p path)"
  by (auto simp: load_library_def Let_def split_beta intro!: wp)

lemma op_import_ok: "env_ok vm \<Longrightarrow> okr env_ok (op_import x vm)"
  by (auto simp: op_import_def Let_def split_beta intro!: wp)

definition calls_ok :: "'w externs \<Rightarrow> bool" where
  "calls_ok x \<longleftrightarrow> (\<forall>f vm vm'. env_ok vm \<longrightarrow> x_call x f vm = Inr vm' \<longrightarrow> env_ok vm')"

lemma x_call_wp: "calls_ok x \<Longrightarrow> env_ok vm \<Longrightarrow> okr env_ok (x_call x f vm)"
  by (auto simp: calls_ok_def okr_def)

lemma op_call_ext_ok: "calls_ok x \<Longrightarrow> env_ok vm \<Longrightarrow> okr env_ok (op_call_ext x vm)"
  by (auto simp: op_call_ext_def call_export_def Let_def split_beta intro!: wp okr_weaken [OF x_call_wp])

lemma others_ok: "env_ok vm \<Longrightarrow> okr env_ok (op_asm x vm)" "env_ok vm \<Longrightarrow> okr env_ok (op_gc_stats x vm)"
  by (auto simp: op_asm_def op_gc_stats_def Let_def split_beta intro!: wp)

lemmas instruction_ok = literals_ok lists_ok stacks_ok op_eq_ok numbers_ok control_ok closure_calls_ok op_jin_ok op_adopt_ok
  locations_ok vectors_ok io_ok fd_ok op_import_ok op_call_ext_ok others_ok

lemma instructions_ok:
  assumes "calls_ok x" "env_ok vm" "(op_code, f) \<in> set (instructions x)"
  shows "okr env_ok (f vm)"
  using assms(3) unfolding instructions_def
  by (auto simp: op_add_def op_sub_def op_mul_def op_div_def op_mod_def op_numeric_equal_def op_numeric_lt_def
    op_numeric_gt_def op_is_fixnum_def op_is_bool_def op_is_char_def op_is_string_def op_is_symbol_def
    op_is_vector_def op_is_byte_vector_def op_is_record_def op_is_pair_def op_is_empty_def op_is_closure_def
    op_is_self_def instruction_ok assms(1,2))

lemma setup_instructions_ok:
  "calls_ok x \<Longrightarrow> env_ok vm \<Longrightarrow> okr env_ok (case setup_instructions x c of None \<Rightarrow> Inl Assert_Failed | Some f \<Rightarrow> f vm)"
  by (auto simp: setup_instructions_def intro: okr_Inl instructions_ok dest: map_of_SomeD split: option.split)

lemma vm_step_ok:
  assumes "calls_ok x" "env_ok vm"
  shows "okr env_ok (vm_step x vm)"
  unfolding vm_step_def using assms
  by (intro okr_bind okr_get_env reads upd_env_wp setup_instructions_ok) auto

lemma vm_reach_env_ok: "vm_reach x vm vm' \<Longrightarrow> calls_ok x \<Longrightarrow> env_ok vm \<Longrightarrow> env_ok vm'"
  by (induction rule: vm_reach.induct) (auto elim!: vm_nextE dest: vm_step_ok [THEN okrD])

end
