(* ===== verification/Vm_Stack.thy ===== *)
theory Vm_Stack
  imports Vm_Inv
begin

text \<open>
  The machine's stack as a list of addresses, and what the instructions that only allocate do to it:
  a calculus of rules that run an instruction forwards from a known stack.
\<close>

section \<open>The stack as a list\<close>

fun stk_at :: "'w vm \<Rightarrow> addr \<Rightarrow> addr list \<Rightarrow> bool" where
  "stk_at vm r [] \<longleftrightarrow> r < next_addr vm \<and> (\<exists>v. objs vm r = Some \<lparr>otype = EMPTY, ovalue = v\<rparr>)"
| "stk_at vm r (x # xs) \<longleftrightarrow> x \<noteq> 0 \<and> r < next_addr vm
     \<and> (\<exists>rest. objs vm r = Some \<lparr>otype = PAIR, ovalue = Pair x rest\<rparr> \<and> stk_at vm rest xs)"

definition stk :: "'w vm \<Rightarrow> addr list \<Rightarrow> bool" where
  "stk vm xs \<longleftrightarrow> stk_at vm (stack_root vm) xs \<and> depth vm = of_nat (length xs)"

text \<open>A machine that has only allocated objects and moved its stack.\<close>

definition quiet :: "'w vm \<Rightarrow> 'w vm \<Rightarrow> bool" where
  "quiet vm vm' \<longleftrightarrow> next_addr vm \<le> next_addr vm' \<and> (\<forall>a<next_addr vm. objs vm' a = objs vm a)
     \<and> blobs vm' = blobs vm \<and> vecs vm' = vecs vm \<and> envs vm' = envs vm \<and> tables vm' = tables vm
     \<and> hs vm' = hs vm \<and> env vm' = env vm \<and> empty vm' = empty vm \<and> vm_true vm' = vm_true vm
     \<and> vm_false vm' = vm_false vm \<and> symbol_table vm' = symbol_table vm
     \<and> exit_status vm' = exit_status vm \<and> out vm' = out vm \<and> world vm' = world vm"

lemma quiet_refl [simp]: "quiet vm vm"
  by (simp add: quiet_def)

lemma quiet_trans [trans]: "quiet vm vm1 \<Longrightarrow> quiet vm1 vm2 \<Longrightarrow> quiet vm vm2"
  by (auto simp: quiet_def)

lemma quiet_stack [simp]: "quiet vm (vm1\<lparr>stack_root := r, depth := d\<rparr>) = quiet vm vm1"
  by (simp add: quiet_def)

lemma stk_at_quiet: "stk_at vm r xs \<Longrightarrow> quiet vm vm' \<Longrightarrow> stk_at vm' r xs"
  by (induction xs arbitrary: r) (auto simp: quiet_def)

text \<open>Addresses in use are below the counter; the three objects every machine shares.\<close>

definition heap_ok :: "'w vm \<Rightarrow> bool" where
  "heap_ok vm \<longleftrightarrow> 0 < next_addr vm
     \<and> (\<forall>a. next_addr vm \<le> a \<longrightarrow> objs vm a = None \<and> blobs vm a = None \<and> envs vm a = None)
     \<and> (\<exists>v. objs vm (empty vm) = Some \<lparr>otype = EMPTY, ovalue = v\<rparr>)
     \<and> objs vm (vm_true vm) = Some \<lparr>otype = BOOL, ovalue = Boolean True\<rparr>
     \<and> objs vm (vm_false vm) = Some \<lparr>otype = BOOL, ovalue = Boolean False\<rparr>
     \<and> empty vm \<noteq> 0 \<and> vm_true vm \<noteq> 0 \<and> vm_false vm \<noteq> 0"

lemma heap_ok_below:
  assumes "heap_ok vm"
  shows "objs vm a = Some ob \<Longrightarrow> a < next_addr vm" "blobs vm a = Some bs \<Longrightarrow> a < next_addr vm"
    "envs vm a = Some ev \<Longrightarrow> a < next_addr vm"
  using assms unfolding heap_ok_def by (metis linorder_not_le option.distinct(1))+

lemma vm_new_eq:
  "ty \<noteq> EMPTY \<Longrightarrow> vm_new vm ty v = (vm\<lparr>objs := (objs vm)(next_addr vm \<mapsto> \<lparr>otype = ty, ovalue = v\<rparr>),
     next_addr := next_addr vm + 1\<rparr>, next_addr vm)"
  by (simp add: vm_new_def vm_alloc_def alloc_object_def set_obj_def)

lemma vm_push_eq: "vm_push vm x = vm\<lparr>objs := (objs vm)(next_addr vm \<mapsto> \<lparr>otype = PAIR, ovalue = Pair x (stack_root vm)\<rparr>),
     next_addr := next_addr vm + 1, stack_root := next_addr vm, depth := depth vm + 1\<rparr>"
  by (simp add: vm_push_def cons_def vm_new_eq)

lemma vm_new_ok:
  assumes "heap_ok vm" "ty \<noteq> EMPTY" "vm_new vm ty v = (vm', a)"
  shows "heap_ok vm' \<and> quiet vm vm' \<and> a \<noteq> 0 \<and> a < next_addr vm' \<and> next_addr vm \<le> a
    \<and> objs vm' a = Some \<lparr>otype = ty, ovalue = v\<rparr> \<and> stack_root vm' = stack_root vm \<and> depth vm' = depth vm"
  using assms heap_ok_below(1) [OF assms(1)] 
  by (auto simp: vm_new_eq heap_ok_def quiet_def)

lemma vm_push_ok:
  assumes "heap_ok vm" "stk vm xs" "x \<noteq> 0"
  shows "heap_ok (vm_push vm x)" "stk (vm_push vm x) (x # xs)" "quiet vm (vm_push vm x)"
proof -
  have q: "quiet vm (vm_push vm x)" by (simp add: vm_push_eq quiet_def)
  then show "quiet vm (vm_push vm x)" .
  show "heap_ok (vm_push vm x)" using assms(1) by (auto simp: vm_push_eq heap_ok_def)
  have "stk_at (vm_push vm x) (stack_root vm) xs" using stk_at_quiet [OF _ q] assms(2) by (simp add: stk_def)
  then show "stk (vm_push vm x) (x # xs)" using assms(2,3) by (simp add: stk_def vm_push_eq)
qed

lemma vm_pop_ok:
  assumes "stk vm (x # xs)"
  obtains vm' where "vm_pop vm = Inr (vm', x)" "stk vm' xs" "quiet vm vm'" "heap_ok vm \<longrightarrow> heap_ok vm'"
    "objs vm' = objs vm" "next_addr vm' = next_addr vm"
proof -
  obtain r where r: "x \<noteq> 0" "objs vm (stack_root vm) = Some \<lparr>otype = PAIR, ovalue = Pair x r\<rparr>" "stk_at vm r xs"
    "depth vm = of_nat (length (x # xs))"
    using assms by (auto simp: stk_def)
  let ?v = "vm\<lparr>stack_root := r, depth := depth vm - 1\<rparr>"
  have "vm_pop vm = Inr (?v, x)" using r by (simp add: vm_pop_def get_obj_def pair_def)
  moreover have "stk_at vm' r ys" if "stk_at vm r ys" "objs vm' = objs vm" "next_addr vm' = next_addr vm"
    for ys and vm' :: "'a vm" using that by (induction ys arbitrary: r) auto
  then have "stk ?v xs" using r(3,4) by (simp add: stk_def)
  ultimately show ?thesis using that by (simp add: heap_ok_def)
qed

lemma vm_pop_empty: "stk vm [] \<Longrightarrow> vm_pop vm = Inl Assert_Failed"
  by (auto simp: stk_def vm_pop_def get_obj_def)


section \<open>Running an instruction\<close>

text \<open>The computation returns, with a result that satisfies the predicate.\<close>

definition gives :: "('a \<Rightarrow> bool) \<Rightarrow> 'a res \<Rightarrow> bool" where
  "gives P r \<longleftrightarrow> (\<exists>x. r = Inr x \<and> P x)"

text \<open>From \<open>vm0\<close> the machine got to \<open>vm\<close>, which has the stack \<open>xs\<close>, by allocations only.\<close>

definition good :: "'w vm \<Rightarrow> 'w vm \<Rightarrow> addr list \<Rightarrow> bool" where
  "good vm0 vm xs \<longleftrightarrow> heap_ok vm0 \<and> heap_ok vm \<and> stk vm xs \<and> quiet vm0 vm"

named_theorems run "rules that run an instruction forwards"

lemma givesE: "gives P r \<Longrightarrow> (\<And>x. r = Inr x \<Longrightarrow> P x \<Longrightarrow> Q) \<Longrightarrow> Q"
  by (auto simp: gives_def)

lemma gives_Inr [run]: "P x \<Longrightarrow> gives P (Inr x)"
  by (simp add: gives_def)

lemma gives_bind [run]: "gives (\<lambda>x. gives P (f x)) m \<Longrightarrow> gives P (rbind m f)"
  by (auto simp: gives_def)

lemma gives_if [run]: "(c \<Longrightarrow> gives P x) \<Longrightarrow> (\<not> c \<Longrightarrow> gives P y) \<Longrightarrow> gives P (if c then x else y)"
  by simp

lemma good_start: "heap_ok vm \<Longrightarrow> stk vm xs \<Longrightarrow> good vm vm xs"
  by (simp add: good_def)

lemma good_push [simp, intro]: "good vm0 vm xs \<Longrightarrow> x \<noteq> 0 \<Longrightarrow> good vm0 (vm_push vm x) (x # xs)"
  using vm_push_ok [of vm xs x] quiet_trans by (auto simp: good_def)

lemma good_pop [run]:
  assumes "good vm0 vm (x # xs)" "\<And>vm'. good vm0 vm' xs \<Longrightarrow> P (vm', x)"
  shows "gives P (vm_pop vm)"
proof -
  have g: "heap_ok vm0" "heap_ok vm" "stk vm (x # xs)" "quiet vm0 vm" using assms(1) by (simp_all add: good_def)
  obtain vm' where v: "vm_pop vm = Inr (vm', x)" "stk vm' xs" "quiet vm vm'" "heap_ok vm \<longrightarrow> heap_ok vm'"
    by (rule vm_pop_ok [OF g(3)])
  have "good vm0 vm' xs" using g v quiet_trans by (auto simp: good_def)
  then show ?thesis using assms(2) v(1) by (simp add: gives_def)
qed

lemma good_old: "good vm0 vm xs \<Longrightarrow> objs vm0 a = Some ob \<Longrightarrow> objs vm a = Some ob"
  using heap_ok_below(1) [of vm0 a ob] by (auto simp: good_def quiet_def)

lemma good_get [run]: "good vm0 vm xs \<Longrightarrow> objs vm0 a = Some ob \<Longrightarrow> P ob \<Longrightarrow> gives P (get_obj vm a)"
  using good_old [of vm0 vm xs a ob] by (simp add: gives_def get_obj_def)

lemma good_nonzero: "good vm0 vm (x # xs) \<Longrightarrow> x \<noteq> 0"
  by (simp add: good_def stk_def)

lemma good_type [run]:
  assumes "good vm0 vm xs" "objs vm0 a = Some ob" "a \<noteq> 0" "P (otype ob = ty)"
  shows "gives P (is_type vm a ty)"
  using assms good_old [OF assms(1,2)] by (simp add: gives_def is_type_def get_obj_def)

text \<open>A new object, and what is known of it afterwards.\<close>

lemma good_new:
  assumes "good vm0 vm xs" "ty \<noteq> EMPTY"
    "\<And>vm' a. good vm0 vm' xs \<Longrightarrow> good vm' vm' xs \<Longrightarrow> a \<noteq> 0 \<Longrightarrow> next_addr vm0 \<le> a
       \<Longrightarrow> objs vm' a = Some \<lparr>otype = ty, ovalue = v\<rparr> \<Longrightarrow> depth vm' = depth vm \<Longrightarrow> gives P (f vm' a)"
  shows "gives P (case vm_new vm ty v of (vm', a) \<Rightarrow> f vm' a)"
proof -
  obtain vm' a where n: "vm_new vm ty v = (vm', a)" by force
  have g: "heap_ok vm0" "heap_ok vm" "stk vm xs" "quiet vm0 vm" using assms(1) by (simp_all add: good_def)
  have w: "heap_ok vm'" "quiet vm vm'" "a \<noteq> 0" "next_addr vm \<le> a" "objs vm' a = Some \<lparr>otype = ty, ovalue = v\<rparr>"
    "stack_root vm' = stack_root vm" "depth vm' = depth vm"
    using vm_new_ok [OF g(2) assms(2) n] by blast+
  have s: "stk vm' xs" using stk_at_quiet [of vm "stack_root vm" xs vm'] g(3) w(2,6,7) by (simp add: stk_def)
  have "good vm0 vm' xs" using g w s quiet_trans by (auto simp: good_def)
  moreover have "good vm' vm' xs" using w s by (simp add: good_def)
  moreover have "next_addr vm0 \<le> a" using g(4) w(4) by (simp add: quiet_def)
  ultimately show ?thesis using assms(3) w n by simp
qed

text \<open>A constant object of the machine.\<close>

lemma good_const:
  assumes "good vm0 vm xs"
  shows "bool_obj vm b = bool_obj vm0 b" "bool_obj vm0 b \<noteq> 0"
    "objs vm0 (bool_obj vm0 b) = Some \<lparr>otype = BOOL, ovalue = Boolean b\<rparr>"
  using assms by (auto simp: good_def quiet_def bool_obj_def heap_ok_def)

lemma good_bool:
  assumes "good vm0 vm xs"
  shows "good vm0 (vm_push vm (bool_obj vm b)) (bool_obj vm0 b # xs)"
  using good_push [OF assms, of "bool_obj vm0 b"] good_const [OF assms, of b] by simp

section \<open>Instructions on the stack\<close>

lemma op_swap_run: "good vm vm (a # b # xs) \<Longrightarrow> gives (\<lambda>vm'. good vm vm' (b # a # xs)) (op_swap vm)"
  by (auto simp: op_swap_def intro!: run good_push elim: good_nonzero dest: good_nonzero)

lemma op_rot_run: "good vm vm (a # b # c # xs) \<Longrightarrow> gives (\<lambda>vm'. good vm vm' (b # c # a # xs)) (op_rot vm)"
  by (auto simp: op_rot_def intro!: run good_push dest: good_nonzero)


lemma op_dup_run: "good vm vm (a # xs) \<Longrightarrow> gives (\<lambda>vm'. good vm vm' (a # a # xs)) (op_dup_ref vm)"
  by (auto simp: op_dup_ref_def intro!: run good_push dest: good_nonzero)

lemma op_drop_run: "good vm vm (a # xs) \<Longrightarrow> gives (\<lambda>vm'. good vm vm' xs) (op_drop vm)"
  by (auto simp: op_drop_def intro!: run)

lemma op_depth_run:
  assumes "good vm vm xs"
  shows "gives (\<lambda>vm'. \<exists>a. good vm vm' (a # xs) \<and> next_addr vm \<le> a
     \<and> objs vm' a = Some \<lparr>otype = FIXNUM, ovalue = Integer (of_nat (length xs))\<rparr>) (op_depth vm)"
proof -
  have d: "depth vm = of_nat (length xs)" using assms by (simp add: good_def stk_def)
  show ?thesis unfolding op_depth_def Let_def d
    by (rule good_new [OF assms]) (auto intro!: run exI dest: good_old [OF good_push])
qed

lemma op_cons_run:
  assumes "good vm vm (a # b # xs)"
  shows "gives (\<lambda>vm'. \<exists>p. good vm vm' (p # xs) \<and> next_addr vm \<le> p
    \<and> objs vm' p = Some \<lparr>otype = PAIR, ovalue = Pair a b\<rparr>) (op_cons vm)"
  unfolding op_cons_def Let_def cons_def
  by (rule gives_bind, rule good_pop [OF assms], simp, rule gives_bind, rule good_pop, assumption, simp,
      rule good_new, assumption) (auto intro!: run exI dest: good_old [OF good_push])

lemma both_fixnum_run [run]:
  assumes "good vm0 vm xs" "objs vm0 a = Some \<lparr>otype = FIXNUM, ovalue = v\<rparr>"
    "objs vm0 b = Some \<lparr>otype = FIXNUM, ovalue = w\<rparr>" "a \<noteq> 0" "b \<noteq> 0" "P True"
  shows "gives P (both_fixnum vm a b)"
  using assms by (auto simp: both_fixnum_def intro!: run)

lemma NUMERIC_LOGIC_run:
  assumes "good vm vm (b # a # xs)" "objs vm a = Some \<lparr>otype = FIXNUM, ovalue = Integer i\<rparr>"
    "objs vm b = Some \<lparr>otype = FIXNUM, ovalue = Integer j\<rparr>"
  shows "gives (\<lambda>vm'. good vm vm' (bool_obj vm (f i j) # xs)) (NUMERIC_LOGIC f vm)"
proof -
  have nz: "a \<noteq> 0" "b \<noteq> 0" using assms(1) by (auto simp: good_def stk_def)
  show ?thesis unfolding NUMERIC_LOGIC_def
    by (rule gives_bind, rule good_pop [OF assms(1)], simp, rule gives_bind, rule good_pop, assumption, simp,
      rule gives_bind, rule both_fixnum_run [OF _ assms(2,3) nz], assumption, simp,
      rule gives_bind, rule good_get [OF _ assms(2)], assumption, rule gives_bind, rule good_get [OF _ assms(3)], assumption)
      (auto simp: integer_def intro!: run good_bool)
qed

lemma NUMERIC_OP_run:
  assumes "good vm vm (b # a # xs)" "objs vm a = Some \<lparr>otype = FIXNUM, ovalue = Integer i\<rparr>"
    "objs vm b = Some \<lparr>otype = FIXNUM, ovalue = Integer j\<rparr>" "f i j = Inr k"
  shows "gives (\<lambda>vm'. \<exists>c. good vm vm' (c # xs) \<and> next_addr vm \<le> c
    \<and> objs vm' c = Some \<lparr>otype = FIXNUM, ovalue = Integer k\<rparr>) (NUMERIC_OP f vm)"
proof -
  have nz: "a \<noteq> 0" "b \<noteq> 0" using assms(1) by (auto simp: good_def stk_def)
  have body: "gives (\<lambda>vm'. \<exists>c. good vm vm' (c # xs) \<and> next_addr vm \<le> c
      \<and> objs vm' c = Some \<lparr>otype = FIXNUM, ovalue = Integer k\<rparr>)
     (let (v, r) = vm_alloc vm2 FIXNUM in
         rbind (get_obj v a) (\<lambda>o1. rbind (get_obj v b) (\<lambda>o2.
         rbind (f (integer (ovalue o1)) (integer (ovalue o2))) (\<lambda>i.
           Inr (vm_push (set_obj v r \<lparr>otype = FIXNUM, ovalue = Integer i\<rparr>) r)))))"
    if g: "good vm vm2 xs" for vm2
  proof -
    obtain v r where vr: "vm_alloc vm2 FIXNUM = (v, r)" by force
    have n: "vm_new vm2 FIXNUM (Integer k) = (set_obj v r \<lparr>otype = FIXNUM, ovalue = Integer k\<rparr>, r)"
      by (simp add: vm_new_def vr)
    have "objs vm2 a = Some \<lparr>otype = FIXNUM, ovalue = Integer i\<rparr>" "objs vm2 b = Some \<lparr>otype = FIXNUM, ovalue = Integer j\<rparr>"
      using good_old [OF g assms(2)] good_old [OF g assms(3)] by simp_all
    then have "get_obj v a = Inr \<lparr>otype = FIXNUM, ovalue = Integer i\<rparr>" "get_obj v b = Inr \<lparr>otype = FIXNUM, ovalue = Integer j\<rparr>"
      using vr heap_ok_below(1) [of vm2] g
      by (fastforce simp: vm_alloc_def alloc_object_def get_obj_def good_def)+
    moreover have "gives (\<lambda>vm'. \<exists>c. good vm vm' (c # xs) \<and> next_addr vm \<le> c
        \<and> objs vm' c = Some \<lparr>otype = FIXNUM, ovalue = Integer k\<rparr>)
       (case vm_new vm2 FIXNUM (Integer k) of (v, r) \<Rightarrow> Inr (vm_push v r))"
      by (rule good_new [OF g]) (auto intro!: run exI dest: good_old [OF good_push])
    ultimately show ?thesis using assms(4) by (simp add: vr n integer_def)
  qed
  show ?thesis unfolding NUMERIC_OP_def
    by (rule gives_bind, rule good_pop [OF assms(1)], simp, rule gives_bind, rule good_pop, assumption, simp,
      rule gives_bind, rule both_fixnum_run [OF _ assms(2,3) nz], assumption) (simp add: body [unfolded Let_def])
qed

lemma op_not_run:
  assumes "good vm vm (a # xs)" "objs vm a = Some ob"
  shows "gives (\<lambda>vm'. good vm vm' (bool_obj vm (otype ob = BOOL \<and> \<not> boolean (ovalue ob)) # xs)) (op_not vm)"
  unfolding op_not_def
  by (rule gives_bind, rule good_pop [OF assms(1)], simp, rule gives_bind, rule good_get [OF _ assms(2)], assumption)
    (auto intro!: run good_bool)


text \<open>The traps: the two operands are on the stack, and the machine stops.\<close>

lemma NUMERIC_OP_trap:
  assumes "good vm vm (b # a # xs)" "objs vm a = Some \<lparr>otype = FIXNUM, ovalue = Integer i\<rparr>"
    "objs vm b = Some \<lparr>otype = FIXNUM, ovalue = Integer j\<rparr>" "f i j = Inl e"
  shows "NUMERIC_OP f vm = Inl e"
proof -
  have nz: "a \<noteq> 0" "b \<noteq> 0" using assms(1) by (auto simp: good_def stk_def)
  have s: "stk vm (b # a # xs)" "heap_ok vm" using assms(1) by (simp_all add: good_def)
  obtain v1 where v1: "vm_pop vm = Inr (v1, b)" "stk v1 (a # xs)" "objs v1 = objs vm" "next_addr v1 = next_addr vm"
    by (rule vm_pop_ok [OF s(1)])
  obtain v2 where v2: "vm_pop v1 = Inr (v2, a)" "objs v2 = objs vm" "next_addr v2 = next_addr vm"
    using vm_pop_ok [OF v1(2)] v1(3,4) by metis
  have lt: "a < next_addr vm" "b < next_addr vm" using heap_ok_below(1) [OF s(2)] assms(2,3) by auto
  show ?thesis using assms nz lt
    by (simp add: NUMERIC_OP_def v1(1) v2 both_fixnum_def is_type_def get_obj_def vm_alloc_def alloc_object_def
      integer_def)
qed

end
