(* ===== verification/Asm_Props.thy ===== *)
theory Asm_Props
  imports Asm
begin

text \<open>
  The properties of the assembler: the bytes of integers, the invariant of the loop (the code only
  grows, every jump's operand lies inside it, every label is a position in it), and the rewriting
  of the jumps.
\<close>

section \<open>Integers in code\<close>

definition int_of_bytes :: "u8 list \<Rightarrow> u64" where
  "int_of_bytes bs = foldr (\<lambda>b n. push_bit 8 n OR ucast b) bs 0"

lemma bit_BYTE: "b < 8 \<Longrightarrow> bit (BYTE i b) n \<longleftrightarrow> n < 8 \<and> bit i (8 * b + n)"
proof -
  assume b: "b < 8"
  have "(255 :: int) = mask 8" by (simp add: mask_eq_exp_minus_1)
  then have m: "bit (255 :: int) k \<longleftrightarrow> k < 8" for k by (simp only: bit_mask_iff possible_bit_int simp_thms)
  show ?thesis using b by (auto simp: BYTE_def bit_simps m add.commute mult.commute)
qed

lemma BYTE_take: "b < 8 \<Longrightarrow> ucast (BYTE i b) = take_bit 8 (drop_bit (8 * b) i)"
  by (rule bit_word_eqI) (auto simp: bit_simps bit_BYTE)

lemma join_byte: "push_bit 8 (drop_bit (8 * Suc b) i) OR take_bit 8 (drop_bit (8 * b) i) = drop_bit (8 * b) (i :: u64)"
  by (rule bit_word_eqI) (auto simp: bit_simps algebra_simps)

lemma int_of_INT_64: "int_of_bytes (INT_64 i) = i"
proof -
  have z: "drop_bit (8 * 8) i = 0" by (rule bit_word_eqI) (auto simp: bit_simps)
  have "foldr (\<lambda>b n. push_bit 8 n OR ucast b) (map (BYTE i) [k..<8]) (drop_bit (8 * 8) i) = drop_bit (8 * k) i"
    if "k \<le> 8" for k
    using that
  proof (induction rule: inc_induct)
    case (step k)
    then have "[k..<8] = k # [Suc k..<8]" by (simp add: upt_conv_Cons)
    then show ?case using step join_byte [of k i] by (simp add: BYTE_take)
  qed simp
  from this [of 0] have "foldr (\<lambda>b n. push_bit 8 n OR ucast b) (map (BYTE i) [0..<8]) 0 = i"
    by (simp only: z) simp
  moreover have "map (BYTE i) [0..<8] = INT_64 i" by (simp add: INT_64_def upt_conv_Cons numeral_eq_Suc)
  ultimately show ?thesis by (simp add: int_of_bytes_def)
qed

lemma length_INT_64 [simp]: "length (INT_64 i) = 8"
  by (simp add: INT_64_def)

section \<open>The code so far\<close>

lemma EMIT_ok:
  assumes "buffer_ok b" "n \<le> length code"
  obtains b' where "EMIT b code n = Inr b'" "buffer_ok b'" "contents b' = contents b @ take n code"
  using buffer_write_ok [OF assms] by (auto simp: EMIT_def)

lemma EMIT_ok':
  assumes "buffer_ok b" "EMIT b code n = Inr b'" "n \<le> length code"
  shows "buffer_ok b'" "contents b' = contents b @ take n code"
  using buffer_write_ok [OF assms(1,3)] assms(2) by (auto simp: EMIT_def)

lemma EMIT_LIT_STRING_ok:
  assumes "buffer_ok b"
  shows "\<exists>b'. EMIT_LIT_STRING b str = Inr b' \<and> buffer_ok b'
    \<and> contents b' = contents b @ INT_64 (of_nat (length (c_str str))) @ c_str str"
proof -
  obtain b1 where b1: "EMIT b (INT_64 (of_nat (length (c_str str)))) 8 = Inr b1" "buffer_ok b1"
    "contents b1 = contents b @ take 8 (INT_64 (of_nat (length (c_str str))))"
    by (rule EMIT_ok [OF assms, where n = 8 and code = "INT_64 (of_nat (length (c_str str)))"]) auto
  have le: "length (c_str str) \<le> length str" by (simp add: c_str_def length_takeWhile_le)
  have tk: "take (length (c_str str)) str = c_str str"
    by (simp only: c_str_def takeWhile_eq_take [symmetric])
  obtain b2 where "buffer_write b1 str (length (c_str str)) = Inr b2" "buffer_ok b2"
    "contents b2 = contents b1 @ take (length (c_str str)) str"
    by (rule buffer_write_ok [OF b1(2) le])
  then show ?thesis using b1(1,3) tk unfolding EMIT_LIT_STRING_def Let_def
    by (intro exI [of _ b2]) simp
qed

fun jumps_ok :: "nat \<Rightarrow> jump list \<Rightarrow> bool" where
  "jumps_ok n [] \<longleftrightarrow> True"
| "jumps_ok n (j # js) \<longleftrightarrow> (\<exists>a. jump_addr j = of_nat a \<and> a + 8 \<le> n \<and> jumps_ok a js)"

lemma jumps_ok_mono: "jumps_ok n js \<Longrightarrow> n \<le> m \<Longrightarrow> jumps_ok m js"
  by (cases js) fastforce+

text \<open>Every label stands for a position in the code so far.\<close>

definition labels_below :: "nat \<Rightarrow> (u8 list \<times> vm_int) list list \<Rightarrow> bool" where
  "labels_below n bs \<longleftrightarrow> (\<forall>k v. b_lookup hash_string hash_string_cmp bs k = Some v \<longrightarrow>
     (\<exists>p\<le>n. v = of_nat p))"

lemma labels_below_mono: "labels_below n bs \<Longrightarrow> n \<le> m \<Longrightarrow> labels_below m bs"
  unfolding labels_below_def by (meson le_trans)

definition asm_ok :: "asm_state \<Rightarrow> bool" where
  "asm_ok s \<longleftrightarrow> buffer_ok (buf s) \<and> jumps_ok (buffer_size (buf s)) (jump_list s)
     \<and> (\<exists>bs. table_ok hash_string hash_string_cmp (labels_store s) (labels s) bs
         \<and> labels_below (buffer_size (buf s)) bs)"

definition extends :: "asm_state \<Rightarrow> asm_state \<Rightarrow> bool" where
  "extends s s' \<longleftrightarrow> asm_ok s' \<and> (\<exists>code. contents (buf s') = contents (buf s) @ code)
     \<and> (\<exists>js. jump_list s' = js @ jump_list s)"

lemma extends_refl: "asm_ok s \<Longrightarrow> extends s s"
  by (simp add: extends_def)

lemma extends_trans: "extends s s1 \<Longrightarrow> extends s1 s2 \<Longrightarrow> extends s s2"
  by (auto simp: extends_def)

lemma size_contents: "buffer_ok b \<Longrightarrow> buffer_size b = length (contents b)"
  by (simp add: buffer_size_def length_contents)

lemma extends_buf:
  assumes "asm_ok s" "buffer_ok b" "contents b = contents (buf s) @ code"
  shows "extends s (s\<lparr>buf := b\<rparr>)"
  using assms jumps_ok_mono [of "buffer_size (buf s)" "jump_list s" "buffer_size b"]
    labels_below_mono [of "buffer_size (buf s)" _ "buffer_size b"]
  by (fastforce simp: extends_def asm_ok_def size_contents)

lemma extends_debug: "asm_ok s \<Longrightarrow> extends s (s\<lparr>debug_out := d\<rparr>)"
  by (auto simp: extends_def asm_ok_def)

lemma asm_ok_buf: "asm_ok s \<Longrightarrow> buffer_ok (buf s)"
  by (simp add: asm_ok_def)

lemma asm_label_extends:
  assumes ok: "asm_ok s" and r: "asm_label s str = Inr s'"
  shows "extends s s' \<and> buf s' = buf s \<and> jump_list s' = jump_list s"
proof -
  obtain bs where t: "table_ok hash_string hash_string_cmp (labels_store s) (labels s) bs"
    and lb: "labels_below (buffer_size (buf s)) bs"
    using ok by (auto simp: asm_ok_def)
  obtain st' t' bs' where h: "hash_set hash_string hash_string_cmp (labels_store s) (labels s) (c_str str)
      (of_nat (buffer_size (buf s))) = Inr (st', t')" "table_ok hash_string hash_string_cmp st' t' bs'"
    "\<forall>j. b_lookup hash_string hash_string_cmp bs' j = (if hash_string_cmp (c_str str) j = EQ
        then Some (of_nat (buffer_size (buf s))) else b_lookup hash_string hash_string_cmp bs j)"
    "\<not> copy_on_write t'" "\<not> over_max_load t'" "frame (labels_store s) (labels s) st' t'"
    by (rule string_key.hash_set_spec [OF t, where k = "c_str str" and v = "of_nat (buffer_size (buf s))"])
  then have "s' = s\<lparr>labels_store := st', labels := t'\<rparr>" using r by (simp add: asm_label_def)
  moreover have "labels_below (buffer_size (buf s)) bs'" using lb h(3) by (auto simp: labels_below_def)
  ultimately show ?thesis using ok h(2) by (auto simp: extends_def asm_ok_def)
qed

lemma asm_lit_string_extends:
  assumes ok: "asm_ok s" and r: "asm_lit_string s toks = Inr (s', toks')"
  shows "extends s s'"
proof -
  obtain t1 r1 where y1: "yyasmlex toks = (t1, r1)" by force
  obtain t2 r2 where y2: "yyasmlex r1 = (t2, r2)" by force
  obtain b1 where b1: "EMIT_LIT_STRING (buf s) (get_text t1) = Inr b1" "buffer_ok b1"
    "contents b1 = contents (buf s) @ INT_64 (of_nat (length (c_str (get_text t1)))) @ c_str (get_text t1)"
    using EMIT_LIT_STRING_ok [OF asm_ok_buf [OF ok]] by blast
  obtain b2 where b2: "EMIT_LIT_STRING (buf s) [] = Inr b2" "buffer_ok b2"
    "contents b2 = contents (buf s) @ INT_64 (of_nat (length (c_str []))) @ c_str []"
    using EMIT_LIT_STRING_ok [OF asm_ok_buf [OF ok]] by blast
  have "s' = s\<lparr>buf := b1\<rparr> \<or> s' = s\<lparr>buf := b2\<rparr>"
    using r by (auto simp: asm_lit_string_def y1 y2 b1(1) b2(1) split: if_splits)
  then show ?thesis
    using extends_buf [OF ok b1(2,3)] extends_buf [OF ok b2(2,3)] by auto
qed

lemma asm_jump_extends:
  assumes ok: "asm_ok s" and r: "asm_jump s t toks = Inr (s', toks')"
  shows "extends s s'"
proof -
  obtain t1 r1 where y1: "yyasmlex toks = (t1, r1)" by force
  obtain b1 where b1: "EMIT (buf s) (INT_64 0) 8 = Inr b1" "buffer_ok b1"
    "contents b1 = contents (buf s) @ take 8 (INT_64 0)"
    by (rule EMIT_ok [OF asm_ok_buf [OF ok], where n = 8 and code = "INT_64 0"]) auto
  have s': "s' = s\<lparr>jump_list := \<lparr>jump_label = c_str (get_text t1), jump_addr = of_nat (buffer_size (buf s)),
      jump_lineno = lineno t\<rparr> # jump_list s, buf := b1\<rparr>"
    using r by (auto simp: asm_jump_def y1 b1(1) split: if_splits)
  have "buffer_size b1 = buffer_size (buf s) + 8"
    using size_contents [OF b1(2)] size_contents [OF asm_ok_buf [OF ok]] b1(3) by simp
  then show ?thesis using ok b1 by (auto simp: s' extends_def asm_ok_def intro!: exI [of _ "buffer_size (buf s)"]
      labels_below_mono [of "buffer_size (buf s)" _ "buffer_size (buf s) + 8"])
qed

lemma asm_token_extends:
  assumes ok: "asm_ok s" and r: "asm_token s t toks = Inr (s', toks')"
  shows "extends s s'"
proof -
  have e: "extends s (s\<lparr>buf := b\<rparr>)" if "EMIT (buf s) code n = Inr b" "n \<le> length code" for b code n
    using EMIT_ok' [OF asm_ok_buf [OF ok] that] extends_buf [OF ok] by blast
  note emit = e [unfolded extends_def, THEN conjunct1]
  show ?thesis
    using r ok asm_label_extends [OF ok] emit
    by (auto simp: asm_token_def asm_lit_fixnum_def asm_lit_char_def EMIT_LIT_FIXNUM_def EMIT_LIT_CHAR_def
        LIT_CHAR_def Let_def res_simps extends_debug extends_refl
        intro: e extends_trans [OF e asm_lit_string_extends] extends_trans [OF e asm_jump_extends]
        split: if_splits option.splits)
qed

lemma asm_loop_extends: "asm_loop s toks = Inr s' \<Longrightarrow> asm_ok s \<Longrightarrow> extends s s'"
proof (induction s toks rule: asm_loop.induct)
  case (2 s t toks)
  show ?case
  proof (cases "kind t = END_OF_FILE")
    case False
    then obtain s1 toks1 where s1: "asm_token s t toks = Inr (s1, toks1)" "asm_loop s1 toks1 = Inr s'"
      using "2.prems"(1) by (auto simp: res_simps)
    have "extends s s1" using asm_token_extends [OF "2.prems"(2) s1(1)] .
    moreover from this have "extends s1 s'" using "2.IH" [OF False s1(1) _ s1(2)] by (simp add: extends_def)
    ultimately show ?thesis by (rule extends_trans)
  qed (use "2.prems" in \<open>simp add: extends_refl\<close>)
qed (simp add: extends_refl)


section \<open>Rewriting the jumps\<close>

lemma write_bytes_ok:
  "a + length bs \<le> length code \<Longrightarrow>
     write_bytes code a bs = Inr (take a code @ bs @ drop (a + length bs) code)"
proof (induction bs arbitrary: code a)
  case (Cons b bs)
  have a: "a < length code" using Cons.prems by simp
  have "write_bytes code a (b # bs)
      = Inr (take (a + 1) (code[a := b]) @ bs @ drop (a + 1 + length bs) (code[a := b]))"
    using Cons.IH [of "a + 1" "code[a := b]"] Cons.prems by simp
  moreover have "take (a + 1) (code[a := b]) = take a code @ [b]"
    using a by (simp add: take_Suc_conv_app_nth)
  ultimately show ?case using Cons.prems by simp
qed simp

lemma write_bytes_length: "write_bytes code a bs = Inr code' \<Longrightarrow> length code' = length code"
  by (induction bs arbitrary: code a) (fastforce split: if_splits)+

lemma rewrite_jumps_length: "rewrite_jumps code js st lbls = Inr code' \<Longrightarrow> length code' = length code"
proof (induction js arbitrary: code)
  case (Cons j js)
  then show ?case
    by (fastforce simp: res_simps Let_def dest: write_bytes_length split: option.splits)
qed simp

definition label_at :: "asm_state \<Rightarrow> u8 list \<Rightarrow> vm_int option" where
  "label_at s l = map_lookup hash_string hash_string_cmp (labels_store s, labels s) l"

text \<open>The operand of a jump, and the positions of its bytes.\<close>

definition operand :: "u8 list \<Rightarrow> jump \<Rightarrow> vm_int" where
  "operand code j = int_of_bytes (take 8 (drop (unat (jump_addr j)) code))"

definition field :: "jump \<Rightarrow> nat set" where
  "field j = {unat (jump_addr j) ..< unat (jump_addr j) + 8}"

definition targets :: "asm_state \<Rightarrow> u8 list \<Rightarrow> bool" where
  "targets s code \<longleftrightarrow> (\<forall>j\<in>set (jump_list s). \<exists>p\<le>length code. label_at s (jump_label j) = Some (of_nat p)
      \<and> operand code j + (jump_addr j + 8) = of_nat p)"

lemma rewrite_jumps_ok:
  assumes "table_ok hash_string hash_string_cmp st lbls bs" "jumps_ok n js" "n \<le> length code"
    "length code < 2 ^ 64"
  shows "if \<exists>j\<in>set js. b_lookup hash_string hash_string_cmp bs (jump_label j) = None
    then rewrite_jumps code js st lbls = Inl Assert_Failed
    else \<exists>code'. rewrite_jumps code js st lbls = Inr code' \<and> length code' = length code
      \<and> (\<forall>j\<in>set js. \<exists>l. b_lookup hash_string hash_string_cmp bs (jump_label j) = Some l
           \<and> operand code' j = l - jump_addr j - 8)
      \<and> (\<forall>i<length code. (\<forall>j\<in>set js. i \<notin> field j) \<longrightarrow> code' ! i = code ! i)
      \<and> drop n code' = drop n code"
  using assms(2-)
proof (induction js arbitrary: n code)
  case (Cons j js)
  obtain a where a: "jump_addr j = of_nat a" "a + 8 \<le> n" "jumps_ok a js" using Cons.prems(1) by auto
  have ua: "unat (jump_addr j) = a" using a Cons.prems(2,3) by (simp add: unat_of_nat)
  have g: "hash_get hash_string hash_string_cmp st lbls (jump_label j)
      = Inr (b_lookup hash_string hash_string_cmp bs (jump_label j))"
    by (rule string_key.hash_get_spec [OF assms(1)])
  show ?case
  proof (cases "b_lookup hash_string hash_string_cmp bs (jump_label j)")
    case None
    then show ?thesis using g by simp
  next
    case (Some l)
    let ?bytes = "INT_64 (l - jump_addr j - 8)"
    let ?code = "take a code @ ?bytes @ drop (a + 8) code"
    have w: "write_bytes code (unat (jump_addr j)) ?bytes = Inr ?code"
      unfolding ua using write_bytes_ok [of a ?bytes code] a(2) Cons.prems(2) by (simp only: length_INT_64)
    have r: "rewrite_jumps code (j # js) st lbls = rewrite_jumps ?code js st lbls"
      using g Some w by simp
    have len: "length ?code = length code" using a Cons.prems by simp
    have "a \<le> length ?code" "length ?code < 2 ^ 64" using len a Cons.prems by simp_all
    note IH = Cons.IH [OF a(3) this]
    show ?thesis
    proof (cases "\<exists>j\<in>set js. b_lookup hash_string hash_string_cmp bs (jump_label j) = None")
      case True
      then show ?thesis using IH r by auto
    next
      case False
      then obtain code' where c: "rewrite_jumps ?code js st lbls = Inr code'" "length code' = length ?code"
        "\<forall>j\<in>set js. \<exists>l. b_lookup hash_string hash_string_cmp bs (jump_label j) = Some l
           \<and> operand code' j = l - jump_addr j - 8"
        "\<forall>i<length ?code. (\<forall>j\<in>set js. i \<notin> field j) \<longrightarrow> code' ! i = ?code ! i"
        "drop a code' = drop a ?code"
        using IH [unfolded if_not_P [OF False]] by blast
      have al: "a + 8 \<le> length code" using a Cons.prems by simp
      have d: "drop a ?code = ?bytes @ drop (a + 8) code" using al by simp
      have op: "operand code' j = l - jump_addr j - 8"
        unfolding operand_def ua c(5) d by (simp add: int_of_INT_64)
      have i: "code' ! i = code ! i" if "i < length code" "\<forall>j'\<in>set (j # js). i \<notin> field j'" for i
      proof -
        have "i < a \<or> a + 8 \<le> i" using that(2) by (auto simp: field_def ua)
        moreover have "code' ! i = ?code ! i" using that c(4) len by simp
        ultimately show ?thesis using al that(1) by (auto simp: nth_append min_def)
      qed
      have "drop n code' = drop (n - a) (drop a code')" using a by simp
      also have "\<dots> = drop n code" unfolding c(5) d using a by (simp add: drop_append) 
      finally have dn: "drop n code' = drop n code" .
      show ?thesis using False Some r c(1-3) len op i dn by auto
    qed
  qed
qed simp

lemma asm_start_ok: "\<exists>s. asm_start dbg = Inr s \<and> asm_ok s \<and> contents (buf s) = [] \<and> jump_list s = []
    \<and> (\<forall>l. label_at s l = None)"
proof -
  obtain st t bs where h: "hash_create hash_string hash_string_cmp \<lparr>arrays = (\<lambda>_. None), next_array = 1\<rparr> = Inr (st, t)"
    "table_ok hash_string hash_string_cmp st t bs" "\<forall>j. b_lookup hash_string hash_string_cmp bs j = (None :: vm_int option)"
    by (rule string_key.hash_create_spec [where st = "\<lparr>arrays = (\<lambda>_. None), next_array = 1\<rparr>"]) auto
  obtain st' :: "(u8 list, nat) hstore" and t' where
    h': "hash_create hash_string hash_string_cmp \<lparr>arrays = (\<lambda>_. None), next_array = 1\<rparr> = Inr (st', t')"
    by (rule string_key.hash_create_spec [where st = "\<lparr>arrays = (\<lambda>_. None), next_array = 1\<rparr>"]) auto
  have l: "map_lookup hash_string hash_string_cmp (st, t) l = None" for l
    using string_key.hash_get_spec [OF h(2), of l] h(3) by (simp add: map_lookup_def)
  show ?thesis
    using h h' l buffer_create_ok by (auto simp: asm_start_def asm_ok_def labels_below_def label_at_def)
qed


section \<open>Properties\<close>

lemma jumps_land:
  assumes "asm_string toks dbg = Inr (code, dbg')" "length code < 2 ^ 64"
  shows "\<exists>s s'. asm_start dbg = Inr s \<and> asm_loop s toks = Inr s' \<and> length code = length (contents (buf s'))
    \<and> targets s' code
    \<and> (\<forall>i<length code. (\<forall>j\<in>set (jump_list s'). i \<notin> field j) \<longrightarrow> code ! i = contents (buf s') ! i)"
proof -
  obtain s where s: "asm_start dbg = Inr s" "asm_ok s" using asm_start_ok by blast
  obtain s' where s': "asm_loop s toks = Inr s'"
    and rw: "rewrite_jumps (buffer_read (buf s') (buffer_size (buf s'))) (jump_list s') (labels_store s') (labels s')
      = Inr code"
    using assms(1) by (auto simp: asm_string_def s(1) Let_def res_simps)
  have ok: "asm_ok s'" using asm_loop_extends [OF s' s(2)] by (simp add: extends_def)
  then obtain bs where t: "table_ok hash_string hash_string_cmp (labels_store s') (labels s') bs"
    and lb: "labels_below (buffer_size (buf s')) bs" and js: "jumps_ok (buffer_size (buf s')) (jump_list s')"
    by (auto simp: asm_ok_def)
  have rd: "buffer_read (buf s') (buffer_size (buf s')) = contents (buf s')"
    and sz: "buffer_size (buf s') = length (contents (buf s'))"
    using buffer_read_take [OF asm_ok_buf [OF ok], of "buffer_size (buf s')"] asm_ok_buf [OF ok]
    by (simp_all add: buffer_size_def size_contents length_contents)
  have la: "label_at s' l = b_lookup hash_string hash_string_cmp bs l" for l
    using string_key.hash_get_spec [OF t, of l] by (simp add: label_at_def map_lookup_def)
  have len: "length code = length (contents (buf s'))" using rewrite_jumps_length [OF rw] rd by simp
  obtain code' where rw': "rewrite_jumps (contents (buf s')) (jump_list s') (labels_store s') (labels s') = Inr code'"
    "\<forall>j\<in>set (jump_list s'). \<exists>l. b_lookup hash_string hash_string_cmp bs (jump_label j) = Some l
       \<and> operand code' j = l - jump_addr j - 8"
    "\<forall>i<length (contents (buf s')). (\<forall>j\<in>set (jump_list s'). i \<notin> field j) \<longrightarrow> code' ! i = contents (buf s') ! i"
    using rewrite_jumps_ok [OF t js, of "contents (buf s')"] rw rd sz len assms(2)
    by (auto split: if_splits)
  have c: "code' = code" using rw rw'(1) rd by simp
  have "targets s' code" unfolding targets_def
  proof
    fix j assume j: "j \<in> set (jump_list s')"
    then obtain l where l: "b_lookup hash_string hash_string_cmp bs (jump_label j) = Some l"
      "operand code j = l - jump_addr j - 8" using rw'(2) c by blast
    obtain p where "p \<le> length code" "l = of_nat p" using lb l(1) sz len by (auto simp: labels_below_def)
    then show "\<exists>p\<le>length code. label_at s' (jump_label j) = Some (of_nat p)
        \<and> operand code j + (jump_addr j + 8) = of_nat p" using l by (auto simp: la)
  qed
  then show ?thesis using s(1) s' len rw'(3) c by auto
qed

text \<open>The operands lie inside the code.\<close>

lemma jump_fields:
  assumes "asm_ok s" "length (contents (buf s)) < 2 ^ 64"
  shows "j \<in> set (jump_list s) \<Longrightarrow> unat (jump_addr j) + 8 \<le> length (contents (buf s))"
proof -
  have "\<forall>j\<in>set js. \<exists>a. jump_addr j = of_nat a \<and> a + 8 \<le> n" if "jumps_ok n js" for n js
    using that
  proof (induction js arbitrary: n)
    case (Cons j js)
    then obtain a where a: "jump_addr j = of_nat a" "a + 8 \<le> n" "jumps_ok a js" by auto
    then have "jumps_ok n js" using jumps_ok_mono [of a js n] by simp
    then show ?case using Cons.IH a by auto
  qed simp
  moreover have "jumps_ok (length (contents (buf s))) (jump_list s)"
    using assms(1) by (auto simp: asm_ok_def size_contents)
  ultimately have "\<forall>j\<in>set (jump_list s). \<exists>a. jump_addr j = of_nat a \<and> a + 8 \<le> length (contents (buf s))" by blast
  then show "unat (jump_addr j) + 8 \<le> length (contents (buf s))" if "j \<in> set (jump_list s)"
    using that assms(2) by (fastforce simp: unat_of_nat)
qed

text \<open>C13: in assembled code every jump operand, added to the address after it, is the address of the
  jump's label, which lies inside the code or at its end; all other bytes are as they were emitted.\<close>

theorem asm_jumps_land:
  assumes "asm_string toks dbg = Inr (code, dbg')" "length code < 2 ^ 64"
  shows "\<exists>s s'. asm_start dbg = Inr s \<and> asm_loop s toks = Inr s' \<and> length code = length (contents (buf s'))
    \<and> targets s' code
    \<and> (\<forall>i<length code. (\<forall>j\<in>set (jump_list s'). i \<notin> field j) \<longrightarrow> code ! i = contents (buf s') ! i)"
  by (rule jumps_land [OF assms])


lemma asm_string_result:
  assumes "asm_start dbg = Inr s" "asm_loop s toks = Inr s'" "length (contents (buf s')) < 2 ^ 64"
  shows "if \<exists>j\<in>set (jump_list s'). label_at s' (jump_label j) = None
    then asm_string toks dbg = Inl Assert_Failed
    else \<exists>code. asm_string toks dbg = Inr (code, debug_out s') \<and> length code = length (contents (buf s'))"
proof -
  have "asm_ok s" using asm_start_ok [of dbg] assms(1) by auto
  then have ok: "asm_ok s'" using asm_loop_extends [OF assms(2)] by (simp add: extends_def)
  then obtain bs where t: "table_ok hash_string hash_string_cmp (labels_store s') (labels s') bs"
    and js: "jumps_ok (buffer_size (buf s')) (jump_list s')" by (auto simp: asm_ok_def)
  have rd: "buffer_read (buf s') (buffer_size (buf s')) = contents (buf s')"
    and sz: "buffer_size (buf s') = length (contents (buf s'))"
    using buffer_read_take [OF asm_ok_buf [OF ok], of "buffer_size (buf s')"] asm_ok_buf [OF ok]
    by (simp_all add: buffer_size_def size_contents length_contents)
  have la: "label_at s' l = b_lookup hash_string hash_string_cmp bs l" for l
    using string_key.hash_get_spec [OF t, of l] by (simp add: label_at_def map_lookup_def)
  have r: "asm_string toks dbg = rbind (rewrite_jumps (contents (buf s')) (jump_list s') (labels_store s') (labels s'))
      (\<lambda>code. Inr (code, debug_out s'))"
    by (simp add: asm_string_def assms(1,2) rd)
  show ?thesis
    using rewrite_jumps_ok [OF t js, of "contents (buf s')"] assms(3) sz r by (fastforce simp: la split: if_splits)
qed

lemma asm_label_step:
  assumes "asm_ok s" "kind t = LABEL_TOKEN"
  shows "\<exists>s'. asm_token s t toks = Inr (s', toks) \<and> asm_ok s' \<and> buf s' = buf s \<and> jump_list s' = jump_list s
    \<and> (\<forall>l. label_at s' l = (if c_str l = c_str (get_text t) then Some (of_nat (length (contents (buf s))))
         else label_at s l))"
proof -
  obtain bs where t: "table_ok hash_string hash_string_cmp (labels_store s) (labels s) bs"
    using assms(1) by (auto simp: asm_ok_def)
  obtain st' t' bs' where h: "hash_set hash_string hash_string_cmp (labels_store s) (labels s) (c_str (get_text t))
      (of_nat (buffer_size (buf s))) = Inr (st', t')" "table_ok hash_string hash_string_cmp st' t' bs'"
    "\<forall>j. b_lookup hash_string hash_string_cmp bs' j = (if hash_string_cmp (c_str (get_text t)) j = EQ
        then Some (of_nat (buffer_size (buf s))) else b_lookup hash_string hash_string_cmp bs j)"
    "\<not> copy_on_write t'" "\<not> over_max_load t'" "frame (labels_store s) (labels s) st' t'"
    by (rule string_key.hash_set_spec [OF t, where k = "c_str (get_text t)" and v = "of_nat (buffer_size (buf s))"])
  let ?s = "s\<lparr>labels_store := st', labels := t'\<rparr>"
  have r: "asm_label s (get_text t) = Inr ?s" using h(1) by (simp add: asm_label_def)
  have "label_at s l = b_lookup hash_string hash_string_cmp bs l"
    "label_at ?s l = b_lookup hash_string hash_string_cmp bs' l" for l
    using string_key.hash_get_spec [OF t, of l] string_key.hash_get_spec [OF h(2), of l]
    by (simp_all add: label_at_def map_lookup_def)
  moreover have "asm_token s t toks = Inr (?s, toks)"
    using r assms(2) by (simp add: asm_token_def token_codes jump_ops_def op_codes)
  ultimately show ?thesis
    using asm_label_extends [OF assms(1) r] h(3) size_contents [OF asm_ok_buf [OF assms(1)]]
    by (auto simp: extends_def hash_string_cmp_EQ)
qed

text \<open>a label stands for the number of bytes emitted before it; the other labels keep their
  addresses, and the code is unchanged.\<close>

theorem asm_label_spec:
  assumes "asm_ok s" "kind t = LABEL_TOKEN"
  shows "\<exists>s'. asm_token s t toks = Inr (s', toks) \<and> asm_ok s' \<and> buf s' = buf s \<and> jump_list s' = jump_list s
    \<and> (\<forall>l. label_at s' l = (if c_str l = c_str (get_text t) then Some (of_nat (length (contents (buf s))))
         else label_at s l))"
  by (rule asm_label_step [OF assms])

section \<open>Which inputs assemble\<close>

text \<open>
  What a list of tokens must look like, without the state of the assembler: the tokens after a literal, a
  number and the operands of \<open>.file\<close>, or the fault they lead to; the labels a token places and jumps to.
\<close>

definition string_tail :: "token list \<Rightarrow> token list res" where
  "string_tail toks =
     (let (t, ts) = yyasmlex toks; (t, ts) = (if kind t = unat OP_LIT_STRING then yyasmlex ts else (t, ts))
      in if kind t = STRING_END_TOKEN then Inr ts else Inl Assert_Failed)"

definition number_tail :: "token list \<Rightarrow> token list res" where
  "number_tail toks = (let (t, ts) = yyasmlex toks in if kind t = unat OP_LIT_FIXNUM then Inr ts else Inl Assert_Failed)"

definition file_tail :: "token list \<Rightarrow> token list res" where
  "file_tail toks =
     (let (t, ts) = yyasmlex toks in
      if kind t \<noteq> STRING_START_TOKEN then Inl Assert_Failed
      else rbind (string_tail ts) (\<lambda>us.
        if kind (fst (yyasmlex ts)) = unat OP_LIT_STRING then rbind (number_tail us) number_tail else Inl Bad_Pointer))"

definition token_refs :: "bool \<Rightarrow> token \<Rightarrow> token list \<Rightarrow> (u8 list list \<times> u8 list list \<times> token list) res" where
  "token_refs dbg t toks =
     (if kind t = STRING_START_TOKEN \<or> kind t = SYMBOL_START_TOKEN then rbind (string_tail toks) (\<lambda>ts. Inr ([], [], ts))
      else if kind t \<in> unat ` set jump_ops then
        (let (u, us) = yyasmlex toks in
         if kind u = LABEL_TOKEN then Inr ([], [c_str (get_text u)], us) else Inl Assert_Failed)
      else if kind t = LABEL_TOKEN then Inr ([c_str (get_text t)], [], toks)
      else if kind t = DIRECTIVE_FILE \<and> dbg then rbind (file_tail toks) (\<lambda>ts. Inr ([], [], ts))
      else Inr ([], [], toks))"

lemma tail_length:
  "string_tail toks = Inr ts \<Longrightarrow> length ts \<le> length toks" "number_tail toks = Inr ts \<Longrightarrow> length ts \<le> length toks"
  by (auto simp: string_tail_def number_tail_def Let_def split: prod.splits if_splits dest!: yyasmlex_length)

lemma file_tail_length: "file_tail toks = Inr ts \<Longrightarrow> length ts \<le> length toks"
  by (auto simp: file_tail_def Let_def res_simps split: prod.splits if_splits dest!: yyasmlex_length tail_length)

lemma token_refs_length: "token_refs dbg t toks = Inr (p, j, ts) \<Longrightarrow> length ts \<le> length toks"
  by (auto simp: token_refs_def Let_def res_simps split: prod.splits if_splits dest!: yyasmlex_length tail_length file_tail_length)

text \<open>The labels that an input places and those it jumps to, or the fault at which the assembler stops.\<close>

function references :: "bool \<Rightarrow> token list \<Rightarrow> (u8 list list \<times> u8 list list) res" where
  "references dbg [] = Inr ([], [])"
| "references dbg (t # toks) =
     (if kind t = END_OF_FILE then Inr ([], [])
      else rbind (token_refs dbg t toks) (\<lambda>(p, j, ts).
        rbind (references dbg ts) (\<lambda>(ps, js). Inr (p @ ps, j @ js))))"
  by pat_completeness auto
termination
  by (relation "measure (\<lambda>(dbg, toks). length toks)") (auto dest!: token_refs_length)

definition tokens_size :: "token list \<Rightarrow> nat" where
  "tokens_size toks = (\<Sum>t\<leftarrow>toks. 9 + length (get_text t))"

lemma tokens_size_simps [simp]: "tokens_size [] = 0" "tokens_size (t # ts) = 9 + length (get_text t) + tokens_size ts"
  by (simp_all add: tokens_size_def)

lemma yyasmlex_size: "tokens_size (snd (yyasmlex toks)) + length (get_text (fst (yyasmlex toks))) \<le> tokens_size toks"
  by (cases toks) simp_all

text \<open>The state of the assembler with tables in order, and a token's step on it.\<close>

definition files_ok :: "bool \<Rightarrow> asm_state \<Rightarrow> bool" where
  "files_ok dbg s \<longleftrightarrow> (case debug_out s of None \<Rightarrow> \<not> dbg
     | Some d \<Rightarrow> dbg \<and> (\<exists>bs. table_ok hash_string hash_string_cmp (files_store d) (files d) bs))"

definition token_step :: "asm_state \<Rightarrow> token list \<Rightarrow> u8 list list \<Rightarrow> u8 list list \<Rightarrow> asm_state \<Rightarrow> token list \<Rightarrow> bool \<Rightarrow> bool" where
  "token_step s toks p j s' ts dbg \<longleftrightarrow> asm_ok s' \<and> files_ok dbg s'
     \<and> (\<forall>l. label_at s' l = None \<longleftrightarrow> label_at s l = None \<and> c_str l \<notin> set p)
     \<and> set (map jump_label (jump_list s')) = set j \<union> set (map jump_label (jump_list s))
     \<and> length (contents (buf s')) + tokens_size ts \<le> length (contents (buf s)) + tokens_size toks"

lemma EMIT_code:
  assumes "buffer_ok b" "n = length code"
  shows "\<exists>b'. EMIT b code n = Inr b' \<and> buffer_ok b' \<and> contents b' = contents b @ code"
  using EMIT_ok [OF assms(1), of n code] assms(2) by auto

lemma step_emit:
  assumes "asm_ok s" "files_ok dbg s" "buffer_ok b" "contents b = contents (buf s) @ code"
    "length code + tokens_size ts \<le> tokens_size toks"
  shows "token_step s toks [] [] (s\<lparr>buf := b\<rparr>) ts dbg"
  using extends_buf [OF assms(1,3,4)] assms(2-)
  by (simp add: token_step_def extends_def files_ok_def label_at_def)

lemma asm_lit_string_step:
  assumes "asm_ok s" "files_ok dbg s"
  shows "case string_tail toks of Inl e \<Rightarrow> asm_lit_string s toks = Inl e
    | Inr ts \<Rightarrow> \<exists>b code. asm_lit_string s toks = Inr (s\<lparr>buf := b\<rparr>, ts) \<and> buffer_ok b \<and> contents b = contents (buf s) @ code
        \<and> length code + tokens_size ts \<le> 8 + tokens_size toks"
proof -
  obtain t1 r1 where y1: "yyasmlex toks = (t1, r1)" by force
  obtain t2 r2 where y2: "yyasmlex r1 = (t2, r2)" by force
  have s1: "tokens_size r1 + length (get_text t1) \<le> tokens_size toks" "tokens_size r2 \<le> tokens_size r1"
    using yyasmlex_size [of toks] yyasmlex_size [of r1] by (simp_all add: y1 y2)
  obtain b1 where b1: "EMIT_LIT_STRING (buf s) (get_text t1) = Inr b1" "buffer_ok b1"
    "contents b1 = contents (buf s) @ INT_64 (of_nat (length (c_str (get_text t1)))) @ c_str (get_text t1)"
    using EMIT_LIT_STRING_ok [OF asm_ok_buf [OF assms(1)]] by blast
  obtain b2 where b2: "EMIT_LIT_STRING (buf s) [] = Inr b2" "buffer_ok b2"
    "contents b2 = contents (buf s) @ INT_64 (of_nat (length (c_str []))) @ c_str []"
    using EMIT_LIT_STRING_ok [OF asm_ok_buf [OF assms(1)]] by blast
  have c: "length (c_str (get_text t1)) \<le> length (get_text t1)" by (simp add: c_str_def length_takeWhile_le)
  show ?thesis
  proof (cases "kind t1 = unat OP_LIT_STRING")
    case True
    then show ?thesis using b1 s1 c by (auto simp: string_tail_def asm_lit_string_def y1 y2 intro!: exI [of _ b1])
  next
    case False
    then show ?thesis using b2 s1 by (auto simp: string_tail_def asm_lit_string_def y1 y2 c_str_def intro!: exI [of _ b2])
  qed
qed

lemma get_debug_num_tail:
  "case number_tail toks of Inl e \<Rightarrow> get_debug_num toks = Inl e
   | Inr ts \<Rightarrow> (\<exists>n. get_debug_num toks = Inr (n, ts)) \<and> tokens_size ts \<le> tokens_size toks"
  using yyasmlex_size [of toks] by (auto simp: number_tail_def get_debug_num_def Let_def split: prod.splits)

lemma string_tail_size: "string_tail toks = Inr ts \<Longrightarrow> tokens_size ts \<le> tokens_size toks"
proof -
  obtain t1 r1 where y1: "yyasmlex toks = (t1, r1)" by force
  obtain t2 r2 where y2: "yyasmlex r1 = (t2, r2)" by force
  assume "string_tail toks = Inr ts"
  then show ?thesis using yyasmlex_size [of toks] yyasmlex_size [of r1]
    by (auto simp: string_tail_def y1 y2 split: if_splits)
qed

lemma push_debug_fields [simp]: "files_store (push_debug d f l c a) = files_store d" "files (push_debug d f l c a) = files d"
  by (simp_all add: push_debug_def)

lemma add_debug_file_step:
  assumes t: "table_ok hash_string hash_string_cmp (files_store d) (files d) bs"
  shows "case file_tail toks of Inl e \<Rightarrow> add_debug_file toks d a = Inl e
    | Inr ts \<Rightarrow> tokens_size ts \<le> tokens_size toks \<and> (\<exists>d' bs'. add_debug_file toks d a = Inr (d', ts)
        \<and> table_ok hash_string hash_string_cmp (files_store d') (files d') bs')"
proof -
  obtain t0 r0 where y0: "yyasmlex toks = (t0, r0)" by force
  obtain t1 r1 where y1: "yyasmlex r0 = (t1, r1)" by force
  obtain t2 r2 where y2: "yyasmlex r1 = (t2, r2)" by force
  show ?thesis
  proof (cases "kind t0 = STRING_START_TOKEN \<and> kind t1 = unat OP_LIT_STRING \<and> kind t2 = STRING_END_TOKEN")
    case False
    then show ?thesis by (auto simp: file_tail_def add_debug_file_def string_tail_def y0 y1 y2)
  next
    case True
    let ?name = "get_text t1 @ get_text t2"
    let ?v = "strncpy_bytes ?name (length (c_str ?name) - 1)"
    obtain st' t' bs' where h: "hash_set hash_string hash_string_cmp (files_store d) (files d) ?v 1 = Inr (st', t')"
      "table_ok hash_string hash_string_cmp st' t' bs'"
      by (rule string_key.hash_set_spec [OF t, where k = ?v and v = 1]) blast
    have g: "hash_get hash_string hash_string_cmp (files_store d) (files d) ?name = Inr (b_lookup hash_string hash_string_cmp bs ?name)"
      by (rule string_key.hash_get_spec [OF t])
    obtain d1 fname bs1 where d1: "table_ok hash_string hash_string_cmp (files_store d1) (files d1) bs1"
      "add_debug_file toks d a = rbind (get_debug_num r2) (\<lambda>(line, toks). rbind (get_debug_num toks) (\<lambda>(column, toks).
         Inr (push_debug d1 fname line column a, toks)))"
    proof (cases "b_lookup hash_string hash_string_cmp bs ?name")
      case None
      show ?thesis
        by (rule that [of "d\<lparr>files_store := st', files := t'\<rparr>" bs' ?v])
          (use True h g None in \<open>simp_all add: add_debug_file_def y0 y1 y2 Let_def\<close>)
    next
      case (Some p)
      show ?thesis
        by (rule that [OF t, of "c_str ?name"]) (use True g Some in \<open>simp add: add_debug_file_def y0 y1 y2 Let_def\<close>)
    qed
    have f: "file_tail toks = rbind (number_tail r2) number_tail"
      using True by (simp add: file_tail_def string_tail_def y0 y1 y2)
    have sz: "tokens_size r2 \<le> tokens_size toks" using yyasmlex_size [of toks] yyasmlex_size [of r0] yyasmlex_size [of r1] by (simp add: y0 y1 y2)
    show ?thesis
    proof (cases "number_tail r2")
      case (Inl e)
      then show ?thesis using get_debug_num_tail [of r2] by (simp add: f d1(2))
    next
      case (Inr r3)
      then obtain n where n: "get_debug_num r2 = Inr (n, r3)" "tokens_size r3 \<le> tokens_size r2" using get_debug_num_tail [of r2] by auto
      show ?thesis
      proof (cases "number_tail r3")
        case r3: (Inr r4)
        then obtain m where m: "get_debug_num r3 = Inr (m, r4)" "tokens_size r4 \<le> tokens_size r3" using get_debug_num_tail [of r3] by auto
        have "table_ok hash_string hash_string_cmp (files_store (push_debug d1 fname n m a)) (files (push_debug d1 fname n m a)) bs1"
          using d1(1) by simp
        moreover have "add_debug_file toks d a = Inr (push_debug d1 fname n m a, r4)" using d1(2) n(1) m(1) by simp
        ultimately show ?thesis using n m sz by (auto simp: f Inr r3)
      qed (use get_debug_num_tail [of r3] d1 n in \<open>simp add: f Inr\<close>)
    qed
  qed
qed

lemma codes_apart:
  "unat OP_LIT_FIXNUM \<notin> unat ` set jump_ops" "unat OP_LIT_CHAR \<notin> unat ` set jump_ops" "STRING_START_TOKEN \<notin> unat ` set jump_ops"
  "SYMBOL_START_TOKEN \<notin> unat ` set jump_ops" "LABEL_TOKEN \<notin> unat ` set jump_ops" "DIRECTIVE_FILE \<notin> unat ` set jump_ops"
  by (simp_all add: jump_ops_def op_codes token_codes)

lemma kinds_apart:
  "unat OP_LIT_FIXNUM \<noteq> STRING_START_TOKEN" "unat OP_LIT_FIXNUM \<noteq> SYMBOL_START_TOKEN" "unat OP_LIT_FIXNUM \<noteq> LABEL_TOKEN"
  "unat OP_LIT_FIXNUM \<noteq> DIRECTIVE_FILE" "unat OP_LIT_CHAR \<noteq> STRING_START_TOKEN" "unat OP_LIT_CHAR \<noteq> SYMBOL_START_TOKEN"
  "unat OP_LIT_CHAR \<noteq> LABEL_TOKEN" "unat OP_LIT_CHAR \<noteq> DIRECTIVE_FILE" "unat OP_LIT_CHAR \<noteq> unat OP_LIT_FIXNUM"
  "STRING_START_TOKEN \<noteq> LABEL_TOKEN" "SYMBOL_START_TOKEN \<noteq> LABEL_TOKEN" "STRING_START_TOKEN \<noteq> SYMBOL_START_TOKEN"
  "STRING_START_TOKEN \<noteq> DIRECTIVE_FILE" "SYMBOL_START_TOKEN \<noteq> DIRECTIVE_FILE" "LABEL_TOKEN \<noteq> DIRECTIVE_FILE"
  by (simp_all add: op_codes token_codes)

lemma asm_token_step:
  assumes s: "asm_ok s" "files_ok dbg s"
  shows "case token_refs dbg t toks of Inl e \<Rightarrow> asm_token s t toks = Inl e
    | Inr (p, j, ts) \<Rightarrow> \<exists>s'. asm_token s t toks = Inr (s', ts) \<and> token_step s (t # toks) p j s' ts dbg"
proof -
  note b = asm_ok_buf [OF s(1)]
  note apart = kinds_apart kinds_apart [symmetric] codes_apart
  have lit: ?thesis if "EMIT (buf s) code n = Inr b'" "n = length code" "length code \<le> 9"
    "asm_token s t toks = rbind (EMIT (buf s) code n) (\<lambda>b. Inr (s\<lparr>buf := b\<rparr>, toks))" "token_refs dbg t toks = Inr ([], [], toks)" for code n b'
    using EMIT_ok' [OF b that(1)] step_emit [OF s, of b' code toks "t # toks"] that by auto
  have emit: "\<exists>b'. EMIT (buf s) code n = Inr b'" if "n = length code" for code n using EMIT_code [OF b that] by blast
  consider (num) "kind t = unat OP_LIT_FIXNUM" | (chr) "kind t = unat OP_LIT_CHAR"
    | (str) c where "kind t = STRING_START_TOKEN \<and> c = OP_LIT_STRING \<or> kind t = SYMBOL_START_TOKEN \<and> c = OP_LIT_SYMBOL"
    | (jmp) "kind t \<in> unat ` set jump_ops" | (lab) "kind t = LABEL_TOKEN" | (dir) "kind t = DIRECTIVE_FILE"
    | (op) "kind t \<noteq> unat OP_LIT_FIXNUM" "kind t \<noteq> unat OP_LIT_CHAR" "kind t \<noteq> STRING_START_TOKEN" "kind t \<noteq> SYMBOL_START_TOKEN"
        "kind t \<notin> unat ` set jump_ops" "kind t \<noteq> LABEL_TOKEN" "kind t \<noteq> DIRECTIVE_FILE" by blast
  then show ?thesis
  proof cases
    case num
    obtain b' where "EMIT (buf s) (OP_LIT_FIXNUM # INT_64 (strtoq (get_text t))) 9 = Inr b'" using emit by fastforce
    then show ?thesis
      by (rule lit) (use num apart in \<open>simp_all add: asm_token_def asm_lit_fixnum_def EMIT_LIT_FIXNUM_def token_refs_def rbind_assoc\<close>)
  next
    case chr
    obtain c where c: "asm_lit_char s t = rbind (EMIT (buf s) (LIT_CHAR c) 5) (\<lambda>b. Inr (s\<lparr>buf := b\<rparr>))"
      by (auto simp: asm_lit_char_def EMIT_LIT_CHAR_def Let_def)
    have l: "5 = length (LIT_CHAR c)" by (simp add: LIT_CHAR_def)
    then obtain b' where "EMIT (buf s) (LIT_CHAR c) 5 = Inr b'" using emit by blast
    then show ?thesis
      by (rule lit) (use l chr apart c in \<open>simp_all add: asm_token_def token_refs_def rbind_assoc\<close>)
  next
    case str
    obtain b1 where b1: "EMIT (buf s) [c] 1 = Inr b1" "buffer_ok b1" "contents b1 = contents (buf s) @ [c]"
      using EMIT_code [OF b, of 1 "[c]"] by auto
    let ?s = "s\<lparr>buf := b1\<rparr>"
    have s1: "asm_ok ?s" "files_ok dbg ?s" using extends_buf [OF s(1) b1(2,3)] s(2) by (auto simp: extends_def files_ok_def)
    have r: "asm_token s t toks = asm_lit_string ?s toks" using str b1(1) apart by (auto simp: asm_token_def)
    have f: "token_refs dbg t toks = rbind (string_tail toks) (\<lambda>ts. Inr ([], [], ts))" using str by (auto simp: token_refs_def)
    show ?thesis
    proof (cases "string_tail toks")
      case (Inr ts)
      then obtain b2 code where c2: "asm_lit_string ?s toks = Inr (?s\<lparr>buf := b2\<rparr>, ts)" "buffer_ok b2"
        "contents b2 = contents b1 @ code" "length code + tokens_size ts \<le> 8 + tokens_size toks"
        using asm_lit_string_step [OF s1, of toks] by auto
      have "token_step s (t # toks) [] [] (s\<lparr>buf := b2\<rparr>) ts dbg"
        by (rule step_emit [OF s c2(2), of "c # code"]) (use c2(3,4) b1(3) in simp_all)
      then show ?thesis using c2(1) by (simp add: r f Inr)
    qed (use asm_lit_string_step [OF s1, of toks] in \<open>simp add: r f\<close>)
  next
    case jmp
    have n: "kind t \<noteq> unat OP_LIT_FIXNUM" "kind t \<noteq> unat OP_LIT_CHAR" "kind t \<noteq> STRING_START_TOKEN" "kind t \<noteq> SYMBOL_START_TOKEN"
      using jmp apart by auto
    obtain u us where u: "yyasmlex toks = (u, us)" by force
    obtain b1 where b1: "EMIT (buf s) [of_nat (kind t)] 1 = Inr b1" "buffer_ok b1" "contents b1 = contents (buf s) @ [of_nat (kind t)]"
      using EMIT_code [OF b, of 1 "[of_nat (kind t)]"] by auto
    let ?s = "s\<lparr>buf := b1\<rparr>"
    have s1: "asm_ok ?s" using extends_buf [OF s(1) b1(2,3)] by (simp add: extends_def)
    have r: "asm_token s t toks = asm_jump ?s t toks" using jmp n b1(1) by (simp add: asm_token_def)
    have f: "token_refs dbg t toks = (if kind u = LABEL_TOKEN then Inr ([], [c_str (get_text u)], us) else Inl Assert_Failed)"
      using jmp n u by (simp add: token_refs_def)
    show ?thesis
    proof (cases "kind u = LABEL_TOKEN")
      case True
      obtain b2 where b2: "EMIT b1 (INT_64 0) 8 = Inr b2" "buffer_ok b2" "contents b2 = contents b1 @ INT_64 0"
        using EMIT_code [OF b1(2), of 8 "INT_64 0"] by auto
      obtain s' where s': "asm_jump ?s t toks = Inr (s', us)" "debug_out s' = debug_out s" "labels_store s' = labels_store s"
        "labels s' = labels s" "buf s' = b2" "map jump_label (jump_list s') = c_str (get_text u) # map jump_label (jump_list s)"
        using True b2(1) by (simp add: asm_jump_def u)
      have "asm_ok s'" using asm_jump_extends [OF s1 s'(1)] by (simp add: extends_def)
      moreover have "tokens_size us \<le> tokens_size toks" using yyasmlex_size [of toks] by (simp add: u)
      moreover have "set (map jump_label (jump_list s')) = {c_str (get_text u)} \<union> set (map jump_label (jump_list s))" unfolding s'(6) by simp
      ultimately have "token_step s (t # toks) [] [c_str (get_text u)] s' us dbg"
        using s' s(2) b1(3) b2(3) by (simp add: token_step_def files_ok_def label_at_def)
      then show ?thesis using True s'(1) by (simp add: r f)
    qed (simp add: r f asm_jump_def u)
  next
    case lab
    obtain s' where s': "asm_token s t toks = Inr (s', toks)" "asm_ok s'" "buf s' = buf s" "jump_list s' = jump_list s"
      "\<forall>l. label_at s' l = (if c_str l = c_str (get_text t) then Some (of_nat (length (contents (buf s)))) else label_at s l)"
      using asm_label_step [OF s(1) lab, of toks] by blast
    have "debug_out s' = debug_out s" using s'(1) lab apart by (auto simp: asm_token_def asm_label_def res_simps)
    then have "token_step s (t # toks) [c_str (get_text t)] [] s' toks dbg" using s' s(2) by (auto simp: token_step_def files_ok_def)
    then show ?thesis using s'(1) lab apart by (simp add: token_refs_def)
  next
    case dir
    show ?thesis
    proof (cases "debug_out s")
      case None
      then show ?thesis using dir apart s by (auto simp: token_refs_def asm_token_def files_ok_def token_step_def)
    next
      case (Some d)
      obtain bs where d: "dbg" "table_ok hash_string hash_string_cmp (files_store d) (files d) bs" using s(2) Some by (auto simp: files_ok_def)
      have r: "asm_token s t toks = rbind (add_debug_file toks d (of_nat (buffer_size (buf s)))) (\<lambda>(d, toks). Inr (s\<lparr>debug_out := Some d\<rparr>, toks))"
        using dir apart Some by (simp add: asm_token_def)
      have f: "token_refs dbg t toks = rbind (file_tail toks) (\<lambda>ts. Inr ([], [], ts))" using dir d(1) apart by (simp add: token_refs_def)
      note st = add_debug_file_step [OF d(2), of toks "of_nat (buffer_size (buf s))"]
      show ?thesis
      proof (cases "file_tail toks")
        case (Inr ts)
        then obtain d' bs' where d': "add_debug_file toks d (of_nat (buffer_size (buf s))) = Inr (d', ts)" "tokens_size ts \<le> tokens_size toks"
          "table_ok hash_string hash_string_cmp (files_store d') (files d') bs'" using st by auto
        have "token_step s (t # toks) [] [] (s\<lparr>debug_out := Some d'\<rparr>) ts dbg"
          using extends_debug [OF s(1), of "Some d'"] d' d(1) by (auto simp: token_step_def files_ok_def extends_def label_at_def)
        then show ?thesis using d'(1) by (simp add: r f Inr)
      qed (use st in \<open>simp add: r f\<close>)
    qed
  next
    case op
    have f: "token_refs dbg t toks = Inr ([], [], toks)" using op by (simp add: token_refs_def)
    obtain b' where "EMIT (buf s) [of_nat (kind t)] 1 = Inr b'" using emit by fastforce
    note l = lit [OF this]
    show ?thesis
    proof (cases "kind t < OP_MAX_INS")
      case True
      then show ?thesis by (intro l) (use op f in \<open>simp_all add: asm_token_def\<close>)
    next
      case False
      then have "asm_token s t toks = Inr (s, toks)" using op by (simp add: asm_token_def)
      then show ?thesis using f s by (simp add: token_step_def)
    qed
  qed
qed

lemma asm_loop_refs:
  assumes "asm_ok s" "files_ok dbg s"
  shows "case references dbg toks of Inl e \<Rightarrow> asm_loop s toks = Inl e
    | Inr (p, j) \<Rightarrow> \<exists>s'. asm_loop s toks = Inr s' \<and> token_step s toks p j s' [] dbg"
  using assms
proof (induction dbg toks arbitrary: s rule: references.induct)
  case (1 dbg)
  then show ?case by (simp add: token_step_def)
next
  case (2 dbg t toks)
  show ?case
  proof (cases "kind t = END_OF_FILE")
    case True
    then show ?thesis using "2.prems" by (simp add: token_step_def)
  next
    case n: False
    show ?thesis
    proof (cases "token_refs dbg t toks")
      case (Inl e)
      then show ?thesis using asm_token_step [OF "2.prems", of t toks] n by simp
    next
      case (Inr r)
      obtain p j ts where r: "r = (p, j, ts)" by (cases r)
      obtain s1 where s1: "asm_token s t toks = Inr (s1, ts)" "token_step s (t # toks) p j s1 ts dbg"
        using asm_token_step [OF "2.prems", of t toks] by (auto simp: Inr r)
      then have ok: "asm_ok s1" "files_ok dbg s1" by (simp_all add: token_step_def)
      have e: "asm_loop s (t # toks) = asm_loop s1 ts" using n s1(1) by simp
      note ih = "2.IH" [OF n Inr [unfolded r] refl refl ok]
      show ?thesis
      proof (cases "references dbg ts")
        case (Inl e)
        then show ?thesis unfolding e using ih n r \<open>token_refs dbg t toks = Inr r\<close> by simp
      next
        case r2: (Inr q)
        obtain ps js where q: "q = (ps, js)" by (cases q)
        obtain s' where s': "asm_loop s1 ts = Inr s'" "token_step s1 ts ps js s' [] dbg" using ih by (auto simp: r2 q)
        have "token_step s (t # toks) (p @ ps) (j @ js) s' [] dbg" using s1(2) s'(2) by (auto simp: token_step_def)
        then show ?thesis unfolding e using n Inr r r2 q s'(1) by simp
      qed
    qed
  qed
qed

lemma references_c_str: "references dbg toks = Inr (p, j) \<Longrightarrow> x \<in> set j \<Longrightarrow> c_str x = x"
proof (induction dbg toks arbitrary: p j rule: references.induct)
  case (2 dbg t toks)
  show ?case
  proof (cases "kind t = END_OF_FILE")
    case False
    then obtain p1 j1 ts ps js where r: "token_refs dbg t toks = Inr (p1, j1, ts)" "references dbg ts = Inr (ps, js)" "j = j1 @ js"
      using "2.prems"(1) by (auto simp: res_simps)
    have "x \<in> set j1 \<Longrightarrow> c_str x = x" using r(1) by (auto simp: token_refs_def Let_def res_simps split: if_splits prod.splits)
    then show ?thesis using "2.IH" [OF False r(1) refl refl r(2)] "2.prems"(2) r(3) by auto
  qed (use "2.prems" in simp)
qed simp

lemma asm_start_files: "asm_start dbg = Inr s \<Longrightarrow> files_ok dbg s"
proof -
  obtain st' :: "(u8 list, nat) hstore" and t' bs where
    h: "hash_create hash_string hash_string_cmp \<lparr>arrays = (\<lambda>_. None), next_array = 1\<rparr> = Inr (st', t')" "table_ok hash_string hash_string_cmp st' t' bs"
    by (rule string_key.hash_create_spec [where st = "\<lparr>arrays = (\<lambda>_. None), next_array = 1\<rparr>"]) auto
  show "asm_start dbg = Inr s \<Longrightarrow> files_ok dbg s"
    using h by (auto simp: asm_start_def files_ok_def res_simps split: if_splits)
qed

text \<open>C40: the assembler succeeds exactly when its input has the form it expects (literals closed, a label after
  every jump, a name and two numbers after \<open>.file\<close> when debug information is wanted) and every label jumped to
  is placed somewhere in it; otherwise it stops with a failed assertion, or for a \<open>.file\<close> without a name by
  following a null pointer.\<close>

theorem asm_string_succeeds:
  assumes "(\<Sum>t\<leftarrow>toks. 9 + length (get_text t)) < 2 ^ 64"
  shows "case references dbg toks of Inl e \<Rightarrow> asm_string toks dbg = Inl e
    | Inr (placed, jumped) \<Rightarrow>
        if set jumped \<subseteq> set placed then \<exists>code d. asm_string toks dbg = Inr (code, d) \<and> (d = None \<longleftrightarrow> \<not> dbg)
        else asm_string toks dbg = Inl Assert_Failed"
proof -
  obtain s where s: "asm_start dbg = Inr s" "asm_ok s" "contents (buf s) = []" "jump_list s = []" "\<forall>l. label_at s l = None"
    using asm_start_ok by blast
  note f = asm_start_files [OF s(1)]
  show ?thesis
  proof (cases "references dbg toks")
    case (Inl e)
    then show ?thesis using asm_loop_refs [OF s(2) f, of toks] s(1) by (simp add: asm_string_def)
  next
    case (Inr r)
    obtain p j where r: "r = (p, j)" by (cases r)
    obtain s' where s': "asm_loop s toks = Inr s'" "token_step s toks p j s' [] dbg"
      using asm_loop_refs [OF s(2) f, of toks] by (auto simp: Inr r)
    have "length (contents (buf s')) < 2 ^ 64" using s'(2) s(3) assms by (simp add: token_step_def tokens_size_def)
    note res = asm_string_result [OF s(1) s'(1) this]
    have l: "label_at s' l = None \<longleftrightarrow> c_str l \<notin> set p" for l using s'(2) s(5) by (simp add: token_step_def)
    have j: "set (map jump_label (jump_list s')) = set j" using s'(2) s(4) by (simp add: token_step_def)
    have "\<forall>x\<in>set j. c_str x = x" using references_c_str [OF Inr [unfolded r]] by blast
    then have "(\<exists>x\<in>set (jump_list s'). label_at s' (jump_label x) = None) \<longleftrightarrow> \<not> set j \<subseteq> set p"
      unfolding l j [symmetric] by auto
    moreover have "debug_out s' = None \<longleftrightarrow> \<not> dbg" using s'(2) by (auto simp: token_step_def files_ok_def split: option.splits)
    ultimately show ?thesis using res by (auto simp: Inr r split: if_splits)
  qed
qed

definition demo_tokens :: "token list" where
  "demo_tokens =
     [\<lparr>kind = LABEL_TOKEN, get_text = chars ''loop'', lineno = 1\<rparr>,
      \<lparr>kind = unat OP_LIT_TRUE, get_text = [], lineno = 1\<rparr>,
      \<lparr>kind = unat OP_JMP, get_text = [], lineno = 2\<rparr>,
      \<lparr>kind = LABEL_TOKEN, get_text = chars ''loop'', lineno = 2\<rparr>]"

definition file_tokens :: "token list" where
  "file_tokens =
     [\<lparr>kind = DIRECTIVE_FILE, get_text = [], lineno = 1\<rparr>,
      \<lparr>kind = STRING_START_TOKEN, get_text = [], lineno = 1\<rparr>,
      \<lparr>kind = unat OP_LIT_STRING, get_text = chars ''a'', lineno = 1\<rparr>,
      \<lparr>kind = STRING_END_TOKEN, get_text = [34], lineno = 1\<rparr>,
      \<lparr>kind = unat OP_LIT_FIXNUM, get_text = chars ''1'', lineno = 1\<rparr>,
      \<lparr>kind = unat OP_LIT_FIXNUM, get_text = chars ''2'', lineno = 1\<rparr>]"

definition assembled :: "token list \<Rightarrow> bool \<Rightarrow> u8 list res" where
  "assembled toks dbg = rbind (asm_string toks dbg) (\<lambda>(code, d). Inr code)"

text \<open>The buffer after an \<open>EMIT\<close> that returns.\<close>

definition emitted :: "buffer \<Rightarrow> u8 list \<Rightarrow> nat \<Rightarrow> buffer" where
  "emitted b code n = (case EMIT b code n of Inr b' \<Rightarrow> b' | Inl e \<Rightarrow> b)"

lemma emitted_ok:
  assumes "buffer_ok b" "n \<le> length code"
  shows "EMIT b code n = Inr (emitted b code n)" "buffer_ok (emitted b code n)"
    "contents (emitted b code n) = contents b @ take n code"
  using EMIT_ok [OF assms, where thesis = "EMIT b code n = Inr (emitted b code n)
      \<and> buffer_ok (emitted b code n) \<and> contents (emitted b code n) = contents b @ take n code"]
  by (auto simp: emitted_def)

lemma take_c_str: "take (length (c_str str)) str = c_str str"
  by (simp only: c_str_def takeWhile_eq_take [symmetric])

lemma length_c_str: "length (c_str str) \<le> length str"
  by (simp add: c_str_def length_takeWhile_le)

lemma EMIT_LIT_STRING_emitted:
  assumes "buffer_ok b"
  shows "EMIT_LIT_STRING b str
    = Inr (emitted (emitted b (INT_64 (of_nat (length (c_str str)))) 8) str (length (c_str str)))"
  using emitted_ok(1) [of "emitted b (INT_64 (of_nat (length (c_str str)))) 8" "length (c_str str)" str]
  by (simp add: EMIT_LIT_STRING_def Let_def emitted_ok [OF assms] length_c_str EMIT_def [symmetric])

lemma assembled_eq:
  assumes "asm_start dbg = Inr s" "asm_loop s toks = Inr s'" "asm_ok s'"
    "rewrite_jumps (contents (buf s')) (jump_list s') (labels_store s') (labels s') = Inr code"
  shows "assembled toks dbg = Inr code"
  using buffer_read_take [OF asm_ok_buf [OF assms(3)], of "buffer_size (buf s')"] assms(1,2,4) asm_ok_buf [OF assms(3)]
  by (simp add: assembled_def asm_string_def buffer_size_def length_contents)

lemma assembled_no_debug:
  "assembled file_tokens False
      = Inr ([OP_LIT_STRING] @ INT_64 1 @ chars ''a'' @ [OP_LIT_FIXNUM] @ INT_64 1 @ [OP_LIT_FIXNUM] @ INT_64 2)"
proof -
  obtain s where s: "asm_start False = Inr s" "asm_ok s" "contents (buf s) = []" "jump_list s = []"
    using asm_start_ok by blast
  have d: "debug_out s = None" using s(1) by (auto simp: asm_start_def res_simps)
  note b = asm_ok_buf [OF s(2)]
  have c: "c_str (chars ''a'') = chars ''a''" "strtoq (chars ''1'') = 1" "strtoq (chars ''2'') = 2" "length (chars ''a'') = 1"
    by code_simp+
  obtain s' where s': "asm_loop s file_tokens = Inr s'"
    "contents (buf s') = ([OP_LIT_STRING] @ INT_64 1 @ chars ''a'' @ [OP_LIT_FIXNUM] @ INT_64 1 @ [OP_LIT_FIXNUM] @ INT_64 2)"
    "jump_list s' = []"
    using b s(3,4) d
    by (simp add: file_tokens_def asm_token_def token_codes jump_ops_def op_codes asm_lit_string_def asm_lit_fixnum_def
      EMIT_LIT_FIXNUM_def emitted_ok EMIT_LIT_STRING_emitted take_c_str length_c_str c)
  have "asm_ok s'" using asm_loop_extends [OF s'(1) s(2)] by (simp add: extends_def)
  from assembled_eq [OF s(1) s'(1) this] s'(2,3) show ?thesis by simp
qed

lemma assembled_debug: "assembled file_tokens True = Inr []"
proof -
  obtain s where s: "asm_start True = Inr s" "asm_ok s" "contents (buf s) = []" "jump_list s = []"
    using asm_start_ok by blast
  obtain st t bs where h: "hash_create hash_string hash_string_cmp \<lparr>arrays = (\<lambda>_. None), next_array = 1\<rparr> = Inr (st, t)"
    "table_ok hash_string hash_string_cmp st t bs" "\<forall>j. b_lookup hash_string hash_string_cmp bs j = (None :: nat option)"
    by (rule string_key.hash_create_spec [where st = "\<lparr>arrays = (\<lambda>_. None), next_array = 1\<rparr>"]) auto
  have d: "debug_out s = Some \<lparr>files_store = st, files = t, states = []\<rparr>"
    using s(1) h(1) by (auto simp: asm_start_def res_simps)
  let ?name = "chars ''a'' @ [34]"
  obtain st' t' where f: "hash_set hash_string hash_string_cmp st t (chars ''a'') 1 = Inr (st', t')"
    by (rule string_key.hash_set_spec [OF h(2), where k = "chars ''a''" and v = 1])
  have g: "hash_get hash_string hash_string_cmp st t ?name = Inr None"
    using string_key.hash_get_spec [OF h(2), of ?name] h(3) by simp
  have c: "strncpy_bytes ?name (length (c_str ?name) - 1) = chars ''a''" by code_simp
  obtain s' where s': "asm_loop s file_tokens = Inr s'" "buf s' = buf s" "jump_list s' = []"
    using s(4) d g f c
    by (simp add: file_tokens_def asm_token_def token_codes jump_ops_def op_codes add_debug_file_def
      get_debug_num_def)
  have "asm_ok s'" using asm_loop_extends [OF s'(1) s(2)] by (simp add: extends_def)
  from assembled_eq [OF s(1) s'(1) this] s'(2,3) s(3) show ?thesis by simp
qed

text \<open>asking for debug information changes the code: without it, the operands of a \<open>.file\<close>
  directive are assembled as literals.\<close>

theorem debug_changes_code:
  "assembled file_tokens True = Inr []
   \<and> assembled file_tokens False
      = Inr ([OP_LIT_STRING] @ INT_64 1 @ chars ''a'' @ [OP_LIT_FIXNUM] @ INT_64 1 @ [OP_LIT_FIXNUM] @ INT_64 2)"
  using assembled_debug assembled_no_debug by simp

lemma demo_run:
  obtains s s' where "asm_start False = Inr s" "asm_ok s" "asm_loop s demo_tokens = Inr s'"
    "contents (buf s') = OP_LIT_TRUE # OP_JMP # INT_64 0"
    "jump_list s' = [\<lparr>jump_label = chars ''loop'', jump_addr = 2, jump_lineno = 2\<rparr>]"
    "label_at s' (chars ''loop'') = Some 0"
proof -
  obtain s where s: "asm_start False = Inr s" "asm_ok s" "contents (buf s) = []" "jump_list s = []"
    "\<forall>l. label_at s l = None"
    using asm_start_ok by blast
  let ?t = "\<lparr>kind = LABEL_TOKEN, get_text = chars ''loop'', lineno = 1\<rparr>"
  obtain s1 where s1: "asm_token s ?t (tl demo_tokens) = Inr (s1, tl demo_tokens)" "asm_ok s1" "buf s1 = buf s"
    "jump_list s1 = jump_list s"
    "\<forall>l. label_at s1 l = (if c_str l = c_str (chars ''loop'') then Some 0 else label_at s l)"
    using asm_label_step [OF s(2), of ?t "tl demo_tokens"] s(3) by auto
  note b = asm_ok_buf [OF s1(2)]
  have c: "c_str (chars ''loop'') = chars ''loop''" by code_simp
  have sz: "buffer_size (emitted (emitted (buf s1) [OP_LIT_TRUE] (Suc 0)) [OP_JMP] (Suc 0)) = 2"
    using b s1(3) s(3) by (simp add: size_contents emitted_ok)
  obtain s' where s': "asm_loop s1 (tl demo_tokens) = Inr s'"
    "contents (buf s') = OP_LIT_TRUE # OP_JMP # INT_64 0"
    "jump_list s' = [\<lparr>jump_label = chars ''loop'', jump_addr = 2, jump_lineno = 2\<rparr>]"
    "labels_store s' = labels_store s1" "labels s' = labels s1"
    using b s(3,4) s1(3,4) sz
    by (simp add: demo_tokens_def asm_token_def token_codes jump_ops_def op_codes asm_jump_def emitted_ok c)
  have "asm_loop s demo_tokens = Inr s'"
    using s1(1) s'(1) by (simp add: demo_tokens_def LABEL_TOKEN_def END_OF_FILE_def)
  then show ?thesis using that s(1,2) s'(2-) s1(5) by (simp add: label_at_def)
qed

theorem asm_jumps_land_witness:
  "\<exists>s s' code dbg'. asm_string demo_tokens False = Inr (code, dbg') \<and> asm_start False = Inr s
    \<and> asm_loop s demo_tokens = Inr s' \<and> jump_list s' \<noteq> [] \<and> targets s' code"
proof -
  obtain s s' where s: "asm_start False = Inr s" "asm_loop s demo_tokens = Inr s'"
    "contents (buf s') = OP_LIT_TRUE # OP_JMP # INT_64 0"
    "jump_list s' = [\<lparr>jump_label = chars ''loop'', jump_addr = 2, jump_lineno = 2\<rparr>]"
    "label_at s' (chars ''loop'') = Some 0"
    by (rule demo_run) blast
  obtain code where c: "asm_string demo_tokens False = Inr (code, debug_out s')" "length code < 2 ^ 64"
    using asm_string_result [OF s(1,2)] s(3-5) by auto
  show ?thesis using asm_jumps_land [OF c] c s by auto
qed

definition unplaced_tokens :: "token list" where
  "unplaced_tokens = [\<lparr>kind = unat OP_JMP, get_text = [], lineno = 1\<rparr>, \<lparr>kind = LABEL_TOKEN, get_text = chars ''x'', lineno = 1\<rparr>]"

definition open_string_tokens :: "token list" where
  "open_string_tokens = [\<lparr>kind = STRING_START_TOKEN, get_text = [34], lineno = 1\<rparr>]"

lemma demo_references:
  "references dbg demo_tokens = Inr ([chars ''loop''], [chars ''loop''])" "references dbg unplaced_tokens = Inr ([], [chars ''x''])"
  "references dbg open_string_tokens = Inl Assert_Failed"
  by (simp_all add: demo_tokens_def unplaced_tokens_def open_string_tokens_def token_refs_def token_codes op_codes jump_ops_def
      string_tail_def chars_def c_str_def)

lemma demo_sizes:
  "(\<Sum>t\<leftarrow>demo_tokens. 9 + length (get_text t)) < 2 ^ 64" "(\<Sum>t\<leftarrow>unplaced_tokens. 9 + length (get_text t)) < 2 ^ 64"
  "(\<Sum>t\<leftarrow>open_string_tokens. 9 + length (get_text t)) < 2 ^ 64"
  by (simp_all add: demo_tokens_def unplaced_tokens_def open_string_tokens_def chars_def)

theorem asm_string_succeeds_witness:
  "(\<exists>code d. asm_string demo_tokens False = Inr (code, d)) \<and> asm_string unplaced_tokens False = Inl Assert_Failed
   \<and> asm_string open_string_tokens True = Inl Assert_Failed"
  using asm_string_succeeds [OF demo_sizes(1), of False] asm_string_succeeds [OF demo_sizes(2), of False]
    asm_string_succeeds [OF demo_sizes(3), of True]
  by (auto simp: demo_references)

theorem asm_label_spec_witness:
  "\<exists>s s'. asm_token s (hd demo_tokens) [] = Inr (s', []) \<and> label_at s' (chars ''loop'') = Some 0"
proof -
  obtain s where s: "asm_ok s" "contents (buf s) = []" using asm_start_ok by blast
  have "kind (hd demo_tokens) = LABEL_TOKEN" "get_text (hd demo_tokens) = chars ''loop''"
    by (simp_all add: demo_tokens_def)
  then show ?thesis using asm_label_spec [OF s(1), of "hd demo_tokens" "[]"] s(2) by fastforce
qed

end
