(* ===== verification/Asm_Line.thy ===== *)
theory Asm_Line
  imports Asm_Scan Asm_Props
begin

text \<open>
  Words of assembler text, and code without labels: how the scanner reads each word of its table, and
  what the assembler makes of a list of tokens that are literals and instructions without operand.
\<close>

section \<open>Code without labels\<close>

definition char_value :: "u8 list \<Rightarrow> u32" where
  "char_value txt =
     (let str = c_str txt in
      if str = chars ''newline'' then 10
      else if str = chars ''space'' then 32
      else if str = chars ''eof'' then - 1
      else if str \<noteq> [] \<and> hd str = 120 \<and> 1 < length str then ucast (strtoul16 (tl str))
      else if str = [] then 0 else scast (hd str))"

definition string_code :: "nat \<Rightarrow> u8 list \<Rightarrow> u8 list" where
  "string_code k txt = (if k = STRING_START_TOKEN then OP_LIT_STRING else OP_LIT_SYMBOL)
     # INT_64 (of_nat (length (c_str txt))) @ c_str txt"

lemma asm_lit_char_eq:
  "asm_lit_char s t = rbind (EMIT_LIT_CHAR (buf s) (char_value (get_text t))) (\<lambda>b. Inr (s\<lparr>buf := b\<rparr>))"
  unfolding asm_lit_char_def char_value_def Let_def ..

text \<open>The code of literals and of instructions without operand. Strings are three tokens, empty ones two.\<close>

fun simple_code :: "token list \<Rightarrow> u8 list option" where
  "simple_code [] = Some []"
| "simple_code (t # ts) =
     (if kind t = unat OP_LIT_FIXNUM
      then map_option (\<lambda>code. OP_LIT_FIXNUM # INT_64 (strtoq (get_text t)) @ code) (simple_code ts)
      else if kind t = unat OP_LIT_CHAR
      then map_option (\<lambda>code. LIT_CHAR (char_value (get_text t)) @ code) (simple_code ts)
      else if kind t = STRING_START_TOKEN \<or> kind t = SYMBOL_START_TOKEN
      then (case ts of
          u # us \<Rightarrow>
            if kind u = STRING_END_TOKEN then map_option (\<lambda>code. string_code (kind t) [] @ code) (simple_code us)
            else (case us of
                v # vs \<Rightarrow>
                  if kind u = unat OP_LIT_STRING \<and> kind v = STRING_END_TOKEN
                  then map_option (\<lambda>code. string_code (kind t) (get_text u) @ code) (simple_code vs) else None
              | [] \<Rightarrow> None)
        | [] \<Rightarrow> None)
      else if kind t < OP_MAX_INS \<and> kind t \<notin> unat ` set jump_ops
      then map_option (\<lambda>code. of_nat (kind t) # code) (simple_code ts)
      else None)"

definition assembles :: "asm_state \<Rightarrow> token list \<Rightarrow> u8 list \<Rightarrow> bool" where
  "assembles s ts code \<longleftrightarrow> (\<exists>b. buffer_ok b \<and> contents b = contents (buf s) @ code
     \<and> (\<forall>more. asm_loop s (ts @ more) = asm_loop (s\<lparr>buf := b\<rparr>) more))"

lemma assembles_Nil: "asm_ok s \<Longrightarrow> assembles s [] []"
  unfolding assembles_def by (rule exI [of _ "buf s"]) (simp add: asm_ok_buf)

lemma asm_ok_grow: "asm_ok s \<Longrightarrow> buffer_ok b \<Longrightarrow> contents b = contents (buf s) @ code \<Longrightarrow> asm_ok (s\<lparr>buf := b\<rparr>)"
  using extends_buf by (auto simp: extends_def)

lemma assembles_step:
  assumes t: "kind t \<noteq> END_OF_FILE" "\<And>more. asm_token s t (us @ more) = Inr (s\<lparr>buf := b\<rparr>, vs @ more)"
    and b: "buffer_ok b" "contents b = contents (buf s) @ c1" and more: "assembles (s\<lparr>buf := b\<rparr>) vs c2"
  shows "assembles s (t # us) (c1 @ c2)"
proof -
  obtain b2 where "buffer_ok b2" "contents b2 = contents b @ c2" "\<forall>more. asm_loop (s\<lparr>buf := b\<rparr>) (vs @ more) = asm_loop (s\<lparr>buf := b2\<rparr>) more"
    using more by (auto simp: assembles_def)
  then show ?thesis unfolding assembles_def using t b by (intro exI [of _ b2]) simp
qed

lemma asm_string_token:
  assumes ok: "asm_ok s" and k: "kind t = STRING_START_TOKEN \<or> kind t = SYMBOL_START_TOKEN"
  obtains b where "EMIT (buf s) [if kind t = STRING_START_TOKEN then OP_LIT_STRING else OP_LIT_SYMBOL] 1 = Inr b"
    "asm_ok (s\<lparr>buf := b\<rparr>)" "contents b = contents (buf s) @ [if kind t = STRING_START_TOKEN then OP_LIT_STRING else OP_LIT_SYMBOL]"
    "\<And>us. asm_token s t us = asm_lit_string (s\<lparr>buf := b\<rparr>) us"
proof -
  let ?op = "if kind t = STRING_START_TOKEN then OP_LIT_STRING else OP_LIT_SYMBOL"
  obtain b where b: "EMIT (buf s) [?op] 1 = Inr b" "buffer_ok b" "contents b = contents (buf s) @ [?op]"
    using EMIT_ok [OF asm_ok_buf [OF ok], of 1 "[?op]"] by auto
  moreover have "asm_token s t us = asm_lit_string (s\<lparr>buf := b\<rparr>) us" for us
    using k b(1) by (auto simp: asm_token_def token_codes op_codes)
  ultimately show ?thesis using that asm_ok_grow [OF ok b(2,3)] by blast
qed

lemma simple_assembles: "simple_code ts = Some code \<Longrightarrow> asm_ok s \<Longrightarrow> assembles s ts code"
proof (induction ts arbitrary: s code rule: simple_code.induct)
  case 1
  then show ?case by (simp add: assembles_Nil)
next
  case (2 t ts)
  note ok = "2.prems"(2)
  consider (num) "kind t = unat OP_LIT_FIXNUM" | (char) "kind t = unat OP_LIT_CHAR"
    | (str) "kind t = STRING_START_TOKEN \<or> kind t = SYMBOL_START_TOKEN"
    | (plain) "kind t < OP_MAX_INS" "kind t \<notin> unat ` set jump_ops" "kind t \<noteq> unat OP_LIT_FIXNUM" "kind t \<noteq> unat OP_LIT_CHAR"
      "kind t \<noteq> STRING_START_TOKEN" "kind t \<noteq> SYMBOL_START_TOKEN"
    using "2.prems"(1) by (auto split: if_splits)
  then show ?case
  proof cases
    case num
    then obtain c where c: "simple_code ts = Some c" "code = (OP_LIT_FIXNUM # INT_64 (strtoq (get_text t))) @ c"
      using "2.prems"(1) by auto
    obtain b where b: "EMIT (buf s) (OP_LIT_FIXNUM # INT_64 (strtoq (get_text t))) 9 = Inr b" "buffer_ok b"
      "contents b = contents (buf s) @ OP_LIT_FIXNUM # INT_64 (strtoq (get_text t))"
      using EMIT_ok [OF asm_ok_buf [OF ok], of 9 "OP_LIT_FIXNUM # INT_64 (strtoq (get_text t))"] by auto
    have "asm_token s t us = Inr (s\<lparr>buf := b\<rparr>, us)" for us
      using b(1) num by (simp add: asm_token_def asm_lit_fixnum_def EMIT_LIT_FIXNUM_def)
    moreover have "assembles (s\<lparr>buf := b\<rparr>) ts c"
      using "2.IH"(1) [OF num c(1)] asm_ok_grow [OF ok b(2,3)] by simp
    ultimately show ?thesis unfolding c(2) using b num
      by (intro assembles_step) (auto simp: token_codes op_codes)
  next
    case char
    then obtain c where c: "simple_code ts = Some c" "code = LIT_CHAR (char_value (get_text t)) @ c"
      using "2.prems"(1) by (auto simp: op_codes)
    obtain b where b: "EMIT (buf s) (LIT_CHAR (char_value (get_text t))) 5 = Inr b" "buffer_ok b"
      "contents b = contents (buf s) @ LIT_CHAR (char_value (get_text t))"
      using EMIT_ok [OF asm_ok_buf [OF ok], of 5 "LIT_CHAR (char_value (get_text t))"] by (auto simp: LIT_CHAR_def)
    have "asm_token s t us = Inr (s\<lparr>buf := b\<rparr>, us)" for us
      using b(1) char by (simp add: asm_token_def asm_lit_char_eq EMIT_LIT_CHAR_def op_codes)
    moreover have "assembles (s\<lparr>buf := b\<rparr>) ts c"
      using "2.IH"(2) [OF _ char c(1)] asm_ok_grow [OF ok b(2,3)] char by (simp add: op_codes)
    ultimately show ?thesis unfolding c(2) using b char
      by (intro assembles_step) (auto simp: token_codes op_codes)
  next
    case str
    then have nk: "kind t \<noteq> unat OP_LIT_FIXNUM" "kind t \<noteq> unat OP_LIT_CHAR" by (auto simp: token_codes op_codes)
    let ?op = "if kind t = STRING_START_TOKEN then OP_LIT_STRING else OP_LIT_SYMBOL"
    obtain b where b: "EMIT (buf s) [?op] 1 = Inr b" "asm_ok (s\<lparr>buf := b\<rparr>)" "contents b = contents (buf s) @ [?op]"
      "\<And>us. asm_token s t us = asm_lit_string (s\<lparr>buf := b\<rparr>) us" using asm_string_token [OF ok str] by metis
    obtain u us where ts: "ts = u # us" using "2.prems"(1) str nk by (cases ts) auto
    show ?thesis
    proof (cases "kind u = STRING_END_TOKEN")
      case True
      then obtain c where c: "simple_code us = Some c" "code = string_code (kind t) [] @ c"
        using "2.prems"(1) str nk by (auto simp: ts)
      obtain b2 where b2: "EMIT_LIT_STRING b [] = Inr b2" "buffer_ok b2" "contents b2 = contents b @ INT_64 0"
        using EMIT_LIT_STRING_ok [of b "[]"] asm_ok_buf [OF b(2)] by auto
      have "asm_token s t ((u # us) @ more) = Inr (s\<lparr>buf := b2\<rparr>, us @ more)" for more
        using b(4) True b2(1) by (simp add: asm_lit_string_def token_codes op_codes)
      moreover have "contents b2 = contents (buf s) @ string_code (kind t) []" using b2(3) b(3) by (simp add: string_code_def)
      moreover from this have "assembles (s\<lparr>buf := b2\<rparr>) us c"
        using "2.IH"(3) [OF nk str ts True c(1)] asm_ok_grow [OF ok b2(2)] by simp
      ultimately show ?thesis unfolding c(2) ts using b2(2) str
        by (intro assembles_step) (auto simp: token_codes)
    next
      case False
      then obtain v vs where us: "us = v # vs" "kind u = unat OP_LIT_STRING" "kind v = STRING_END_TOKEN"
        using "2.prems"(1) str nk by (auto simp: ts split: list.splits if_splits)
      then obtain c where c: "simple_code vs = Some c" "code = string_code (kind t) (get_text u) @ c"
        using "2.prems"(1) str nk False by (auto simp: ts)
      obtain b2 where b2: "EMIT_LIT_STRING b (get_text u) = Inr b2" "buffer_ok b2"
        "contents b2 = contents b @ INT_64 (of_nat (length (c_str (get_text u)))) @ c_str (get_text u)"
        using EMIT_LIT_STRING_ok [of b "get_text u"] asm_ok_buf [OF b(2)] by auto
      have "asm_token s t ((u # v # vs) @ more) = Inr (s\<lparr>buf := b2\<rparr>, vs @ more)" for more
        using b(4) us b2(1) by (simp add: asm_lit_string_def token_codes op_codes)
      moreover have "contents b2 = contents (buf s) @ string_code (kind t) (get_text u)"
        using b2(3) b(3) by (simp add: string_code_def)
      moreover from this have "assembles (s\<lparr>buf := b2\<rparr>) vs c"
        using "2.IH"(4) [OF nk str ts False us(1) _ c(1)] us asm_ok_grow [OF ok b2(2)] by simp
      ultimately show ?thesis unfolding c(2) ts us(1) using b2(2) str
        by (intro assembles_step) (auto simp: token_codes)
    qed
  next
    case plain
    then obtain c where c: "simple_code ts = Some c" "code = [of_nat (kind t)] @ c"
      using "2.prems"(1) by auto
    obtain b where b: "EMIT (buf s) [of_nat (kind t)] 1 = Inr b" "buffer_ok b" "contents b = contents (buf s) @ [of_nat (kind t)]"
      using EMIT_ok [OF asm_ok_buf [OF ok], of 1 "[of_nat (kind t)]"] by auto
    have "asm_token s t us = Inr (s\<lparr>buf := b\<rparr>, us)" for us
      using b(1) plain by (simp add: asm_token_def token_codes)
    moreover have "assembles (s\<lparr>buf := b\<rparr>) ts c"
      using "2.IH"(5) [OF _ _ _ _ c(1)] plain asm_ok_grow [OF ok b(2,3)] by simp
    ultimately show ?thesis unfolding c(2) using b plain
      by (intro assembles_step) (auto simp: token_codes)
  qed
qed

lemma asm_string_simple:
  assumes "simple_code toks = Some code"
  shows "\<exists>d. asm_string toks dbg = Inr (code, d)"
proof -
  obtain s where s: "asm_start dbg = Inr s" "asm_ok s" "contents (buf s) = []" "jump_list s = []" using asm_start_ok by blast
  obtain b where b: "buffer_ok b" "contents b = code" "asm_loop s toks = Inr (s\<lparr>buf := b\<rparr>)"
    using simple_assembles [OF assms s(2)] s(3) by (auto simp: assembles_def) (metis append_Nil2 asm_loop.simps(1))
  have "buffer_read b (buffer_size b) = code"
    using buffer_read_take [OF b(1), of "buffer_size b"] size_contents [OF b(1)] b(2) by (simp add: buffer_size_def)
  then show ?thesis using s b by (simp add: asm_string_def)
qed

section \<open>Words and numbers\<close>

lemma longest_le: "\<forall>(p, act)\<in>set rs. fst (p s) \<le> n \<Longrightarrow> fst (longest rs s) \<le> n"
  by (induction rs) (auto simp: case_prod_beta Let_def)

lemma longest_max:
  assumes "p s = (t, l)" "t \<noteq> 0" "\<forall>(q, a)\<in>set pre. fst (q s) < t" "\<forall>(q, a)\<in>set post. fst (q s) \<le> t"
  shows "longest (pre @ (p, act) # post) s = (t, l, Some act)"
  using assms(3)
proof (induction pre)
  case Nil
  then show ?case using assms(1,2) longest_le [OF assms(4)] by (simp add: case_prod_beta Let_def)
next
  case (Cons r pre)
  obtain q a where r: "r = (q, a)" by (cases r)
  obtain t1 l1 where q: "q s = (t1, l1)" by force
  show ?case using Cons by (simp add: r q)
qed

text \<open>What the words have in common.\<close>

definition plain_word :: "u8 list \<Rightarrow> bool" where
  "plain_word w \<longleftrightarrow> (case w of [] \<Rightarrow> False | c # cs \<Rightarrow> \<not> digit c \<and> c \<notin> set [59, 46, 10, 13, 32, 9]
     \<and> ((c = 43 \<or> c = 45) \<longrightarrow> cs = [])) \<and> 10 \<notin> set w \<and> 32 \<notin> set w \<and> 9 \<notin> set w \<and> 13 \<notin> set w \<and> 58 \<notin> set w \<and> 92 \<notin> set w \<and> 34 \<notin> set w"

lemma words_plain: "list_all (\<lambda>(w, sc, k). plain_word (chars w)) (words @ more_words)"
  by (simp add: words_def more_words_def plain_word_def chars_def digit_def between_def)

lemma words_distinct: "distinct (map fst (words @ more_words))"
  by (simp add: words_def more_words_def)

lemma inj_chars: "inj chars"
proof -
  have "inj (\<lambda>c. of_nat (of_char c) :: u8)"
  proof (rule injI)
    fix c d :: char
    assume "(of_nat (of_char c) :: u8) = of_nat (of_char d)"
    then have "(of_char c :: nat) mod 256 = of_char d mod 256"
      by (simp add: word_of_nat_eq_iff take_bit_eq_mod)
    then have "(of_char c :: nat) = of_char d" by simp
    then show "c = d" by (simp only: of_char_eq_iff)
  qed
  moreover have "chars = map (\<lambda>c. of_nat (of_char c))" by (simp add: fun_eq_iff chars_def)
  ultimately show ?thesis by (metis inj_mapI)
qed

lemma starts_prefix: "starts p s \<longleftrightarrow> take (length p) s = p"
  by (induction p s rule: starts.induct) auto

text \<open>A space or the end of a line, which end a word.\<close>

definition sep :: "u8 \<Rightarrow> bool" where "sep x \<longleftrightarrow> x = 10 \<or> x = 32 \<or> x = 9 \<or> x = 13"

lemma sep_class: "sep x \<Longrightarrow> \<not> digit x \<and> \<not> xdigit x \<and> \<not> ident x"
  by (auto simp: sep_def digit_def xdigit_def ident_def alnum_def between_def)

lemma sep_out: "sep x \<Longrightarrow> plain_word w \<Longrightarrow> x \<notin> set w"
  by (auto simp: sep_def plain_word_def)

lemma starts_word:
  assumes "starts v (w @ x # rest)" "x \<notin> set v"
  shows "length v \<le> length w \<and> (length v = length w \<longrightarrow> v = w)"
proof -
  have "v = take (length v) (w @ x # rest)" using assms(1) by (simp add: starts_prefix)
  moreover have "length v \<le> length w"
  proof (rule ccontr)
    assume "\<not> length v \<le> length w"
    then have "x \<in> set (take (length v) (w @ x # rest))" by (cases "length v - length w") auto
    then show False using assms(2) calculation by metis
  qed
  ultimately show ?thesis by auto
qed

lemma word_match:
  assumes "plain_word w" "x \<notin> set v"
  shows "fst (lit v (w @ x # rest)) \<le> length w" "v \<noteq> w \<Longrightarrow> fst (lit v (w @ x # rest)) < length w"
proof -
  have "w \<noteq> []" using assms(1) by (auto simp: plain_word_def)
  then show "fst (lit v (w @ x # rest)) \<le> length w" "v \<noteq> w \<Longrightarrow> fst (lit v (w @ x # rest)) < length w"
    using starts_word [OF _ assms(2), of w rest] by (auto simp: lit_def whole_def le_less)
qed

lemma plain_other:
  assumes "plain_word w" "sep x"
  shows "fst (one is_ws (w @ x # rest)) = 0" "fst (comment (w @ x # rest)) = 0" "fst (number (w @ x # rest)) = 0"
    "fst (label_mark (w @ x # rest)) = 0"
proof -
  obtain c cs where w: "w = c # cs" "\<not> digit c" "c \<notin> set [59, 46, 10, 13, 32, 9]" "c = 43 \<or> c = 45 \<longrightarrow> cs = []"
    "58 \<notin> set w" using assms by (auto simp: plain_word_def split: list.splits)
  show "fst (one is_ws (w @ x # rest)) = 0" "fst (comment (w @ x # rest)) = 0" "fst (number (w @ x # rest)) = 0"
    using w assms(2) sep_class by (auto simp: one_def is_ws_def comment_def number_def whole_def Let_def)
  have "run_of ident (w @ x # rest) = run_of ident w" using sep_class [OF assms(2)] by (simp add: run_of_append)
  moreover have "drop (run_of ident w) (w @ x # rest) = drop (run_of ident w) w @ x # rest"
    using run_of_le [of ident w] by simp
  moreover have "\<not> starts [58] (drop n w @ x # rest)" for n
    using w(5) in_set_dropD [of 58 n w] assms(2) by (cases "drop n w") (auto simp: sep_def)
  ultimately show "fst (label_mark (w @ x # rest)) = 0" by (simp add: label_mark_def Let_def)
qed

lemma lit_head: "plain_word w \<Longrightarrow> c \<notin> set w \<or> c = 46 \<Longrightarrow> c \<noteq> x \<Longrightarrow> fst (lit (c # cs) (w @ x # rest)) = 0"
  by (auto simp: lit_def whole_def plain_word_def split: list.splits)

lemma word_longest:
  assumes "(w, sc, k) \<in> set words \<union> set more_words" "sep x"
  shows "longest (rules INITIAL) (chars w @ x # rest) = (length w, length w, Some (sc, Some (unat k)))"
proof -
  let ?s = "chars w @ x # rest"
  have pl: "plain_word (chars w)" using assms(1) words_plain by (auto simp: list_all_iff)
  then have ne: "length w \<noteq> 0" by (auto simp: plain_word_def chars_def)
  note o = plain_other [OF pl assms(2), of rest]
  have m: "lit (chars w) ?s = (length w, length w)" by (simp add: lit_def whole_def starts_prefix)
  have ws: "\<forall>(q, a)\<in>set (map word_rule vs). fst (q ?s) \<le> length w" if "set vs \<subseteq> set words \<union> set more_words" for vs
    using that words_plain word_match(1) [OF pl, of x _ rest] sep_out [OF assms(2)]
    by (fastforce simp: word_rule_def list_all_iff)
  have ws': "\<forall>(q, a)\<in>set (map word_rule vs). fst (q ?s) < length w"
    if "set vs \<subseteq> set words \<union> set more_words" "w \<notin> fst ` set vs" for vs
  proof -
    have "fst (lit (chars v) ?s) < length w" if v: "(v, sc', k') \<in> set vs" for v sc' k'
    proof -
      have "v \<noteq> w" using v \<open>w \<notin> fst ` set vs\<close> by force
      then have "chars v \<noteq> chars w" using inj_chars by (auto dest: injD)
      moreover have "x \<notin> set (chars v)" using v \<open>set vs \<subseteq> _\<close> words_plain sep_out [OF assms(2)] by (fastforce simp: list_all_iff)
      ultimately show ?thesis using word_match(2) [OF pl, of x "chars v" rest] by simp
    qed
    then show ?thesis by (auto simp: word_rule_def)
  qed
  have n: "34 \<notin> set (chars w)" "92 \<notin> set (chars w)" using pl by (auto simp: plain_word_def)
  have df: "fst (lit (chars ''.file'') ?s) = 0" using pl assms(2) by (auto simp: chars_def sep_def intro: lit_head)
  have q0: "fst (lit v ?s) \<le> length w" if "x \<notin> set v" for v using word_match(1) [OF pl that, of rest] by simp
  have q: "fst (lit [35, 92] ?s) \<le> length w" "fst (lit [115, 34] ?s) \<le> length w" "fst (lit [83, 34] ?s) \<le> length w"
    "fst (lit [92] ?s) \<le> length w" "fst (lit [34] ?s) \<le> length w"
    using assms(2) q0 [of "[35, 92]"] q0 [of "[115, 34]"] q0 [of "[83, 34]"] q0 [of "[92]"] q0 [of "[34]"]
    by (auto simp: sep_def)
  let ?h = "[(one is_ws, INITIAL, None), (comment, INITIAL, None), (number, INITIAL, Some (unat OP_LIT_FIXNUM))] :: rule list"
  let ?f = "[(lit (chars ''.file''), INITIAL, Some DIRECTIVE_FILE)] :: rule list"
  let ?e = "[(label_mark, EXPECT_LABEL, Some LABEL_TOKEN), (lit [35, 92], EXPECT_CHAR, None),
        (lit [115, 34], EXPECT_STRING, Some SYMBOL_START_TOKEN), (lit [83, 34], EXPECT_STRING, Some SYMBOL_START_TOKEN),
        (lit [92], INITIAL, None), (lit [34], EXPECT_STRING, Some STRING_START_TOKEN)] :: rule list"
  have e: "\<forall>(q, a)\<in>set ?e. fst (q ?s) \<le> length w" using o q by simp
  have h: "\<forall>(q, a)\<in>set ?h. fst (q ?s) < length w" using o ne by simp
  show ?thesis
  proof (cases "(w, sc, k) \<in> set words")
    case True
    then obtain pre post where s: "words = pre @ (w, sc, k) # post" by (meson split_list)
    have d: "w \<notin> fst ` set pre" using words_distinct by (auto simp: s)
    have sub: "set pre \<subseteq> set words \<union> set more_words" "set post \<subseteq> set words \<union> set more_words" by (auto simp: s)
    have "\<forall>(q, a)\<in>set (?h @ map word_rule pre). fst (q ?s) < length w"
      using h ws' [OF sub(1) d] unfolding set_append by blast
    moreover have "\<forall>(q, a)\<in>set ?f. fst (q ?s) \<le> length w" using df by simp
    then have "\<forall>(q, a)\<in>set (map word_rule post @ ?f @ map word_rule more_words @ ?e). fst (q ?s) \<le> length w"
      using e ws [OF sub(2)] ws [of more_words] unfolding set_append by blast
    moreover have "rules INITIAL = (?h @ map word_rule pre) @ (lit (chars w), sc, Some (unat k))
        # (map word_rule post @ ?f @ map word_rule more_words @ ?e)" by (simp add: s word_rule_def)
    ultimately show ?thesis using longest_max [where p = "lit (chars w)" and s = ?s, OF m ne] by metis
  next
    case False
    then have "(w, sc, k) \<in> set more_words" using assms(1) by simp
    then obtain pre post where s: "more_words = pre @ (w, sc, k) # post" by (meson split_list)
    have d: "w \<notin> fst ` set pre" "w \<notin> fst ` set words" using words_distinct by (auto simp: s)
    have sub: "set pre \<subseteq> set words \<union> set more_words" "set post \<subseteq> set words \<union> set more_words" by (auto simp: s)
    have "\<forall>(q, a)\<in>set ?f. fst (q ?s) < length w" using df ne by simp
    then have "\<forall>(q, a)\<in>set (?h @ map word_rule words @ ?f @ map word_rule pre). fst (q ?s) < length w"
      using h ws' [OF sub(1) d(1)] ws' [OF _ d(2)] unfolding set_append by blast
    moreover have "\<forall>(q, a)\<in>set (map word_rule post @ ?e). fst (q ?s) \<le> length w"
      using e ws [OF sub(2)] unfolding set_append by blast
    moreover have "rules INITIAL = (?h @ map word_rule words @ ?f @ map word_rule pre) @ (lit (chars w), sc, Some (unat k))
        # (map word_rule post @ ?e)" by (simp add: s word_rule_def)
    ultimately show ?thesis using longest_max [where p = "lit (chars w)" and s = ?s, OF m ne] by metis
  qed
qed


definition tok :: "nat \<Rightarrow> u8 list \<Rightarrow> nat \<Rightarrow> token" where
  "tok k txt lno = \<lparr>kind = k, get_text = txt, lineno = of_nat lno\<rparr>"

lemma scan_match:
  assumes "longest (rules sc) (w @ s) = (t, length w, Some (sc', k))" "w \<noteq> []"
  shows "scan sc lno (w @ s) = (case k of None \<Rightarrow> [] | Some k \<Rightarrow> [tok k w (lno + newlines w)]) @ scan sc' (lno + newlines w) s"
  using assms by (cases w; cases k) (simp_all add: tok_def Let_def)

lemma scan_word:
  assumes "(w, sc, k) \<in> set words \<union> set more_words" "sep x"
  shows "scan INITIAL lno (chars w @ x # rest) = tok (unat k) (chars w) lno # scan sc lno (x # rest)"
proof -
  have "plain_word (chars w)" using assms(1) words_plain by (auto simp: list_all_iff)
  then have "chars w \<noteq> []" "newlines (chars w) = 0" by (auto simp: plain_word_def intro: newlines_none)
  then show ?thesis
    using scan_match [of INITIAL "chars w" "x # rest" "length w" sc "Some (unat k)"] word_longest [OF assms] by simp
qed

text \<open>Inputs that begin like no word.\<close>

definition other_rules :: "rule list" where
  "other_rules =
     [(one is_ws, INITIAL, None), (comment, INITIAL, None), (number, INITIAL, Some (unat OP_LIT_FIXNUM)),
      (lit (chars ''.file''), INITIAL, Some DIRECTIVE_FILE),
      (label_mark, EXPECT_LABEL, Some LABEL_TOKEN), (lit [35, 92], EXPECT_CHAR, None),
      (lit [115, 34], EXPECT_STRING, Some SYMBOL_START_TOKEN), (lit [83, 34], EXPECT_STRING, Some SYMBOL_START_TOKEN),
      (lit [92], INITIAL, None), (lit [34], EXPECT_STRING, Some STRING_START_TOKEN)]"

lemma longest_zero: "\<forall>(q, a)\<in>set zs. fst (q s) = 0 \<Longrightarrow> snd (snd (longest (zs @ rs) s)) = snd (snd (longest rs s))
    \<and> fst (longest (zs @ rs) s) = fst (longest rs s) \<and> fst (snd (longest (zs @ rs) s)) = fst (snd (longest rs s))"
  by (induction zs) (auto simp: case_prod_beta Let_def)

lemma longest_skip: "\<forall>(q, a)\<in>set zs. fst (q s) = 0 \<Longrightarrow> longest (zs @ rs) s = longest rs s"
  using longest_zero [of zs s rs] by (simp add: prod_eq_iff)

lemma longest_cong: "longest rs s = longest rs' s \<Longrightarrow> longest (pre @ rs) s = longest (pre @ rs') s"
  by (induction pre) auto

definition no_word :: "u8 \<Rightarrow> bool" where
  "no_word c \<longleftrightarrow> list_all (\<lambda>(w, sc, k). hd (chars w) \<noteq> c) (words @ more_words)"

lemma longest_no_word:
  assumes "no_word c"
  shows "longest (rules INITIAL) (c # s) = longest other_rules (c # s)"
proof -
  have z: "\<forall>(q, a)\<in>set (map word_rule vs). fst (q (c # s)) = 0" if vs: "set vs \<subseteq> set (words @ more_words)" for vs
  proof -
    have "fst (lit (chars w) (c # s)) = 0" if "(w, sc, k) \<in> set vs" for w sc k
    proof -
      have "plain_word (chars w)" "hd (chars w) \<noteq> c" using vs that assms words_plain by (auto simp: no_word_def list_all_iff)
      then show ?thesis by (cases "chars w") (simp_all add: plain_word_def lit_def whole_def)
    qed
    then show ?thesis by (auto simp: word_rule_def)
  qed
  let ?h = "[(one is_ws, INITIAL, None), (comment, INITIAL, None), (number, INITIAL, Some (unat OP_LIT_FIXNUM))] :: rule list"
  let ?f = "[(lit (chars ''.file''), INITIAL, Some DIRECTIVE_FILE)] :: rule list"
  let ?e = "[(label_mark, EXPECT_LABEL, Some LABEL_TOKEN), (lit [35, 92], EXPECT_CHAR, None),
        (lit [115, 34], EXPECT_STRING, Some SYMBOL_START_TOKEN), (lit [83, 34], EXPECT_STRING, Some SYMBOL_START_TOKEN),
        (lit [92], INITIAL, None), (lit [34], EXPECT_STRING, Some STRING_START_TOKEN)] :: rule list"
  have "longest (?f @ map word_rule more_words @ ?e) (c # s) = longest (?f @ ?e) (c # s)"
    by (intro longest_cong longest_skip z) simp
  then have "longest (map word_rule words @ ?f @ map word_rule more_words @ ?e) (c # s) = longest (?f @ ?e) (c # s)"
    using longest_skip [OF z [of words], of "?f @ map word_rule more_words @ ?e"] by simp
  from longest_cong [OF this, of ?h] show ?thesis by (simp add: other_rules_def)
qed

lemma plain_hd: "plain_word w \<Longrightarrow> \<not> digit (hd w)"
  by (cases w) (auto simp: plain_word_def)

lemma no_words: "no_word 32" "no_word 59" "no_word 95" "no_word 34" "no_word 46" "is_ws c \<Longrightarrow> no_word c" "digit c \<Longrightarrow> no_word c"
proof -
  show "no_word 32" "no_word 59" "no_word 95" "no_word 34" "no_word 46"
    by (simp_all add: no_word_def words_def more_words_def chars_def)
  have "no_word 10" "no_word 13" "no_word 9" by (simp_all add: no_word_def words_def more_words_def chars_def)
  with \<open>no_word 32\<close> show "no_word c" if "is_ws c" using that by (auto simp: is_ws_def)
  show "no_word c" if "digit c"
    using words_plain that plain_hd by (fastforce simp: no_word_def list_all_iff)
qed

end
