(* ===== verification/Asm_Text.thy ===== *)
theory Asm_Text
  imports Asm_Line
begin

text \<open>
  How the scanner reads the lines of assembler text: spaces, comments, numbers, labels, the operands of
  jumps and strings. The printing of numbers and their scanning are inverse.
\<close>

section \<open>Numbers\<close>

definition is_digit :: "u8 \<Rightarrow> bool" where
  "is_digit c \<longleftrightarrow> digit_value c < 10 \<and> c \<noteq> 0 \<and> c \<noteq> 45 \<and> c \<noteq> 43 \<and> c \<noteq> 120 \<and> c \<noteq> 88"

lemma digit_of_nat:
  assumes "d < 10"
  shows "digit_value (of_nat (48 + d) :: u8) = d" "is_digit (of_nat (48 + d))" "(of_nat (48 + d) :: u8) = 48 \<longleftrightarrow> d = 0"
proof -
  have "d = 0 \<or> d = 1 \<or> d = 2 \<or> d = 3 \<or> d = 4 \<or> d = 5 \<or> d = 6 \<or> d = 7 \<or> d = 8 \<or> d = 9" using assms by arith
  then show "digit_value (of_nat (48 + d) :: u8) = d" "is_digit (of_nat (48 + d))"
    "(of_nat (48 + d) :: u8) = 48 \<longleftrightarrow> d = 0"
    by (elim disjE; simp add: digit_value_def is_digit_def)+
qed

lemma digits_append: "\<forall>c\<in>set xs. digit_value c < b \<Longrightarrow> digits b acc (xs @ ys) = digits b (digits b acc xs) ys"
  by (induction xs arbitrary: acc) auto

lemma show_nat_spec:
  "(\<forall>c\<in>set (show_nat n). is_digit c) \<and> digits 10 0 (show_nat n) = n \<and> show_nat n \<noteq> []
    \<and> (0 < n \<longrightarrow> hd (show_nat n) \<noteq> 48) \<and> (n = 0 \<longrightarrow> show_nat n = [48])"
proof (induction n rule: show_nat.induct)
  case (1 n)
  show ?case
  proof (cases "n < 10")
    case True
    then show ?thesis using digit_of_nat [of n] by (simp add: show_nat.simps [of n] show_nat.simps [of 0])
  next
    case False
    then have IH: "\<forall>c\<in>set (show_nat (n div 10)). is_digit c" "digits 10 0 (show_nat (n div 10)) = n div 10"
      "show_nat (n div 10) \<noteq> []" "hd (show_nat (n div 10)) \<noteq> 48" using "1.IH" by auto
    have d: "digit_value (of_nat (48 + n mod 10) :: u8) = n mod 10" "is_digit (of_nat (48 + n mod 10))"
      by (rule digit_of_nat, simp)+
    have e: "show_nat n = show_nat (n div 10) @ [of_nat (48 + n mod 10)]" using False by (simp add: show_nat.simps [of n])
    have "digits 10 0 (show_nat n) = digits 10 (n div 10) [of_nat (48 + n mod 10)]"
      unfolding e using IH(1,2) by (subst digits_append) (auto simp: is_digit_def)
    also have "\<dots> = n" using d(1) by (simp del: of_nat_add)
    finally show ?thesis using IH d(2) e False by auto
  qed
qed

lemma magnitude_show_nat: "magnitude (show_nat n) = n"
proof (cases "n = 0")
  case False
  then have n: "digits 10 0 (show_nat n) = n" "hd (show_nat n) \<noteq> 48" using show_nat_spec [of n] by auto
  then show ?thesis
    by (cases "show_nat n" rule: remdups_adj.cases) (auto simp: magnitude_def)
qed (use show_nat_spec [of 0] in \<open>simp add: magnitude_def digit_value_def\<close>)

lemma strtoq_show_int: "strtoq (show_int i) = i"
proof -
  have z: "0 \<notin> set (show_nat n)" "show_nat n \<noteq> []" "hd (show_nat n) \<noteq> 45" "hd (show_nat n) \<noteq> 43" for n
    using show_nat_spec [of n] hd_in_set [of "show_nat n"] by (auto simp: is_digit_def)
  have b: "- (2 ^ 63) \<le> sint i" "sint i < 2 ^ 63" using sint_greater_eq [of i] sint_lt [of i] by simp_all
  show ?thesis
  proof (cases "sint i < 0")
    case True
    then have s: "show_int i = 45 # show_nat (nat (- sint i))" by (simp add: show_int_def)
    show ?thesis using True b z(1) [of "nat (- sint i)"]
      by (simp add: s strtoq_def magnitude_show_nat c_str_Cons)
  next
    case False
    then have s: "show_int i = show_nat (nat (sint i))" by (simp add: show_int_def)
    obtain c cs where c: "show_nat (nat (sint i)) = c # cs" "c \<noteq> 45" "c \<noteq> 43"
      using z(2-4) [of "nat (sint i)"] by (cases "show_nat (nat (sint i))") auto
    have "c_str (c # cs) = c # cs" using z(1) [of "nat (sint i)"] c(1) by auto
    then show ?thesis using False b c magnitude_show_nat [of "nat (sint i)"]
      by (simp add: s strtoq_def Let_def)
  qed
qed

section \<open>Spaces and comments\<close>

lemma scan_ws: "is_ws c \<Longrightarrow> scan INITIAL lno (c # s) = scan INITIAL (lno + newlines [c]) s"
proof -
  assume c: "is_ws c"
  have f: "longest other_rules (32 # s) = (1, 1, Some (INITIAL, None))" "longest other_rules (10 # s) = (1, 1, Some (INITIAL, None))"
    "longest other_rules (13 # s) = (1, 1, Some (INITIAL, None))" "longest other_rules (9 # s) = (1, 1, Some (INITIAL, None))"
    by (simp_all add: other_rules_def one_def is_ws_def comment_def number_def lit_def whole_def label_mark_def chars_def
        Let_def digit_def between_def ident_def alnum_def)
  have "c = 32 \<or> c = 10 \<or> c = 13 \<or> c = 9" using c by (auto simp: is_ws_def)
  then have "longest (rules INITIAL) (c # s) = (1, 1, Some (INITIAL, None))"
    unfolding longest_no_word [OF no_words(6) [OF c]] using f by (elim disjE) (simp_all only:)
  then show ?thesis by simp
qed

lemma scan_space: "scan INITIAL lno (32 # s) = scan INITIAL lno s"
  using scan_ws [of 32 lno s] by (simp add: is_ws_def del: scan.simps)

lemma scan_spaces: "list_all is_ws ws \<Longrightarrow> scan INITIAL lno (ws @ s) = scan INITIAL (lno + newlines ws) s"
  by (induction ws arbitrary: lno) (simp_all add: scan_ws add.assoc del: scan.simps newlines_def)

lemma scan_indent: "scan INITIAL lno (chars ''        '' @ s) = scan INITIAL lno s"
  by (simp add: chars_def scan_space del: scan.simps)

lemma scan_comment:
  assumes "10 \<notin> set w"
  shows "scan INITIAL lno (59 # w @ 10 # rest) = scan INITIAL (Suc lno) rest"
proof -
  have r: "run_of (\<lambda>ch. ch \<noteq> 10) (w @ 10 # rest) = length w"
    using assms run_of_all [of w "\<lambda>ch. ch \<noteq> 10"] by (auto simp: run_of_append)
  have "longest (rules INITIAL) (59 # w @ 10 # rest) = (length w + 2, length w + 1, Some (INITIAL, None))"
    unfolding longest_no_word [OF no_words(2)]
    by (simp add: other_rules_def one_def is_ws_def comment_def r number_def lit_def whole_def label_mark_def chars_def
        Let_def digit_def between_def ident_def alnum_def)
  then have "scan INITIAL lno ((59 # w) @ 10 # rest) = scan INITIAL (lno + newlines (59 # w)) (10 # rest)"
    using scan_match [of INITIAL "59 # w" "10 # rest"] by simp
  then show ?thesis using assms newlines_none [of w] scan_newline by simp
qed

section \<open>Numbers in text\<close>

lemma is_digit_digit: "is_digit c \<Longrightarrow> digit c"
  by (auto simp: is_digit_def digit_def between_def digit_value_def Let_def split: if_splits)

lemma digit_ident: "digit c \<Longrightarrow> ident c"
  by (simp add: ident_def alnum_def)

lemma run_sep: "sep x \<Longrightarrow> \<forall>c\<in>set w. digit c \<Longrightarrow> run_of digit (w @ x # rest) = length w"
  "sep x \<Longrightarrow> \<forall>c\<in>set w. ident c \<Longrightarrow> run_of ident (w @ x # rest) = length w"
  using sep_class [of x] run_of_all [of w digit] run_of_all [of w ident] by (auto simp: run_of_append)

lemma digits_longest:
  assumes "w \<noteq> []" "\<forall>c\<in>set w. digit c" "sep x"
  shows "longest (rules INITIAL) (w @ x # rest) = (length w, length w, Some (INITIAL, Some (unat OP_LIT_FIXNUM)))"
proof -
  obtain c cs where w: "w = c # cs" "digit c" using assms by (cases w) auto
  then have c: "c \<noteq> 43" "c \<noteq> 45" "c \<noteq> 59" "c \<noteq> 46" "c \<noteq> 35" "c \<noteq> 115" "c \<noteq> 83" "c \<noteq> 92" "c \<noteq> 34" "\<not> is_ws c"
    by (auto simp: digit_def between_def is_ws_def)
  have r: "run_of digit (c # cs @ x # rest) = length w" "run_of ident (c # cs @ x # rest) = length w"
    using run_sep [OF assms(3), of w rest] assms(2) digit_ident by (auto simp: w)
  have x: "x \<noteq> 58" using assms(3) by (auto simp: sep_def)
  have "longest other_rules (c # cs @ x # rest) = (length w, length w, Some (INITIAL, Some (unat OP_LIT_FIXNUM)))"
    using c x by (simp add: other_rules_def one_def comment_def number_def r lit_def whole_def label_mark_def chars_def Let_def
        w(1) del: run_of.simps)
  then show ?thesis using longest_no_word [OF no_words(7) [OF w(2)], of "cs @ x # rest"] by (simp add: w(1))
qed


lemma minus_longest:
  assumes "w \<noteq> []" "\<forall>c\<in>set w. digit c" "sep x"
  shows "longest (rules INITIAL) (45 # w @ x # rest) = (length w + 1, length w + 1, Some (INITIAL, Some (unat OP_LIT_FIXNUM)))"
proof -
  let ?s = "45 # w @ x # rest"
  have d: "\<not> digit 45" "ident 45" "x \<noteq> 58" using assms(3) by (auto simp: digit_def between_def ident_def sep_def)
  have r: "run_of digit (w @ x # rest) = length w" "run_of ident (w @ x # rest) = length w"
    using run_sep [OF assms(3), of w rest] assms(2) digit_ident by auto
  have m: "number ?s = (length w + 1, length w + 1)" using assms(1) by (simp add: number_def r whole_def Let_def)
  have z: "\<forall>(q, a)\<in>set (map word_rule vs). fst (q ?s) \<le> length w + 1" if vs: "set vs \<subseteq> set words \<union> set more_words" for vs
  proof -
    have "fst (lit (chars v) ?s) \<le> length w + 1" if "(v, sc, k) \<in> set vs" for v sc k
    proof -
      have p: "plain_word (chars v)" using vs that words_plain by (auto simp: list_all_iff)
      show ?thesis
      proof (cases "starts (chars v) ?s")
        case True
        then show ?thesis using p by (cases "chars v") (auto simp: plain_word_def lit_def whole_def)
      qed (simp add: lit_def whole_def)
    qed
    then show ?thesis by (auto simp: word_rule_def)
  qed
  let ?f = "[(lit (chars ''.file''), INITIAL, Some DIRECTIVE_FILE)] :: rule list"
  let ?e = "[(label_mark, EXPECT_LABEL, Some LABEL_TOKEN), (lit [35, 92], EXPECT_CHAR, None),
        (lit [115, 34], EXPECT_STRING, Some SYMBOL_START_TOKEN), (lit [83, 34], EXPECT_STRING, Some SYMBOL_START_TOKEN),
        (lit [92], INITIAL, None), (lit [34], EXPECT_STRING, Some STRING_START_TOKEN)] :: rule list"
  have "\<forall>(q, a)\<in>set (?f @ ?e). fst (q ?s) \<le> length w + 1"
    using d r by (simp add: lit_def whole_def chars_def label_mark_def Let_def)
  then have "\<forall>(q, a)\<in>set (map word_rule words @ ?f @ map word_rule more_words @ ?e). fst (q ?s) \<le> length w + 1"
    using z [of words] z [of more_words] unfolding set_append by blast
  moreover have "\<forall>(q, a)\<in>set ([(one is_ws, INITIAL, None), (comment, INITIAL, None)] :: rule list). fst (q ?s) < length w + 1"
    using assms(1) by (simp add: one_def is_ws_def comment_def whole_def)
  ultimately show ?thesis
    using longest_max [where p = number and s = ?s, OF m,
        where pre = "[(one is_ws, INITIAL, None), (comment, INITIAL, None)] :: rule list"] by simp
qed

lemma scan_number:
  assumes "sep x"
  shows "scan INITIAL lno (show_int i @ x # rest) = tok (unat OP_LIT_FIXNUM) (show_int i) lno # scan INITIAL lno (x # rest)"
proof -
  have n: "show_nat n \<noteq> []" "\<forall>c\<in>set (show_nat n). digit c" for n using show_nat_spec [of n] is_digit_digit by auto
  have "\<not> digit 10" by (simp add: digit_def between_def)
  then have "10 \<notin> set (show_nat n)" for n using n(2) [of n] by blast
  then have nl: "newlines (show_int i) = 0" by (auto simp: show_int_def newlines_none)
  have "longest (rules INITIAL) (show_int i @ x # rest)
      = (length (show_int i), length (show_int i), Some (INITIAL, Some (unat OP_LIT_FIXNUM)))"
    using digits_longest [OF n assms] minus_longest [OF n assms] by (simp add: show_int_def)
  moreover have "show_int i \<noteq> []" using n(1) by (simp add: show_int_def)
  ultimately show ?thesis using scan_match [of INITIAL "show_int i" "x # rest"] nl by simp
qed

section \<open>Labels\<close>

text \<open>The labels of the code generator begin with an underscore.\<close>

definition label_text :: "u8 list \<Rightarrow> bool" where
  "label_text w \<longleftrightarrow> (case w of [] \<Rightarrow> False | c # cs \<Rightarrow> c = 95) \<and> (\<forall>c\<in>set w. ident c)"

lemma label_newlines: "label_text w \<Longrightarrow> newlines w = 0"
  using not_digit_10 by (intro newlines_none) (auto simp: label_text_def)

lemma scan_label:
  assumes "label_text w"
  shows "scan INITIAL lno (w @ 58 # rest) = tok LABEL_TOKEN w lno # scan INITIAL lno rest"
proof -
  obtain cs where w: "w = 95 # cs" using assms by (auto simp: label_text_def split: list.splits)
  have "\<not> ident 58" by (simp add: ident_def alnum_def digit_def between_def)
  then have r: "run_of ident (95 # cs @ 58 # rest) = length w"
    using assms run_of_all [of w ident] run_of_append [of ident 58 w rest] by (simp add: label_text_def w)
  have "\<not> digit 95" by (simp add: digit_def between_def)
  then have "longest other_rules (95 # cs @ 58 # rest) = (length w + 1, length w, Some (EXPECT_LABEL, Some LABEL_TOKEN))"
    by (simp add: other_rules_def one_def is_ws_def comment_def number_def lit_def whole_def label_mark_def chars_def
        Let_def r w del: run_of.simps) (simp add: w)
  then have "longest (rules INITIAL) (w @ 58 # rest) = (length w + 1, length w, Some (EXPECT_LABEL, Some LABEL_TOKEN))"
    using longest_no_word [OF no_words(3), of "cs @ 58 # rest"] by (simp add: w)
  from scan_match [OF this] have "scan INITIAL lno (w @ 58 # rest) = tok LABEL_TOKEN w lno # scan EXPECT_LABEL lno (58 # rest)"
    using label_newlines [OF assms] by (simp add: w)
  then show ?thesis by (simp add: lit_def whole_def)
qed

lemma scan_target:
  assumes "label_text w"
  shows "scan EXPECT_TARGET lno (32 # w @ 10 # rest) = tok LABEL_TOKEN w lno # scan INITIAL lno (10 # rest)"
proof -
  have "\<not> ident 32" "is_ws 32" by (simp_all add: ident_def alnum_def digit_def between_def is_ws_def)
  then have "scan EXPECT_TARGET lno (32 # w @ 10 # rest) = scan EXPECT_TARGET lno (w @ 10 # rest)"
    by (simp add: many_def one_def whole_def)
  moreover have "longest (rules EXPECT_TARGET) (w @ 10 # rest) = (length w, length w, Some (INITIAL, Some LABEL_TOKEN))"
  proof -
    obtain cs where w: "w = 95 # cs" using assms by (auto simp: label_text_def split: list.splits)
    have "run_of ident (w @ 10 # rest) = length w" using run_sep(2) [of 10 w rest] assms by (simp add: label_text_def sep_def)
    then show ?thesis by (simp add: many_def one_def whole_def is_ws_def w del: run_of.simps)
  qed
  moreover have "w \<noteq> []" using assms by (auto simp: label_text_def)
  ultimately show ?thesis using scan_match [of EXPECT_TARGET w "10 # rest"] label_newlines [OF assms] by simp
qed

section \<open>Strings\<close>

text \<open>A text that can stand between quotes.\<close>

definition quotable :: "u8 list \<Rightarrow> bool" where
  "quotable s \<longleftrightarrow> body False (s @ [34]) = length s"

lemma body_quote: "body e (s @ [34]) = length s \<Longrightarrow> body e (s @ 34 # rest) = length s"
  by (induction s arbitrary: e) (auto split: if_splits)

lemma scan_string_body:
  assumes "quotable s"
  shows "scan EXPECT_STRING lno (s @ 34 # rest) = (if s = [] then [] else [tok (unat OP_LIT_STRING) s (lno + newlines s)])
    @ tok STRING_END_TOKEN [34] (lno + newlines s) # scan INITIAL (lno + newlines s) rest"
proof -
  have e: "scan EXPECT_STRING l (34 # rest) = tok STRING_END_TOKEN [34] l # scan INITIAL l rest" for l
    by (simp add: string_body_def lit_def whole_def tok_def)
  show ?thesis
  proof (cases s)
    case (Cons c cs)
    have b: "body False (s @ 34 # rest) = length s" using assms body_quote by (simp add: quotable_def)
    then have "c \<noteq> 34" by (auto simp: Cons)
    then have "longest (rules EXPECT_STRING) (s @ 34 # rest) = (length s, length s, Some (EXPECT_STRING, Some (unat OP_LIT_STRING)))"
      using b by (simp add: string_body_def lit_def whole_def Cons del: body.simps)
    from scan_match [OF this] show ?thesis by (simp add: e Cons del: scan.simps)
  qed (use e in \<open>simp del: scan.simps\<close>)
qed

lemma scan_string:
  assumes "quotable s"
  shows "scan INITIAL lno (34 # s @ 34 # rest) = tok STRING_START_TOKEN [34] lno
    # (if s = [] then [] else [tok (unat OP_LIT_STRING) s (lno + newlines s)])
    @ tok STRING_END_TOKEN [34] (lno + newlines s) # scan INITIAL (lno + newlines s) rest"
proof -
  have "longest (rules INITIAL) (34 # s @ 34 # rest) = (1, 1, Some (EXPECT_STRING, Some STRING_START_TOKEN))"
    unfolding longest_no_word [OF no_words(4)]
    by (simp add: other_rules_def one_def is_ws_def comment_def number_def lit_def whole_def label_mark_def chars_def
        Let_def digit_def between_def ident_def alnum_def)
  then have "scan INITIAL lno (34 # s @ 34 # rest) = tok STRING_START_TOKEN [34] lno # scan EXPECT_STRING lno (s @ 34 # rest)"
    by (simp add: tok_def del: rules.simps)
  then show ?thesis using scan_string_body [OF assms, of lno rest] by simp
qed

lemma scan_file:
  "scan INITIAL lno (chars ''.file'' @ 32 # rest) = tok DIRECTIVE_FILE (chars ''.file'') lno # scan INITIAL lno (32 # rest)"
proof -
  have "longest (rules INITIAL) (chars ''.file'' @ 32 # rest) = (5, 5, Some (INITIAL, Some DIRECTIVE_FILE))"
    using longest_no_word [OF no_words(5), of "tl (chars ''.file'') @ 32 # rest"]
    by (simp add: chars_def other_rules_def one_def is_ws_def comment_def number_def lit_def whole_def label_mark_def
        Let_def digit_def between_def ident_def alnum_def)
  then show ?thesis using scan_match [of INITIAL "chars ''.file''" "32 # rest"]
    by (simp add: chars_def del: rules.simps scan.simps)
qed

text \<open>From here the scanner is read through these lemmas.\<close>

declare scan.simps(2) [simp del] rules.simps [simp del] longest.simps(2) [simp del]

end
