(* ===== verification/Vm_Exec.thy ===== *)
theory Vm_Exec
  imports Vm_Stack Asm_Text
begin

text \<open>
  Execution of assembled code: reading numbers from code, one round of the loop at a known opcode,
  and an abstract stack machine (\<open>pure_step\<close>, \<open>pure_run\<close>) for programs without jumps. The assembler
  turns the text of such a program into the code the machine then runs as the abstract one does; the
  printing of numbers and their scanning in the assembler are inverse.
\<close>

section \<open>The machine at a place in its code\<close>

definition at_code :: "'w vm \<Rightarrow> u8 list \<Rightarrow> nat \<Rightarrow> bool" where
  "at_code vm code i \<longleftrightarrow> (\<exists>ev. envs vm (env vm) = Some ev \<and> ip ev = of_nat i
     \<and> code_length ev = of_nat (length code) \<and> blobs vm (code_ref ev) = Some code)
     \<and> length code < 2 ^ 63"

definition advance :: "'w vm \<Rightarrow> u64 \<Rightarrow> 'w vm" where
  "advance vm n = vm\<lparr>envs := (envs vm)(env vm := map_option (\<lambda>e. e\<lparr>ip := ip e + n\<rparr>) (envs vm (env vm)))\<rparr>"

lemma advance_fields [simp]:
  "objs (advance vm n) = objs vm" "next_addr (advance vm n) = next_addr vm" "blobs (advance vm n) = blobs vm"
  "env (advance vm n) = env vm" "stack_root (advance vm n) = stack_root vm" "depth (advance vm n) = depth vm"
  "bool_obj (advance vm n) b = bool_obj vm b" "exit_status (advance vm n) = exit_status vm"
  "vm_true (advance vm n) = vm_true vm" "vm_false (advance vm n) = vm_false vm" "empty (advance vm n) = empty vm"
  by (simp_all add: advance_def bool_obj_def)

lemma stk_advance [simp]: "stk (advance vm n) xs = stk vm xs"
proof -
  have "stk_at (advance vm n) r xs = stk_at vm r xs" for r by (induction xs arbitrary: r) auto
  then show ?thesis by (simp add: stk_def)
qed

lemma good_advance: "good vm vm xs \<Longrightarrow> good (advance vm n) (advance vm n) xs"
proof -
  assume g: "good vm vm xs"
  then have "heap_ok vm" by (simp add: good_def)
  then have "heap_ok (advance vm n)" by (simp add: heap_ok_def) (simp add: advance_def)
  then show ?thesis using g by (simp add: good_def)
qed

lemma at_advance: "at_code vm code i \<Longrightarrow> at_code (advance vm (of_nat n)) code (i + n)"
  by (auto simp: at_code_def advance_def)

lemma at_quiet: "at_code vm code i \<Longrightarrow> quiet vm vm' \<Longrightarrow> at_code vm' code i"
  by (auto simp: at_code_def quiet_def)

lemma upd_ip: "at_code vm code i \<Longrightarrow> upd_env vm (env vm) (\<lambda>e. e\<lparr>ip := ip e + n\<rparr>) = Inr (advance vm n)"
  by (auto simp: at_code_def upd_env_def get_env_def advance_def)

lemma code_byte_at:
  assumes "at_code vm code i" "k < length code"
  shows "code_byte vm (of_nat k) = Inr (code ! k)"
proof -
  have "unat (of_nat k :: u64) = k" using assms by (simp add: at_code_def unat_of_nat)
  then show ?thesis using assms by (auto simp: at_code_def code_byte_def get_env_def)
qed

lemma read_bytes_at:
  fixes num :: u64
  assumes "at_code vm code i" "i + n \<le> length code"
  shows "read_bytes vm (of_nat i) n num = Inr (foldr (\<lambda>b m. push_bit 8 m OR ucast b) (take n (drop i code)) num)"
  using assms(2)
proof (induction n arbitrary: num)
  case (Suc n)
  have b: "code_byte vm (of_nat i + of_nat n) = Inr (code ! (i + n))"
    using code_byte_at [OF assms(1), of "i + n"] Suc.prems by simp
  have "take (Suc n) (drop i code) = take n (drop i code) @ [code ! (i + n)]"
    using Suc.prems by (simp add: take_Suc_conv_app_nth)
  then show ?case using b Suc by simp
qed simp

lemma parse_int_at:
  assumes "at_code vm code i" "i + 8 \<le> length code"
  shows "parse_int vm = Inr (advance vm 8, int_of_bytes (take 8 (drop i code)))"
proof -
  obtain ev where ev: "envs vm (env vm) = Some ev" "ip ev = of_nat i" using assms(1) by (auto simp: at_code_def)
  show ?thesis using ev read_bytes_at [OF assms, where num = 0] upd_ip [OF assms(1), where n = 8]
    by (simp add: parse_int_def get_env_def int_of_bytes_def)
qed

lemma running_at: "at_code vm code i \<Longrightarrow> i \<le> length code \<Longrightarrow> running vm = Inr (i < length code)"
  by (auto simp: at_code_def running_def get_env_def word_less_nat_alt unat_of_nat)

text \<open>One round of the loop at a known opcode.\<close>

lemma vm_step_at:
  assumes "at_code vm code i" "i < length code" "setup_instructions x (code ! i) = Some f"
  shows "vm_step x vm = f (advance vm 1)"
proof -
  obtain ev where ev: "envs vm (env vm) = Some ev" "ip ev = of_nat i" using assms(1) by (auto simp: at_code_def)
  show ?thesis using ev code_byte_at [OF assms(1,2)] upd_ip [OF assms(1), where n = 1] assms(3)
    by (simp add: vm_step_def get_env_def)
qed

section \<open>Straight-line programs\<close>

datatype pure_ins = Push_Int vm_int | Push_Bool bool | Arith u8 | Compare u8 | Negate | Swap_Top | Rot_Top | Dup_Top
  | Drop_Top | Push_Depth

datatype val = Int_Val vm_int | Bool_Val bool

definition arith :: "u8 \<Rightarrow> (vm_int \<Rightarrow> vm_int \<Rightarrow> vm_int option) option" where
  "arith c = map_of [(OP_ADD, \<lambda>i j. Some (i + j)), (OP_SUB, \<lambda>i j. Some (i - j)), (OP_MUL, \<lambda>i j. Some (i * j)),
     (OP_DIV, \<lambda>i j. if div_traps i j then None else Some (word_of_int (sint i sdiv sint j))),
     (OP_MOD, \<lambda>i j. if div_traps i j then None else Some (word_of_int (sint i smod sint j)))] c"

definition compare_fn :: "u8 \<Rightarrow> (vm_int \<Rightarrow> vm_int \<Rightarrow> bool) option" where
  "compare_fn c = map_of [(OP_NUMERIC_EQUAL, (=)), (OP_NUMERIC_LT, \<lambda>i j. sint i < sint j),
     (OP_NUMERIC_GT, \<lambda>i j. sint j < sint i)] c"

text \<open>The abstract machine: a stack of values.\<close>

fun pure_step :: "pure_ins \<Rightarrow> val list \<Rightarrow> val list option" where
  "pure_step (Push_Int i) vs = Some (Int_Val i # vs)"
| "pure_step (Push_Bool b) vs = Some (Bool_Val b # vs)"
| "pure_step (Arith c) (Int_Val j # Int_Val i # vs) =
     (case arith c of None \<Rightarrow> None | Some f \<Rightarrow> map_option (\<lambda>k. Int_Val k # vs) (f i j))"
| "pure_step (Compare c) (Int_Val j # Int_Val i # vs) = map_option (\<lambda>f. Bool_Val (f i j) # vs) (compare_fn c)"
| "pure_step Negate (v # vs) = Some (Bool_Val (v = Bool_Val False) # vs)"
| "pure_step Swap_Top (v # w # vs) = Some (w # v # vs)"
| "pure_step Rot_Top (u # v # w # vs) = Some (v # w # u # vs)"
| "pure_step Dup_Top (v # vs) = Some (v # v # vs)"
| "pure_step Drop_Top (v # vs) = Some vs"
| "pure_step Push_Depth vs = Some (Int_Val (of_nat (length vs)) # vs)"
| "pure_step _ _ = None"

fun pure_run :: "pure_ins list \<Rightarrow> val list \<Rightarrow> val list option" where
  "pure_run [] vs = Some vs"
| "pure_run (p # ps) vs = Option.bind (pure_step p vs) (pure_run ps)"

text \<open>The code of an instruction, and its assembler text.\<close>

fun pure_op :: "pure_ins \<Rightarrow> u8" where
  "pure_op (Push_Int i) = OP_LIT_FIXNUM"
| "pure_op (Push_Bool b) = (if b then OP_LIT_TRUE else OP_LIT_FALSE)"
| "pure_op (Arith c) = c"
| "pure_op (Compare c) = c"
| "pure_op Negate = OP_NOT"
| "pure_op Swap_Top = OP_SWAP"
| "pure_op Rot_Top = OP_ROT"
| "pure_op Dup_Top = OP_DUP_REF"
| "pure_op Drop_Top = OP_DROP"
| "pure_op Push_Depth = OP_DEPTH"

fun pure_code :: "pure_ins \<Rightarrow> u8 list" where
  "pure_code (Push_Int i) = OP_LIT_FIXNUM # INT_64 i"
| "pure_code p = [pure_op p]"

definition word_of :: "u8 \<Rightarrow> string" where
  "word_of c = (case List.find (\<lambda>(w, sc, k). k = c) words of None \<Rightarrow> [] | Some (w, sc, k) \<Rightarrow> w)"

definition pure_word :: "pure_ins \<Rightarrow> u8 list" where
  "pure_word p = (case p of Push_Int i \<Rightarrow> show_int i | _ \<Rightarrow> chars (word_of (pure_op p)))"

text \<open>One instruction on each line.\<close>

definition pure_text :: "pure_ins list \<Rightarrow> u8 list" where
  "pure_text ps = concat (map (\<lambda>p. pure_word p @ [10]) ps)"

text \<open>The object that holds a value.\<close>

fun holds :: "'w vm \<Rightarrow> addr \<Rightarrow> val \<Rightarrow> bool" where
  "holds vm a (Int_Val i) \<longleftrightarrow> objs vm a = Some \<lparr>otype = FIXNUM, ovalue = Integer i\<rparr>"
| "holds vm a (Bool_Val b) \<longleftrightarrow> objs vm a = Some \<lparr>otype = BOOL, ovalue = Boolean b\<rparr>"

definition has_stack :: "'w vm \<Rightarrow> val list \<Rightarrow> bool" where
  "has_stack vm vs \<longleftrightarrow> (\<exists>xs. good vm vm xs \<and> list_all2 (holds vm) xs vs)"


lemma holds_quiet: "holds vm a v \<Longrightarrow> good vm vm' xs \<Longrightarrow> holds vm' a v"
  by (cases v) (auto dest: good_old)

lemma holds_advance [simp]: "holds (advance vm n) a v = holds vm a v"
  by (cases v) simp_all

lemma holds_advance_fn: "holds (advance vm n) = holds vm"
  by (intro ext) simp

lemma holds_list_quiet: "list_all2 (holds vm) xs vs \<Longrightarrow> good vm vm' ys \<Longrightarrow> list_all2 (holds vm') xs vs"
  by (erule list_all2_mono) (blast intro: holds_quiet)

lemma good_self: "good vm0 vm xs \<Longrightarrow> good vm vm xs"
  by (simp add: good_def)

lemma has_stack_new:
  assumes "good vm vm' (a # xs)" "list_all2 (holds vm) xs vs" "holds vm' a v"
  shows "has_stack vm' (v # vs)"
  using holds_list_quiet [OF assms(2,1)] good_self [OF assms(1)] assms(3) unfolding has_stack_def by blast

text \<open>Every instruction but the literal number does to the objects what the abstract one does to the
  values.\<close>

lemma setup_pure:
  "setup_instructions x OP_LIT_FIXNUM = Some op_lit_64bit" "setup_instructions x OP_LIT_TRUE = Some op_lit_true"
  "setup_instructions x OP_LIT_FALSE = Some op_lit_false" "setup_instructions x OP_ADD = Some op_add"
  "setup_instructions x OP_SUB = Some op_sub" "setup_instructions x OP_MUL = Some op_mul"
  "setup_instructions x OP_DIV = Some op_div" "setup_instructions x OP_MOD = Some op_mod"
  "setup_instructions x OP_NUMERIC_EQUAL = Some op_numeric_equal"
  "setup_instructions x OP_NUMERIC_LT = Some op_numeric_lt" "setup_instructions x OP_NUMERIC_GT = Some op_numeric_gt"
  "setup_instructions x OP_NOT = Some op_not" "setup_instructions x OP_SWAP = Some op_swap"
  "setup_instructions x OP_ROT = Some op_rot" "setup_instructions x OP_DUP_REF = Some op_dup_ref"
  "setup_instructions x OP_DROP = Some op_drop" "setup_instructions x OP_DEPTH = Some op_depth"
  by (simp_all add: setup_instructions_def instructions_def op_codes)

lemma arith_run:
  assumes "arith c = Some f"
  shows "\<exists>h. setup_instructions x c = Some (NUMERIC_OP h) \<and> (\<forall>i j k. f i j = Some k \<longrightarrow> h i j = Inr k)"
  using assms
  by (auto simp: arith_def setup_pure op_add_def op_sub_def op_mul_def op_div_def op_mod_def split: if_splits)

lemma compare_run: "compare_fn c = Some f \<Longrightarrow> setup_instructions x c = Some (NUMERIC_LOGIC f)"
  by (auto simp: compare_fn_def setup_pure op_numeric_equal_def op_numeric_lt_def op_numeric_gt_def split: if_splits)

lemma gives_mono: "gives P r \<Longrightarrow> (\<And>x. P x \<Longrightarrow> Q x) \<Longrightarrow> gives Q r"
  by (auto simp: gives_def)

lemma holds_bool: "good vm vm' ys \<Longrightarrow> good vm vm xs \<Longrightarrow> holds vm' (bool_obj vm b) (Bool_Val b)"
  using good_const(3) [of vm vm xs b] good_old by auto

lemma holds_nat: "objs vm a = Some \<lparr>otype = FIXNUM, ovalue = Integer i\<rparr> \<Longrightarrow> holds vm a (Int_Val i)"
  by simp

lemma has_stack_good: "good vm vm' xs \<Longrightarrow> list_all2 (holds vm) xs vs \<Longrightarrow> has_stack vm' vs"
  using holds_list_quiet good_self unfolding has_stack_def by blast

definition does :: "'w vm \<Rightarrow> val list \<Rightarrow> 'w vm \<Rightarrow> bool" where
  "does vm vs vm' \<longleftrightarrow> (\<exists>ys. good vm vm' ys) \<and> has_stack vm' vs"

lemma gives_does_new:
  "gives (\<lambda>vm'. good vm vm' (a # ys)) r \<Longrightarrow> list_all2 (holds vm) ys vs \<Longrightarrow> (\<And>vm'. good vm vm' (a # ys) \<Longrightarrow> holds vm' a v)
    \<Longrightarrow> gives (does vm (v # vs)) r"
  by (erule gives_mono) (auto simp: does_def intro: has_stack_new)

lemma gives_does_good:
  "gives (\<lambda>vm'. good vm vm' ys) r \<Longrightarrow> list_all2 (holds vm) ys vs \<Longrightarrow> gives (does vm vs) r"
  by (erule gives_mono) (auto simp: does_def intro: has_stack_good)

lemma gives_does_bool:
  assumes "gives (\<lambda>vm'. good vm vm' (bool_obj vm b # ys)) r" "list_all2 (holds vm) ys vs" "good vm vm xs"
  shows "gives (does vm (Bool_Val b # vs)) r"
  by (rule gives_does_new [OF assms(1,2)]) (rule holds_bool [OF _ assms(3)])

lemma gives_does_num:
  "gives (\<lambda>vm'. \<exists>c. good vm vm' (c # ys) \<and> next_addr vm \<le> c
      \<and> objs vm' c = Some \<lparr>otype = FIXNUM, ovalue = Integer k\<rparr>) r \<Longrightarrow> list_all2 (holds vm) ys vs
    \<Longrightarrow> gives (does vm (Int_Val k # vs)) r"
  by (erule gives_mono) (auto simp: does_def intro: has_stack_new)

lemma pure_op_run:
  assumes g: "good vm vm xs" and l: "list_all2 (holds vm) xs vs" and p: "pure_step p vs = Some vs'" "\<forall>i. p \<noteq> Push_Int i"
  shows "\<exists>f. setup_instructions x (pure_op p) = Some f \<and> gives (does vm vs') (f vm)"
  using p
proof (cases rule: pure_step.cases [of "(p, vs)"])
  case (2 b vs0)
  then have "list_all2 (holds vm) xs vs0" using l by simp
  then have "gives (does vm vs') (Inr (vm_push vm (bool_obj vm b)))"
    using p 2 gives_does_new [OF gives_Inr, OF good_bool [OF g]] holds_bool [OF _ g] by auto
  then show ?thesis using 2 by (auto simp: setup_pure op_lit_true_def op_lit_false_def bool_obj_def)
next
  case (3 c j i vs0)
  then obtain f k where f: "arith c = Some f" "f i j = Some k" "vs' = Int_Val k # vs0" using p by (auto split: option.splits)
  obtain h where h: "setup_instructions x c = Some (NUMERIC_OP h)" "h i j = Inr k" using arith_run [OF f(1)] f(2) by blast
  obtain a b ys where xs: "xs = b # a # ys" "holds vm b (Int_Val j)" "holds vm a (Int_Val i)" "list_all2 (holds vm) ys vs0"
    using l 3 by (auto simp: list_all2_Cons2)
  have "gives (does vm vs') (NUMERIC_OP h vm)"
    unfolding f(3) using NUMERIC_OP_run [of vm b a ys i j h k] g xs h(2) by (intro gives_does_num [OF _ xs(4)]) simp
  then show ?thesis using h(1) 3 by simp
next
  case (4 c j i vs0)
  then obtain f where f: "compare_fn c = Some f" "vs' = Bool_Val (f i j) # vs0" using p by auto
  obtain a b ys where xs: "xs = b # a # ys" "holds vm b (Int_Val j)" "holds vm a (Int_Val i)" "list_all2 (holds vm) ys vs0"
    using l 4 by (auto simp: list_all2_Cons2)
  have "gives (does vm vs') (NUMERIC_LOGIC f vm)"
    unfolding f(2) using NUMERIC_LOGIC_run [of vm b a ys i j f] g xs by (intro gives_does_bool [OF _ xs(4) g]) auto
  then show ?thesis using compare_run [OF f(1), of x] 4 by auto
next
  case (5 v vs0)
  obtain a ys where xs: "xs = a # ys" "holds vm a v" "list_all2 (holds vm) ys vs0"
    using l 5 by (auto simp: list_all2_Cons2)
  obtain ob where ob: "objs vm a = Some ob" "(otype ob = BOOL \<and> \<not> boolean (ovalue ob)) = (v = Bool_Val False)"
    using xs(2) by (cases v) (auto simp: boolean_def)
  have v: "vs' = Bool_Val (v = Bool_Val False) # vs0" using p 5 by simp
  have "gives (does vm vs') (op_not vm)"
    unfolding v using op_not_run [of vm a ys ob] g xs(1) ob by (intro gives_does_bool [OF _ xs(3) g]) auto
  then show ?thesis using 5 by (simp add: setup_pure)
next
  case (6 v w vs0)
  then obtain a b ys where xs: "xs = a # b # ys" "list_all2 (holds vm) (b # a # ys) vs'"
    using l p by (auto simp: list_all2_Cons2)
  show ?thesis using op_swap_run [of vm a b ys] g xs 6 by (auto simp: setup_pure intro!: gives_does_good)
next
  case (7 u v w vs0)
  then obtain a b c ys where xs: "xs = a # b # c # ys" "list_all2 (holds vm) (b # c # a # ys) vs'"
    using l p by (auto simp: list_all2_Cons2)
  show ?thesis using op_rot_run [of vm a b c ys] g xs 7 by (auto simp: setup_pure intro!: gives_does_good)
next
  case (8 v vs0)
  then obtain a ys where xs: "xs = a # ys" "list_all2 (holds vm) (a # a # ys) vs'"
    using l p by (auto simp: list_all2_Cons2)
  show ?thesis using op_dup_run [of vm a ys] g xs 8 by (auto simp: setup_pure intro!: gives_does_good)
next
  case (9 v vs0)
  then obtain a ys where xs: "xs = a # ys" "list_all2 (holds vm) ys vs'"
    using l p by (auto simp: list_all2_Cons2)
  show ?thesis using op_drop_run [of vm a ys] g xs 9 by (auto simp: setup_pure intro!: gives_does_good)
next
  case (10 vs0)
  then have v: "vs' = Int_Val (of_nat (length xs)) # vs" using l p by (auto dest: list_all2_lengthD)
  have "gives (does vm vs') (op_depth vm)" unfolding v using op_depth_run [OF g] l by (rule gives_does_num)
  then show ?thesis using 10 by (simp add: setup_pure)
qed (use p in auto)


section \<open>Running a straight-line program\<close>

definition same_world :: "'w vm \<Rightarrow> 'w vm \<Rightarrow> bool" where
  "same_world vm vm' \<longleftrightarrow> exit_status vm' = exit_status vm \<and> out vm' = out vm \<and> world vm' = world vm"

lemma same_world_trans: "same_world vm vm1 \<Longrightarrow> same_world vm1 vm2 \<Longrightarrow> same_world vm vm2"
  by (simp add: same_world_def)

lemma same_world_advance [simp]: "same_world (advance vm n) vm' = same_world vm vm'"
  by (simp add: same_world_def advance_def)

lemma good_same_world: "good vm vm' xs \<Longrightarrow> same_world vm vm'"
  by (simp add: good_def quiet_def same_world_def)

lemma at_good: "at_code vm code i \<Longrightarrow> good vm vm' xs \<Longrightarrow> at_code vm' code i"
  by (simp add: good_def at_quiet)

lemma has_stack_advance: "has_stack vm vs \<Longrightarrow> has_stack (advance vm n) vs"
  unfolding has_stack_def holds_advance_fn using good_advance by blast

lemma op_lit_64bit_run:
  assumes "at_code vm code i" "take 8 (drop i code) = INT_64 n" "good vm vm xs" "list_all2 (holds vm) xs vs"
  shows "gives (\<lambda>vm'. (\<exists>ys. good (advance vm 8) vm' ys) \<and> has_stack vm' (Int_Val n # vs)) (op_lit_64bit vm)"
proof -
  have "8 \<le> length (drop i code)" using assms(2) by (metis length_INT_64 length_take min.cobounded1)
  then have le: "i + 8 \<le> length code" by simp
  have g: "good (advance vm 8) (advance vm 8) xs" by (rule good_advance [OF assms(3)])
  have l: "list_all2 (holds (advance vm 8)) xs vs" using assms(4) by (simp add: holds_advance_fn)
  have "gives (does (advance vm 8) (Int_Val n # vs))
      (case vm_new (advance vm 8) FIXNUM (Integer n) of (vm, ob) \<Rightarrow> Inr (vm_push vm ob))"
    by (rule gives_does_num [OF _ l], rule good_new [OF g]) (auto intro!: run exI dest: good_old [OF good_push])
  then show ?thesis
    by (simp add: op_lit_64bit_def parse_int_at [OF assms(1) le] assms(2) int_of_INT_64 does_def [abs_def])
qed

lemma pure_step_run:
  assumes "has_stack vm vs" "pure_step p vs = Some vs'" "at_code vm code i"
    "take (length (pure_code p)) (drop i code) = pure_code p"
  shows "\<exists>vm'. running vm = Inr True \<and> vm_step x vm = Inr vm' \<and> has_stack vm' vs'
    \<and> at_code vm' code (i + length (pure_code p)) \<and> same_world vm vm'"
proof -
  have pc: "pure_code p = pure_op p # tl (pure_code p)" by (cases p) simp_all
  have i: "i < length code" "code ! i = pure_op p"
  proof -
    show "i < length code" using assms(4) pc by (metis drop_eq_Nil2 linorder_not_le list.discI take_Nil)
    then show "code ! i = pure_op p" using assms(4) pc by (metis Cons_nth_drop_Suc list.inject length_Cons take_Suc_Cons)
  qed
  let ?v = "advance vm 1"
  obtain xs where xs: "good vm vm xs" "list_all2 (holds vm) xs vs" using assms(1) by (auto simp: has_stack_def)
  have g: "good ?v ?v xs" by (rule good_advance [OF xs(1)])
  have l: "list_all2 (holds ?v) xs vs" using xs(2) by (simp add: holds_advance_fn)
  have at: "at_code ?v code (i + 1)" using at_advance [OF assms(3), of 1] by simp
  have run: "running vm = Inr True" using running_at [OF assms(3)] i by simp
  show ?thesis
  proof (cases "\<exists>n. p = Push_Int n")
    case True
    then obtain n where n: "p = Push_Int n" ..
    then have t: "take 8 (drop (i + 1) code) = INT_64 n"
      using assms(4) i Cons_nth_drop_Suc [OF i(1)] by (metis Suc_eq_plus1 length_Cons length_INT_64 list.inject pure_code.simps(1) take_Suc_Cons)
    from op_lit_64bit_run [OF at t g l] obtain vm' ys where v: "op_lit_64bit ?v = Inr vm'" "good (advance ?v 8) vm' ys"
      "has_stack vm' (Int_Val n # vs)" by (auto simp: gives_def)
    have "vm_step x vm = Inr vm'" using vm_step_at [OF assms(3) i(1), of x op_lit_64bit] i(2) n v(1) by (simp add: setup_pure)
    moreover have "at_code vm' code (i + 1 + 8)" using at_good [OF _ v(2)] at_advance [OF at, of 8] by simp
    moreover have "same_world vm vm'" using good_same_world [OF v(2)] by simp
    ultimately show ?thesis using run v(3) assms(2) n by (auto simp: add.commute)
  next
    case False
    then obtain f where f: "setup_instructions x (pure_op p) = Some f" "gives (does ?v vs') (f ?v)"
      using pure_op_run [OF g l assms(2), of x] by auto
    then obtain vm' ys where v: "f ?v = Inr vm'" "good ?v vm' ys" "has_stack vm' vs'" by (auto simp: gives_def does_def)
    have "length (pure_code p) = 1" using False by (cases p) simp_all
    then show ?thesis using run v vm_step_at [OF assms(3) i(1)] f(1) i(2) at_good [OF at v(2)] good_same_world [OF v(2)] by auto
  qed
qed

lemma pure_run_eval:
  "pure_run ps vs = Some vs' \<Longrightarrow> has_stack vm vs \<Longrightarrow> at_code vm code i \<Longrightarrow> i \<le> length code \<Longrightarrow> drop i code = concat (map pure_code ps)
    \<Longrightarrow> \<exists>vm'. eval_loop (Suc (length ps)) x vm = Some (Inr vm') \<and> has_stack vm' vs' \<and> same_world vm vm'"
proof (induction ps arbitrary: vs vm i)
  case Nil
  then have "running vm = Inr False" using running_at [of vm code i] by auto
  then show ?case using Nil by (simp add: same_world_def)
next
  case (Cons p ps)
  then obtain vs1 where s: "pure_step p vs = Some vs1" "pure_run ps vs1 = Some vs'" by (auto split: bind_splits)
  obtain vm1 where v: "running vm = Inr True" "vm_step x vm = Inr vm1" "has_stack vm1 vs1"
      "at_code vm1 code (i + length (pure_code p))" "same_world vm vm1"
    using pure_step_run [OF Cons.prems(2) s(1) Cons.prems(3), of x] Cons.prems(5) by auto
  have le: "i + length (pure_code p) \<le> length code"
    using arg_cong [OF Cons.prems(5), of length] Cons.prems(4) by simp
  have "drop (length (pure_code p)) (drop i code) = concat (map pure_code ps)"
    unfolding Cons.prems(5) by simp
  then have "drop (i + length (pure_code p)) code = concat (map pure_code ps)" by (simp add: add.commute)
  then obtain vm2 where "eval_loop (Suc (length ps)) x vm1 = Some (Inr vm2)" "has_stack vm2 vs'" "same_world vm1 vm2"
    using Cons.IH [OF s(2) v(3,4) le] by blast
  moreover have "eval_loop (Suc (length (p # ps))) x vm = eval_loop (Suc (length ps)) x vm1"
    using v(1,2) by (subst eval_loop.simps(2)) simp
  ultimately show ?case using same_world_trans [OF v(5)] by auto
qed


section \<open>Assembling a straight-line program\<close>

lemma pure_op_cases:
  assumes "pure_step p vs = Some vs'" "\<forall>i. p \<noteq> Push_Int i"
  shows "pure_op p \<in> {OP_LIT_TRUE, OP_LIT_FALSE, OP_ADD, OP_SUB, OP_MUL, OP_DIV, OP_MOD, OP_NUMERIC_EQUAL, OP_NUMERIC_LT,
    OP_NUMERIC_GT, OP_NOT, OP_SWAP, OP_ROT, OP_DUP_REF, OP_DROP, OP_DEPTH}"
  using assms
  by (cases rule: pure_step.cases [of "(p, vs)"])
    (auto simp: arith_def compare_fn_def split: option.splits if_splits)

text \<open>The union of the imported simplifier rules has the scanner's equations again.\<close>

declare scan.simps(2) [simp del] rules.simps [simp del] longest.simps(2) [simp del]

lemma word_of_pure:
  assumes "c \<in> {OP_LIT_TRUE, OP_LIT_FALSE, OP_ADD, OP_SUB, OP_MUL, OP_DIV, OP_MOD, OP_NUMERIC_EQUAL, OP_NUMERIC_LT,
    OP_NUMERIC_GT, OP_NOT, OP_SWAP, OP_ROT, OP_DUP_REF, OP_DROP, OP_DEPTH}"
  shows "(word_of c, INITIAL, c) \<in> set words \<union> set more_words" "0 \<notin> set (chars (word_of c))"
    "unat c < OP_MAX_INS" "unat c \<notin> unat ` set jump_ops" "unat c \<noteq> unat OP_LIT_FIXNUM" "unat c \<noteq> unat OP_LIT_CHAR"
    "unat c \<noteq> STRING_START_TOKEN" "unat c \<noteq> SYMBOL_START_TOKEN"
  using assms by (elim insertE emptyE; simp add: word_of_def words_def op_codes chars_def jump_ops_def token_codes)+

lemma show_int_no_null: "0 \<notin> set (show_int i)"
  using show_nat_spec by (auto simp: show_int_def is_digit_def)

lemma pure_text_code:
  "pure_run ps vs = Some vs' \<Longrightarrow>
    simple_code (scan INITIAL lno (pure_text ps)) = Some (concat (map pure_code ps)) \<and> 0 \<notin> set (pure_text ps)"
proof (induction ps arbitrary: vs lno)
  case (Cons p ps)
  then obtain vs1 where p: "pure_step p vs = Some vs1" "pure_run ps vs1 = Some vs'" by (auto split: bind_splits)
  let ?r = "pure_text ps"
  have t: "pure_text (q # ps) = pure_word q @ 10 # ?r" for q by (simp add: pure_text_def)
  have sep: "sep 10" by (simp add: sep_def)
  note IH = Cons.IH [OF p(2), of "Suc lno"]
  show ?case
  proof (cases "\<exists>n. p = Push_Int n")
    case True
    then obtain n where n: "p = Push_Int n" ..
    then have "scan INITIAL lno (pure_text (p # ps)) = tok (unat OP_LIT_FIXNUM) (show_int n) lno # scan INITIAL (Suc lno) ?r"
      unfolding t using scan_number [OF sep, of lno n ?r] by (simp add: pure_word_def scan_newline)
    then show ?thesis using IH n show_int_no_null [of n] by (simp add: t tok_def strtoq_show_int pure_word_def)
  next
    case False
    then have c: "pure_op p \<in> {OP_LIT_TRUE, OP_LIT_FALSE, OP_ADD, OP_SUB, OP_MUL, OP_DIV, OP_MOD, OP_NUMERIC_EQUAL, OP_NUMERIC_LT,
      OP_NUMERIC_GT, OP_NOT, OP_SWAP, OP_ROT, OP_DUP_REF, OP_DROP, OP_DEPTH}" "pure_code p = [pure_op p]"
      "pure_word p = chars (word_of (pure_op p))"
      subgoal using pure_op_cases [OF p(1)] False by blast
      subgoal using False by (cases p) auto
      subgoal using False by (cases p) (auto simp: pure_word_def)
      done
    note w = word_of_pure [OF c(1)]
    have "scan INITIAL lno (pure_text (p # ps))
        = tok (unat (pure_op p)) (chars (word_of (pure_op p))) lno # scan INITIAL (Suc lno) ?r"
      unfolding t c(3) using scan_word [OF w(1) sep, of lno ?r] by (simp add: scan_newline)
    then show ?thesis using IH w c(2,3) by (simp add: t tok_def)
  qed
qed (simp add: pure_text_def)

lemma asm_string_pure:
  assumes "pure_run ps vs = Some vs'"
  shows "\<exists>d. asm_string (yyasm_scan (pure_text ps)) dbg = Inr (concat (map pure_code ps), d)"
  using pure_text_code [OF assms, of 1] by (intro asm_string_simple) (simp add: yyasm_scan_def)

end
