(* ===== verification/Vm_Control.thy ===== *)
theory Vm_Control
  imports Vm_Exec
begin

text \<open>
  What exceptions, jumps, calls and returns do: the frame \<open>kept\<close> of operations that enter another
  environment, the exception object and the handler that takes it, operands that lead to positions,
  and the closures calls leave behind.
\<close>

section \<open>What a machine keeps\<close>

text \<open>The machine has allocated, and may have entered another environment; what was there is as it was.\<close>

definition kept :: "'w vm \<Rightarrow> 'w vm \<Rightarrow> bool" where
  "kept vm vm' \<longleftrightarrow> next_addr vm \<le> next_addr vm'
     \<and> (\<forall>a<next_addr vm. objs vm' a = objs vm a \<and> blobs vm' a = blobs vm a \<and> envs vm' a = envs vm a
         \<and> tables vm' a = tables vm a \<and> vecs vm' a = vecs vm a)
     \<and> empty vm' = empty vm \<and> vm_true vm' = vm_true vm \<and> vm_false vm' = vm_false vm
     \<and> symbol_table vm' = symbol_table vm \<and> same_world vm vm'"

lemma kept_refl [simp]: "kept vm vm"
  by (simp add: kept_def same_world_def)

lemma kept_trans [trans]: "kept vm vm1 \<Longrightarrow> kept vm1 vm2 \<Longrightarrow> kept vm vm2"
  by (auto simp: kept_def same_world_def)

lemma quiet_kept: "quiet vm vm' \<Longrightarrow> kept vm vm'"
  by (simp add: quiet_def kept_def same_world_def)

lemma stk_at_kept: "stk_at vm r xs \<Longrightarrow> kept vm vm' \<Longrightarrow> stk_at vm' r xs"
  by (induction xs arbitrary: r) (auto simp: kept_def)

lemma kept_obj: "kept vm vm' \<Longrightarrow> heap_ok vm \<Longrightarrow> objs vm a = Some ob \<Longrightarrow> objs vm' a = Some ob"
  using heap_ok_below(1) [of vm a ob] by (auto simp: kept_def)

lemma kept_env: "kept vm vm' \<Longrightarrow> heap_ok vm \<Longrightarrow> envs vm a = Some ev \<Longrightarrow> envs vm' a = Some ev"
  using heap_ok_below(3) [of vm a ev] by (auto simp: kept_def)

lemma kept_blob: "kept vm vm' \<Longrightarrow> heap_ok vm \<Longrightarrow> blobs vm a = Some b \<Longrightarrow> blobs vm' a = Some b"
  using heap_ok_below(2) [of vm a b] by (auto simp: kept_def)

lemma stk_at_env [simp]:
  "stk_at (vm\<lparr>env := e\<rparr>) r xs = stk_at vm r xs" "stk_at (vm\<lparr>envs := f\<rparr>) r xs = stk_at vm r xs"
  "stk_at (vm\<lparr>depth := d\<rparr>) r xs = stk_at vm r xs" "stk_at (vm\<lparr>stack_root := s\<rparr>) r xs = stk_at vm r xs"
  by (induction xs arbitrary: r) auto

lemma stk_env [simp]: "stk (vm\<lparr>env := e\<rparr>) xs = stk vm xs" "stk (vm\<lparr>envs := f\<rparr>) xs = stk vm xs"
  by (simp_all add: stk_def)

text \<open>Pieces the instructions are made of. \<open>grows\<close>: they keep the heap's shape and the stack.\<close>

definition grows :: "'w vm \<Rightarrow> 'w vm \<Rightarrow> bool" where
  "grows vm vm' \<longleftrightarrow> heap_ok vm' \<and> kept vm vm' \<and> stack_root vm' = stack_root vm \<and> depth vm' = depth vm \<and> env vm' = env vm"

lemma grows_refl: "heap_ok vm \<Longrightarrow> grows vm vm"
  by (simp add: grows_def)

lemma grows_trans [trans]: "grows vm vm1 \<Longrightarrow> grows vm1 vm2 \<Longrightarrow> grows vm vm2"
  by (auto simp: grows_def intro: kept_trans)

lemma new_grows:
  assumes "heap_ok vm" "ty \<noteq> EMPTY" "vm_new vm ty v = (vm', a)"
  shows "grows vm vm' \<and> a \<noteq> 0 \<and> next_addr vm \<le> a \<and> a < next_addr vm' \<and> objs vm' a = Some \<lparr>otype = ty, ovalue = v\<rparr>"
  using vm_new_ok [OF assms] quiet_kept by (auto simp: grows_def quiet_def)

lemma cons_grows:
  assumes "heap_ok vm" "cons vm x r = (vm', p)" "x \<noteq> 0" "stk_at vm r xs"
  shows "grows vm vm' \<and> stk_at vm' p (x # xs) \<and> p \<noteq> 0"
proof -
  have n: "grows vm vm' \<and> p \<noteq> 0 \<and> p < next_addr vm' \<and> objs vm' p = Some \<lparr>otype = PAIR, ovalue = Pair x r\<rparr>"
    using new_grows [OF assms(1), of PAIR "Pair x r"] assms(2) by (simp add: cons_def)
  then show ?thesis using stk_at_kept [OF assms(4)] assms(3) by (auto simp: grows_def)
qed

lemma cons_all_grows:
  "heap_ok vm \<Longrightarrow> cons_all vm obs r = (vm', p) \<Longrightarrow> \<forall>x\<in>set obs. x \<noteq> 0 \<Longrightarrow> stk_at vm r xs
    \<Longrightarrow> grows vm vm' \<and> stk_at vm' p (rev obs @ xs)"
proof (induction obs arbitrary: vm r xs)
  case (Cons x obs)
  obtain vm1 q where c: "cons vm x r = (vm1, q)" by force
  have g: "grows vm vm1" "stk_at vm1 q (x # xs)" using cons_grows [OF Cons.prems(1) c] Cons.prems by simp_all
  then have "grows vm1 vm' \<and> stk_at vm' p (rev obs @ x # xs)"
    using Cons.prems c by (intro Cons.IH) (auto simp: grows_def)
  then show ?case using grows_trans [OF g(1)] by simp
qed (simp add: grows_refl)

lemma stk_grows: "stk vm xs \<Longrightarrow> grows vm vm' \<Longrightarrow> stk vm' xs"
  using stk_at_kept by (auto simp: stk_def grows_def)

lemma vm_push_grows:
  assumes "heap_ok vm" "stk vm xs" "x \<noteq> 0"
  shows "heap_ok (vm_push vm x) \<and> kept vm (vm_push vm x) \<and> env (vm_push vm x) = env vm \<and> stk (vm_push vm x) (x # xs)"
  using vm_push_ok [OF assms] quiet_kept by (auto simp: quiet_def)

lemma alloc_env_grows:
  assumes "heap_ok vm" "alloc_env vm ev = (vm', a)"
  shows "grows vm vm' \<and> a = next_addr vm \<and> next_addr vm' = a + 1 \<and> envs vm' = (envs vm)(a \<mapsto> ev)"
proof -
  have "objs vm a = None" using assms heap_ok_def by (auto simp: alloc_env_def)
  then show ?thesis using assms by (auto simp: alloc_env_def grows_def heap_ok_def kept_def same_world_def)
qed

lemma clone_env_copy:
  assumes "heap_ok vm" "envs vm e = Some ev"
  shows "\<exists>vm' a. clone_env vm e False = Inr (vm', a) \<and> grows vm vm' \<and> next_addr vm \<le> a \<and> a < next_addr vm' \<and> envs vm' = (envs vm)(a \<mapsto> ev)"
proof -
  obtain vm' a where a: "alloc_env vm ev = (vm', a)" by force
  then show ?thesis using alloc_env_grows [OF assms(1) a] assms(2) by (auto simp: clone_env_def get_env_def)
qed

text \<open>An object may be changed that did not exist at the start.\<close>

lemma set_new_grows:
  assumes "grows vm vm1" "next_addr vm \<le> a" "a < next_addr vm1" "a \<notin> {empty vm, vm_true vm, vm_false vm}"
  shows "grows vm (set_obj vm1 a ob)"
  using assms by (auto simp: grows_def kept_def heap_ok_def set_obj_def same_world_def)

lemma make_string_grows:
  assumes "heap_ok vm" "length msg < 2 ^ 62" "0 \<notin> set msg"
  shows "\<exists>vm' a p. vm_make_string vm msg (of_nat (length msg)) = Inr (vm', a) \<and> grows vm vm' \<and> a \<noteq> 0 \<and> next_addr vm \<le> a
    \<and> a < next_addr vm' \<and> envs vm' = envs vm
    \<and> objs vm' a = Some \<lparr>otype = STRING, ovalue = Block (of_nat (length msg)) p\<rparr> \<and> blobs vm' p = Some (msg @ [0])"
proof -
  have l: "unat (of_nat (length msg) :: vm_int) = length msg" "unat (of_nat (length msg) + 1 :: vm_int) = length msg + 1"
    using assms(2) by (simp_all add: unat_of_nat unat_word_ariths)
  let ?a = "next_addr vm" and ?p = "next_addr vm + 1"
  let ?v = "vm\<lparr>objs := (objs vm)(?a \<mapsto> \<lparr>otype = STRING, ovalue = Block (of_nat (length msg)) ?p\<rparr>),
     blobs := (blobs vm)(?p \<mapsto> msg @ [0]), next_addr := ?p + 1\<rparr>"
  have "strncpy_bytes msg (length msg) = msg" using assms(3) by (simp add: strncpy_bytes_def)
  moreover have "drop (length msg) (0 # replicate (length msg) 0) = [0 :: u8]"
    by (simp only: replicate_Suc [symmetric] drop_replicate) simp
  ultimately have "vm_make_string vm msg (of_nat (length msg)) = Inr (?v, ?a)"
    using assms(2) l by (simp add: vm_make_string_def vm_alloc_def alloc_object_def alloc_blob_def block_size_def set_obj_def)
  moreover have "grows vm ?v" using assms(1)
    by (auto simp: grows_def heap_ok_def kept_def same_world_def)
  moreover have "?a \<noteq> 0" using assms(1) by (simp add: heap_ok_def)
  ultimately show ?thesis by (intro exI [of _ ?v] exI [of _ ?a] exI [of _ ?p]) simp
qed

section \<open>Exceptions\<close>

text \<open>The handler of an environment: its own or that of the nearest parent that has one.\<close>

inductive handled_by :: "'w vm \<Rightarrow> addr \<Rightarrow> addr \<Rightarrow> bool" for vm where
  own: "envs vm e = Some ev \<Longrightarrow> handler ev \<Longrightarrow> handled_by vm e e"
| parents: "envs vm e = Some ev \<Longrightarrow> \<not> handler ev \<Longrightarrow> handled_by vm (parent ev) h \<Longrightarrow> handled_by vm e h"

inductive_cases handled_byE: "handled_by vm e h"

lemma find_handler_handled:
  assumes "env_ok vm" "\<forall>e ev. envs vm e = Some ev \<longrightarrow> envs vm' e = Some ev" "handled_by vm e h" "e < n"
  shows "find_handler n vm' e = Inr h"
  using assms(3,4)
proof (induction arbitrary: n rule: handled_by.induct)
  case (own e ev)
  then show ?case using env_parent [OF assms(1) own(1)] assms(2) by (cases n) (auto simp: get_env_def)
next
  case (parents e ev h)
  obtain m where "n = Suc m" using parents.prems by (cases n) auto
  then show ?case using env_parent [OF assms(1) parents(1)] assms(2) parents by (auto simp: get_env_def)
qed

lemma find_handler_none:
  assumes "env_ok vm" "\<forall>e ev. envs vm e = Some ev \<longrightarrow> envs vm' e = Some ev" "\<forall>h. \<not> handled_by vm e h"
    "e \<noteq> 0 \<longrightarrow> envs vm e \<noteq> None" "e < n"
  shows "find_handler n vm' e = Inr 0"
  using assms(3-5)
proof (induction n arbitrary: e)
  case (Suc n)
  show ?case
  proof (cases "e = 0")
    case False
    then obtain ev where ev: "envs vm e = Some ev" using Suc.prems(2) by auto
    have "\<not> handler ev" "\<forall>h. \<not> handled_by vm (parent ev) h"
      using Suc.prems(1) ev handled_by.intros by blast+
    moreover have "parent ev < n" "parent ev \<noteq> 0 \<longrightarrow> envs vm (parent ev) \<noteq> None"
      using env_parent [OF assms(1) ev] Suc.prems(3) by auto
    ultimately show ?thesis using Suc.IH [of "parent ev"] False ev assms(2) by (simp add: get_env_def)
  qed simp
qed simp

text \<open>The exception object: a list of the message, the place of the throw, and the objects.\<close>

definition exception :: "'w vm \<Rightarrow> addr \<Rightarrow> u8 list \<Rightarrow> env \<Rightarrow> addr list \<Rightarrow> bool" where
  "exception vm x msg ev args \<longleftrightarrow> (\<exists>m c n p e. stk_at vm x (m # c # rev args)
     \<and> objs vm m = Some \<lparr>otype = STRING, ovalue = Block n p\<rparr> \<and> n = of_nat (length msg) \<and> blobs vm p = Some (msg @ [0])
     \<and> objs vm c = Some \<lparr>otype = CLOSURE, ovalue = Closure e\<rparr> \<and> envs vm e = Some ev)"

lemma exception_kept: "exception vm x msg ev args \<Longrightarrow> heap_ok vm \<Longrightarrow> kept vm vm' \<Longrightarrow> exception vm' x msg ev args"
  unfolding exception_def
  by (elim exE conjE, intro exI conjI)
    (erule (1) stk_at_kept, erule (2) kept_obj [rotated], assumption, erule (2) kept_blob [rotated],
      erule (2) kept_obj [rotated], erule (2) kept_env [rotated])

lemma throw_start:
  assumes h: "heap_ok vm" and s: "stk vm xs" and ev: "envs vm (env vm) = Some ev" and a: "\<forall>x\<in>set args. x \<noteq> 0"
    and m: "length msg < 2 ^ 62" "0 \<notin> set msg"
  shows "\<exists>v x. throw vm msg args = rbind (find_handler (next_addr v) v (env v)) (\<lambda>h.
        if h = 0 then Inl Assert_Failed
        else rbind (clone_env v h False) (\<lambda>(vm, e).
             upd_env (vm\<lparr>env := e\<rparr>) e (\<lambda>ev. ev\<lparr>handler := False, ip := handler_addr ev\<rparr>)))
    \<and> heap_ok v \<and> kept vm v \<and> env v = env vm \<and> stk v (x # xs) \<and> exception v x msg ev args"
proof -
  obtain v1 p1 where c1: "cons_all vm args (empty vm) = (v1, p1)" by force
  have "stk_at vm (empty vm) []" using h heap_ok_below(1) [OF h, of "empty vm"] by (auto simp: heap_ok_def)
  from cons_all_grows [OF h c1 a this] have g1: "grows vm v1" "stk_at v1 p1 (rev args)" by simp_all
  obtain v2 c where c2: "vm_alloc v1 CLOSURE = (v2, c)" by force
  have "vm_new v1 CLOSURE Zeroed = (v2, c)"
    using c2 by (auto simp: vm_new_def vm_alloc_def alloc_object_def set_obj_def)
  moreover have h1: "heap_ok v1" using g1 by (simp add: grows_def)
  ultimately have g2: "grows v1 v2" "c \<noteq> 0" "next_addr v1 \<le> c" "c < next_addr v2"
    using new_grows [OF h1, of CLOSURE Zeroed v2 c] by auto
  have g12: "grows vm v2" using g1 g2 grows_trans by blast
  then have e2: "envs v2 (env v2) = Some ev" using kept_env [OF _ h ev] by (simp add: grows_def)
  have h2: "heap_ok v2" using g2 by (simp add: grows_def)
  obtain v3 e where c3: "clone_env v2 (env v2) False = Inr (v3, e)" "grows v2 v3" "next_addr v2 \<le> e"
    "envs v3 = (envs v2)(e \<mapsto> ev)" using clone_env_copy [OF h2 e2] by auto
  let ?v4 = "set_obj v3 c \<lparr>otype = CLOSURE, ovalue = Closure e\<rparr>"
  have "c \<notin> {empty vm, vm_true vm, vm_false vm}"
    using heap_ok_below(1) [OF h] h g1(1) g2(3) unfolding heap_ok_def grows_def kept_def by fastforce
  then have "c \<notin> {empty v1, vm_true v1, vm_false v1}" using g1 by (auto simp: grows_def kept_def)
  moreover have "grows v1 v3" using g2 c3 grows_trans by blast
  ultimately have g4: "grows v1 ?v4" using g2(3,4) c3(2) set_new_grows [of v1 v3 c] by (auto simp: grows_def kept_def)
  have h4: "heap_ok ?v4" using g4 by (simp add: grows_def)
  have s4: "stk_at ?v4 p1 (rev args)" using stk_at_kept [OF g1(2)] g4 by (simp add: grows_def)
  have o4: "objs ?v4 c = Some \<lparr>otype = CLOSURE, ovalue = Closure e\<rparr>" "envs ?v4 e = Some ev" using c3 by (simp_all add: set_obj_def)
  obtain v5 p5 where c5: "cons ?v4 c p1 = (v5, p5)" by force
  have g5: "grows ?v4 v5" "stk_at v5 p5 (c # rev args)" using cons_grows [OF h4 c5 g2(2) s4] by simp_all
  have h5: "heap_ok v5" using g5 by (simp add: grows_def)
  obtain v6 m p where c6: "vm_make_string v5 msg (of_nat (length msg)) = Inr (v6, m)" "grows v5 v6" "m \<noteq> 0"
    "objs v6 m = Some \<lparr>otype = STRING, ovalue = Block (of_nat (length msg)) p\<rparr>" "blobs v6 p = Some (msg @ [0])"
    using make_string_grows [OF h5 m] by blast
  have h6: "heap_ok v6" using c6 by (simp add: grows_def)
  have s6: "stk_at v6 p5 (c # rev args)" using stk_at_kept [OF g5(2), of v6] c6(2) unfolding grows_def by blast
  obtain v7 x where c7: "cons v6 m p5 = (v7, x)" by force
  have g7: "grows v6 v7" "stk_at v7 x (m # c # rev args)" "x \<noteq> 0" using cons_grows [OF h6 c7 c6(3) s6] by simp_all
  have h7: "heap_ok v7" using g7 by (simp add: grows_def)
  have gv: "grows vm v7" using g1(1) g4 g5(1) c6(2) g7(1) grows_trans by metis
  have k4: "kept ?v4 v7" using g5(1) c6(2) g7(1) kept_trans by (metis grows_def)
  have ex: "exception v7 x msg ev args"
    unfolding exception_def
    using g7(2) kept_obj [OF _ h6 c6(4)] kept_blob [OF _ h6 c6(5)] g7(1) kept_obj [OF k4 h4 o4(1)] kept_env [OF k4 h4 o4(2)]
    by (auto simp: grows_def)
  let ?v = "vm_push v7 x"
  have s7: "stk v7 xs" using stk_grows [OF s gv] .
  have pv: "heap_ok ?v" "kept v7 ?v" "env ?v = env v7" "stk ?v (x # xs)" using vm_push_grows [OF h7 s7 g7(3)] by simp_all
  have "throw vm msg args = rbind (find_handler (next_addr ?v) ?v (env ?v)) (\<lambda>h.
        if h = 0 then Inl Assert_Failed
        else rbind (clone_env ?v h False) (\<lambda>(vm, e).
             upd_env (vm\<lparr>env := e\<rparr>) e (\<lambda>ev. ev\<lparr>handler := False, ip := handler_addr ev\<rparr>)))"
    unfolding throw_def c1 Let_def prod.case c2 c3(1) rbind_Inr c5 c_str_id [OF m(2)] c6(1) c7 ..
  moreover have "kept vm ?v" "env ?v = env vm" using gv pv(2,3) kept_trans by (auto simp: grows_def)
  moreover have "exception ?v x msg ev args" by (rule exception_kept [OF ex h7 pv(2)])
  ultimately show ?thesis using pv by blast
qed


lemma throw_handled:
  assumes "env_ok vm" "heap_ok vm" "stk vm xs" "envs vm (env vm) = Some ev" "\<forall>x\<in>set args. x \<noteq> 0"
    "length msg < 2 ^ 62" "0 \<notin> set msg" "handled_by vm (env vm) h"
  shows "\<exists>vm' x hv. throw vm msg args = Inr vm' \<and> kept vm vm' \<and> heap_ok vm' \<and> stk vm' (x # xs) \<and> exception vm' x msg ev args
    \<and> envs vm h = Some hv \<and> envs vm' (env vm') = Some (hv\<lparr>handler := False, ip := handler_addr hv\<rparr>)"
proof -
  obtain v x where t: "throw vm msg args = rbind (find_handler (next_addr v) v (env v)) (\<lambda>h.
        if h = 0 then Inl Assert_Failed
        else rbind (clone_env v h False) (\<lambda>(vm, e).
             upd_env (vm\<lparr>env := e\<rparr>) e (\<lambda>ev. ev\<lparr>handler := False, ip := handler_addr ev\<rparr>)))"
    "heap_ok v" "kept vm v" "env v = env vm" "stk v (x # xs)" "exception v x msg ev args"
    using throw_start [OF assms(2-7)] by blast
  obtain hv where hv: "envs vm h = Some hv" using assms(8) by (induction rule: handled_by.induct) auto
  have hh: "h \<noteq> 0" using env_parent [OF assms(1) hv] by simp
  have o: "\<forall>e ev. envs vm e = Some ev \<longrightarrow> envs v e = Some ev" using kept_env [OF t(3) assms(2)] by blast
  have "env vm < next_addr v" using heap_ok_below(3) [OF assms(2,4)] t(3) by (simp add: kept_def)
  then have f: "find_handler (next_addr v) v (env v) = Inr h"
    using find_handler_handled [OF assms(1) o assms(8)] t(4) by simp
  have "envs v h = Some hv" using kept_env [OF t(3) assms(2) hv] .
  from clone_env_copy [OF t(2) this] obtain v1 e where c: "clone_env v h False = Inr (v1, e)" "grows v v1"
    "next_addr v \<le> e" "e < next_addr v1" "envs v1 = (envs v)(e \<mapsto> hv)" by blast
  let ?w = "v1\<lparr>env := e, envs := (envs v1)(e \<mapsto> hv\<lparr>handler := False, ip := handler_addr hv\<rparr>)\<rparr>"
  have r: "throw vm msg args = Inr ?w" using t(1) f hh c(1,5) by (simp add: upd_env_def get_env_def)
  have k: "kept v ?w" using c(2,3) by (auto simp: grows_def kept_def same_world_def)
  have hw: "heap_ok ?w" using c(2,4) by (auto simp: grows_def heap_ok_def)
  have "stk ?w (x # xs)" using stk_grows [OF t(5) c(2)] by simp
  moreover have "exception ?w x msg ev args" by (rule exception_kept [OF t(6,2) k])
  ultimately show ?thesis using r kept_trans [OF t(3) k] hw hv by (intro exI [of _ ?w] exI [of _ x] exI [of _ hv]) simp
qed

lemma throw_unhandled:
  assumes "env_ok vm" "heap_ok vm" "stk vm xs" "envs vm (env vm) = Some ev" "\<forall>x\<in>set args. x \<noteq> 0"
    "length msg < 2 ^ 62" "0 \<notin> set msg" "\<forall>h. \<not> handled_by vm (env vm) h"
  shows "throw vm msg args = Inl Assert_Failed"
proof -
  obtain v x where t: "throw vm msg args = rbind (find_handler (next_addr v) v (env v)) (\<lambda>h.
        if h = 0 then Inl Assert_Failed
        else rbind (clone_env v h False) (\<lambda>(vm, e).
             upd_env (vm\<lparr>env := e\<rparr>) e (\<lambda>ev. ev\<lparr>handler := False, ip := handler_addr ev\<rparr>)))"
    "heap_ok v" "kept vm v" "env v = env vm" "stk v (x # xs)" "exception v x msg ev args"
    using throw_start [OF assms(2-7)] by blast
  have o: "\<forall>e ev. envs vm e = Some ev \<longrightarrow> envs v e = Some ev" using kept_env [OF t(3) assms(2)] by blast
  have "env vm < next_addr v" using heap_ok_below(3) [OF assms(2,4)] t(3) by (simp add: kept_def)
  then have "find_handler (next_addr v) v (env v) = Inr 0"
    using find_handler_none [OF assms(1) o assms(8)] t(4) assms(4) by simp
  then show ?thesis using t(1) by simp
qed


section \<open>New tables and environments\<close>

text \<open>The machine with one more hash table, and where its parts are.\<close>

definition with_table :: "'w vm \<Rightarrow> 'w vm" where
  "with_table vm = vm\<lparr>hs := (hs vm)\<lparr>arrays := (arrays (hs vm))(next_array (hs vm) \<mapsto> [[], [], [], []]),
       next_array := next_array (hs vm) + 1\<rparr>,
     tables := (tables vm)(next_addr vm \<mapsto> \<lparr>table = next_array (hs vm), tsize = 4, entries = 0,
       copy_on_write = False\<rparr>), next_addr := next_addr vm + 1\<rparr>"

lemma with_table_fields [simp]:
  "objs (with_table vm) = objs vm" "blobs (with_table vm) = blobs vm" "envs (with_table vm) = envs vm"
  "env (with_table vm) = env vm" "next_addr (with_table vm) = next_addr vm + 1" "empty (with_table vm) = empty vm"
  "vm_true (with_table vm) = vm_true vm" "vm_false (with_table vm) = vm_false vm"
  "stack_root (with_table vm) = stack_root vm" "depth (with_table vm) = depth vm"
  "out_depth (with_table vm) = out_depth vm" "exit_status (with_table vm) = exit_status vm" "out (with_table vm) = out vm" "world (with_table vm) = world vm"
  by (simp_all add: with_table_def)

lemma vm_hash_create_run: "vm_hash_create vm = Inr (with_table vm, next_addr vm)"
  by (simp add: vm_hash_create_def hash_create_def alloc_array_def HASH_SIZE_def numeral_eq_Suc alloc_table_def with_table_def)

definition top_env :: "addr \<Rightarrow> env" where
  "top_env tbl = zero_env\<lparr>bindings := tbl\<rparr>"

definition with_env :: "'w vm \<Rightarrow> 'w vm" where
  "with_env vm = (let v = with_table (fst (alloc_env vm zero_env)) in
     v\<lparr>envs := (envs v)(next_addr vm \<mapsto> top_env (next_addr vm + 1)), env := next_addr vm\<rparr>)"

lemma push_env_top: "env vm = 0 \<Longrightarrow> push_env vm = Inr (with_env vm)"
  by (simp add: push_env_def alloc_env_def vm_hash_create_run upd_env_def get_env_def with_env_def top_env_def zero_env_def)

lemma with_env_fields [simp]:
  "objs (with_env vm) = objs vm" "blobs (with_env vm) = blobs vm"
  "envs (with_env vm) = (envs vm)(next_addr vm \<mapsto> top_env (next_addr vm + 1))"
  "env (with_env vm) = next_addr vm" "next_addr (with_env vm) = next_addr vm + 2" "empty (with_env vm) = empty vm"
  "vm_true (with_env vm) = vm_true vm" "vm_false (with_env vm) = vm_false vm"
  "stack_root (with_env vm) = stack_root vm" "depth (with_env vm) = depth vm"
  "out_depth (with_env vm) = out_depth vm" "exit_status (with_env vm) = exit_status vm" "out (with_env vm) = out vm" "world (with_env vm) = world vm"
  by (simp_all add: with_env_def alloc_env_def Let_def)


text \<open>A new environment below another.\<close>

definition child_env :: "addr \<Rightarrow> addr \<Rightarrow> env \<Rightarrow> env" where
  "child_env tbl e p = zero_env\<lparr>bindings := tbl, parent := e, code_ref := code_ref p, ip := ip p,
     code_length := code_length p, debug := debug p\<rparr>"

lemma push_env_run:
  assumes h: "heap_ok vm" and p: "envs vm (env vm) = Some p" "env vm \<noteq> 0"
  shows "\<exists>v. push_env vm = Inr v \<and> heap_ok v \<and> kept vm v \<and> stack_root v = stack_root vm \<and> depth v = depth vm
    \<and> env v = next_addr vm \<and> next_addr vm < next_addr v \<and> envs v = (envs vm)(next_addr vm \<mapsto> child_env (next_addr vm + 1) (env vm) p)
    \<and> blobs v = blobs vm \<and> objs v = objs vm"
proof -
  obtain v1 a where a1: "alloc_env vm zero_env = (v1, a)" by force
  have g1: "grows vm v1" "a = next_addr vm" "next_addr v1 = a + 1" "envs v1 = (envs vm)(a \<mapsto> zero_env)"
    "blobs v1 = blobs vm" "objs v1 = objs vm"
    using alloc_env_grows [OF h a1] a1 by (auto simp: alloc_env_def)
  have ne: "env vm \<noteq> a" using heap_ok_below(3) [OF h p(1)] g1(2) by simp
  let ?e = "child_env (a + 1) (env vm) p"
  let ?v = "(with_table v1)\<lparr>envs := (envs vm)(a \<mapsto> ?e), env := a\<rparr>"
  have "push_env vm = Inr ?v"
    using g1 p ne by (simp add: push_env_def a1 vm_hash_create_run upd_env_def get_env_def grows_def child_env_def)
  moreover have "heap_ok ?v" using g1 by (auto simp: grows_def heap_ok_def)
  moreover have "kept vm ?v" using g1 by (auto simp: grows_def kept_def same_world_def with_table_def)
  ultimately show ?thesis using g1 by (intro exI [of _ ?v]) (simp add: grows_def)
qed

section \<open>Jumps\<close>

lemma at_jump:
  assumes "at_code vm code i" "of_nat i + n = (of_nat l :: u64)"
  shows "at_code (advance vm n) code l"
  using assms by (auto simp: at_code_def advance_def)

text \<open>An operand leads to a position when it is the distance from the address after it.\<close>

definition leads :: "u8 list \<Rightarrow> nat \<Rightarrow> nat \<Rightarrow> bool" where
  "leads code i l \<longleftrightarrow> i + 8 \<le> length code \<and> int_of_bytes (take 8 (drop i code)) = of_nat l - of_nat (i + 8)"

lemma parse_operand:
  assumes "at_code vm code i" "leads code i l"
  obtains target where "parse_int vm = Inr (advance vm 8, target)" "of_nat (i + 8) + target = (of_nat l :: u64)"
    "at_code (advance vm 8) code (i + 8)"
  using that parse_int_at [OF assms(1)] at_advance [OF assms(1), of 8] assms(2) by (simp add: leads_def)

lemma jump_by_at: "at_code vm code i \<Longrightarrow> jump_by vm n = Inr (advance vm n)"
  by (simp add: jump_by_def upd_ip)

lemma op_jmp_run:
  assumes "at_code vm code i" "leads code i l"
  shows "\<exists>n. op_jmp vm = Inr (advance vm n) \<and> at_code (advance vm n) code l"
proof -
  obtain t where t: "parse_int vm = Inr (advance vm 8, t)" "of_nat (i + 8) + t = (of_nat l :: u64)" "at_code (advance vm 8) code (i + 8)"
    by (rule parse_operand [OF assms])
  have "advance (advance vm 8) t = advance vm (8 + t)"
    by (auto simp: advance_def fun_eq_iff option.map_comp comp_def add.assoc)
  then show ?thesis using t(1) at_jump [OF t(3,2)] jump_by_at [OF t(3)] by (intro exI [of _ "8 + t"]) (simp add: op_jmp_def)
qed


lemma heap_ok_advance: "heap_ok vm \<Longrightarrow> heap_ok (advance vm n)"
  by (simp add: heap_ok_def) (simp add: advance_def)

lemma op_jnf_run:
  assumes "at_code vm code i" "leads code i l" "stk vm (a # xs)" "objs vm a = Some ob"
  shows "\<exists>vm'. op_jnf vm = Inr vm' \<and> stk vm' xs
    \<and> at_code vm' code (if otype ob = BOOL \<and> \<not> boolean (ovalue ob) then i + 8 else l)"
proof -
  obtain t where t: "parse_int vm = Inr (advance vm 8, t)" "of_nat (i + 8) + t = (of_nat l :: u64)" "at_code (advance vm 8) code (i + 8)"
    by (rule parse_operand [OF assms(1,2)])
  have s: "stk (advance vm 8) (a # xs)" using assms(3) by simp
  obtain v where v: "vm_pop (advance vm 8) = Inr (v, a)" "stk v xs" "quiet (advance vm 8) v" "objs v = objs (advance vm 8)"
    by (rule vm_pop_ok [OF s])
  have a: "at_code v code (i + 8)" by (rule at_quiet [OF t(3) v(3)])
  have "a \<noteq> 0" using assms(3) by (simp add: stk_def)
  then have ty: "is_type v a BOOL = Inr (otype ob = BOOL)" "get_obj v a = Inr ob"
    using v(4) assms(4) by (simp_all add: is_type_def get_obj_def)
  show ?thesis
    using t(1) v(1,2) a ty jump_by_at [OF a, of t] at_jump [OF a t(2)] by (auto simp: op_jnf_def)
qed

text \<open>The place a closure goes back to.\<close>

lemma op_call_run:
  assumes h: "heap_ok vm" "stk vm xs" and c: "at_code vm code i" "leads code i l" and e: "envs vm (env vm) = Some ev" "env vm \<noteq> 0"
  shows "\<exists>v k. op_call vm = Inr v \<and> heap_ok v \<and> kept (advance vm 8) v \<and> stk v (k # xs)
    \<and> objs v k = Some \<lparr>otype = CLOSURE, ovalue = Closure (env vm)\<rparr> \<and> at_code v code l
    \<and> (\<exists>ce. envs v (env v) = Some ce \<and> parent ce = env vm \<and> \<not> handler ce) \<and> env v \<noteq> env vm"
proof -
  obtain t where t: "parse_int vm = Inr (advance vm 8, t)" "of_nat (i + 8) + t = (of_nat l :: u64)" "at_code (advance vm 8) code (i + 8)"
    by (rule parse_operand [OF c])
  let ?a = "advance vm 8"
  obtain v1 k where k: "vm_new ?a CLOSURE (Closure (env vm)) = (v1, k)" by force
  have g1: "grows ?a v1" "k \<noteq> 0" "objs v1 k = Some \<lparr>otype = CLOSURE, ovalue = Closure (env vm)\<rparr>" "envs v1 = envs ?a" "blobs v1 = blobs vm"
    using new_grows [OF heap_ok_advance [OF h(1)] _ k] k by (auto simp: vm_new_eq)
  have s1: "heap_ok v1" "stk v1 xs" using g1(1) stk_grows [of ?a xs v1] h(2) by (simp_all add: grows_def)
  let ?v2 = "vm_push v1 k"
  have v2: "heap_ok ?v2" "kept v1 ?v2" "env ?v2 = env vm" "stk ?v2 (k # xs)" "envs ?v2 = envs ?a" "blobs ?v2 = blobs vm"
    using vm_push_grows [OF s1 g1(2)] g1(1,4,5) by (simp_all add: grows_def vm_push_eq)
  have e2: "envs ?v2 (env ?v2) = Some (ev\<lparr>ip := ip ev + 8\<rparr>)" "env ?v2 \<noteq> 0" using e v2(3,5) by (simp_all add: advance_def)
  obtain v3 where v3: "push_env ?v2 = Inr v3" "heap_ok v3" "kept ?v2 v3" "stack_root v3 = stack_root ?v2" "depth v3 = depth ?v2"
    "env v3 = next_addr ?v2" "envs v3 = (envs ?v2)(next_addr ?v2 \<mapsto> child_env (next_addr ?v2 + 1) (env ?v2) (ev\<lparr>ip := ip ev + 8\<rparr>))"
    "blobs v3 = blobs ?v2"
    using push_env_run [OF v2(1) e2] by blast
  have at: "at_code v3 code (i + 8)" using t(3) e v3(6-8) v2(5,6) by (auto simp: at_code_def child_env_def advance_def)
  have r: "op_call vm = Inr (advance v3 t)"
    using t(1) k v3(1) jump_by_at [OF at, of t] g1 by (simp add: op_call_def)
  have k3: "kept ?a v3" using g1(1) v2(2) v3(3) kept_trans by (metis grows_def)
  have lt: "env vm < next_addr ?v2" "env v3 = next_addr ?v2" using heap_ok_below(3) [OF v2(1) e2(1)] v2(3) v3(6) by simp_all
  have na: "next_addr ?a \<le> next_addr ?v2" using g1(1) v2(2) by (auto simp: grows_def kept_def)
  have "kept ?a (advance v3 t)"
    using k3 lt na by (auto simp: kept_def same_world_def) (auto simp: advance_def)
  moreover have "stk v3 (k # xs)" using stk_at_kept [OF _ v3(3)] v2(4) v3(4,5) by (simp add: stk_def del: stk_at.simps)
  then have "stk (advance v3 t) (k # xs)" by simp
  moreover have "objs (advance v3 t) k = Some \<lparr>otype = CLOSURE, ovalue = Closure (env vm)\<rparr>"
    using kept_obj [OF v3(3) v2(1)] kept_obj [OF v2(2) s1(1) g1(3)] by simp
  moreover have "at_code (advance v3 t) code l" by (rule at_jump [OF at t(2)])
  moreover have "envs (advance v3 t) (env v3) = Some ((child_env (next_addr ?v2 + 1) (env vm) (ev\<lparr>ip := ip ev + 8\<rparr>))\<lparr>ip := ip ev + 8 + t\<rparr>)"
    using v3(6,7) v2(3) by (simp add: advance_def child_env_def)
  ultimately show ?thesis using r heap_ok_advance [OF v3(2)] lt
    by (intro exI [of _ "advance v3 t"] exI [of _ k]) (simp add: child_env_def zero_env_def)
qed

lemma op_ret_run:
  assumes h: "heap_ok vm" "stk vm (k # xs)" "objs vm k = Some \<lparr>otype = CLOSURE, ovalue = Closure e\<rparr>" "envs vm e = Some ev"
  shows "\<exists>v. op_ret vm = Inr v \<and> heap_ok v \<and> kept vm v \<and> stk v xs \<and> envs v (env v) = Some ev"
proof -
  obtain v1 where v1: "vm_pop vm = Inr (v1, k)" "stk v1 xs" "quiet vm v1" "heap_ok vm \<longrightarrow> heap_ok v1" "objs v1 = objs vm"
    by (rule vm_pop_ok [OF h(2)])
  have "k \<noteq> 0" using h(2) by (simp add: stk_def)
  then have t: "is_type v1 k CLOSURE = Inr True" "closure_env v1 k = Inr e"
    using h(3) v1(5) by (simp_all add: is_type_def get_obj_def closure_env_def closure_def)
  have h1: "heap_ok v1" "envs v1 e = Some ev" using v1 h(1,4) by (simp_all add: quiet_def)
  obtain v2 a where c: "clone_env v1 e False = Inr (v2, a)" "grows v1 v2" "envs v2 = (envs v1)(a \<mapsto> ev)" "a < next_addr v2"
    using clone_env_copy [OF h1] by blast
  let ?v = "v2\<lparr>env := a\<rparr>"
  have "op_ret vm = Inr ?v" using v1(1) t c(1) by (simp add: op_ret_def)
  moreover have "kept v2 ?v" by (simp add: kept_def same_world_def)
  then have "kept vm ?v" using quiet_kept [OF v1(3)] c(2) kept_trans unfolding grows_def by blast
  moreover have "stk ?v xs" using stk_grows [OF v1(2) c(2)] by simp
  moreover have "heap_ok v2" using c(2) by (simp add: grows_def)
  then have "heap_ok ?v" by (simp add: heap_ok_def)
  ultimately show ?thesis using c(3) by (intro exI [of _ ?v]) simp
qed

end
