(* ===== verification/Vm_Scope.thy ===== *)
theory Vm_Scope
  imports Vm_Control
begin

text \<open>
  Bindings: the tables of the machine as maps (the contract \<open>hash_key\<close> of a table's keys, met by
  pointers to strings), what binding and reading do through them, and a new machine.
\<close>

section \<open>The tables of the machine\<close>

interpretation vm_key: hash_key "key_hash bl" "key_cmp bl" for bl
  by unfold_locales (auto simp: key_hash_def key_cmp_def string_key.cmp_refl
    intro: string_key.cmp_sym string_key.cmp_trans string_key.cmp_hash)

lemma key_cmp_EQ: "key_cmp bl p q = EQ \<longleftrightarrow> c_str (str_at bl p) = c_str (str_at bl q)"
  by (simp add: key_cmp_def hash_string_cmp_EQ)

abbreviation vm_table_ok :: "'w vm \<Rightarrow> hash_table \<Rightarrow> (addr \<times> addr) list list \<Rightarrow> bool" where
  "vm_table_ok vm \<equiv> table_ok (key_hash (blobs vm)) (key_cmp (blobs vm)) (hs vm)"

abbreviation vm_lookup :: "'w vm \<Rightarrow> (addr \<times> addr) list list \<Rightarrow> addr \<Rightarrow> addr option" where
  "vm_lookup vm \<equiv> b_lookup (key_hash (blobs vm)) (key_cmp (blobs vm))"

text \<open>The bindings of an environment.\<close>

definition env_table :: "'w vm \<Rightarrow> addr \<Rightarrow> (addr \<times> addr) list list \<Rightarrow> bool" where
  "env_table vm e bs \<longleftrightarrow> (\<exists>ev t. envs vm e = Some ev \<and> tables vm (bindings ev) = Some t \<and> vm_table_ok vm t bs)"

lemma env_table_get:
  assumes "env_table vm e bs" "blobs vm p \<noteq> None"
  shows "\<exists>ev. envs vm e = Some ev \<and> vm_hash_get vm (bindings ev) p = Inr (vm_lookup vm bs p)"
  using assms vm_key.hash_get_spec by (fastforce simp: env_table_def vm_hash_get_def)

text \<open>An object that is a symbol with the given name at the given place.\<close>

definition symbol :: "'w vm \<Rightarrow> addr \<Rightarrow> addr \<Rightarrow> u8 list \<Rightarrow> bool" where
  "symbol vm k p name \<longleftrightarrow> k \<noteq> 0 \<and> (\<exists>n. objs vm k = Some \<lparr>otype = SYMBOL, ovalue = Block n p\<rparr>) \<and> blobs vm p = Some name"

lemma symbol_type: "symbol vm k p name \<Longrightarrow> is_type vm k SYMBOL = Inr True \<and> key_of vm k = Inr p"
  by (auto simp: symbol_def is_type_def get_obj_def key_of_def block_def)

lemma op_bind_run:
  assumes s: "heap_ok vm" "stk vm (k # v # xs)" and k: "symbol vm k p name" and t: "env_table vm (env vm) bs"
  shows "\<exists>vm' bs'. op_bind vm = Inr vm' \<and> heap_ok vm' \<and> stk vm' xs \<and> objs vm' = objs vm \<and> blobs vm' = blobs vm
    \<and> envs vm' = envs vm \<and> env vm' = env vm \<and> next_addr vm' = next_addr vm \<and> env_table vm' (env vm) bs'
    \<and> (\<forall>q. vm_lookup vm bs' q = (if c_str (str_at (blobs vm) q) = c_str name then Some v else vm_lookup vm bs q))"
proof -
  obtain v1 where v1: "vm_pop vm = Inr (v1, k)" "stk v1 (v # xs)" "quiet vm v1" "heap_ok vm \<longrightarrow> heap_ok v1" "objs v1 = objs vm"
    "next_addr v1 = next_addr vm" by (rule vm_pop_ok [OF s(2)])
  obtain v2 where v2: "vm_pop v1 = Inr (v2, v)" "stk v2 xs" "quiet v1 v2" "heap_ok v1 \<longrightarrow> heap_ok v2" "objs v2 = objs v1"
    "next_addr v2 = next_addr v1" by (rule vm_pop_ok [OF v1(2)])
  have q: "quiet vm v2" using v1(3) v2(3) quiet_trans by blast
  have ty: "is_type v2 k SYMBOL = Inr True" "key_of v2 k = Inr p"
    using symbol_type [of v2 k p name] k q v1(5) v2(5) by (simp_all add: symbol_def quiet_def)
  obtain ev t where e: "envs vm (env vm) = Some ev" "tables vm (bindings ev) = Some t" "vm_table_ok vm t bs"
    using t by (auto simp: env_table_def)
  obtain st' t' bs' where h: "hash_set (key_hash (blobs vm)) (key_cmp (blobs vm)) (hs vm) t p v = Inr (st', t')"
    "table_ok (key_hash (blobs vm)) (key_cmp (blobs vm)) st' t' bs'"
    "\<forall>j. vm_lookup vm bs' j = (if key_cmp (blobs vm) p j = EQ then Some v else vm_lookup vm bs j)"
    by (rule vm_key.hash_set_spec [OF e(3), of p v]) blast
  let ?v = "v2\<lparr>hs := st', tables := (tables v2)(bindings ev \<mapsto> t')\<rparr>"
  have r: "op_bind vm = Inr ?v"
    using v1(1) v2(1) ty e h(1) q k by (simp add: op_bind_def get_env_def vm_hash_set_def quiet_def symbol_def)
  have n: "str_at (blobs vm) p = name" using k by (simp add: symbol_def str_at_def)
  have st: "stk_at ?v r ys = stk_at v2 r ys" for r ys by (induction ys arbitrary: r) auto
  then have "stk ?v xs" using v2(2) by (simp add: stk_def)
  moreover have "heap_ok ?v" using s(1) v1(4) v2(4) by (simp add: heap_ok_def)
  moreover have "env_table ?v (env vm) bs'" using e h(2) q by (simp add: env_table_def quiet_def)
  ultimately show ?thesis using r h(3) q v1(5,6) v2(5,6)
    by (intro exI [of _ ?v] exI [of _ bs']) (auto simp: quiet_def key_cmp_EQ n)
qed

text \<open>The environments from one to another, none of which binds the key.\<close>

inductive unbound :: "'w vm \<Rightarrow> addr \<Rightarrow> addr \<Rightarrow> addr \<Rightarrow> bool" for vm p where
  here: "unbound vm p e e"
| outer: "env_table vm e bs \<Longrightarrow> vm_lookup vm bs p = None \<Longrightarrow> envs vm e = Some ev \<Longrightarrow> unbound vm p (parent ev) e0
    \<Longrightarrow> unbound vm p e e0"

lemma find_env_bound:
  assumes "env_ok vm" "blobs vm p \<noteq> None" "env_table vm e0 bs0" "envs vm e0 = Some ev0" "vm_lookup vm bs0 p = Some v"
    "unbound vm p e e0" "e < n"
  shows "find_env n vm e p = Inr (Some (bindings ev0, v))"
  using assms(6,3,4,5,7)
proof (induction arbitrary: n rule: unbound.induct)
  case (here e)
  obtain m where n: "n = Suc m" using here by (cases n) auto
  show ?case using env_table_get [OF here(1) assms(2)] here(2,3) env_parent [OF assms(1) here(2)] n
    by (auto simp: get_env_def)
next
  case (outer e bs ev e0)
  obtain m where n: "n = Suc m" using outer by (cases n) auto
  have "find_env n vm e p = find_env m vm (parent ev) p"
    using env_table_get [OF outer(1) assms(2)] outer(2,3) env_parent [OF assms(1) outer(3)] n by (auto simp: get_env_def)
  moreover have "parent ev < m" using env_parent [OF assms(1) outer(3)] outer.prems(4) n by auto
  ultimately show ?case using outer.IH [OF outer.prems(1-3), of m] by simp
qed

lemma op_read_run:
  assumes s: "env_ok vm" "good vm vm (k # xs)" and k: "symbol vm k p name" and e: "env vm < next_addr vm"
    and b: "unbound vm p (env vm) e0" "env_table vm e0 bs0" "vm_lookup vm bs0 p = Some v" "v \<noteq> 0"
  shows "\<exists>vm'. op_read vm = Inr vm' \<and> good vm vm' (v # xs)"
proof -
  have st: "stk vm (k # xs)" "heap_ok vm" using s(2) by (simp_all add: good_def)
  obtain v1 where v1: "vm_pop vm = Inr (v1, k)" "stk v1 xs" "quiet vm v1" "heap_ok vm \<longrightarrow> heap_ok v1" "objs v1 = objs vm"
    "next_addr v1 = next_addr vm" by (rule vm_pop_ok [OF st(1)])
  have ty: "is_type v1 k SYMBOL = Inr True" "key_of v1 k = Inr p"
    using symbol_type [of v1 k p name] k v1(3,5) by (simp_all add: symbol_def quiet_def)
  have same: "envs v1 = envs vm" "tables v1 = tables vm" "hs v1 = hs vm" "blobs v1 = blobs vm" "env v1 = env vm"
    using v1(3) by (simp_all add: quiet_def)
  have f: "find_env n v1 e q = find_env n vm e q" for n e q
    by (induction n arbitrary: e) (auto simp: get_env_def vm_hash_get_def same intro!: rbind_cong split: option.split)
  obtain ev0 where "envs vm e0 = Some ev0" using b(2) by (auto simp: env_table_def)
  then have "find_env (next_addr vm) vm (env vm) p = Inr (Some (bindings ev0, v))"
    using find_env_bound [OF s(1) _ b(2) _ b(3,1) e] k by (simp add: symbol_def)
  then have "op_read vm = Inr (vm_push v1 v)" using v1(1,6) ty f same(5) by (simp add: op_read_def)
  moreover have "good vm v1 xs" using v1 st by (simp add: good_def)
  then have "good vm (vm_push v1 v) (v # xs)" using b(4) by (rule good_push)
  ultimately show ?thesis by blast
qed

section \<open>A new machine\<close>

lemma env_table_with_env:
  assumes "0 < next_array (hs vm)"
  shows "env_table (with_env vm) (next_addr vm) [[], [], [], []]"
proof -
  have t: "tables (with_env vm) (next_addr vm + 1) = Some \<lparr>table = next_array (hs vm), tsize = 4, entries = 0, copy_on_write = False\<rparr>"
    by (simp add: with_env_def Let_def with_table_def alloc_env_def)
  have h: "hs (with_env vm) = (hs vm)\<lparr>arrays := (arrays (hs vm))(next_array (hs vm) \<mapsto> [[], [], [], []]),
       next_array := next_array (hs vm) + 1\<rparr>"
    by (simp add: with_env_def Let_def with_table_def alloc_env_def)
  have "vm_table_ok (with_env vm) \<lparr>table = next_array (hs vm), tsize = 4, entries = 0, copy_on_write = False\<rparr> [[], [], [], []]"
    using assms vm_key.b_empty [of 4 "blobs (with_env vm)"] by (simp add: table_ok_def h numeral_eq_Suc)
  then show ?thesis using t by (simp add: env_table_def top_env_def)
qed

lemma vm_create_run:
  "\<exists>vm. vm_create w = Inr vm \<and> good vm vm [] \<and> env_ok vm \<and> env_table vm (env vm) [[], [], [], []] \<and> env vm \<noteq> 0 \<and> exit_status vm = 0 \<and> out vm = []
    \<and> world vm = w \<and> next_addr vm < 100 \<and> out_depth vm = 0
    \<and> (\<exists>ev. envs vm (env vm) = Some ev \<and> parent ev = 0 \<and> \<not> handler ev)"
proof -
  define v0 where "v0 = \<lparr>objs = (\<lambda>_. None), blobs = (\<lambda>_. None), vecs = (\<lambda>_. None), envs = (\<lambda>_. None),
                tables = (\<lambda>_. None), hs = \<lparr>arrays = (\<lambda>_. None), next_array = 1\<rparr>, next_addr = 1,
                stack_root = 0, depth = 0, empty = 0, vm_true = 0, vm_false = 0,
                symbol_table = 0, import_table = 0, env = 0, exit_status = 0, out = [], out_depth = 0, world = w\<rparr>"
  define v3 where "v3 = v0\<lparr>objs := [1 \<mapsto> \<lparr>otype = EMPTY, ovalue = Zeroed\<rparr>, 2 \<mapsto> \<lparr>otype = BOOL, ovalue = Boolean True\<rparr>,
     3 \<mapsto> \<lparr>otype = BOOL, ovalue = Boolean False\<rparr>], next_addr := 4, empty := 1, vm_true := 2, vm_false := 3, stack_root := 1\<rparr>"
  define v5 where "v5 = (with_table ((with_table v3)\<lparr>symbol_table := 4\<rparr>))\<lparr>import_table := 5\<rparr>"
  have f3: "objs v3 = [1 \<mapsto> \<lparr>otype = EMPTY, ovalue = Zeroed\<rparr>, 2 \<mapsto> \<lparr>otype = BOOL, ovalue = Boolean True\<rparr>,
     3 \<mapsto> \<lparr>otype = BOOL, ovalue = Boolean False\<rparr>]" "next_addr v3 = 4" "empty v3 = 1" "vm_true v3 = 2" "vm_false v3 = 3"
     "out_depth v3 = 0" "stack_root v3 = 1" "depth v3 = 0" "env v3 = 0" "exit_status v3 = 0" "out v3 = []" "world v3 = w" "envs v3 = (\<lambda>_. None)"
     "blobs v3 = (\<lambda>_. None)"
    by (simp_all add: v3_def v0_def)
  have "(case vm_alloc v0 EMPTY of (vm, e) \<Rightarrow> let vm = vm\<lparr>empty := e\<rparr> in
         case vm_new vm BOOL (Boolean True) of (vm, t) \<Rightarrow> let vm = vm\<lparr>vm_true := t\<rparr> in
         case vm_new vm BOOL (Boolean False) of (vm, f) \<Rightarrow> let vm = vm\<lparr>vm_false := f\<rparr> in vm\<lparr>stack_root := e\<rparr>) = v3"
    by (simp add: v0_def vm_alloc_def vm_new_def alloc_object_def set_obj_def v3_def numeral_eq_Suc fun_upd_twist)
  then have "vm_create w = rbind (vm_hash_create v3) (\<lambda>(vm, s). let vm = vm\<lparr>symbol_table := s\<rparr> in
         rbind (vm_hash_create vm) (\<lambda>(vm, i). let vm = vm\<lparr>import_table := i\<rparr> in push_env vm))"
    unfolding vm_create_def v0_def [symmetric] Let_def by (auto split: prod.splits)
  also have "\<dots> = push_env v5"
    by (simp add: vm_hash_create_run v5_def f3)
  also have "\<dots> = Inr (with_env v5)" by (rule push_env_top) (simp add: v5_def f3)
  finally have "vm_create w = Inr (with_env v5)" .
  moreover have "hs v3 = \<lparr>arrays = (\<lambda>_. None), next_array = 1\<rparr>" by (simp add: v3_def v0_def)
  then have "0 < next_array (hs v5)" by (simp add: v5_def with_table_def)
  then have "env_table (with_env v5) (env (with_env v5)) [[], [], [], []]" using env_table_with_env by simp
  ultimately show ?thesis
    by (intro exI [of _ "with_env v5"]) (auto simp: good_def heap_ok_def stk_def env_ok_def v5_def f3 top_env_def zero_env_def)
qed


text \<open>An outside in which every call fails.\<close>

definition closed_world :: "unit externs" where
  "closed_world = \<lparr>x_open = (\<lambda>_ _ w. (Inl 2, w)), x_close = (\<lambda>_ w. (Some 9, w)), x_write = (\<lambda>_ _ w. (Inl 9, w)),
     x_read = (\<lambda>_ _ w. (Inl 9, w)), x_strerror = (\<lambda>_. []), x_slurp = (\<lambda>_ w. (None, w)), x_dlopen = (\<lambda>_ _ w. (0, w)),
     x_dlsym = (\<lambda>_ _ w. (0, w)), x_dlerror = (\<lambda>w. (None, w)), x_exports = (\<lambda>_. None), x_call = (\<lambda>_. Inr),
     x_gc_stats = (\<lambda>_. []), x_ptr = (\<lambda>_. [])\<rparr>"


section \<open>Properties\<close>

text \<open>
  What a binding needs to stay: the current environments of the two machines share their table, which is as it
  was, with its array, and so are the strings of its keys and the one at \<open>p\<close>. Running instructions moves
  the instruction pointer in the environment, allocates, and enters environments that share the table or
  come back; none of this touches what is named here.
\<close>

definition bindings_kept :: "addr \<Rightarrow> 'w vm \<Rightarrow> 'w vm \<Rightarrow> bool" where
  "bindings_kept p vm vm' \<longleftrightarrow> (\<exists>ev ev' t bs. envs vm (env vm) = Some ev \<and> envs vm' (env vm') = Some ev' \<and> bindings ev' = bindings ev
     \<and> tables vm (bindings ev) = Some t \<and> tables vm' (bindings ev) = Some t
     \<and> arrays (hs vm) (table t) = Some bs \<and> arrays (hs vm') (table t) = Some bs \<and> next_array (hs vm) \<le> next_array (hs vm')
     \<and> (\<forall>j\<in>insert p (fst ` set (concat bs)). blobs vm' j = blobs vm j))"

text \<open>The table of the keys in an array, when their strings stay.\<close>

lemma key_fun_cong: "blobs vm' j = blobs vm j \<Longrightarrow> key_hash (blobs vm') j = key_hash (blobs vm) j"
  "blobs vm' j = blobs vm j \<Longrightarrow> blobs vm' k = blobs vm k \<Longrightarrow> key_cmp (blobs vm') j k = key_cmp (blobs vm) j k"
  by (simp_all add: key_hash_def key_cmp_def str_at_def)

lemma keys_ok_cong: "(\<And>j k. j \<in> set ks \<Longrightarrow> k \<in> set ks \<Longrightarrow> cmp' j k = cmp j k) \<Longrightarrow> keys_ok cmp' ks = keys_ok cmp ks"
  by (induction ks) auto

lemma chain_lookup_cong: "(\<And>k. k \<in> fst ` set c \<Longrightarrow> cmp' j k = cmp j k) \<Longrightarrow> chain_lookup cmp' c j = chain_lookup cmp c j"
proof (induction c)
  case (Cons kv c)
  then show ?case by (cases kv) auto
qed simp

lemma table_ok_kept:
  assumes "table_ok (key_hash (blobs vm)) (key_cmp (blobs vm)) (hs vm) t bs" "arrays (hs vm') (table t) = Some bs"
    "next_array (hs vm) \<le> next_array (hs vm')" "\<forall>j\<in>fst ` set (concat bs). blobs vm' j = blobs vm j"
  shows "vm_table_ok vm' t bs"
proof -
  have k: "blobs vm' (fst x) = blobs vm (fst x)" if "i < length bs" "x \<in> set (bs ! i)" for i x
    using assms(4) that by (force simp: in_set_conv_nth)
  have "chain_ok (key_cmp (blobs vm')) (bs ! i) = chain_ok (key_cmp (blobs vm)) (bs ! i)" if "i < length bs" for i
    unfolding chain_ok_def using k [OF that] by (intro keys_ok_cong key_fun_cong(2)) auto
  moreover have "bucket_of (key_hash (blobs vm')) n (fst x) = bucket_of (key_hash (blobs vm)) n (fst x)"
    if "i < length bs" "x \<in> set (bs ! i)" for i x n
    by (simp add: bucket_of_def key_fun_cong(1) [OF k [OF that]])
  ultimately have "b_inv (key_hash (blobs vm')) (key_cmp (blobs vm')) bs" using assms(1) by (simp add: table_ok_def b_inv_def)
  then show ?thesis using assms(1-3) by (simp add: table_ok_def)
qed

lemma lookup_kept:
  assumes "bs \<noteq> []" "\<forall>j\<in>insert p (fst ` set (concat bs)). blobs vm' j = blobs vm j" "key_cmp (blobs vm') p q = EQ"
  shows "vm_lookup vm' bs q = vm_lookup vm bs p"
proof -
  have b: "bucket_of (key_hash (blobs vm')) n q = bucket_of (key_hash (blobs vm')) n p" for n
    using vm_key.bucket_cong [OF assms(3)] by simp
  have h: "bucket_of (key_hash (blobs vm')) n p = bucket_of (key_hash (blobs vm)) n p" for n
    using assms(2) by (simp add: bucket_of_def key_fun_cong(1) [of vm' p vm])
  let ?c = "bs ! bucket_of (key_hash (blobs vm)) (length bs) p"
  have "?c \<in> set bs" using vm_key.bucket_lt [OF assms(1)] by simp
  then have k: "blobs vm' j = blobs vm j" if "j \<in> fst ` set ?c" for j using assms(2) that by auto
  have "key_cmp (blobs vm') q j = EQ \<longleftrightarrow> key_cmp (blobs vm') p j = EQ" for j
    using vm_key.cmp_left [OF assms(3)] by simp
  then have "chain_lookup (key_cmp (blobs vm')) ?c q = chain_lookup (key_cmp (blobs vm')) ?c p"
  proof (induction ?c)
    case (Cons kv c)
    have "chain_lookup (key_cmp (blobs vm')) d q = chain_lookup (key_cmp (blobs vm')) d p" for d
      by (induction d) (auto simp: Cons.prems)
    then show ?case .
  qed simp
  also have "\<dots> = chain_lookup (key_cmp (blobs vm)) ?c p" using k assms(2) by (intro chain_lookup_cong key_fun_cong(2)) auto
  finally show ?thesis by (simp add: b_lookup_def b h)
qed

lemma bindings_kept_quiet: "bindings_kept p vm vm1 \<Longrightarrow> quiet vm1 vm2 \<Longrightarrow> bindings_kept p vm vm2"
  by (fastforce simp: bindings_kept_def quiet_def)

lemma bindings_kept_advance: "bindings_kept p vm vm1 \<Longrightarrow> bindings_kept p vm (advance vm1 n)"
  by (fastforce simp: bindings_kept_def advance_def)

lemma bindings_kept_refl: "env_table vm (env vm) bs \<Longrightarrow> bindings_kept p vm vm"
  by (auto simp: bindings_kept_def env_table_def table_ok_def)

text \<open>C18: binding a value to a symbol in the current environment succeeds, takes both from the stack, and a
  read of any symbol of the same spelling, at any later time at which the bindings of the environment are
  still those, finds the value.\<close>

theorem bind_then_read:
  assumes "heap_ok vm" "stk vm (k # v # xs)" "symbol vm k p name" "env_table vm (env vm) bs"
  shows "\<exists>vm1. op_bind vm = Inr vm1 \<and> stk vm1 xs \<and> (\<forall>vm2 k2 q name2 ys. bindings_kept p vm1 vm2 \<and> heap_ok vm2 \<and> env_ok vm2
    \<and> stk vm2 (k2 # ys) \<and> symbol vm2 k2 q name2 \<and> c_str name2 = c_str name \<longrightarrow> (\<exists>vm3. op_read vm2 = Inr vm3 \<and> stk vm3 (v # ys)))"
proof -
  obtain vm1 bs1 where b: "op_bind vm = Inr vm1" "heap_ok vm1" "stk vm1 xs" "blobs vm1 = blobs vm"
    "envs vm1 = envs vm" "env vm1 = env vm" "env_table vm1 (env vm) bs1"
    "\<forall>q. vm_lookup vm bs1 q = (if c_str (str_at (blobs vm) q) = c_str name then Some v else vm_lookup vm bs q)"
    using op_bind_run [OF assms] by blast
  have v: "v \<noteq> 0" using assms(2) by (auto simp: stk_def)
  have np: "str_at (blobs vm) p = name" using assms(3) by (simp add: symbol_def str_at_def)
  then have l1: "vm_lookup vm1 bs1 p = Some v" using b(8) by (simp add: b(4))
  have "\<exists>vm3. op_read vm2 = Inr vm3 \<and> stk vm3 (v # ys)"
    if q: "bindings_kept p vm1 vm2" "heap_ok vm2" "env_ok vm2" "stk vm2 (k2 # ys)" "symbol vm2 k2 q name2" "c_str name2 = c_str name"
    for vm2 k2 q name2 ys
  proof -
    obtain ev ev' t bs2 where k: "envs vm1 (env vm1) = Some ev" "envs vm2 (env vm2) = Some ev'" "bindings ev' = bindings ev"
      "tables vm1 (bindings ev) = Some t" "tables vm2 (bindings ev) = Some t" "arrays (hs vm1) (table t) = Some bs2"
      "arrays (hs vm2) (table t) = Some bs2" "next_array (hs vm1) \<le> next_array (hs vm2)"
      "\<forall>j\<in>insert p (fst ` set (concat bs2)). blobs vm2 j = blobs vm1 j"
      using q(1) by (auto simp: bindings_kept_def)
    have t1: "vm_table_ok vm1 t bs1" "bs2 = bs1" using b(6,7) k(1,4,6) by (auto simp: env_table_def table_ok_def)
    have "vm_table_ok vm2 t bs1" using table_ok_kept [OF t1(1) _ k(8)] k(7,9) t1(2) by auto
    then have t2: "env_table vm2 (env vm2) bs1" using k(2,3,5) by (auto simp: env_table_def)
    have "str_at (blobs vm2) q = name2" "str_at (blobs vm2) p = name"
      using q(5) k(9) np b(4) by (simp_all add: symbol_def str_at_def)
    then have "key_cmp (blobs vm2) p q = EQ" using q(6) by (simp add: key_cmp_EQ)
    moreover have "bs1 \<noteq> []" using t1(1) by (simp add: table_ok_def b_inv_def)
    ultimately have l: "vm_lookup vm2 bs1 q = Some v" using lookup_kept k(9) l1 t1(2) by metis
    have "env vm2 < next_addr vm2" using k(2) heap_ok_below(3) [OF q(2)] by simp
    moreover have "good vm2 vm2 (k2 # ys)" using q(2,4) by (simp add: good_def)
    ultimately show ?thesis using op_read_run [OF q(3) _ q(5) _ unbound.here t2 l v] by (auto simp: good_def)
  qed
  then show ?thesis using b(1,3) by blast
qed

text \<open>A machine at the start of a code with a symbol, a boolean and the symbol again on its stack.\<close>

lemma symbol_machine:
  assumes "length code < 2 ^ 62"
  shows "\<exists>(vm :: unit vm) k p v. heap_ok vm \<and> env_ok vm \<and> stk vm [k, v, k] \<and> symbol vm k p [97, 0] \<and> env_table vm (env vm) [[], [], [], []]
    \<and> at_code vm code 0"
proof -
  obtain vm0 :: "unit vm" where m: "good vm0 vm0 []" "env_ok vm0" "env_table vm0 (env vm0) [[], [], [], []]"
    using vm_create_run [of "()"] by blast
  obtain ev t where ev: "envs vm0 (env vm0) = Some ev" "tables vm0 (bindings ev) = Some t" "vm_table_ok vm0 t [[], [], [], []]"
    using m(3) by (auto simp: env_table_def)
  let ?k = "next_addr vm0" and ?p = "next_addr vm0 + 1" and ?c = "next_addr vm0 + 2"
  let ?ev = "ev\<lparr>ip := 0, code_ref := ?c, code_length := of_nat (length code)\<rparr>"
  define vm1 where "vm1 = vm0\<lparr>objs := (objs vm0)(?k \<mapsto> \<lparr>otype = SYMBOL, ovalue = Block 1 ?p\<rparr>),
    blobs := (blobs vm0)(?p \<mapsto> [97, 0], ?c \<mapsto> code), next_addr := ?c + 1, envs := (envs vm0)(env vm0 \<mapsto> ?ev)\<rparr>"
  have k: "symbol vm1 ?k ?p [97, 0]" "vm_true vm1 \<noteq> 0" using m(1) by (simp_all add: symbol_def vm1_def good_def heap_ok_def)
  have h: "heap_ok vm1" "stk vm1 []" using m(1) ev(1) by (auto simp: vm1_def good_def heap_ok_def stk_def)
  have t: "env_table vm1 (env vm1) [[], [], [], []]"
    using ev(2,3) vm_key.b_empty [of 4 "blobs vm1"] by (auto simp: env_table_def table_ok_def vm1_def numeral_eq_Suc)
  have "env_ok (vm0\<lparr>envs := (envs vm0)(env vm0 \<mapsto> ?ev)\<rparr>)"
    using upd_env_keeps [of vm0 "env vm0" "\<lambda>ev. ev\<lparr>ip := 0, code_ref := ?c, code_length := of_nat (length code)\<rparr>"] ev(1) m(2)
    by (simp add: upd_env_def get_env_def)
  then have "env_ok ((vm0\<lparr>envs := (envs vm0)(env vm0 \<mapsto> ?ev)\<rparr>)\<lparr>next_addr := ?c + 1\<rparr>)" by (rule env_ok_next) simp
  then have e: "env_ok vm1" unfolding vm1_def env_ok_def by simp
  have c: "at_code vm1 code 0" using assms by (auto simp: at_code_def vm1_def)
  let ?v1 = "vm_push vm1 ?k" let ?v2 = "vm_push ?v1 (vm_true vm1)" let ?v = "vm_push ?v2 ?k"
  have nz: "?k \<noteq> 0" using k(1) by (simp add: symbol_def)
  have g: "good vm1 ?v [?k, vm_true vm1, ?k]"
    using good_push [OF good_push [OF good_push [OF good_start [OF h] nz] k(2)] nz] .
  then have q: "quiet vm1 ?v" by (simp add: good_def)
  have "symbol ?v ?k ?p [97, 0]" using k(1) good_old [OF g] q by (auto simp: symbol_def quiet_def)
  moreover have "env_table ?v (env ?v) [[], [], [], []]" using t q by (simp add: env_table_def quiet_def)
  moreover have "env_ok ?v" using e by simp
  moreover have "at_code ?v code 0" by (rule at_quiet [OF c q])
  ultimately show ?thesis using g unfolding good_def by blast
qed

lemma symbol_quiet: "symbol vm k p name \<Longrightarrow> heap_ok vm \<Longrightarrow> quiet vm vm' \<Longrightarrow> symbol vm' k p name"
  using heap_ok_below(1) [of vm k] by (auto simp: symbol_def quiet_def)

lemma symbol_advance [simp]: "symbol (advance vm n) k p name = symbol vm k p name"
  by (simp add: symbol_def)

lemma env_ok_advance: "env_ok vm \<Longrightarrow> env_ok (advance vm n)"
proof -
  assume e: "env_ok vm"
  show ?thesis
  proof (cases "envs vm (env vm)")
    case None
    then have "(envs vm)(env vm := None) = envs vm" by auto
    then show ?thesis using e None by (simp add: advance_def)
  next
    case (Some ev)
    then have "upd_env vm (env vm) (\<lambda>e. e\<lparr>ip := ip e + n\<rparr>) = Inr (advance vm n)"
      by (simp add: upd_env_def get_env_def advance_def)
    then show ?thesis using upd_env_keeps e by fastforce
  qed
qed

lemma env_table_advance: "env_table vm e bs \<Longrightarrow> env_table (advance vm n) e bs"
  by (auto simp: env_table_def advance_def)

text \<open>The code binds the symbol, copies the symbol that is left, and reads it.\<close>

theorem bind_then_read_witness:
  "\<exists>(vm :: unit vm) vm1 vm2 vm3 k v. at_code vm [OP_BIND, OP_DUP_REF, OP_READ] 0 \<and> stk vm [k, v, k]
    \<and> vm_step closed_world vm = Inr vm1 \<and> vm_step closed_world vm1 = Inr vm2 \<and> vm_step closed_world vm2 = Inr vm3 \<and> stk vm3 [v, k]"
proof -
  let ?code = "[OP_BIND, OP_DUP_REF, OP_READ]"
  obtain vm :: "unit vm" and k p v where m: "heap_ok vm" "env_ok vm" "stk vm [k, v, k]" "symbol vm k p [97, 0]"
    "env_table vm (env vm) [[], [], [], []]" "at_code vm ?code 0" using symbol_machine [of ?code] by auto
  have s: "setup_instructions closed_world OP_BIND = Some op_bind" "setup_instructions closed_world OP_DUP_REF = Some op_dup_ref"
    "setup_instructions closed_world OP_READ = Some op_read"
    by (simp_all add: setup_instructions_def instructions_def op_codes)
  let ?v = "advance vm (of_nat 1)"
  have a: "heap_ok ?v" "stk ?v [k, v, k]" "symbol ?v k p [97, 0]" "env_table ?v (env ?v) [[], [], [], []]" "env_ok ?v"
    using good_advance [of vm "[k, v, k]"] m env_table_advance env_ok_advance by (simp_all add: good_def)
  obtain vm1 bs1 where c: "op_bind ?v = Inr vm1" "heap_ok vm1" "stk vm1 [k]" "objs vm1 = objs ?v" "blobs vm1 = blobs ?v"
    "envs vm1 = envs ?v" "env vm1 = env ?v" "next_addr vm1 = next_addr ?v" "env_table vm1 (env ?v) bs1"
    using op_bind_run [OF a(1-4)] by blast
  have "vm_step closed_world vm = Inr vm1" using vm_step_at [OF m(6), of closed_world op_bind] s(1) c(1) by simp
  moreover have a1: "at_code vm1 ?code 1" using at_advance [OF m(6), of 1] c(5-7) by (simp add: at_code_def)
  let ?v1 = "advance vm1 (of_nat 1)"
  have k1: "symbol vm1 k p [97, 0]" "env_ok vm1" using a(3,5) c(4-8) by (simp_all add: symbol_def env_ok_def)
  have g1: "good ?v1 ?v1 [k]" using good_advance [of vm1 "[k]" "of_nat 1"] c(2,3) by (simp add: good_def)
  obtain vm2 where d: "op_dup_ref ?v1 = Inr vm2" "good ?v1 vm2 [k, k]" using op_dup_run [OF g1] by (auto simp: gives_def)
  have "vm_step closed_world vm1 = Inr vm2" using vm_step_at [OF a1, of closed_world op_dup_ref] s(2) d(1) by simp
  moreover have q: "quiet ?v1 vm2" "heap_ok vm2" "stk vm2 [k, k]" using d(2) by (simp_all add: good_def)
  have a2: "at_code vm2 ?code 2" using at_quiet [OF at_advance [OF a1, of 1] q(1)] by (simp add: numeral_2_eq_2)
  let ?v2 = "advance vm2 (of_nat 1)"
  have "bindings_kept p vm1 ?v2"
    using bindings_kept_advance [OF bindings_kept_quiet [OF bindings_kept_advance q(1)]] bindings_kept_refl c(7,9) by metis
  moreover have "symbol ?v2 k p [97, 0]" using symbol_quiet [OF _ _ q(1)] k1(1) g1 by (simp add: good_def)
  moreover have "env_ok vm2" using env_ok_advance [OF k1(2)] q(1) by (fastforce simp: env_ok_def quiet_def)
  then have "env_ok ?v2" by (rule env_ok_advance)
  moreover have "heap_ok ?v2" "stk ?v2 (k # [k])" using good_advance [of vm2 "[k, k]"] q by (simp_all add: good_def)
  ultimately obtain vm3 where "op_read ?v2 = Inr vm3" "stk vm3 (v # [k])"
    using bind_then_read [OF a(1-4)] c(1) by (metis Inr_inject)
  moreover from this have "vm_step closed_world vm2 = Inr vm3" using vm_step_at [OF a2, of closed_world op_read] s(3) by simp
  ultimately show ?thesis using m(3,6) \<open>vm_step closed_world vm = Inr vm1\<close> \<open>vm_step closed_world vm1 = Inr vm2\<close> by blast
qed

text \<open>C19: a read finds the binding of the nearest environment that has one, the parents searched outwards.\<close>

theorem read_nearest_scope:
  assumes "env_ok vm" "good vm vm (k # xs)" "symbol vm k p name" "env vm < next_addr vm"
    "unbound vm p (env vm) e0" "env_table vm e0 bs0" "vm_lookup vm bs0 p = Some v" "v \<noteq> 0"
  shows "\<exists>vm'. op_read vm = Inr vm' \<and> good vm vm' (v # xs)"
  by (rule op_read_run [OF assms])

theorem read_nearest_scope_witness:
  "\<exists>(vm :: unit vm) vm' k v. stk vm [k] \<and> op_read vm = Inr vm' \<and> stk vm' [v]"
proof -
  obtain vm :: "unit vm" and k p v where m: "heap_ok vm" "env_ok vm" "stk vm [k, v, k]" "symbol vm k p [97, 0]"
    "env_table vm (env vm) [[], [], [], []]" using symbol_machine [of "[]"] by auto
  obtain vm1 bs1 where c: "op_bind vm = Inr vm1" "heap_ok vm1" "stk vm1 [k]" "objs vm1 = objs vm" "blobs vm1 = blobs vm"
    "envs vm1 = envs vm" "env vm1 = env vm" "next_addr vm1 = next_addr vm" "env_table vm1 (env vm1) bs1"
    "\<forall>q. vm_lookup vm bs1 q = (if c_str (str_at (blobs vm) q) = c_str [97, 0] then Some v else vm_lookup vm [[], [], [], []] q)"
    using op_bind_run [OF m(1,3-5)] by metis
  have k: "symbol vm1 k p [97, 0]" using m(4) c(4,5) by (simp add: symbol_def)
  have g: "good vm1 vm1 [k]" using c(2,3) by (simp add: good_def)
  have e: "env_ok vm1" using m(2) c(6-8) by (simp add: env_ok_def)
  have lt: "env vm1 < next_addr vm1" using c(9) heap_ok_below(3) [OF c(2)] by (auto simp: env_table_def)
  have "vm_lookup vm1 bs1 p = Some v" using c(5,10) m(4) by (simp add: symbol_def str_at_def)
  moreover have "v \<noteq> 0" using m(3) by (auto simp: stk_def)
  ultimately obtain vm' where "op_read vm1 = Inr vm'" "good vm1 vm' [v]"
    using read_nearest_scope [OF e g k lt unbound.here c(9)] by blast
  then show ?thesis using c(3) unfolding good_def by blast
qed

end
