(* ===== verification/Runtime.thy ===== *)
theory Runtime
  imports Vm_Scope
begin

text \<open>
  The programs around the machine: \<open>src/main.c\<close>, which assembles and evaluates a file, and
  \<open>libinsomniac_runtime\<close>, the runtime of a compiled program. A machine created, run and reset; what a
  program without jumps does from its text to the exit status.
\<close>

section \<open>Programs that run to their end, or do not\<close>

definition ebind :: "'a res option \<Rightarrow> ('a \<Rightarrow> 'b res option) \<Rightarrow> 'b res option" where
  "ebind m f = (case m of None \<Rightarrow> None | Some (Inl e) \<Rightarrow> Some (Inl e) | Some (Inr a) \<Rightarrow> f a)"

lemma ebind_simps [simp]:
  "ebind None f = None" "ebind (Some (Inl e)) f = Some (Inl e)" "ebind (Some (Inr a)) f = f a"
  by (simp_all add: ebind_def)

lemma ebind_cong [fundef_cong]:
  "m = m' \<Longrightarrow> (\<And>a. m' = Some (Inr a) \<Longrightarrow> f a = g a) \<Longrightarrow> ebind m f = ebind m' g"
  by (auto simp: ebind_def split: option.split sum.split)

text \<open>A block of code in the machine's memory.\<close>

definition code_block :: "'w vm \<Rightarrow> u8 list \<Rightarrow> ('w vm \<times> addr) res" where
  "code_block vm code =
     rbind (alloc_blob vm (of_nat (length code))) (\<lambda>(vm, p).
       Inr (vm\<lparr>blobs := (blobs vm)(p \<mapsto> code)\<rparr>, p))"

definition eval_string :: "nat \<Rightarrow> 'w externs \<Rightarrow> 'w vm \<Rightarrow> u8 list \<Rightarrow> ('w vm \<times> u32) res option" where
  "eval_string n x vm str =
     ebind (Some (asm_string (yyasm_scan str) False)) (\<lambda>(code, _).
     ebind (Some (code_block vm code)) (\<lambda>(vm, p).
       vm_eval n x vm (of_nat (length code)) p []))"

text \<open>The text that \<open>main\<close> evaluates first.\<close>

definition banner :: "u8 list" where
  "banner = 32 # 34 # chars ''Insomniac VM'' @ 34 # chars '' out #'' @ 92 # chars ''newline out''"

definition insomniac_main :: "nat \<Rightarrow> 'w externs \<Rightarrow> 'w \<Rightarrow> u8 list list \<Rightarrow> ('w vm \<times> u32) res option" where
  "insomniac_main n x w args =
     (if length args < 2 then Some (Inl Exited)
      else
        ebind (Some (vm_create w)) (\<lambda>vm.
        ebind (eval_string n x vm banner) (\<lambda>(vm, _).
        let (file, w) = x_slurp x (args ! 1) (world vm); vm = vm\<lparr>world := w\<rparr> in
        ebind (Some (buffer_load_string file)) (\<lambda>(code_str, _).
        ebind (eval_string n x vm (c_str code_str)) (\<lambda>(vm, ret_value).
        ebind (Some (vm_reset vm)) (\<lambda>vm. Some (Inr (vm, ret_value))))))))"

text \<open>The runtime of a compiled program: the code and its size, two symbols of the program's object
  file, and its debug ranges.\<close>

definition run_scheme ::
  "nat \<Rightarrow> 'w externs \<Rightarrow> 'w \<Rightarrow> u64 \<Rightarrow> u8 list \<Rightarrow> debug_range list \<Rightarrow> ('w vm \<times> u32) res option" where
  "run_scheme n x w scheme_code_size scheme_code debug_ranges =
     ebind (Some (vm_create w)) (\<lambda>vm.
     ebind (Some (code_block vm scheme_code)) (\<lambda>(vm, p).
     ebind (vm_eval n x vm scheme_code_size p debug_ranges) (\<lambda>(vm, ret_value).
     ebind (Some (vm_reset vm)) (\<lambda>vm. Some (Inr (vm, ret_value))))))"

section \<open>Loading and running\<close>

lemma code_block_run:
  assumes "length code < 2 ^ 62"
  shows "code_block vm code = Inr (vm\<lparr>blobs := (blobs vm)(next_addr vm \<mapsto> code), next_addr := next_addr vm + 1\<rparr>,
     next_addr vm)"
  using assms by (simp add: code_block_def alloc_blob_def block_size_def unat_of_nat)

lemma stk_grow:
  assumes "stk vm xs" "objs v = objs vm" "next_addr vm \<le> next_addr v" "stack_root v = stack_root vm" "depth v = depth vm"
  shows "stk v xs"
proof -
  have "stk_at vm r xs \<Longrightarrow> stk_at v r xs" for r using assms(2,3) by (induction xs arbitrary: r) auto
  then show ?thesis using assms(1,4,5) by (simp add: stk_def)
qed

text \<open>A machine ready to evaluate, with values on its stack.\<close>

definition ready :: "'w vm \<Rightarrow> val list \<Rightarrow> bool" where
  "ready vm vs \<longleftrightarrow> has_stack vm vs \<and> envs vm (env vm) \<noteq> None \<and> env vm < next_addr vm"

lemma loaded:
  assumes r: "ready vm vs" and c: "length code < 2 ^ 62" and p: "code_block vm code = Inr (vm1, p)"
    and l: "vm_load vm1 (of_nat (length code)) p dbg = Inr vm2"
  shows "has_stack vm2 vs \<and> at_code vm2 code 0 \<and> same_world vm vm2"
proof -
  obtain xs where xs: "good vm vm xs" "list_all2 (holds vm) xs vs" using r by (auto simp: ready_def has_stack_def)
  obtain ev where ev: "envs vm (env vm) = Some ev" "env vm < next_addr vm" using r by (auto simp: ready_def)
  have p: "p = next_addr vm" "vm1 = vm\<lparr>blobs := (blobs vm)(p \<mapsto> code), next_addr := p + 1\<rparr>"
    using p code_block_run [OF c, of vm] by auto
  have v: "vm2 = vm1\<lparr>envs := (envs vm)(env vm \<mapsto> ev\<lparr>ip := 0, code_ref := p, code_length := of_nat (length code), debug := dbg\<rparr>)\<rparr>"
    using l ev by (simp add: vm_load_def upd_env_def get_env_def p(2))
  have o: "objs vm2 = objs vm" by (simp add: v p)
  have "stk vm2 xs" by (rule stk_grow [of vm]) (use xs(1) in \<open>simp_all add: good_def v p\<close>)
  moreover have "heap_ok vm2"
    using xs(1) ev heap_ok_below(3) [of vm] by (auto simp: good_def heap_ok_def v p)
  ultimately have "good vm2 vm2 xs" by (simp add: good_def)
  moreover have "holds vm2 = holds vm" using o by (intro ext, rename_tac a u, case_tac u) simp_all
  ultimately have "has_stack vm2 vs" using xs(2) by (auto simp: has_stack_def)
  moreover have "at_code vm2 code 0" using c by (simp add: at_code_def v p)
  ultimately show ?thesis by (simp add: same_world_def v p)
qed

lemma eval_straight_line:
  assumes "ready vm vs" "pure_run ps vs = Some vs'" "length (concat (map pure_code ps)) < 2 ^ 62"
    "code_block vm (concat (map pure_code ps)) = Inr (vm1, p)"
  shows "\<exists>vm'. vm_eval (Suc (length ps)) x vm1 (of_nat (length (concat (map pure_code ps)))) p dbg
      = Some (Inr (vm', exit_status vm)) \<and> has_stack vm' vs' \<and> same_world vm vm'"
proof -
  let ?code = "concat (map pure_code ps)"
  obtain vm2 where l: "vm_load vm1 (of_nat (length ?code)) p dbg = Inr vm2"
    using assms(1,4) code_block_run [OF assms(3), of vm] by (auto simp: ready_def vm_load_def upd_env_def get_env_def)
  from loaded [OF assms(1,3,4) l]
  have v2: "has_stack vm2 vs" "at_code vm2 ?code 0" "same_world vm vm2" by simp_all
  obtain vm' where v': "eval_loop (Suc (length ps)) x vm2 = Some (Inr vm')" "has_stack vm' vs'" "same_world vm2 vm'"
    using pure_run_eval [OF assms(2) v2(1,2), of x] by auto
  then show ?thesis using l same_world_trans [OF v2(3) v'(3)]
    by (intro exI [of _ vm']) (simp add: vm_eval_def same_world_def del: eval_loop.simps)
qed

lemma ready_new: "\<exists>vm. vm_create w = Inr vm \<and> ready vm [] \<and> exit_status vm = 0 \<and> out vm = [] \<and> world vm = w"
  using vm_create_run [of w] unfolding ready_def has_stack_def env_ok_def
  by (metis list_all2_Nil not_None_eq env_parent [unfolded env_ok_def])

lemma vm_reset_run: "vm_reset vm = Inr (with_env (vm\<lparr>stack_root := empty vm, depth := 0, env := 0\<rparr>))"
  by (simp add: vm_reset_def push_env_top)

section \<open>Properties\<close>

text \<open>C5: the text of a program without jumps, assembled and evaluated by a machine with a stack of numbers
  and booleans, leaves the stack the abstract stack machine computes, returns the exit status and
  touches nothing outside the machine.\<close>

theorem eval_string_straight_line:
  assumes "ready vm vs" "pure_run ps vs = Some vs'"
    "length (concat (map pure_code ps)) < 2 ^ 62"
  shows "\<exists>vm'. eval_string (Suc (length ps)) x vm (pure_text ps) = Some (Inr (vm', exit_status vm)) \<and> has_stack vm' vs'
    \<and> same_world vm vm'"
proof -
  obtain vm1 p where p: "code_block vm (concat (map pure_code ps)) = Inr (vm1, p)"
    using code_block_run [OF assms(3)] by blast
  from eval_straight_line [OF assms p, of x "[]"] show ?thesis
    using asm_string_pure [OF assms(2), of False] p by (auto simp: eval_string_def)
qed


definition six_times_seven :: "pure_ins list" where
  "six_times_seven = [Push_Int 6, Push_Int 7, Arith OP_MUL, Dup_Top, Push_Int 42, Compare OP_NUMERIC_EQUAL]"

lemma six_times_seven_runs: "pure_run six_times_seven [] = Some [Bool_Val True, Int_Val 42]"
  by (simp add: six_times_seven_def arith_def compare_fn_def op_codes)

lemma six_times_seven_length: "length (concat (map pure_code six_times_seven)) = 30" "Suc (length six_times_seven) = 7"
  by (simp_all add: six_times_seven_def)

theorem eval_string_straight_line_witness:
  "\<exists>vm vm'. vm_create () = Inr vm
    \<and> eval_string 7 closed_world vm (pure_text six_times_seven) = Some (Inr (vm', 0))
    \<and> has_stack vm' [Bool_Val True, Int_Val 42]"
proof -
  obtain vm where vm: "vm_create () = Inr vm" "ready vm []" "exit_status vm = 0" using ready_new by metis
  have n: "length (concat (map pure_code six_times_seven)) < 2 ^ 62" unfolding six_times_seven_length by simp
  show ?thesis
    using eval_string_straight_line [OF vm(2) six_times_seven_runs n] vm(1,3) unfolding six_times_seven_length by metis
qed

text \<open>Code without jumps with more code after it.\<close>

lemma pure_run_prefix:
  "pure_run ps vs = Some vs' \<Longrightarrow> has_stack vm vs \<Longrightarrow> at_code vm code i \<Longrightarrow> drop i code = concat (map pure_code ps) @ rest
    \<Longrightarrow> \<exists>vm'. (\<forall>m. eval_loop (length ps + m) x vm = eval_loop m x vm') \<and> has_stack vm' vs'
      \<and> at_code vm' code (i + length (concat (map pure_code ps))) \<and> same_world vm vm'"
proof (induction ps arbitrary: vs vm i)
  case Nil
  then show ?case by (auto simp: same_world_def)
next
  case (Cons p ps)
  then obtain vs1 where s: "pure_step p vs = Some vs1" "pure_run ps vs1 = Some vs'" by (auto split: bind_splits)
  obtain vm1 where v: "running vm = Inr True" "vm_step x vm = Inr vm1" "has_stack vm1 vs1"
      "at_code vm1 code (i + length (pure_code p))" "same_world vm vm1"
    using pure_step_run [OF Cons.prems(2) s(1) Cons.prems(3), of x] Cons.prems(4) by auto
  have "drop (length (pure_code p)) (drop i code) = concat (map pure_code ps) @ rest" unfolding Cons.prems(4) by simp
  then have "drop (i + length (pure_code p)) code = concat (map pure_code ps) @ rest" by (simp add: add.commute)
  from Cons.IH [OF s(2) v(3,4) this] obtain vm2 where "\<forall>m. eval_loop (length ps + m) x vm1 = eval_loop m x vm2" "has_stack vm2 vs'"
    "at_code vm2 code (i + length (pure_code p) + length (concat (map pure_code ps)))" "same_world vm1 vm2" by blast
  moreover have "eval_loop (length (p # ps) + m) x vm = eval_loop (length ps + m) x vm1" for m using v(1,2) by simp
  ultimately show ?case using same_world_trans [OF v(5)] by (auto simp: add.assoc)
qed

lemma op_set_exit_run:
  assumes "has_stack vm (Int_Val i # vs)"
  shows "\<exists>vm'. op_set_exit vm = Inr (vm'\<lparr>exit_status := ucast i\<rparr>) \<and> has_stack vm' vs \<and> quiet vm vm'"
proof -
  obtain a xs where g: "good vm vm (a # xs)" "objs vm a = Some \<lparr>otype = FIXNUM, ovalue = Integer i\<rparr>" "list_all2 (holds vm) xs vs"
    using assms by (auto simp: has_stack_def list_all2_Cons2)
  have "gives (\<lambda>(u, b). b = a \<and> good vm u xs) (vm_pop vm)" by (rule good_pop [OF g(1)]) simp
  then obtain u where u: "vm_pop vm = Inr (u, a)" "good vm u xs" by (auto simp: gives_def)
  have "objs u a = Some \<lparr>otype = FIXNUM, ovalue = Integer i\<rparr>" using good_old [OF u(2) g(2)] .
  moreover have "a \<noteq> 0" by (rule good_nonzero [OF g(1)])
  ultimately have "op_set_exit vm = Inr (u\<lparr>exit_status := ucast i\<rparr>)"
    using u(1) by (simp add: op_set_exit_def is_type_def get_obj_def integer_def)
  then show ?thesis using has_stack_good [OF u(2) g(3)] u(2) by (auto simp: good_def)
qed

text \<open>C26: the runtime of a compiled program runs the embedded code on a new machine to its end and returns the
  exit status the code sets: the low bits of the number that a program without jumps computes. The machine
  it leaves is empty and nothing outside has changed.\<close>

theorem run_scheme_exit_status:
  assumes "pure_run ps [] = Some (Int_Val i # vs)" "code = concat (map pure_code ps) @ [OP_SET_EXIT]" "length code < 2 ^ 62"
  shows "\<exists>vm. run_scheme (length ps + 2) x w (of_nat (length code)) code dbg = Some (Inr (vm, ucast i))
    \<and> exit_status vm = ucast i \<and> stk vm [] \<and> out vm = [] \<and> world vm = w"
proof -
  obtain vm where vm: "vm_create w = Inr vm" "ready vm []" "exit_status vm = 0" "out vm = []" "world vm = w"
    using ready_new by metis
  obtain vm1 p where p: "code_block vm code = Inr (vm1, p)" using code_block_run [OF assms(3)] by blast
  obtain vm2 where l: "vm_load vm1 (of_nat (length code)) p dbg = Inr vm2"
    using vm(2) p code_block_run [OF assms(3), of vm] by (auto simp: ready_def vm_load_def upd_env_def get_env_def)
  from loaded [OF vm(2) assms(3) p l]
  have v2: "has_stack vm2 []" "at_code vm2 code 0" "same_world vm vm2" by simp_all
  let ?n = "length (concat (map pure_code ps))"
  have "drop 0 code = concat (map pure_code ps) @ [OP_SET_EXIT]" using assms(2) by simp
  from pure_run_prefix [OF assms(1) v2(1,2) this, of x] obtain vm3 where v3:
    "\<forall>m. eval_loop (length ps + m) x vm2 = eval_loop m x vm3" "has_stack vm3 (Int_Val i # vs)" "at_code vm3 code ?n" "same_world vm2 vm3"
    by auto
  have n: "?n < length code" "code ! ?n = OP_SET_EXIT" "?n + 1 = length code" by (simp_all add: assms(2))
  have s: "setup_instructions x OP_SET_EXIT = Some op_set_exit" by (simp add: setup_instructions_def instructions_def op_codes)
  obtain vm4 where v4: "op_set_exit (advance vm3 1) = Inr (vm4\<lparr>exit_status := ucast i\<rparr>)" "has_stack vm4 vs" "quiet (advance vm3 1) vm4"
    using op_set_exit_run [OF has_stack_advance [OF v3(2)]] by blast
  let ?v = "vm4\<lparr>exit_status := ucast i\<rparr>"
  have "at_code vm4 code (length code)" using at_quiet [OF _ v4(3)] at_advance [OF v3(3), of 1] n(3) by simp
  then have a: "at_code ?v code (length code)" by (simp add: at_code_def)
  have "running vm3 = Inr True" "running ?v = Inr False" using running_at [OF v3(3)] running_at [OF a] n(1) by simp_all
  moreover have "vm_step x vm3 = Inr ?v" using vm_step_at [OF v3(3) n(1), of x op_set_exit] n(2) s v4(1) by simp
  ultimately have "eval_loop (Suc (Suc 0)) x vm3 = Some (Inr ?v)" by simp
  then have "eval_loop (length ps + 2) x vm2 = Some (Inr ?v)" using v3(1) by (metis numeral_2_eq_2)
  then have e: "vm_eval (length ps + 2) x vm1 (of_nat (length code)) p dbg = Some (Inr (?v, ucast i))"
    using l by (simp add: vm_eval_def del: eval_loop.simps)
  let ?e = "with_env (?v\<lparr>stack_root := empty ?v, depth := 0, env := 0\<rparr>)"
  have "heap_ok vm4" using v4(2) by (auto simp: has_stack_def good_def)
  then obtain u where "objs vm4 (empty vm4) = Some \<lparr>otype = EMPTY, ovalue = u\<rparr>" "empty vm4 < next_addr vm4"
    using heap_ok_below(1) [of vm4 "empty vm4"] unfolding heap_ok_def by blast
  then have "stk ?e []" by (simp add: stk_def)
  moreover have "same_world (advance vm3 1) vm4" using v4(3) by (simp add: same_world_def quiet_def)
  then have "out vm4 = [] \<and> world vm4 = w" using v3(4) v2(3) vm(4,5) by (simp add: same_world_def advance_def)
  ultimately show ?thesis using vm(1) p e
    by (intro exI [of _ ?e]) (simp add: run_scheme_def vm_reset_run)
qed

theorem run_scheme_exit_status_witness:
  "\<exists>vm. run_scheme 5 closed_world () 20 (concat (map pure_code [Push_Int 6, Push_Int 7, Arith OP_MUL]) @ [OP_SET_EXIT]) []
      = Some (Inr (vm, 42)) \<and> stk vm []"
proof -
  have r: "pure_run [Push_Int 6, Push_Int 7, Arith OP_MUL] [] = Some [Int_Val 42]" by (simp add: arith_def op_codes)
  have n: "length (concat (map pure_code [Push_Int 6, Push_Int 7, Arith OP_MUL]) @ [OP_SET_EXIT]) = 20" by simp
  have "length (concat (map pure_code [Push_Int 6, Push_Int 7, Arith OP_MUL]) @ [OP_SET_EXIT]) < 2 ^ 62" unfolding n by simp
  from run_scheme_exit_status [OF r HOL.refl this, where x = closed_world and w = "()" and dbg = "[]"]
  moreover have "length [Push_Int 6, Push_Int 7, Arith OP_MUL] + 2 = 5" "(of_nat 20 :: u64) = 20" "ucast (42 :: vm_int) = (42 :: u32)"
    by simp_all
  ultimately show ?thesis unfolding n by metis
qed

end
