(* ===== verification/Vm_Facts.thy ===== *)
theory Vm_Facts
  imports Runtime
begin

text \<open>
  What single instructions do on known operands, errors included: the table of instructions,
  arithmetic, equality, vectors, calls into libraries; and the printing of objects, which ends within
  the depth the code allows.
\<close>

section \<open>The table of instructions\<close>

lemma dom_setup: "setup_instructions x c \<noteq> None \<longleftrightarrow> c \<in> fst ` set (instructions x)"
  by (simp add: setup_instructions_def map_of_eq_None_iff)

lemma installed: "fst ` set (instructions x) = set all_ops - {OP_NOP, OP_IS_LIBRARY}"
proof -
  have "set (map fst (instructions x)) = set all_ops - {OP_NOP, OP_IS_LIBRARY}"
    by (simp add: instructions_def all_ops_def op_codes) auto
  then show ?thesis by simp
qed

section \<open>Arithmetic\<close>

text \<open>A machine whose stack starts with two numbers, the second operand on top.\<close>

definition two_numbers :: "'w vm \<Rightarrow> vm_int \<Rightarrow> vm_int \<Rightarrow> addr list \<Rightarrow> bool" where
  "two_numbers vm i j xs \<longleftrightarrow> (\<exists>a b. good vm vm (b # a # xs) \<and> objs vm a = Some \<lparr>otype = FIXNUM, ovalue = Integer i\<rparr>
     \<and> objs vm b = Some \<lparr>otype = FIXNUM, ovalue = Integer j\<rparr>)"

definition leaves_number :: "'w vm res \<Rightarrow> vm_int \<Rightarrow> addr list \<Rightarrow> bool" where
  "leaves_number r k xs \<longleftrightarrow> (\<exists>vm' c. r = Inr vm' \<and> good vm' vm' (c # xs)
     \<and> objs vm' c = Some \<lparr>otype = FIXNUM, ovalue = Integer k\<rparr>)"

lemma NUMERIC_OP_leaves: "two_numbers vm i j xs \<Longrightarrow> f i j = Inr k \<Longrightarrow> leaves_number (NUMERIC_OP f vm) k xs"
  using NUMERIC_OP_run [of vm _ _ xs i j f k] good_self unfolding two_numbers_def leaves_number_def gives_def by blast

lemma NUMERIC_OP_stops: "two_numbers vm i j xs \<Longrightarrow> f i j = Inl e \<Longrightarrow> NUMERIC_OP f vm = Inl e"
  using NUMERIC_OP_trap unfolding two_numbers_def by blast

section \<open>Equality\<close>

lemma op_eq_run:
  assumes "good vm vm (a # b # xs)" "objs vm a = Some o1" "objs vm b = Some o2"
    "otype o1 = FIXNUM \<and> r = (integer (ovalue o1) = integer (ovalue o2))
     \<or> otype o1 = BOOL \<and> r = (boolean (ovalue o1) = boolean (ovalue o2))
     \<or> otype o1 = cell_type.CHAR \<and> r = (character (ovalue o1) = character (ovalue o2))
     \<or> otype o1 \<notin> {FIXNUM, BOOL, cell_type.CHAR, STRING} \<and> r = (a = b)"
  shows "gives (\<lambda>vm'. good vm vm' (bool_obj vm r # xs)) (op_eq vm)"
proof -
  have nz: "a \<noteq> 0" "b \<noteq> 0" using assms(1) by (auto simp: good_def stk_def)
  have g: "stk vm (a # b # xs)" "heap_ok vm" using assms(1) by (simp_all add: good_def)
  obtain v1 where v1: "vm_pop vm = Inr (v1, a)" "stk v1 (b # xs)" "quiet vm v1" "heap_ok vm \<longrightarrow> heap_ok v1" "objs v1 = objs vm"
    by (rule vm_pop_ok [OF g(1)])
  obtain v2 where v2: "vm_pop v1 = Inr (v2, b)" "stk v2 xs" "quiet v1 v2" "heap_ok v1 \<longrightarrow> heap_ok v2" "objs v2 = objs v1"
    by (rule vm_pop_ok [OF v1(2)])
  have o: "get_obj v2 a = Inr o1" "get_obj v2 b = Inr o2" using assms(2,3) v1(5) v2(5) by (simp_all add: get_obj_def)
  have "op_eq vm = Inr (vm_push v2 (bool_obj v2 r))"
    using assms(4) v1(1) v2(1) nz o by (cases "otype o1") (simp_all add: op_eq_def)
  moreover have "good vm v2 xs" using g v1 v2 quiet_trans by (auto simp: good_def)
  then have "good vm (vm_push v2 (bool_obj v2 r)) (bool_obj vm r # xs)" by (rule good_bool)
  ultimately show ?thesis by (simp add: gives_def)
qed

section \<open>Vectors\<close>

lemma pop3:
  assumes "stk vm (a # b # c # xs)" "heap_ok vm"
  obtains v1 v2 v3 where "vm_pop vm = Inr (v1, a)" "vm_pop v1 = Inr (v2, b)" "vm_pop v2 = Inr (v3, c)"
    "stk v2 (c # xs)" "stk v3 xs" "quiet vm v2" "quiet vm v3" "heap_ok v2" "heap_ok v3" "objs v2 = objs vm" "objs v3 = objs vm"
proof -
  obtain v1 where v1: "vm_pop vm = Inr (v1, a)" "stk v1 (b # c # xs)" "quiet vm v1" "heap_ok vm \<longrightarrow> heap_ok v1" "objs v1 = objs vm"
    by (rule vm_pop_ok [OF assms(1)])
  obtain v2 where v2: "vm_pop v1 = Inr (v2, b)" "stk v2 (c # xs)" "quiet v1 v2" "heap_ok v1 \<longrightarrow> heap_ok v2" "objs v2 = objs v1"
    by (rule vm_pop_ok [OF v1(2)])
  obtain v3 where v3: "vm_pop v2 = Inr (v3, c)" "stk v3 xs" "quiet v2 v3" "heap_ok v2 \<longrightarrow> heap_ok v3" "objs v3 = objs v2"
    by (rule vm_pop_ok [OF v2(2)])
  have q: "quiet vm v2" "quiet vm v3" using quiet_trans [OF v1(3) v2(3)] quiet_trans [OF quiet_trans [OF v1(3) v2(3)] v3(3)] .
  show ?thesis by (rule that [OF v1(1) v2(1) v3(1) v2(2) v3(2) q]) (use v1(4,5) v2(4,5) v3(4,5) assms(2) in simp_all)
qed

text \<open>A vector object with its cells.\<close>

definition vector :: "'w vm \<Rightarrow> addr \<Rightarrow> addr \<Rightarrow> addr list \<Rightarrow> bool" where
  "vector vm v p cells \<longleftrightarrow> objs vm v = Some \<lparr>otype = VECTOR, ovalue = Block (of_nat (length cells)) p\<rparr>
     \<and> vecs vm p = Some cells \<and> length cells < 2 ^ 60"

definition number :: "'w vm \<Rightarrow> addr \<Rightarrow> vm_int \<Rightarrow> bool" where
  "number vm a i \<longleftrightarrow> objs vm a = Some \<lparr>otype = FIXNUM, ovalue = Integer i\<rparr>"

lemma index_cases:
  fixes index :: vm_int
  assumes "length cells < 2 ^ 60"
  shows "sint index \<le> sint (of_nat (length cells) :: vm_int) \<longleftrightarrow> sint index \<le> int (length cells)"
    and "0 \<le> sint index \<Longrightarrow> unat index = nat (sint index)"
    and "sint index < 0 \<Longrightarrow> length cells < unat index"
proof -
  have "sint (of_nat (length cells) :: vm_int) = int (length cells)"
    using assms by (simp add: signed_of_nat signed_take_bit_int_eq_self)
  then show "sint index \<le> sint (of_nat (length cells) :: vm_int) \<longleftrightarrow> sint index \<le> int (length cells)" by simp
  have u: "uint index = sint index mod 2 ^ 64" by (simp add: uint_sint take_bit_eq_mod)
  have b: "- (2 ^ 63) \<le> sint index" "sint index < 2 ^ 63" using sint_greater_eq [of index] sint_lt [of index] by simp_all
  show "unat index = nat (sint index)" if "0 \<le> sint index" using that b u by (simp add: unat_eq_nat_uint)
  show "length cells < unat index" if "sint index < 0"
  proof -
    have "sint index mod 2 ^ 64 = (sint index + 2 ^ 64) mod 2 ^ 64" by simp
    also have "\<dots> = sint index + 2 ^ 64" using that b by (intro mod_pos_pos_trivial) simp_all
    finally have "uint index = sint index + 2 ^ 64" using u by simp
    then show ?thesis using b assms by (simp add: unat_eq_nat_uint)
  qed
qed

lemma op_index_set_run:
  assumes s: "heap_ok vm" "stk vm (v # x # i # xs)" and v: "vector vm v p cells" "number vm i index"
  shows "(0 \<le> sint index \<and> sint index < int (length cells) \<longrightarrow>
      (\<exists>vm'. op_index_set vm = Inr vm' \<and> stk vm' xs \<and> vector vm' v p (cells[nat (sint index) := x])))
    \<and> (sint index < 0 \<or> sint index = int (length cells) \<longrightarrow> op_index_set vm = Inl Out_Of_Bounds)"
proof -
  obtain v1 v2 v3 where p: "vm_pop vm = Inr (v1, v)" "vm_pop v1 = Inr (v2, x)" "vm_pop v2 = Inr (v3, i)"
    "stk v3 xs" "quiet vm v3" "objs v3 = objs vm"
    using pop3 [OF s(2,1)] by metis
  have len: "length cells < 2 ^ 60" using v(1) by (simp add: vector_def)
  note ix = index_cases [OF len, of index]
  have st: "stk (v3\<lparr>vecs := f\<rparr>) xs" for f
  proof -
    have "stk_at (v3\<lparr>vecs := f\<rparr>) r ys = stk_at v3 r ys" for r ys by (induction ys arbitrary: r) auto
    then show ?thesis using p(4) by (simp add: stk_def)
  qed
  have le: "sint index < 0 \<or> sint index = int (length cells) \<Longrightarrow> length cells \<le> unat index" using ix by fastforce
  show ?thesis
    using p(1-3,5,6) v ix(1,2) le st len
    by (auto simp: op_index_set_def get_obj_def vector_def number_def integer_def indexable_def block_def quiet_def
      nth_checked_def Let_def)
qed

lemma op_index_set_throws:
  assumes s: "heap_ok vm" "stk vm (v # x # i # xs)" and v: "vector vm v p cells" "number vm i index"
    and i: "int (length cells) < sint index"
  shows "\<exists>vm'. op_index_set vm = throw vm' (chars ''Set by index requires a vector.'') [v] \<and> stk vm' xs"
proof -
  obtain v1 v2 v3 where p: "vm_pop vm = Inr (v1, v)" "vm_pop v1 = Inr (v2, x)" "vm_pop v2 = Inr (v3, i)"
    "stk v3 xs" "quiet vm v3" "objs v3 = objs vm"
    using pop3 [OF s(2,1)] by metis
  have len: "length cells < 2 ^ 60" using v(1) by (simp add: vector_def)
  show ?thesis
    using p v i index_cases(1) [OF len, of index]
    by (auto simp: op_index_set_def get_obj_def vector_def number_def integer_def indexable_def block_def Let_def)
qed


section \<open>Output\<close>

text \<open>Printing never leaves \<open>out_depth\<close> lower than it was, and changes nothing but it and the output.\<close>

definition printed :: "'w vm \<Rightarrow> 'w vm \<Rightarrow> bool" where
  "printed vm vm' \<longleftrightarrow> out_depth vm \<le> out_depth vm' \<and> (\<exists>bs. out vm' = out vm @ bs)
     \<and> vm'\<lparr>out := [], out_depth := 0\<rparr> = vm\<lparr>out := [], out_depth := 0\<rparr>"

lemma printed_refl: "printed vm vm"
  by (simp add: printed_def)

lemma printed_trans: "printed vm vm1 \<Longrightarrow> printed vm1 vm2 \<Longrightarrow> printed vm vm2"
  by (auto simp: printed_def)

lemma printed_print: "printed vm (print vm bs)" "printed vm (print_s vm s)"
  by (auto simp: printed_def print_def print_s_def)

lemma printed_next:
  assumes "printed vm vm'"
  shows "next_addr vm' = next_addr vm" "env_ok vm' = env_ok vm"
proof -
  have e: "vm'\<lparr>out := [], out_depth := 0\<rparr> = vm\<lparr>out := [], out_depth := 0\<rparr>" using assms by (simp add: printed_def)
  from arg_cong [OF e, of next_addr] show "next_addr vm' = next_addr vm" by simp
  from arg_cong [OF e, of env_ok] show "env_ok vm' = env_ok vm" by simp
qed

text \<open>A computation that prints and does not run out of fuel.\<close>

definition prints :: "'w vm \<Rightarrow> ('a \<Rightarrow> 'w vm) \<Rightarrow> 'a res \<Rightarrow> bool" where
  "prints vm f r \<longleftrightarrow> r \<noteq> Inl Stack_Overflow \<and> (\<forall>y. r = Inr y \<longrightarrow> printed vm (f y))"

lemma prints_Inr: "printed vm (f y) \<Longrightarrow> prints vm f (Inr y)"
  by (simp add: prints_def)

lemma prints_bind:
  "prints vm g m \<Longrightarrow> (\<And>y. printed vm (g y) \<Longrightarrow> prints (g y) f (h y)) \<Longrightarrow> prints vm f (rbind m h)"
  by (cases m) (auto simp: prints_def intro: printed_trans)

lemma prints_read: "m \<noteq> Inl Stack_Overflow \<Longrightarrow> (\<And>y. m = Inr y \<Longrightarrow> prints vm f (h y)) \<Longrightarrow> prints vm f (rbind m h)"
  by (cases m) (auto simp: prints_def)

lemma prints_if: "(c \<Longrightarrow> prints vm f x) \<Longrightarrow> (\<not> c \<Longrightarrow> prints vm f y) \<Longrightarrow> prints vm f (if c then x else y)"
  by simp

lemma reads_total [simp]: "get_obj vm a \<noteq> Inl Stack_Overflow" "get_env vm a \<noteq> Inl Stack_Overflow" "deref x \<noteq> Inl Stack_Overflow"
  "nth_checked xs i \<noteq> Inl Stack_Overflow" "is_type vm a ty \<noteq> Inl Stack_Overflow"
  by (auto simp: get_obj_def get_env_def deref_def nth_checked_def is_type_def rbind_def split: option.splits)

lemma prints_from: "printed vm vm1 \<Longrightarrow> prints vm1 f r \<Longrightarrow> prints vm f r"
  by (auto simp: prints_def intro: printed_trans)

lemma prints_print: "prints (print_s vm s) f r \<Longrightarrow> prints vm f r" "prints (print vm bs) f r \<Longrightarrow> prints vm f r"
  using prints_from printed_print by blast+

text \<open>The printing of the parts of an object, by a function that prints from the depth \<open>d\<close> on.\<close>

definition printer :: "nat \<Rightarrow> nat \<Rightarrow> ('w vm \<Rightarrow> addr \<Rightarrow> 'w vm res) \<Rightarrow> bool" where
  "printer d m f \<longleftrightarrow> (\<forall>v x. d \<le> out_depth v \<longrightarrow> env_ok v \<longrightarrow> next_addr v = m \<longrightarrow> prints v (\<lambda>v. v) (f v x))"

definition at_depth :: "nat \<Rightarrow> nat \<Rightarrow> 'w vm \<Rightarrow> bool" where
  "at_depth d m vm \<longleftrightarrow> d \<le> out_depth vm \<and> env_ok vm \<and> next_addr vm = m"

lemma at_depth_printed: "at_depth d m vm \<Longrightarrow> printed vm vm' \<Longrightarrow> at_depth d m vm'"
  using printed_next [of vm vm'] by (auto simp: at_depth_def printed_def)

lemma at_depth_print [simp]: "at_depth d m (print_s vm s) = at_depth d m vm" "at_depth d m (print vm bs) = at_depth d m vm"
  by (simp_all add: at_depth_def print_def print_s_def)

lemma printerD: "printer d m f \<Longrightarrow> at_depth d m v \<Longrightarrow> prints v (\<lambda>v. v) (f v x)"
  by (simp add: printer_def at_depth_def)

lemma pair_loop_prints:
  assumes f: "printer d m f"
  shows "at_depth d m vm \<Longrightarrow> prints vm fst (pair_loop f n vm flag p)"
proof (induction n arbitrary: vm flag p)
  case 0
  then show ?case by (simp add: prints_def printed_refl)
next
  case (Suc n)
  define v where "v = (if flag then print_s vm '' '' else vm)"
  have pv: "printed vm v" "at_depth d m v" using printed_print printed_refl Suc.prems by (auto simp: v_def)
  have "prints v fst (pair_loop f n v1 True cdr)" if "printed v v1" for v1 cdr
    using prints_from [OF that Suc.IH] at_depth_printed [OF pv(2) that] by blast
  then show ?case unfolding pair_loop.simps Let_def v_def [symmetric]
    by (intro prints_from [OF pv(1)] prints_read)
      (auto simp: case_prod_unfold intro!: prints_bind [OF printerD [OF f pv(2)]] prints_read prints_if Suc.IH prints_Inr
        printed_refl at_depth_printed [OF pv(2)])
qed

lemma output_pair_prints:
  fixes vm :: "'w vm"
  assumes f: "printer d m f" and v: "at_depth d m vm"
  shows "prints vm (\<lambda>v. v) (output_pair f vm p)"
  unfolding output_pair_def
proof (rule prints_print(1), rule prints_bind [OF pair_loop_prints [OF f]], simp add: v)
  fix y :: "'w vm \<times> addr"
  assume "printed (print_s vm ''('') (fst y)"
  from at_depth_printed [OF _ this, of d m] have d: "at_depth d m (fst y)" using v by simp
  have "prints (fst y) (\<lambda>v. v) (if c then Inr (fst y) else f (print_s (fst y) '' . '') (snd y))" for c
    by (cases c) (simp_all add: prints_Inr printed_refl, rule prints_print(1) [OF printerD [OF f]], simp add: d)
  then show "prints (fst y) (\<lambda>v. v) (case y of (vm, p) \<Rightarrow> rbind (is_type vm p EMPTY) (\<lambda>done.
     rbind (if done then Inr vm else f (print_s vm '' . '') p) (\<lambda>vm. Inr (print_s vm '')''))))"
    by (auto simp: case_prod_unfold intro!: prints_read prints_bind [where g = "\<lambda>v. v"] prints_Inr printed_print)
qed

lemma vector_loop_prints:
  assumes f: "printer d m f"
  shows "at_depth d m vm \<Longrightarrow> prints vm (\<lambda>v. v) (vector_loop f p is vm)"
proof (induction "is" arbitrary: vm)
  case Nil
  then show ?case by (simp add: prints_def printed_refl)
next
  case (Cons i "is")
  define v where "v = (if 0 < i then print_s vm '' '' else vm)"
  have pv: "printed vm v" "at_depth d m v" using printed_print printed_refl Cons.prems by (auto simp: v_def)
  show ?case unfolding vector_loop.simps Let_def v_def [symmetric]
    by (rule prints_from [OF pv(1)], rule prints_read, simp, rule prints_read, simp,
        rule prints_bind [OF printerD [OF f pv(2)]], rule Cons.IH, erule at_depth_printed [OF pv(2)])
qed

lemma output_cells_prints:
  assumes f: "printer d m f" and v: "at_depth d m vm"
  shows "prints vm (\<lambda>v. v) (output_cells a b f vm ob)"
  unfolding output_cells_def Let_def
  by (auto simp: case_prod_unfold v intro!: prints_print(1) [of vm a] prints_bind [OF vector_loop_prints [OF f]] prints_Inr printed_print)

lemma bytes_loop_prints: "prints (vm :: 'w vm) (\<lambda>v. v) (bytes_loop p is vm)"
proof (induction "is" arbitrary: vm)
  case Nil
  then show ?case by (simp add: prints_def printed_refl)
next
  case (Cons i "is")
  have *: "prints v (\<lambda>v. v) (rbind (deref (blobs v p)) (\<lambda>bytes. rbind (nth_checked bytes i) (\<lambda>b. bytes_loop p is (print v (show_nat (unat b))))))" for v :: "'w vm"
    by (rule prints_read, simp, rule prints_read, simp, rule prints_print(2), rule Cons.IH)
  show ?case unfolding bytes_loop.simps Let_def 
    using * [of vm] prints_print(1) [OF * [of "print_s vm '' ''"]] by (cases "0 < i") simp_all
qed

lemma output_byte_vector_prints: "prints vm (\<lambda>v. v) (output_byte_vector vm ob)"
  unfolding output_byte_vector_def Let_def
  by (auto simp: case_prod_unfold intro!: prints_print(1) [of vm "''#u8(''"] prints_bind [OF bytes_loop_prints] prints_Inr printed_print)

lemma output_envs_prints: "env_ok vm \<Longrightarrow> e < n \<Longrightarrow> prints vm (\<lambda>v. v) (output_envs n ptr ob vm e)"
proof (induction n arbitrary: e vm)
  case (Suc n)
  show ?case
  proof (cases "e = 0")
    case False
    have "prints vm (\<lambda>v. v) (output_envs n ptr ob (print vm t) (parent ev))" if "envs vm e = Some ev" for ev t
      using Suc.prems env_parent [OF Suc.prems(1) that] by (intro prints_print(2) [OF Suc.IH]) auto
    then show ?thesis using False by (cases "envs vm e") (simp_all add: get_env_def, simp add: prints_def)
  qed (simp add: prints_def printed_refl)
qed simp


lemma prints_level:
  assumes "prints (vm\<lparr>out_depth := out_depth vm + 1\<rparr>) (\<lambda>v. v) r"
  shows "prints vm (\<lambda>v. v) (rbind r (\<lambda>w. Inr (w\<lparr>out_depth := out_depth w - 1\<rparr>)))"
  using assms by (cases r) (auto simp: prints_def printed_def)

lemma output_object_prints:
  fixes vm :: "'w vm"
  shows "OUTPUT_MAX_DEPTH \<le> n + out_depth vm \<Longrightarrow> 0 < n \<Longrightarrow> env_ok vm \<Longrightarrow> prints vm (\<lambda>v. v) (output_object n ptr vm ob)"
proof (induction n arbitrary: vm ob)
  case (Suc n)
  define v where "v = vm\<lparr>out_depth := out_depth vm + 1\<rparr>"
  have v: "out_depth v = out_depth vm + 1" "env_ok v" using Suc.prems(3) by (simp_all add: v_def)
  have up: "printed vm v" by (simp add: v_def printed_def)
  show ?case
  proof (cases "OUTPUT_MAX_DEPTH \<le> out_depth v")
    case True
    then show ?thesis by (simp add: v_def prints_def) (simp add: printed_def print_s_def print_def)
  next
    case lt: False
    have "prints w (\<lambda>v. v) (output_object n ptr w x)" if w: "out_depth v \<le> out_depth w" "env_ok w" for w :: "'w vm" and x
      by (rule Suc.IH) (use Suc.prems(1) v(1) lt w in \<open>linarith | simp\<close>)+
    then have pr: "printer (out_depth v) (next_addr v) (output_object n ptr :: 'w vm \<Rightarrow> addr \<Rightarrow> 'w vm res)" by (simp add: printer_def)
    have at: "at_depth (out_depth v) (next_addr v) v" using v(2) by (simp add: at_depth_def)
    have body: "prints v (\<lambda>v. v) (case otype o' of
                 FIXNUM \<Rightarrow> Inr (print v (show_int (integer (ovalue o'))))
               | EMPTY \<Rightarrow> Inr (print_s v ''()'')
               | PAIR \<Rightarrow> output_pair (output_object n ptr) v ob
               | cell_type.CHAR \<Rightarrow> Inr (print v (c_str (utf8_encode_char (character (ovalue o')))))
               | VECTOR \<Rightarrow> output_cells ''#('' '')'' (output_object n ptr) v o'
               | BYTE_VECTOR \<Rightarrow> output_byte_vector v o'
               | RECORD \<Rightarrow> output_cells ''<RECORD '' ''>'' (output_object n ptr) v o'
               | BOOL \<Rightarrow> Inr (print_s v (if boolean (ovalue o') then ''#t'' else ''#f''))
               | CLOSURE \<Rightarrow>
                   rbind (output_envs (next_addr v) ptr ob (print_s v ''{'') (closure (ovalue o')))
                     (\<lambda>vm. Inr (print_s vm ''}''))
               | LIBRARY \<Rightarrow>
                   (case library (ovalue o') of (h, fs, n) \<Rightarrow>
                      Inr (print v (chars ''<LIBRARY '' @ ptr ob @ chars '':'' @ ptr h @ chars '' #'' @ show_int n
                        @ chars ''>'')))
               | _ \<Rightarrow> rbind (deref (blobs v (snd (block (ovalue o'))))) (\<lambda>bytes. Inr (print v (c_str bytes))))" for o'
    proof (cases "otype o'")
      case CLOSURE
      show ?thesis
      proof (cases "closure (ovalue o') < next_addr v")
        case True
        then have "prints (print_s v ''{'') (\<lambda>v. v) (output_envs (next_addr v) ptr ob (print_s v ''{'') (closure (ovalue o')))"
          using v(2) by (intro output_envs_prints) simp_all
        then show ?thesis using CLOSURE by (auto intro!: prints_print(1) [of v "''{''"] prints_bind prints_Inr printed_print)
      next
        case False
        have "envs v (closure (ovalue o')) = None"
          using False env_parent [OF v(2), of "closure (ovalue o')"] by (cases "envs v (closure (ovalue o'))") auto
        moreover have "closure (ovalue o') \<noteq> 0" "0 < next_addr v" using False v(2) by (auto simp: env_ok_def)
        ultimately have "output_envs (next_addr v) ptr ob (print_s v ''{'') (closure (ovalue o')) = Inl Bad_Pointer"
          by (cases "next_addr v") (simp_all add: get_env_def print_s_def print_def)
        then show ?thesis using CLOSURE by (simp add: prints_def)
      qed
    qed (auto intro!: prints_Inr printed_print output_pair_prints [OF pr at] output_cells_prints [OF pr at]
        output_byte_vector_prints prints_read split: prod.split)
    show ?thesis
    proof (cases "ob = 0")
      case True
      then have "output_object (Suc n) ptr vm ob = Inr (print_s v ''<nil>'')" using lt by (simp add: v_def)
      then show ?thesis using printed_trans [OF up printed_print(2)] by (simp only: prints_Inr)
    next
      case False
      have level: "prints v (\<lambda>v. v) r \<Longrightarrow> prints vm (\<lambda>v. v) (rbind r (\<lambda>w. Inr (w\<lparr>out_depth := out_depth w - 1\<rparr>)))" for r
        unfolding v_def by (rule prints_level)
      show ?thesis unfolding output_object.simps Let_def v_def [symmetric] if_not_P [OF lt] if_not_P [OF False]
        by (rule prints_read, simp, rule level, rule body)
    qed
  qed
qed simp


section \<open>Calls of library functions\<close>

lemma depth_word: "length xs < 2 ^ 60 \<Longrightarrow> (of_nat (length xs) :: vm_int) \<noteq> of_nat (Suc (length xs))"
  by (simp add: word_of_nat_eq_iff)

lemma op_call_ext_bad_args:
  assumes e: "env_ok vm" and h: "heap_ok vm" "stk vm (ob # lib # xs)" and ev: "envs vm (env vm) = Some ev"
    and b: "objs vm ob = Some o1" "otype o1 \<noteq> FIXNUM" and t: "handled_by vm (env vm) h" "envs vm h = Some hv"
      "\<forall>h'. \<not> handled_by vm (parent hv) h'" and len: "length xs < 2 ^ 60"
  shows "op_call_ext x vm = Inl Assert_Failed"
proof -
  obtain v1 where v1: "vm_pop vm = Inr (v1, ob)" "stk v1 (lib # xs)" "quiet vm v1" "heap_ok vm \<longrightarrow> heap_ok v1" "objs v1 = objs vm"
    "next_addr v1 = next_addr vm" by (rule vm_pop_ok [OF h(2)])
  obtain v2 where v2: "vm_pop v1 = Inr (v2, lib)" "stk v2 xs" "quiet v1 v2" "heap_ok v1 \<longrightarrow> heap_ok v2" "objs v2 = objs v1"
    "next_addr v2 = next_addr v1" by (rule vm_pop_ok [OF v1(2)])
  have nz: "ob \<noteq> 0" "lib \<noteq> 0" using h(2) by (auto simp: stk_def)
  have q: "quiet vm v2" using quiet_trans [OF v1(3) v2(3)] .
  then have s: "envs v2 = envs vm" "env v2 = env vm" by (simp_all add: quiet_def)
  have e2: "env_ok v2" using e s v1(6) v2(6) by (simp add: env_ok_def)
  have h2: "heap_ok v2" using h(1) v1(4) v2(4) by simp
  have hb: "handled_by v2 e h" if "handled_by vm e h" for e h
    using that by (induction rule: handled_by.induct) (auto intro: handled_by.intros simp: s(1))
  have ty: "is_type v2 ob FIXNUM = Inr False" using b nz v1(5) v2(5) by (simp add: is_type_def get_obj_def)
  let ?m = "chars ''Invalid arguments to call_ext''"
  have m: "length ?m < 2 ^ 62" "0 \<notin> set ?m" by (simp_all add: chars_def)
  obtain v3 y hv' where v3: "throw v2 ?m [ob, lib] = Inr v3" "kept v2 v3" "heap_ok v3" "stk v3 (y # xs)" "envs v2 h = Some hv'"
    "envs v3 (env v3) = Some (hv'\<lparr>handler := False, ip := handler_addr hv'\<rparr>)"
    using throw_handled [OF e2 h2 v2(2) _ _ m, of ev "[ob, lib]" h] ev s nz hb [OF t(1)] by auto
  have e3: "env_ok v3" using throw_wp [OF e2, of env_ok ?m "[ob, lib]"] v3(1) by (auto dest: okrD)
  have hv: "hv' = hv" using v3(5) t(2) s(1) by simp
  have d: "depth v2 = of_nat (length xs)" "depth v3 = of_nat (Suc (length xs))" using v2(2) v3(4) by (simp_all add: stk_def)
  have keep: "envs v3 a = envs vm a" if "a < next_addr v2" for a using v3(2) that s(1) by (simp add: kept_def)
  have up: "handled_by vm a h'" if "handled_by v3 a h'" "a < next_addr v2" for a h'
    using that
  proof (induction rule: handled_by.induct)
    case (own a ev)
    then have "envs vm a = Some ev" using keep by simp
    then show ?case using own(2) by (rule handled_by.own)
  next
    case (parents a ev h')
    then have a: "envs vm a = Some ev" using keep by simp
    then have "parent ev < next_addr v2" using env_parent [OF e2, of a] s(1) by simp
    then show ?case using handled_by.parents [OF a parents(2)] parents.IH by blast
  qed
  have "parent hv < next_addr v2" using env_parent [OF e2] v3(5) hv by blast
  then have "\<not> handled_by v3 (parent hv) h'" for h' using up t(3) by blast
  then have "\<not> handled_by v3 (env v3) h'" for h'
    using v3(6) hv by (subst handled_by.simps) simp
  then have "throw v3 (chars ''Stack uneven after call_ext'') [] = Inl Assert_Failed"
    by (intro throw_unhandled [OF e3 v3(3,4,6)]) (simp_all add: chars_def)
  then show ?thesis
    using v1(1) v2(1) ty v3(1) d depth_word [OF len] by (simp add: op_call_ext_def)
qed

end
