(* ===== verification/Vm_Props.thy ===== *)
theory Vm_Props
  imports Vm_Facts
begin

text \<open>
  The properties of the virtual machine, each over the lemmas of the theories before, with a machine
  on which it holds: arithmetic, opcodes, equality, vectors, printing, exceptions, jumps, calls and
  the invariant of the environments.
\<close>

section \<open>Machines for examples\<close>

lemma object_machine:
  "\<forall>ob\<in>set obs. otype ob \<noteq> EMPTY \<Longrightarrow> \<exists>(vm :: unit vm) xs ev. good vm vm xs \<and> list_all2 (\<lambda>a ob. objs vm a = Some ob) xs obs
     \<and> env_ok vm \<and> envs vm (env vm) = Some ev \<and> parent ev = 0 \<and> out_depth vm = 0 \<and> env vm \<noteq> 0"
proof (induction obs)
  case Nil
  obtain vm :: "unit vm" where v: "good vm vm []" "env_ok vm" "env vm \<noteq> 0" "out_depth vm = 0" "\<exists>ev. envs vm (env vm) = Some ev \<and> parent ev = 0"
    using vm_create_run [of "()"] by blast
  then show ?case by blast
next
  case (Cons ob obs)
  then obtain vm :: "unit vm" and xs ev where v: "good vm vm xs" "list_all2 (\<lambda>a ob. objs vm a = Some ob) xs obs"
    "env_ok vm" "envs vm (env vm) = Some ev" "parent ev = 0" "out_depth vm = 0" "env vm \<noteq> 0" by auto
  obtain v1 a where n: "vm_new vm (otype ob) (ovalue ob) = (v1, a)" by force
  have h: "heap_ok vm" using v(1) by (simp add: good_def)
  have g: "grows vm v1" "a \<noteq> 0" "objs v1 a = Some ob" "envs v1 = envs vm" "out_depth v1 = out_depth vm" "env_ok v1"
    using new_grows [OF h _ n] vm_new_keeps [OF v(3), of "otype ob" "ovalue ob"] Cons.prems n by (auto simp: vm_new_eq)
  have s1: "stk v1 xs" "heap_ok v1" using v(1) g(1) stk_grows [of vm xs v1] by (simp_all add: good_def grows_def)
  have g2: "good v1 (vm_push v1 a) (a # xs)" using good_push [OF good_start [OF s1(2,1)] g(2)] .
  have "\<forall>x ob. objs vm x = Some ob \<longrightarrow> objs (vm_push v1 a) x = Some ob"
    using kept_obj [of vm v1] good_old [OF g2] h g(1) by (auto simp: grows_def)
  then have "list_all2 (\<lambda>x ob. objs (vm_push v1 a) x = Some ob) (a # xs) (ob # obs)"
    using v(2) good_old [OF g2 g(3)] by (auto simp: list_all2_conv_all_nth nth_Cons split: nat.split)
  moreover have "envs (vm_push v1 a) = envs vm" "env (vm_push v1 a) = env vm" "out_depth (vm_push v1 a) = 0"
    using g v(6) by (simp_all add: vm_push_eq grows_def)
  moreover have "good (vm_push v1 a) (vm_push v1 a) (a # xs)" "env_ok (vm_push v1 a)" using g2 g(6) by (simp_all add: good_def)
  ultimately show ?case using v(4,5,7) by metis
qed


lemma number_neq_empty: "otype \<lparr>otype = FIXNUM, ovalue = v\<rparr> \<noteq> EMPTY"
  by simp

section \<open>Properties\<close>

text \<open>C22: addition, subtraction and multiplication leave the result cut to 64 bits; division and modulus
  truncate towards zero; a zero divisor and the one quotient that overflows stop the process, for no
  instruction checks them.\<close>

theorem arithmetic_spec:
  assumes "two_numbers vm i j xs"
  shows "leaves_number (op_add vm) (word_of_int (sint i + sint j)) xs
    \<and> leaves_number (op_sub vm) (word_of_int (sint i - sint j)) xs
    \<and> leaves_number (op_mul vm) (word_of_int (sint i * sint j)) xs
    \<and> (if j = 0 \<or> (sint i = - (2 ^ 63) \<and> sint j = - 1) then op_div vm = Inl Div_Trap \<and> op_mod vm = Inl Div_Trap
       else leaves_number (op_div vm) (word_of_int (sint i sdiv sint j)) xs
         \<and> leaves_number (op_mod vm) (word_of_int (sint i smod sint j)) xs)"
proof -
  have w: "word_of_int (sint i + sint j) = i + j" "word_of_int (sint i - sint j) = i - j" "word_of_int (sint i * sint j) = i * j"
    by simp_all
  show ?thesis unfolding w op_add_def op_sub_def op_mul_def op_div_def op_mod_def
    using NUMERIC_OP_leaves [OF assms] NUMERIC_OP_stops [OF assms] by (auto simp: div_traps_def)
qed

theorem arithmetic_spec_witness:
  "\<exists>(vm :: unit vm) xs. two_numbers vm (- 7) 2 xs \<and> leaves_number (op_div vm) (- 3) xs \<and> leaves_number (op_mod vm) (- 1) xs
    \<and> leaves_number (op_mul vm) (- 14) xs"
proof -
  obtain vm :: "unit vm" and ys where v: "good vm vm ys"
    "list_all2 (\<lambda>a ob. objs vm a = Some ob) ys [\<lparr>otype = FIXNUM, ovalue = Integer 2\<rparr>, \<lparr>otype = FIXNUM, ovalue = Integer (- 7)\<rparr>]"
    using object_machine [of "[\<lparr>otype = FIXNUM, ovalue = Integer 2\<rparr>, \<lparr>otype = FIXNUM, ovalue = Integer (- 7)\<rparr>]"] by auto
  then have t: "two_numbers vm (- 7) 2 []" by (auto simp: two_numbers_def list_all2_Cons2)
  from arithmetic_spec [OF t] show ?thesis using t by (auto simp: signed_divide_int_def signed_modulo_int_def)
qed

text \<open>C24: one round of the evaluation runs the instruction the table has for the opcode; the opcodes without
  one are those past the enumeration and two inside it, \<open>OP_NOP\<close> and \<open>OP_IS_LIBRARY\<close>: they abort.\<close>

theorem undefined_opcode_aborts:
  assumes "at_code vm code i" "i < length code"
  shows "if code ! i \<in> set all_ops - {OP_NOP, OP_IS_LIBRARY}
    then \<exists>f. setup_instructions x (code ! i) = Some f \<and> vm_step x vm = f (advance vm 1)
    else vm_step x vm = Inl Assert_Failed"
proof (cases "setup_instructions x (code ! i)")
  case None
  then have "code ! i \<notin> set all_ops - {OP_NOP, OP_IS_LIBRARY}" using dom_setup [of x "code ! i"] installed [of x] by blast
  moreover obtain ev where ev: "envs vm (env vm) = Some ev" "ip ev = of_nat i" using assms(1) by (auto simp: at_code_def)
  have "vm_step x vm = Inl Assert_Failed"
    using ev code_byte_at [OF assms] upd_ip [OF assms(1), where n = 1] None by (simp add: vm_step_def get_env_def)
  ultimately show ?thesis by auto
next
  case (Some f)
  then have "code ! i \<in> set all_ops - {OP_NOP, OP_IS_LIBRARY}" using dom_setup [of x "code ! i"] installed [of x] by blast
  then show ?thesis using vm_step_at [OF assms Some] Some by simp
qed

theorem undefined_opcode_aborts_witness:
  "\<exists>vm :: unit vm. at_code vm [OP_NOP] 0 \<and> vm_step closed_world vm = Inl Assert_Failed"
proof -
  obtain vm :: "unit vm" where vm: "ready vm []" using ready_new by metis
  obtain vm1 p where p: "code_block vm [OP_NOP] = Inr (vm1, p)" using code_block_run [of "[OP_NOP]" vm] by auto
  obtain vm2 where l: "vm_load vm1 (of_nat (length [OP_NOP])) p [] = Inr vm2"
    using vm p code_block_run [of "[OP_NOP]" vm] by (auto simp: ready_def vm_load_def upd_env_def get_env_def)
  have "at_code vm2 [OP_NOP] 0" using loaded [OF vm _ p l] by simp
  with undefined_opcode_aborts [OF this, of closed_world] show ?thesis by auto
qed

text \<open>\<open>eq\<close> compares a number on top of the stack with the first word of whatever is below it: 1 and the
  true object are equal.\<close>

theorem eq_ignores_types:
  assumes "good vm vm (a # b # xs)" "objs vm a = Some \<lparr>otype = FIXNUM, ovalue = Integer i\<rparr>"
    "objs vm b = Some \<lparr>otype = BOOL, ovalue = Boolean t\<rparr>"
  shows "\<exists>vm'. op_eq vm = Inr vm' \<and> good vm vm' (bool_obj vm (i = (if t then 1 else 0)) # xs)"
  using op_eq_run [OF assms(1-3), of "i = (if t then 1 else 0)"] by (auto simp: gives_def integer_def)

theorem eq_ignores_types_witness:
  "\<exists>(vm :: unit vm) vm' a b. stk vm [a, b] \<and> objs vm a = Some \<lparr>otype = FIXNUM, ovalue = Integer 1\<rparr>
    \<and> objs vm b = Some \<lparr>otype = BOOL, ovalue = Boolean True\<rparr> \<and> op_eq vm = Inr vm' \<and> stk vm' [vm_true vm]"
proof -
  obtain vm :: "unit vm" and ys where v: "good vm vm ys"
    "list_all2 (\<lambda>a ob. objs vm a = Some ob) ys [\<lparr>otype = FIXNUM, ovalue = Integer 1\<rparr>, \<lparr>otype = BOOL, ovalue = Boolean True\<rparr>]"
    using object_machine [of "[\<lparr>otype = FIXNUM, ovalue = Integer 1\<rparr>, \<lparr>otype = BOOL, ovalue = Boolean True\<rparr>]"] by auto
  then obtain a b where ab: "ys = [a, b]" "objs vm a = Some \<lparr>otype = FIXNUM, ovalue = Integer 1\<rparr>"
    "objs vm b = Some \<lparr>otype = BOOL, ovalue = Boolean True\<rparr>" by (auto simp: list_all2_Cons2)
  from eq_ignores_types [OF v(1) [unfolded ab(1)] ab(2,3)] show ?thesis using v(1) ab by (auto simp: good_def bool_obj_def)
qed

text \<open>C23: setting an element of a vector checks the index against the length and not below it, and not for
  negative numbers: an index inside sets the element, an index larger than the length is an
  exception, and the length itself or a negative index writes outside the block.\<close>

theorem vector_index_bound:
  assumes "heap_ok vm" "stk vm (v # x # i # xs)" "vector vm v p cells" "number vm i index"
  shows "if 0 \<le> sint index \<and> sint index < int (length cells)
    then \<exists>vm'. op_index_set vm = Inr vm' \<and> stk vm' xs \<and> vector vm' v p (cells[nat (sint index) := x])
    else if int (length cells) < sint index
    then \<exists>vm'. op_index_set vm = throw vm' (chars ''Set by index requires a vector.'') [v] \<and> stk vm' xs
    else op_index_set vm = Inl Out_Of_Bounds"
  using op_index_set_run [OF assms] op_index_set_throws [OF assms] by auto

theorem vector_index_bound_witness:
  "\<exists>(vm :: unit vm) v x i p. vector vm v p [0, 0] \<and> number vm i 2 \<and> stk vm [v, x, i] \<and> op_index_set vm = Inl Out_Of_Bounds"
proof -
  let ?obs = "[\<lparr>otype = VECTOR, ovalue = Block 2 9999\<rparr>, \<lparr>otype = FIXNUM, ovalue = Integer 7\<rparr>, \<lparr>otype = FIXNUM, ovalue = Integer 2\<rparr>]"
  obtain vm :: "unit vm" and ys where v: "good vm vm ys" "list_all2 (\<lambda>a ob. objs vm a = Some ob) ys ?obs"
    using object_machine [of ?obs] by auto
  then obtain a b c where abc: "ys = [a, b, c]" "objs vm a = Some \<lparr>otype = VECTOR, ovalue = Block 2 9999\<rparr>"
    "objs vm c = Some \<lparr>otype = FIXNUM, ovalue = Integer 2\<rparr>" by (auto simp: list_all2_Cons2)
  let ?v = "vm\<lparr>vecs := (vecs vm)(9999 \<mapsto> [0, 0])\<rparr>"
  have st: "stk_at ?v r zs = stk_at vm r zs" for r zs by (induction zs arbitrary: r) auto
  have h: "heap_ok ?v" "stk ?v [a, b, c]" using v(1) abc(1) st by (simp_all add: good_def heap_ok_def stk_def del: stk_at.simps)
  have o: "vector ?v a 9999 [0, 0]" "number ?v c 2" using abc by (simp_all add: vector_def number_def)
  have "sint (2 :: vm_int) = 2" by simp
  then have "op_index_set ?v = Inl Out_Of_Bounds" using vector_index_bound [OF h o] by simp
  then show ?thesis using h(2) o by blast
qed

text \<open>C21: printing any object ends, whatever its cycles, within the hundred levels the code allows; it changes
  nothing in the machine but the output and the static depth, which it never lowers.\<close>

theorem output_terminates:
  assumes "env_ok vm"
  shows "vm_output_object x vm ob \<noteq> Inl Stack_Overflow \<and> (\<forall>vm'. vm_output_object x vm ob = Inr vm' \<longrightarrow> printed vm vm')"
  using output_object_prints [of OUTPUT_MAX_DEPTH vm "x_ptr x" ob] assms
  by (simp add: vm_output_object_def prints_def OUTPUT_MAX_DEPTH_def)


theorem output_terminates_witness:
  "\<exists>vm :: unit vm. vm_create () = Inr vm \<and> vm_output_object closed_world vm (vm_true vm) \<noteq> Inl Stack_Overflow"
proof -
  obtain vm :: "unit vm" where vm: "vm_create () = Inr vm" "env_ok vm" using vm_create_run [of "()"] by blast
  then show ?thesis using output_terminates [OF vm(2)] by blast
qed

lemma output_nil:
  "out_depth v + 1 < OUTPUT_MAX_DEPTH \<Longrightarrow> output_object (Suc m) ptr v 0 = Inr (print_s (v\<lparr>out_depth := out_depth v + 1\<rparr>) ''<nil>'')"
  by simp

lemma null_elements:
  assumes f: "\<And>v. out_depth v + 1 < OUTPUT_MAX_DEPTH \<Longrightarrow> f v 0 = Inr (print_s (v\<lparr>out_depth := out_depth v + 1\<rparr>) ''<nil>'')"
  shows "\<forall>i\<in>set is. i < n \<Longrightarrow> vecs vm p = Some (replicate n 0) \<Longrightarrow> out_depth vm + length is < OUTPUT_MAX_DEPTH
    \<Longrightarrow> \<exists>bs. vector_loop f p is vm = Inr (vm\<lparr>out := out vm @ bs, out_depth := out_depth vm + length is\<rparr>)"
proof (induction "is" arbitrary: vm)
  case Nil
  show ?case by (rule exI [of _ "[]"]) simp
next
  case (Cons i "is")
  define v where "v = (if 0 < i then print_s vm '' '' else vm)"
  obtain cs where v: "v = vm\<lparr>out := out vm @ cs\<rparr>"
    by (cases "0 < i") (auto simp: v_def print_s_def print_def intro: that [of "[]"])
  define w where "w = vm\<lparr>out := out vm @ cs @ chars ''<nil>'', out_depth := out_depth vm + 1\<rparr>"
  have fw: "f v 0 = Inr w" using f [of v] Cons.prems(3) by (simp add: v w_def print_s_def print_def)
  obtain bs where "vector_loop f p is w = Inr (w\<lparr>out := out w @ bs, out_depth := out_depth w + length is\<rparr>)"
    using Cons.IH [of w] Cons.prems by (auto simp: w_def)
  moreover have "vecs v p = Some (replicate n 0)" "i < n" using Cons.prems by (simp_all add: v)
  ultimately show ?case unfolding vector_loop.simps Let_def v_def [symmetric]
    by (intro exI [of _ "cs @ chars ''<nil>'' @ bs"]) (simp add: nth_checked_def fw, simp add: w_def)
qed

text \<open>a null element of a vector is printed without the static depth being lowered again: printing a new
  vector of \<open>n\<close> elements raises it by \<open>n\<close> for good, up to the limit past which nothing is printed.\<close>

theorem null_elements_leak_depth:
  assumes "vector vm v p (replicate n 0)" "out_depth vm + n + 1 < OUTPUT_MAX_DEPTH" "v \<noteq> 0"
  shows "\<exists>vm'. vm_output_object x vm v = Inr vm' \<and> out_depth vm' = out_depth vm + n"
proof -
  let ?v = "print_s (vm\<lparr>out_depth := out_depth vm + 1\<rparr>) ''#(''"
  have ob: "objs vm v = Some \<lparr>otype = VECTOR, ovalue = Block (of_nat n) p\<rparr>" "vecs vm p = Some (replicate n 0)" "n < 2 ^ 60"
    using assms(1) by (simp_all add: vector_def)
  have ix: "indices (of_nat n) = [0..<n]"
    using ob(3) by (simp add: indices_def signed_of_nat signed_take_bit_int_eq_self)
  obtain bs where l: "vector_loop (output_object (Suc 98) (x_ptr x)) p [0..<n] ?v
      = Inr (?v\<lparr>out := out ?v @ bs, out_depth := out_depth ?v + n\<rparr>)"
    using null_elements [of "output_object (Suc 98) (x_ptr x)", OF output_nil, of "[0..<n]" n ?v p] ob(2) assms(2)
    by (auto simp: print_s_def print_def simp del: output_object.simps)
  have m: "OUTPUT_MAX_DEPTH = Suc (Suc 98)" by (simp add: OUTPUT_MAX_DEPTH_def)
  have d: "\<not> OUTPUT_MAX_DEPTH \<le> out_depth (vm\<lparr>out_depth := out_depth vm + 1\<rparr>)" using assms(2) by simp
  have o: "get_obj (vm\<lparr>out_depth := out_depth vm + 1\<rparr>) v = Inr \<lparr>otype = VECTOR, ovalue = Block (of_nat n) p\<rparr>"
    using ob(1) by (simp add: get_obj_def)
  have c: "output_cells ''#('' '')'' (output_object (Suc 98) (x_ptr x)) (vm\<lparr>out_depth := out_depth vm + 1\<rparr>)
      \<lparr>otype = VECTOR, ovalue = Block (of_nat n) p\<rparr> = Inr (print_s (?v\<lparr>out := out ?v @ bs, out_depth := out_depth ?v + n\<rparr>) '')'')"
    using l by (simp add: output_cells_def block_def ix del: output_object.simps)
  have "vm_output_object x vm v = output_object (Suc (Suc 98)) (x_ptr x) vm v"
    unfolding vm_output_object_def m ..
  also have "\<dots> = Inr ((print_s (?v\<lparr>out := out ?v @ bs, out_depth := out_depth ?v + n\<rparr>) '')'')\<lparr>out_depth := out_depth vm + n\<rparr>)"
    by (subst output_object.simps(2)) (use assms(3) d o c in \<open>simp add: Let_def print_s_def print_def del: output_object.simps\<close>)
  finally have "vm_output_object x vm v = Inr ((print_s (?v\<lparr>out := out ?v @ bs, out_depth := out_depth ?v + n\<rparr>) '')'')\<lparr>out_depth := out_depth vm + n\<rparr>)" .
  then show ?thesis by simp
qed


theorem null_elements_leak_depth_witness:
  "\<exists>(vm :: unit vm) vm' v p. vector vm v p [0, 0] \<and> out_depth vm = 0 \<and> vm_output_object closed_world vm v = Inr vm'
    \<and> out_depth vm' = 2"
proof -
  let ?obs = "[\<lparr>otype = VECTOR, ovalue = Block 2 9999\<rparr>]"
  obtain vm :: "unit vm" and ys where v: "good vm vm ys" "list_all2 (\<lambda>a ob. objs vm a = Some ob) ys ?obs" "out_depth vm = 0"
    using object_machine [of ?obs] by fastforce
  then obtain a where a: "ys = [a]" "objs vm a = Some \<lparr>otype = VECTOR, ovalue = Block 2 9999\<rparr>" by (auto simp: list_all2_Cons2)
  let ?v = "vm\<lparr>vecs := (vecs vm)(9999 \<mapsto> [0, 0])\<rparr>"
  have r: "replicate 2 (0 :: addr) = [0, 0]" by (simp add: numeral_2_eq_2)
  have o: "vector ?v a 9999 [0, 0]" using a by (simp add: vector_def)
  have nz: "a \<noteq> 0" using v(1) a(1) by (auto simp: good_def stk_def)
  have d: "out_depth ?v + 2 + 1 < OUTPUT_MAX_DEPTH" "out_depth ?v = 0" using v(3) by (simp_all add: OUTPUT_MAX_DEPTH_def)
  have "vector ?v a 9999 (replicate 2 0)" unfolding r by (rule o)
  from null_elements_leak_depth [OF this d(1) nz, of closed_world]
  obtain vm' where "vm_output_object closed_world ?v a = Inr vm'" "out_depth vm' = 2" unfolding d(2) by auto
  then show ?thesis using o d(2) by blast
qed

text \<open>C14: an exception is put on the stack, with its message, the place it was thrown at and its objects, and
  the machine continues at the handler of the nearest environment that has one, in a copy of that
  environment in which the handler is off; without a handler the program aborts.\<close>

theorem throw_spec:
  assumes "env_ok vm" "heap_ok vm" "stk vm xs" "envs vm (env vm) = Some ev" "\<forall>x\<in>set args. x \<noteq> 0"
    "length msg < 2 ^ 62" "0 \<notin> set msg"
  shows "(\<forall>h. handled_by vm (env vm) h \<longrightarrow> (\<exists>vm' x hv. throw vm msg args = Inr vm' \<and> kept vm vm' \<and> stk vm' (x # xs)
      \<and> exception vm' x msg ev args \<and> envs vm h = Some hv
      \<and> envs vm' (env vm') = Some (hv\<lparr>handler := False, ip := handler_addr hv\<rparr>)))
    \<and> ((\<forall>h. \<not> handled_by vm (env vm) h) \<longrightarrow> throw vm msg args = Inl Assert_Failed)"
  using throw_handled [OF assms] throw_unhandled [OF assms] by blast

lemma handler_machine:
  assumes "\<forall>ob\<in>set obs. otype ob \<noteq> EMPTY"
  shows "\<exists>(vm :: unit vm) xs ev. good vm vm xs \<and> list_all2 (\<lambda>a ob. objs vm a = Some ob) xs obs \<and> env_ok vm
    \<and> envs vm (env vm) = Some ev \<and> parent ev = 0 \<and> handler ev \<and> handled_by vm (env vm) (env vm)
    \<and> (\<forall>h. \<not> handled_by vm 0 h)"
proof -
  obtain vm :: "unit vm" and xs ev where v: "good vm vm xs" "list_all2 (\<lambda>a ob. objs vm a = Some ob) xs obs" "env_ok vm"
    "envs vm (env vm) = Some ev" "parent ev = 0" "env vm \<noteq> 0"
    using object_machine [OF assms] by blast
  let ?v = "vm\<lparr>envs := (envs vm)(env vm \<mapsto> ev\<lparr>handler := True\<rparr>)\<rparr>"
  have lt: "env vm < next_addr vm" using env_parent [OF v(3,4)] by simp
  have "heap_ok vm" "stk vm xs" using v(1) by (simp_all add: good_def)
  then have "heap_ok ?v" "stk ?v xs" using lt by (auto simp: heap_ok_def)
  then have "good ?v ?v xs" by (rule good_start)
  moreover have "env_ok ?v" by (rule upd_env_keeps [OF _ v(3), of "env vm" "\<lambda>e. e\<lparr>handler := True\<rparr>"])
      (simp_all add: upd_env_def get_env_def v(4))
  moreover have "handled_by ?v (env ?v) (env ?v)" by (rule handled_by.own [where ev = "ev\<lparr>handler := True\<rparr>"]) simp_all
  moreover have "envs ?v 0 = None" using v(3,6) by (auto simp: env_ok_def) (metis less_nat_zero_code option.exhaust)
  then have "\<forall>h. \<not> handled_by ?v 0 h" by (auto elim: handled_byE)
  ultimately show ?thesis using v(2,5) by (intro exI [of _ ?v] exI [of _ xs] exI [of _ "ev\<lparr>handler := True\<rparr>"]) simp
qed

theorem throw_spec_witness:
  "\<exists>(vm :: unit vm) vm' x a. throw vm (chars ''x'') [a] = Inr vm' \<and> stk vm [a] \<and> stk vm' [x, a]"
proof -
  let ?obs = "[\<lparr>otype = FIXNUM, ovalue = Integer 7\<rparr>]"
  obtain vm :: "unit vm" and ys ev where v: "good vm vm ys" "list_all2 (\<lambda>a ob. objs vm a = Some ob) ys ?obs" "env_ok vm"
    "envs vm (env vm) = Some ev" "handled_by vm (env vm) (env vm)"
    using handler_machine [of ?obs] by auto
  then obtain a where a: "ys = [a]" by (auto simp: list_all2_Cons2)
  have h: "heap_ok vm" "stk vm [a]" "a \<noteq> 0" using v(1) a by (auto simp: good_def stk_def)
  have "\<forall>x\<in>set [a]. x \<noteq> 0" "length (chars ''x'') < 2 ^ 62" "0 \<notin> set (chars ''x'')" using h(3) by (simp_all add: chars_def)
  from throw_spec [OF v(3) h(1,2) v(4) this] v(5) h(2) show ?thesis by blast
qed

text \<open>a wrong argument to \<open>call_ext\<close> cannot be handled at the top level: the exception goes to the handler,
  then the comparison of the stack's depths throws a second one, which has no handler left.\<close>

theorem call_ext_throws_twice:
  assumes "env_ok vm" "heap_ok vm" "stk vm (ob # lib # xs)" "envs vm (env vm) = Some ev"
    "objs vm ob = Some o1" "otype o1 \<noteq> FIXNUM" "handled_by vm (env vm) h" "envs vm h = Some hv"
    "\<forall>h'. \<not> handled_by vm (parent hv) h'" "length xs < 2 ^ 60"
  shows "op_call_ext x vm = Inl Assert_Failed"
  by (rule op_call_ext_bad_args [OF assms])

theorem call_ext_throws_twice_witness:
  "\<exists>(vm :: unit vm) h. handled_by vm (env vm) h \<and> op_call_ext closed_world vm = Inl Assert_Failed"
proof -
  let ?obs = "[\<lparr>otype = BOOL, ovalue = Boolean True\<rparr>, \<lparr>otype = FIXNUM, ovalue = Integer 7\<rparr>]"
  obtain vm :: "unit vm" and ys ev where v: "good vm vm ys" "list_all2 (\<lambda>a ob. objs vm a = Some ob) ys ?obs" "env_ok vm"
    "envs vm (env vm) = Some ev" "parent ev = 0" "handled_by vm (env vm) (env vm)" "\<forall>h. \<not> handled_by vm 0 h"
    using handler_machine [of ?obs] by auto
  then obtain a b where ab: "ys = [a, b]" "objs vm a = Some \<lparr>otype = BOOL, ovalue = Boolean True\<rparr>" by (auto simp: list_all2_Cons2)
  have h: "heap_ok vm" "stk vm [a, b]" using v(1) ab(1) by (simp_all add: good_def)
  have "op_call_ext closed_world vm = Inl Assert_Failed"
    by (rule call_ext_throws_twice [OF v(3) h v(4) ab(2) _ v(6,4)]) (use v(5,7) in simp_all)
  then show ?thesis using v(6) by blast
qed


text \<open>C20: in assembled code a jump instruction, once its opcode is read, continues at the position of its
  label.\<close>

theorem assembled_jump_lands:
  assumes "asm_string toks dbg = Inr (code, dbg')" "asm_start dbg = Inr s" "asm_loop s toks = Inr s'"
    "j \<in> set (jump_list s')" "at_code vm code (unat (jump_addr j))"
  shows "\<exists>p vm'. label_at s' (jump_label j) = Some (of_nat p) \<and> op_jmp vm = Inr vm' \<and> at_code vm' code p"
proof -
  have len: "length code < 2 ^ 63" using assms(5) by (simp add: at_code_def)
  then have "length code < 2 ^ 64" by simp
  from jumps_land [OF assms(1) this] have t: "targets s' code" "length code = length (contents (buf s'))"
    using assms(2,3) by auto
  have "asm_ok s'" using asm_start_ok [of dbg] asm_loop_extends [OF assms(3)] assms(2) by (auto simp: extends_def)
  from jump_fields [OF this _ assms(4)] have i: "unat (jump_addr j) + 8 \<le> length code" using t(2) len by simp
  obtain p where p: "label_at s' (jump_label j) = Some (of_nat p)" "operand code j + (jump_addr j + 8) = of_nat p"
    using t(1) assms(4) by (auto simp: targets_def)
  have "leads code (unat (jump_addr j)) p"
    using i p(2) by (simp add: leads_def operand_def algebra_simps)
  with op_jmp_run [OF assms(5)] p(1) show ?thesis by blast
qed

text \<open>A machine that has loaded a code.\<close>

lemma code_machine:
  assumes "length code < 2 ^ 62"
  shows "\<exists>(vm :: unit vm) xs. at_code vm code 0 \<and> good vm vm [] \<and> env_ok vm"
proof -
  obtain vm :: "unit vm" where vm: "good vm vm []" "env_ok vm" "env vm \<noteq> 0" "\<exists>ev. envs vm (env vm) = Some ev"
    using vm_create_run [of "()"] by blast
  then obtain ev where ev: "envs vm (env vm) = Some ev" by blast
  have lt: "env vm < next_addr vm" using env_parent [OF vm(2) ev] by simp
  then have r: "ready vm []" using vm(1) ev by (auto simp: ready_def has_stack_def)
  obtain vm1 p where p: "code_block vm code = Inr (vm1, p)" using code_block_run [OF assms] by blast
  have v1: "vm1 = vm\<lparr>blobs := (blobs vm)(next_addr vm \<mapsto> code), next_addr := next_addr vm + 1\<rparr>"
    using p code_block_run [OF assms, of vm] by auto
  obtain vm2 where l: "vm_load vm1 (of_nat (length code)) p [] = Inr vm2"
    using ev v1 by (auto simp: vm_load_def upd_env_def get_env_def)
  have "env_ok vm1" using vm(2) v1 by simp
  then have "env_ok vm2" using upd_env_keeps [OF l [unfolded vm_load_def]] by simp
  moreover have "has_stack vm2 []" "at_code vm2 code 0" using loaded [OF r assms p l] by simp_all
  ultimately show ?thesis by (auto simp: has_stack_def)
qed

theorem assembled_jump_lands_witness:
  "\<exists>(vm :: unit vm) vm' code d. asm_string demo_tokens False = Inr (code, d) \<and> at_code vm code 2
    \<and> op_jmp vm = Inr vm' \<and> at_code vm' code 0"
proof -
  obtain s s' where s: "asm_start False = Inr s" "asm_loop s demo_tokens = Inr s'"
    "contents (buf s') = OP_LIT_TRUE # OP_JMP # INT_64 0"
    "jump_list s' = [\<lparr>jump_label = chars ''loop'', jump_addr = 2, jump_lineno = 2\<rparr>]"
    "label_at s' (chars ''loop'') = Some 0"
    by (rule demo_run) blast
  obtain code where c: "asm_string demo_tokens False = Inr (code, debug_out s')" "length code = 10"
    using asm_string_result [OF s(1,2)] s(3-5) by auto
  obtain vm :: "unit vm" where v: "at_code vm code 0" using code_machine [of code] c(2) by auto
  have j: "\<lparr>jump_label = chars ''loop'', jump_addr = 2, jump_lineno = 2\<rparr> \<in> set (jump_list s')" using s(4) by simp
  have a: "at_code (advance vm (of_nat 2)) code 2" using at_advance [OF v, of 2] unfolding add_0 .
  then have a': "at_code (advance vm (of_nat 2)) code (unat (jump_addr \<lparr>jump_label = chars ''loop'', jump_addr = 2, jump_lineno = 2\<rparr>))"
    by simp
  obtain p vm' where p: "label_at s' (chars ''loop'') = Some (of_nat p)" "op_jmp (advance vm (of_nat 2)) = Inr vm'" "at_code vm' code p"
    using assembled_jump_lands [OF c(1) s(1,2) j a'] by auto
  have "(of_nat p :: vm_int) = 0" using p(1) s(5) by simp
  then have "at_code vm' code 0" using p(3) by (simp add: at_code_def)
  then show ?thesis using c(1) a p(2) by blast
qed

text \<open>C15: a call leaves a closure of the caller on the stack and runs its target in a child environment; a
  return through that closure, at any later time at which the closure, the environment of the caller and the
  caller's code are still what they were, goes on after the call with the caller's bindings and with the
  stack that the callee left below the closure.\<close>

theorem call_then_return:
  fixes vm :: "'w vm"
  assumes "heap_ok vm" "stk vm xs" "at_code vm code i" "leads code i l" "envs vm (env vm) = Some ev" "env vm \<noteq> 0"
  shows "\<exists>v k ce. op_call vm = Inr v \<and> heap_ok v \<and> stk v (k # xs) \<and> at_code v code l \<and> env v \<noteq> env vm
    \<and> envs v (env v) = Some ce \<and> parent ce = env vm
    \<and> (\<forall>(w :: 'w vm) ys. heap_ok w \<and> stk w (k # ys) \<and> objs w k = objs v k \<and> envs w (env vm) = envs v (env vm)
        \<and> blobs w (code_ref ev) = blobs v (code_ref ev) \<longrightarrow>
        (\<exists>w'. op_ret w = Inr w' \<and> stk w' ys \<and> at_code w' code (i + 8) \<and> envs w' (env w') = Some (ev\<lparr>ip := ip ev + 8\<rparr>)))"
proof -
  obtain v k ce where c: "op_call vm = Inr v" "heap_ok v" "kept (advance vm 8) v" "stk v (k # xs)"
    "objs v k = Some \<lparr>otype = CLOSURE, ovalue = Closure (env vm)\<rparr>" "at_code v code l"
    "envs v (env v) = Some ce" "parent ce = env vm" "env v \<noteq> env vm"
    using op_call_run [OF assms] by blast
  have h8: "heap_ok (advance vm 8)" by (rule heap_ok_advance [OF assms(1)])
  have e8: "envs (advance vm 8) (env vm) = Some (ev\<lparr>ip := ip ev + 8\<rparr>)" using assms(5) by (simp add: advance_def)
  have ev: "envs v (env vm) = Some (ev\<lparr>ip := ip ev + 8\<rparr>)" by (rule kept_env [OF c(3) h8 e8])
  obtain b: "blobs vm (code_ref ev) = Some code" "ip ev = of_nat i" "code_length ev = of_nat (length code)" "length code < 2 ^ 63"
    using assms(3,5) by (auto simp: at_code_def)
  have bv: "blobs v (code_ref ev) = Some code" using kept_blob [OF c(3) h8] b(1) by simp
  have "\<exists>w'. op_ret w = Inr w' \<and> stk w' ys \<and> at_code w' code (i + 8) \<and> envs w' (env w') = Some (ev\<lparr>ip := ip ev + 8\<rparr>)"
    if w: "heap_ok w" "stk w (k # ys)" "objs w k = objs v k" "envs w (env vm) = envs v (env vm)" "blobs w (code_ref ev) = blobs v (code_ref ev)"
    for w :: "'w vm" and ys
  proof -
    have k: "objs w k = Some \<lparr>otype = CLOSURE, ovalue = Closure (env vm)\<rparr>" "envs w (env vm) = Some (ev\<lparr>ip := ip ev + 8\<rparr>)"
      using w(3,4) c(5) ev by simp_all
    obtain w' where r: "op_ret w = Inr w'" "heap_ok w'" "kept w w'" "stk w' ys" "envs w' (env w') = Some (ev\<lparr>ip := ip ev + 8\<rparr>)"
      using op_ret_run [OF w(1,2) k] by blast
    have "blobs w' (code_ref ev) = Some code" using kept_blob [OF r(3) w(1)] w(5) bv by simp
    then have "at_code w' code (i + 8)" using r(5) b(2-4) by (simp add: at_code_def)
    then show ?thesis using r by blast
  qed
  then show ?thesis using c by blast
qed

text \<open>The code calls a procedure that leaves \<open>true\<close>, and is at the instruction after the call when it is back.\<close>

theorem call_then_return_witness:
  "\<exists>(vm :: unit vm) v1 v2 v3 v4. at_code vm (OP_CALL # INT_64 1 @ [OP_LIT_TRUE, OP_LIT_TRUE, OP_SWAP, OP_RET]) 0 \<and> stk vm []
    \<and> vm_step closed_world vm = Inr v1 \<and> at_code v1 (OP_CALL # INT_64 1 @ [OP_LIT_TRUE, OP_LIT_TRUE, OP_SWAP, OP_RET]) 10
    \<and> vm_step closed_world v1 = Inr v2 \<and> vm_step closed_world v2 = Inr v3 \<and> vm_step closed_world v3 = Inr v4
    \<and> at_code v4 (OP_CALL # INT_64 1 @ [OP_LIT_TRUE, OP_LIT_TRUE, OP_SWAP, OP_RET]) 9 \<and> stk v4 [vm_true vm]"
proof -
  let ?code = "OP_CALL # INT_64 1 @ [OP_LIT_TRUE, OP_LIT_TRUE, OP_SWAP, OP_RET]"
  have n: "length ?code = 13" "?code ! 0 = OP_CALL" "?code ! 10 = OP_LIT_TRUE" "?code ! 11 = OP_SWAP" "?code ! 12 = OP_RET"
    by (simp_all add: nth_append nth_Cons')
  have l: "leads ?code 1 10" by (simp add: leads_def int_of_INT_64)
  have s: "setup_instructions closed_world OP_CALL = Some op_call" "setup_instructions closed_world OP_RET = Some op_ret"
    "setup_instructions closed_world OP_LIT_TRUE = Some op_lit_true" "setup_instructions closed_world OP_SWAP = Some op_swap"
    by (simp_all add: setup_instructions_def instructions_def op_codes)
  obtain vm :: "unit vm" where v: "at_code vm ?code 0" "good vm vm []" "env_ok vm" using code_machine [of ?code] n(1) by auto
  let ?v = "advance vm (of_nat 1)"
  have a: "at_code ?v ?code 1" using at_advance [OF v(1), of 1] by (simp only: add_0)
  have g: "heap_ok ?v" "stk ?v []" using good_advance [OF v(2)] by (simp_all add: good_def)
  obtain ev where ev: "envs ?v (env ?v) = Some ev" using a by (auto simp: at_code_def)
  have "env vm \<noteq> 0" using env_parent [OF v(3), of "env vm"] v(1) by (auto simp: at_code_def)
  then have e: "env ?v \<noteq> 0" by simp
  from call_then_return [OF g a l ev e] obtain v1 k where c: "op_call ?v = Inr v1" "heap_ok v1" "stk v1 [k]" "at_code v1 ?code 10"
    "env v1 \<noteq> env ?v"
    "\<And>(w :: unit vm) ys. heap_ok w \<and> stk w (k # ys) \<and> objs w k = objs v1 k \<and> envs w (env ?v) = envs v1 (env ?v)
        \<and> blobs w (code_ref ev) = blobs v1 (code_ref ev) \<Longrightarrow> \<exists>w'. op_ret w = Inr w' \<and> stk w' ys \<and> at_code w' ?code (1 + 8)"
    by blast
  obtain v1' k' where c': "op_call ?v = Inr v1'" "kept (advance ?v 8) v1'" "stk v1' (k' # [])"
    "objs v1' k' = Some \<lparr>otype = CLOSURE, ovalue = Closure (env ?v)\<rparr>" using op_call_run [OF g a l ev e] by blast
  have kk: "k' = k" "v1' = v1" using c(1,3) c'(1,3) by (auto simp: stk_def)
  have t: "vm_true v1 = vm_true vm" "k < next_addr v1" using c'(2,4) heap_ok_below(1) [OF c(2)] by (simp_all add: kk kept_def)
  have 1: "vm_step closed_world vm = Inr v1" using vm_step_at [OF v(1), of closed_world op_call] n s(1) c(1) by simp
  let ?a = "advance v1 (of_nat 1)"
  have ga: "good ?a ?a [k]" using good_advance [of v1 "[k]"] c(2,3) by (simp add: good_def)
  have nt: "vm_true ?a \<noteq> 0" using c(2) by (simp add: heap_ok_def)
  let ?v2 = "vm_push ?a (vm_true ?a)"
  have g2: "good ?a ?v2 [vm_true ?a, k]" by (rule good_push [OF ga nt])
  have 2: "vm_step closed_world v1 = Inr ?v2" using vm_step_at [OF c(4), of closed_world op_lit_true] n s(3) by (simp add: op_lit_true_def)
  have q2: "quiet ?a ?v2" "heap_ok ?v2" "stk ?v2 [vm_true ?a, k]" using g2 by (simp_all add: good_def)
  have a2: "at_code ?v2 ?code 11" using at_quiet [OF at_advance [OF c(4), of 1] q2(1)] by simp
  let ?b = "advance ?v2 (of_nat 1)"
  have gb: "good ?b ?b [vm_true ?a, k]" using good_advance [of ?v2 "[vm_true ?a, k]"] q2(2,3) by (simp add: good_def)
  obtain v3 where v3: "op_swap ?b = Inr v3" "good ?b v3 [k, vm_true ?a]" using op_swap_run [OF gb] by (auto simp: gives_def)
  have 3: "vm_step closed_world ?v2 = Inr v3" using vm_step_at [OF a2, of closed_world op_swap] n s(4) v3(1) by simp
  have q3: "quiet ?b v3" "heap_ok v3" "stk v3 [k, vm_true ?a]" using v3(2) by (simp_all add: good_def)
  have a3: "at_code v3 ?code 12" using at_quiet [OF at_advance [OF a2, of 1] q3(1)] by simp
  let ?d = "advance v3 (of_nat 1)"
  have d: "heap_ok ?d" "stk ?d (k # [vm_true ?a])" using good_advance [of v3 "[k, vm_true ?a]"] q3(2,3) by (simp_all add: good_def)
  have en: "env ?v2 = env v1" "env v3 = env v1" using q2(1) q3(1) by (simp_all add: quiet_def)
  have "objs ?d k = objs v1 k" "envs ?d (env ?v) = envs v1 (env ?v)" "blobs ?d (code_ref ev) = blobs v1 (code_ref ev)"
    using q2(1) q3(1) t(2) c(5) en by (auto simp: quiet_def advance_def)
  then have "\<exists>w'. op_ret ?d = Inr w' \<and> stk w' [vm_true ?a] \<and> at_code w' ?code (1 + 8)" using c(6) [of ?d "[vm_true ?a]"] d by simp
  then obtain w where w: "op_ret ?d = Inr w" "stk w [vm_true ?a]" "at_code w ?code (1 + 8)" by metis
  have "vm_step closed_world v3 = Inr w" using vm_step_at [OF a3, of closed_world op_ret] n s(2) w(1) by simp
  moreover have "vm_true ?a = vm_true vm" using t(1) by simp
  moreover have "stk vm []" using v(2) by (simp add: good_def)
  ultimately show ?thesis using v(1) 1 2 3 c(4) w(2,3) by auto
qed

text \<open>C16: in every state a program reaches from a loaded machine the parents of every environment lead to the
  outermost one, so the searches for bindings, for handlers and for the environments to print end,
  whatever the library functions do that keep this.\<close>

theorem searches_end:
  assumes "calls_ok x" "vm_create w = Inr vm0" "vm_load vm0 len code dbg = Inr vm1" "vm_reach x vm1 vm"
  shows "env_ok vm \<and> find_env (next_addr vm) vm (env vm) k \<noteq> Inl Stack_Overflow
    \<and> (\<exists>h. find_handler (next_addr vm) vm (env vm) = Inr h \<and> (h \<noteq> 0 \<longrightarrow> (\<exists>hv. envs vm h = Some hv \<and> handler hv)))"
proof -
  have "env_ok vm0" using vm_create_run [of w] assms(2) by auto
  then have "env_ok vm1" using upd_env_keeps [OF assms(3) [unfolded vm_load_def]] by simp
  then have ok: "env_ok vm" using vm_reach_env_ok [OF assms(4,1)] by blast
  then have e: "env vm < next_addr vm" "env vm \<noteq> 0 \<longrightarrow> envs vm (env vm) \<noteq> None"
    using env_parent [OF ok, of "env vm"] by (auto simp: env_ok_def)
  show ?thesis using ok find_env_ok [OF ok e(1)] find_handler_ok [OF ok e(2,1)] by blast
qed

theorem searches_end_witness:
  "\<exists>(vm0 :: unit vm) vm1. vm_create () = Inr vm0 \<and> vm_load vm0 0 7 [] = Inr vm1 \<and> vm_reach closed_world vm1 vm1
    \<and> find_env (next_addr vm1) vm1 (env vm1) 5 \<noteq> Inl Stack_Overflow"
proof -
  obtain vm0 :: "unit vm" where vm: "vm_create () = Inr vm0" "\<exists>ev. envs vm0 (env vm0) = Some ev"
    using vm_create_run [of "()"] by blast
  then obtain vm1 where l: "vm_load vm0 0 7 [] = Inr vm1" by (auto simp: vm_load_def upd_env_def get_env_def)
  have "calls_ok closed_world" by (simp add: calls_ok_def closed_world_def)
  from searches_end [OF this vm(1) l vm_reach.refl] show ?thesis using vm(1) l vm_reach.refl by blast
qed

end
