(* ===== verification/Ins_Stream.thy ===== *)
theory Ins_Stream
  imports Interfaces
begin

text \<open>
  The instruction streams of the compiler: \<open>bootstrap_stream.c\<close>, \<open>bootstrap_stream_nodes.c\<close> and the
  types of \<open>bootstrap_internal.h\<close>. The parser builds its tree in them: doubly linked lists of nodes in
  a heap, moved from stream to stream by their ends. The lemmas relate a stream to the list of the
  nodes it holds; the heap provides the interface \<open>allocator\<close>.
\<close>

section \<open>Nodes and streams\<close>

datatype node_type =
    STREAM_LITERAL | STREAM_SYMBOL | STREAM_STRING | STREAM_OP
  | STREAM_QUOTED | STREAM_LOAD | STREAM_ASM | STREAM_ASM_STREAM
  | STREAM_BIND | STREAM_STORE
  | STREAM_LET_STAR
  | STREAM_TWO_ARG | STREAM_IF | STREAM_COND | STREAM_MATH | STREAM_RECORD_TYPE
  | STREAM_AND | STREAM_OR
  | STREAM_LAMBDA | STREAM_CALL

text \<open>The union: a pointer to a copy of a string, kept as its characters, or pointers to streams.\<close>

datatype node_value = Literal "u8 list" | One addr | Two addr addr

record ins_node =
  ntype :: node_type
  nvalue :: node_value
  nnext :: addr
  nprev :: addr
  ncolumn :: u32
  nline :: u32
  nfile :: "u8 list option"

record ins_stream =
  shead :: addr
  stail :: addr

text \<open>The generated scanner: the rest of the input it reads and its place there, and the inputs it goes back
  to, each with its place.\<close>

record scanner =
  yycolumn :: u32
  yylineno :: u32
  yyinput :: "u8 list option"
  yyinputs :: "(u8 list option \<times> u32 \<times> u32) list"

record compiler_core =
  nodes :: "addr \<Rightarrow> ins_node option"
  streams :: "addr \<Rightarrow> ins_stream option"
  next_ptr :: addr
  home :: "u8 list"
  include_depth :: int
  include_stack :: "u8 list option list"
  scan :: scanner
  label_index :: u64
  stream :: addr

text \<open>The members of the union. \<open>stream\<close> and the first member of \<open>two\<close> are the same word, and a node
  starts with null words. A string read as a stream, or a stream as a string, is a fault.\<close>

definition value_literal :: "ins_node \<Rightarrow> u8 list res" where
  "value_literal n = (case nvalue n of Literal s \<Rightarrow> Inr s | _ \<Rightarrow> Inl Bad_Pointer)"

definition value_stream :: "ins_node \<Rightarrow> addr res" where
  "value_stream n = (case nvalue n of Literal s \<Rightarrow> Inl Bad_Pointer | One p \<Rightarrow> Inr p | Two p q \<Rightarrow> Inr p)"

definition value_two :: "ins_node \<Rightarrow> (addr \<times> addr) res" where
  "value_two n = (case nvalue n of Literal s \<Rightarrow> Inl Bad_Pointer | One p \<Rightarrow> Inr (p, 0) | Two p q \<Rightarrow> Inr (p, q))"

section \<open>Operations on streams\<close>

definition set_node :: "compiler_core \<Rightarrow> addr \<Rightarrow> (ins_node \<Rightarrow> ins_node) \<Rightarrow> compiler_core res" where
  "set_node c p f = rbind (deref (nodes c p)) (\<lambda>n. Inr (c\<lparr>nodes := (nodes c)(p \<mapsto> f n)\<rparr>))"

definition set_stream :: "compiler_core \<Rightarrow> addr \<Rightarrow> (ins_stream \<Rightarrow> ins_stream) \<Rightarrow> compiler_core res" where
  "set_stream c p f = rbind (deref (streams c p)) (\<lambda>s. Inr (c\<lparr>streams := (streams c)(p \<mapsto> f s)\<rparr>))"

text \<open>\<open>tag_node\<close> of the scanner.\<close>

definition tag_node :: "scanner \<Rightarrow> ins_node \<Rightarrow> ins_node" where
  "tag_node sc n = n\<lparr>ncolumn := yycolumn sc, nline := yylineno sc\<rparr>"

text \<open>\<open>include_stack[include_depth]\<close>, which is before the array when no file is open.\<close>

definition include_path :: "compiler_core \<Rightarrow> u8 list option res" where
  "include_path c =
     (if include_depth c < 0 then Inl Out_Of_Bounds else nth_checked (include_stack c) (nat (include_depth c)))"

definition stream_alloc_node :: "compiler_core \<Rightarrow> node_type \<Rightarrow> (compiler_core \<times> addr) res" where
  "stream_alloc_node c ty =
     (let p = next_ptr c;
          n = \<lparr>ntype = ty, nvalue = Two 0 0, nnext = 0, nprev = 0, ncolumn = 0, nline = 0, nfile = None\<rparr>;
          n = tag_node (scan c) n in
      rbind (include_path c) (\<lambda>f. Inr (c\<lparr>nodes := (nodes c)(p \<mapsto> n\<lparr>nfile := f\<rparr>), next_ptr := p + 1\<rparr>, p)))"

definition stream_append :: "compiler_core \<Rightarrow> addr \<Rightarrow> addr \<Rightarrow> compiler_core res" where
  "stream_append c s n =
     rbind (deref (streams c s)) (\<lambda>st.
       if stail st = 0 then set_stream c s (\<lambda>st. st\<lparr>shead := n, stail := n\<rparr>)
       else
         rbind (set_node c (stail st) (\<lambda>t. t\<lparr>nnext := n\<rparr>)) (\<lambda>c.
         rbind (set_node c n (\<lambda>t. t\<lparr>nprev := stail st\<rparr>)) (\<lambda>c.
         set_stream c s (\<lambda>st. st\<lparr>stail := n\<rparr>))))"

definition stream_concat :: "compiler_core \<Rightarrow> addr \<Rightarrow> addr \<Rightarrow> compiler_core res" where
  "stream_concat c s source =
     (if source = 0 then Inl Assert_Failed
      else rbind (deref (streams c source)) (\<lambda>src.
        if shead src = 0 then Inr c
        else
          rbind (stream_append c s (shead src)) (\<lambda>c.
          rbind (deref (streams c source)) (\<lambda>src.
          set_stream c s (\<lambda>st. st\<lparr>stail := stail src\<rparr>)))))"

definition stream_create :: "compiler_core \<Rightarrow> compiler_core \<times> addr" where
  "stream_create c =
     (c\<lparr>streams := (streams c)(next_ptr c \<mapsto> \<lparr>shead = 0, stail = 0\<rparr>), next_ptr := next_ptr c + 1\<rparr>, next_ptr c)"

section \<open>Building nodes\<close>

text \<open>What the builders share: a node of a type, its value, and its place at the end of the stream.\<close>

definition build_node :: "node_type \<Rightarrow> node_value \<Rightarrow> compiler_core \<Rightarrow> addr \<Rightarrow> compiler_core res" where
  "build_node ty v c s =
     rbind (stream_alloc_node c ty) (\<lambda>(c, p).
     rbind (set_node c p (\<lambda>n. n\<lparr>nvalue := v\<rparr>)) (\<lambda>c.
     stream_append c s p))"

definition BUILD_SINGLE_STREAM :: "node_type \<Rightarrow> compiler_core \<Rightarrow> addr \<Rightarrow> addr \<Rightarrow> compiler_core res" where
  "BUILD_SINGLE_STREAM ty c s arg1 = build_node ty (One arg1) c s"

definition BUILD_DOUBLE_STREAM ::
  "node_type \<Rightarrow> compiler_core \<Rightarrow> addr \<Rightarrow> addr \<Rightarrow> addr \<Rightarrow> compiler_core res" where
  "BUILD_DOUBLE_STREAM ty c s arg1 arg2 = build_node ty (Two arg1 arg2) c s"

definition stream_quoted :: "compiler_core \<Rightarrow> addr \<Rightarrow> addr \<Rightarrow> compiler_core res" where
  "stream_quoted = BUILD_SINGLE_STREAM STREAM_QUOTED"

definition stream_load :: "compiler_core \<Rightarrow> addr \<Rightarrow> addr \<Rightarrow> compiler_core res" where
  "stream_load = BUILD_SINGLE_STREAM STREAM_LOAD"

definition stream_asm :: "compiler_core \<Rightarrow> addr \<Rightarrow> addr \<Rightarrow> compiler_core res" where
  "stream_asm = BUILD_SINGLE_STREAM STREAM_ASM"

definition stream_asm_stream :: "compiler_core \<Rightarrow> addr \<Rightarrow> addr \<Rightarrow> compiler_core res" where
  "stream_asm_stream = BUILD_SINGLE_STREAM STREAM_ASM_STREAM"

definition stream_record_type :: "compiler_core \<Rightarrow> addr \<Rightarrow> addr \<Rightarrow> compiler_core res" where
  "stream_record_type = BUILD_SINGLE_STREAM STREAM_RECORD_TYPE"

definition stream_bind :: "compiler_core \<Rightarrow> addr \<Rightarrow> addr \<Rightarrow> addr \<Rightarrow> compiler_core res" where
  "stream_bind = BUILD_DOUBLE_STREAM STREAM_BIND"

definition stream_store :: "compiler_core \<Rightarrow> addr \<Rightarrow> addr \<Rightarrow> addr \<Rightarrow> compiler_core res" where
  "stream_store = BUILD_DOUBLE_STREAM STREAM_STORE"

definition stream_let_star :: "compiler_core \<Rightarrow> addr \<Rightarrow> addr \<Rightarrow> addr \<Rightarrow> compiler_core res" where
  "stream_let_star = BUILD_DOUBLE_STREAM STREAM_LET_STAR"

definition stream_two_arg :: "compiler_core \<Rightarrow> addr \<Rightarrow> addr \<Rightarrow> addr \<Rightarrow> compiler_core res" where
  "stream_two_arg = BUILD_DOUBLE_STREAM STREAM_TWO_ARG"

definition stream_math :: "compiler_core \<Rightarrow> addr \<Rightarrow> addr \<Rightarrow> addr \<Rightarrow> compiler_core res" where
  "stream_math = BUILD_DOUBLE_STREAM STREAM_MATH"

definition stream_if :: "compiler_core \<Rightarrow> addr \<Rightarrow> addr \<Rightarrow> addr \<Rightarrow> compiler_core res" where
  "stream_if = BUILD_DOUBLE_STREAM STREAM_IF"

definition stream_cond :: "compiler_core \<Rightarrow> addr \<Rightarrow> addr \<Rightarrow> compiler_core res" where
  "stream_cond = BUILD_SINGLE_STREAM STREAM_COND"

definition stream_and :: "compiler_core \<Rightarrow> addr \<Rightarrow> addr \<Rightarrow> compiler_core res" where
  "stream_and = BUILD_SINGLE_STREAM STREAM_AND"

definition stream_or :: "compiler_core \<Rightarrow> addr \<Rightarrow> addr \<Rightarrow> compiler_core res" where
  "stream_or = BUILD_SINGLE_STREAM STREAM_OR"

definition stream_lambda :: "compiler_core \<Rightarrow> addr \<Rightarrow> addr \<Rightarrow> addr \<Rightarrow> compiler_core res" where
  "stream_lambda = BUILD_DOUBLE_STREAM STREAM_LAMBDA"

definition stream_call :: "compiler_core \<Rightarrow> addr \<Rightarrow> addr \<Rightarrow> addr \<Rightarrow> compiler_core res" where
  "stream_call = BUILD_DOUBLE_STREAM STREAM_CALL"

definition stream_bare :: "compiler_core \<Rightarrow> addr \<Rightarrow> node_type \<Rightarrow> u8 list \<Rightarrow> compiler_core res" where
  "stream_bare c s ty lit = build_node ty (Literal (c_str lit)) c s"

definition stream_string :: "compiler_core \<Rightarrow> addr \<Rightarrow> u8 list \<Rightarrow> compiler_core res" where
  "stream_string c s num = stream_bare c s STREAM_STRING num"

definition stream_literal :: "compiler_core \<Rightarrow> addr \<Rightarrow> u8 list \<Rightarrow> compiler_core res" where
  "stream_literal c s num = stream_bare c s STREAM_LITERAL num"

definition stream_op :: "compiler_core \<Rightarrow> addr \<Rightarrow> u8 list \<Rightarrow> compiler_core res" where
  "stream_op c s num = stream_bare c s STREAM_OP num"

definition stream_boolean :: "compiler_core \<Rightarrow> addr \<Rightarrow> bool \<Rightarrow> compiler_core res" where
  "stream_boolean c s b = build_node STREAM_LITERAL (Literal (chars (if b then ''#t'' else ''#f''))) c s"

text \<open>\<open>#\\\<close> and \<open>s"\<close> before the characters, \<open>"\<close> after them.\<close>

definition stream_char :: "compiler_core \<Rightarrow> addr \<Rightarrow> u8 list \<Rightarrow> compiler_core res" where
  "stream_char c s str = build_node STREAM_LITERAL (Literal ([35, 92] @ c_str str)) c s"

definition stream_symbol :: "compiler_core \<Rightarrow> addr \<Rightarrow> u8 list \<Rightarrow> compiler_core res" where
  "stream_symbol c s str = build_node STREAM_SYMBOL (Literal ([115, 34] @ c_str str @ [34])) c s"

section \<open>The nodes of a stream\<close>

text \<open>The nodes from a pointer on, with the pointers back: \<open>q\<close> is the node before them.\<close>

fun chain :: "(addr \<Rightarrow> ins_node option) \<Rightarrow> addr \<Rightarrow> addr \<Rightarrow> addr list \<Rightarrow> bool" where
  "chain h q p [] \<longleftrightarrow> p = 0"
| "chain h q p (a # as) \<longleftrightarrow> p = a \<and> a \<noteq> 0 \<and> (\<exists>n. h a = Some n \<and> nprev n = q \<and> chain h a (nnext n) as)"

definition stream_holds :: "compiler_core \<Rightarrow> addr \<Rightarrow> addr list \<Rightarrow> bool" where
  "stream_holds c s as \<longleftrightarrow> (\<exists>st. streams c s = Some st \<and> chain (nodes c) 0 (shead st) as
     \<and> stail st = (if as = [] then 0 else last as)) \<and> distinct as"

lemma chain_notin [simp]: "a \<notin> set as \<Longrightarrow> chain (h(a := x)) q p as = chain h q p as"
  by (induction as arbitrary: q p) auto

lemma chain_cong: "(\<And>a. a \<in> set as \<Longrightarrow> h a = h' a) \<Longrightarrow> chain h q p as = chain h' q p as"
  by (induction as arbitrary: q p) auto

lemma chain_prev:
  "chain h q p (a # as) \<Longrightarrow> a \<notin> set as \<Longrightarrow> chain (h(a \<mapsto> (the (h a))\<lparr>nprev := r\<rparr>)) r p (a # as)"
  by auto

lemma chain_snoc_next:
  assumes "chain h q p (as @ [a])" "distinct (as @ [a])" "chain h' a b bs" "set (as @ [a]) \<inter> set bs = {}"
    "\<And>x. x \<noteq> a \<Longrightarrow> x \<in> set as \<Longrightarrow> h' x = h x" "h' a = map_option (\<lambda>n. n\<lparr>nnext := b\<rparr>) (h a)"
  shows "chain h' q p ((as @ [a]) @ bs)"
  using assms
proof (induction as arbitrary: q p)
  case (Cons x as)
  then show ?case by auto
qed auto

lemma chain_node: "chain h q p as \<Longrightarrow> a \<in> set as \<Longrightarrow> a \<noteq> 0 \<and> (\<exists>n. h a = Some n)"
  by (induction as arbitrary: q p) auto

lemma stream_holds_empty: "streams c s = Some \<lparr>shead = 0, stail = 0\<rparr> \<Longrightarrow> stream_holds c s []"
  by (simp add: stream_holds_def)

text \<open>What a node says, apart from its place in a list.\<close>

definition says :: "ins_node \<Rightarrow> node_type \<times> node_value \<times> u32 \<times> u32 \<times> u8 list option" where
  "says n = (ntype n, nvalue n, ncolumn n, nline n, nfile n)"

text \<open>The operations that only move nodes: what the nodes say stays, and the streams but one.\<close>

definition relinked :: "compiler_core \<Rightarrow> addr \<Rightarrow> compiler_core \<Rightarrow> bool" where
  "relinked c s c' \<longleftrightarrow> (\<forall>a. map_option says (nodes c' a) = map_option says (nodes c a))
     \<and> (\<forall>t. t \<noteq> s \<longrightarrow> streams c' t = streams c t)
     \<and> next_ptr c' = next_ptr c \<and> scan c' = scan c \<and> include_depth c' = include_depth c
     \<and> include_stack c' = include_stack c \<and> label_index c' = label_index c \<and> home c' = home c \<and> stream c' = stream c"

lemma says_link [simp]: "says (n\<lparr>nnext := a\<rparr>) = says n" "says (n\<lparr>nprev := a\<rparr>) = says n"
  by (simp_all add: says_def)

lemma append_spec:
  assumes s: "stream_holds c s as" and b: "chain (nodes c) 0 b bs" "bs \<noteq> []" "distinct (as @ bs)"
  shows "\<exists>c'. stream_append c s b = Inr c' \<and> relinked c s c'
    \<and> streams c' s = Some \<lparr>shead = hd (as @ bs), stail = b\<rparr> \<and> chain (nodes c') 0 (hd (as @ bs)) (as @ bs)"
proof -
  obtain b' bs' where bs: "bs = b # bs'" using b(1,2) by (cases bs) auto
  obtain nb where nb: "nodes c b = Some nb" "nprev nb = 0" "chain (nodes c) b (nnext nb) bs'" "b \<noteq> 0"
    using b(1) by (auto simp: bs)
  obtain st where st: "streams c s = Some st" "chain (nodes c) 0 (shead st) as"
    "stail st = (if as = [] then 0 else last as)" using s by (auto simp: stream_holds_def)
  show ?thesis
  proof (cases as rule: rev_cases)
    case Nil
    then show ?thesis using st b nb by (auto simp: stream_append_def set_stream_def relinked_def bs)
  next
    case (snoc xs a)
    obtain na where na: "nodes c a = Some na" "a \<noteq> 0" using chain_node [OF st(2), of a] by (auto simp: snoc)
    let ?h = "(nodes c)(a \<mapsto> na\<lparr>nnext := b\<rparr>, b \<mapsto> nb\<lparr>nprev := a\<rparr>)"
    have d: "a \<noteq> b" "a \<notin> set bs'" "b \<notin> set bs'" "set (xs @ [a]) \<inter> set bs = {}" "distinct (xs @ [a])" "b \<notin> set xs"
      using b(3) by (auto simp: snoc bs)
    have "chain ?h a b bs" using nb d by (auto simp: bs)
    then have "chain ?h 0 (shead st) ((xs @ [a]) @ bs)"
      using st(2) d na by (intro chain_snoc_next [of "nodes c" 0 "shead st"]) (auto simp: snoc)
    moreover from this have "shead st = hd (as @ bs)" by (cases xs) (auto simp: snoc)
    ultimately show ?thesis using st na nb d
      by (auto simp: stream_append_def set_stream_def set_node_def relinked_def snoc bs)
  qed
qed

lemma concat_spec:
  assumes s: "stream_holds c s as" and r: "stream_holds c r bs" "s \<noteq> r" "r \<noteq> 0" and d: "distinct (as @ bs)"
  shows "\<exists>c'. stream_concat c s r = Inr c' \<and> relinked c s c' \<and> stream_holds c' s (as @ bs)"
proof -
  obtain sr where sr: "streams c r = Some sr" "chain (nodes c) 0 (shead sr) bs" "stail sr = (if bs = [] then 0 else last bs)"
    using r(1) by (auto simp: stream_holds_def)
  show ?thesis
  proof (cases bs)
    case Nil
    have "relinked c s c" by (simp add: relinked_def)
    then show ?thesis using sr s r by (auto simp: stream_concat_def Nil)
  next
    case (Cons b bs')
    then have b: "shead sr = b" "b \<noteq> 0" "bs \<noteq> []" using sr(2) by auto
    obtain c1 where c1: "stream_append c s b = Inr c1" "relinked c s c1"
      "streams c1 s = Some \<lparr>shead = hd (as @ bs), stail = b\<rparr>" "chain (nodes c1) 0 (hd (as @ bs)) (as @ bs)"
      using append_spec [OF s sr(2) b(3) d] b(1) by auto
    have "streams c1 r = Some sr" using c1(2) r(2) sr(1) by (simp add: relinked_def)
    moreover have "relinked c s (c1\<lparr>streams := (streams c1)(s \<mapsto> \<lparr>shead = hd (as @ bs), stail = stail sr\<rparr>)\<rparr>)"
      using c1(2) by (simp add: relinked_def)
    ultimately show ?thesis using c1 b r sr d
      by (auto simp: stream_concat_def set_stream_def stream_holds_def)
  qed
qed

text \<open>The heap: every node and stream was allocated, none at the null pointer.\<close>

definition heap_wf :: "compiler_core \<Rightarrow> bool" where
  "heap_wf c \<longleftrightarrow> (\<forall>a. nodes c a \<noteq> None \<or> streams c a \<noteq> None \<longrightarrow> 0 < a \<and> a < next_ptr c) \<and> 0 < next_ptr c"

definition owned :: "compiler_core \<Rightarrow> addr set" where
  "owned c = dom (nodes c) \<union> dom (streams c)"

definition takes :: "compiler_core \<Rightarrow> compiler_core \<Rightarrow> addr \<Rightarrow> bool" where
  "takes c c' a \<longleftrightarrow> (\<exists>ty. stream_alloc_node c ty = Inr (c', a)) \<or> stream_create c = (c', a)"

interpretation stream_heap: allocator heap_wf owned "\<lambda>c a. (nodes c a, streams c a)" takes
  by unfold_locales
    (auto simp: takes_def heap_wf_def owned_def stream_alloc_node_def stream_create_def Let_def res_simps dom_def
      less_Suc_eq split: if_splits)

lemma build_spec:
  assumes wf: "heap_wf c" and s: "stream_holds c s as" and f: "include_path c = Inr f"
  shows "\<exists>c' n. build_node ty v c s = Inr c' \<and> heap_wf c' \<and> stream_holds c' s (as @ [next_ptr c])
    \<and> nodes c' (next_ptr c) = Some n \<and> says n = (ty, v, yycolumn (scan c), yylineno (scan c), f)
    \<and> (\<forall>a. a \<noteq> next_ptr c \<longrightarrow> map_option says (nodes c' a) = map_option says (nodes c a))
    \<and> (\<forall>t. t \<noteq> s \<longrightarrow> streams c' t = streams c t)"
proof -
  let ?p = "next_ptr c"
  let ?n = "\<lparr>ntype = ty, nvalue = v, nnext = 0, nprev = 0, ncolumn = yycolumn (scan c), nline = yylineno (scan c), nfile = f\<rparr>"
  let ?c = "c\<lparr>next_ptr := ?p + 1, nodes := (nodes c)(?p \<mapsto> ?n)\<rparr>"
  have p: "?p \<noteq> 0" "nodes c ?p = None" "streams c ?p = None" using wf by (auto simp: heap_wf_def)
  have as: "?p \<notin> set as"
  proof
    assume "?p \<in> set as"
    then show False using s p(2) chain_node by (fastforce simp: stream_holds_def)
  qed
  have "stream_holds ?c s as" using s as by (auto simp: stream_holds_def)
  then obtain c' where c': "stream_append ?c s ?p = Inr c'" "relinked ?c s c'"
    "streams c' s = Some \<lparr>shead = hd (as @ [?p]), stail = ?p\<rparr>" "chain (nodes c') 0 (hd (as @ [?p])) (as @ [?p])"
    using append_spec [of ?c s as ?p "[?p]"] p as s by (auto simp: stream_holds_def)
  have "build_node ty v c s = Inr c'"
    using c'(1) f by (simp add: build_node_def stream_alloc_node_def set_node_def tag_node_def Let_def)
  moreover have r: "map_option says (nodes c' a) = map_option says (nodes ?c a)"
    "t \<noteq> s \<Longrightarrow> streams c' t = streams c t" "next_ptr c' = ?p + 1" for a t
    using c'(2) by (auto simp: relinked_def)
  moreover obtain n where "nodes c' ?p = Some n" "says n = says ?n" using r(1) [of ?p] by auto
  moreover have "nodes c' a \<noteq> None \<longleftrightarrow> a = ?p \<or> nodes c a \<noteq> None" for a
    using r(1) [of a] by (cases "a = ?p"; cases "nodes c a"; cases "nodes c' a") auto
  moreover have "streams c' t \<noteq> None \<longleftrightarrow> streams c t \<noteq> None" for t
    using r(2) [of t] c'(3) s by (cases "t = s") (auto simp: stream_holds_def)
  ultimately have "heap_wf c'" using wf unfolding heap_wf_def by (metis add.commute less_add_one less_trans plus_1_eq_Suc zero_less_Suc)
  moreover have "stream_holds c' s (as @ [?p])" using c' as s by (auto simp: stream_holds_def)
  ultimately show ?thesis
    using \<open>build_node ty v c s = Inr c'\<close> \<open>nodes c' ?p = Some n\<close> \<open>says n = says ?n\<close> r by (auto simp: says_def)
qed

end
