(* ===== verification/Emit.thy ===== *)
theory Emit
  imports Ins_Stream Buffer Ops
begin

text \<open>
  The code generator: \<open>bootstrap_emit.c\<close>, \<open>bootstrap_emit_formatting.c\<close>, \<open>bootstrap_preamble.c\<close> and
  \<open>gen_label\<close> and \<open>compiler_code_gen\<close> of \<open>bootstrap_core.c\<close>. It walks the streams of the compiler and
  appends assembler text to a buffer; the only thing of the compiler it changes is the counter of
  labels. The functions call each other through \<open>emit_node\<close>, which is the recursion; the others get
  \<open>emit_stream\<close> or \<open>emit_node\<close> as an argument. The number bounds the depth of the tree and the length
  of its lists; \<open>Emit_Tree\<close> shows how much a tree needs.
\<close>

section \<open>Formatting\<close>

text \<open>\<open>buffer_write\<close> of a string and its length.\<close>

definition write_s :: "buffer \<Rightarrow> u8 list \<Rightarrow> buffer res" where
  "write_s buf s = buffer_write buf s (length s)"

definition emit_newline :: "buffer \<Rightarrow> buffer res" where
  "emit_newline buf = write_s buf [10]"

definition emit_indent :: "buffer \<Rightarrow> buffer res" where
  "emit_indent buf = write_s buf (chars ''        '')"

definition emit_comment :: "buffer \<Rightarrow> string \<Rightarrow> buffer res" where
  "emit_comment buf str =
     rbind (write_s buf (chars '';; '')) (\<lambda>buf. rbind (write_s buf (chars str)) emit_newline)"

definition emit_debug :: "buffer \<Rightarrow> ins_node \<Rightarrow> buffer res" where
  "emit_debug buf node =
     rbind (write_s buf (chars ''.file '' @ [34])) (\<lambda>buf.
     rbind (deref (nfile node)) (\<lambda>file.
     rbind (write_s buf (c_str file)) (\<lambda>buf.
     rbind (write_s buf [34]) (\<lambda>buf.
     rbind (write_s buf (32 # show_int (scast (nline node)))) (\<lambda>buf.
     rbind (write_s buf (32 # show_int (scast (ncolumn node)))) emit_newline)))))"

section \<open>Lines of code\<close>

definition emit_op :: "buffer \<Rightarrow> u8 list \<Rightarrow> buffer res" where
  "emit_op buf str = rbind (emit_indent buf) (\<lambda>buf. rbind (write_s buf (c_str str)) emit_newline)"

abbreviation emits :: "buffer \<Rightarrow> string \<Rightarrow> buffer res" where
  "emits buf s \<equiv> emit_op buf (chars s)"

definition emit_label :: "buffer \<Rightarrow> buffer \<Rightarrow> buffer res" where
  "emit_label buf label =
     rbind (buffer_append buf label None) (\<lambda>(buf, _). rbind (write_s buf [58]) emit_newline)"

definition jump_name :: "u8 \<Rightarrow> u8 list res" where
  "jump_name ty =
     (if ty = OP_CALL then Inr (chars ''call'')
      else if ty = OP_PROC then Inr (chars ''proc'')
      else if ty = OP_JMP then Inr (chars ''jmp'')
      else if ty = OP_JNF then Inr (chars ''jnf'')
      else Inl Assert_Failed)"

definition emit_jump_label :: "buffer \<Rightarrow> u8 \<Rightarrow> buffer \<Rightarrow> buffer res" where
  "emit_jump_label buf ty label =
     rbind (jump_name ty) (\<lambda>c.
     rbind (emit_indent buf) (\<lambda>buf.
     rbind (write_s buf c) (\<lambda>buf.
     rbind (write_s buf [32]) (\<lambda>buf.
     rbind (buffer_append buf label None) (\<lambda>(buf, _). emit_newline buf)))))"

definition gen_label :: "compiler_core \<Rightarrow> (compiler_core \<times> buffer) res" where
  "gen_label c =
     rbind (write_s buffer_create (chars ''_label_'')) (\<lambda>buf.
     rbind (write_s buf (show_int (label_index c))) (\<lambda>buf.
       Inr (c\<lparr>label_index := label_index c + 1\<rparr>, buf)))"

definition emit_literal :: "buffer \<Rightarrow> ins_node \<Rightarrow> buffer res" where
  "emit_literal buf ins = rbind (value_literal ins) (emit_op buf)"

definition emit_string :: "buffer \<Rightarrow> ins_node \<Rightarrow> buffer res" where
  "emit_string buf ins =
     rbind (emit_indent buf) (\<lambda>buf.
     rbind (write_s buf [34]) (\<lambda>buf.
     rbind (value_literal ins) (\<lambda>s.
     rbind (write_s buf (c_str s)) (\<lambda>buf.
     rbind (write_s buf [34]) emit_newline))))"

section \<open>Walks over nodes\<close>

text \<open>\<open>while (p) { f; p = p->next; }\<close>, and the pointers on the way to a list.\<close>

fun walk :: "nat \<Rightarrow> compiler_core \<Rightarrow> (addr \<Rightarrow> ins_node \<Rightarrow> 's \<Rightarrow> 's res) \<Rightarrow> addr \<Rightarrow> 's \<Rightarrow> 's res" where
  "walk 0 h f p s = Inl Stack_Overflow"
| "walk (Suc n) h f p s =
     (if p = 0 then Inr s
      else rbind (deref (nodes h p)) (\<lambda>nd. rbind (f p nd s) (\<lambda>s. walk n h f (nnext nd) s)))"

definition stream_head :: "compiler_core \<Rightarrow> addr \<Rightarrow> addr res" where
  "stream_head c s = rbind (deref (streams c s)) (\<lambda>st. Inr (shead st))"

definition node_stream :: "compiler_core \<Rightarrow> addr \<Rightarrow> addr res" where
  "node_stream c p = rbind (deref (nodes c p)) value_stream"

definition node_two :: "compiler_core \<Rightarrow> addr \<Rightarrow> (addr \<times> addr) res" where
  "node_two c p = rbind (deref (nodes c p)) value_two"

type_synonym emit_fn = "compiler_core \<Rightarrow> buffer \<Rightarrow> addr \<Rightarrow> bool \<Rightarrow> (compiler_core \<times> buffer) res"
type_synonym node_fn = "compiler_core \<Rightarrow> buffer \<Rightarrow> addr \<Rightarrow> bool \<Rightarrow> (compiler_core \<times> buffer \<times> bool) res"

section \<open>Conditionals\<close>

definition emit_clause :: "emit_fn \<Rightarrow> bool \<Rightarrow> buffer \<Rightarrow> addr \<Rightarrow> ins_node \<Rightarrow> compiler_core \<times> buffer
    \<Rightarrow> (compiler_core \<times> buffer) res" where
  "emit_clause es allow_tail_call done_label p clause = (\<lambda>(c, buf).
     rbind (value_stream clause) (\<lambda>s.
     rbind (stream_head c s) (\<lambda>node.
     rbind (emit_comment buf ''----Cond Clause----'') (\<lambda>buf.
     rbind (node_two c node) (\<lambda>(s1, s2).
     rbind (es c buf s1 False) (\<lambda>(c, buf).
     rbind (emits buf ''not'') (\<lambda>buf.
     rbind (gen_label c) (\<lambda>(c, next_label).
     rbind (emit_jump_label buf OP_JNF next_label) (\<lambda>buf.
     rbind (es c buf s2 allow_tail_call) (\<lambda>(c, buf).
     rbind (emit_jump_label buf OP_JMP done_label) (\<lambda>buf.
     rbind (emit_label buf next_label) (\<lambda>buf.
       Inr (c, buf)))))))))))))"

definition emit_cond :: "nat \<Rightarrow> emit_fn \<Rightarrow> compiler_core \<Rightarrow> buffer \<Rightarrow> addr \<Rightarrow> bool \<Rightarrow> (compiler_core \<times> buffer) res" where
  "emit_cond n es c buf node allow_tail_call =
     rbind (gen_label c) (\<lambda>(c, done_label).
     rbind (emit_comment buf ''--Cond Start--'') (\<lambda>buf.
     rbind (node_stream c node) (\<lambda>s.
     rbind (stream_head c s) (\<lambda>clause.
     rbind (walk n c (emit_clause es allow_tail_call done_label) clause (c, buf)) (\<lambda>(c, buf).
     rbind (emit_comment buf ''--Cond Fall-Through--'') (\<lambda>buf.
     rbind (emits buf ''()'') (\<lambda>buf.
     rbind (emit_label buf done_label) (\<lambda>buf.
     rbind (emit_comment buf ''--Cond End--'') (\<lambda>buf.
       Inr (c, buf))))))))))"

definition emit_if :: "emit_fn \<Rightarrow> compiler_core \<Rightarrow> buffer \<Rightarrow> addr \<Rightarrow> bool \<Rightarrow> (compiler_core \<times> buffer) res" where
  "emit_if es c buf node allow_tail_call =
     rbind (node_two c node) (\<lambda>(test, arms).
     rbind (stream_head c arms) (\<lambda>body.
     rbind (gen_label c) (\<lambda>(c, true_label).
     rbind (gen_label c) (\<lambda>(c, done_label).
     rbind (emit_comment buf ''--If Start--'') (\<lambda>buf.
     rbind (es c buf test False) (\<lambda>(c, buf).
     rbind (emit_jump_label buf OP_JNF true_label) (\<lambda>buf.
     rbind (node_two c body) (\<lambda>(if_true, if_false).
     rbind (es c buf if_false allow_tail_call) (\<lambda>(c, buf).
     rbind (emit_jump_label buf OP_JMP done_label) (\<lambda>buf.
     rbind (emit_comment buf ''--If true--'') (\<lambda>buf.
     rbind (emit_label buf true_label) (\<lambda>buf.
     rbind (es c buf if_true allow_tail_call) (\<lambda>(c, buf).
     rbind (emit_comment buf ''--If Done--'') (\<lambda>buf.
     rbind (emit_label buf done_label) (\<lambda>buf.
     rbind (emit_comment buf ''--If End--'') (\<lambda>buf.
       Inr (c, buf)))))))))))))))))"

definition emit_bool_exp :: "node_fn \<Rightarrow> bool \<Rightarrow> buffer \<Rightarrow> addr \<Rightarrow> ins_node \<Rightarrow> compiler_core \<times> buffer \<times> bool
    \<Rightarrow> (compiler_core \<times> buffer \<times> bool) res" where
  "emit_bool_exp en and_or done_label p exp = (\<lambda>(c, buf, no_args).
     rbind (en c buf p False) (\<lambda>(c, buf, pushed).
     rbind (if \<not> pushed then emits buf ''()'' else Inr buf) (\<lambda>buf.
       if nnext exp = 0 then Inr (c, buf, False)
       else
         rbind (emits buf ''dup'') (\<lambda>buf.
         rbind (if and_or
                then
                  rbind (gen_label c) (\<lambda>(c, next_label).
                  rbind (emit_jump_label buf OP_JNF next_label) (\<lambda>buf.
                  rbind (emit_jump_label buf OP_JMP done_label) (\<lambda>buf.
                  rbind (emit_label buf next_label) (\<lambda>buf. Inr (c, buf)))))
                else rbind (emit_jump_label buf OP_JNF done_label) (\<lambda>buf. Inr (c, buf))) (\<lambda>(c, buf).
         rbind (emits buf ''drop'') (\<lambda>buf. Inr (c, buf, False)))))))"

definition emit_bool ::
  "nat \<Rightarrow> node_fn \<Rightarrow> compiler_core \<Rightarrow> buffer \<Rightarrow> addr \<Rightarrow> bool \<Rightarrow> (compiler_core \<times> buffer) res" where
  "emit_bool n en c buf tree and_or =
     rbind (gen_label c) (\<lambda>(c, done_label).
     rbind (if tree = 0 then Inr 0
            else rbind (node_stream c tree) (\<lambda>s. if s = 0 then Inr 0 else stream_head c s)) (\<lambda>exp.
     rbind (emit_comment buf ''--Bool Operator Start--'') (\<lambda>buf.
     rbind (walk n c (emit_bool_exp en and_or done_label) exp (c, buf, True)) (\<lambda>(c, buf, no_args).
     rbind (if no_args then (if and_or then emits buf ''#t'' else emits buf ''#f'') else Inr buf) (\<lambda>buf.
     rbind (emit_label buf done_label) (\<lambda>buf.
     rbind (emit_comment buf ''--Bool Operator End--'') (\<lambda>buf.
       Inr (c, buf))))))))"

section \<open>Procedures\<close>

text \<open>The loop over the formals; the result has the last value of \<open>bind_rest\<close>.\<close>

fun emit_formals :: "nat \<Rightarrow> compiler_core \<Rightarrow> buffer \<Rightarrow> addr \<Rightarrow> bool \<Rightarrow> (buffer \<times> bool) res" where
  "emit_formals 0 c buf p bind_rest = Inl Stack_Overflow"
| "emit_formals (Suc n) c buf p bind_rest =
     (if p = 0 then Inr (buf, bind_rest)
      else
        rbind (deref (nodes c p)) (\<lambda>nd.
        if ntype nd = STREAM_LITERAL then Inr (buf, bind_rest)
        else
          let bind_rest = (nnext nd = 0) in
          rbind (emit_comment buf ''----'') (\<lambda>buf.
          rbind (if bind_rest then (if nnext nd \<noteq> 0 then emits buf ''cdr'' else Inr buf)
                 else rbind (emits buf ''dup'') (\<lambda>buf. emits buf ''car'')) (\<lambda>buf.
          rbind (emit_literal buf nd) (\<lambda>buf.
          rbind (emits buf ''bind'') (\<lambda>buf.
          let p = nnext nd in
          rbind (if \<not> bind_rest \<and> p \<noteq> 0
                 then rbind (deref (nodes c p)) (\<lambda>nd.
                   if ntype nd \<noteq> STREAM_LITERAL then emits buf ''cdr'' else Inr buf)
                 else Inr buf) (\<lambda>buf.
            emit_formals n c buf p bind_rest)))))))"

definition emit_lambda :: "nat \<Rightarrow> emit_fn \<Rightarrow> compiler_core \<Rightarrow> buffer \<Rightarrow> addr \<Rightarrow> (compiler_core \<times> buffer) res" where
  "emit_lambda n es c buf node =
     rbind (gen_label c) (\<lambda>(c, proc_label).
     rbind (gen_label c) (\<lambda>(c, skip_label).
     rbind (emit_jump_label buf OP_JMP skip_label) (\<lambda>buf.
     rbind (emit_label buf proc_label) (\<lambda>buf.
     rbind (emits buf ''swap'') (\<lambda>buf.
     rbind (emit_comment buf ''-- Formals --'') (\<lambda>buf.
     rbind (node_two c node) (\<lambda>(formals, body).
     rbind (stream_head c formals) (\<lambda>formal_node.
     rbind (emit_formals n c buf formal_node False) (\<lambda>(buf, bind_rest).
     rbind (emit_comment buf ''----'') (\<lambda>buf.
     rbind (if \<not> bind_rest then emits buf ''drop'' else Inr buf) (\<lambda>buf.
     rbind (emit_comment buf ''-- Body --'') (\<lambda>buf.
     rbind (es c buf body True) (\<lambda>(c, buf).
     rbind (emits buf ''swap ret'') (\<lambda>buf.
     rbind (emit_label buf skip_label) (\<lambda>buf.
     rbind (emit_jump_label buf OP_PROC proc_label) (\<lambda>buf.
       Inr (c, buf)))))))))))))))))"

definition emit_let_star ::
  "emit_fn \<Rightarrow> compiler_core \<Rightarrow> buffer \<Rightarrow> addr \<Rightarrow> bool \<Rightarrow> (compiler_core \<times> buffer) res" where
  "emit_let_star es c buf node allow_tail_call =
     rbind (gen_label c) (\<lambda>(c, body_label).
     rbind (gen_label c) (\<lambda>(c, next_label).
     rbind (emit_comment buf ''-- Let* --'') (\<lambda>buf.
     rbind (if allow_tail_call
            then
              rbind (emits buf ''()'') (\<lambda>buf.
              rbind (emit_jump_label buf OP_PROC body_label) (\<lambda>buf.
              emits buf ''tail_call_in''))
            else
              rbind (emit_jump_label buf OP_CALL body_label) (\<lambda>buf.
              emit_jump_label buf OP_JMP next_label)) (\<lambda>buf.
     rbind (emit_label buf body_label) (\<lambda>buf.
     rbind (if allow_tail_call then emits buf ''swap drop'' else Inr buf) (\<lambda>buf.
     rbind (emit_comment buf ''-- Binding List--'') (\<lambda>buf.
     rbind (node_two c node) (\<lambda>(bindings, body).
     rbind (es c buf bindings False) (\<lambda>(c, buf).
     rbind (emits buf ''drop'') (\<lambda>buf.
     rbind (emit_comment buf ''-- Binding List End--'') (\<lambda>buf.
     rbind (emit_comment buf ''-- Let* Body--'') (\<lambda>buf.
     rbind (es c buf body allow_tail_call) (\<lambda>(c, buf).
     rbind (emit_comment buf ''-- Let* Body End--'') (\<lambda>buf.
     rbind (emits buf ''swap ret'') (\<lambda>buf.
     rbind (emit_label buf next_label) (\<lambda>buf.
     rbind (emit_comment buf ''-- Let* End --'') (\<lambda>buf.
       Inr (c, buf))))))))))))))))))"

definition emit_argument :: "node_fn \<Rightarrow> addr \<Rightarrow> ins_node \<Rightarrow> compiler_core \<times> buffer \<Rightarrow> (compiler_core \<times> buffer) res" where
  "emit_argument en p nd = (\<lambda>(c, buf).
     rbind (en c buf p False) (\<lambda>(c, buf, pushed).
     rbind (if \<not> pushed then emits buf ''()'' else Inr buf) (\<lambda>buf.
     rbind (emits buf ''cons'') (\<lambda>buf. Inr (c, buf)))))"

definition emit_call ::
  "nat \<Rightarrow> node_fn \<Rightarrow> emit_fn \<Rightarrow> compiler_core \<Rightarrow> buffer \<Rightarrow> addr \<Rightarrow> bool \<Rightarrow> (compiler_core \<times> buffer) res" where
  "emit_call n en es c buf call tail_call =
     rbind (emit_comment buf ''--Call Start--'') (\<lambda>buf.
     rbind (emits buf ''()'') (\<lambda>buf.
     rbind (node_two c call) (\<lambda>(proc, args).
     rbind (stream_head c args) (\<lambda>head.
     rbind (walk n c (emit_argument en) head (c, buf)) (\<lambda>(c, buf).
     rbind (es c buf proc False) (\<lambda>(c, buf).
     rbind (if tail_call then emits buf ''tail_call_in'' else emits buf ''call_in'') (\<lambda>buf.
     rbind (emit_comment buf ''--Call End--'') (\<lambda>buf.
       Inr (c, buf)))))))))"

section \<open>Data\<close>

text \<open>A node of another type is only reported.\<close>

fun emit_quoted :: "nat \<Rightarrow> compiler_core \<Rightarrow> buffer \<Rightarrow> addr \<Rightarrow> buffer res" where
  "emit_quoted 0 c buf tree = Inl Stack_Overflow"
| "emit_quoted (Suc n) c buf tree =
     rbind (stream_head c tree) (\<lambda>head.
     rbind (emit_comment buf ''--Quoted Start--'') (\<lambda>buf.
     rbind (walk n c (\<lambda>p nd (buf, is_list).
         rbind (case ntype nd of
                  STREAM_QUOTED \<Rightarrow> rbind (value_stream nd) (\<lambda>s. emit_quoted n c buf s)
                | STREAM_LITERAL \<Rightarrow> emit_literal buf nd
                | STREAM_SYMBOL \<Rightarrow> emit_literal buf nd
                | STREAM_STRING \<Rightarrow> emit_string buf nd
                | _ \<Rightarrow> Inr buf) (\<lambda>buf.
         rbind (if is_list then emits buf ''cons'' else Inr buf) (\<lambda>buf. Inr (buf, True))))
       head (buf, False)) (\<lambda>(buf, _).
     emit_comment buf ''--Quoted End--'')))"

text \<open>The text \<open>s"record-type-factory"\<close>.\<close>

definition record_type_factory :: "u8 list" where
  "record_type_factory = [115, 34] @ chars ''record-type-factory'' @ [34]"

definition emit_record_type :: "nat \<Rightarrow> compiler_core \<Rightarrow> buffer \<Rightarrow> addr \<Rightarrow> (compiler_core \<times> buffer) res" where
  "emit_record_type n c buf def =
     rbind (emit_comment buf ''--Record Start--'') (\<lambda>buf.
     rbind (emit_quoted n c buf def) (\<lambda>buf.
     rbind (emit_op buf record_type_factory) (\<lambda>buf.
     rbind (emits buf ''@'') (\<lambda>buf.
     rbind (emits buf ''call_in'') (\<lambda>buf.
     rbind (emit_comment buf ''--Record Binding--'') (\<lambda>buf.
     rbind (gen_label c) (\<lambda>(c, loop_label).
     rbind (gen_label c) (\<lambda>(c, done_label).
     rbind (emit_label buf loop_label) (\<lambda>buf.
     rbind (emits buf ''dup'') (\<lambda>buf.
     rbind (emits buf ''null?'') (\<lambda>buf.
     rbind (emit_jump_label buf OP_JNF done_label) (\<lambda>buf.
     rbind (emits buf ''dup'') (\<lambda>buf.
     rbind (emits buf ''car'') (\<lambda>buf.
     rbind (emits buf ''dup'') (\<lambda>buf.
     rbind (emits buf ''cdr'') (\<lambda>buf.
     rbind (emits buf ''swap'') (\<lambda>buf.
     rbind (emits buf ''car'') (\<lambda>buf.
     rbind (emits buf ''bind'') (\<lambda>buf.
     rbind (emits buf ''cdr'') (\<lambda>buf.
     rbind (emit_jump_label buf OP_JMP loop_label) (\<lambda>buf.
     rbind (emit_label buf done_label) (\<lambda>buf.
     rbind (emit_comment buf ''--Record End--'') (\<lambda>buf.
       Inr (c, buf))))))))))))))))))))))))"

definition emit_asm_node :: "emit_fn \<Rightarrow> addr \<Rightarrow> ins_node \<Rightarrow> compiler_core \<times> buffer \<Rightarrow> (compiler_core \<times> buffer) res" where
  "emit_asm_node es p head = (\<lambda>(c, buf).
     if ntype head = STREAM_ASM_STREAM
     then
       rbind (emit_comment buf ''----Escape ASM Start----'') (\<lambda>buf.
       rbind (value_stream head) (\<lambda>s.
       rbind (es c buf s False) (\<lambda>(c, buf).
       rbind (emit_comment buf ''----Escape ASM End----'') (\<lambda>buf. Inr (c, buf)))))
     else rbind (emit_literal buf head) (\<lambda>buf. Inr (c, buf)))"

definition emit_asm :: "nat \<Rightarrow> emit_fn \<Rightarrow> compiler_core \<Rightarrow> buffer \<Rightarrow> addr \<Rightarrow> (compiler_core \<times> buffer) res" where
  "emit_asm n es c buf tree =
     rbind (stream_head c tree) (\<lambda>head.
     rbind (emit_comment buf ''--Raw ASM Start--'') (\<lambda>buf.
     rbind (walk n c (emit_asm_node es) head (c, buf)) (\<lambda>(c, buf).
     rbind (emit_comment buf ''--Raw ASM End--'') (\<lambda>buf. Inr (c, buf)))))"

definition emit_double ::
  "emit_fn \<Rightarrow> compiler_core \<Rightarrow> buffer \<Rightarrow> addr \<Rightarrow> u8 list \<Rightarrow> (compiler_core \<times> buffer) res" where
  "emit_double es c buf node str =
     rbind (node_two c node) (\<lambda>(s1, s2).
     rbind (es c buf s1 False) (\<lambda>(c, buf).
     rbind (es c buf s2 False) (\<lambda>(c, buf).
     rbind (emit_op buf str) (\<lambda>buf. Inr (c, buf)))))"

text \<open>The operator and the operands of inline arithmetic.\<close>

definition emit_math :: "emit_fn \<Rightarrow> compiler_core \<Rightarrow> buffer \<Rightarrow> addr \<Rightarrow> (compiler_core \<times> buffer) res" where
  "emit_math es c buf head =
     rbind (node_two c head) (\<lambda>(s1, s2).
     rbind (stream_head c s2) (\<lambda>node.
     rbind (stream_head c s1) (\<lambda>math_op.
     rbind (deref (nodes c math_op)) (\<lambda>nd.
     rbind (value_literal nd) (\<lambda>str. emit_double es c buf node str)))))"

section \<open>Nodes and streams\<close>

definition emit_stream_node :: "node_fn \<Rightarrow> bool \<Rightarrow> addr \<Rightarrow> ins_node \<Rightarrow> compiler_core \<times> buffer \<times> bool
    \<Rightarrow> (compiler_core \<times> buffer \<times> bool) res" where
  "emit_stream_node en allow_tail_call p head = (\<lambda>(c, buf, _).
     rbind (en c buf p (allow_tail_call \<and> nnext head = 0)) (\<lambda>(c, buf, pushed).
     rbind (if nnext head \<noteq> 0 \<and> pushed then emits buf ''drop'' else Inr buf) (\<lambda>buf.
       Inr (c, buf, pushed))))"

definition emit_stream_with :: "node_fn \<Rightarrow> nat \<Rightarrow> emit_fn" where
  "emit_stream_with en n c buf tree allow_tail_call =
     rbind (if tree = 0 then Inr 0 else stream_head c tree) (\<lambda>head.
     rbind (walk n c (emit_stream_node en allow_tail_call) head (c, buf, False)) (\<lambda>(c, buf, pushed).
     rbind (if \<not> pushed then emits buf ''()'' else Inr buf) (\<lambda>buf. Inr (c, buf))))"

definition pushes :: "(compiler_core \<times> buffer) res \<Rightarrow> (compiler_core \<times> buffer \<times> bool) res" where
  "pushes m = rbind m (\<lambda>(c, buf). Inr (c, buf, True))"

fun emit_node :: "nat \<Rightarrow> node_fn" where
  "emit_node 0 c buf head allow_tail_call = Inl Stack_Overflow"
| "emit_node (Suc n) c buf head allow_tail_call =
     rbind (deref (nodes c head)) (\<lambda>nd.
     rbind (emit_debug buf nd) (\<lambda>buf.
     let en = (\<lambda>c buf p a. emit_node n c buf p a); es = emit_stream_with en n in
     case ntype nd of
       STREAM_LITERAL \<Rightarrow> pushes (rbind (emit_literal buf nd) (\<lambda>buf. Inr (c, buf)))
     | STREAM_SYMBOL \<Rightarrow> pushes (rbind (emit_literal buf nd) (\<lambda>buf. Inr (c, buf)))
     | STREAM_OP \<Rightarrow> pushes (rbind (emit_literal buf nd) (\<lambda>buf. Inr (c, buf)))
     | STREAM_STRING \<Rightarrow> pushes (rbind (emit_string buf nd) (\<lambda>buf. Inr (c, buf)))
     | STREAM_QUOTED \<Rightarrow>
         pushes (rbind (value_stream nd) (\<lambda>s. rbind (emit_quoted n c buf s) (\<lambda>buf. Inr (c, buf))))
     | STREAM_RECORD_TYPE \<Rightarrow> pushes (rbind (value_stream nd) (\<lambda>s. emit_record_type n c buf s))
     | STREAM_ASM \<Rightarrow> pushes (rbind (value_stream nd) (\<lambda>s. emit_asm n es c buf s))
     | STREAM_LOAD \<Rightarrow>
         pushes (rbind (value_stream nd) (\<lambda>s.
                 rbind (es c buf s False) (\<lambda>(c, buf).
                 rbind (emits buf ''@'') (\<lambda>buf. Inr (c, buf)))))
     | STREAM_COND \<Rightarrow> pushes (emit_cond n es c buf head allow_tail_call)
     | STREAM_IF \<Rightarrow> pushes (emit_if es c buf head allow_tail_call)
     | STREAM_AND \<Rightarrow> pushes (emit_bool n en c buf head True)
     | STREAM_OR \<Rightarrow> pushes (emit_bool n en c buf head False)
     | STREAM_MATH \<Rightarrow> pushes (emit_math es c buf head)
     | STREAM_LAMBDA \<Rightarrow> pushes (emit_lambda n es c buf head)
     | STREAM_CALL \<Rightarrow> pushes (emit_call n en es c buf head (allow_tail_call \<and> nnext nd = 0))
     | STREAM_BIND \<Rightarrow> rbind (emit_double es c buf head (chars ''bind'')) (\<lambda>(c, buf). Inr (c, buf, False))
     | STREAM_STORE \<Rightarrow> rbind (emit_double es c buf head (chars ''!'')) (\<lambda>(c, buf). Inr (c, buf, False))
     | STREAM_LET_STAR \<Rightarrow> pushes (emit_let_star es c buf head allow_tail_call)
     | _ \<Rightarrow> Inr (c, buf, False)))"

definition emit_stream :: "nat \<Rightarrow> emit_fn" where
  "emit_stream n = emit_stream_with (emit_node n) n"

section \<open>The preamble\<close>

text \<open>\<open>strcpy\<close> and \<open>strcat\<close> of the compiler's home and a file of it into a path of \<open>PATH_MAX\<close> bytes.\<close>

definition PATH_MAX :: nat where "PATH_MAX = 4096"

definition home_path :: "compiler_core \<Rightarrow> string \<Rightarrow> u8 list res" where
  "home_path c s =
     (let path = c_str (home c) @ chars s in if length path < PATH_MAX then Inr path else Inl Out_Of_Bounds)"

definition load_or_exit :: "buffer \<Rightarrow> file_reads \<Rightarrow> buffer res" where
  "load_or_exit buf f =
     rbind (buffer_load buf f) (\<lambda>(buf, count). case count of None \<Rightarrow> Inl Exited | Some n \<Rightarrow> Inr buf)"

definition emit_bootstrap :: "(u8 list \<Rightarrow> file_reads) \<Rightarrow> compiler_core \<Rightarrow> buffer \<Rightarrow> buffer res" where
  "emit_bootstrap files c out_buf =
     rbind (home_path c ''/lib/preamble.asm'') (\<lambda>path.
     rbind (load_or_exit buffer_create (files path)) (\<lambda>buf.
     rbind (buffer_append buf out_buf None) (\<lambda>(buf, _).
     rbind (home_path c ''/lib/postamble.asm'') (\<lambda>path.
     rbind (load_or_exit buf (files path)) (\<lambda>buf.
     rbind (buffer_append (buffer_reset out_buf) buf None) (\<lambda>(out_buf, _).
       Inr out_buf))))))"

definition compiler_code_gen ::
  "nat \<Rightarrow> (u8 list \<Rightarrow> file_reads) \<Rightarrow> compiler_core \<Rightarrow> buffer \<Rightarrow> bool \<Rightarrow> (compiler_core \<times> buffer) res" where
  "compiler_code_gen n files c buf bootstrap =
     rbind (emit_stream n c buf (stream c) False) (\<lambda>(c, buf).
     rbind (if bootstrap then emit_bootstrap files c buf else Inr buf) (\<lambda>buf.
       Inr (c, buf)))"

end
