(* ===== verification/Emit_Tree.thy ===== *)
theory Emit_Tree
  imports Emit
begin

text \<open>
  What the code generator writes, as a function of the program. A program is a tree (\<open>ast\<close>), the
  streams in the heap hold it (\<open>stream_is\<close>), its code is a list of lines (\<open>stream_code\<close>), and the
  generator appends the text of exactly these lines and takes exactly the labels they use. A tree
  needs no more depth than its size.
\<close>

section \<open>Programs\<close>

text \<open>File, line and column of a node.\<close>

type_synonym loc = "u8 list \<times> u32 \<times> u32"

datatype ast =
    Lit loc "u8 list" | Sym loc "u8 list" | Str loc "u8 list" | Op loc "u8 list"
  | Quote loc "ast list" | Load loc "ast list" | Asm loc "ast list" | Asm_Stream loc "ast list"
  | Bind loc "ast list" "ast list" | Store loc "ast list" "ast list" | Let_Star loc "ast list" "ast list"
  | If loc "ast list" "ast list" "ast list"
  | Cond loc "(ast list \<times> ast list) list"
  | Math loc "u8 list" "ast list" "ast list"
  | Record_Type loc "ast list"
  | And loc "ast list" | Or loc "ast list"
  | Lambda loc "ast list" "ast list" | Call loc "ast list" "ast list"

text \<open>The nodes that hold a string.\<close>

fun leaf :: "ast \<Rightarrow> (node_type \<times> u8 list) option" where
  "leaf (Lit l s) = Some (STREAM_LITERAL, s)"
| "leaf (Sym l s) = Some (STREAM_SYMBOL, s)"
| "leaf (Str l s) = Some (STREAM_STRING, s)"
| "leaf (Op l s) = Some (STREAM_OP, s)"
| "leaf t = None"

definition is_formal :: "ast \<Rightarrow> bool" where
  "is_formal t \<longleftrightarrow> (case t of Sym l s \<Rightarrow> True | Lit l s \<Rightarrow> True | _ \<Rightarrow> False)"

definition is_raw :: "ast \<Rightarrow> bool" where
  "is_raw t \<longleftrightarrow> leaf t \<noteq> None \<or> (case t of Asm_Stream l ts \<Rightarrow> True | _ \<Rightarrow> False)"

section \<open>The tree in the heap\<close>

definition node_at :: "compiler_core \<Rightarrow> addr \<Rightarrow> (ins_node \<Rightarrow> bool) \<Rightarrow> bool" where
  "node_at c p P \<longleftrightarrow> p \<noteq> 0 \<and> (case nodes c p of None \<Rightarrow> False | Some nd \<Rightarrow> P nd)"

definition stream_at :: "compiler_core \<Rightarrow> addr \<Rightarrow> (addr \<Rightarrow> bool) \<Rightarrow> bool" where
  "stream_at c s P \<longleftrightarrow> s \<noteq> 0 \<and> (case streams c s of None \<Rightarrow> False | Some st \<Rightarrow> P (shead st))"

definition tagged :: "ins_node \<Rightarrow> loc \<Rightarrow> node_type \<Rightarrow> bool" where
  "tagged nd l ty \<longleftrightarrow> ntype nd = ty \<and> (case l of (f, lno, col) \<Rightarrow>
     nfile nd = Some f \<and> 0 \<notin> set f \<and> nline nd = lno \<and> ncolumn nd = col)"

definition says_text :: "ins_node \<Rightarrow> u8 list \<Rightarrow> bool" where
  "says_text nd s \<longleftrightarrow> nvalue nd = Literal s \<and> 0 \<notin> set s"

definition one_stream :: "ins_node \<Rightarrow> (addr \<Rightarrow> bool) \<Rightarrow> bool" where
  "one_stream nd P \<longleftrightarrow> (case nvalue nd of One s \<Rightarrow> P s | _ \<Rightarrow> False)"

definition two_streams :: "ins_node \<Rightarrow> (addr \<Rightarrow> bool) \<Rightarrow> (addr \<Rightarrow> bool) \<Rightarrow> bool" where
  "two_streams nd P Q \<longleftrightarrow> (case nvalue nd of Two s1 s2 \<Rightarrow> P s1 \<and> Q s2 | _ \<Rightarrow> False)"

text \<open>A node of two streams that is the head of a stream of its own.\<close>

definition two_arg_at :: "compiler_core \<Rightarrow> addr \<Rightarrow> (addr \<Rightarrow> bool) \<Rightarrow> (addr \<Rightarrow> bool) \<Rightarrow> bool" where
  "two_arg_at c s P Q \<longleftrightarrow> stream_at c s (\<lambda>p. node_at c p (\<lambda>nd. two_streams nd P Q))"

function (sequential) node_is :: "compiler_core \<Rightarrow> ins_node \<Rightarrow> ast \<Rightarrow> bool"
and nodes_are :: "compiler_core \<Rightarrow> addr \<Rightarrow> ast list \<Rightarrow> bool"
and clauses_are :: "compiler_core \<Rightarrow> addr \<Rightarrow> (ast list \<times> ast list) list \<Rightarrow> bool"
where
  "node_is c nd (Lit l s) = (tagged nd l STREAM_LITERAL \<and> says_text nd s)"
| "node_is c nd (Sym l s) = (tagged nd l STREAM_SYMBOL \<and> says_text nd s)"
| "node_is c nd (Str l s) = (tagged nd l STREAM_STRING \<and> says_text nd s)"
| "node_is c nd (Op l s) = (tagged nd l STREAM_OP \<and> says_text nd s)"
| "node_is c nd (Quote l ts) = (tagged nd l STREAM_QUOTED \<and> one_stream nd (\<lambda>s. stream_at c s (\<lambda>p. nodes_are c p ts)))"
| "node_is c nd (Load l ts) =
     (tagged nd l STREAM_LOAD \<and> one_stream nd (\<lambda>s. s = 0 \<and> ts = [] \<or> stream_at c s (\<lambda>p. nodes_are c p ts)))"
| "node_is c nd (Asm l ts) =
     (tagged nd l STREAM_ASM \<and> list_all is_raw ts \<and> one_stream nd (\<lambda>s. stream_at c s (\<lambda>p. nodes_are c p ts)))"
| "node_is c nd (Asm_Stream l ts) =
     (tagged nd l STREAM_ASM_STREAM \<and> one_stream nd (\<lambda>s. s = 0 \<and> ts = [] \<or> stream_at c s (\<lambda>p. nodes_are c p ts)))"
| "node_is c nd (Bind l us ts) =
     (tagged nd l STREAM_BIND \<and> two_streams nd (\<lambda>s. s = 0 \<and> us = [] \<or> stream_at c s (\<lambda>p. nodes_are c p us))
        (\<lambda>s. s = 0 \<and> ts = [] \<or> stream_at c s (\<lambda>p. nodes_are c p ts)))"
| "node_is c nd (Store l us ts) =
     (tagged nd l STREAM_STORE \<and> two_streams nd (\<lambda>s. s = 0 \<and> us = [] \<or> stream_at c s (\<lambda>p. nodes_are c p us))
        (\<lambda>s. s = 0 \<and> ts = [] \<or> stream_at c s (\<lambda>p. nodes_are c p ts)))"
| "node_is c nd (Let_Star l us ts) =
     (tagged nd l STREAM_LET_STAR \<and> two_streams nd (\<lambda>s. s = 0 \<and> us = [] \<or> stream_at c s (\<lambda>p. nodes_are c p us))
        (\<lambda>s. s = 0 \<and> ts = [] \<or> stream_at c s (\<lambda>p. nodes_are c p ts)))"
| "node_is c nd (If l ts us vs) =
     (tagged nd l STREAM_IF \<and> two_streams nd (\<lambda>s. s = 0 \<and> ts = [] \<or> stream_at c s (\<lambda>p. nodes_are c p ts))
        (\<lambda>s. two_arg_at c s (\<lambda>s. s = 0 \<and> us = [] \<or> stream_at c s (\<lambda>p. nodes_are c p us))
           (\<lambda>s. s = 0 \<and> vs = [] \<or> stream_at c s (\<lambda>p. nodes_are c p vs))))"
| "node_is c nd (Cond l cs) =
     (tagged nd l STREAM_COND \<and> one_stream nd (\<lambda>s. stream_at c s (\<lambda>p. clauses_are c p cs)))"
| "node_is c nd (Math l s us ts) =
     (tagged nd l STREAM_MATH \<and> two_streams nd (\<lambda>s1. stream_at c s1 (\<lambda>p. node_at c p (\<lambda>nd. says_text nd s)))
        (\<lambda>s2. two_arg_at c s2 (\<lambda>s. s = 0 \<and> us = [] \<or> stream_at c s (\<lambda>p. nodes_are c p us))
           (\<lambda>s. s = 0 \<and> ts = [] \<or> stream_at c s (\<lambda>p. nodes_are c p ts))))"
| "node_is c nd (Record_Type l ts) =
     (tagged nd l STREAM_RECORD_TYPE \<and> one_stream nd (\<lambda>s. stream_at c s (\<lambda>p. nodes_are c p ts)))"
| "node_is c nd (And l ts) =
     (tagged nd l STREAM_AND \<and> one_stream nd (\<lambda>s. s = 0 \<and> ts = [] \<or> stream_at c s (\<lambda>p. nodes_are c p ts)))"
| "node_is c nd (Or l ts) =
     (tagged nd l STREAM_OR \<and> one_stream nd (\<lambda>s. s = 0 \<and> ts = [] \<or> stream_at c s (\<lambda>p. nodes_are c p ts)))"
| "node_is c nd (Lambda l us ts) =
     (tagged nd l STREAM_LAMBDA \<and> list_all is_formal us \<and> two_streams nd (\<lambda>s. stream_at c s (\<lambda>p. nodes_are c p us))
        (\<lambda>s. s = 0 \<and> ts = [] \<or> stream_at c s (\<lambda>p. nodes_are c p ts)))"
| "node_is c nd (Call l us ts) =
     (tagged nd l STREAM_CALL \<and> two_streams nd (\<lambda>s. s = 0 \<and> us = [] \<or> stream_at c s (\<lambda>p. nodes_are c p us))
        (\<lambda>s. stream_at c s (\<lambda>p. nodes_are c p ts)))"
| "nodes_are c p [] = (p = 0)"
| "nodes_are c p (t # ts) = node_at c p (\<lambda>nd. node_is c nd t \<and> nodes_are c (nnext nd) ts)"
| "clauses_are c p [] = (p = 0)"
| "clauses_are c p ((us, ts) # cs) =
     node_at c p (\<lambda>nd. one_stream nd (\<lambda>s. two_arg_at c s
        (\<lambda>s. s = 0 \<and> us = [] \<or> stream_at c s (\<lambda>p. nodes_are c p us))
        (\<lambda>s. s = 0 \<and> ts = [] \<or> stream_at c s (\<lambda>p. nodes_are c p ts))) \<and> clauses_are c (nnext nd) cs)"

  by pat_completeness auto
termination
  by (relation "measure (\<lambda>x. case x of Inl (c, nd, t) \<Rightarrow> size t
        | Inr (Inl (c, p, ts)) \<Rightarrow> size_list size ts
        | Inr (Inr (c, p, cs)) \<Rightarrow> size_list (size_prod (size_list size) (size_list size)) cs)") auto

text \<open>A stream that may be null, as \<open>emit_stream\<close> allows, and one that may not.\<close>

definition stream_is :: "compiler_core \<Rightarrow> addr \<Rightarrow> ast list \<Rightarrow> bool" where
  "stream_is c s ts \<longleftrightarrow> s = 0 \<and> ts = [] \<or> stream_at c s (\<lambda>p. nodes_are c p ts)"

lemmas stream_is_fold = stream_is_def [symmetric]

section \<open>Lines of code\<close>

datatype line = Comment string | Debug loc | Label nat | Jump u8 nat | Ins "u8 list" | Text "u8 list"

definition label_name :: "nat \<Rightarrow> u8 list" where
  "label_name i = chars ''_label_'' @ show_int (of_nat i)"

definition op_name :: "u8 \<Rightarrow> u8 list" where
  "op_name ty = (case jump_name ty of Inr s \<Rightarrow> s | Inl e \<Rightarrow> [])"

fun render :: "line \<Rightarrow> u8 list" where
  "render (Comment s) = chars '';; '' @ chars s @ [10]"
| "render (Debug (f, lno, col)) = chars ''.file '' @ [34] @ f @ [34] @ 32 # show_int (scast lno) @ 32 # show_int (scast col) @ [10]"
| "render (Label i) = label_name i @ [58, 10]"
| "render (Jump ty i) = chars ''        '' @ op_name ty @ [32] @ label_name i @ [10]"
| "render (Ins s) = chars ''        '' @ s @ [10]"
| "render (Text s) = chars ''        '' @ [34] @ s @ [34, 10]"

definition listing :: "line list \<Rightarrow> u8 list" where
  "listing ls = concat (map render ls)"

lemma listing_simps [simp]:
  "listing [] = []" "listing (l # ls) = render l @ listing ls" "listing (ls @ ms) = listing ls @ listing ms"
  by (simp_all add: listing_def)

text \<open>Code generators: from the next label to the lines and the label after them.\<close>

type_synonym gen = "nat \<Rightarrow> line list \<times> nat"

definition stop :: gen where "stop i = ([], i)"

definition put :: "line \<Rightarrow> gen \<Rightarrow> gen" where
  "put l g i = (l # fst (g i), snd (g i))"

definition run :: "gen \<Rightarrow> gen \<Rightarrow> gen" where
  "run g h i = (fst (g i) @ fst (h (snd (g i))), snd (h (snd (g i))))"

definition fresh :: "(nat \<Rightarrow> gen) \<Rightarrow> gen" where
  "fresh g i = g i (i + 1)"

abbreviation ins :: "string \<Rightarrow> gen \<Rightarrow> gen" where
  "ins s \<equiv> put (Ins (chars s))"

fun puts :: "line list \<Rightarrow> gen \<Rightarrow> gen" where
  "puts [] g = g"
| "puts (l # ls) g = put l (puts ls g)"

section \<open>The code of a program\<close>

fun pushes_value :: "ast \<Rightarrow> bool" where
  "pushes_value (Bind l us ts) = False"
| "pushes_value (Store l us ts) = False"
| "pushes_value (Asm_Stream l ts) = False"
| "pushes_value t = True"

fun quoted_code :: "ast list \<Rightarrow> line list"
and quoted_items :: "bool \<Rightarrow> ast list \<Rightarrow> line list"
and quoted_item :: "ast \<Rightarrow> line list"
where
  "quoted_code ts = Comment ''--Quoted Start--'' # quoted_items False ts @ [Comment ''--Quoted End--'']"
| "quoted_items is_list [] = []"
| "quoted_items is_list (t # ts) =
     quoted_item t @ (if is_list then [Ins (chars ''cons'')] else []) @ quoted_items True ts"
| "quoted_item (Quote l ts) = quoted_code ts"
| "quoted_item (Lit l s) = [Ins s]"
| "quoted_item (Sym l s) = [Ins s]"
| "quoted_item (Str l s) = [Text s]"
| "quoted_item t = []"

fun formals_code :: "ast list \<Rightarrow> bool \<Rightarrow> line list \<times> bool" where
  "formals_code [] bind_rest = ([], bind_rest)"
| "formals_code (Sym l s # ts) bind_rest =
     (let (ls, r) = formals_code ts (ts = []) in
      (Comment ''----'' # (if ts = [] then [] else [Ins (chars ''dup''), Ins (chars ''car'')])
         @ [Ins s, Ins (chars ''bind'')]
         @ (case ts of Sym _ _ # _ \<Rightarrow> [Ins (chars ''cdr'')] | _ \<Rightarrow> []) @ ls, r))"
| "formals_code (_ # ts) bind_rest = ([], bind_rest)"

fun lit_text :: "ast \<Rightarrow> u8 list" where
  "lit_text t = (case leaf t of Some (ty, s) \<Rightarrow> s | None \<Rightarrow> [])"

fun loc_of :: "ast \<Rightarrow> loc" where
  "loc_of (Lit l _) = l" | "loc_of (Sym l _) = l" | "loc_of (Str l _) = l" | "loc_of (Op l _) = l"
| "loc_of (Quote l _) = l" | "loc_of (Load l _) = l" | "loc_of (Asm l _) = l" | "loc_of (Asm_Stream l _) = l"
| "loc_of (Bind l _ _) = l" | "loc_of (Store l _ _) = l" | "loc_of (Let_Star l _ _) = l"
| "loc_of (If l _ _ _) = l" | "loc_of (Cond l _) = l" | "loc_of (Math l _ _ _) = l" | "loc_of (Record_Type l _) = l"
| "loc_of (And l _) = l" | "loc_of (Or l _) = l" | "loc_of (Lambda l _ _) = l" | "loc_of (Call l _ _) = l"

text \<open>The label \<open>done\<close> of an \<open>and\<close> or \<open>or\<close> is an argument; so is that of a \<open>cond\<close>.\<close>

function (sequential) node_code :: "bool \<Rightarrow> ast \<Rightarrow> gen"
and kind_code :: "bool \<Rightarrow> ast \<Rightarrow> gen"
and nodes_code :: "bool \<Rightarrow> ast list \<Rightarrow> gen"
and stream_code :: "bool \<Rightarrow> ast list \<Rightarrow> gen"
and args_code :: "ast list \<Rightarrow> gen"
and bool_code :: "bool \<Rightarrow> nat \<Rightarrow> ast list \<Rightarrow> gen"
and raw_code :: "ast list \<Rightarrow> gen"
and clauses_code :: "bool \<Rightarrow> nat \<Rightarrow> (ast list \<times> ast list) list \<Rightarrow> gen"
where
  "node_code tail t = put (Debug (loc_of t)) (kind_code tail t)"
| "kind_code tail (Lit l s) = put (Ins s) stop"
| "kind_code tail (Sym l s) = put (Ins s) stop"
| "kind_code tail (Op l s) = put (Ins s) stop"
| "kind_code tail (Str l s) = put (Text s) stop"
| "kind_code tail (Quote l ts) = puts (quoted_code ts) stop"
| "kind_code tail (Load l ts) = run (stream_code False ts) (ins ''@'' stop)"
| "kind_code tail (Asm l ts) =
     put (Comment ''--Raw ASM Start--'') (run (raw_code ts) (put (Comment ''--Raw ASM End--'') stop))"
| "kind_code tail (Asm_Stream l ts) = stop"
| "kind_code tail (Bind l us ts) = run (stream_code False us) (run (stream_code False ts) (ins ''bind'' stop))"
| "kind_code tail (Store l us ts) = run (stream_code False us) (run (stream_code False ts) (ins ''!'' stop))"
| "kind_code tail (Math l s us ts) = run (stream_code False us) (run (stream_code False ts) (put (Ins s) stop))"
| "kind_code tail (If l ts us vs) =
     fresh (\<lambda>true. fresh (\<lambda>done.
       put (Comment ''--If Start--'') (run (stream_code False ts)
       (put (Jump OP_JNF true) (run (stream_code tail vs)
       (puts [Jump OP_JMP done, Comment ''--If true--'', Label true] (run (stream_code tail us)
       (puts [Comment ''--If Done--'', Label done, Comment ''--If End--''] stop))))))))"
| "kind_code tail (Cond l cs) =
     fresh (\<lambda>done. put (Comment ''--Cond Start--'') (run (clauses_code tail done cs)
       (puts [Comment ''--Cond Fall-Through--'', Ins (chars ''()''), Label done, Comment ''--Cond End--''] stop)))"
| "kind_code tail (And l ts) =
     fresh (\<lambda>done. put (Comment ''--Bool Operator Start--'') (run (bool_code True done ts)
       (puts (if ts = [] then [Ins (chars ''#t'')] else [])
       (puts [Label done, Comment ''--Bool Operator End--''] stop))))"
| "kind_code tail (Or l ts) =
     fresh (\<lambda>done. put (Comment ''--Bool Operator Start--'') (run (bool_code False done ts)
       (puts (if ts = [] then [Ins (chars ''#f'')] else [])
       (puts [Label done, Comment ''--Bool Operator End--''] stop))))"
| "kind_code tail (Lambda l us ts) =
     fresh (\<lambda>proc. fresh (\<lambda>skip.
       puts [Jump OP_JMP skip, Label proc, Ins (chars ''swap''), Comment ''-- Formals --'']
       (puts (fst (formals_code us False))
       (put (Comment ''----'') (puts (if snd (formals_code us False) then [] else [Ins (chars ''drop'')])
       (put (Comment ''-- Body --'') (run (stream_code True ts)
       (puts [Ins (chars ''swap ret''), Label skip, Jump OP_PROC proc] stop))))))))"
| "kind_code tail (Call l us ts) =
     puts [Comment ''--Call Start--'', Ins (chars ''()'')] (run (args_code ts) (run (stream_code False us)
       (puts [Ins (chars (if tail then ''tail_call_in'' else ''call_in'')), Comment ''--Call End--''] stop)))"
| "kind_code tail (Let_Star l us ts) =
     fresh (\<lambda>body. fresh (\<lambda>next.
       put (Comment ''-- Let* --'')
       (puts (if tail then [Ins (chars ''()''), Jump OP_PROC body, Ins (chars ''tail_call_in'')]
              else [Jump OP_CALL body, Jump OP_JMP next])
       (put (Label body) (puts (if tail then [Ins (chars ''swap drop'')] else [])
       (put (Comment ''-- Binding List--'') (run (stream_code False us)
       (puts [Ins (chars ''drop''), Comment ''-- Binding List End--'', Comment ''-- Let* Body--''] (run (stream_code tail ts)
       (puts [Comment ''-- Let* Body End--'', Ins (chars ''swap ret''), Label next, Comment ''-- Let* End --''] stop))))))))))"
| "kind_code tail (Record_Type l ts) =
     put (Comment ''--Record Start--'') (puts (quoted_code ts)
       (puts [Ins record_type_factory, Ins (chars ''@''), Ins (chars ''call_in''), Comment ''--Record Binding--'']
       (fresh (\<lambda>loop. fresh (\<lambda>done.
         puts [Label loop, Ins (chars ''dup''), Ins (chars ''null?''), Jump OP_JNF done,
           Ins (chars ''dup''), Ins (chars ''car''), Ins (chars ''dup''), Ins (chars ''cdr''), Ins (chars ''swap''),
           Ins (chars ''car''), Ins (chars ''bind''), Ins (chars ''cdr''), Jump OP_JMP loop, Label done,
           Comment ''--Record End--''] stop)))))"
| "nodes_code tail [] = stop"
| "nodes_code tail (t # ts) =
     run (node_code (tail \<and> ts = []) t)
       (puts (if ts \<noteq> [] \<and> pushes_value t then [Ins (chars ''drop'')] else []) (nodes_code tail ts))"
| "stream_code tail ts =
     run (nodes_code tail ts)
       (puts (if ts \<noteq> [] \<and> pushes_value (last ts) then [] else [Ins (chars ''()'')]) stop)"
| "args_code [] = stop"
| "args_code (t # ts) =
     run (node_code False t)
       (puts (if pushes_value t then [] else [Ins (chars ''()'')]) (ins ''cons'' (args_code ts)))"
| "bool_code and_or done [] = stop"
| "bool_code and_or done (t # ts) =
     run (node_code False t) (puts (if pushes_value t then [] else [Ins (chars ''()'')])
       (if ts = [] then stop
        else
          ins ''dup'' (if and_or
            then fresh (\<lambda>next. puts [Jump OP_JNF next, Jump OP_JMP done, Label next, Ins (chars ''drop'')]
                   (bool_code and_or done ts))
            else puts [Jump OP_JNF done, Ins (chars ''drop'')] (bool_code and_or done ts))))"
| "raw_code [] = stop"
| "raw_code (t # ts) =
     (case t of
        Asm_Stream l us \<Rightarrow>
          put (Comment ''----Escape ASM Start----'') (run (stream_code False us)
            (put (Comment ''----Escape ASM End----'') (raw_code ts)))
      | _ \<Rightarrow> put (Ins (lit_text t)) (raw_code ts))"
| "clauses_code tail done [] = stop"
| "clauses_code tail done ((us, ts) # cs) =
     put (Comment ''----Cond Clause----'') (run (stream_code False us)
       (ins ''not'' (fresh (\<lambda>next. put (Jump OP_JNF next) (run (stream_code tail ts)
         (puts [Jump OP_JMP done, Label next] (clauses_code tail done cs)))))))"

  by pat_completeness auto
termination
  by (relation "measure (\<lambda>x. case x of
      Inl (Inl (Inl (tail, t))) \<Rightarrow> 2 * size t + 1
    | Inl (Inl (Inr (tail, t))) \<Rightarrow> 2 * size t
    | Inl (Inr (Inl (tail, ts))) \<Rightarrow> 2 * size_list size ts
    | Inl (Inr (Inr (tail, ts))) \<Rightarrow> 2 * size_list size ts + 1
    | Inr (Inl (Inl ts)) \<Rightarrow> 2 * size_list size ts
    | Inr (Inl (Inr (and_or, d, ts))) \<Rightarrow> 2 * size_list size ts
    | Inr (Inr (Inl ts)) \<Rightarrow> 2 * size_list size ts
    | Inr (Inr (Inr (tail, d, cs))) \<Rightarrow> 2 * size_list (size_prod (size_list size) (size_list size)) cs)") auto

end
