(* ===== verification/Emit_Rules.thy ===== *)
theory Emit_Rules
  imports Emit_Tree
begin

text \<open>
  A calculus for the code generator: what a function of it appends to the buffer, as the text of
  lines, and which labels it takes (\<open>writes\<close>), with a rule for each of the shapes its functions are
  built from. The bytes of a line come from the contract of the buffer.
\<close>

section \<open>A calculus for the code generator\<close>

definition relabel :: "compiler_core \<Rightarrow> nat \<Rightarrow> compiler_core" where
  "relabel c i = c\<lparr>label_index := of_nat i\<rparr>"

text \<open>\<open>e\<close> returns and appends exactly these bytes; the text of these lines.\<close>

definition grows_by :: "(buffer \<Rightarrow> buffer res) \<Rightarrow> u8 list \<Rightarrow> bool" where
  "grows_by e bs \<longleftrightarrow> (\<forall>buf. buffer_ok buf \<longrightarrow> (\<exists>buf'. e buf = Inr buf' \<and> buffer_ok buf' \<and> contents buf' = contents buf @ bs))"

abbreviation appends :: "(buffer \<Rightarrow> buffer res) \<Rightarrow> line list \<Rightarrow> bool" where
  "appends e ls \<equiv> grows_by e (listing ls)"

text \<open>From any label on, \<open>f\<close> appends the text of the lines of \<open>g\<close>, takes its labels and returns \<open>R\<close> of
  the compiler and the buffer.\<close>

definition writes :: "compiler_core \<Rightarrow> gen \<Rightarrow> (compiler_core \<Rightarrow> buffer \<Rightarrow> 'r res) \<Rightarrow> (compiler_core \<Rightarrow> buffer \<Rightarrow> 'r) \<Rightarrow> bool"
  where "writes c g f R \<longleftrightarrow> (\<forall>i buf. buffer_ok buf \<longrightarrow> (\<exists>buf'. f (relabel c i) buf = Inr (R (relabel c (snd (g i))) buf')
     \<and> buffer_ok buf' \<and> contents buf' = contents buf @ listing (fst (g i))))"

definition is_label :: "buffer \<Rightarrow> nat \<Rightarrow> bool" where
  "is_label lb l \<longleftrightarrow> buffer_ok lb \<and> contents lb = label_name l"

lemma relabel_fields [simp]:
  "nodes (relabel c i) = nodes c" "streams (relabel c i) = streams c" "label_index (relabel c i) = of_nat i"
  "home (relabel c i) = home c" "stream (relabel c i) = stream c"
  "(relabel c i)\<lparr>label_index := of_nat j\<rparr> = relabel c j" "relabel (relabel c i) j = relabel c j"
  by (simp_all add: relabel_def)

lemma read_relabel [simp]:
  "stream_head (relabel c i) = stream_head c" "node_stream (relabel c i) = node_stream c"
  "node_two (relabel c i) = node_two c"
  by (simp_all add: stream_head_def node_stream_def node_two_def fun_eq_iff)

lemma walk_relabel [simp]: "walk n (relabel c i) f p s = walk n c f p s"
  by (induction n arbitrary: p s) (auto simp: rbind_def split: sum.split)

section \<open>Bytes\<close>

lemma grows_write: "grows_by (\<lambda>b. write_s b s) s"
  by (simp add: grows_by_def write_s_def put_bytes_ok)

lemma grows_skip: "grows_by Inr []"
  by (simp add: grows_by_def)

lemma grows_seq: "grows_by e bs \<Longrightarrow> grows_by e' bs' \<Longrightarrow> grows_by (\<lambda>b. rbind (e b) e') (bs @ bs')"
  unfolding grows_by_def by (metis append.assoc rbind_Inr)

lemma grows_append:
  assumes "is_label lb l" "grows_by e bs"
  shows "grows_by (\<lambda>b. rbind (buffer_append b lb None) (\<lambda>(b, _). e b)) (label_name l @ bs)"
proof -
  have s: "\<forall>b\<in>set (blocks lb). length b = BLOCK_SIZE" using assms(1) by (simp add: buffer_ok_def is_label_def)
  have "used lb \<le> length (concat (blocks lb))"
    using length_contents [of lb] assms(1) by (simp add: contents_def is_label_def)
  then have "\<exists>buf'. append_loop buf (blocks lb) (used lb) 0 = Inr (buf', used lb) \<and> buffer_ok buf'
      \<and> contents buf' = contents buf @ contents lb" if "buffer_ok buf" for buf
    using append_loop_spec [OF s, of 0 "used lb" buf] that by (simp add: contents_def)
  then show ?thesis using assms unfolding grows_by_def is_label_def
    by (simp add: buffer_append_def buffer_size_def) (metis append.assoc rbind_Inr case_prod_conv)
qed

lemma grows_if: "grows_by e bs \<Longrightarrow> grows_by e' bs' \<Longrightarrow> grows_by (\<lambda>b. if Q then e b else e' b) (if Q then bs else bs')"
  by simp

lemma chars_nonzero: "CHR 0x00 \<notin> set s \<Longrightarrow> 0 \<notin> set (chars s)"
proof
  assume "CHR 0x00 \<notin> set s" "0 \<in> set (chars s)"
  then obtain ch where ch: "ch \<in> set s" "(of_nat (of_char ch) :: u8) = 0" by (auto simp: chars_def)
  then have "(256 :: nat) dvd of_char ch" by (simp add: word_of_nat_eq_0_iff)
  moreover have "(of_char ch :: nat) < 256" by simp
  ultimately have "(of_char ch :: nat) = 0" by (metis dvd_imp_le not_le not_gr_zero)
  then have "(of_char ch :: nat) = of_char (CHR 0x00)" by simp
  then have "ch = CHR 0x00" by (simp only: of_char_eq_iff)
  then show False using ch(1) \<open>CHR 0x00 \<notin> set s\<close> by simp
qed

lemmas grows_rules = grows_seq grows_write grows_append grows_skip

lemma grows_newline: "grows_by emit_newline [10]"
  using grows_write unfolding emit_newline_def .

lemma grows_indent: "grows_by emit_indent (chars ''        '')"
  using grows_write unfolding emit_indent_def .

lemma appends_comment: "appends (\<lambda>b. emit_comment b s) [Comment s]"
proof -
  have "grows_by (\<lambda>b. emit_comment b s) (chars '';; '' @ chars s @ [10])"
    unfolding emit_comment_def by (intro grows_seq grows_write grows_newline)
  then show ?thesis by simp
qed

lemma appends_op: "0 \<notin> set s \<Longrightarrow> appends (\<lambda>b. emit_op b s) [Ins s]"
proof -
  assume "0 \<notin> set s"
  moreover have "grows_by (\<lambda>b. emit_op b s) (chars ''        '' @ c_str s @ [10])"
    unfolding emit_op_def by (intro grows_seq grows_write grows_newline grows_indent)
  ultimately show ?thesis by simp
qed

lemma appends_label: "is_label lb l \<Longrightarrow> appends (\<lambda>b. emit_label b lb) [Label l]"
proof -
  assume "is_label lb l"
  then have "grows_by (\<lambda>b. emit_label b lb) (label_name l @ [58] @ [10])"
    unfolding emit_label_def by (intro grows_append grows_seq grows_write grows_newline)
  then show ?thesis by simp
qed

lemma appends_jump:
  assumes "is_label lb l" "ty \<in> {OP_CALL, OP_PROC, OP_JMP, OP_JNF}"
  shows "appends (\<lambda>b. emit_jump_label b ty lb) [Jump ty l]"
proof -
  have j: "jump_name ty = Inr (op_name ty)" using assms(2) by (auto simp: op_name_def jump_name_def)
  have "grows_by (\<lambda>b. emit_jump_label b ty lb) (chars ''        '' @ op_name ty @ [32] @ label_name l @ [10])"
    unfolding emit_jump_label_def j rbind_Inr using assms(1)
    by (intro grows_append grows_seq grows_write grows_newline grows_indent)
  then show ?thesis by simp
qed

lemma appends_text:
  assumes "says_text nd s"
  shows "appends (\<lambda>b. emit_string b nd) [Text s]"
proof -
  have v: "value_literal nd = Inr s" "c_str s = s" using assms by (simp_all add: says_text_def value_literal_def)
  have "grows_by (\<lambda>b. emit_string b nd) (chars ''        '' @ [34] @ s @ [34] @ [10])"
    unfolding emit_string_def v rbind_Inr by (intro grows_seq grows_write grows_newline grows_indent)
  then show ?thesis by simp
qed

lemma appends_literal: "says_text nd s \<Longrightarrow> appends (\<lambda>b. emit_literal b nd) [Ins s]"
  using appends_op [of s] by (simp add: emit_literal_def says_text_def value_literal_def)

lemma appends_debug:
  assumes "tagged nd l ty"
  shows "appends (\<lambda>b. emit_debug b nd) [Debug l]"
proof -
  obtain f lno col where l: "l = (f, lno, col)" by (cases l)
  have nd: "nfile nd = Some f" "c_str f = f" "nline nd = lno" "ncolumn nd = col"
    using assms by (simp_all add: tagged_def l)
  have "grows_by (\<lambda>b. emit_debug b nd) ((chars ''.file '' @ [34]) @ f @ [34] @ (32 # show_int (scast lno)) @ (32 # show_int (scast col)) @ [10])"
    unfolding emit_debug_def nd deref_simps rbind_Inr by (intro grows_seq grows_write grows_newline)
  then show ?thesis by (simp add: l)
qed

lemma gen_label_run:
  "\<exists>lb. gen_label (relabel c i) = Inr (relabel c (i + 1), lb) \<and> is_label lb i"
proof -
  have "grows_by (\<lambda>b. rbind (write_s b (chars ''_label_'')) (\<lambda>b. write_s b (show_int (of_nat i)))) (label_name i)"
    unfolding label_name_def by (intro grows_seq grows_write)
  then obtain lb where "rbind (write_s buffer_create (chars ''_label_'')) (\<lambda>b. write_s b (show_int (of_nat i))) = Inr lb"
    "is_label lb i" using buffer_create_ok by (force simp: grows_by_def is_label_def)
  then show ?thesis by (auto simp: gen_label_def relabel_def res_simps add.commute)
qed

section \<open>Rules\<close>

lemma writes_stop: "writes c stop (\<lambda>c buf. Inr (R c buf)) R"
  by (auto simp: writes_def stop_def)

lemma writes_grow:
  assumes "\<And>i. appends (e (relabel c i)) ls" "writes c g f R"
  shows "writes c (puts ls g) (\<lambda>c buf. rbind (e c buf) (\<lambda>buf. f c buf)) R"
proof -
  have p: "puts ls g i = (ls @ fst (g i), snd (g i))" for i by (induction ls) (simp_all add: put_def)
  show ?thesis unfolding writes_def
  proof (intro allI impI)
    fix i and buf :: buffer
    assume "buffer_ok buf"
    then obtain b1 where b1: "e (relabel c i) buf = Inr b1" "buffer_ok b1" "contents b1 = contents buf @ listing ls"
      using assms(1) [of i] unfolding grows_by_def by blast
    then obtain b2 where "f (relabel c i) b1 = Inr (R (relabel c (snd (g i))) b2)" "buffer_ok b2"
      "contents b2 = contents b1 @ listing (fst (g i))" using assms(2) unfolding writes_def by blast
    then show "\<exists>buf'. rbind (e (relabel c i) buf) (f (relabel c i)) = Inr (R (relabel c (snd (puts ls g i))) buf')
        \<and> buffer_ok buf' \<and> contents buf' = contents buf @ listing (fst (puts ls g i))" using b1 by (auto simp: p intro!: exI [of _ b2])
  qed
qed

lemmas writes_put = writes_grow [of "\<lambda>c. e" c "[l]" for e c l, simplified puts.simps]

lemma writes_comment:
  "writes c g f R \<Longrightarrow> writes c (put (Comment s) g) (\<lambda>c buf. rbind (emit_comment buf s) (\<lambda>buf. f c buf)) R"
  by (rule writes_put [OF appends_comment])

lemma writes_op:
  "CHR 0x00 \<notin> set s \<Longrightarrow> writes c g f R \<Longrightarrow> writes c (put (Ins (chars s)) g) (\<lambda>c buf. rbind (emits buf s) (\<lambda>buf. f c buf)) R"
  by (rule writes_put [OF appends_op [OF chars_nonzero]])

lemma writes_op_bytes:
  "0 \<notin> set s \<Longrightarrow> writes c g f R \<Longrightarrow> writes c (put (Ins s) g) (\<lambda>c buf. rbind (emit_op buf s) (\<lambda>buf. f c buf)) R"
  by (rule writes_put [OF appends_op])

lemma writes_label:
  "is_label lb l \<Longrightarrow> writes c g f R \<Longrightarrow> writes c (put (Label l) g) (\<lambda>c buf. rbind (emit_label buf lb) (\<lambda>buf. f c buf)) R"
  by (rule writes_put [OF appends_label])

lemma writes_jump:
  "is_label lb l \<Longrightarrow> ty \<in> {OP_CALL, OP_PROC, OP_JMP, OP_JNF} \<Longrightarrow> writes c g f R \<Longrightarrow>
   writes c (put (Jump ty l) g) (\<lambda>c buf. rbind (emit_jump_label buf ty lb) (\<lambda>buf. f c buf)) R"
  by (rule writes_put [OF appends_jump])

lemma writes_bind:
  assumes "writes c g f R0" "writes c h (\<lambda>c buf. k (R0 c buf)) R"
  shows "writes c (run g h) (\<lambda>c buf. rbind (f c buf) k) R"
  unfolding writes_def
proof (intro allI impI)
  fix i and buf :: buffer
  assume "buffer_ok buf"
  then obtain b1 where b1: "f (relabel c i) buf = Inr (R0 (relabel c (snd (g i))) b1)" "buffer_ok b1"
    "contents b1 = contents buf @ listing (fst (g i))" using assms(1) unfolding writes_def by blast
  then obtain b2 where "k (R0 (relabel c (snd (g i))) b1) = Inr (R (relabel c (snd (h (snd (g i))))) b2)" "buffer_ok b2"
    "contents b2 = contents b1 @ listing (fst (h (snd (g i))))" using assms(2) unfolding writes_def by blast
  then show "\<exists>buf'. rbind (f (relabel c i) buf) k = Inr (R (relabel c (snd (run g h i))) buf')
      \<and> buffer_ok buf' \<and> contents buf' = contents buf @ listing (fst (run g h i))" using b1 by (auto simp: run_def intro!: exI [of _ b2])
qed

lemma writes_run:
  "writes c g f Pair \<Longrightarrow> writes c h k R \<Longrightarrow> writes c (run g h) (\<lambda>c buf. rbind (f c buf) (\<lambda>(c, buf). k c buf)) R"
  using writes_bind [of c g f Pair h "\<lambda>(c, buf). k c buf" R] by simp

lemma writes_run_flag:
  "writes c g f (\<lambda>c buf. (c, buf, b)) \<Longrightarrow> writes c h (\<lambda>c buf. k c buf b) R \<Longrightarrow>
   writes c (run g h) (\<lambda>c buf. rbind (f c buf) (\<lambda>(c, buf, b). k c buf b)) R"
  using writes_bind [of c g f "\<lambda>c buf. (c, buf, b)" h "\<lambda>(c, buf, b). k c buf b" R] by simp

lemma writes_fresh:
  assumes "\<And>l lb. is_label lb l \<Longrightarrow> writes c (g l) (\<lambda>c buf. f lb c buf) R"
  shows "writes c (fresh g) (\<lambda>c buf. rbind (gen_label c) (\<lambda>(c, lb). f lb c buf)) R"
  unfolding writes_def
proof (intro allI impI)
  fix i and buf :: buffer
  assume b: "buffer_ok buf"
  obtain lb where lb: "gen_label (relabel c i) = Inr (relabel c (i + 1), lb)" "is_label lb i"
    using gen_label_run by blast
  obtain b2 where "f lb (relabel c (i + 1)) buf = Inr (R (relabel c (snd (g i (i + 1)))) b2)" "buffer_ok b2"
    "contents b2 = contents buf @ listing (fst (g i (i + 1)))"
    using assms [OF lb(2)] b unfolding writes_def by blast
  then show "\<exists>buf'. rbind (gen_label (relabel c i)) (\<lambda>(c, lb). f lb c buf) = Inr (R (relabel c (snd (fresh g i))) buf')
      \<and> buffer_ok buf' \<and> contents buf' = contents buf @ listing (fst (fresh g i))"
    using lb by (auto simp: fresh_def intro!: exI [of _ b2])
qed

lemma writes_read:
  assumes "\<And>i. r (relabel c i) = Inr v" "writes c g (\<lambda>c buf. f v c buf) R"
  shows "writes c g (\<lambda>c buf. rbind (r c) (\<lambda>x. f x c buf)) R"
  using assms by (simp add: writes_def)

lemma writes_two:
  "node_two c p = Inr (s1, s2) \<Longrightarrow> writes c g (\<lambda>c buf. f s1 s2 c buf) R \<Longrightarrow>
   writes c g (\<lambda>c buf. rbind (node_two c p) (\<lambda>(s1, s2). f s1 s2 c buf)) R"
  by (simp add: writes_def)

lemma writes_head:
  "stream_head c s = Inr p \<Longrightarrow> writes c g (\<lambda>c buf. f p c buf) R \<Longrightarrow>
   writes c g (\<lambda>c buf. rbind (stream_head c s) (\<lambda>p. f p c buf)) R"
  by (simp add: writes_def)

lemma writes_stream:
  "node_stream c p = Inr s \<Longrightarrow> writes c g (\<lambda>c buf. f s c buf) R \<Longrightarrow>
   writes c g (\<lambda>c buf. rbind (node_stream c p) (\<lambda>s. f s c buf)) R"
  by (simp add: writes_def)

lemma writes_pushes: "writes c g f Pair \<Longrightarrow> writes c g (\<lambda>c buf. pushes (f c buf)) (\<lambda>c buf. (c, buf, True))"
  by (force simp: writes_def pushes_def)

lemmas writes_rules = writes_comment writes_op writes_op_bytes writes_label writes_jump writes_stop

end
