(* ===== verification/Emit_Loops.thy ===== *)
theory Emit_Loops
  imports Emit_Rules
begin

text \<open>
  What the loops of the code generator write: the nodes of a stream, the arguments of a call, the
  operands of \<open>and\<close> and \<open>or\<close>, raw assembler, the clauses of a \<open>cond\<close>, formals and quoted data, each
  by induction on the list the heap holds.
\<close>

declare node_code.simps [simp del] kind_code.simps [simp del]

section \<open>The functions of the generator\<close>

lemmas emit_rules = writes_op writes_comment writes_op_bytes writes_label writes_jump writes_stop writes_fresh writes_run
  writes_two writes_head writes_stream

lemma emit_if_writes:
  assumes "node_two c p = Inr (s, a)" "stream_head c a = Inr b" "node_two c b = Inr (s1, s2)"
    "writes c gt (\<lambda>c buf. es c buf s False) Pair" "writes c g1 (\<lambda>c buf. es c buf s1 tail) Pair"
    "writes c g2 (\<lambda>c buf. es c buf s2 tail) Pair"
  shows "writes c (fresh (\<lambda>true. fresh (\<lambda>done.
       put (Comment ''--If Start--'') (run gt
       (put (Jump OP_JNF true) (run g2
       (puts [Jump OP_JMP done, Comment ''--If true--'', Label true] (run g1
       (puts [Comment ''--If Done--'', Label done, Comment ''--If End--''] stop)))))))))
     (\<lambda>c buf. emit_if es c buf p tail) Pair"
  unfolding emit_if_def puts.simps
  by (rule emit_rules assms | assumption | simp; fail)+

lemma emit_double_writes:
  assumes "node_two c p = Inr (s1, s2)" "0 \<notin> set str"
    "writes c g1 (\<lambda>c buf. es c buf s1 False) Pair" "writes c g2 (\<lambda>c buf. es c buf s2 False) Pair"
  shows "writes c (run g1 (run g2 (put (Ins str) stop))) (\<lambda>c buf. emit_double es c buf p str) Pair"
  unfolding emit_double_def by (rule emit_rules assms | assumption | simp; fail)+

lemma rbind_case_prod: "rbind (case x of (a, b) \<Rightarrow> f a b) g = (case x of (a, b) \<Rightarrow> rbind (f a b) g)"
  by (cases x) simp

lemmas flat = rbind_assoc rbind_case_prod case_prod_conv rbind_Inr

lemma nodes_are_null: "nodes_are c p ts \<Longrightarrow> p = 0 \<longleftrightarrow> ts = []"
  by (cases ts) (auto simp: node_at_def)

lemma node_atE:
  assumes "node_at c p P"
  obtains nd where "p \<noteq> 0" "nodes c p = Some nd" "P nd"
  using assms by (auto simp: node_at_def split: option.splits)

lemma stream_atE:
  assumes "stream_at c s P"
  obtains p where "s \<noteq> 0" "stream_head c s = Inr p" "P p"
  using assms by (auto simp: stream_at_def stream_head_def split: option.splits)

lemma writes_walk:
  "writes c g (\<lambda>c' buf. walk n c f p (h c' buf)) R \<Longrightarrow> writes c g (\<lambda>c' buf. walk n c' f p (h c' buf)) R"
  by (simp add: writes_def)

lemma walk_node: "p \<noteq> 0 \<Longrightarrow> nodes c p = Some nd \<Longrightarrow>
   walk (Suc n) c f p s = rbind (f p nd s) (\<lambda>s. walk n c f (nnext nd) s)"
  by simp

text \<open>What a generator of nodes does on the nodes of trees that need less than a depth.\<close>

definition emits_nodes :: "compiler_core \<Rightarrow> node_fn \<Rightarrow> nat \<Rightarrow> bool" where
  "emits_nodes c en n \<longleftrightarrow> (\<forall>t p nd tail. nodes c p = Some nd \<longrightarrow> p \<noteq> 0 \<longrightarrow> node_is c nd t \<longrightarrow> size t + 1 < n \<longrightarrow> (tail \<longrightarrow> nnext nd = 0)
     \<longrightarrow> writes c (node_code tail t) (\<lambda>c buf. en c buf p tail) (\<lambda>c buf. (c, buf, pushes_value t)))"

lemma emits_nodesD:
  "emits_nodes c en n \<Longrightarrow> nodes c p = Some nd \<Longrightarrow> p \<noteq> 0 \<Longrightarrow> node_is c nd t \<Longrightarrow> size t + 1 < n \<Longrightarrow> (tail \<Longrightarrow> nnext nd = 0)
     \<Longrightarrow> writes c (node_code tail t) (\<lambda>c buf. en c buf p tail) (\<lambda>c buf. (c, buf, pushes_value t))"
  by (auto simp: emits_nodes_def)

lemma appends_maybe:
  "CHR 0x00 \<notin> set s \<Longrightarrow> appends (\<lambda>b. if Q then emits b s else Inr b) (if Q then [Ins (chars s)] else [])"
  "CHR 0x00 \<notin> set s \<Longrightarrow> appends (\<lambda>b. if \<not> Q then emits b s else Inr b) (if Q then [] else [Ins (chars s)])"
  using appends_op [OF chars_nonzero, of s] grows_skip by (auto simp: grows_by_def)

text \<open>The bodies of the loops at a state.\<close>

lemmas loop_bodies =
  fun_cong [OF emit_stream_node_def, where x = "(c, buf, b)" for c buf b]
  fun_cong [OF emit_clause_def, where x = "(c, buf)" for c buf]
  fun_cong [OF emit_bool_exp_def, where x = "(c, buf, b)" for c buf b]
  fun_cong [OF emit_argument_def, where x = "(c, buf)" for c buf]
  fun_cong [OF emit_asm_node_def, where x = "(c, buf)" for c buf]

lemma nodes_write:
  assumes en: "emits_nodes c en n"
  shows "nodes_are c p ts \<Longrightarrow> size_list size ts < n \<Longrightarrow> length ts < m \<Longrightarrow>
   writes c (nodes_code tail ts) (\<lambda>c' buf. walk m c (emit_stream_node en tail) p (c', buf, b))
     (\<lambda>c buf. (c, buf, if ts = [] then b else pushes_value (last ts)))"
proof (induction ts arbitrary: p m b)
  case Nil
  then show ?case by (cases m) (auto intro: writes_stop)
next
  case (Cons t ts)
  then obtain m' where m: "m = Suc m'" by (cases m) auto
  obtain nd where nd: "p \<noteq> 0" "nodes c p = Some nd" "node_is c nd t" "nodes_are c (nnext nd) ts"
    using Cons.prems(1) by (auto elim: node_atE)
  have z: "nnext nd = 0 \<longleftrightarrow> ts = []" by (rule nodes_are_null [OF nd(4)])
  have n: "writes c (node_code (tail \<and> ts = []) t) (\<lambda>c buf. en c buf p (tail \<and> ts = [])) (\<lambda>c buf. (c, buf, pushes_value t))"
    using Cons.prems nd z by (intro emits_nodesD [OF en]) auto
  have r: "writes c (nodes_code tail ts) (\<lambda>c' buf. walk m' c (emit_stream_node en tail) (nnext nd) (c', buf, pushes_value t))
     (\<lambda>c buf. (c, buf, if ts = [] then pushes_value t else pushes_value (last ts)))"
    using Cons.prems m nd by (intro Cons.IH) auto
  have e: "(if t # ts = [] then b else pushes_value (last (t # ts))) = (if ts = [] then pushes_value t else pushes_value (last ts))"
    by simp
  show ?case
    unfolding e m walk_node [OF nd(1,2)] loop_bodies flat nodes_code.simps z
    by (rule writes_run_flag writes_grow appends_maybe n r | simp; fail)+
qed

lemma stream_writes:
  assumes en: "emits_nodes c en n" and s: "stream_is c s ts" and n: "size_list size ts + 1 < n"
  shows "writes c (stream_code tail ts) (\<lambda>c buf. emit_stream_with en n c buf s tail) Pair"
proof -
  obtain p where p: "(if s = 0 then Inr 0 else stream_head c s) = Inr p" "nodes_are c p ts"
    using s by (auto simp: stream_is_def elim: stream_atE)
  have "length ts \<le> size_list size ts" by (induction ts) auto
  then have w: "writes c (nodes_code tail ts) (\<lambda>c' buf. walk n c' (emit_stream_node en tail) p (c', buf, False))
     (\<lambda>c buf. (c, buf, ts \<noteq> [] \<and> pushes_value (last ts)))"
    using writes_walk [OF nodes_write [OF en p(2), of n tail False]] n by (cases "ts = []") simp_all
  have p': "(if s = 0 then Inr 0 else stream_head (relabel c i) s) = Inr p" for i by (simp only: read_relabel p(1))
  show ?thesis unfolding emit_stream_with_def stream_code.simps
    by (rule writes_read [where r = "\<lambda>c. if s = 0 then Inr 0 else stream_head c s" and v = p] p' writes_run_flag w
          writes_grow appends_maybe writes_stop | simp; fail)+
qed

lemma args_write:
  assumes en: "emits_nodes c en n"
  shows "nodes_are c p ts \<Longrightarrow> size_list size ts < n \<Longrightarrow> length ts < m \<Longrightarrow>
   writes c (args_code ts) (\<lambda>c' buf. walk m c (emit_argument en) p (c', buf)) Pair"
proof (induction ts arbitrary: p m)
  case Nil
  then show ?case by (cases m) (auto intro: writes_stop)
next
  case (Cons t ts)
  then obtain m' where m: "m = Suc m'" by (cases m) auto
  obtain nd where nd: "p \<noteq> 0" "nodes c p = Some nd" "node_is c nd t" "nodes_are c (nnext nd) ts"
    using Cons.prems(1) by (auto elim: node_atE)
  have n: "writes c (node_code False t) (\<lambda>c buf. en c buf p False) (\<lambda>c buf. (c, buf, pushes_value t))"
    using Cons.prems nd by (intro emits_nodesD [OF en]) auto
  have r: "writes c (args_code ts) (\<lambda>c' buf. walk m' c (emit_argument en) (nnext nd) (c', buf)) Pair"
    using Cons.prems m nd by (intro Cons.IH) auto
  show ?case unfolding m walk_node [OF nd(1,2)] loop_bodies flat args_code.simps
    by (rule writes_run_flag writes_op writes_grow appends_maybe n r | simp; fail)+
qed

lemma leaf_node: "leaf t = Some (ty, s) \<Longrightarrow> node_is c nd t \<Longrightarrow> tagged nd (loc_of t) ty \<and> says_text nd s"
  by (cases t) auto

lemma leaf_type: "leaf t = Some (ty, s) \<Longrightarrow> ty \<noteq> STREAM_ASM_STREAM \<and> raw_code (t # ts) = put (Ins s) (raw_code ts)"
  by (cases t) (simp_all del: stream_code.simps)

lemma raw_write:
  assumes en: "emits_nodes c en n"
  shows "nodes_are c p ts \<Longrightarrow> list_all is_raw ts \<Longrightarrow> size_list size ts < n \<Longrightarrow> length ts < m \<Longrightarrow>
   writes c (raw_code ts) (\<lambda>c' buf. walk m c (emit_asm_node (emit_stream_with en n)) p (c', buf)) Pair"
proof (induction ts arbitrary: p m)
  case Nil
  then show ?case by (cases m) (auto intro: writes_stop)
next
  case (Cons t ts)
  then obtain m' where m: "m = Suc m'" by (cases m) auto
  obtain nd where nd: "p \<noteq> 0" "nodes c p = Some nd" "node_is c nd t" "nodes_are c (nnext nd) ts"
    using Cons.prems(1) by (auto elim: node_atE)
  have r: "writes c (raw_code ts) (\<lambda>c' buf. walk m' c (emit_asm_node (emit_stream_with en n)) (nnext nd) (c', buf)) Pair"
    using Cons.prems m nd by (intro Cons.IH) auto
  show ?case
  proof (cases "leaf t")
    case None
    then obtain l us where t: "t = Asm_Stream l us" using Cons.prems(2) by (cases t) (auto simp: is_raw_def)
    obtain s where s: "value_stream nd = Inr s" "stream_is c s us" "(ntype nd = STREAM_ASM_STREAM) = True"
      using nd(3) by (auto simp: t one_stream_def value_stream_def tagged_def stream_is_def split: node_value.splits)
    have u: "writes c (stream_code False us) (\<lambda>c buf. emit_stream_with en n c buf s False) Pair"
      using Cons.prems by (intro stream_writes [OF en s(2)]) (auto simp: t)
    show ?thesis unfolding m walk_node [OF nd(1,2)] loop_bodies flat raw_code.simps t ast.case s(3) if_True s(1) flat
      by (rule writes_run writes_comment u r | simp; fail)+
  next
    case (Some tx)
    then obtain ty x where x: "leaf t = Some (ty, x)" by (cases tx) simp
    have l: "says_text nd x" "(ntype nd = STREAM_ASM_STREAM) = False" "raw_code (t # ts) = put (Ins x) (raw_code ts)"
      using leaf_node [OF x nd(3)] leaf_type [OF x] by (auto simp: tagged_def)
    show ?thesis unfolding m walk_node [OF nd(1,2)] loop_bodies l(2,3) if_False flat
      by (rule writes_put appends_literal r l(1))+
  qed
qed

text \<open>The clauses of a \<open>cond\<close>.\<close>

lemma node_two_at:
  "node_at c p (\<lambda>nd. two_streams nd P Q) \<Longrightarrow> \<exists>s1 s2. node_two c p = Inr (s1, s2) \<and> P s1 \<and> Q s2"
  by (auto simp: node_at_def two_streams_def node_two_def value_two_def split: option.splits node_value.splits)

lemma two_arg_read:
  assumes "two_arg_at c s P Q"
  obtains b s1 s2 where "stream_head c s = Inr b" "node_two c b = Inr (s1, s2)" "P s1" "Q s2"
  using assms unfolding two_arg_at_def by (auto elim!: stream_atE dest!: node_two_at)

lemma one_read:
  assumes "one_stream nd P"
  obtains s where "value_stream nd = Inr s" "P s"
  using assms by (auto simp: one_stream_def value_stream_def split: node_value.splits)

lemma clauses_write:
  assumes en: "emits_nodes c en n" and lb: "is_label lb d"
  shows "clauses_are c p cs \<Longrightarrow> size_list (size_prod (size_list size) (size_list size)) cs < n \<Longrightarrow> length cs < m \<Longrightarrow>
   writes c (clauses_code tail d cs) (\<lambda>c' buf. walk m c (emit_clause (emit_stream_with en n) tail lb) p (c', buf)) Pair"
proof (induction cs arbitrary: p m)
  case Nil
  then show ?case by (cases m) (auto intro: writes_stop)
next
  case (Cons cl cs)
  then obtain m' where m: "m = Suc m'" by (cases m) auto
  obtain us ts where cl: "cl = (us, ts)" by (cases cl)
  obtain nd s b s1 s2 where nd: "p \<noteq> 0" "nodes c p = Some nd" "clauses_are c (nnext nd) cs"
    and s: "value_stream nd = Inr s" "stream_head c s = Inr b" "node_two c b = Inr (s1, s2)"
    and us: "stream_is c s1 us" and ts: "stream_is c s2 ts"
    using Cons.prems(1) unfolding cl clauses_are.simps stream_is_def by (elim node_atE conjE one_read two_arg_read)
  have u: "writes c (stream_code False us) (\<lambda>c buf. emit_stream_with en n c buf s1 False) Pair"
    using Cons.prems by (intro stream_writes [OF en us]) (auto simp: cl)
  have t: "writes c (stream_code tail ts) (\<lambda>c buf. emit_stream_with en n c buf s2 tail) Pair"
    using Cons.prems by (intro stream_writes [OF en ts]) (auto simp: cl)
  have r: "writes c (clauses_code tail d cs)
      (\<lambda>c' buf. walk m' c (emit_clause (emit_stream_with en n) tail lb) (nnext nd) (c', buf)) Pair"
    using Cons.prems m nd by (intro Cons.IH) auto
  show ?case unfolding m cl walk_node [OF nd(1,2)] loop_bodies flat clauses_code.simps s(1) puts.simps
    by (rule emit_rules s(2,3) u t lb r | assumption | simp; fail)+
qed

lemma bool_write:
  assumes en: "emits_nodes c en n" and lb: "is_label lb d"
  shows "nodes_are c p ts \<Longrightarrow> size_list size ts < n \<Longrightarrow> length ts < m \<Longrightarrow>
   writes c (bool_code and_or d ts) (\<lambda>c' buf. walk m c (emit_bool_exp en and_or lb) p (c', buf, b))
     (\<lambda>c buf. (c, buf, b \<and> ts = []))"
proof (induction ts arbitrary: p m b)
  case Nil
  then show ?case by (cases m) (auto intro: writes_stop)
next
  case (Cons t ts)
  then obtain m' where m: "m = Suc m'" by (cases m) auto
  obtain nd where nd: "p \<noteq> 0" "nodes c p = Some nd" "node_is c nd t" "nodes_are c (nnext nd) ts"
    using Cons.prems(1) by (auto elim: node_atE)
  have z: "nnext nd = 0 \<longleftrightarrow> ts = []" by (rule nodes_are_null [OF nd(4)])
  have n: "writes c (node_code False t) (\<lambda>c buf. en c buf p False) (\<lambda>c buf. (c, buf, pushes_value t))"
    using Cons.prems nd by (intro emits_nodesD [OF en]) auto
  have r: "writes c (bool_code and_or d ts) (\<lambda>c' buf. walk m' c (emit_bool_exp en and_or lb) (nnext nd) (c', buf, False))
     (\<lambda>c buf. (c, buf, False))"
    using Cons.IH [of "nnext nd" m' False] Cons.prems m nd by simp
  have e: "(b \<and> t # ts = []) = False" by simp
  have "ts = [] \<or> (ts \<noteq> [] \<and> and_or) \<or> (ts \<noteq> [] \<and> \<not> and_or)" by blast
  then show ?case
  proof (elim disjE conjE)
    assume ts: "ts = []"
    have w: "walk m' c f 0 x = Inr x" for f and x :: "compiler_core \<times> buffer \<times> bool"
      using Cons.prems(3) m ts by (cases m') simp_all
    show ?thesis unfolding e m walk_node [OF nd(1,2)] loop_bodies flat bool_code.simps z
      using ts nd(4) by (simp only: ts nodes_are.simps w simp_thms if_True if_False flat) (rule writes_run_flag n writes_grow appends_maybe writes_stop | simp; fail)+
  next
    assume "ts \<noteq> []" "and_or"
    with r show ?thesis unfolding e m walk_node [OF nd(1,2)] loop_bodies flat bool_code.simps z puts.simps
      by (simp only: if_False if_True flat) (rule writes_run_flag n writes_grow appends_maybe emit_rules lb | assumption | simp; fail)+
  next
    assume "ts \<noteq> []" "\<not> and_or"
    with r show ?thesis unfolding e m walk_node [OF nd(1,2)] loop_bodies flat bool_code.simps z puts.simps
      by (simp only: if_False if_True flat) (rule writes_run_flag n writes_grow appends_maybe emit_rules lb | assumption | simp; fail)+
  qed
qed

section \<open>Data and formals\<close>

lemma writes_grow_val:
  assumes "\<And>i buf. buffer_ok buf \<Longrightarrow> \<exists>buf'. e (relabel c i) buf = Inr (buf', v) \<and> buffer_ok buf' \<and> contents buf' = contents buf @ listing ls"
    "writes c g (\<lambda>c buf. k v c buf) R"
  shows "writes c (puts ls g) (\<lambda>c buf. rbind (e c buf) (\<lambda>(buf, v). k v c buf)) R"
  unfolding writes_def
proof (intro allI impI)
  fix i and buf :: buffer
  assume "buffer_ok buf"
  then obtain b1 where b1: "e (relabel c i) buf = Inr (b1, v)" "buffer_ok b1" "contents b1 = contents buf @ listing ls"
    using assms(1) [of buf i] by blast
  have p: "puts ls g i = (ls @ fst (g i), snd (g i))" by (induction ls) (simp_all add: put_def)
  obtain b2 where "k v (relabel c i) b1 = Inr (R (relabel c (snd (g i))) b2)" "buffer_ok b2"
    "contents b2 = contents b1 @ listing (fst (g i))" using assms(2) b1(2) unfolding writes_def by blast
  then show "\<exists>buf'. rbind (e (relabel c i) buf) (\<lambda>(buf, v). k v (relabel c i) buf) = Inr (R (relabel c (snd (puts ls g i))) buf')
      \<and> buffer_ok buf' \<and> contents buf' = contents buf @ listing (fst (puts ls g i))"
    using b1 by (auto simp: p intro!: exI [of _ b2])
qed

lemma formal_literal: "is_formal t \<Longrightarrow> node_is c nd t \<Longrightarrow> ntype nd = STREAM_LITERAL \<longleftrightarrow> (\<nexists>l s. t = Sym l s)"
  by (cases t) (auto simp: is_formal_def tagged_def)

lemma formals_write:
  "nodes_are c p us \<Longrightarrow> list_all is_formal us \<Longrightarrow> length us < m \<Longrightarrow> buffer_ok buf \<Longrightarrow>
   \<exists>buf'. emit_formals m c buf p b = Inr (buf', snd (formals_code us b)) \<and> buffer_ok buf'
     \<and> contents buf' = contents buf @ listing (fst (formals_code us b))"
proof (induction us b arbitrary: p m buf rule: formals_code.induct)
  case (1 b)
  then show ?case by (cases m) auto
next
  case (2 l s ts b)
  then obtain m' where m: "m = Suc m'" by (cases m) auto
  obtain nd where nd: "p \<noteq> 0" "nodes c p = Some nd" "tagged nd l STREAM_SYMBOL" "says_text nd s" "nodes_are c (nnext nd) ts"
    using 2(2) by (auto elim: node_atE)
  have z: "nnext nd = 0 \<longleftrightarrow> ts = []" by (rule nodes_are_null [OF nd(5)])
  let ?next = "\<lambda>buf. if ts \<noteq> [] then rbind (deref (nodes c (nnext nd))) (\<lambda>nd'. if ntype nd' \<noteq> STREAM_LITERAL then emits buf ''cdr'' else Inr buf) else Inr buf"
  have nx: "appends ?next (case ts of Sym _ _ # _ \<Rightarrow> [Ins (chars ''cdr'')] | _ \<Rightarrow> [])"
  proof (cases ts)
    case (Cons u us)
    obtain nu where nu: "nodes c (nnext nd) = Some nu" "node_is c nu u" using nd(5) by (auto simp: Cons elim: node_atE)
    have f: "is_formal u" using 2(3) by (simp add: Cons)
    show ?thesis
    proof (cases "\<exists>l s. u = Sym l s")
      case True
      then show ?thesis using formal_literal [OF f nu(2)] nu appends_op [of "chars ''cdr''"] by (auto simp: Cons chars_def)
    next
      case False
      then have "(case u # us of Sym _ _ # _ \<Rightarrow> [Ins (chars ''cdr'')] | _ \<Rightarrow> []) = []" by (cases u) auto
      then show ?thesis using formal_literal [OF f nu(2)] nu grows_skip False by (auto simp: Cons grows_by_def)
    qed
  qed (simp add: grows_by_def)
  have dc: "appends (\<lambda>buf. if ts = [] then Inr buf else rbind (emits buf ''dup'') (\<lambda>buf. emits buf ''car''))
      (if ts = [] then [] else [Ins (chars ''dup''), Ins (chars ''car'')])"
  proof -
    have "grows_by (\<lambda>buf. rbind (emits buf ''dup'') (\<lambda>buf. emits buf ''car'')) (listing [Ins (chars ''dup'')] @ listing [Ins (chars ''car'')])"
      by (intro grows_seq appends_op chars_nonzero) simp_all
    then show ?thesis by (simp add: grows_by_def)
  qed
  define first where "first = (\<lambda>buf. rbind (emit_comment buf ''----'') (\<lambda>buf.
      rbind (if ts = [] then Inr buf else rbind (emits buf ''dup'') (\<lambda>buf. emits buf ''car'')) (\<lambda>buf.
      rbind (emit_literal buf nd) (\<lambda>buf. rbind (emits buf ''bind'') ?next))))"
  have "grows_by first (listing [Comment ''----''] @ listing (if ts = [] then [] else [Ins (chars ''dup''), Ins (chars ''car'')])
      @ listing [Ins s] @ listing [Ins (chars ''bind'')] @ listing (case ts of Sym _ _ # _ \<Rightarrow> [Ins (chars ''cdr'')] | _ \<Rightarrow> []))"
    unfolding first_def by (intro grows_seq appends_comment dc appends_literal nd(4) appends_op chars_nonzero nx) simp
  then obtain b1 where b1: "first buf = Inr b1" "buffer_ok b1" "contents b1 = contents buf
      @ listing (Comment ''----'' # (if ts = [] then [] else [Ins (chars ''dup''), Ins (chars ''car'')]) @ [Ins s, Ins (chars ''bind'')]
          @ (case ts of Sym _ _ # _ \<Rightarrow> [Ins (chars ''cdr'')] | _ \<Rightarrow> []))"
    using 2(5) unfolding grows_by_def by force
  have lit: "ntype nd \<noteq> STREAM_LITERAL" using nd(3) by (simp add: tagged_def)
  have step: "emit_formals m c buf p b = rbind (first buf) (\<lambda>buf. emit_formals m' c buf (nnext nd) (ts = []))"
    using nd(1,2) lit z by (cases "ts = []") (simp_all add: m first_def rbind_assoc Let_def)
  obtain b2 where "emit_formals m' c b1 (nnext nd) (ts = []) = Inr (b2, snd (formals_code ts (ts = [])))" "buffer_ok b2"
    "contents b2 = contents b1 @ listing (fst (formals_code ts (ts = [])))"
    using "2.IH" [OF nd(5), of m' b1] 2(3,4) m b1(2) by auto
  then show ?case using step b1 by (simp add: Let_def split: prod.split)
qed (auto simp: is_formal_def tagged_def elim!: node_atE; (case_tac m; simp; fail)?)+

text \<open>Quoted data: a node, and the body of the loop of \<open>emit_quoted\<close>.\<close>

definition quote_item :: "nat \<Rightarrow> compiler_core \<Rightarrow> ins_node \<Rightarrow> buffer \<Rightarrow> buffer res" where
  "quote_item n c nd buf = (case ntype nd of
       STREAM_QUOTED \<Rightarrow> rbind (value_stream nd) (\<lambda>s. emit_quoted n c buf s)
     | STREAM_LITERAL \<Rightarrow> emit_literal buf nd
     | STREAM_SYMBOL \<Rightarrow> emit_literal buf nd
     | STREAM_STRING \<Rightarrow> emit_string buf nd
     | _ \<Rightarrow> Inr buf)"

definition quote_step :: "nat \<Rightarrow> compiler_core \<Rightarrow> addr \<Rightarrow> ins_node \<Rightarrow> buffer \<times> bool \<Rightarrow> (buffer \<times> bool) res" where
  "quote_step n c = (\<lambda>p nd (buf, is_list). rbind (quote_item n c nd buf) (\<lambda>buf.
     rbind (if is_list then emits buf ''cons'' else Inr buf) (\<lambda>buf. Inr (buf, True))))"

lemma emit_quoted_Suc:
  "emit_quoted (Suc n) c buf tree =
     rbind (stream_head c tree) (\<lambda>head.
     rbind (emit_comment buf ''--Quoted Start--'') (\<lambda>buf.
     rbind (walk n c (quote_step n c) head (buf, False)) (\<lambda>(buf, _). emit_comment buf ''--Quoted End--'')))"
  by (simp add: quote_step_def quote_item_def)

lemma quote_other: "quoted_item t = [] \<Longrightarrow> node_is c nd t \<Longrightarrow> quote_item n c nd = Inr"
  by (cases t) (auto simp: quote_item_def tagged_def fun_eq_iff)

lemma quote_skip: "node_is c nd t \<Longrightarrow> quoted_item t = [] \<Longrightarrow> grows_by (quote_item n c nd) []"
  by (simp add: quote_other grows_skip)

lemma quoted_write_all:
  "(\<forall>n s. stream_at c s (\<lambda>p. nodes_are c p ts) \<longrightarrow> size_list size ts + 1 < n \<longrightarrow> appends (\<lambda>b. emit_quoted n c b s) (quoted_code ts))"
  "(\<forall>p m n buf. nodes_are c p us \<longrightarrow> length us < m \<longrightarrow> size_list size us \<le> n \<longrightarrow> buffer_ok buf \<longrightarrow>
     (\<exists>buf'. walk m c (quote_step n c) p (buf, b) = Inr (buf', b \<or> us \<noteq> []) \<and> buffer_ok buf'
        \<and> contents buf' = contents buf @ listing (quoted_items b us)))"
  "(\<forall>nd n. node_is c nd t \<longrightarrow> size t < n \<longrightarrow> appends (quote_item n c nd) (quoted_item t))"
proof (induction ts and b us and t rule: quoted_code_quoted_items_quoted_item.induct)
  case (1 ts)
  show ?case
  proof (intro allI impI)
    fix n s
    assume s: "stream_at c s (\<lambda>p. nodes_are c p ts)" and n: "size_list size ts + 1 < n"
    then obtain n' where n': "n = Suc n'" by (cases n) auto
    obtain p where p: "stream_head c s = Inr p" "nodes_are c p ts" using s by (rule stream_atE)
    have l: "length ts \<le> size_list size ts" by (induction ts) auto
    have w: "grows_by (\<lambda>buf. rbind (walk n' c (quote_step n' c) p (buf, False)) (\<lambda>(buf, _). emit_comment buf ''--Quoted End--''))
        (listing (quoted_items False ts) @ listing [Comment ''--Quoted End--''])"
      unfolding grows_by_def
    proof (intro allI impI)
      fix buf
      assume "buffer_ok buf"
      moreover have "length ts < n'" "size_list size ts \<le> n'" using n l by (simp_all add: n')
      ultimately obtain b1 where b1: "walk n' c (quote_step n' c) p (buf, False) = Inr (b1, False \<or> ts \<noteq> [])" "buffer_ok b1"
        "contents b1 = contents buf @ listing (quoted_items False ts)" using 1 p(2) by blast
      obtain b2 where "emit_comment b1 ''--Quoted End--'' = Inr b2" "buffer_ok b2"
        "contents b2 = contents b1 @ listing [Comment ''--Quoted End--'']"
        using appends_comment [of "''--Quoted End--''"] b1(2) unfolding grows_by_def by blast
      then show "\<exists>buf'. rbind (walk n' c (quote_step n' c) p (buf, False)) (\<lambda>(buf, _). emit_comment buf ''--Quoted End--'') = Inr buf'
          \<and> buffer_ok buf' \<and> contents buf' = contents buf @ listing (quoted_items False ts) @ listing [Comment ''--Quoted End--'']"
        using b1 by simp
    qed
    have "grows_by (\<lambda>b. emit_quoted n c b s)
        (listing [Comment ''--Quoted Start--''] @ listing (quoted_items False ts) @ listing [Comment ''--Quoted End--''])"
      unfolding n' emit_quoted_Suc p(1) rbind_Inr by (intro grows_seq appends_comment w)
    then show "appends (\<lambda>b. emit_quoted n c b s) (quoted_code ts)" by simp
  qed
next
  case (2 b)
  show ?case
  proof (intro allI impI)
    fix p m n and buf :: buffer
    assume "nodes_are c p []" "length ([] :: ast list) < m" "buffer_ok buf"
    then show "\<exists>buf'. walk m c (quote_step n c) p (buf, b) = Inr (buf', b \<or> [] \<noteq> ([] :: ast list)) \<and> buffer_ok buf'
        \<and> contents buf' = contents buf @ listing (quoted_items b [])" by (cases m) auto
  qed
next
  case (3 b t ts)
  show ?case
  proof (intro allI impI)
    fix p m n and buf :: buffer
    assume p: "nodes_are c p (t # ts)" "length (t # ts) < m" "size_list size (t # ts) \<le> n" "buffer_ok buf"
    obtain m' where m: "m = Suc m'" using p(2) by (cases m) auto
    obtain nd where nd: "p \<noteq> 0" "nodes c p = Some nd" "node_is c nd t" "nodes_are c (nnext nd) ts"
      using p(1) by (auto elim: node_atE)
    have "appends (\<lambda>buf. quote_item n c nd buf) (quoted_item t)" using 3 nd(3) p(3) by simp
    then have "grows_by (\<lambda>buf. rbind (quote_item n c nd buf) (\<lambda>buf. if b then emits buf ''cons'' else Inr buf))
        (listing (quoted_item t) @ listing (if b then [Ins (chars ''cons'')] else []))"
      by (intro grows_seq appends_maybe) simp_all
    then obtain b1 where b1: "rbind (quote_item n c nd buf) (\<lambda>buf. if b then emits buf ''cons'' else Inr buf) = Inr b1"
      "buffer_ok b1" "contents b1 = contents buf @ listing (quoted_item t) @ listing (if b then [Ins (chars ''cons'')] else [])"
      using p(4) unfolding grows_by_def by blast
    have "quote_step n c p nd (buf, b) = rbind (rbind (quote_item n c nd buf) (\<lambda>buf. if b then emits buf ''cons'' else Inr buf)) (\<lambda>buf. Inr (buf, True))"
      by (simp add: quote_step_def rbind_assoc)
    then have "quote_step n c p nd (buf, b) = Inr (b1, True)" using b1(1) by simp
    moreover obtain b2 where "walk m' c (quote_step n c) (nnext nd) (b1, True) = Inr (b2, True)" "buffer_ok b2"
      "contents b2 = contents b1 @ listing (quoted_items True ts)"
    proof -
      have "length ts < m'" "size_list size ts \<le> n" using p(2,3) by (simp_all add: m)
      then have "\<exists>b2. walk m' c (quote_step n c) (nnext nd) (b1, True) = Inr (b2, True \<or> ts \<noteq> []) \<and> buffer_ok b2
        \<and> contents b2 = contents b1 @ listing (quoted_items True ts)" using 3(2) nd(4) b1(2) by blast
      then show ?thesis using that by auto
    qed
    ultimately show "\<exists>buf'. walk m c (quote_step n c) p (buf, b) = Inr (buf', b \<or> t # ts \<noteq> []) \<and> buffer_ok buf'
        \<and> contents buf' = contents buf @ listing (quoted_items b (t # ts))"
      using nd(1,2) b1(3) by (intro exI [of _ b2]) (simp add: m)
  qed
next
  case (4 l ts)
  show ?case
  proof (intro allI impI)
    fix nd n
    assume q: "node_is c nd (Quote l ts)" "size (Quote l ts) < n"
    then obtain s where "value_stream nd = Inr s" "stream_at c s (\<lambda>p. nodes_are c p ts)" "ntype nd = STREAM_QUOTED"
      by (auto simp: tagged_def elim: one_read)
    then show "appends (quote_item n c nd) (quoted_item (Quote l ts))" using 4 q(2) by (simp add: quote_item_def [abs_def])
  qed
next
  case (5 l s)
  show ?case using appends_literal by (auto simp: quote_item_def [abs_def] tagged_def simp del: listing_simps)
next
  case (6 l s)
  show ?case using appends_literal by (auto simp: quote_item_def [abs_def] tagged_def simp del: listing_simps)
next
  case (7 l s)
  show ?case using appends_text by (auto simp: quote_item_def [abs_def] tagged_def simp del: listing_simps)
qed (auto intro: quote_skip simp del: node_is.simps)

lemmas quoted_write = quoted_write_all(1) [rule_format]

end
