(* ===== verification/Emit_Refine.thy ===== *)
theory Emit_Refine
  imports Emit_Loops
begin

text \<open>
  The code generator writes the code of the tree: one lemma per kind of node over the rules and the
  loops, and the induction on the depth that puts them together (\<open>emit_stream_writes\<close>).
\<close>

section \<open>The kinds of nodes\<close>

lemma node_stream_read: "nodes c p = Some nd \<Longrightarrow> value_stream nd = Inr s \<Longrightarrow> node_stream c p = Inr s"
  by (simp add: node_stream_def)

lemma two_read:
  assumes "nodes c p = Some nd" "two_streams nd P Q"
  obtains s1 s2 where "node_two c p = Inr (s1, s2)" "P s1" "Q s2"
  using assms by (auto simp: two_streams_def node_two_def value_two_def split: node_value.splits)

lemma emit_cond_writes:
  assumes "node_stream c p = Inr s" "stream_head c s = Inr q"
    "\<And>d lb. is_label lb d \<Longrightarrow> writes c (g d) (\<lambda>c' buf. walk n c (emit_clause es tail lb) q (c', buf)) Pair"
  shows "writes c (fresh (\<lambda>done. put (Comment ''--Cond Start--'') (run (g done)
       (puts [Comment ''--Cond Fall-Through--'', Ins (chars ''()''), Label done, Comment ''--Cond End--''] stop))))
     (\<lambda>c buf. emit_cond n es c buf p tail) Pair"
  unfolding emit_cond_def puts.simps
  by (rule emit_rules assms(1,2) writes_walk [OF assms(3)] | assumption | simp; fail)+

lemma writes_if_empty:
  "CHR 0x00 \<notin> set s1 \<Longrightarrow> CHR 0x00 \<notin> set s2 \<Longrightarrow>
   appends (\<lambda>b. if Q then (if a then emits b s1 else emits b s2) else Inr b) (if Q then [Ins (chars (if a then s1 else s2))] else [])"
  using appends_op [OF chars_nonzero, of s1] appends_op [OF chars_nonzero, of s2] grows_skip by (auto simp: grows_by_def)

lemma emit_bool_writes:
  assumes "node_stream c p = Inr s" "p \<noteq> 0" "(if s = 0 then Inr 0 else stream_head c s) = Inr q"
    "\<And>d lb. is_label lb d \<Longrightarrow> writes c (g d) (\<lambda>c' buf. walk n c (emit_bool_exp en a lb) q (c', buf, True)) (\<lambda>c buf. (c, buf, Q))"
  shows "writes c (fresh (\<lambda>done. put (Comment ''--Bool Operator Start--'') (run (g done)
       (puts (if Q then [Ins (chars (if a then ''#t'' else ''#f''))] else [])
       (puts [Label done, Comment ''--Bool Operator End--''] stop)))))
     (\<lambda>c buf. emit_bool n en c buf p a) Pair"
proof -
  have r: "(if p = 0 then Inr 0 else rbind (node_stream (relabel c i) p)
      (\<lambda>s. if s = 0 then Inr 0 else stream_head (relabel c i) s)) = Inr q" for i
    using assms(1-3) by (cases "s = 0") simp_all
  show ?thesis unfolding emit_bool_def puts.simps
    by (rule writes_fresh writes_read [where r = "\<lambda>c. if p = 0 then Inr 0 else rbind (node_stream c p)
          (\<lambda>s. if s = 0 then Inr 0 else stream_head c s)", OF r] writes_run_flag [OF writes_walk [OF assms(4)]]
          writes_grow [OF writes_if_empty] emit_rules | assumption | simp; fail)+
qed

lemma emit_call_writes:
  assumes "node_two c p = Inr (s1, s2)" "stream_head c s2 = Inr q"
    "writes c g (\<lambda>c' buf. walk n c (emit_argument en) q (c', buf)) Pair" "writes c h (\<lambda>c buf. es c buf s1 False) Pair"
  shows "writes c (puts [Comment ''--Call Start--'', Ins (chars ''()'')] (run g (run h
       (puts [Ins (chars (if tail then ''tail_call_in'' else ''call_in'')), Comment ''--Call End--''] stop))))
     (\<lambda>c buf. emit_call n en es c buf p tail) Pair"
  unfolding emit_call_def puts.simps
  by (cases tail; simp only: if_True if_False;
      (rule emit_rules assms(1,2,4) writes_walk [OF assms(3)] | assumption | simp; fail)+)

lemma emit_asm_writes:
  assumes "stream_head c s = Inr q" "writes c g (\<lambda>c' buf. walk n c (emit_asm_node es) q (c', buf)) Pair"
  shows "writes c (put (Comment ''--Raw ASM Start--'') (run g (put (Comment ''--Raw ASM End--'') stop)))
     (\<lambda>c buf. emit_asm n es c buf s) Pair"
  unfolding emit_asm_def by (rule emit_rules assms(1) writes_walk [OF assms(2)] | assumption | simp; fail)+

lemma emit_lambda_writes:
  assumes "node_two c p = Inr (s1, s2)" "stream_head c s1 = Inr q" "nodes_are c q us" "list_all is_formal us" "length us < n"
    "writes c g (\<lambda>c buf. es c buf s2 True) Pair"
  shows "writes c (fresh (\<lambda>proc. fresh (\<lambda>skip.
       puts [Jump OP_JMP skip, Label proc, Ins (chars ''swap''), Comment ''-- Formals --'']
       (puts (fst (formals_code us False))
       (put (Comment ''----'') (puts (if snd (formals_code us False) then [] else [Ins (chars ''drop'')])
       (put (Comment ''-- Body --'') (run g
       (puts [Ins (chars ''swap ret''), Label skip, Jump OP_PROC proc] stop)))))))))
     (\<lambda>c buf. emit_lambda n es c buf p) Pair"
proof -
  have f: "\<exists>buf'. emit_formals n (relabel c i) buf q False = Inr (buf', snd (formals_code us False)) \<and> buffer_ok buf'
      \<and> contents buf' = contents buf @ listing (fst (formals_code us False))" if "buffer_ok buf" for i buf
  proof -
    have "emit_formals m (relabel c i) buf q b = emit_formals m c buf q b" for m buf q b
      by (induction m arbitrary: buf q b) (simp_all add: Let_def cong: if_cong)
    then show ?thesis using formals_write [OF assms(3-5) that] by simp
  qed
  show ?thesis unfolding emit_lambda_def puts.simps
    by (rule writes_grow_val [where e = "\<lambda>c buf. emit_formals n c buf q False", OF f] emit_rules assms(1,2,6) writes_grow appends_maybe | assumption | simp; fail)+
qed

lemma emit_let_star_writes:
  assumes "node_two c p = Inr (s1, s2)" "writes c g (\<lambda>c buf. es c buf s1 False) Pair" "writes c h (\<lambda>c buf. es c buf s2 tail) Pair"
  shows "writes c (fresh (\<lambda>body. fresh (\<lambda>next.
       put (Comment ''-- Let* --'')
       (puts (if tail then [Ins (chars ''()''), Jump OP_PROC body, Ins (chars ''tail_call_in'')]
              else [Jump OP_CALL body, Jump OP_JMP next])
       (put (Label body) (puts (if tail then [Ins (chars ''swap drop'')] else [])
       (put (Comment ''-- Binding List--'') (run g
       (puts [Ins (chars ''drop''), Comment ''-- Binding List End--'', Comment ''-- Let* Body--''] (run h
       (puts [Comment ''-- Let* Body End--'', Ins (chars ''swap ret''), Label next, Comment ''-- Let* End --''] stop)))))))))))
     (\<lambda>c buf. emit_let_star es c buf p tail) Pair"
  unfolding emit_let_star_def
  by (insert assms(3), cases tail; simp only: if_True if_False puts.simps flat;
      (rule emit_rules assms(1,2) | assumption | simp; fail)+)

lemma emit_record_writes:
  assumes "\<And>i. appends (\<lambda>b. emit_quoted n (relabel c i) b s) ls"
  shows "writes c (put (Comment ''--Record Start--'') (puts ls
       (puts [Ins record_type_factory, Ins (chars ''@''), Ins (chars ''call_in''), Comment ''--Record Binding--'']
       (fresh (\<lambda>loop. fresh (\<lambda>done.
         puts [Label loop, Ins (chars ''dup''), Ins (chars ''null?''), Jump OP_JNF done,
           Ins (chars ''dup''), Ins (chars ''car''), Ins (chars ''dup''), Ins (chars ''cdr''), Ins (chars ''swap''),
           Ins (chars ''car''), Ins (chars ''bind''), Ins (chars ''cdr''), Jump OP_JMP loop, Label done,
           Comment ''--Record End--''] stop))))))
     (\<lambda>c buf. emit_record_type n c buf s) Pair"
proof -
  have z: "0 \<notin> set record_type_factory" by (simp add: record_type_factory_def chars_def)
  show ?thesis unfolding emit_record_type_def puts.simps
    by (rule writes_comment writes_grow [where e = "\<lambda>c b. emit_quoted n c b s", OF assms] | rule writes_op_bytes [OF z] emit_rules | assumption | simp; fail)+
qed

lemma emit_math_writes:
  assumes "node_two c p = Inr (s1, s2)" "stream_head c s2 = Inr b" "stream_head c s1 = Inr q" "nodes c q = Some nd"
    "says_text nd str" "node_two c b = Inr (t1, t2)"
    "writes c g1 (\<lambda>c buf. es c buf t1 False) Pair" "writes c g2 (\<lambda>c buf. es c buf t2 False) Pair"
  shows "writes c (run g1 (run g2 (put (Ins str) stop))) (\<lambda>c buf. emit_math es c buf p) Pair"
proof -
  have w: "writes c (run g1 (run g2 (put (Ins str) stop))) (\<lambda>c buf. emit_double es c buf b str) Pair"
    using assms by (intro emit_double_writes) (auto simp: says_text_def)
  have "deref (nodes (relabel c i) q) = Inr nd" for i using assms(4) by simp
  moreover have "value_literal nd = Inr str" using assms(5) by (simp add: says_text_def value_literal_def)
  ultimately have r: "rbind (deref (nodes (relabel c i) q)) value_literal = Inr str" for i by simp
  show ?thesis unfolding emit_math_def rbind_assoc [symmetric]
    using assms(1-3) w r by (simp add: writes_def)
qed

section \<open>Trees\<close>

lemma node_stream_is:
  "one_stream nd (\<lambda>s. s = 0 \<and> ts = [] \<or> stream_at c s (\<lambda>p. nodes_are c p ts)) \<longleftrightarrow> one_stream nd (\<lambda>s. stream_is c s ts)"
  by (simp add: stream_is_def)

lemma optional_head:
  assumes "stream_is c s ts"
  obtains q where "(if s = 0 then Inr 0 else stream_head c s) = Inr q" "nodes_are c q ts"
  using assms by (auto simp: stream_is_def elim: stream_atE)

lemma appends_quoted_relabel:
  assumes "stream_at c s (\<lambda>p. nodes_are c p ts)" "size_list size ts + 1 < n"
  shows "appends (\<lambda>b. emit_quoted n (relabel c i) b s) (quoted_code ts)"
proof -
  have "emit_quoted m (relabel c i) = emit_quoted m c" for m
  proof (induction m)
    case (Suc m)
    then show ?case by (intro ext) (simp cong: node_type.case_cong)
  qed (simp add: fun_eq_iff)
  then show ?thesis using quoted_write [OF assms] by simp
qed

lemma length_size_list: "length ts \<le> size_list f ts"
  by (induction ts) auto

lemma kind_double:
  assumes "emits_nodes c en n" "nodes c p = Some nd"
    "two_streams nd (\<lambda>s. stream_is c s us) (\<lambda>s. stream_is c s ts)" "size_list size us + 1 < n" "size_list size ts + 1 < n" "0 \<notin> set str"
  shows "writes c (run (stream_code False us) (run (stream_code False ts) (put (Ins str) stop)))
     (\<lambda>c buf. emit_double (emit_stream_with en n) c buf p str) Pair"
proof -
  obtain s1 s2 where "node_two c p = Inr (s1, s2)" "stream_is c s1 us" "stream_is c s2 ts" using assms(2,3) by (rule two_read)
  then show ?thesis using assms by (intro emit_double_writes stream_writes)
qed

lemma kind_if:
  assumes en: "emits_nodes c en n" and nd: "nodes c p = Some nd" "node_is c nd (If l ts us vs)" "size (If l ts us vs) < n"
  shows "writes c (kind_code tail (If l ts us vs)) (\<lambda>c buf. emit_if (emit_stream_with en n) c buf p tail) Pair"
proof -
  obtain s a where s: "node_two c p = Inr (s, a)" "stream_is c s ts" "two_arg_at c a (\<lambda>s. stream_is c s us) (\<lambda>s. stream_is c s vs)"
    using nd(1,2) by (auto simp: stream_is_def elim: two_read)
  obtain b s1 s2 where b: "stream_head c a = Inr b" "node_two c b = Inr (s1, s2)" "stream_is c s1 us" "stream_is c s2 vs"
    using s(3) by (rule two_arg_read)
  show ?thesis unfolding kind_code.simps using nd(3)
    by (intro emit_if_writes [OF s(1) b(1,2)] stream_writes [OF en] s(2) b(3,4)) simp_all
qed

lemma kind_cond:
  assumes en: "emits_nodes c en n" and nd: "nodes c p = Some nd" "node_is c nd (Cond l cs)" "size (Cond l cs) < n"
  shows "writes c (kind_code tail (Cond l cs)) (\<lambda>c buf. emit_cond n (emit_stream_with en n) c buf p tail) Pair"
proof -
  obtain s where s: "value_stream nd = Inr s" "stream_at c s (\<lambda>p. clauses_are c p cs)" using nd(2) by (auto elim: one_read)
  obtain q where q: "stream_head c s = Inr q" "clauses_are c q cs" using s(2) by (rule stream_atE)
  show ?thesis unfolding kind_code.simps using nd(3) length_size_list [of cs "size_prod (size_list size) (size_list size)"]
    by (intro emit_cond_writes [OF node_stream_read [OF nd(1) s(1)] q(1)] clauses_write [OF en _ q(2)]) simp_all
qed

lemma kind_bool:
  assumes en: "emits_nodes c en n" and nd: "nodes c p = Some nd" "p \<noteq> 0" "one_stream nd (\<lambda>s. stream_is c s ts)" "size_list size ts + 1 < n"
  shows "writes c (fresh (\<lambda>done. put (Comment ''--Bool Operator Start--'') (run (bool_code a done ts)
       (puts (if ts = [] then [Ins (chars (if a then ''#t'' else ''#f''))] else [])
       (puts [Label done, Comment ''--Bool Operator End--''] stop)))))
     (\<lambda>c buf. emit_bool n en c buf p a) Pair"
proof -
  obtain s where s: "value_stream nd = Inr s" "stream_is c s ts" using nd(3) by (rule one_read)
  obtain q where q: "(if s = 0 then Inr 0 else stream_head c s) = Inr q" "nodes_are c q ts" using s(2) by (rule optional_head)
  show ?thesis
  proof (rule emit_bool_writes [OF node_stream_read [OF nd(1) s(1)] nd(2) q(1)])
    fix d lb
    assume "is_label lb d"
    then show "writes c (bool_code a d ts) (\<lambda>c' buf. walk n c (emit_bool_exp en a lb) q (c', buf, True)) (\<lambda>c buf. (c, buf, ts = []))"
      using bool_write [OF en _ q(2), of lb d n a True] nd(4) length_size_list [of ts size] by simp
  qed
qed

lemma kind_call:
  assumes en: "emits_nodes c en n" and nd: "nodes c p = Some nd" "node_is c nd (Call l us ts)" "size (Call l us ts) < n"
  shows "writes c (kind_code tail (Call l us ts)) (\<lambda>c buf. emit_call n en (emit_stream_with en n) c buf p tail) Pair"
proof -
  obtain s1 s2 where s: "node_two c p = Inr (s1, s2)" "stream_is c s1 us" "stream_at c s2 (\<lambda>p. nodes_are c p ts)"
    using nd(1,2) by (auto simp: stream_is_def elim: two_read)
  obtain q where q: "stream_head c s2 = Inr q" "nodes_are c q ts" using s(3) by (rule stream_atE)
  show ?thesis unfolding kind_code.simps using nd(3) length_size_list [of ts size]
    by (intro emit_call_writes [OF s(1) q(1)] stream_writes [OF en] s(2) args_write [OF en q(2)]) simp_all
qed

lemma kind_asm:
  assumes en: "emits_nodes c en n" and nd: "nodes c p = Some nd" "node_is c nd (Asm l ts)" "size (Asm l ts) < n"
    "value_stream nd = Inr s"
  shows "writes c (kind_code tail (Asm l ts)) (\<lambda>c buf. emit_asm n (emit_stream_with en n) c buf s) Pair"
proof -
  have "stream_at c s (\<lambda>p. nodes_are c p ts)" "list_all is_raw ts" using nd(2,4) by (auto elim: one_read)
  moreover from this obtain q where q: "stream_head c s = Inr q" "nodes_are c q ts" by (auto elim: stream_atE)
  ultimately show ?thesis unfolding kind_code.simps using nd(3) length_size_list [of ts size]
    by (intro emit_asm_writes [OF q(1)] raw_write [OF en q(2)]) simp_all
qed

lemma kind_lambda:
  assumes en: "emits_nodes c en n" and nd: "nodes c p = Some nd" "node_is c nd (Lambda l us ts)" "size (Lambda l us ts) < n"
  shows "writes c (kind_code tail (Lambda l us ts)) (\<lambda>c buf. emit_lambda n (emit_stream_with en n) c buf p) Pair"
proof -
  obtain s1 s2 where s: "node_two c p = Inr (s1, s2)" "stream_at c s1 (\<lambda>p. nodes_are c p us)" "stream_is c s2 ts"
    using nd(1,2) by (auto simp: stream_is_def elim: two_read)
  obtain q where q: "stream_head c s1 = Inr q" "nodes_are c q us" using s(2) by (rule stream_atE)
  show ?thesis unfolding kind_code.simps using nd(2,3) length_size_list [of us size]
    by (intro emit_lambda_writes [OF s(1) q] stream_writes [OF en s(3)]) simp_all
qed

lemma kind_let_star:
  assumes en: "emits_nodes c en n" and nd: "nodes c p = Some nd" "node_is c nd (Let_Star l us ts)" "size (Let_Star l us ts) < n"
  shows "writes c (kind_code tail (Let_Star l us ts)) (\<lambda>c buf. emit_let_star (emit_stream_with en n) c buf p tail) Pair"
proof -
  obtain s1 s2 where s: "node_two c p = Inr (s1, s2)" "stream_is c s1 us" "stream_is c s2 ts"
    using nd(1,2) by (auto simp: stream_is_def elim: two_read)
  show ?thesis unfolding kind_code.simps using nd(3)
    by (intro emit_let_star_writes [OF s(1)] stream_writes [OF en] s(2,3)) simp_all
qed

lemma kind_math:
  assumes en: "emits_nodes c en n" and nd: "nodes c p = Some nd" "node_is c nd (Math l str us ts)" "size (Math l str us ts) < n"
  shows "writes c (kind_code tail (Math l str us ts)) (\<lambda>c buf. emit_math (emit_stream_with en n) c buf p) Pair"
proof -
  obtain s1 s2 where s: "node_two c p = Inr (s1, s2)" "stream_at c s1 (\<lambda>p. node_at c p (\<lambda>nd. says_text nd str))"
    "two_arg_at c s2 (\<lambda>s. stream_is c s us) (\<lambda>s. stream_is c s ts)"
    using nd(1,2) by (auto simp: stream_is_def elim: two_read)
  obtain b t1 t2 where b: "stream_head c s2 = Inr b" "node_two c b = Inr (t1, t2)" "stream_is c t1 us" "stream_is c t2 ts"
    using s(3) by (rule two_arg_read)
  obtain q nq where q: "stream_head c s1 = Inr q" "nodes c q = Some nq" "says_text nq str"
    using s(2) by (auto elim!: stream_atE node_atE)
  show ?thesis unfolding kind_code.simps using nd(3)
    by (intro emit_math_writes [OF s(1) b(1) q b(2)] stream_writes [OF en] b(3,4)) simp_all
qed

lemma leaf_writes:
  assumes "leaf t = Some (ty, s)" "says_text nd s" "ty \<noteq> STREAM_STRING"
  shows "writes c (kind_code tail t) (\<lambda>c buf. pushes (rbind (emit_literal buf nd) (\<lambda>buf. Inr (c, buf)))) (\<lambda>c buf. (c, buf, True))"
proof -
  have k: "kind_code tail t = put (Ins s) stop" using assms(1,3) by (cases t) (simp_all add: kind_code.simps)
  show ?thesis unfolding k by (intro writes_pushes writes_put appends_literal assms(2) writes_stop)
qed

lemma text_writes:
  "says_text nd s \<Longrightarrow> writes c (kind_code tail (Str l s)) (\<lambda>c buf. pushes (rbind (emit_string buf nd) (\<lambda>buf. Inr (c, buf)))) (\<lambda>c buf. (c, buf, True))"
  unfolding kind_code.simps by (intro writes_pushes writes_put appends_text writes_stop)

lemma unpushed_writes:
  "writes c g f Pair \<Longrightarrow> writes c g (\<lambda>c buf. rbind (f c buf) (\<lambda>(c, buf). Inr (c, buf, False))) (\<lambda>c buf. (c, buf, False))"
  by (force simp: writes_def)

lemma kind_writes:
  assumes en: "emits_nodes c (emit_node n) n" and nd: "nodes c p = Some nd" "p \<noteq> 0" "node_is c nd t"
    and n: "size t < n" and tail: "tail \<Longrightarrow> nnext nd = 0"
  shows "writes c (node_code tail t) (\<lambda>c buf. emit_node (Suc n) c buf p tail) (\<lambda>c buf. (c, buf, pushes_value t))"
proof -
  have tl: "(tail \<and> nnext nd = 0) = tail" using tail by blast
  have tag: "tagged nd (loc_of t) (ntype nd)" using nd(3) by (cases t) (auto simp: tagged_def)
  have start: "writes c (node_code tail t) (\<lambda>c buf. emit_node (Suc n) c buf p tail) (\<lambda>c buf. (c, buf, pushes_value t))"
    if "writes c (kind_code tail t) (\<lambda>c buf. f nd c buf) (\<lambda>c buf. (c, buf, pushes_value t))"
      "\<And>c buf. emit_node (Suc n) c buf p tail = rbind (deref (nodes c p)) (\<lambda>nd. rbind (emit_debug buf nd) (\<lambda>buf. f nd c buf))" for f
    unfolding that(2) node_code.simps
    by (rule writes_read [where r = "\<lambda>c. deref (nodes c p)" and v = nd])
      (use nd(1) writes_put [OF appends_debug [OF tag] that(1)] in simp_all)
  note start = start [OF _ emit_node.simps(2)]
  have [simp]: "one_stream nd (\<lambda>s. s = 0 \<and> ts = [] \<or> stream_at c s (\<lambda>p. nodes_are c p ts)) = one_stream nd (\<lambda>s. stream_is c s ts)"
    "two_streams nd (\<lambda>s. s = 0 \<and> us = [] \<or> stream_at c s (\<lambda>p. nodes_are c p us)) (\<lambda>s. s = 0 \<and> ts = [] \<or> stream_at c s (\<lambda>p. nodes_are c p ts))
      = two_streams nd (\<lambda>s. stream_is c s us) (\<lambda>s. stream_is c s ts)" for us ts by (simp_all add: stream_is_def)
  have d: "0 \<notin> set (chars ''bind'')" "0 \<notin> set (chars ''!'')" by (simp_all add: chars_def)
  show ?thesis
  proof (cases t)
    case (Lit l s)
    with nd(3) show ?thesis by (intro start) (simp add: tagged_def leaf_writes)
  next
    case (Sym l s)
    with nd(3) show ?thesis by (intro start) (simp add: tagged_def leaf_writes)
  next
    case (Op l s)
    with nd(3) show ?thesis by (intro start) (simp add: tagged_def leaf_writes)
  next
    case (Str l s)
    with nd(3) show ?thesis by (intro start) (simp add: tagged_def text_writes)
  next
    case (Quote l ts)
    with nd(3) obtain s where s: "value_stream nd = Inr s" "stream_at c s (\<lambda>p. nodes_are c p ts)" "ntype nd = STREAM_QUOTED"
      by (auto simp: tagged_def elim: one_read)
    have "writes c (puts (quoted_code ts) stop) (\<lambda>c buf. rbind (emit_quoted n c buf s) (\<lambda>buf. Inr (c, buf))) Pair"
      by (rule writes_grow [where e = "\<lambda>c b. emit_quoted n c b s", OF appends_quoted_relabel [OF s(2)] writes_stop])
        (use n in \<open>simp add: Quote\<close>)
    then show ?thesis using Quote s
      by (intro start) (simp add: kind_code.simps writes_pushes del: quoted_code.simps)
  next
    case (Load l ts)
    with nd(3) obtain s where s: "value_stream nd = Inr s" "stream_is c s ts" "ntype nd = STREAM_LOAD"
      by (auto simp: tagged_def elim: one_read)
    have "writes c (run (stream_code False ts) (ins ''@'' stop))
        (\<lambda>c buf. rbind (emit_stream_with (emit_node n) n c buf s False) (\<lambda>(c, buf). rbind (emits buf ''@'') (\<lambda>buf. Inr (c, buf)))) Pair"
      by (rule writes_run stream_writes [OF en s(2)] writes_op writes_stop | use n in \<open>simp add: Load\<close>; fail)+
    then show ?thesis using Load s by (intro start) (simp add: kind_code.simps writes_pushes del: stream_code.simps)
  next
    case (Asm l ts)
    with nd(3) obtain s where s: "value_stream nd = Inr s" "ntype nd = STREAM_ASM" by (auto simp: tagged_def elim: one_read)
    then show ?thesis using Asm nd n
      by (intro start) (simp add: writes_pushes kind_asm [OF en nd(1) _ _ s(1)] del: node_is.simps)
  next
    case (Asm_Stream l ts)
    with nd(3) show ?thesis by (intro start) (simp add: tagged_def kind_code.simps writes_stop)
  next
    case (Bind l us ts)
    with nd(3) n show ?thesis by (intro start)
      (simp add: tagged_def kind_code.simps unpushed_writes kind_double [OF en nd(1)] d del: stream_code.simps)
  next
    case (Store l us ts)
    with nd(3) n show ?thesis by (intro start)
      (simp add: tagged_def kind_code.simps unpushed_writes kind_double [OF en nd(1)] d del: stream_code.simps)
  next
    case (Let_Star l us ts)
    moreover from this nd(3) have "ntype nd = STREAM_LET_STAR" by (simp add: tagged_def)
    ultimately show ?thesis using nd n
      by (intro start) (simp add: writes_pushes kind_let_star [OF en nd(1)] del: node_is.simps)
  next
    case (If l ts us vs)
    moreover from this nd(3) have "ntype nd = STREAM_IF" by (simp add: tagged_def)
    ultimately show ?thesis using nd n
      by (intro start) (simp add: writes_pushes kind_if [OF en nd(1)] del: node_is.simps)
  next
    case (Cond l cs)
    moreover from this nd(3) have "ntype nd = STREAM_COND" by (simp add: tagged_def)
    ultimately show ?thesis using nd n
      by (intro start) (simp add: writes_pushes kind_cond [OF en nd(1)] del: node_is.simps)
  next
    case (Math l s us ts)
    moreover from this nd(3) have "ntype nd = STREAM_MATH" by (simp add: tagged_def)
    ultimately show ?thesis using nd n
      by (intro start) (simp add: writes_pushes kind_math [OF en nd(1)] del: node_is.simps)
  next
    case (Record_Type l ts)
    with nd(3) obtain s where s: "value_stream nd = Inr s" "stream_at c s (\<lambda>p. nodes_are c p ts)" "ntype nd = STREAM_RECORD_TYPE"
      by (auto simp: tagged_def elim: one_read)
    have "size_list size ts + 1 < n" using n by (simp add: Record_Type)
    note emit_record_writes [OF appends_quoted_relabel [OF s(2) this]]
    then show ?thesis using Record_Type s
      by (intro start) (simp add: kind_code.simps writes_pushes del: quoted_code.simps puts.simps)
  next
    case (And l ts)
    with nd(3) n have "one_stream nd (\<lambda>s. stream_is c s ts)" "size_list size ts + 1 < n" "ntype nd = STREAM_AND" by (simp_all add: tagged_def)
    moreover note kind_bool [OF en nd(1,2) this(1,2), of True, unfolded if_True]
    ultimately show ?thesis using And
      by (intro start) (simp add: kind_code.simps writes_pushes del: bool_code.simps puts.simps)
  next
    case (Or l ts)
    with nd(3) n have "one_stream nd (\<lambda>s. stream_is c s ts)" "size_list size ts + 1 < n" "ntype nd = STREAM_OR" by (simp_all add: tagged_def)
    moreover note kind_bool [OF en nd(1,2) this(1,2), of False, unfolded if_False]
    ultimately show ?thesis using Or
      by (intro start) (simp add: kind_code.simps writes_pushes del: bool_code.simps puts.simps)
  next
    case (Lambda l us ts)
    moreover from this nd(3) have "ntype nd = STREAM_LAMBDA" by (simp add: tagged_def)
    ultimately show ?thesis using nd n
      by (intro start) (simp add: writes_pushes kind_lambda [OF en nd(1)] del: node_is.simps)
  next
    case (Call l us ts)
    moreover from this nd(3) have "ntype nd = STREAM_CALL" by (simp add: tagged_def)
    ultimately show ?thesis using nd n
      by (intro start) (simp add: writes_pushes kind_call [OF en nd(1)] tl Let_def del: node_is.simps)
  qed
qed

lemma emit_node_writes: "emits_nodes c (emit_node n) n"
proof (induction n)
  case (Suc n)
  show ?case unfolding emits_nodes_def by (intro allI impI, rule kind_writes [OF Suc]) simp_all
qed (simp add: emits_nodes_def)

theorem emit_stream_writes:
  assumes "stream_is c s ts" "size_list size ts + 1 < n"
  shows "writes c (stream_code tail ts) (\<lambda>c buf. emit_stream n c buf s tail) Pair"
  unfolding emit_stream_def by (rule stream_writes [OF emit_node_writes assms])

end
