(* ===== verification/Emit_Labels.thy ===== *)
theory Emit_Labels
  imports Emit_Refine
begin

text \<open>
  The labels of generated code: every label is placed once, and every jump goes to a label that is
  placed. A generator may use the labels of the code around it; \<open>V\<close> are those it may jump to and
  \<open>D\<close> those it has to place.
\<close>

section \<open>Labels\<close>

fun labels :: "line list \<Rightarrow> nat list" where
  "labels [] = []"
| "labels (Label i # ls) = i # labels ls"
| "labels (_ # ls) = labels ls"

fun targets :: "line list \<Rightarrow> nat list" where
  "targets [] = []"
| "targets (Jump ty i # ls) = i # targets ls"
| "targets (_ # ls) = targets ls"

lemma labels_append [simp]: "labels (ls @ ms) = labels ls @ labels ms"
  by (induction ls rule: labels.induct) auto

lemma targets_append [simp]: "targets (ls @ ms) = targets ls @ targets ms"
  by (induction ls rule: targets.induct) auto

lemma labels_Cons: "labels (l # ls) = labels [l] @ labels ls"
  by (cases l) auto

lemma targets_Cons: "targets (l # ls) = targets [l] @ targets ls"
  by (cases l) auto

definition resolves :: "nat set \<Rightarrow> nat set \<Rightarrow> gen \<Rightarrow> bool" where
  "resolves V D g \<longleftrightarrow> D \<subseteq> V \<and> (\<forall>i. (\<forall>x\<in>V. x < i) \<longrightarrow> i \<le> snd (g i) \<and> distinct (labels (fst (g i)))
     \<and> D \<subseteq> set (labels (fst (g i))) \<and> set (labels (fst (g i))) \<subseteq> D \<union> {i..<snd (g i)}
     \<and> set (targets (fst (g i))) \<subseteq> V \<union> set (labels (fst (g i))))"

lemma resolves_stop: "D = {} \<Longrightarrow> resolves V D stop"
  by (simp add: resolves_def stop_def)

lemma resolves_put:
  assumes "labels [l] = []" "set (targets [l]) \<subseteq> V" "resolves V D g"
  shows "resolves V D (put l g)"
proof -
  have "labels (l # ls) = labels ls" for ls using assms(1) by (cases l) auto
  moreover have "set (targets (l # ls)) \<subseteq> V \<union> set (targets ls)" for ls using assms(2) by (cases l) auto
  ultimately show ?thesis using assms(3) by (simp add: resolves_def put_def) (meson Un_subset_iff sup_ge1 subset_trans)
qed

lemma resolves_label: "d \<in> V \<Longrightarrow> d \<notin> D \<Longrightarrow> resolves V D g \<Longrightarrow> resolves V (insert d D) (put (Label d) g)"
  by (fastforce simp: resolves_def put_def)

lemma resolves_run:
  assumes g: "resolves V D g" and h: "resolves V E h" and d: "D \<inter> E = {}"
  shows "resolves V (D \<union> E) (run g h)"
  unfolding resolves_def
proof (intro conjI allI impI)
  show "D \<union> E \<subseteq> V" using g h by (simp add: resolves_def)
next
  fix i assume v: "\<forall>x\<in>V. x < i"
  let ?j = "snd (g i)"
  have g: "D \<subseteq> V" "i \<le> ?j" "distinct (labels (fst (g i)))" "D \<subseteq> set (labels (fst (g i)))"
    "set (labels (fst (g i))) \<subseteq> D \<union> {i..<?j}" "set (targets (fst (g i))) \<subseteq> V \<union> set (labels (fst (g i)))"
    using g v by (auto simp: resolves_def)
  have "\<forall>x\<in>V. x < ?j" using v g(2) by auto
  then have h: "E \<subseteq> V" "?j \<le> snd (h ?j)" "distinct (labels (fst (h ?j)))" "E \<subseteq> set (labels (fst (h ?j)))"
    "set (labels (fst (h ?j))) \<subseteq> E \<union> {?j..<snd (h ?j)}" "set (targets (fst (h ?j))) \<subseteq> V \<union> set (labels (fst (h ?j)))"
    using h by (auto simp: resolves_def)
  have "set (labels (fst (g i))) \<inter> set (labels (fst (h ?j))) = {}"
    using g(1,2,5) h(1,5) d v by fastforce
  then show "distinct (labels (fst (run g h i)))" using g h by (simp add: run_def)
  show "i \<le> snd (run g h i)" using g h by (simp add: run_def)
  show "D \<union> E \<subseteq> set (labels (fst (run g h i)))" using g h by (auto simp: run_def)
  show "set (labels (fst (run g h i))) \<subseteq> D \<union> E \<union> {i..<snd (run g h i)}"
    using g(2,5) h(2,5) by (fastforce simp: run_def)
  show "set (targets (fst (run g h i))) \<subseteq> V \<union> set (labels (fst (run g h i)))" using g(6) h(6) by (auto simp: run_def)
qed

lemma resolves_fresh:
  assumes g: "\<And>d. d \<notin> V \<Longrightarrow> resolves (insert d V) (insert d D) (g d)" and d: "D \<subseteq> V"
  shows "resolves V D (fresh g)"
  unfolding resolves_def
proof (intro conjI allI impI)
  fix i assume v: "\<forall>x\<in>V. x < i"
  let ?r = "g i (i + 1)"
  have "i \<notin> V" using v by auto
  moreover have "\<forall>x\<in>insert i V. x < i + 1" using v by auto
  ultimately have g: "i + 1 \<le> snd ?r" "distinct (labels (fst ?r))" "insert i D \<subseteq> set (labels (fst ?r))"
    "set (labels (fst ?r)) \<subseteq> insert i D \<union> {i+1..<snd ?r}" "set (targets (fst ?r)) \<subseteq> insert i V \<union> set (labels (fst ?r))"
    using g [of i] by (auto simp: resolves_def)
  show "i \<le> snd (fresh g i)" "distinct (labels (fst (fresh g i)))" "D \<subseteq> set (labels (fst (fresh g i)))"
    using g by (simp_all add: fresh_def)
  show "set (labels (fst (fresh g i))) \<subseteq> D \<union> {i..<snd (fresh g i)}"
  proof
    fix x assume "x \<in> set (labels (fst (fresh g i)))"
    then have "x = i \<or> x \<in> D \<or> x \<in> {i + 1..<snd ?r}" using g(4) by (auto simp: fresh_def)
    then show "x \<in> D \<union> {i..<snd (fresh g i)}" using g(1) by (auto simp: fresh_def)
  qed
  show "set (targets (fst (fresh g i))) \<subseteq> V \<union> set (labels (fst (fresh g i)))" using g(3,5) by (auto simp: fresh_def)
qed (rule d)

text \<open>Lines in a row: the labels they place are counted off.\<close>

lemma resolves_puts:
  "set (targets ls) \<subseteq> V \<Longrightarrow> distinct (labels ls) \<Longrightarrow> set (labels ls) \<subseteq> D \<Longrightarrow> D \<subseteq> V
     \<Longrightarrow> resolves V (D - set (labels ls)) g \<Longrightarrow> resolves V D (puts ls g)"
proof (induction ls arbitrary: D)
  case (Cons l ls)
  show ?case
  proof (cases "\<exists>d. l = Label d")
    case True
    then obtain d where l: "l = Label d" by blast
    have "resolves V (D - {d}) (puts ls g)" using Cons.prems
      by (intro Cons.IH) (auto simp: l Diff_insert2 [symmetric] insert_commute)
    moreover have "d \<in> V" using Cons.prems by (auto simp: l)
    ultimately have "resolves V (insert d (D - {d})) (put l (puts ls g))"
      unfolding l by (intro resolves_label) auto
    moreover have "insert d (D - {d}) = D" using Cons.prems by (auto simp: l)
    ultimately show ?thesis by simp
  next
    case False
    then have l: "labels [l] = []" by (cases l) auto
    have "labels (l # ls) = labels ls" "set (targets (l # ls)) = set (targets [l]) \<union> set (targets ls)"
      using l by (cases l; simp)+
    then show ?thesis using Cons l by (auto intro!: resolves_put)
  qed
qed simp

lemma resolves_run0: "resolves V {} g \<Longrightarrow> resolves V D h \<Longrightarrow> resolves V D (run g h)"
  using resolves_run [of V "{}" g D h] by simp

lemma quoted_no_labels:
  "labels (quoted_code ts) = [] \<and> targets (quoted_code ts) = []"
  "labels (quoted_items b ts) = [] \<and> targets (quoted_items b ts) = []"
  "labels (quoted_item t) = [] \<and> targets (quoted_item t) = []"
  by (induction ts and b ts and t rule: quoted_code_quoted_items_quoted_item.induct) auto

lemma formals_no_labels: "labels (fst (formals_code ts b)) = [] \<and> targets (fst (formals_code ts b)) = []"
proof (induction ts b rule: formals_code.induct)
  case (2 l s ts b)
  have "labels (case ts of Sym _ _ # _ \<Rightarrow> [Ins (chars ''cdr'')] | _ \<Rightarrow> []) = []"
    "targets (case ts of Sym _ _ # _ \<Rightarrow> [Ins (chars ''cdr'')] | _ \<Rightarrow> []) = []"
    by (cases ts; cases "hd ts"; simp)+
  then show ?case using 2 by (simp add: Let_def case_prod_beta)
qed simp_all

lemma resolves_none: "resolves V {} g \<Longrightarrow> D = {} \<Longrightarrow> resolves V D g"
  by simp

lemma resolves_if: "(P \<Longrightarrow> resolves V D g) \<Longrightarrow> (\<not> P \<Longrightarrow> resolves V D h) \<Longrightarrow> resolves V D (if P then g else h)"
  by simp

lemma resolves_label': "d \<in> D \<Longrightarrow> D \<subseteq> V \<Longrightarrow> resolves V (D - {d}) g \<Longrightarrow> resolves V D (put (Label d) g)"
  using resolves_label [of d V "D - {d}" g] by (simp add: insert_absorb subsetD)

lemmas resolves_rules = resolves_stop resolves_run0 resolves_fresh resolves_puts resolves_label' resolves_put resolves_if


lemmas code_simps = node_code.simps kind_code.simps nodes_code.simps stream_code.simps args_code.simps bool_code.simps
  raw_code.simps clauses_code.simps

theorem code_resolves:
  "resolves V {} (node_code tail t)" "resolves V {} (kind_code tail t)"
  "resolves V {} (nodes_code tail ts)" "resolves V {} (stream_code tail ts)"
  "resolves V {} (args_code ts)" "d \<in> V \<Longrightarrow> resolves V {} (bool_code ao d ts)"
  "resolves V {} (raw_code ts)" "d \<in> V \<Longrightarrow> resolves V {} (clauses_code tail d cs)"
proof (induction tail t and tail t and tail ts and tail ts and ts and ao d ts and ts and tail d cs
    arbitrary: V and V and V and V and V and V and V and V
    rule: node_code_kind_code_nodes_code_stream_code_args_code_bool_code_raw_code_clauses_code.induct)
  case (1 tail t V)
  then show ?case by (simp add: code_simps) (rule resolves_rules; simp)
next
  case (13 tail l ts us vs V)
  show ?case unfolding kind_code.simps
    by (rule "13.IH" [THEN resolves_none] resolves_rules | (auto simp: formals_no_labels quoted_no_labels simp del: puts.simps quoted_code.simps; fail))+
next
  case (14 tail l cs V)
  show ?case unfolding kind_code.simps
    by (rule "14.IH" [THEN resolves_none] resolves_rules | (auto simp: formals_no_labels quoted_no_labels simp del: puts.simps quoted_code.simps; fail))+
next
  case (17 tail l us ts V)
  show ?case unfolding kind_code.simps
    by (rule "17.IH" [THEN resolves_none] resolves_rules | (auto simp: formals_no_labels quoted_no_labels simp del: puts.simps quoted_code.simps; fail))+
next
  case (19 tail l us ts V)
  show ?case unfolding kind_code.simps
    by (rule "19.IH" [THEN resolves_none] resolves_rules | (auto simp: formals_no_labels quoted_no_labels simp del: puts.simps quoted_code.simps; fail))+
next
  case (20 tail l ts V)
  show ?case unfolding kind_code.simps
    by (rule resolves_rules | (auto simp: formals_no_labels quoted_no_labels simp del: puts.simps quoted_code.simps; fail))+
next
  case (6 tail l ts V)
  show ?case unfolding kind_code.simps
    by (rule resolves_rules | (auto simp: formals_no_labels quoted_no_labels simp del: puts.simps quoted_code.simps; fail))+
next
  case (7 tail l ts V)
  show ?case unfolding kind_code.simps
    by (rule "7.IH" [THEN resolves_none] resolves_rules | (auto simp: formals_no_labels quoted_no_labels simp del: puts.simps quoted_code.simps; fail))+
next
  case (8 tail l ts V)
  show ?case unfolding kind_code.simps
    by (rule "8.IH" [THEN resolves_none] resolves_rules | (auto simp: formals_no_labels quoted_no_labels simp del: puts.simps quoted_code.simps; fail))+
next
  case (10 tail l us ts V)
  show ?case unfolding kind_code.simps
    by (rule "10.IH" [THEN resolves_none] resolves_rules | (auto simp: formals_no_labels quoted_no_labels simp del: puts.simps quoted_code.simps; fail))+
next
  case (11 tail l us ts V)
  show ?case unfolding kind_code.simps
    by (rule "11.IH" [THEN resolves_none] resolves_rules | (auto simp: formals_no_labels quoted_no_labels simp del: puts.simps quoted_code.simps; fail))+
next
  case (12 tail l s us ts V)
  show ?case unfolding kind_code.simps
    by (rule "12.IH" [THEN resolves_none] resolves_rules | (auto simp: formals_no_labels quoted_no_labels simp del: puts.simps quoted_code.simps; fail))+
next
  case (15 tail l ts V)
  show ?case unfolding kind_code.simps
    by (rule "15.IH" [THEN resolves_none] resolves_rules | (auto simp: formals_no_labels quoted_no_labels simp del: puts.simps quoted_code.simps; fail))+
next
  case (16 tail l ts V)
  show ?case unfolding kind_code.simps
    by (rule "16.IH" [THEN resolves_none] resolves_rules | (auto simp: formals_no_labels quoted_no_labels simp del: puts.simps quoted_code.simps; fail))+
next
  case (18 tail l us ts V)
  show ?case unfolding kind_code.simps
    by (rule "18.IH" [THEN resolves_none] resolves_rules | (auto simp: formals_no_labels quoted_no_labels simp del: puts.simps quoted_code.simps; fail))+
next
  case (22 tail t ts V)
  show ?case unfolding nodes_code.simps
    by (rule "22.IH" [THEN resolves_none] resolves_rules | (auto simp: formals_no_labels quoted_no_labels simp del: puts.simps quoted_code.simps; fail))+
next
  case (23 tail ts V)
  show ?case unfolding stream_code.simps
    by (rule "23.IH" [THEN resolves_none] resolves_rules | (auto simp: formals_no_labels quoted_no_labels simp del: puts.simps quoted_code.simps; fail))+
next
  case (25 t ts V)
  show ?case unfolding args_code.simps
    by (rule "25.IH" [THEN resolves_none] resolves_rules | (auto simp: formals_no_labels quoted_no_labels simp del: puts.simps quoted_code.simps; fail))+
next
  case (27 ao d t ts V)
  show ?case unfolding bool_code.simps
    by (rule "27.IH" [THEN resolves_none] resolves_rules | (auto simp: "27.prems" formals_no_labels quoted_no_labels simp del: puts.simps quoted_code.simps; fail))+
next
  case (29 t ts V)
  show ?case
  proof (cases t)
    case (Asm_Stream l us)
    show ?thesis unfolding raw_code.simps Asm_Stream ast.case
      by (rule 29 resolves_rules | (auto simp: Asm_Stream; fail))+
  qed (use 29 in \<open>simp_all add: raw_code.simps resolves_put\<close>)
next
  case (31 tail d us ts cs V)
  show ?case unfolding clauses_code.simps
    by (rule "31.IH" [THEN resolves_none] resolves_rules | (auto simp: "31.prems" formals_no_labels quoted_no_labels simp del: puts.simps quoted_code.simps; fail))+
qed (simp_all add: code_simps resolves_stop resolves_put)

end
