(* ===== verification/Compile.thy ===== *)
theory Compile
  imports Emit_Labels
begin

text \<open>
  The front of the compiler: \<open>bootstrap_core.c\<close>. Files are put on the scanner's stack of inputs and
  their names on the stack of includes; the parser that \<open>bison\<close> generates from \<open>scheme.y\<close> is an argument,
  as are the files of the system; \<open>Parse\<close> models its grammar and actions.
\<close>

section \<open>The outside\<close>

text \<open>\<open>fopen\<close> and the contents of the file, for a path that may be null; \<open>realpath\<close>; and \<open>yyparse\<close> with its
  actions, which return the compiler they leave.\<close>

record outside =
  fopen :: "u8 list option \<Rightarrow> u8 list option"
  realpath :: "u8 list \<Rightarrow> u8 list option"
  yyparse :: "compiler_core \<Rightarrow> compiler_core res"

text \<open>\<open>dirname\<close> of the standard library.\<close>

definition strip_slashes :: "u8 list \<Rightarrow> u8 list" where
  "strip_slashes p = rev (dropWhile (\<lambda>ch. ch = 47) (rev p))"

definition dirname :: "u8 list \<Rightarrow> u8 list" where
  "dirname p =
     (let q = strip_slashes p in
      if q = [] then (if p = [] then chars ''.'' else chars ''/'')
      else if 47 \<notin> set q then chars ''.''
      else
        let d = strip_slashes (rev (dropWhile (\<lambda>ch. ch \<noteq> 47) (rev q)))
        in if d = [] then chars ''/'' else d)"

section \<open>The stack of includes\<close>

definition MAX_INCLUDE_DEPTH :: nat where "MAX_INCLUDE_DEPTH = 64"

definition push_include_path :: "compiler_core \<Rightarrow> u8 list \<Rightarrow> compiler_core res" where
  "push_include_path c file_name =
     (let c = c\<lparr>include_depth := include_depth c + 1\<rparr> in
      if include_depth c < 0 \<or> length (include_stack c) \<le> nat (include_depth c) then Inl Out_Of_Bounds
      else Inr (c\<lparr>include_stack := (include_stack c)[nat (include_depth c) := Some (c_str file_name)]\<rparr>))"

definition pop_include_path :: "compiler_core \<Rightarrow> compiler_core res" where
  "pop_include_path c =
     rbind (if 0 \<le> include_depth c
            then (if nat (include_depth c) < length (include_stack c)
                  then Inr (c\<lparr>include_stack := (include_stack c)[nat (include_depth c) := None]\<rparr>)
                  else Inl Out_Of_Bounds)
            else Inr c) (\<lambda>c.
       Inr (c\<lparr>include_depth := include_depth c - 1\<rparr>))"

section \<open>The inputs of the scanner\<close>

text \<open>\<open>yylex_init\<close>, \<open>yy_scan_string\<close> and \<open>yy_switch_to_buffer\<close>; an input starts at line 1, column 0.\<close>

definition yylex_init :: scanner where
  "yylex_init = \<lparr>yycolumn = 0, yylineno = 1, yyinput = None, yyinputs = []\<rparr>"

definition yy_switch_to_buffer :: "scanner \<Rightarrow> u8 list \<Rightarrow> scanner" where
  "yy_switch_to_buffer sc text = sc\<lparr>yycolumn := 0, yylineno := 1, yyinput := Some text\<rparr>"

definition yypush_buffer_state :: "scanner \<Rightarrow> u8 list \<Rightarrow> scanner" where
  "yypush_buffer_state sc text =
     yy_switch_to_buffer
       (if yyinput sc = None then sc else sc\<lparr>yyinputs := (yyinput sc, yycolumn sc, yylineno sc) # yyinputs sc\<rparr>) text"

definition yypop_buffer_state :: "scanner \<Rightarrow> scanner" where
  "yypop_buffer_state sc =
     (case yyinputs sc of
        [] \<Rightarrow> sc\<lparr>yyinput := None\<rparr>
      | (text, col, lno) # rest \<Rightarrow> sc\<lparr>yyinput := text, yycolumn := col, yylineno := lno, yyinputs := rest\<rparr>)"

definition parse_push_state :: "compiler_core \<Rightarrow> u8 list \<Rightarrow> compiler_core" where
  "parse_push_state c file = c\<lparr>scan := yypush_buffer_state (scan c) file\<rparr>"

text \<open>The scanner's rule for the end of an input; it goes on with the input below, if there is one.\<close>

definition end_of_input :: "compiler_core \<Rightarrow> (compiler_core \<times> bool) res" where
  "end_of_input c =
     rbind (pop_include_path (c\<lparr>scan := yypop_buffer_state (scan c)\<rparr>)) (\<lambda>c. Inr (c, yyinput (scan c) = None))"

text \<open>A file that cannot be opened is only reported.\<close>

definition include_file :: "outside \<Rightarrow> compiler_core \<Rightarrow> u8 list \<Rightarrow> compiler_core res" where
  "include_file w c literal =
     (let file_name = c_str literal in
      rbind (if take 1 file_name = [47] \<or> include_depth c < 0 then Inr (Some file_name)
             else
               rbind (include_path c) (\<lambda>top.
               rbind (deref top) (\<lambda>top.
               if PATH_MAX \<le> length top then Inl Out_Of_Bounds
               else
                 let dir = dirname top; len = length dir + length file_name + 2 in
                 if PATH_MAX < len then Inl Assert_Failed
                 else Inr (realpath w (dir @ [47] @ file_name))))) (\<lambda>path.
      case fopen w path of
        None \<Rightarrow> Inr c
      | Some text \<Rightarrow>
          rbind (deref path) (push_include_path (parse_push_state c text))))"

definition setup_include :: "outside \<Rightarrow> compiler_core \<Rightarrow> addr \<Rightarrow> compiler_core res" where
  "setup_include w c arg =
     rbind (stream_head c arg) (\<lambda>head.
     rbind (deref (nodes c head)) (\<lambda>nd.
     rbind (value_literal nd) (include_file w c)))"

lemmas include_defs = setup_include_def include_file_def

section \<open>Compiling\<close>

text \<open>The base library, when it is wanted: its name goes through a stream of its own.\<close>

definition include_base :: "outside \<Rightarrow> compiler_core \<Rightarrow> bool \<Rightarrow> compiler_core res" where
  "include_base w c include_baselib =
     (if include_baselib
      then
        rbind (home_path c ''/lib/baselib.scm'') (\<lambda>path.
        let (c, baselib) = stream_create c in
        rbind (stream_string c baselib path) (\<lambda>c. setup_include w c baselib))
      else Inr c)"

definition compile_string :: "outside \<Rightarrow> compiler_core \<Rightarrow> u8 list \<Rightarrow> bool \<Rightarrow> compiler_core res" where
  "compile_string w c str include_baselib =
     (let c = c\<lparr>scan := yy_switch_to_buffer yylex_init (c_str str)\<rparr> in
      rbind (include_base w c include_baselib) (yyparse w))"

definition compile_file :: "outside \<Rightarrow> compiler_core \<Rightarrow> u8 list \<Rightarrow> bool \<Rightarrow> compiler_core res" where
  "compile_file w c file_name include_baselib =
     (case fopen w (Some (c_str file_name)) of
        None \<Rightarrow> Inl Assert_Failed
      | Some text \<Rightarrow>
          let c = c\<lparr>scan := yy_switch_to_buffer yylex_init text\<rparr> in
          rbind (push_include_path c file_name) (\<lambda>c.
          rbind (include_base w c include_baselib) (yyparse w)))"

definition compiler_create :: "u8 list \<Rightarrow> compiler_core res" where
  "compiler_create compiler_home =
     (if PATH_MAX \<le> length (c_str compiler_home) then Inl Out_Of_Bounds
      else
        let c = \<lparr>nodes = (\<lambda>_. None), streams = (\<lambda>_. None), next_ptr = 1, home = c_str compiler_home,
                 include_depth = 0, include_stack = [], scan = yylex_init, label_index = 0, stream = 0\<rparr>;
            (c, s) = stream_create c
        in Inr (c\<lparr>stream := s, include_depth := - 1, include_stack := replicate MAX_INCLUDE_DEPTH None\<rparr>))"

section \<open>Includes and their ends\<close>

text \<open>The stack of includes as \<open>compiler_create\<close> makes it.\<close>

definition includes_ok :: "compiler_core \<Rightarrow> bool" where
  "includes_ok c \<longleftrightarrow> - 1 \<le> include_depth c \<and> include_depth c < int MAX_INCLUDE_DEPTH
     \<and> length (include_stack c) = MAX_INCLUDE_DEPTH"

lemma push_run:
  assumes "includes_ok c"
  shows "push_include_path c f =
    (if include_depth c + 1 < int MAX_INCLUDE_DEPTH
     then Inr (c\<lparr>include_depth := include_depth c + 1,
       include_stack := (include_stack c)[nat (include_depth c + 1) := Some (c_str f)]\<rparr>)
     else Inl Out_Of_Bounds)"
  using assms by (auto simp: push_include_path_def includes_ok_def Let_def)

lemma pushed [simp]:
  "include_depth (parse_push_state c text) = include_depth c" "include_stack (parse_push_state c text) = include_stack c"
  by (simp_all add: parse_push_state_def)

lemma setup_include_cases:
  assumes "setup_include w c arg = Inr c'"
  shows "c' = c \<or> (\<exists>path text. push_include_path (parse_push_state c text) path = Inr c')"
  using assms by (auto simp: include_defs res_simps Let_def split: if_splits option.splits)

text \<open>a relative name is looked up in the directory of the file that includes it; the file is read next,
  and names in it are looked up where it was found.\<close>

theorem include_relative:
  assumes "includes_ok c" "0 \<le> include_depth c" "include_depth c < 63" "include_path c = Inr (Some this_file)"
    "length this_file < PATH_MAX" "stream_head c arg = Inr p" "nodes c p = Some nd" "nvalue nd = Literal name"
    "0 \<notin> set name" "take 1 name \<noteq> [47]" "length (dirname this_file) + length name + 2 \<le> PATH_MAX"
    "realpath w (dirname this_file @ [47] @ name) = Some path" "fopen w (Some path) = Some body" "0 \<notin> set path"
  shows "\<exists>c'. setup_include w c arg = Inr c' \<and> yyinput (scan c') = Some body \<and> include_path c' = Inr (Some path)
    \<and> include_depth c' = include_depth c + 1"
proof -
  have "includes_ok (parse_push_state c body)" using assms(1) by (simp add: includes_ok_def parse_push_state_def)
  from push_run [OF this, of path] have "push_include_path (parse_push_state c body) path = Inr
      (c\<lparr>scan := yypush_buffer_state (scan c) body, include_depth := include_depth c + 1,
         include_stack := (include_stack c)[nat (include_depth c + 1) := Some path]\<rparr>)"
    using assms(3,14) by (simp add: MAX_INCLUDE_DEPTH_def) (simp add: parse_push_state_def)
  moreover have "nat (include_depth c + 1) < length (include_stack c)"
    using assms(1,2,3) by (simp add: includes_ok_def MAX_INCLUDE_DEPTH_def)
  ultimately show ?thesis using assms
    by (simp add: include_defs value_literal_def Let_def include_path_def nth_checked_def
        yypush_buffer_state_def yy_switch_to_buffer_def)
qed

text \<open>only 64 files can be open: one more is written after the end of the stack of includes.\<close>

theorem include_overflow:
  assumes "includes_ok c" "include_depth c = 63" "stream_head c arg = Inr p" "nodes c p = Some nd"
    "nvalue nd = Literal (47 # name)" "fopen w (Some (c_str (47 # name))) = Some body"
  shows "setup_include w c arg = Inl Out_Of_Bounds"
proof -
  have "includes_ok (parse_push_state c body)" using assms(1) by (simp add: includes_ok_def parse_push_state_def)
  then have "push_include_path (parse_push_state c body) f = Inl Out_Of_Bounds" for f
    using assms(2) by (simp add: push_run MAX_INCLUDE_DEPTH_def)
  then show ?thesis using assms by (simp add: include_defs value_literal_def c_str_Cons)
qed

text \<open>C32: a new compiler that compiles a string with the base library reads the file name of its first node
  before the stack of includes.\<close>

theorem compile_string_faults:
  assumes "compiler_create dir = Inr c" "length (c_str dir) + 16 < PATH_MAX"
  shows "compile_string w c str True = Inl Out_Of_Bounds"
  using assms
  by (auto simp: compiler_create_def compile_string_def include_base_def home_path_def stream_create_def
      stream_string_def stream_bare_def build_node_def stream_alloc_node_def include_path_def Let_def split: if_splits)

section \<open>Examples\<close>

text \<open>The compiler reads a file \<open>/p/a\<close>; its stream 2 holds a file name.\<close>

definition reading :: "u8 list \<Rightarrow> int \<Rightarrow> compiler_core" where
  "reading file depth =
     \<lparr>nodes = [3 \<mapsto> \<lparr>ntype = STREAM_STRING, nvalue = Literal file, nnext = 0, nprev = 0, ncolumn = 3, nline = 1, nfile = None\<rparr>],
      streams = [1 \<mapsto> \<lparr>shead = 0, stail = 0\<rparr>, 2 \<mapsto> \<lparr>shead = 3, stail = 3\<rparr>], next_ptr = 4, home = [],
      include_depth = depth, include_stack = replicate MAX_INCLUDE_DEPTH (Some [47, 112, 47, 97]),
      scan = yy_switch_to_buffer yylex_init [], label_index = 0, stream = 1\<rparr>"

text \<open>Every file exists and contains \<open>1\<close>; nothing is a link.\<close>

definition all_files :: outside where
  "all_files = \<lparr>fopen = (\<lambda>path. Some [49]), realpath = Some, yyparse = Inr\<rparr>"

lemma reading_ok: "- 1 \<le> depth \<Longrightarrow> depth < 64 \<Longrightarrow> includes_ok (reading file depth)"
  by (simp add: includes_ok_def reading_def MAX_INCLUDE_DEPTH_def)

lemma reading_fields:
  "include_depth (reading file d) = d" "stream_head (reading file d) 2 = Inr 3"
  "nodes (reading file d) 3 = Some \<lparr>ntype = STREAM_STRING, nvalue = Literal file, nnext = 0, nprev = 0, ncolumn = 3, nline = 1, nfile = None\<rparr>"
  "0 \<le> d \<Longrightarrow> d < 64 \<Longrightarrow> include_path (reading file d) = Inr (Some [47, 112, 47, 97])"
  "yyinput (scan (reading file d)) = Some []"
  by (simp_all add: reading_def stream_head_def include_path_def MAX_INCLUDE_DEPTH_def yy_switch_to_buffer_def)

lemma dirname_example: "dirname [47, 112, 47, 97] = [47, 112]"
  by (simp add: dirname_def strip_slashes_def)

theorem include_relative_witness:
  "\<exists>c'. setup_include all_files (reading [98] 0) 2 = Inr c' \<and> include_path c' = Inr (Some [47, 112, 47, 98])
    \<and> include_depth c' = 1"
  using include_relative [OF reading_ok [of 0 "[98]"], where arg = 2 and p = 3 and w = all_files and name = "[98]"
      and this_file = "[47, 112, 47, 97]" and path = "[47, 112, 47, 98]" and body = "[49]"]
  by (auto simp: reading_fields dirname_example all_files_def PATH_MAX_def)

theorem include_overflow_witness: "setup_include all_files (reading [47, 98] 63) 2 = Inl Out_Of_Bounds"
  using include_overflow [OF reading_ok [of 63 "[47, 98]"], where arg = 2 and p = 3 and name = "[98]" and w = all_files]
  by (simp add: reading_fields all_files_def)

theorem compile_string_faults_witness:
  "\<exists>c. compiler_create [47] = Inr c \<and> compile_string all_files c [] True = Inl Out_Of_Bounds"
proof -
  obtain c where "compiler_create [47] = Inr c"
    by (auto simp: compiler_create_def Let_def PATH_MAX_def c_str_Cons stream_create_def)
  then show ?thesis using compile_string_faults [of "[47]" c all_files "[]"] by (simp add: PATH_MAX_def c_str_Cons)
qed

end
