(* ===== verification/Driver.thy ===== *)
theory Driver
  imports Compile Asm_Scan Hash_Props
begin

text \<open>
  The compiler's program, \<open>compiler.c\<close>, as it is built on Linux: the command line, the assembly text with
  the code and its debug information embedded, and the file it is written to.
\<close>

section \<open>The command line\<close>

record options =
  exe :: "u8 list"
  filename :: "u8 list option"
  outfile :: "u8 list option"
  pre_post_amble :: bool
  include_baselib :: bool
  assemble :: bool
  debugging :: bool

text \<open>The initial value of \<open>opts\<close> in \<open>main\<close>.\<close>

definition default_options :: options where
  "default_options = \<lparr>exe = [], filename = None, outfile = None, pre_post_amble = True, include_baselib = True,
     assemble = True, debugging = True\<rparr>"

definition parse_option :: "u8 list \<Rightarrow> options \<Rightarrow> options" where
  "parse_option arg opts =
     (if arg = chars ''--no-pre'' then opts\<lparr>pre_post_amble := False\<rparr>
      else if arg = chars ''--no-baselib'' then opts\<lparr>include_baselib := False\<rparr>
      else if arg = chars ''--no-assemble'' then opts\<lparr>assemble := False\<rparr>
      else if arg = chars ''--no-debug'' then opts\<lparr>debugging := False\<rparr>
      else if filename opts = None then opts\<lparr>filename := Some arg\<rparr>
      else opts\<lparr>outfile := Some arg\<rparr>)"

text \<open>\<open>usage\<close> exits. The arguments start with the name of the program.\<close>

definition parse_options :: "u8 list list \<Rightarrow> options \<Rightarrow> options res" where
  "parse_options argv opts =
     (let argc = length argv in
      if argc < 2 \<or> 5 < argc then Inl Exited
      else
        let opts = fold parse_option (tl argv) (opts\<lparr>exe := hd argv\<rparr>)
        in if filename opts = None then Inl Exited else Inr opts)"

section \<open>Text\<close>

text \<open>A stream over a buffer: the library may hold bytes back, but writes them in order and all of them
  before \<open>fclose\<close> returns.\<close>

definition fputs :: "u8 list \<Rightarrow> buffer \<Rightarrow> buffer res" where
  "fputs s out = rbind (buffer_write_wrapper out s (length s)) (\<lambda>(out, _). Inr out)"

definition newline :: "u8 list" where "newline = [10]"

text \<open>\<open>target_preamble\<close> and the other texts of the target.\<close>

definition target_preamble :: "u8 list" where
  "target_preamble = concat (map (\<lambda>l. chars l @ newline)
     [''   .text'', ''   .globl main'', ''main:'', ''   pushq %rbp'', ''   movq %rsp, %rbp'', ''   call run_scheme@PLT'',
      ''   popq %rbp'', ''   ret'', ''   .data'', ''meta:'', ''   .quad 0 # meta_obj.next'', ''   .long 0 # meta_obj.mark'',
      ''   .long 0 # meta_obj.size'', ''   .long 0 # meta_obj.type_def'', ''str:''])"

definition target_postamble :: "u8 list" where "target_postamble = newline"

definition target_global_template :: "u8 list \<Rightarrow> u8 list" where
  "target_global_template name = chars ''.globl '' @ name @ newline @ name @ chars '':'' @ newline"

definition target_local :: "u8 list" where "target_local = chars ''.L''"

definition line_prefix :: "u8 list" where "line_prefix = newline @ chars ''    .byte ''"

definition writeGlobalSymbol :: "string \<Rightarrow> buffer \<Rightarrow> buffer res" where
  "writeGlobalSymbol name out = fputs (target_global_template (chars name)) out"

text \<open>A line \<open>.quad\<close>.\<close>

definition quad :: "u8 list \<Rightarrow> u8 list" where
  "quad n = chars ''    .quad '' @ n @ newline"

section \<open>Debug information\<close>

text \<open>
  The names get labels. The value of a table's entry is a pointer: 0, 1 for the copy of the name and \<open>i + 2\<close>
  for the string \<open>.L<i>\<close>.
\<close>

definition local_label :: "nat \<Rightarrow> u8 list" where
  "local_label i = target_local @ show_nat i"

definition pointed :: "u8 list \<Rightarrow> nat \<Rightarrow> u8 list" where
  "pointed name v = (if v = 0 then chars ''(null)'' else if v = 1 then name else local_label (v - 2))"

text \<open>\<open>entry->value = \<dots>\<close>\<close>

definition set_entry :: "(u8 list, nat) hstore \<Rightarrow> hash_table \<Rightarrow> u8 list \<Rightarrow> nat \<Rightarrow> (u8 list, nat) hstore" where
  "set_entry st t key v =
     st\<lparr>arrays := (arrays st)(table t := map_option (map (map (\<lambda>(k, u). (k, if k = key then v else u)))) (arrays st (table t)))\<rparr>"

text \<open>The first loop, with a bound on its rounds.\<close>

fun label_files :: "nat \<Rightarrow> hash_table \<Rightarrow> nat \<Rightarrow> (u8 list, nat) hash_iterator option \<Rightarrow> (u8 list, nat) hstore \<Rightarrow> buffer
    \<Rightarrow> ((u8 list, nat) hstore \<times> buffer) res" where
  "label_files 0 t i it st out = Inl Stack_Overflow"
| "label_files (Suc n) t i it st out =
     rbind (hash_next st t it) (\<lambda>(it, entry).
     case entry of
       None \<Rightarrow> Inr (st, out)
     | Some (key, _) \<Rightarrow>
         let st = set_entry st t key (i + 2) in
         rbind (fputs (local_label i @ chars '': .asciz '' @ [34] @ c_str key @ [34] @ newline) out)
           (label_files n t (i + 1) (Some it) st))"

text \<open>One range; a name that is not found leaves the label of the range before.\<close>

definition write_range :: "(u8 list, nat) hstore \<Rightarrow> hash_table \<Rightarrow> debug_state \<Rightarrow> nat \<times> buffer \<Rightarrow> (nat \<times> buffer) res" where
  "write_range st t head = (\<lambda>(file_label, out).
     rbind (hash_get hash_string hash_string_cmp st t (ds_file head)) (\<lambda>found.
     let file_label = (case found of None \<Rightarrow> file_label | Some v \<Rightarrow> v) in
     rbind (fputs (chars ''#--------------------------------'' @ newline) out) (\<lambda>out.
     rbind (fputs (quad (pointed (c_str (ds_file head)) file_label)) out) (\<lambda>out.
     rbind (fputs (quad (show_int (ds_line head))) out) (\<lambda>out.
     rbind (fputs (quad (show_int (ds_column head))) out) (\<lambda>out.
     rbind (fputs (quad (show_int (ds_start head))) out) (\<lambda>out.
       Inr (file_label, out))))))))"

fun write_ranges :: "(u8 list, nat) hstore \<Rightarrow> hash_table \<Rightarrow> debug_state list \<Rightarrow> nat \<times> buffer \<Rightarrow> (nat \<times> buffer) res" where
  "write_ranges st t [] s = Inr s"
| "write_ranges st t (head # rest) s = rbind (write_range st t head s) (write_ranges st t rest)"

fun write_labels :: "nat \<Rightarrow> buffer \<Rightarrow> buffer res" where
  "write_labels 0 out = Inr out"
| "write_labels (Suc i) out = rbind (fputs (quad (local_label i)) out) (write_labels i)"

definition writeDebugInfo :: "debug_info \<Rightarrow> buffer \<Rightarrow> buffer res" where
  "writeDebugInfo debug out =
     (let count = hash_size (files debug) in
      rbind (label_files (Suc (Suc count)) (files debug) 0 None (files_store debug) out) (\<lambda>(st, out).
      rbind (writeGlobalSymbol ''debug_files'' out) (\<lambda>out.
      rbind (write_labels count out) (\<lambda>out.
      rbind (fputs newline out) (\<lambda>out.
      rbind (writeGlobalSymbol ''debug_files_count'' out) (\<lambda>out.
      rbind (fputs (quad (show_nat count)) out) (\<lambda>out.
      rbind (writeGlobalSymbol ''debug_ranges'' out) (\<lambda>out.
      rbind (write_ranges st (files debug) (states debug) (0, out)) (\<lambda>(_, out).
      rbind (fputs newline out) (\<lambda>out.
      rbind (writeGlobalSymbol ''debug_ranges_count'' out) (\<lambda>out.
        fputs (quad (show_nat (length (states debug)))) out)))))))))))"

section \<open>The attachment\<close>

text \<open>\<open>length - 1\<close> as a \<open>size_t\<close>; what is in memory is shorter than \<open>2 ^ 64\<close>.\<close>

definition minus_one :: "nat \<Rightarrow> nat" where
  "minus_one len = (if len = 0 then 2 ^ 64 - 1 else len - 1)"

text \<open>The bytes of the code from number \<open>i\<close>; \<open>length\<close> is that of the whole code.\<close>

fun write_code :: "nat \<Rightarrow> nat \<Rightarrow> u8 list \<Rightarrow> buffer \<Rightarrow> buffer res" where
  "write_code len i [] out = Inr out"
| "write_code len i (c # cs) out =
     rbind (fputs (show_nat (unat c)) out) (\<lambda>out.
     rbind (if i + 1 < len
            then (if i mod 50 = 0 \<and> 0 < i then fputs line_prefix out else fputs (chars '', '') out)
            else Inr out)
       (write_code len (i + 1) cs))"

definition buildAttachment :: "u8 list \<Rightarrow> u8 list res" where
  "buildAttachment asm_str =
     rbind (asm_string (yyasm_scan asm_str) True) (\<lambda>(code_ref, debug).
     let len = length code_ref in
     rbind (deref debug) (\<lambda>debug.
     rbind (fputs target_preamble buffer_create) (\<lambda>out.
     rbind (writeGlobalSymbol ''scheme_code'' out) (\<lambda>out.
     rbind (fputs line_prefix out) (\<lambda>out.
     rbind (write_code len 0 code_ref out) (\<lambda>out.
     rbind (fputs (newline @ newline) out) (\<lambda>out.
     rbind (writeGlobalSymbol ''scheme_code_size'' out) (\<lambda>out.
     rbind (fputs (quad (show_nat (minus_one len)) @ newline) out) (\<lambda>out.
     rbind (writeDebugInfo debug out) (\<lambda>out.
     rbind (fputs target_postamble out) (\<lambda>target_buf.
       Inr (buffer_read target_buf (buffer_size target_buf + 1)))))))))))))"

section \<open>The program\<close>

text \<open>
  What the program meets: the files that the scanner and \<open>buffer_load\<close> read, and whether \<open>fopen\<close> and
  \<open>fwrite\<close> of the output succeed. The file written is the last result; no name stands for \<open>stdout\<close>.
\<close>

record system = outside +
  loads :: "u8 list \<Rightarrow> file_reads"
  opens :: "u8 list \<Rightarrow> bool"
  writes_all :: bool

definition writeToFile :: "'a system_scheme \<Rightarrow> options \<Rightarrow> u8 list \<Rightarrow> nat \<Rightarrow> (u8 list option \<times> u8 list) res" where
  "writeToFile w opts asm_str len =
     (case outfile opts of
        Some out \<Rightarrow>
          if \<not> opens w out then Inl Assert_Failed
          else if length asm_str < len then Inl Out_Of_Bounds
          else if \<not> writes_all w then Inl Assert_Failed
          else Inr (Some out, take len asm_str)
      | None \<Rightarrow>
          if length asm_str < len then Inl Out_Of_Bounds
          else if \<not> writes_all w then Inl Assert_Failed
          else Inr (None, take len asm_str))"

text \<open>
  \<open>n\<close> bounds the depth of the code generator. The blocks that hold the text end with null bytes, so it is a
  string.
\<close>

definition compiler_main :: "nat \<Rightarrow> 'a system_scheme \<Rightarrow> u8 list list \<Rightarrow> (u8 list option \<times> u8 list) res" where
  "compiler_main n w argv =
     rbind (parse_options argv default_options) (\<lambda>opts.
     let compiler_home = (case realpath w (exe opts) of None \<Rightarrow> chars ''.'' | Some p \<Rightarrow> dirname p) in
     rbind (compiler_create compiler_home) (\<lambda>compiler.
     rbind (deref (filename opts)) (\<lambda>file.
     rbind (compile_file (outside.truncate w) compiler file (include_baselib opts)) (\<lambda>compiler.
     rbind (compiler_code_gen n (loads w) compiler buffer_create (pre_post_amble opts)) (\<lambda>(compiler, asm_buf).
     let asm_str = buffer_read asm_buf (buffer_size asm_buf) in
     rbind (if assemble opts then buildAttachment asm_str else Inr asm_str) (\<lambda>asm_str.
       writeToFile w opts asm_str (minus_one (length asm_str))))))))"

end
