(* ===== verification/Emit_Asm.thy ===== *)
theory Emit_Asm
  imports Emit_Labels Asm_Text
begin

text \<open>
  The assembler on the lines of the code generator. Lines are linked as a two-pass assembler does it:
  every line has its bytes, a label the number of bytes before it, a jump the distance to its label
  (\<open>link\<close>). The lemmas read each line with the scanner's lemmas and follow the assembler's loop over it.
\<close>

section \<open>Linking\<close>

text \<open>The code of an instruction as it is written, if it is code without labels.\<close>

definition ins_code :: "u8 list \<Rightarrow> u8 list option" where
  "ins_code s = simple_code (scan INITIAL 1 (s @ [10]))"

fun line_draft :: "line \<Rightarrow> u8 list" where
  "line_draft (Jump ty i) = ty # INT_64 0"
| "line_draft (Ins s) = (case ins_code s of Some code \<Rightarrow> code | None \<Rightarrow> [])"
| "line_draft (Text s) = string_code STRING_START_TOKEN s"
| "line_draft l = []"

definition draft :: "line list \<Rightarrow> u8 list" where
  "draft ls = concat (map line_draft ls)"

lemma draft_simps [simp]: "draft [] = []" "draft (l # ls) = line_draft l @ draft ls"
  "draft (ls @ ms) = draft ls @ draft ms"
  by (simp_all add: draft_def)

text \<open>The labels with their positions, the jumps with the positions of their operands, and the places
  in the source with the positions of their code.\<close>

fun places :: "nat \<Rightarrow> line list \<Rightarrow> (nat \<times> nat) list" where
  "places a [] = []"
| "places a (l # ls) = (case l of Label i \<Rightarrow> [(i, a)] | _ \<Rightarrow> []) @ places (a + length (line_draft l)) ls"

fun line_jumps :: "nat \<Rightarrow> line list \<Rightarrow> (nat \<times> nat) list" where
  "line_jumps a [] = []"
| "line_jumps a (l # ls) = (case l of Jump ty i \<Rightarrow> [(i, a + 1)] | _ \<Rightarrow> []) @ line_jumps (a + length (line_draft l)) ls"

fun line_locs :: "nat \<Rightarrow> line list \<Rightarrow> (loc \<times> nat) list" where
  "line_locs a [] = []"
| "line_locs a (l # ls) = (case l of Debug loc \<Rightarrow> [(loc, a)] | _ \<Rightarrow> []) @ line_locs (a + length (line_draft l)) ls"

fun machine :: "(nat \<Rightarrow> nat) \<Rightarrow> nat \<Rightarrow> line list \<Rightarrow> u8 list" where
  "machine pos a [] = []"
| "machine pos a (l # ls) =
     (case l of Jump ty i \<Rightarrow> ty # INT_64 (of_nat (pos i) - of_nat (a + 1) - 8) | _ \<Rightarrow> line_draft l)
     @ machine pos (a + length (line_draft l)) ls"

definition label_pos :: "line list \<Rightarrow> nat \<Rightarrow> nat" where
  "label_pos ls i = (case map_of (places 0 ls) i of Some p \<Rightarrow> p | None \<Rightarrow> 0)"

definition link :: "line list \<Rightarrow> u8 list" where
  "link ls = machine (label_pos ls) 0 ls"

lemma places_append: "places a (ls @ ms) = places a ls @ places (a + length (draft ls)) ms"
  by (induction ls arbitrary: a) (auto simp: add.assoc)

lemma line_jumps_append: "line_jumps a (ls @ ms) = line_jumps a ls @ line_jumps (a + length (draft ls)) ms"
  by (induction ls arbitrary: a) (auto simp: add.assoc)

lemma line_locs_append: "line_locs a (ls @ ms) = line_locs a ls @ line_locs (a + length (draft ls)) ms"
  by (induction ls arbitrary: a) (auto simp: add.assoc)

lemma machine_append: "machine pos a (ls @ ms) = machine pos a ls @ machine pos (a + length (draft ls)) ms"
  by (induction ls arbitrary: a) (auto simp: add.assoc)

lemma length_machine: "length (machine pos a ls) = length (draft ls)"
  by (induction ls arbitrary: a) (auto split: line.splits)

lemma length_link: "length (link ls) = length (draft ls)"
  by (simp add: link_def length_machine)

lemma places_labels: "map fst (places a ls) = Emit_Labels.labels ls"
  by (induction ls arbitrary: a rule: Emit_Labels.labels.induct) auto

lemma jumps_targets: "map fst (line_jumps a ls) = Emit_Labels.targets ls"
  by (induction ls arbitrary: a rule: Emit_Labels.targets.induct) auto

text \<open>The debug ranges: places in the source in a row are merged.\<close>

definition add_range :: "debug_state list \<Rightarrow> loc \<times> nat \<Rightarrow> debug_state list" where
  "add_range xs = (\<lambda>((f, lno, col), a).
     if xs \<noteq> [] \<and> ds_file (last xs) = f \<and> ds_line (last xs) = scast lno \<and> ds_column (last xs) = scast col then xs
     else xs @ [\<lparr>ds_file = f, ds_line = scast lno, ds_column = scast col, ds_start = of_nat a\<rparr>])"

definition debug_states :: "line list \<Rightarrow> debug_state list" where
  "debug_states ls = foldl add_range [] (line_locs 0 ls)"

definition file_names :: "line list \<Rightarrow> u8 list set" where
  "file_names ls = (\<lambda>((f, lno, col), a). f) ` set (line_locs 0 ls)"

section \<open>Lines the scanner reads back\<close>

text \<open>The text of a line is read as tokens of this code.\<close>

definition reads :: "u8 list \<Rightarrow> u8 list \<Rightarrow> bool" where
  "reads s code \<longleftrightarrow> (\<forall>lno. \<exists>ts. (\<forall>rest. scan INITIAL lno (s @ 10 # rest) = ts @ scan INITIAL (lno + newlines s) (10 # rest))
     \<and> simple_code ts = Some code)"

fun line_good :: "line \<Rightarrow> bool" where
  "line_good (Comment s) = (10 \<notin> set (chars s))"
| "line_good (Debug (f, lno, col)) = (f \<noteq> [] \<and> 34 \<notin> set f \<and> 0 \<notin> set f \<and> quotable f)"
| "line_good (Label i) = (i < 2 ^ 64)"
| "line_good (Jump ty i) = (i < 2 ^ 64 \<and> ty \<in> {OP_CALL, OP_PROC, OP_JMP, OP_JNF})"
| "line_good (Ins s) = (\<exists>code. reads s code)"
| "line_good (Text s) = quotable s"

lemma reads_code: "reads s code \<Longrightarrow> ins_code s = Some code"
proof -
  assume "reads s code"
  then obtain ts where "scan INITIAL 1 (s @ [10]) = ts @ scan INITIAL (1 + newlines s) [10]" "simple_code ts = Some code"
    unfolding reads_def by blast
  then show ?thesis by (simp add: ins_code_def scan_newline)
qed

lemma show_nat_chars: "c \<in> set (show_nat n) \<Longrightarrow> ident c \<and> c \<noteq> 0" "show_nat n \<noteq> []"
  using show_nat_spec [of n] is_digit_digit digit_ident by (auto simp: is_digit_def)

lemma show_int_chars: "c \<in> set (show_int i) \<Longrightarrow> ident c \<and> c \<noteq> 0" "show_int i \<noteq> []"
proof -
  have "ident 45" by (simp add: ident_def)
  then show "c \<in> set (show_int i) \<Longrightarrow> ident c \<and> c \<noteq> 0"
    using show_nat_chars by (auto simp: show_int_def split: if_splits)
  show "show_int i \<noteq> []" using show_nat_chars by (simp add: show_int_def)
qed

lemma label_text_name: "label_text (label_name i)"
proof -
  have "\<forall>c\<in>set (chars ''_label_''). ident c"
    by (simp add: chars_def ident_def alnum_def between_def)
  then have a: "\<forall>c\<in>set (label_name i). ident c" using show_int_chars by (auto simp: label_name_def)
  have h: "label_name i = 95 # tl (chars ''_label_'') @ show_int (of_nat i)" by (simp add: label_name_def chars_def)
  have "case label_name i of [] \<Rightarrow> False | c # cs \<Rightarrow> c = 95" by (subst h) simp
  with a show ?thesis unfolding label_text_def by blast
qed

lemma label_name_null: "0 \<notin> set (label_name i)"
  using show_int_chars by (auto simp: label_name_def chars_def)

lemma label_name_inj:
  assumes "i < 2 ^ 64" "j < 2 ^ 64" "label_name i = label_name j"
  shows "i = j"
proof -
  have "strtoq (show_int (of_nat i)) = strtoq (show_int (of_nat j))" using assms(3) by (simp add: label_name_def)
  then have "(of_nat i :: vm_int) = of_nat j" by (simp only: strtoq_show_int)
  then have "unat (of_nat i :: vm_int) = unat (of_nat j :: vm_int)" by (rule arg_cong)
  then show ?thesis using assms(1,2) by (simp add: unat_of_nat)
qed

section \<open>Reading a line\<close>

text \<open>The tokens of a line, its text read from line \<open>lno\<close> on.\<close>

fun line_tokens :: "nat \<Rightarrow> line \<Rightarrow> token list" where
  "line_tokens lno (Label i) = [tok LABEL_TOKEN (label_name i) lno]"
| "line_tokens lno (Jump ty i) = [tok (unat ty) (op_name ty) lno, tok LABEL_TOKEN (label_name i) lno]"
| "line_tokens lno (Debug (f, l, col)) =
     [tok DIRECTIVE_FILE (chars ''.file'') lno, tok STRING_START_TOKEN [34] lno,
      tok (unat OP_LIT_STRING) f (lno + newlines f), tok STRING_END_TOKEN [34] (lno + newlines f),
      tok (unat OP_LIT_FIXNUM) (show_int (scast l)) (lno + newlines f),
      tok (unat OP_LIT_FIXNUM) (show_int (scast col)) (lno + newlines f)]"
| "line_tokens lno l = []"

lemma sep_simps: "sep 10" "sep 32"
  by (simp_all add: sep_def)

lemma file_space: "chars ''.file '' = chars ''.file'' @ [32]"
  by (simp add: chars_def)

lemma scan_debug:
  assumes "line_good (Debug (f, l, col))"
  shows "scan INITIAL lno (render (Debug (f, l, col)) @ rest)
    = line_tokens lno (Debug (f, l, col)) @ scan INITIAL (Suc (lno + newlines f)) rest"
  using assms scan_file [of lno "34 # f @ 34 # 32 # show_int (scast l) @ 32 # show_int (scast col) @ 10 # rest"]
  by (simp add: file_space scan_space scan_string scan_number [OF sep_simps(2)] scan_number [OF sep_simps(1)] scan_newline
      del: scan.simps(2))

lemma jump_word:
  assumes "ty \<in> {OP_CALL, OP_PROC, OP_JMP, OP_JNF}"
  shows "\<exists>w. op_name ty = chars w \<and> (w, EXPECT_TARGET, ty) \<in> set words"
  using assms by (auto simp: op_name_def jump_name_def words_def op_codes)

lemma scan_jump:
  assumes "line_good (Jump ty i)"
  shows "scan INITIAL lno (render (Jump ty i) @ rest) = line_tokens lno (Jump ty i) @ scan INITIAL (Suc lno) rest"
proof -
  obtain w where w: "op_name ty = chars w" "(w, EXPECT_TARGET, ty) \<in> set words" using jump_word assms by auto
  have "scan INITIAL lno (render (Jump ty i) @ rest) = scan INITIAL lno (chars w @ 32 # label_name i @ 10 # rest)"
    by (simp add: scan_indent w(1) del: scan.simps(2))
  also have "\<dots> = tok (unat ty) (chars w) lno # scan EXPECT_TARGET lno (32 # label_name i @ 10 # rest)"
    using scan_word [of w EXPECT_TARGET ty 32] w(2) sep_simps by simp
  finally show ?thesis using scan_target [OF label_text_name, of lno i rest] by (simp add: scan_newline w(1) del: scan.simps(2))
qed

lemma scan_label_line:
  "scan INITIAL lno (render (Label i) @ rest) = line_tokens lno (Label i) @ scan INITIAL (Suc lno) rest"
  using scan_label [OF label_text_name, of lno i "10 # rest"] by (simp add: scan_newline del: scan.simps(2))

lemma scan_comment_line:
  "line_good (Comment s) \<Longrightarrow> scan INITIAL lno (render (Comment s) @ rest) = scan INITIAL (Suc lno) rest"
  using scan_comment [of "tl (chars '';; '') @ chars s" lno rest] by (simp add: chars_def del: scan.simps(2))

lemma scan_ins_all:
  assumes "reads s code"
  shows "\<exists>ts. (\<forall>rest. scan INITIAL lno (render (Ins s) @ rest) = ts @ scan INITIAL (Suc (lno + newlines s)) rest)
    \<and> simple_code ts = Some code"
proof -
  obtain ts where "\<And>rest. scan INITIAL lno (s @ 10 # rest) = ts @ scan INITIAL (lno + newlines s) (10 # rest)" "simple_code ts = Some code"
    using assms unfolding reads_def by blast
  then show ?thesis by (intro exI [of _ ts]) (simp add: scan_indent scan_newline del: scan.simps(2))
qed

lemma reads_string:
  assumes "quotable s"
  shows "reads (34 # s @ [34]) (string_code STRING_START_TOKEN s)"
  unfolding reads_def
proof (intro allI)
  fix lno
  have "scan INITIAL lno ((34 # s @ [34]) @ 10 # rest) = (tok STRING_START_TOKEN [34] lno
      # (if s = [] then [] else [tok (unat OP_LIT_STRING) s (lno + newlines s)]) @ [tok STRING_END_TOKEN [34] (lno + newlines s)])
      @ scan INITIAL (lno + newlines (34 # s @ [34])) (10 # rest)" for rest
    using scan_string [OF assms(1), of lno "10 # rest"] by (simp del: scan.simps(2))
  then show "\<exists>ts. (\<forall>rest. scan INITIAL lno ((34 # s @ [34]) @ 10 # rest) = ts @ scan INITIAL (lno + newlines (34 # s @ [34])) (10 # rest))
      \<and> simple_code ts = Some (string_code STRING_START_TOKEN s)"
    by (intro exI [of _ "tok STRING_START_TOKEN [34] lno # (if s = [] then [] else [tok (unat OP_LIT_STRING) s (lno + newlines s)])
        @ [tok STRING_END_TOKEN [34] (lno + newlines s)]"] conjI allI)
      (simp_all add: tok_def token_codes op_codes)
qed

section \<open>The assembler's loop over a line\<close>

definition follows :: "asm_state \<Rightarrow> token list \<Rightarrow> asm_state \<Rightarrow> bool" where
  "follows s ts s' \<longleftrightarrow> (\<forall>more. asm_loop s (ts @ more) = asm_loop s' more)"

text \<open>The debug information after some lines, and the state of the assembler.\<close>

definition debug_after :: "line list \<Rightarrow> debug_info \<Rightarrow> bool" where
  "debug_after ls d \<longleftrightarrow> states d = debug_states ls \<and> (\<forall>x\<in>set (states d). 0 \<notin> set (ds_file x)) \<and> (\<forall>f\<in>file_names ls. 34 \<notin> set f)
     \<and> (\<exists>bs. table_ok hash_string hash_string_cmp (files_store d) (files d) bs
         \<and> (\<forall>k. b_lookup hash_string hash_string_cmp bs k = (if c_str k \<in> file_names ls then Some 1 else None)))"

definition after :: "line list \<Rightarrow> asm_state \<Rightarrow> bool" where
  "after ls s \<longleftrightarrow> asm_ok s \<and> contents (buf s) = draft ls
     \<and> map (\<lambda>j. (jump_label j, jump_addr j)) (jump_list s) = rev (map (\<lambda>(i, a). (label_name i, of_nat a)) (line_jumps 0 ls))
     \<and> (\<forall>i<2 ^ 64. label_at s (label_name i) = map_option of_nat (map_of (rev (places 0 ls)) i))
     \<and> (\<exists>d. debug_out s = Some d \<and> debug_after ls d)"

lemma debug_states_snoc:
  "debug_states (ls @ [l]) = (case l of Debug loc \<Rightarrow> add_range (debug_states ls) (loc, length (draft ls)) | _ \<Rightarrow> debug_states ls)"
  by (simp add: debug_states_def line_locs_append split: line.split)

lemma file_names_snoc:
  "file_names (ls @ [l]) = (case l of Debug (f, lno, col) \<Rightarrow> insert f (file_names ls) | _ \<Rightarrow> file_names ls)"
  by (auto simp: file_names_def line_locs_append split: line.split prod.splits)

lemma debug_after_other:
  "debug_after ls d \<Longrightarrow> (\<forall>loc. l \<noteq> Debug loc) \<Longrightarrow> debug_after (ls @ [l]) d"
  by (cases l) (auto simp: debug_after_def debug_states_snoc file_names_snoc)

lemma after_code:
  assumes "after ls s" "simple_code ts = Some (line_draft l)" "line_jumps 0 [l] = []" "places 0 [l] = []" "\<forall>loc. l \<noteq> Debug loc"
  shows "\<exists>s'. follows s ts s' \<and> after (ls @ [l]) s'"
proof -
  have ok: "asm_ok s" using assms(1) by (simp add: after_def)
  obtain b where b: "buffer_ok b" "contents b = contents (buf s) @ line_draft l" "follows s ts (s\<lparr>buf := b\<rparr>)"
    using simple_assembles [OF assms(2) ok] by (auto simp: assembles_def follows_def)
  have e: "places a [l] = []" "line_jumps a [l] = []" for a using assms(3,4) by (cases l; simp)+
  have "label_at (s\<lparr>buf := b\<rparr>) = label_at s" by (simp add: label_at_def fun_eq_iff)
  then have "after (ls @ [l]) (s\<lparr>buf := b\<rparr>)"
    using assms(1) asm_ok_grow [OF ok b(1,2)] b(2) debug_after_other [OF _ assms(5)] e
    by (auto simp: after_def line_jumps_append places_append simp del: line_jumps.simps(2) places.simps(2))
  then show ?thesis using b(3) by blast
qed

lemma after_label:
  assumes "after ls s" "i < 2 ^ 64"
  shows "\<exists>s'. follows s [tok LABEL_TOKEN (label_name i) lno] s' \<and> after (ls @ [Label i]) s'"
proof -
  let ?t = "tok LABEL_TOKEN (label_name i) lno"
  have ok: "asm_ok s" and k: "kind ?t = LABEL_TOKEN" "get_text ?t = label_name i" using assms(1) by (simp_all add: after_def tok_def)
  obtain s' where s': "asm_label s (label_name i) = Inr s'" "asm_ok s'" "buf s' = buf s" "jump_list s' = jump_list s"
    "\<forall>l. label_at s' l = (if c_str l = c_str (get_text ?t) then Some (of_nat (length (contents (buf s)))) else label_at s l)"
    using asm_label_step [OF ok k(1), of "[]"] k by (auto simp: asm_token_def token_codes jump_ops_def op_codes res_simps)
  have d: "debug_out s' = debug_out s" using s'(1) by (auto simp: asm_label_def res_simps)
  have "asm_token s ?t more = Inr (s', more)" for more
    using s'(1) k by (simp add: asm_token_def token_codes jump_ops_def op_codes)
  then have "follows s [?t] s'" using k by (simp add: follows_def token_codes)
  moreover have "label_at s' (label_name j) = map_option of_nat (map_of (rev (places 0 (ls @ [Label i]))) j)" if "j < 2 ^ 64" for j
  proof -
    have "label_name j = label_name i \<longleftrightarrow> j = i" using label_name_inj [OF that assms(2)] by auto
    then show ?thesis using s'(5) k(2) assms(1) label_name_null that by (simp add: after_def places_append)
  qed
  moreover have "line_jumps 0 (ls @ [Label i]) = line_jumps 0 ls" by (simp add: line_jumps_append)
  ultimately show ?thesis using assms(1) s' d debug_after_other [of ls _ "Label i"]
    by (intro exI [of _ s']) (auto simp: after_def)
qed

lemma after_jump:
  assumes "after ls s" "line_good (Jump ty i)"
  shows "\<exists>s'. follows s (line_tokens lno (Jump ty i)) s' \<and> after (ls @ [Jump ty i]) s'"
proof -
  have ok: "asm_ok s" using assms(1) by (simp add: after_def)
  let ?t = "tok (unat ty) (op_name ty) lno" and ?u = "tok LABEL_TOKEN (label_name i) lno"
  have ty: "ty \<in> {OP_CALL, OP_PROC, OP_JMP, OP_JNF}" using assms(2) by simp
  have k: "unat ty \<in> unat ` set jump_ops" "kind ?t \<noteq> END_OF_FILE" "unat ty \<noteq> unat OP_LIT_FIXNUM" "unat ty \<noteq> unat OP_LIT_CHAR"
    "unat ty \<noteq> STRING_START_TOKEN" "unat ty \<noteq> SYMBOL_START_TOKEN"
    using ty by (auto simp: jump_ops_def tok_def op_codes token_codes)
  obtain b where b: "EMIT (buf s) [ty] 1 = Inr b" "buffer_ok b" "contents b = contents (buf s) @ [ty]"
    using EMIT_ok [OF asm_ok_buf [OF ok], of 1 "[ty]"] by auto
  obtain b2 where b2: "EMIT b (INT_64 0) 8 = Inr b2" "buffer_ok b2" "contents b2 = contents b @ INT_64 0"
    using EMIT_ok [OF b(2), of 8 "INT_64 0"] by auto
  let ?j = "\<lparr>jump_label = label_name i, jump_addr = of_nat (length (draft ls) + 1), jump_lineno = of_nat lno\<rparr>"
  let ?s = "s\<lparr>jump_list := ?j # jump_list s, buf := b2\<rparr>"
  have sz: "buffer_size b = length (draft ls) + 1" using b assms(1) by (simp add: size_contents after_def)
  have r: "asm_token s ?t (?u # more) = Inr (?s, more)" for more
    using k b(1) b2(1) sz label_name_null by (simp add: asm_token_def tok_def asm_jump_def del: of_nat_add)
  then have "follows s (line_tokens lno (Jump ty i)) ?s" using k(2) by (simp add: follows_def)
  moreover have "asm_ok ?s" using asm_token_extends [OF ok r [of "[]"]] by (simp add: extends_def)
  moreover have "label_at ?s = label_at s" by (simp add: label_at_def fun_eq_iff)
  ultimately show ?thesis using assms(1) b(3) b2(3) debug_after_other [of ls _ "Jump ty i"]
    by (intro exI [of _ ?s]) (auto simp: after_def line_jumps_append places_append)
qed

lemma cut_extended: "(ucast (scast (l :: u32) :: u64) :: u32) = l"
  by (rule bit_word_eqI) (auto simp: bit_simps)

lemma get_debug_num_tok:
  "get_debug_num (tok (unat OP_LIT_FIXNUM) (show_int (scast l)) lno # rest) = Inr (scast (l :: u32), rest)"
  by (simp add: get_debug_num_def tok_def strtoq_show_int cut_extended)

lemma add_file_run:
  assumes "debug_after ls d" "line_good (Debug (f, l, col))"
  shows "\<exists>d'. (\<forall>rest. add_debug_file (tl (line_tokens lno (Debug (f, l, col))) @ rest) d (of_nat (length (draft ls))) = Inr (d', rest))
    \<and> debug_after (ls @ [Debug (f, l, col)]) d'"
proof -
  have f: "f \<noteq> []" "34 \<notin> set f" "0 \<notin> set f" using assms(2) by auto
  obtain bs where d: "states d = debug_states ls" "\<forall>x\<in>set (states d). 0 \<notin> set (ds_file x)" "\<forall>f\<in>file_names ls. 34 \<notin> set f"
    "table_ok hash_string hash_string_cmp (files_store d) (files d) bs"
    "\<forall>k. b_lookup hash_string hash_string_cmp bs k = (if c_str k \<in> file_names ls then Some 1 else None)"
    using assms(1) by (auto simp: debug_after_def)
  have c: "c_str (f @ [34]) = f @ [34]" using f by simp
  then have "c_str (f @ [34]) \<notin> file_names ls" using d(3) by fastforce
  then have g: "hash_get hash_string hash_string_cmp (files_store d) (files d) (f @ [34]) = Inr None"
    using string_key.hash_get_spec [OF d(4), of "f @ [34]"] d(5) by simp
  have v: "strncpy_bytes (f @ [34]) (length (c_str (f @ [34])) - 1) = f" unfolding strncpy_bytes_def c by simp
  obtain st' t' bs' where h: "hash_set hash_string hash_string_cmp (files_store d) (files d) f 1 = Inr (st', t')"
    "table_ok hash_string hash_string_cmp st' t' bs'"
    "\<forall>j. b_lookup hash_string hash_string_cmp bs' j = (if hash_string_cmp f j = EQ then Some 1
        else b_lookup hash_string hash_string_cmp bs j)"
    "\<not> copy_on_write t'" "\<not> over_max_load t'" "frame (files_store d) (files d) st' t'"
    by (rule string_key.hash_set_spec [OF d(4), where k = f and v = 1])
  let ?d = "push_debug (d\<lparr>files_store := st', files := t'\<rparr>) f (scast l) (scast col) (of_nat (length (draft ls)))"
  have r: "add_debug_file (tl (line_tokens lno (Debug (f, l, col))) @ rest) d (of_nat (length (draft ls))) = Inr (?d, rest)" for rest
    using g v h(1) get_debug_num_tok [of l "lno + newlines f"] get_debug_num_tok [of col "lno + newlines f" rest]
    by (simp add: add_debug_file_def) (simp add: tok_def)
  have last: "c_str (ds_file (last (states d))) = ds_file (last (states d))" if "states d \<noteq> []"
    using d(2) that last_in_set [OF that] by simp
  have "states ?d = add_range (states d) ((f, l, col), length (draft ls))"
    using last f(3) by (auto simp: push_debug_def add_range_def)
  then have "states ?d = debug_states (ls @ [Debug (f, l, col)])" "\<forall>x\<in>set (states ?d). 0 \<notin> set (ds_file x)"
    using d(1,2) f(3) by (auto simp: debug_states_snoc add_range_def)
  moreover have "files_store ?d = st'" "files ?d = t'" by (simp_all add: push_debug_def)
  moreover have "b_lookup hash_string hash_string_cmp bs' k = (if c_str k \<in> insert f (file_names ls) then Some 1 else None)" for k
    using h(3) d(5) f(3) by (auto simp: hash_string_cmp_EQ)
  ultimately have "debug_after (ls @ [Debug (f, l, col)]) ?d"
    using h(2) d(3) f(2) by (auto simp: debug_after_def file_names_snoc)
  then show ?thesis using r by blast
qed

lemma after_debug:
  assumes "after ls s" "line_good (Debug (f, l, col))"
  shows "\<exists>s'. follows s (line_tokens lno (Debug (f, l, col))) s' \<and> after (ls @ [Debug (f, l, col)]) s'"
proof -
  obtain d where ok: "asm_ok s" "debug_out s = Some d" "debug_after ls d" and sz: "buffer_size (buf s) = length (draft ls)"
    using assms(1) by (auto simp: after_def size_contents asm_ok_buf)
  obtain d' where d': "debug_after (ls @ [Debug (f, l, col)]) d'"
    "\<And>more. add_debug_file (tl (line_tokens lno (Debug (f, l, col))) @ more) d (of_nat (length (draft ls))) = Inr (d', more)"
    using add_file_run [OF ok(3) assms(2), of lno] by blast
  let ?s = "s\<lparr>debug_out := Some d'\<rparr>"
  let ?t = "tok DIRECTIVE_FILE (chars ''.file'') lno"
  have k: "kind ?t = DIRECTIVE_FILE" by (simp add: tok_def)
  have "asm_token s ?t (tl (line_tokens lno (Debug (f, l, col))) @ more) = Inr (?s, more)" for more
    using d'(2) ok(2) sz k by (simp add: asm_token_def token_codes jump_ops_def op_codes)
  then have "follows s (?t # tl (line_tokens lno (Debug (f, l, col)))) ?s" using k by (simp add: follows_def token_codes)
  moreover have "asm_ok ?s" using extends_debug [OF ok(1)] by (simp add: extends_def)
  moreover have "label_at ?s = label_at s" by (simp add: label_at_def fun_eq_iff)
  ultimately show ?thesis using assms(1) d'(1)
    by (intro exI [of _ ?s]) (auto simp: after_def line_jumps_append places_append)
qed

section \<open>The listing\<close>

lemma after_line:
  assumes "after ls s" "line_good l"
  shows "\<exists>ts lno' s'. (\<forall>rest. scan INITIAL lno (render l @ rest) = ts @ scan INITIAL lno' rest) \<and> follows s ts s' \<and> after (ls @ [l]) s'"
proof (cases l)
  case (Comment x)
  have "after (ls @ [Comment x]) s" using assms(1) debug_after_other [of ls _ "Comment x"]
    by (auto simp: after_def line_jumps_append places_append)
  then show ?thesis using scan_comment_line [of x lno] assms(2) unfolding Comment
    by (intro exI [of _ "[]"] exI [of _ "Suc lno"] exI [of _ s]) (simp add: follows_def)
next
  case (Debug loc)
  obtain f ln1 col where loc: "loc = (f, ln1, col)" by (cases loc)
  show ?thesis using after_debug [OF assms(1), of f ln1 col lno] scan_debug [of f ln1 col lno] assms(2)
    unfolding Debug loc by metis
next
  case (Label i)
  then show ?thesis using after_label [OF assms(1), of i lno] scan_label_line [of lno i] assms(2) by fastforce
next
  case (Jump ty i)
  then show ?thesis using after_jump [OF assms(1), of ty i lno] scan_jump [of ty i lno] assms(2) by metis
next
  case (Ins x)
  then obtain code where c: "reads x code" "ins_code x = Some code" using assms(2) reads_code by auto
  obtain ts where ts: "\<And>rest. scan INITIAL lno (render l @ rest) = ts @ scan INITIAL (Suc (lno + newlines x)) rest"
    "simple_code ts = Some code"
    using scan_ins_all [OF c(1), of lno] Ins by blast
  moreover have "line_draft l = code" using c(2) Ins by simp
  ultimately show ?thesis using after_code [OF assms(1), of ts l] Ins by fastforce
next
  case (Text x)
  then have "reads (34 # x @ [34]) (string_code STRING_START_TOKEN x)" using assms(2) reads_string by simp
  then obtain ts where ts: "\<And>rest. scan INITIAL lno (render l @ rest) = ts @ scan INITIAL (Suc (lno + newlines x)) rest"
    "simple_code ts = Some (string_code STRING_START_TOKEN x)"
    using scan_ins_all [of "34 # x @ [34]" _ lno] Text by auto
  then show ?thesis using after_code [OF assms(1), of ts l] Text by fastforce
qed

lemma loop_listing:
  "after pre s \<Longrightarrow> list_all line_good ls \<Longrightarrow> \<exists>s'. asm_loop s (scan INITIAL lno (listing ls)) = Inr s' \<and> after (pre @ ls) s'"
proof (induction ls arbitrary: pre s lno)
  case (Cons l ls)
  then obtain ts lno' s1 where s1: "\<And>rest. scan INITIAL lno (render l @ rest) = ts @ scan INITIAL lno' rest"
    "follows s ts s1" "after (pre @ [l]) s1" using after_line [of pre s l lno] by auto
  then show ?case using Cons.IH [OF s1(3), of lno'] Cons.prems by (simp add: follows_def)
qed simp

section \<open>Rewriting the jumps\<close>

lemma rewrite_link:
  assumes "\<forall>(i, a)\<in>set (line_jumps 0 ls). hash_get hash_string hash_string_cmp st t (label_name i) = Inr (Some (of_nat (pos i)))"
    "length (draft ls) + length post < 2 ^ 64"
    "map (\<lambda>j. (jump_label j, jump_addr j)) js = rev (map (\<lambda>(i, a). (label_name i, of_nat a)) (line_jumps 0 ls))"
  shows "rewrite_jumps (draft ls @ post) js st t = Inr (machine pos 0 ls @ post)"
  using assms
proof (induction ls arbitrary: js post rule: rev_induct)
  case (snoc l ls)
  show ?case
  proof (cases "\<exists>ty i. l = Jump ty i")
    case False
    then have "line_jumps a [l] = []" for a by (cases l) auto
    moreover from False have "machine pos a [l] = line_draft l" for a by (cases l) auto
    ultimately show ?thesis using snoc.IH [of "line_draft l @ post" js] snoc.prems
      by (simp add: line_jumps_append machine_append del: line_jumps.simps(2) machine.simps(2))
  next
    case True
    then obtain ty i where l: "l = Jump ty i" by blast
    let ?a = "length (draft ls) + 1"
    obtain j js' where js: "js = j # js'" "jump_label j = label_name i" "jump_addr j = of_nat ?a"
      "map (\<lambda>j. (jump_label j, jump_addr j)) js' = rev (map (\<lambda>(i, a). (label_name i, of_nat a)) (line_jumps 0 ls))"
      using snoc.prems(3) by (auto simp: l line_jumps_append)
    let ?op = "INT_64 (of_nat (pos i) - of_nat ?a - 8)"
    have lt: "?a < 2 ^ 64" using snoc.prems(2) by (simp add: l)
    have a: "unat (of_nat ?a :: vm_int) = ?a" by (subst unat_of_nat, rule mod_less) (use lt in simp)
    have "write_bytes (draft ls @ ty # INT_64 0 @ post) ?a ?op
        = Inr (take ?a (draft ls @ ty # INT_64 0 @ post) @ ?op @ drop (?a + length ?op) (draft ls @ ty # INT_64 0 @ post))"
      by (rule write_bytes_ok) simp
    then have w: "write_bytes (draft ls @ ty # INT_64 0 @ post) ?a ?op = Inr (draft ls @ ty # ?op @ post)" by simp
    have "hash_get hash_string hash_string_cmp st t (label_name i) = Inr (Some (of_nat (pos i)))"
      using snoc.prems(1) by (simp add: l line_jumps_append)
    then have "rewrite_jumps (draft (ls @ [l]) @ post) js st t = rewrite_jumps (draft ls @ (ty # ?op @ post)) js' st t"
      using w a by (simp add: l js(1-3))
    also have "\<dots> = Inr (machine pos 0 ls @ (ty # ?op @ post))"
      using snoc.IH [of "ty # ?op @ post" js'] snoc.prems(1,2) js(4) by (simp add: l line_jumps_append)
    finally show ?thesis by (simp add: l machine_append)
  qed
qed simp

lemma map_of_rev: "distinct (map fst xs) \<Longrightarrow> map_of (rev xs) = map_of xs"
  by (rule map_of_inject_set [THEN iffD2]) (simp_all add: rev_map [symmetric])

lemma after_start:
  assumes "asm_start True = Inr s"
  shows "after [] s"
proof -
  obtain st t bs where h: "hash_create hash_string hash_string_cmp \<lparr>arrays = (\<lambda>_. None), next_array = 1\<rparr> = Inr (st, t)"
    "table_ok hash_string hash_string_cmp st t bs" "\<forall>j. b_lookup hash_string hash_string_cmp bs j = (None :: nat option)"
    by (rule string_key.hash_create_spec [where st = "\<lparr>arrays = (\<lambda>_. None), next_array = 1\<rparr>"]) auto
  have d: "debug_out s = Some \<lparr>files_store = st, files = t, states = []\<rparr>"
    using assms h(1) by (auto simp: asm_start_def res_simps)
  have "debug_after [] \<lparr>files_store = st, files = t, states = []\<rparr>"
    using h(2,3) by (auto simp: debug_after_def debug_states_def file_names_def)
  then show ?thesis using assms d asm_start_ok [of True] by (auto simp: after_def)
qed

text \<open>The lines of code of a program, assembled with debug information.\<close>

lemma assemble_listing:
  assumes "list_all line_good ls" "0 \<notin> set (listing ls)" "distinct (Emit_Labels.labels ls)"
    "set (Emit_Labels.targets ls) \<subseteq> set (Emit_Labels.labels ls)" "length (draft ls) < 2 ^ 64"
  shows "\<exists>d. asm_string (yyasm_scan (listing ls)) True = Inr (link ls, Some d) \<and> debug_after ls d"
proof -
  obtain s where s: "asm_start True = Inr s" using asm_start_ok by blast
  obtain s' where s': "asm_loop s (scan INITIAL 1 (listing ls)) = Inr s'" "after ls s'"
    using loop_listing [OF after_start [OF s] assms(1), of 1] by auto
  then obtain d bs where ok: "asm_ok s'" "contents (buf s') = draft ls"
    "map (\<lambda>j. (jump_label j, jump_addr j)) (jump_list s') = rev (map (\<lambda>(i, a). (label_name i, of_nat a)) (line_jumps 0 ls))"
    "\<And>i. i < 2 ^ 64 \<Longrightarrow> label_at s' (label_name i) = map_option of_nat (map_of (rev (places 0 ls)) i)"
    "debug_out s' = Some d" "debug_after ls d"
    "table_ok hash_string hash_string_cmp (labels_store s') (Asm.labels s') bs"
    by (auto simp: after_def asm_ok_def)
  have lt: "i < 2 ^ 64" if "i \<in> set (Emit_Labels.labels ls)" for i
    using that assms(1) by (induction ls rule: Emit_Labels.labels.induct) auto
  have "hash_get hash_string hash_string_cmp (labels_store s') (Asm.labels s') (label_name i) = Inr (Some (of_nat (label_pos ls i)))"
    if "i \<in> set (Emit_Labels.targets ls)" for i
  proof -
    have i: "i \<in> set (Emit_Labels.labels ls)" using that assms(4) by blast
    have dist: "distinct (map fst (places 0 ls))" using assms(3) by (simp add: places_labels)
    obtain p where p: "map_of (places 0 ls) i = Some p"
      using i unfolding places_labels [of 0, symmetric] by (metis domD dom_map_of_conv_image_fst list.set_map)
    then have "label_at s' (label_name i) = Some (of_nat (label_pos ls i))"
      using ok(4) [OF lt [OF i]] map_of_rev [OF dist] by (simp add: label_pos_def)
    then show ?thesis using string_key.hash_get_spec [OF ok(7), of "label_name i"]
      by (simp add: label_at_def map_lookup_def)
  qed
  then have "\<forall>(i, a)\<in>set (line_jumps 0 ls).
      hash_get hash_string hash_string_cmp (labels_store s') (Asm.labels s') (label_name i) = Inr (Some (of_nat (label_pos ls i)))"
    unfolding jumps_targets [of 0, symmetric] by fastforce
  from rewrite_link [OF this, of "[]" "jump_list s'"] have "rewrite_jumps (draft ls) (jump_list s') (labels_store s') (Asm.labels s') = Inr (link ls)"
    using assms(5) ok(3) by (simp add: link_def)
  moreover have "buffer_read (buf s') (buffer_size (buf s')) = draft ls"
    using buffer_read_take [OF asm_ok_buf [OF ok(1)], of "buffer_size (buf s')"] ok(2) size_contents [OF asm_ok_buf [OF ok(1)]]
    by (simp add: buffer_size_def)
  moreover have "yyasm_scan (listing ls) = scan INITIAL 1 (listing ls)" using assms(2) by (simp add: yyasm_scan_def)
  ultimately show ?thesis using s s'(1) ok(5,6) by (simp add: asm_string_def)
qed

end
