(* ===== verification/Driver_Text.thy ===== *)
theory Driver_Text
  imports Driver Emit_Asm
begin

text \<open>
  The text that the compiler's program writes: the numbers of the code, the labels of the file names and the
  debug ranges, as lists of bytes.
\<close>

section \<open>The code as numbers\<close>

lemma grows_fputs: "grows_by (fputs s) s"
  using put_bytes_ok by (simp add: grows_by_def fputs_def buffer_write_wrapper_def)

lemma grows_global: "grows_by (writeGlobalSymbol s) (target_global_template (chars s))"
  unfolding writeGlobalSymbol_def by (rule grows_fputs)

fun code_text :: "nat \<Rightarrow> nat \<Rightarrow> u8 list \<Rightarrow> u8 list" where
  "code_text len i [] = []"
| "code_text len i (c # cs) = show_nat (unat c)
     @ (if i + 1 < len then (if i mod 50 = 0 \<and> 0 < i then line_prefix else chars '', '') else []) @ code_text len (i + 1) cs"

lemma write_code_grows: "grows_by (write_code len i cs) (code_text len i cs)"
proof (induction cs arbitrary: i)
  case (Cons c cs)
  have "grows_by (\<lambda>out. if i + 1 < len then (if i mod 50 = 0 \<and> 0 < i then fputs line_prefix out else fputs (chars '', '') out) else Inr out)
      (if i + 1 < len then (if i mod 50 = 0 \<and> 0 < i then line_prefix else chars '', '') else [])"
    using grows_fputs grows_skip by simp
  then show ?case unfolding write_code.simps code_text.simps by (intro grows_seq grows_fputs Cons)
qed (simp add: grows_by_def)

text \<open>A reader of the decimal numbers in a text.\<close>

fun numbers :: "nat option \<Rightarrow> u8 list \<Rightarrow> nat list" where
  "numbers a [] = (case a of None \<Rightarrow> [] | Some n \<Rightarrow> [n])"
| "numbers a (c # cs) =
     (if is_digit c then numbers (Some ((case a of None \<Rightarrow> 0 | Some n \<Rightarrow> n) * 10 + digit_value c)) cs
      else (case a of None \<Rightarrow> [] | Some n \<Rightarrow> [n]) @ numbers None cs)"

lemma numbers_digits:
  "\<forall>c\<in>set ds. is_digit c \<Longrightarrow> numbers (Some n) (ds @ rest) = numbers (Some (digits 10 n ds)) rest"
proof (induction ds arbitrary: n)
  case (Cons d ds)
  then have "digit_value d < 10" by (simp add: is_digit_def)
  with Cons show ?case by (simp add: algebra_simps)
qed simp

lemma numbers_show: "\<not> is_digit c \<Longrightarrow> numbers None (show_nat n @ c # rest) = n # numbers None (c # rest)"
proof -
  assume c: "\<not> is_digit c"
  obtain d ds where d: "show_nat n = d # ds" "is_digit d" "\<forall>c\<in>set ds. is_digit c" "digits 10 0 (d # ds) = n"
    using show_nat_spec [of n] by (cases "show_nat n") auto
  then show ?thesis using numbers_digits [OF d(3), of "digit_value d" "c # rest"] c by (auto simp: is_digit_def)
qed

lemma numbers_skip: "\<forall>c\<in>set s. \<not> is_digit c \<Longrightarrow> numbers None (s @ rest) = numbers None rest"
  by (induction s) auto

lemma separators:
  "\<forall>c\<in>set line_prefix. \<not> is_digit c" "\<forall>c\<in>set (chars '', ''). \<not> is_digit c" "line_prefix = 10 # tl line_prefix"
  "chars '', '' = 44 # [32]"
  by (simp_all add: line_prefix_def newline_def chars_def is_digit_def digit_value_def Let_def)

lemma not_digit: "\<not> is_digit 10" "\<not> is_digit 44"
  by (simp_all add: is_digit_def digit_value_def Let_def)

lemma numbers_code:
  "i + length cs = len \<Longrightarrow> numbers None (code_text len i cs @ 10 # rest) = map unat cs @ numbers None (10 # rest)"
proof (induction cs arbitrary: i)
  case (Cons c cs)
  have r: "numbers None (code_text len (i + 1) cs @ 10 # rest) = map unat cs @ numbers None (10 # rest)"
    using Cons by simp
  show ?case
  proof (cases "i + 1 < len")
    case True
    let ?s = "if i mod 50 = 0 \<and> 0 < i then line_prefix else chars '', ''"
    obtain x y where s: "?s = x # y" "\<forall>c\<in>set (x # y). \<not> is_digit c" using separators by (metis (full_types))
    have "numbers None (code_text len i (c # cs) @ 10 # rest) = unat c # numbers None ((x # y) @ code_text len (i + 1) cs @ 10 # rest)"
      using True s numbers_show [of x "unat c" "y @ code_text len (i + 1) cs @ 10 # rest"] by simp
    then show ?thesis unfolding numbers_skip [OF s(2)] r by simp
  next
    case False
    then have "cs = []" using Cons.prems by (cases cs) simp_all
    then show ?thesis using False numbers_show [OF not_digit(1), of "unat c" rest] by simp
  qed
qed simp

section \<open>Names and labels\<close>

definition position :: "'a list \<Rightarrow> 'a \<Rightarrow> nat" where
  "position ks k = length (takeWhile (\<lambda>x. x \<noteq> k) ks)"

lemma position_simps [simp]: "position [] k = 0" "position (x # ks) k = (if x = k then 0 else Suc (position ks k))"
  by (simp_all add: position_def)

lemma position_lt: "k \<in> set ks \<Longrightarrow> position ks k < length ks \<and> ks ! position ks k = k"
  by (induction ks) auto

lemma position_map: "inj_on f (set ks) \<Longrightarrow> k \<in> set ks \<Longrightarrow> position (map f ks) (f k) = position ks k"
  by (induction ks) (auto simp: inj_on_def)

fun label_lines :: "nat \<Rightarrow> u8 list list \<Rightarrow> u8 list" where
  "label_lines i [] = []"
| "label_lines i (k # ks) = local_label i @ chars '': .asciz '' @ [34] @ c_str k @ [34] @ newline @ label_lines (i + 1) ks"

text \<open>The buckets when the names \<open>ks\<close> have got labels from \<open>i\<close> on.\<close>

definition labelled :: "'k list \<Rightarrow> nat \<Rightarrow> 'k \<Rightarrow> nat \<Rightarrow> nat" where
  "labelled ks i k u = (if k \<in> set ks then i + position ks k + 2 else u)"

abbreviation values_map :: "('k \<Rightarrow> 'v \<Rightarrow> 'v) \<Rightarrow> ('k \<times> 'v) list list \<Rightarrow> ('k \<times> 'v) list list" where
  "values_map F \<equiv> map (map (\<lambda>(k, u). (k, F k u)))"

lemma values_map_keys: "map fst (concat (values_map F bs)) = map fst (concat bs)"
  by (simp add: map_concat comp_def case_prod_unfold)

lemma values_map_twice:
  "k \<notin> set ks \<Longrightarrow> values_map (labelled ks (i + 1)) (values_map (\<lambda>j u. if j = k then i + 2 else u) bs) = values_map (labelled (k # ks) i) bs"
  by (auto simp: labelled_def)

lemma iter_relabel:
  "iter_ok (values_map F bs) it \<longleftrightarrow> iter_ok bs it"
  by (cases "idx it") (auto simp: iter_ok_def)

lemma remaining_relabel:
  "map fst (remaining (values_map F bs) it) = map fst (remaining bs it)"
  using values_map_keys [of F "drop (idx it) bs"] by (simp add: remaining_def drop_map)

lemma hash_next_some:
  assumes "arrays st (table t) = Some bs" "tsize t = length bs" "iter_ok bs (iter_of it)" "remaining bs (iter_of it) = e # es"
  shows "\<exists>it'. hash_next st t it = Inr (it', Some e) \<and> remaining bs it' = es \<and> iter_ok bs it'"
proof -
  have h: "hash_next st t it = next_loop (length bs - idx (iter_of it) + 1) (length bs) bs (iter_of it)"
    using assms(1,2) by (simp add: hash_next_def iter_of_def Let_def del: next_loop.simps)
  have "idx (iter_of it) \<le> length bs" "length bs - idx (iter_of it) < length bs - idx (iter_of it) + 1"
    "entry (iter_of it) = [] \<or> 0 < idx (iter_of it) \<and> bs ! (idx (iter_of it) - 1) \<noteq> []"
    using assms(3) by (auto simp: iter_ok_def)
  from next_loop_some [OF assms(4) this] show ?thesis unfolding h .
qed

lemma label_files_run:
  assumes "arrays st (table t) = Some bs" "tsize t = length bs" "bs \<noteq> []" "iter_ok bs (iter_of it)"
    "map fst (remaining bs (iter_of it)) = ks" "distinct ks" "length ks < n" "buffer_ok out"
  shows "\<exists>st' out'. label_files n t i it st out = Inr (st', out') \<and> buffer_ok out'
      \<and> contents out' = contents out @ label_lines i ks \<and> arrays st' (table t) = Some (values_map (labelled ks i) bs)
      \<and> next_array st' = next_array st"
  using assms
proof (induction ks arbitrary: n i it st bs out)
  case Nil
  then obtain m where n: "n = Suc m" by (cases n) simp_all
  have "remaining bs (iter_of it) = []" using Nil.prems by simp
  from hash_next_end [OF Nil.prems(1-4) this] show ?case
    using Nil.prems by (auto simp: n labelled_def case_prod_unfold)
next
  case (Cons k ks)
  then obtain m where n: "n = Suc m" "length ks < m" by (cases n) simp_all
  obtain u es where r: "remaining bs (iter_of it) = (k, u) # es" "map fst es = ks"
    using Cons.prems(5) by (cases "remaining bs (iter_of it)") auto
  obtain it' where it': "hash_next st t it = Inr (it', Some (k, u))" "remaining bs it' = es" "iter_ok bs it'"
    using hash_next_some [OF Cons.prems(1,2,4) r(1)] by blast
  let ?F = "\<lambda>j u. if j = k then i + 2 else u"
  let ?st = "set_entry st t k (i + 2)" and ?bs = "values_map ?F bs"
  have a: "arrays ?st (table t) = Some ?bs" "next_array ?st = next_array st"
    using Cons.prems(1) by (simp_all add: set_entry_def cong: map_cong if_cong)
  let ?line = "local_label i @ chars '': .asciz '' @ [34] @ c_str k @ [34] @ newline"
  obtain out1 where o: "fputs ?line out = Inr out1" "buffer_ok out1" "contents out1 = contents out @ ?line"
    using grows_fputs [of ?line] Cons.prems(8) unfolding grows_by_def by blast
  have it1: "iter_ok ?bs (iter_of (Some it'))" using it'(3) iter_relabel [of ?F bs it'] by (simp add: iter_of_def)
  have m1: "map fst (remaining ?bs (iter_of (Some it'))) = ks"
    using remaining_relabel [of ?F bs it'] it'(2) r(2) by (simp add: iter_of_def)
  have l: "?bs \<noteq> []" "tsize t = length ?bs" using Cons.prems(2,3) by simp_all
  have d: "k \<notin> set ks" "distinct ks" using Cons.prems(6) by simp_all
  have s: "label_files n t i it st out = label_files m t (i + 1) (Some it') ?st out1"
    using it'(1) o(1) by (simp add: n)
  from Cons.IH [OF a(1) l(2,1) it1 m1 d(2) n(2) o(2), of "i + 1"] show ?case
    unfolding s values_map_twice [OF d(1)] a(2) o(3) by (simp only: label_lines.simps append_assoc)
qed

section \<open>Debug information\<close>

definition names_of :: "(u8 list \<times> nat) list list \<Rightarrow> u8 list list" where
  "names_of bs = map (\<lambda>(k, u). c_str k) (concat bs)"

lemma names_keys: "names_of bs = map c_str (map fst (concat bs))"
  by (simp add: names_of_def case_prod_unfold)

lemma distinct_buckets:
  "\<forall>i<length bs. distinct (map f (bs ! i)) \<and> (\<forall>x\<in>set (bs ! i). g (f x) = a + i) \<Longrightarrow>
     distinct (map f (concat bs)) \<and> (\<forall>x\<in>set (concat bs). a \<le> g (f x))"
proof (induction bs arbitrary: a)
  case (Cons b bs)
  have b: "distinct (map f b)" "\<forall>x\<in>set b. g (f x) = a" using Cons.prems [rule_format, of 0] by simp_all
  have "\<forall>i<length bs. distinct (map f (bs ! i)) \<and> (\<forall>x\<in>set (bs ! i). g (f x) = Suc a + i)"
    using Cons.prems by (metis Suc_less_eq add_Suc_shift length_Cons nth_Cons_Suc)
  from Cons.IH [OF this] have r: "distinct (map f (concat bs))" "\<forall>x\<in>set (concat bs). Suc a \<le> g (f x)" by simp_all
  have "f ` set b \<inter> f ` set (concat bs) = {}" using b(2) r(2) by force
  then show ?case using b r by (fastforce simp: Suc_le_eq)
qed simp

lemma distinct_chain: "chain_ok hash_string_cmp c \<Longrightarrow> distinct (map (\<lambda>(k, u). c_str k) c)"
  unfolding chain_ok_def by (induction c) (auto simp: hash_string_cmp_EQ)

lemma names_distinct:
  assumes "b_inv hash_string hash_string_cmp bs"
  shows "distinct (names_of bs)" "inj_on c_str (set (map fst (concat bs)))" "distinct (map fst (concat bs))"
proof -
  have "\<forall>i<length bs. distinct (map (\<lambda>(k, u). c_str k) (bs ! i))
      \<and> (\<forall>x\<in>set (bs ! i). bucket_of hash_string (length bs) ((\<lambda>(k, u). c_str k) x) = 0 + i)"
    using assms distinct_chain by (fastforce simp: b_inv_def bucket_of_def hash_string_c_str)
  from distinct_buckets [OF this] show d: "distinct (names_of bs)" by (simp add: names_of_def)
  then show "inj_on c_str (set (map fst (concat bs)))" "distinct (map fst (concat bs))"
    unfolding names_keys distinct_map by (simp_all only:)
qed

lemma chain_lookup_map:
  "chain_lookup cmp c j = Some u \<Longrightarrow>
     \<exists>k. (k, u) \<in> set c \<and> cmp j k = EQ \<and> chain_lookup cmp (map (\<lambda>(k, u). (k, F k u)) c) j = Some (F k u)"
  by (induction c) (auto split: if_splits)

lemma values_map_ok: "b_inv calc cmp bs \<Longrightarrow> b_inv calc cmp (values_map F bs)"
  by (auto simp: b_inv_def chain_ok_def comp_def case_prod_unfold)

text \<open>A name found in the table has its label afterwards.\<close>

lemma labelled_lookup:
  assumes bs: "b_inv hash_string hash_string_cmp bs" and f: "b_lookup hash_string hash_string_cmp bs f = Some u"
  shows "b_lookup hash_string hash_string_cmp (values_map (labelled (map fst (concat bs)) 0) bs) f
    = Some (position (names_of bs) (c_str f) + 2)"
proof -
  let ?ks = "map fst (concat bs)" and ?b = "bucket_of hash_string (length bs) f"
  have b: "?b < length bs" using bs by (simp add: b_inv_def bucket_of_def)
  obtain k where k: "(k, u) \<in> set (bs ! ?b)" "hash_string_cmp f k = EQ"
    "chain_lookup hash_string_cmp (map (\<lambda>(k, u). (k, labelled ?ks 0 k u)) (bs ! ?b)) f = Some (labelled ?ks 0 k u)"
    using chain_lookup_map [OF f [unfolded b_lookup_def]] by blast
  have "bs ! ?b \<in> set bs" using b by simp
  then have "k \<in> set ?ks" using k(1) by (auto simp: image_iff intro!: bexI)
  then have "labelled ?ks 0 k u = position (names_of bs) (c_str k) + 2"
    unfolding labelled_def names_keys using position_map [OF names_distinct(2) [OF bs]] by simp
  then show ?thesis using k(2,3) b by (simp add: b_lookup_def hash_string_cmp_EQ)
qed

definition range_text :: "u8 list list \<Rightarrow> debug_state \<Rightarrow> u8 list" where
  "range_text names s = chars ''#--------------------------------'' @ newline
     @ quad (local_label (position names (c_str (ds_file s)))) @ quad (show_int (ds_line s)) @ quad (show_int (ds_column s))
     @ quad (show_int (ds_start s))"

lemma write_range_run:
  assumes "hash_get hash_string hash_string_cmp st t (ds_file s) = Inr (Some (position names (c_str (ds_file s)) + 2))" "buffer_ok out"
  shows "\<exists>l out'. write_range st t s (v, out) = Inr (l, out') \<and> buffer_ok out' \<and> contents out' = contents out @ range_text names s"
proof -
  let ?e = "\<lambda>out. rbind (fputs (chars ''#--------------------------------'' @ newline) out) (\<lambda>out.
     rbind (fputs (quad (local_label (position names (c_str (ds_file s))))) out) (\<lambda>out.
     rbind (fputs (quad (show_int (ds_line s))) out) (\<lambda>out.
     rbind (fputs (quad (show_int (ds_column s))) out) (fputs (quad (show_int (ds_start s)))))))"
  have "grows_by ?e ((chars ''#--------------------------------'' @ newline) @ quad (local_label (position names (c_str (ds_file s))))
      @ quad (show_int (ds_line s)) @ quad (show_int (ds_column s)) @ quad (show_int (ds_start s)))"
    by (intro grows_seq grows_fputs)
  then obtain out' where o: "?e out = Inr out'" "buffer_ok out'" "contents out' = contents out @ range_text names s"
    using assms(2) unfolding grows_by_def range_text_def by force
  have "write_range st t s (v, out) = rbind (?e out) (\<lambda>out. Inr (position names (c_str (ds_file s)) + 2, out))"
    using assms(1) by (simp add: write_range_def pointed_def rbind_assoc)
  then show ?thesis using o by simp
qed

lemma write_ranges_run:
  assumes "\<forall>s\<in>set ss. hash_get hash_string hash_string_cmp st t (ds_file s) = Inr (Some (position names (c_str (ds_file s)) + 2))"
    "buffer_ok out"
  shows "\<exists>l out'. write_ranges st t ss (v, out) = Inr (l, out') \<and> buffer_ok out'
    \<and> contents out' = contents out @ concat (map (range_text names) ss)"
  using assms
proof (induction ss arbitrary: v out)
  case (Cons s ss)
  then obtain l out1 where o: "write_range st t s (v, out) = Inr (l, out1)" "buffer_ok out1" "contents out1 = contents out @ range_text names s"
    using write_range_run [of st t s names out v] by auto
  from Cons.IH [OF _ o(2), of l] Cons.prems(1) show ?case using o(1,3) by auto
qed simp

lemma write_labels_grows: "grows_by (write_labels n) (concat (map (\<lambda>i. quad (local_label i)) (rev [0..<n])))"
proof (induction n)
  case (Suc n)
  then show ?case by (simp add: grows_seq grows_fputs)
qed (simp add: grows_by_def)

definition debug_text :: "u8 list list \<Rightarrow> nat \<Rightarrow> debug_state list \<Rightarrow> u8 list" where
  "debug_text names count ss = label_lines 0 names @ target_global_template (chars ''debug_files'')
     @ concat (map (\<lambda>i. quad (local_label i)) (rev [0..<count])) @ newline
     @ target_global_template (chars ''debug_files_count'') @ quad (show_nat count)
     @ target_global_template (chars ''debug_ranges'') @ concat (map (range_text names) ss) @ newline
     @ target_global_template (chars ''debug_ranges_count'') @ quad (show_nat (length ss))"

text \<open>The table of file names holds the names of all ranges.\<close>

definition debug_ok :: "debug_info \<Rightarrow> (u8 list \<times> nat) list list \<Rightarrow> bool" where
  "debug_ok d bs \<longleftrightarrow> table_ok hash_string hash_string_cmp (files_store d) (files d) bs
     \<and> (\<forall>s\<in>set (states d). b_lookup hash_string hash_string_cmp bs (ds_file s) \<noteq> None)"

lemma label_lines_c_str: "label_lines i (map c_str ks) = label_lines i ks"
  by (induction ks arbitrary: i) simp_all

lemma writeDebugInfo_run:
  assumes d: "debug_ok d bs" and out: "buffer_ok out"
  shows "\<exists>out'. writeDebugInfo d out = Inr out' \<and> buffer_ok out'
      \<and> contents out' = contents out @ debug_text (names_of bs) (entries (files d)) (states d)"
proof -
  let ?t = "files d" and ?st = "files_store d" and ?ks = "map fst (concat bs)" and ?n = "entries (files d)"
  have t: "arrays ?st (table ?t) = Some bs" "tsize ?t = length bs" "bs \<noteq> []" "b_inv hash_string hash_string_cmp bs"
    "length ?ks < Suc (Suc ?n)" "table_ok hash_string hash_string_cmp ?st ?t bs"
    using d by (auto simp: debug_ok_def table_ok_def b_inv_def)
  have it: "iter_ok bs (iter_of None)" "map fst (remaining bs (iter_of None)) = ?ks"
    by (simp_all add: iter_ok_def iter_of_def new_iterator_def remaining_def)
  note run = label_files_run [OF t(1-3) it names_distinct(3) [OF t(4)] t(5) out, of 0]
  let ?bs = "values_map (labelled ?ks 0) bs"
  obtain st' out1 where l: "label_files (Suc (Suc ?n)) ?t 0 None ?st out = Inr (st', out1)" "buffer_ok out1"
    "contents out1 = contents out @ label_lines 0 (names_of bs)" "arrays st' (table ?t) = Some ?bs" "next_array st' = next_array ?st"
    using run unfolding names_keys label_lines_c_str by auto
  have t': "table_ok hash_string hash_string_cmp st' ?t ?bs"
    using t(6) l(4,5) values_map_ok [OF t(4)] arg_cong [OF values_map_keys, of length "labelled ?ks 0" bs]
    by (simp add: table_ok_def)
  have f: "hash_get hash_string hash_string_cmp st' ?t (ds_file s) = Inr (Some (position (names_of bs) (c_str (ds_file s)) + 2))"
    if "s \<in> set (states d)" for s
    using that d labelled_lookup [OF t(4)] string_key.hash_get_spec [OF t'] by (auto simp: debug_ok_def)
  let ?e1 = "\<lambda>out. rbind (writeGlobalSymbol ''debug_files'' out) (\<lambda>out. rbind (write_labels ?n out) (\<lambda>out. rbind (fputs newline out) (\<lambda>out.
    rbind (writeGlobalSymbol ''debug_files_count'' out) (\<lambda>out. rbind (fputs (quad (show_nat ?n)) out) (writeGlobalSymbol ''debug_ranges'')))))"
  let ?e2 = "\<lambda>out. rbind (fputs newline out) (\<lambda>out. rbind (writeGlobalSymbol ''debug_ranges_count'' out)
    (fputs (quad (show_nat (length (states d))))))"
  have g1: "grows_by ?e1 (target_global_template (chars ''debug_files'') @ concat (map (\<lambda>i. quad (local_label i)) (rev [0..<?n]))
    @ newline @ target_global_template (chars ''debug_files_count'') @ quad (show_nat ?n) @ target_global_template (chars ''debug_ranges''))"
    by (intro grows_seq grows_global grows_fputs write_labels_grows)
  have g2: "grows_by ?e2 (newline @ target_global_template (chars ''debug_ranges_count'') @ quad (show_nat (length (states d))))"
    by (intro grows_seq grows_global grows_fputs)
  obtain out2 where o2: "?e1 out1 = Inr out2" "buffer_ok out2" "contents out2 = contents out1 @ target_global_template (chars ''debug_files'')
    @ concat (map (\<lambda>i. quad (local_label i)) (rev [0..<?n])) @ newline @ target_global_template (chars ''debug_files_count'')
    @ quad (show_nat ?n) @ target_global_template (chars ''debug_ranges'')"
    using g1 l(2) unfolding grows_by_def by blast
  obtain v out3 where o3: "write_ranges st' ?t (states d) (0, out2) = Inr (v, out3)" "buffer_ok out3"
    "contents out3 = contents out2 @ concat (map (range_text (names_of bs)) (states d))"
    using write_ranges_run [OF _ o2(2)] f by blast
  obtain out4 where o4: "?e2 out3 = Inr out4" "buffer_ok out4" "contents out4 = contents out3 @ newline
    @ target_global_template (chars ''debug_ranges_count'') @ quad (show_nat (length (states d)))"
    using g2 o3(2) unfolding grows_by_def by blast
  have "writeDebugInfo d out = rbind (?e1 out1) (\<lambda>out. rbind (write_ranges st' ?t (states d) (0, out)) (\<lambda>(_, out). ?e2 out))"
    using l(1) by (simp add: writeDebugInfo_def hash_size_def Let_def rbind_assoc del: label_files.simps)
  then have "writeDebugInfo d out = Inr out4" using o2(1) o3(1) o4(1) by simp
  then show ?thesis using o4(2,3) o3(3) o2(3) l(3) by (simp add: debug_text_def)
qed

end
