(* ===== verification/Emit_Good.thy ===== *)
theory Emit_Good
  imports Emit_Asm
begin

text \<open>
  Programs whose code the assembler accepts: their strings close, their other texts are words, numbers or
  symbols. Every line the code generator writes for such a program is read back as it was meant.
\<close>

section \<open>Texts\<close>

definition good_text :: "u8 list \<Rightarrow> bool" where
  "good_text s \<longleftrightarrow> (\<exists>code. reads s code) \<and> 0 \<notin> set s"

lemma simple_code_append: "simple_code ts = Some c \<Longrightarrow> simple_code us = Some d \<Longrightarrow> simple_code (ts @ us) = Some (c @ d)"
proof (induction ts arbitrary: c rule: simple_code.induct)
  case (2 t ts)
  note p = "2.prems"
  consider (num) "kind t = unat OP_LIT_FIXNUM" | (char) "kind t \<noteq> unat OP_LIT_FIXNUM" "kind t = unat OP_LIT_CHAR"
    | (str) "kind t \<noteq> unat OP_LIT_FIXNUM" "kind t \<noteq> unat OP_LIT_CHAR" "kind t = STRING_START_TOKEN \<or> kind t = SYMBOL_START_TOKEN"
    | (plain) "kind t \<noteq> unat OP_LIT_FIXNUM" "kind t \<noteq> unat OP_LIT_CHAR" "kind t \<noteq> STRING_START_TOKEN \<and> kind t \<noteq> SYMBOL_START_TOKEN" by blast
  then show ?case
  proof cases
    case num
    then obtain x where x: "simple_code ts = Some x" using p(1) by auto
    show ?thesis using "2.IH"(1) [OF num x p(2)] p(1) num x by simp
  next
    case char
    then obtain x where x: "simple_code ts = Some x" using p(1) by auto
    show ?thesis using "2.IH"(2) [OF char x p(2)] p(1) char x by simp
  next
    case str
    show ?thesis
    proof (cases ts)
      case (Cons u vs)
      show ?thesis
      proof (cases "kind u = STRING_END_TOKEN")
        case True
        then obtain x where x: "simple_code vs = Some x" using p(1) str by (auto simp: Cons)
        show ?thesis using "2.IH"(3) [OF str Cons True x p(2)] p(1) str True x by (simp add: Cons)
      next
        case False
        then obtain v ws where v: "vs = v # ws" "kind u = unat OP_LIT_STRING \<and> kind v = STRING_END_TOKEN"
          using p(1) str by (auto simp: Cons split: list.splits if_splits)
        then obtain x where x: "simple_code ws = Some x" using p(1) str False by (auto simp: Cons)
        show ?thesis using "2.IH"(4) [OF str Cons False v x p(2)] p(1) str False v x by (simp add: Cons)
      qed
    qed (use p(1) str in simp)
  next
    case plain
    then have k: "kind t < OP_MAX_INS \<and> kind t \<notin> unat ` set jump_ops" using p(1) by (auto split: if_splits)
    then obtain x where x: "simple_code ts = Some x" using p(1) plain by auto
    have n: "\<not> (kind t = STRING_START_TOKEN \<or> kind t = SYMBOL_START_TOKEN)" using plain by blast
    show ?thesis using "2.IH"(5) [OF plain(1,2) n k x p(2)] p(1) plain k x by simp
  qed
qed simp

lemma plain_words:
  "list_all (\<lambda>(w, sc, k). sc = INITIAL \<longrightarrow> unat k < OP_MAX_INS \<and> unat k \<notin> unat ` set jump_ops \<and> unat k \<noteq> unat OP_LIT_FIXNUM
     \<and> unat k \<noteq> unat OP_LIT_CHAR \<and> unat k \<noteq> STRING_START_TOKEN \<and> unat k \<noteq> SYMBOL_START_TOKEN) (words @ more_words)"
  by (simp add: words_def more_words_def op_codes jump_ops_def token_codes)

lemma word_token:
  assumes "(w, INITIAL, k) \<in> set words \<union> set more_words"
  shows "simple_code [tok (unat k) s lno] = Some [k]"
proof -
  have "(w, INITIAL, k) \<in> set (words @ more_words)" using assms by simp
  then have "unat k < OP_MAX_INS" "unat k \<notin> unat ` set jump_ops" "unat k \<noteq> unat OP_LIT_FIXNUM" "unat k \<noteq> unat OP_LIT_CHAR"
    "unat k \<noteq> STRING_START_TOKEN" "unat k \<noteq> SYMBOL_START_TOKEN"
    using plain_words unfolding list_all_iff by fastforce+
  then show ?thesis by (simp add: tok_def)
qed

lemma words_no_null: "list_all (\<lambda>(w, sc, k). 0 \<notin> set (chars w)) (words @ more_words)"
  by (simp add: words_def more_words_def chars_def)

lemma reads_word:
  assumes "(w, INITIAL, k) \<in> set words \<union> set more_words"
  shows "reads (chars w) [k]" "good_text (chars w)"
proof -
  have "plain_word (chars w)" using assms words_plain by (auto simp: list_all_iff)
  then have "newlines (chars w) = 0" by (auto simp: plain_word_def intro: newlines_none)
  then show r: "reads (chars w) [k]"
    using scan_word [OF assms sep_simps(1)] word_token [OF assms]
    unfolding reads_def by (metis add.right_neutral append_Cons append_Nil)
  have "0 \<notin> set (chars w)" using assms words_no_null by (auto simp: list_all_iff)
  then show "good_text (chars w)" using r by (auto simp: good_text_def)
qed

text \<open>A word that space follows, as the scanner of the compiler leaves operators.\<close>

lemma reads_word_space:
  assumes "(w, INITIAL, k) \<in> set words \<union> set more_words" "list_all is_ws ws"
  shows "reads (chars w @ ws) [k]" "good_text (chars w @ ws)"
proof -
  have "plain_word (chars w)" using assms(1) words_plain by (auto simp: list_all_iff)
  then have n: "newlines (chars w) = 0" by (auto simp: plain_word_def intro: newlines_none)
  show r: "reads (chars w @ ws) [k]"
  proof (cases ws)
    case (Cons x xs)
    have x: "sep x" using assms(2) by (auto simp: Cons sep_def is_ws_def)
    have "scan INITIAL lno ((chars w @ ws) @ 10 # rest) = [tok (unat k) (chars w) lno] @ scan INITIAL (lno + newlines (chars w @ ws)) (10 # rest)"
      for lno rest
      using scan_word [OF assms(1) x, of lno "xs @ 10 # rest"] scan_spaces [OF assms(2), of lno "10 # rest"] n
      by (simp add: Cons del: scan.simps)
    then show ?thesis using word_token [OF assms(1)] unfolding reads_def by blast
  qed (use reads_word [OF assms(1)] in simp)
  have "0 \<notin> set (chars w)" using assms(1) words_no_null by (auto simp: list_all_iff)
  moreover have "0 \<notin> set ws" using assms(2) by (auto simp: list_all_iff is_ws_def)
  ultimately show "good_text (chars w @ ws)" using r by (auto simp: good_text_def)
qed

lemma reads_then:
  assumes "(w, INITIAL, k) \<in> set words \<union> set more_words" "reads s code"
  shows "reads (chars w @ 32 # s) (k # code)"
  unfolding reads_def
proof (intro allI)
  fix lno
  have "plain_word (chars w)" using assms words_plain by (auto simp: list_all_iff)
  then have n: "newlines (chars w) = 0" by (auto simp: plain_word_def intro: newlines_none)
  obtain ts where ts: "\<And>rest. scan INITIAL lno (s @ 10 # rest) = ts @ scan INITIAL (lno + newlines s) (10 # rest)" "simple_code ts = Some code"
    using assms(2) unfolding reads_def by blast
  have "scan INITIAL lno ((chars w @ 32 # s) @ 10 # rest)
      = (tok (unat k) (chars w) lno # ts) @ scan INITIAL (lno + newlines (chars w @ 32 # s)) (10 # rest)" for rest
    using scan_word [OF assms(1) sep_simps(2), of lno "s @ 10 # rest"] ts(1) n by (simp add: scan_space)
  moreover have "simple_code (tok (unat k) (chars w) lno # ts) = Some (k # code)"
    using simple_code_append [OF word_token [OF assms(1)] ts(2)] by simp
  ultimately show "\<exists>ts. (\<forall>rest. scan INITIAL lno ((chars w @ 32 # s) @ 10 # rest)
      = ts @ scan INITIAL (lno + newlines (chars w @ 32 # s)) (10 # rest)) \<and> simple_code ts = Some (k # code)" by blast
qed

lemma reads_number: "reads (show_int i) (OP_LIT_FIXNUM # INT_64 i)" "good_text (show_int i)"
proof -
  have n: "newlines (show_int i) = 0" using show_int_chars(1) not_digit_10(3) by (intro newlines_none) blast
  show r: "reads (show_int i) (OP_LIT_FIXNUM # INT_64 i)"
    unfolding reads_def
  proof
    fix lno
    show "\<exists>ts. (\<forall>rest. scan INITIAL lno (show_int i @ 10 # rest) = ts @ scan INITIAL (lno + newlines (show_int i)) (10 # rest))
        \<and> simple_code ts = Some (OP_LIT_FIXNUM # INT_64 i)"
      by (intro exI [of _ "[tok (unat OP_LIT_FIXNUM) (show_int i) lno]"])
        (simp add: scan_number [OF sep_simps(1)] n, simp add: tok_def strtoq_show_int)
  qed
  show "good_text (show_int i)" using r show_int_chars(1) by (auto simp: good_text_def)
qed

lemma longest_symbol: "longest (rules INITIAL) (115 # 34 # s) = (2, 2, Some (EXPECT_STRING, Some SYMBOL_START_TOKEN))"
proof -
  have z: "\<forall>(q, a)\<in>set (map word_rule vs). fst (q (115 # 34 # s)) = 0" if vs: "set vs \<subseteq> set (words @ more_words)" for vs
  proof -
    have one: "list_all (\<lambda>(w, sc, k). chars w \<noteq> [115]) (words @ more_words)"
      by (simp add: words_def more_words_def chars_def)
    have "fst (lit (chars w) (115 # 34 # s)) = 0" if "(w, sc, k) \<in> set vs" for w sc k
    proof -
      have "plain_word (chars w)" "chars w \<noteq> [115]" using vs that words_plain one by (auto simp: list_all_iff)
      then show ?thesis by (cases "chars w" rule: remdups_adj.cases) (auto simp: plain_word_def lit_def whole_def)
    qed
    then show ?thesis by (auto simp: word_rule_def)
  qed
  let ?h = "[(one is_ws, INITIAL, None), (comment, INITIAL, None), (number, INITIAL, Some (unat OP_LIT_FIXNUM))] :: rule list"
  let ?f = "[(lit (chars ''.file''), INITIAL, Some DIRECTIVE_FILE)] :: rule list"
  let ?e = "[(label_mark, EXPECT_LABEL, Some LABEL_TOKEN), (lit [35, 92], EXPECT_CHAR, None),
        (lit [115, 34], EXPECT_STRING, Some SYMBOL_START_TOKEN), (lit [83, 34], EXPECT_STRING, Some SYMBOL_START_TOKEN),
        (lit [92], INITIAL, None), (lit [34], EXPECT_STRING, Some STRING_START_TOKEN)] :: rule list"
  have "longest (?f @ map word_rule more_words @ ?e) (115 # 34 # s) = longest (?f @ ?e) (115 # 34 # s)"
    by (intro longest_cong longest_skip z) simp
  then have "longest (map word_rule words @ ?f @ map word_rule more_words @ ?e) (115 # 34 # s) = longest (?f @ ?e) (115 # 34 # s)"
    using longest_skip [OF z [of words], of "?f @ map word_rule more_words @ ?e"] by simp
  from longest_cong [OF this, of ?h] have "longest (rules INITIAL) (115 # 34 # s) = longest (?h @ ?f @ ?e) (115 # 34 # s)"
    by (simp add: rules.simps)
  also have "\<dots> = (2, 2, Some (EXPECT_STRING, Some SYMBOL_START_TOKEN))"
    by (simp add: longest.simps one_def is_ws_def comment_def number_def lit_def whole_def label_mark_def chars_def
        Let_def digit_def between_def ident_def alnum_def)
  finally show ?thesis .
qed

lemma reads_symbol:
  assumes "quotable s"
  shows "reads (115 # 34 # s @ [34]) (string_code SYMBOL_START_TOKEN s)"
  unfolding reads_def
proof
  fix lno
  let ?ts = "tok SYMBOL_START_TOKEN [115, 34] lno # (if s = [] then [] else [tok (unat OP_LIT_STRING) s (lno + newlines s)])
      @ [tok STRING_END_TOKEN [34] (lno + newlines s)]"
  have "scan INITIAL lno ((115 # 34 # s @ [34]) @ 10 # rest) = ?ts @ scan INITIAL (lno + newlines (115 # 34 # s @ [34])) (10 # rest)" for rest
    using scan_match [of INITIAL "[115, 34]" "s @ 34 # 10 # rest" 2 EXPECT_STRING "Some SYMBOL_START_TOKEN" lno]
      longest_symbol [of "s @ 34 # 10 # rest"] scan_string_body [OF assms, of lno "10 # rest"] by simp
  then show "\<exists>ts. (\<forall>rest. scan INITIAL lno ((115 # 34 # s @ [34]) @ 10 # rest) = ts @ scan INITIAL (lno + newlines (115 # 34 # s @ [34])) (10 # rest))
      \<and> simple_code ts = Some (string_code SYMBOL_START_TOKEN s)"
    by (intro exI [of _ ?ts] conjI allI) (simp_all add: tok_def token_codes op_codes)
qed

section \<open>Programs\<close>

definition good_loc :: "loc \<Rightarrow> bool" where
  "good_loc = (\<lambda>(f, lno, col). f \<noteq> [] \<and> 34 \<notin> set f \<and> 0 \<notin> set f \<and> quotable f)"

text \<open>A node, an item of quoted data, and an item of an \<open>asm\<close> form.\<close>

fun good_datum :: "ast \<Rightarrow> bool" where
  "good_datum (Quote l ts) = (\<forall>t\<in>set ts. good_datum t)"
| "good_datum (Lit l s) = good_text s"
| "good_datum (Sym l s) = good_text s"
| "good_datum (Str l s) = (quotable s \<and> 0 \<notin> set s)"
| "good_datum t = True"

lemma ast_in_list: "t \<in> set ts \<Longrightarrow> size (t :: ast) \<le> size_list size ts"
  by (induction ts) auto

lemma clause_in_list:
  "(us, ts) \<in> set cs \<Longrightarrow> size_list size us + size_list size (ts :: ast list)
     < size_list (size_prod (size_list size) (size_list size)) (cs :: (ast list \<times> ast list) list)"
  by (induction cs) auto

function good_node :: "ast \<Rightarrow> bool" and good_raw :: "ast \<Rightarrow> bool" where
  "good_node (Lit l s) = (good_loc l \<and> good_text s)"
| "good_node (Sym l s) = (good_loc l \<and> good_text s)"
| "good_node (Op l s) = (good_loc l \<and> good_text s)"
| "good_node (Str l s) = (good_loc l \<and> quotable s \<and> 0 \<notin> set s)"
| "good_node (Quote l ts) = (good_loc l \<and> (\<forall>t\<in>set ts. good_datum t))"
| "good_node (Load l ts) = (good_loc l \<and> (\<forall>t\<in>set ts. good_node t))"
| "good_node (Asm l ts) = (good_loc l \<and> (\<forall>t\<in>set ts. good_raw t))"
| "good_node (Asm_Stream l ts) = good_loc l"
| "good_node (Bind l us ts) = (good_loc l \<and> (\<forall>t\<in>set us \<union> set ts. good_node t))"
| "good_node (Store l us ts) = (good_loc l \<and> (\<forall>t\<in>set us \<union> set ts. good_node t))"
| "good_node (Let_Star l us ts) = (good_loc l \<and> (\<forall>t\<in>set us \<union> set ts. good_node t))"
| "good_node (If l ts us vs) = (good_loc l \<and> (\<forall>t\<in>set ts \<union> set us \<union> set vs. good_node t))"
| "good_node (Cond l cs) = (good_loc l \<and> (\<forall>(us, ts)\<in>set cs. \<forall>t\<in>set us \<union> set ts. good_node t))"
| "good_node (Math l s us ts) = (good_loc l \<and> good_text s \<and> (\<forall>t\<in>set us \<union> set ts. good_node t))"
| "good_node (Record_Type l ts) = (good_loc l \<and> (\<forall>t\<in>set ts. good_datum t))"
| "good_node (And l ts) = (good_loc l \<and> (\<forall>t\<in>set ts. good_node t))"
| "good_node (Or l ts) = (good_loc l \<and> (\<forall>t\<in>set ts. good_node t))"
| "good_node (Lambda l us ts) = (good_loc l \<and> (\<forall>t\<in>set us. good_datum t) \<and> (\<forall>t\<in>set ts. good_node t))"
| "good_node (Call l us ts) = (good_loc l \<and> (\<forall>t\<in>set us \<union> set ts. good_node t))"
| "good_raw t = (case t of Asm_Stream l us \<Rightarrow> \<forall>u\<in>set us. good_node u | _ \<Rightarrow> good_text (lit_text t))"
  by pat_completeness auto
termination
  by (relation "measure (\<lambda>x. case x of Inl t \<Rightarrow> 2 * size t | Inr t \<Rightarrow> 2 * size t + 1)")
    (auto dest!: ast_in_list clause_in_list)

declare good_raw.simps [simp del]

section \<open>Every line is good\<close>

text \<open>A line but for the numbers of its labels.\<close>

fun line_plain :: "line \<Rightarrow> bool" where
  "line_plain (Label i) = True"
| "line_plain (Jump ty i) = (ty \<in> {OP_CALL, OP_PROC, OP_JMP, OP_JNF})"
| "line_plain (Ins s) = good_text s"
| "line_plain (Text s) = (quotable s \<and> 0 \<notin> set s)"
| "line_plain (Comment s) = (10 \<notin> set (chars s) \<and> 0 \<notin> set (chars s))"
| "line_plain l = line_good l"

definition plain :: "gen \<Rightarrow> bool" where
  "plain g \<longleftrightarrow> (\<forall>i. list_all line_plain (fst (g i)))"

lemma plain_stop: "plain stop"
  by (simp add: plain_def stop_def)

lemma plain_put: "line_plain l \<Longrightarrow> plain g \<Longrightarrow> plain (put l g)"
  by (simp add: plain_def put_def)

lemma plain_puts: "list_all line_plain ls \<Longrightarrow> plain g \<Longrightarrow> plain (puts ls g)"
  by (induction ls) (auto intro: plain_put)

lemma plain_run: "plain g \<Longrightarrow> plain h \<Longrightarrow> plain (run g h)"
  by (simp add: plain_def run_def)

lemma plain_fresh: "(\<And>d. plain (g d)) \<Longrightarrow> plain (fresh g)"
  by (simp add: plain_def fresh_def)

lemma plain_if: "(P \<Longrightarrow> plain g) \<Longrightarrow> (\<not> P \<Longrightarrow> plain h) \<Longrightarrow> plain (if P then g else h)"
  by simp

lemmas plain_rules = plain_stop plain_run plain_fresh plain_puts plain_put plain_if

text \<open>The words of the code generator, as it writes them.\<close>

lemma generated_words:
  "good_text (chars ''@'')" "good_text (chars ''!'')" "good_text (chars ''bind'')" "good_text (chars ''()'')" "good_text (chars ''#t'')"
  "good_text (chars ''#f'')" "good_text (chars ''swap'')" "good_text (chars ''drop'')" "good_text (chars ''dup'')"
  "good_text (chars ''car'')" "good_text (chars ''cdr'')" "good_text (chars ''cons'')" "good_text (chars ''not'')"
  "good_text (chars ''null?'')" "good_text (chars ''call_in'')" "good_text (chars ''tail_call_in'')"
proof -
  have "list_all (\<lambda>v. \<exists>k. (v, INITIAL, k) \<in> set words \<union> set more_words)
    [''@'', ''!'', ''bind'', ''()'', ''#t'', ''#f'', ''swap'', ''drop'', ''dup'', ''car'', ''cdr'', ''cons'', ''not'',
     ''null?'', ''call_in'', ''tail_call_in'']" (is "list_all ?P ?vs")
    by (simp add: words_def more_words_def)
  then have "list_all (\<lambda>v. good_text (chars v)) ?vs" by (rule list.pred_mono_strong) (use reads_word(2) in blast)
  then show "good_text (chars ''@'')" "good_text (chars ''!'')" "good_text (chars ''bind'')" "good_text (chars ''()'')" "good_text (chars ''#t'')"
    "good_text (chars ''#f'')" "good_text (chars ''swap'')" "good_text (chars ''drop'')" "good_text (chars ''dup'')"
    "good_text (chars ''car'')" "good_text (chars ''cdr'')" "good_text (chars ''cons'')" "good_text (chars ''not'')"
    "good_text (chars ''null?'')" "good_text (chars ''call_in'')" "good_text (chars ''tail_call_in'')"
    by simp_all
qed

lemma generated_pairs: "good_text (chars ''swap ret'')" "good_text (chars ''swap drop'')"
proof -
  have w: "(''swap'', INITIAL, OP_SWAP) \<in> set words \<union> set more_words" "(''ret'', INITIAL, OP_RET) \<in> set words \<union> set more_words"
    "(''drop'', INITIAL, OP_DROP) \<in> set words \<union> set more_words"
    by (simp_all add: words_def more_words_def)
  have c: "chars ''swap ret'' = chars ''swap'' @ 32 # chars ''ret''" "chars ''swap drop'' = chars ''swap'' @ 32 # chars ''drop''"
    "0 \<notin> set (chars ''swap ret'')" "0 \<notin> set (chars ''swap drop'')" by (simp_all add: chars_def)
  show "good_text (chars ''swap ret'')" "good_text (chars ''swap drop'')"
    using reads_then [OF w(1) reads_word(1) [OF w(2)]] reads_then [OF w(1) reads_word(1) [OF w(3)]] c
    by (auto simp: good_text_def)
qed

lemma factory_good: "good_text record_type_factory"
proof -
  have "quotable (chars ''record-type-factory'')" by (simp add: quotable_def chars_def)
  from reads_symbol [OF this] show ?thesis
    by (auto simp: good_text_def record_type_factory_def) (auto simp: chars_def)
qed

lemmas generated = generated_words generated_pairs factory_good

lemma comments_plain:
  "list_all (\<lambda>s. line_plain (Comment s))
     [''--Quoted Start--'', ''--Quoted End--'', ''--Raw ASM Start--'', ''--Raw ASM End--'', ''--If Start--'', ''--If true--'',
      ''--If Done--'', ''--If End--'', ''--Cond Start--'', ''--Cond Fall-Through--'', ''--Cond End--'',
      ''--Bool Operator Start--'', ''--Bool Operator End--'', ''-- Formals --'', ''----'', ''-- Body --'', ''--Call Start--'',
      ''--Call End--'', ''-- Let* --'', ''-- Binding List--'', ''-- Binding List End--'', ''-- Let* Body--'',
      ''-- Let* Body End--'', ''-- Let* End --'', ''--Record Start--'', ''--Record Binding--'', ''--Record End--'',
      ''----Escape ASM Start----'', ''----Escape ASM End----'', ''----Cond Clause----'']"
  by (simp add: chars_def)

lemmas plain_facts = comments_plain [unfolded list.pred_inject line_plain.simps line_good.simps] generated

lemma quoted_plain:
  "\<forall>t\<in>set ts. good_datum t \<Longrightarrow> list_all line_plain (quoted_code ts)"
  "\<forall>t\<in>set ts. good_datum t \<Longrightarrow> list_all line_plain (quoted_items b ts)"
  "good_datum t \<Longrightarrow> list_all line_plain (quoted_item t)"
  by (induction ts and b ts and t rule: quoted_code_quoted_items_quoted_item.induct) (auto simp: plain_facts)

lemma formals_plain: "\<forall>t\<in>set ts. good_datum t \<Longrightarrow> list_all line_plain (fst (formals_code ts b))"
proof (induction ts b rule: formals_code.induct)
  case (2 l s ts b)
  have "list_all line_plain (case ts of Sym _ _ # _ \<Rightarrow> [Ins (chars ''cdr'')] | _ \<Rightarrow> [])"
    by (cases ts; cases "hd ts"; simp add: generated)
  then show ?case using 2 by (simp add: Let_def case_prod_beta plain_facts)
qed simp_all

lemma code_plain:
  "good_node t \<Longrightarrow> plain (node_code tail t)" "good_node t \<Longrightarrow> plain (kind_code tail t)"
  "\<forall>t\<in>set ts. good_node t \<Longrightarrow> plain (nodes_code tail ts)" "\<forall>t\<in>set ts. good_node t \<Longrightarrow> plain (stream_code tail ts)"
  "\<forall>t\<in>set ts. good_node t \<Longrightarrow> plain (args_code ts)" "\<forall>t\<in>set ts. good_node t \<Longrightarrow> plain (bool_code ao d ts)"
  "\<forall>t\<in>set ts. good_raw t \<Longrightarrow> plain (raw_code ts)"
  "\<forall>(us, ts)\<in>set cs. \<forall>t\<in>set us \<union> set ts. good_node t \<Longrightarrow> plain (clauses_code tail d cs)"
proof (induction tail t and tail t and tail ts and tail ts and ts and ao d ts and ts and tail d cs
    rule: node_code_kind_code_nodes_code_stream_code_args_code_bool_code_raw_code_clauses_code.induct)
  case (1 tail t)
  have "line_good (Debug (loc_of t))" using "1.prems" by (cases t) (auto simp: good_loc_def)
  then show ?case using 1 by (simp add: code_simps plain_put)
next
  case (6 tail l ts)
  then show ?case unfolding kind_code.simps by (intro plain_rules) (simp_all add: quoted_plain del: quoted_code.simps)
next
  case (20 tail l ts)
  then show ?case unfolding kind_code.simps
    by (intro plain_rules) (simp_all add: quoted_plain plain_facts del: quoted_code.simps)
next
  case (17 tail l us ts)
  then show ?case unfolding kind_code.simps
    by (intro plain_rules) (simp_all add: formals_plain plain_facts)
next
  case (29 t ts)
  show ?case
  proof (cases t)
    case (Asm_Stream l us)
    show ?thesis unfolding raw_code.simps Asm_Stream ast.case using 29 Asm_Stream
      by (intro plain_rules) (simp_all add: good_raw.simps plain_facts)
  qed (use 29 in \<open>simp_all add: raw_code.simps plain_put good_raw.simps\<close>)
next
  case (7 tail l ts)
  show ?case unfolding kind_code.simps
    by (rule "7.IH" plain_rules | (use "7.prems" in \<open>auto simp: plain_facts\<close>; fail))+
next
  case (8 tail l ts)
  show ?case unfolding kind_code.simps
    by (rule "8.IH" plain_rules | (use "8.prems" in \<open>auto simp: plain_facts\<close>; fail))+
next
  case (10 tail l us ts)
  show ?case unfolding kind_code.simps
    by (rule "10.IH" plain_rules | (use "10.prems" in \<open>auto simp: plain_facts\<close>; fail))+
next
  case (11 tail l us ts)
  show ?case unfolding kind_code.simps
    by (rule "11.IH" plain_rules | (use "11.prems" in \<open>auto simp: plain_facts\<close>; fail))+
next
  case (12 tail l s us ts)
  show ?case unfolding kind_code.simps
    by (rule "12.IH" plain_rules | (use "12.prems" in \<open>auto simp: plain_facts\<close>; fail))+
next
  case (13 tail l ts us vs)
  show ?case unfolding kind_code.simps
    by (rule "13.IH" plain_rules | (use "13.prems" in \<open>auto simp: plain_facts\<close>; fail))+
next
  case (14 tail l cs)
  show ?case unfolding kind_code.simps
    by (rule "14.IH" plain_rules | (use "14.prems" in \<open>auto simp: plain_facts\<close>; fail))+
next
  case (15 tail l ts)
  show ?case unfolding kind_code.simps
    by (rule "15.IH" plain_rules | (use "15.prems" in \<open>auto simp: plain_facts\<close>; fail))+
next
  case (16 tail l ts)
  show ?case unfolding kind_code.simps
    by (rule "16.IH" plain_rules | (use "16.prems" in \<open>auto simp: plain_facts\<close>; fail))+
next
  case (18 tail l us ts)
  show ?case unfolding kind_code.simps
    by (rule "18.IH" plain_rules | (use "18.prems" in \<open>auto simp: plain_facts\<close>; fail))+
next
  case (19 tail l us ts)
  show ?case unfolding kind_code.simps
    by (rule "19.IH" plain_rules | (use "19.prems" in \<open>auto simp: plain_facts\<close>; fail))+
next
  case (22 tail t ts)
  show ?case unfolding nodes_code.simps
    by (rule "22.IH" plain_rules | (use "22.prems" in \<open>auto simp: plain_facts\<close>; fail))+
next
  case (23 tail ts)
  show ?case unfolding stream_code.simps
    by (rule "23.IH" plain_rules | (use "23.prems" in \<open>auto simp: plain_facts\<close>; fail))+
next
  case (25 t ts)
  show ?case unfolding args_code.simps
    by (rule "25.IH" plain_rules | (use "25.prems" in \<open>auto simp: plain_facts\<close>; fail))+
next
  case (27 ao d t ts)
  show ?case unfolding bool_code.simps
    by (rule "27.IH" plain_rules | (use "27.prems" in \<open>auto simp: plain_facts\<close>; fail))+
next
  case (31 tail d us ts cs)
  show ?case unfolding clauses_code.simps
    by (rule "31.IH" plain_rules | (use "31.prems" in \<open>auto simp: plain_facts\<close>; fail))+
qed (simp_all add: code_simps plain_stop plain_put)

section \<open>Programs assemble\<close>

lemma plain_good:
  "list_all line_plain ls \<Longrightarrow> \<forall>i\<in>set (Emit_Labels.labels ls) \<union> set (Emit_Labels.targets ls). i < 2 ^ 64 \<Longrightarrow> list_all line_good ls"
proof (induction ls)
  case (Cons l ls)
  have "\<forall>i\<in>set (Emit_Labels.labels ls) \<union> set (Emit_Labels.targets ls). i < 2 ^ 64" using Cons.prems(2) by (cases l) auto
  moreover have "line_good l" using Cons.prems by (cases l) (auto simp: good_text_def)
  ultimately show ?case using Cons by simp
qed simp

lemma plain_null: "list_all line_plain ls \<Longrightarrow> 0 \<notin> set (listing ls)"
proof (induction ls)
  case (Cons l ls)
  have n: "0 \<notin> set (show_int i)" for i using show_int_chars(1) by blast
  have "0 \<notin> set (render l)"
  proof (cases l)
    case (Comment s)
    then show ?thesis using Cons.prems by simp (simp add: chars_def)
  next
    case (Debug d)
    obtain f lno col where d: "d = (f, lno, col)" by (cases d)
    show ?thesis using Cons.prems n by (simp add: Debug d) (simp add: chars_def)
  next
    case (Label i)
    then show ?thesis using label_name_null by simp
  next
    case (Jump ty i)
    then obtain w where w: "op_name ty = chars w" "(w, EXPECT_TARGET, ty) \<in> set words" using Cons.prems jump_word by auto
    then have "0 \<notin> set (chars w)" using words_no_null by (auto simp: list_all_iff)
    then show ?thesis using label_name_null by (simp add: Jump w(1)) (simp add: chars_def)
  next
    case (Ins s)
    then show ?thesis using Cons.prems by (simp add: good_text_def) (simp add: chars_def)
  next
    case (Text s)
    then show ?thesis using Cons.prems by simp (simp add: chars_def)
  qed
  then show ?case using Cons by simp
qed simp

lemma code_assembles:
  assumes "\<forall>t\<in>set ts. good_node t" "ls = fst (stream_code tail ts i)" "snd (stream_code tail ts i) \<le> 2 ^ 64"
    "length (draft ls) < 2 ^ 64"
  shows "\<exists>d. asm_string (yyasm_scan (listing ls)) True = Inr (link ls, Some d) \<and> debug_after ls d"
proof -
  have p: "list_all line_plain ls" using code_plain(4) [OF assms(1)] by (simp add: plain_def assms(2))
  have "resolves {} {} (stream_code tail ts)" by (rule code_resolves(4))
  then have r: "distinct (Emit_Labels.labels ls)" "set (Emit_Labels.labels ls) \<subseteq> {i..<snd (stream_code tail ts i)}"
    "set (Emit_Labels.targets ls) \<subseteq> set (Emit_Labels.labels ls)"
    by (auto simp: resolves_def assms(2))
  have "list_all line_good ls" using plain_good [OF p] r(2,3) assms(3) by fastforce
  from assemble_listing [OF this plain_null [OF p] r(1,3) assms(4)] show ?thesis .
qed

end
