(* ===== verification/Program_Run.thy ===== *)
theory Program_Run
  imports Emit_Good Runtime
begin

text \<open>
  What compiled expressions do on the machine. Expressions are numbers, booleans, arithmetic, comparisons,
  \<open>if\<close>, \<open>cond\<close>, \<open>and\<close>, \<open>or\<close> and sequences; \<open>eval_node\<close> is their value. Their linked code, started on any
  machine, goes from its first byte to the byte after its last and leaves the value on the stack.
\<close>

section \<open>Values of expressions\<close>

definition literal_value :: "u8 list \<Rightarrow> val option" where
  "literal_value s =
     (if s = chars ''#t'' then Some (Bool_Val True)
      else if s = chars ''#f'' then Some (Bool_Val False)
      else if s = show_int (strtoq s) then Some (Int_Val (strtoq s)) else None)"

text \<open>The operators by their words. In a program a space follows them: it is part of the token.\<close>

definition operators :: "(string \<times> pure_ins) list" where
  "operators = [(''+'', Arith OP_ADD), (''-'', Arith OP_SUB), (''*'', Arith OP_MUL), (''/'', Arith OP_DIV),
     (''%'', Arith OP_MOD), (''='', Compare OP_NUMERIC_EQUAL), (''<'', Compare OP_NUMERIC_LT), (''>'', Compare OP_NUMERIC_GT)]"

definition operator_word :: "u8 list \<Rightarrow> u8 list" where
  "operator_word s = (if list_all is_ws (dropWhile (\<lambda>c. \<not> is_ws c) s) then takeWhile (\<lambda>c. \<not> is_ws c) s else s)"

definition operate :: "u8 list \<Rightarrow> val \<Rightarrow> val \<Rightarrow> val option" where
  "operate s a b =
     (case map_of (map (\<lambda>(w, p). (chars w, p)) operators) (operator_word s) of
        None \<Rightarrow> None
      | Some p \<Rightarrow> (case pure_step p [b, a] of Some [v] \<Rightarrow> Some v | _ \<Rightarrow> None))"

text \<open>No value: an error, or a form that is not one of these.\<close>

function (sequential) eval_node :: "ast \<Rightarrow> val option"
and eval_seq :: "ast list \<Rightarrow> val option"
and eval_bool :: "bool \<Rightarrow> ast list \<Rightarrow> val option"
and eval_clauses :: "(ast list \<times> ast list) list \<Rightarrow> val option"
where
  "eval_node (Lit l s) = literal_value s"
| "eval_node (Math l s us ts) =
     Option.bind (eval_seq us) (\<lambda>a. Option.bind (eval_seq ts) (\<lambda>b. operate s a b))"
| "eval_node (If l ts us vs) =
     Option.bind (eval_seq ts) (\<lambda>v. if v = Bool_Val False then eval_seq vs else eval_seq us)"
| "eval_node (And l ts) = (if ts = [] then Some (Bool_Val True) else eval_bool True ts)"
| "eval_node (Or l ts) = (if ts = [] then Some (Bool_Val False) else eval_bool False ts)"
| "eval_node (Cond l cs) = eval_clauses cs"
| "eval_node t = None"
| "eval_seq [] = None"
| "eval_seq (t # ts) = Option.bind (eval_node t) (\<lambda>v. if ts = [] then Some v else eval_seq ts)"
| "eval_bool and_or [] = None"
| "eval_bool and_or (t # ts) =
     Option.bind (eval_node t) (\<lambda>v. if ts = [] then Some v
       else if (v = Bool_Val False) = and_or then Some v else eval_bool and_or ts)"
| "eval_clauses [] = None"
| "eval_clauses ((us, ts) # cs) =
     Option.bind (eval_seq us) (\<lambda>v. if v = Bool_Val False then eval_clauses cs else eval_seq ts)"
  by pat_completeness auto
termination
  by (relation "measure (\<lambda>x. case x of
      Inl (Inl t) \<Rightarrow> size t
    | Inl (Inr ts) \<Rightarrow> size_list size ts
    | Inr (Inl (ao, ts)) \<Rightarrow> size_list size ts
    | Inr (Inr cs) \<Rightarrow> size_list (size_prod (size_list size) (size_list size)) cs)") auto

section \<open>Pieces of code\<close>

text \<open>From byte \<open>i\<close> with the stack \<open>vs\<close>, \<open>n\<close> instructions lead to byte \<open>j\<close> and the stack \<open>vs'\<close>.\<close>

definition goes :: "'w externs \<Rightarrow> nat \<Rightarrow> u8 list \<Rightarrow> nat \<Rightarrow> val list \<Rightarrow> nat \<Rightarrow> val list \<Rightarrow> bool" where
  "goes x n code i vs j vs' \<longleftrightarrow> (\<forall>vm. has_stack vm vs \<and> at_code vm code i \<longrightarrow>
     (\<exists>vm'. has_stack vm' vs' \<and> at_code vm' code j \<and> same_world vm vm' \<and> (\<forall>m. eval_loop (n + m) x vm = eval_loop m x vm')))"

lemma goes_refl: "goes x 0 code i vs i vs"
  by (auto simp: goes_def same_world_def)

lemma goes_trans: "goes x n code i vs j us \<Longrightarrow> goes x m code j us k ws \<Longrightarrow> goes x (n + m) code i vs k ws"
  unfolding goes_def using same_world_trans by (metis add.assoc)

lemma goes_step:
  assumes "\<And>vm. has_stack vm vs \<Longrightarrow> at_code vm code i \<Longrightarrow> \<exists>vm'. running vm = Inr True \<and> vm_step x vm = Inr vm'
    \<and> has_stack vm' vs' \<and> at_code vm' code j \<and> same_world vm vm'"
  shows "goes x 1 code i vs j vs'"
  unfolding goes_def
proof (intro allI impI, elim conjE)
  fix vm :: "'a vm"
  assume "has_stack vm vs" "at_code vm code i"
  from assms [OF this] obtain vm' where v: "running vm = Inr True" "vm_step x vm = Inr vm'" "has_stack vm' vs'"
    "at_code vm' code j" "same_world vm vm'" by blast
  then have "eval_loop (1 + m) x vm = eval_loop m x vm'" for m by simp
  then show "\<exists>vm'. has_stack vm' vs' \<and> at_code vm' code j \<and> same_world vm vm' \<and> (\<forall>m. eval_loop (1 + m) x vm = eval_loop m x vm')"
    using v(3-5) by blast
qed

lemma goes_pure:
  assumes "pure_step p vs = Some vs'" "take (length (pure_code p)) (drop i code) = pure_code p"
  shows "goes x 1 code i vs (i + length (pure_code p)) vs'"
  using pure_step_run [OF _ assms(1) _ assms(2)] by (intro goes_step) blast

lemma setup_jumps: "setup_instructions x OP_JMP = Some op_jmp" "setup_instructions x OP_JNF = Some op_jnf"
  by (simp_all add: setup_instructions_def instructions_def op_codes)

lemma goes_jmp:
  assumes "i < length code" "code ! i = OP_JMP" "leads code (i + 1) l"
  shows "goes x 1 code i vs l vs"
proof (rule goes_step)
  fix vm :: "'a vm"
  assume h: "has_stack vm vs" and a: "at_code vm code i"
  obtain n where n: "op_jmp (advance vm 1) = Inr (advance (advance vm 1) n)" "at_code (advance (advance vm 1) n) code l"
    using op_jmp_run [OF _ assms(3)] at_advance [OF a, of 1] by fastforce
  have "running vm = Inr True" using running_at [OF a] assms(1) by simp
  moreover have "vm_step x vm = Inr (advance (advance vm 1) n)"
    using vm_step_at [OF a assms(1), of x op_jmp] assms(2) n(1) by (simp add: setup_jumps)
  moreover have "same_world vm (advance (advance vm 1) n)" by (simp add: same_world_def advance_def)
  ultimately show "\<exists>vm'. running vm = Inr True \<and> vm_step x vm = Inr vm' \<and> has_stack vm' vs \<and> at_code vm' code l \<and> same_world vm vm'"
    using n(2) has_stack_advance [OF has_stack_advance [OF h]] by blast
qed

lemma op_jnf_stack:
  assumes "at_code vm code i" "leads code i l" "has_stack vm (v # vs)"
  shows "\<exists>vm'. op_jnf vm = Inr vm' \<and> has_stack vm' vs \<and> at_code vm' code (if v = Bool_Val False then i + 8 else l)
    \<and> same_world vm vm'"
proof -
  obtain a xs where g: "good vm vm (a # xs)" "holds vm a v" "list_all2 (holds vm) xs vs"
    using assms(3) by (auto simp: has_stack_def list_all2_Cons2)
  obtain t where t: "parse_int vm = Inr (advance vm 8, t)" "of_nat (i + 8) + t = (of_nat l :: u64)" "at_code (advance vm 8) code (i + 8)"
    by (rule parse_operand [OF assms(1,2)])
  have "gives (\<lambda>(u, b). b = a \<and> good (advance vm 8) u xs) (vm_pop (advance vm 8))"
    by (rule good_pop [OF good_advance [OF g(1)]]) simp
  then obtain u where u: "vm_pop (advance vm 8) = Inr (u, a)" "good (advance vm 8) u xs" by (auto simp: gives_def)
  have at: "at_code u code (i + 8)" by (rule at_good [OF t(3) u(2)])
  have "list_all2 (holds (advance vm 8)) xs vs" using g(3) by (simp add: holds_advance_fn)
  then have s: "has_stack u vs" by (rule has_stack_good [OF u(2)])
  have h: "holds u a v" using holds_quiet [OF _ u(2), of a v] g(2) by simp
  have nz: "a \<noteq> 0" by (rule good_nonzero [OF g(1)])
  have w: "same_world vm u" using good_same_world [OF u(2)] by simp
  have r: "op_jnf vm = (if v = Bool_Val False then Inr u else Inr (advance u t))"
    using t(1) u(1) h nz jump_by_at [OF at, of t]
    by (cases v) (auto simp: op_jnf_def is_type_def get_obj_def boolean_def)
  have "at_code (advance u t) code l" by (rule at_jump [OF at t(2)])
  moreover have "same_world vm (advance u t)" using w by (simp add: same_world_def advance_def)
  ultimately show ?thesis using r s at w has_stack_advance [OF s] by auto
qed

lemma goes_jnf:
  assumes "i < length code" "code ! i = OP_JNF" "leads code (i + 1) l"
  shows "goes x 1 code i (v # vs) (if v = Bool_Val False then i + 9 else l) vs"
proof (rule goes_step)
  fix vm :: "'a vm"
  assume h: "has_stack vm (v # vs)" and a: "at_code vm code i"
  have "at_code (advance vm 1) code (i + 1)" using at_advance [OF a, of 1] by simp
  moreover have e: "i + 1 + 8 = i + 9" by simp
  ultimately obtain vm' where v: "op_jnf (advance vm 1) = Inr vm'" "has_stack vm' vs" "at_code vm' code (if v = Bool_Val False then i + 9 else l)"
    "same_world vm vm'"
    using op_jnf_stack [OF _ assms(3) has_stack_advance [OF h]] unfolding e by fastforce
  have "running vm = Inr True" using running_at [OF a] assms(1) by simp
  moreover have "vm_step x vm = Inr vm'"
    using vm_step_at [OF a assms(1), of x op_jnf] assms(2) v(1) by (simp add: setup_jumps)
  ultimately show "\<exists>vm'. running vm = Inr True \<and> vm_step x vm = Inr vm' \<and> has_stack vm' vs
      \<and> at_code vm' code (if v = Bool_Val False then i + 9 else l) \<and> same_world vm vm'"
    using v(2-4) by blast
qed

section \<open>Lines of linked code\<close>

definition gets :: "'w externs \<Rightarrow> line list \<Rightarrow> nat \<Rightarrow> val list \<Rightarrow> nat \<Rightarrow> val list \<Rightarrow> bool" where
  "gets x ls i vs j vs' \<longleftrightarrow> (\<exists>n. goes x n (link ls) i vs j vs')"

lemma gets_refl: "gets x ls i vs i vs"
  using goes_refl unfolding gets_def by blast

lemma gets_trans: "gets x ls i vs j us \<Longrightarrow> gets x ls j us k ws \<Longrightarrow> gets x ls i vs k ws"
  unfolding gets_def using goes_trans by blast

lemma link_split:
  "link (pre @ l # post) = machine (label_pos (pre @ l # post)) 0 pre @ machine (label_pos (pre @ l # post)) (length (draft pre)) [l]
     @ machine (label_pos (pre @ l # post)) (length (draft pre) + length (line_draft l)) post"
  using machine_append [of "label_pos (pre @ l # post)" 0 pre "l # post"]
    machine_append [of "label_pos (pre @ l # post)" "length (draft pre)" "[l]" post]
  by (simp add: link_def del: machine.simps(2))

lemma gets_ins:
  assumes "ls = pre @ Ins s # post" "reads s (pure_code p)" "pure_step p vs = Some vs'"
  shows "gets x ls (length (draft pre)) vs (length (draft pre) + length (line_draft (Ins s))) vs'"
proof -
  have d: "line_draft (Ins s) = pure_code p" using reads_code [OF assms(2)] by simp
  have "take (length (pure_code p)) (drop (length (draft pre)) (link ls)) = pure_code p"
    unfolding assms(1) link_split using d by (simp add: length_machine)
  from goes_pure [OF assms(3) this] show ?thesis unfolding d gets_def by blast
qed

lemma jump_at:
  assumes "ls = pre @ Jump ty i # post"
  shows "length (draft pre) < length (link ls)" "link ls ! length (draft pre) = ty"
    "leads (link ls) (length (draft pre) + 1) (label_pos ls i)"
proof -
  let ?a = "length (draft pre)"
  obtain m post' where m: "link ls = m @ (ty # INT_64 (of_nat (label_pos ls i) - of_nat (?a + 1) - 8)) @ post'" "length m = ?a"
    unfolding assms link_split by (auto simp: length_machine)
  show "?a < length (link ls)" "link ls ! ?a = ty" using m by (simp_all add: nth_append)
  show "leads (link ls) (?a + 1) (label_pos ls i)" using m by (simp add: leads_def int_of_INT_64)
qed

lemma label_pos_at:
  assumes "ls = pre @ Label i # post" "distinct (Emit_Labels.labels ls)"
  shows "label_pos ls i = length (draft pre)"
proof -
  have "(i, length (draft pre)) \<in> set (places 0 ls)" by (simp add: assms(1) places_append)
  moreover have "distinct (map fst (places 0 ls))" using assms(2) by (simp add: places_labels)
  ultimately have "map_of (places 0 ls) i = Some (length (draft pre))" by simp
  then show ?thesis by (simp add: label_pos_def)
qed

lemma gets_jmp:
  assumes "ls = pre @ Jump OP_JMP i # post" "ls = pre2 @ Label i # post2" "distinct (Emit_Labels.labels ls)"
  shows "gets x ls (length (draft pre)) vs (length (draft pre2)) vs"
  using goes_jmp [OF jump_at [OF assms(1)]] label_pos_at [OF assms(2,3)] unfolding gets_def by metis

lemma gets_jnf:
  assumes "ls = pre @ Jump OP_JNF i # post" "ls = pre2 @ Label i # post2" "distinct (Emit_Labels.labels ls)"
  shows "gets x ls (length (draft pre)) (v # vs) (if v = Bool_Val False then length (draft pre) + 9 else length (draft pre2)) vs"
  using goes_jnf [OF jump_at [OF assms(1)]] label_pos_at [OF assms(2,3)] unfolding gets_def by metis

section \<open>Expressions on the machine\<close>

declare code_simps [simp del]

lemma literal_reads:
  assumes "literal_value s = Some v"
  shows "\<exists>p. reads s (pure_code p) \<and> (\<forall>vs. pure_step p vs = Some (v # vs))"
proof -
  have w: "(''#t'', INITIAL, OP_LIT_TRUE) \<in> set words \<union> set more_words" "(''#f'', INITIAL, OP_LIT_FALSE) \<in> set words \<union> set more_words"
    by (simp_all add: words_def)
  consider "s = chars ''#t''" "v = Bool_Val True" | "s = chars ''#f''" "v = Bool_Val False" | "s = show_int (strtoq s)" "v = Int_Val (strtoq s)"
    using assms by (auto simp: literal_value_def split: if_splits)
  then show ?thesis
  proof cases
    case 1
    then show ?thesis using reads_word(1) [OF w(1)] by (intro exI [of _ "Push_Bool True"]) simp
  next
    case 2
    then show ?thesis using reads_word(1) [OF w(2)] by (intro exI [of _ "Push_Bool False"]) simp
  next
    case 3
    have "reads s (OP_LIT_FIXNUM # INT_64 (strtoq s))" using reads_number(1) [of "strtoq s"] 3(1) by simp
    then show ?thesis using 3(2) by (intro exI [of _ "Push_Int (strtoq s)"]) simp
  qed
qed

lemma operator_words:
  "list_all (\<lambda>(w, p). (w, INITIAL, pure_op p) \<in> set words \<and> pure_code p = [pure_op p]
     \<and> (case p of Arith c \<Rightarrow> True | Compare c \<Rightarrow> True | _ \<Rightarrow> False)) operators"
  by (simp add: operators_def words_def)

lemma operator_word_split:
  assumes "operator_word s = chars w"
  shows "\<exists>ws. s = chars w @ ws \<and> list_all is_ws ws"
proof (cases "list_all is_ws (dropWhile (\<lambda>c. \<not> is_ws c) s)")
  case True
  then have "s = chars w @ dropWhile (\<lambda>c. \<not> is_ws c) s" using assms by (simp add: operator_word_def flip: assms)
  then show ?thesis using True by blast
qed (use assms in \<open>simp add: operator_word_def\<close>)

lemma operate_reads:
  assumes "operate s a b = Some v"
  shows "\<exists>p. reads s (pure_code p) \<and> (\<forall>vs. pure_step p (b # a # vs) = Some (v # vs))"
proof -
  obtain p where p: "map_of (map (\<lambda>(w, p). (chars w, p)) operators) (operator_word s) = Some p" "pure_step p [b, a] = Some [v]"
    using assms by (auto simp: operate_def split: option.splits list.splits)
  obtain w where w: "(w, p) \<in> set operators" "operator_word s = chars w" using map_of_SomeD [OF p(1)] by auto
  obtain ws where s: "s = chars w @ ws" "list_all is_ws ws" using operator_word_split [OF w(2)] by blast
  have o: "(w, INITIAL, pure_op p) \<in> set words" "pure_code p = [pure_op p]"
    "case p of Arith c \<Rightarrow> True | Compare c \<Rightarrow> True | _ \<Rightarrow> False"
    using operator_words w(1) by (auto simp: list_all_iff)
  have "pure_step p (b # a # vs) = Some (v # vs)" for vs
    using p(2) o(3) by (cases p; cases a; cases b) (auto split: option.splits)
  then show ?thesis using reads_word_space(1) [OF _ s(2), of w "pure_op p"] o(1,2) s(1) by (intro exI [of _ p]) simp
qed

lemma gets_word:
  assumes "ls = pre @ Ins (chars w) # post" "(w, INITIAL, k) \<in> set words" "pure_code p = [k]" "pure_step p vs = Some vs'"
  shows "gets x ls (length (draft pre)) vs (length (draft pre) + 1) vs'"
proof -
  have r: "reads (chars w) (pure_code p)" using reads_word(1) [of w k] assms(2,3) by simp
  have "line_draft (Ins (chars w)) = [k]" using reads_code [OF r] assms(3) by simp
  then show ?thesis using gets_ins [OF assms(1) r assms(4), of x] by simp
qed

lemma stack_words:
  "(''drop'', INITIAL, OP_DROP) \<in> set words" "(''dup'', INITIAL, OP_DUP_REF) \<in> set words" "(''not'', INITIAL, OP_NOT) \<in> set words"
  by (simp_all add: words_def)

lemma draft_word: "(w, INITIAL, k) \<in> set words \<Longrightarrow> line_draft (Ins (chars w)) = [k]"
  using reads_code [OF reads_word(1), of w k] by simp

lemma eval_pushes: "eval_node t = Some v \<Longrightarrow> pushes_value t"
  by (cases t) auto

lemma eval_seq_pushes: "eval_seq ts = Some v \<Longrightarrow> ts \<noteq> [] \<and> pushes_value (last ts)"
proof (induction ts arbitrary: v)
  case (Cons t ts)
  then show ?case using eval_pushes by (cases "ts = []") (auto split: bind_splits if_splits)
qed simp

lemma stream_code_eval:
  assumes "eval_seq ts = Some v"
  shows "fst (stream_code tail ts i) = fst (nodes_code tail ts i)" "snd (stream_code tail ts i) = snd (nodes_code tail ts i)"
  using eval_seq_pushes [OF assms] by (simp_all add: stream_code.simps run_def stop_def)

lemmas gen_simps = fresh_def run_def put_def stop_def

text \<open>The code of a conditional, an operator and a sequence.\<close>

lemma if_lines:
  assumes "fst (stream_code False ts (i + 2)) = ct" "snd (stream_code False ts (i + 2)) = j"
    "fst (stream_code tail vs j) = cf" "snd (stream_code tail vs j) = k" "fst (stream_code tail us k) = cu"
  shows "fst (node_code tail (If l ts us vs) i) = [Debug l, Comment ''--If Start--''] @ ct @ Jump OP_JNF i # cf
     @ Jump OP_JMP (i + 1) # Comment ''--If true--'' # Label i # cu
     @ [Comment ''--If Done--'', Label (i + 1), Comment ''--If End--'']"
  using assms by (simp add: node_code.simps kind_code.simps gen_simps)

text \<open>Wherever the code of \<open>c\<close> stands in \<open>ls\<close>, it leaves \<open>v\<close> on the stack.\<close>

definition yields :: "'w externs \<Rightarrow> line list \<Rightarrow> (bool \<Rightarrow> gen) \<Rightarrow> val \<Rightarrow> bool" where
  "yields x ls c v \<longleftrightarrow> (\<forall>pre post tail i st. ls = pre @ fst (c tail i) @ post \<longrightarrow>
     gets x ls (length (draft pre)) st (length (draft pre) + length (draft (fst (c tail i)))) (v # st))"

lemma yieldsD:
  "yields x ls c v \<Longrightarrow> ls = pre @ fst (c tail i) @ post \<Longrightarrow>
     gets x ls (length (draft pre)) st (length (draft (pre @ fst (c tail i)))) (v # st)"
  by (auto simp: yields_def)

lemma if_yields:
  assumes d: "distinct (Emit_Labels.labels ls)" and t: "yields x ls (\<lambda>tail. stream_code tail ts) w"
    and a: "w = Bool_Val False \<Longrightarrow> yields x ls (\<lambda>tail. stream_code tail vs) v"
    and b: "w \<noteq> Bool_Val False \<Longrightarrow> yields x ls (\<lambda>tail. stream_code tail us) v"
  shows "yields x ls (\<lambda>tail. node_code tail (If l ts us vs)) v"
  unfolding yields_def
proof (intro allI impI)
  fix pre post tail i st
  assume ls: "ls = pre @ fst (node_code tail (If l ts us vs) i) @ post"
  let ?ct = "fst (stream_code False ts (i + 2))" and ?j = "snd (stream_code False ts (i + 2))"
  let ?cf = "fst (stream_code tail vs ?j)" and ?k = "snd (stream_code tail vs ?j)"
  let ?cu = "fst (stream_code tail us ?k)"
  note l = if_lines [of ts i ?ct ?j tail vs ?cf ?k us ?cu l, OF HOL.refl HOL.refl HOL.refl HOL.refl HOL.refl]
  let ?p1 = "pre @ [Debug l, Comment ''--If Start--'']"
  let ?p2 = "?p1 @ ?ct" let ?p3 = "?p2 @ [Jump OP_JNF i]" let ?p4 = "?p3 @ ?cf"
  let ?p5 = "?p4 @ [Jump OP_JMP (i + 1), Comment ''--If true--'']" let ?p6 = "?p5 @ [Label i]"
  let ?p7 = "?p6 @ ?cu" let ?p8 = "?p7 @ [Comment ''--If Done--'']"
  have e1: "ls = ?p1 @ ?ct @ (Jump OP_JNF i # ?cf @ Jump OP_JMP (i + 1) # Comment ''--If true--'' # Label i # ?cu
      @ [Comment ''--If Done--'', Label (i + 1), Comment ''--If End--''] @ post)"
    and e2: "ls = ?p2 @ Jump OP_JNF i # (?cf @ Jump OP_JMP (i + 1) # Comment ''--If true--'' # Label i # ?cu
      @ [Comment ''--If Done--'', Label (i + 1), Comment ''--If End--''] @ post)"
    and e3: "ls = ?p3 @ ?cf @ (Jump OP_JMP (i + 1) # Comment ''--If true--'' # Label i # ?cu
      @ [Comment ''--If Done--'', Label (i + 1), Comment ''--If End--''] @ post)"
    and e4: "ls = ?p4 @ Jump OP_JMP (i + 1) # (Comment ''--If true--'' # Label i # ?cu
      @ [Comment ''--If Done--'', Label (i + 1), Comment ''--If End--''] @ post)"
    and e5: "ls = ?p5 @ Label i # (?cu @ [Comment ''--If Done--'', Label (i + 1), Comment ''--If End--''] @ post)"
    and e6: "ls = ?p6 @ ?cu @ ([Comment ''--If Done--'', Label (i + 1), Comment ''--If End--''] @ post)"
    and e8: "ls = ?p8 @ Label (i + 1) # (Comment ''--If End--'' # post)"
    unfolding ls l by simp_all
  have p: "length (draft ?p1) = length (draft pre)" "length (draft ?p3) = length (draft ?p2) + 9"
    "length (draft ?p6) = length (draft ?p5)" "length (draft ?p8) = length (draft ?p7)"
    "length (draft pre) + length (draft (fst (node_code tail (If l ts us vs) i))) = length (draft ?p8)"
    unfolding l by simp_all
  have test: "gets x ls (length (draft pre)) st (length (draft ?p2)) (w # st)" using yieldsD [OF t e1, of st] unfolding p .
  note jnf = gets_jnf [OF e2 e5 d, of x w st]
  have "gets x ls (length (draft ?p2)) (w # st) (length (draft ?p8)) (v # st)"
  proof (cases "w = Bool_Val False")
    case True
    have "gets x ls (length (draft ?p2)) (w # st) (length (draft ?p3)) st" using jnf True unfolding p by simp
    from gets_trans [OF gets_trans [OF this yieldsD [OF a [OF True] e3]] gets_jmp [OF e4 e8 d]] show ?thesis .
  next
    case False
    have "gets x ls (length (draft ?p2)) (w # st) (length (draft ?p6)) st" using jnf False unfolding p by simp
    from gets_trans [OF this yieldsD [OF b [OF False] e6]] show ?thesis unfolding p .
  qed
  from gets_trans [OF test this] show "gets x ls (length (draft pre)) st
      (length (draft pre) + length (draft (fst (node_code tail (If l ts us vs) i)))) (v # st)" unfolding p .
qed

lemma lit_yields: "literal_value s = Some v \<Longrightarrow> yields x ls (\<lambda>tail. node_code tail (Lit l s)) v"
proof -
  assume "literal_value s = Some v"
  then obtain p where p: "reads s (pure_code p)" "\<And>vs. pure_step p vs = Some (v # vs)" using literal_reads by blast
  show ?thesis unfolding yields_def
  proof (intro allI impI)
    fix pre post tail i st
    assume "ls = pre @ fst (node_code tail (Lit l s) i) @ post"
    then have "ls = (pre @ [Debug l]) @ Ins s # post" by (simp add: code_simps gen_simps)
    from gets_ins [OF this p(1,2), of x st] show "gets x ls (length (draft pre)) st
        (length (draft pre) + length (draft (fst (node_code tail (Lit l s) i)))) (v # st)"
      by (simp add: code_simps gen_simps del: line_draft.simps(2))
  qed
qed

lemma math_yields:
  assumes a: "yields x ls (\<lambda>tail. stream_code tail us) a" and b: "yields x ls (\<lambda>tail. stream_code tail ts) b"
    and v: "operate s a b = Some v"
  shows "yields x ls (\<lambda>tail. node_code tail (Math l s us ts)) v"
  unfolding yields_def
proof (intro allI impI)
  fix pre post tail i st
  assume ls: "ls = pre @ fst (node_code tail (Math l s us ts) i) @ post"
  let ?cu = "fst (stream_code False us i)" and ?j = "snd (stream_code False us i)"
  let ?ct = "fst (stream_code False ts ?j)"
  have l: "fst (node_code tail (Math l s us ts) i) = Debug l # ?cu @ ?ct @ [Ins s]" by (simp add: node_code.simps kind_code.simps gen_simps)
  let ?p1 = "pre @ [Debug l]" let ?p2 = "?p1 @ ?cu" let ?p3 = "?p2 @ ?ct"
  have e: "ls = ?p1 @ ?cu @ (?ct @ Ins s # post)" "ls = ?p2 @ ?ct @ (Ins s # post)" "ls = ?p3 @ Ins s # post"
    unfolding ls l by simp_all
  obtain p where p: "reads s (pure_code p)" "\<And>vs. pure_step p (b # a # vs) = Some (v # vs)" using operate_reads [OF v] by blast
  have q: "length (draft ?p1) = length (draft pre)"
    "length (draft pre) + length (draft (fst (node_code tail (Math l s us ts) i))) = length (draft ?p3) + length (line_draft (Ins s))"
    unfolding l by (simp_all del: line_draft.simps(2))
  from gets_trans [OF gets_trans [OF yieldsD [OF a e(1)] yieldsD [OF b e(2)]] gets_ins [OF e(3) p(1) p(2)]]
  show "gets x ls (length (draft pre)) st (length (draft pre) + length (draft (fst (node_code tail (Math l s us ts) i)))) (v # st)"
    unfolding q .
qed

lemma seq_yields:
  assumes t: "yields x ls (\<lambda>tail. node_code tail t) w" "pushes_value t"
    and v: "if ts = [] then w = v else yields x ls (\<lambda>tail. nodes_code tail ts) v"
  shows "yields x ls (\<lambda>tail. nodes_code tail (t # ts)) v"
  unfolding yields_def
proof (intro allI impI)
  fix pre post tail i st
  assume ls: "ls = pre @ fst (nodes_code tail (t # ts) i) @ post"
  let ?tl = "tail \<and> ts = []"
  let ?ct = "fst (node_code ?tl t i)" and ?j = "snd (node_code ?tl t i)"
  show "gets x ls (length (draft pre)) st (length (draft pre) + length (draft (fst (nodes_code tail (t # ts) i)))) (v # st)"
  proof (cases "ts = []")
    case True
    have l: "fst (nodes_code tail (t # ts) i) = ?ct" by (simp add: nodes_code.simps gen_simps True)
    have "ls = pre @ ?ct @ post" using ls unfolding l .
    from yieldsD [OF t(1) this, of st] show ?thesis unfolding l using v True by simp
  next
    case False
    let ?cs = "fst (nodes_code tail ts ?j)"
    have l: "fst (nodes_code tail (t # ts) i) = ?ct @ Ins (chars ''drop'') # ?cs"
      using t(2) False by (simp add: nodes_code.simps gen_simps)
    let ?p2 = "pre @ ?ct" let ?p3 = "?p2 @ [Ins (chars ''drop'')]"
    have e: "ls = pre @ ?ct @ (Ins (chars ''drop'') # ?cs @ post)" "ls = ?p2 @ Ins (chars ''drop'') # (?cs @ post)"
      "ls = ?p3 @ ?cs @ post" unfolding ls l by simp_all
    have q: "length (draft ?p3) = length (draft ?p2) + 1" using draft_word [OF stack_words(1)] by (simp del: line_draft.simps(2))
    have r: "length (draft pre) + length (draft (fst (nodes_code tail (t # ts) i))) = length (draft (?p3 @ ?cs))"
      unfolding l by (simp del: line_draft.simps(2))
    have y: "yields x ls (\<lambda>tail. nodes_code tail ts) v" using v False by simp
    have g: "gets x ls (length (draft ?p2)) (w # st) (length (draft ?p3)) st"
      unfolding q by (rule gets_word [OF e(2) stack_words(1), where p = Drop_Top]) simp_all
    from gets_trans [OF gets_trans [OF yieldsD [OF t(1) e(1)] g] yieldsD [OF y e(3)]] show ?thesis unfolding r .
  qed
qed

text \<open>The operands of an \<open>and\<close> or \<open>or\<close>, and the clauses of a \<open>cond\<close>: their code leaves a value on the stack
  at the label.\<close>

definition yields_at :: "'w externs \<Rightarrow> line list \<Rightarrow> nat \<Rightarrow> bool \<Rightarrow> (bool \<Rightarrow> gen) \<Rightarrow> val \<Rightarrow> bool" where
  "yields_at x ls d through c v \<longleftrightarrow> (\<forall>pre post tail i st pre2 post2. ls = pre @ fst (c tail i) @ post \<longrightarrow> ls = pre2 @ Label d # post2
     \<longrightarrow> (through \<longrightarrow> length (draft (pre @ fst (c tail i))) = length (draft pre2)) \<longrightarrow>
     gets x ls (length (draft pre)) st (length (draft pre2)) (v # st))"

lemma yields_atD:
  "yields_at x ls d through c v \<Longrightarrow> ls = pre @ fst (c tail i) @ post \<Longrightarrow> ls = pre2 @ Label d # post2 \<Longrightarrow>
     (through \<Longrightarrow> length (draft (pre @ fst (c tail i))) = length (draft pre2)) \<Longrightarrow>
     gets x ls (length (draft pre)) st (length (draft pre2)) (v # st)"
  unfolding yields_at_def by blast

lemma bool_last_yields:
  assumes t: "yields x ls (\<lambda>tail. node_code tail t) v" "pushes_value t"
  shows "yields_at x ls d True (\<lambda>tail. bool_code and_or d [t]) v"
  unfolding yields_at_def
proof (intro allI impI)
  fix pre post pre2 post2 :: "line list" and tail :: bool and i st
  assume ls: "ls = pre @ fst (bool_code and_or d [t] i) @ post" and "ls = pre2 @ Label d # post2"
    and q: "True \<longrightarrow> length (draft (pre @ fst (bool_code and_or d [t] i))) = length (draft pre2)"
  have l: "fst (bool_code and_or d [t] i) = fst (node_code False t i)" using t(2) by (simp add: bool_code.simps gen_simps)
  have "ls = pre @ fst (node_code False t i) @ post" using ls unfolding l .
  from yieldsD [OF t(1) this, of st] show "gets x ls (length (draft pre)) st (length (draft pre2)) (v # st)" using q unfolding l by simp
qed

lemma bool_step_yields:
  assumes d: "distinct (Emit_Labels.labels ls)" and t: "yields x ls (\<lambda>tail. node_code tail t) w" "pushes_value t" "ts \<noteq> []"
    and stop: "(w = Bool_Val False) = and_or \<Longrightarrow> w = v"
    and go: "(w = Bool_Val False) \<noteq> and_or \<Longrightarrow> yields_at x ls d True (\<lambda>tail. bool_code and_or d ts) v"
  shows "yields_at x ls d True (\<lambda>tail. bool_code and_or d (t # ts)) v"
  unfolding yields_at_def
proof (intro allI impI)
  fix pre post pre2 post2 :: "line list" and tail :: bool and i st
  assume ls: "ls = pre @ fst (bool_code and_or d (t # ts) i) @ post" and lb: "ls = pre2 @ Label d # post2"
    and q: "True \<longrightarrow> length (draft (pre @ fst (bool_code and_or d (t # ts) i))) = length (draft pre2)"
  let ?ct = "fst (node_code False t i)" and ?j = "snd (node_code False t i)"
  let ?br = "if and_or then [Jump OP_JNF ?j, Jump OP_JMP d, Label ?j, Ins (chars ''drop'')] else [Jump OP_JNF d, Ins (chars ''drop'')]"
  let ?cs = "fst (bool_code and_or d ts (if and_or then ?j + 1 else ?j))"
  have l: "fst (bool_code and_or d (t # ts) i) = ?ct @ Ins (chars ''dup'') # ?br @ ?cs"
    using t(2,3) by (cases and_or) (simp_all add: bool_code.simps(2) gen_simps)
  let ?p1 = "pre @ ?ct" let ?p2 = "?p1 @ [Ins (chars ''dup'')]" let ?p3 = "?p2 @ ?br"
  have e1: "ls = pre @ ?ct @ (Ins (chars ''dup'') # ?br @ ?cs @ post)" and e2: "ls = ?p1 @ Ins (chars ''dup'') # (?br @ ?cs @ post)"
    and e3: "ls = ?p3 @ ?cs @ post" unfolding ls l by simp_all
  have w1: "line_draft (Ins (chars ''dup'')) = [OP_DUP_REF]" "line_draft (Ins (chars ''drop'')) = [OP_DROP]"
    using draft_word stack_words by blast+
  have q2: "length (draft ?p2) = length (draft ?p1) + 1" using w1 by (simp del: line_draft.simps(2))
  have dup: "gets x ls (length (draft ?p1)) (w # st) (length (draft ?p2)) (w # w # st)"
    unfolding q2 by (rule gets_word [OF e2 stack_words(2), where p = Dup_Top]) simp_all
  note start = gets_trans [OF yieldsD [OF t(1) e1] dup]
  have rest: "gets x ls (length (draft ?p3)) st (length (draft pre2)) (v # st)"
    if y: "yields_at x ls d True (\<lambda>tail. bool_code and_or d ts) v"
    by (rule yields_atD [where c = "\<lambda>tail. bool_code and_or d ts" and tail = tail, OF y e3 lb])
      (use q in \<open>simp add: l del: line_draft.simps(2)\<close>)
  show "gets x ls (length (draft pre)) st (length (draft pre2)) (v # st)"
  proof (cases and_or)
    case True
    let ?q1 = "?p2 @ [Jump OP_JNF ?j]" let ?q2 = "?q1 @ [Jump OP_JMP d]" let ?q3 = "?q2 @ [Label ?j]"
    have f: "ls = ?p2 @ Jump OP_JNF ?j # (Jump OP_JMP d # Label ?j # Ins (chars ''drop'') # ?cs @ post)"
      "ls = ?q1 @ Jump OP_JMP d # (Label ?j # Ins (chars ''drop'') # ?cs @ post)"
      "ls = ?q2 @ Label ?j # (Ins (chars ''drop'') # ?cs @ post)"
      "ls = ?q3 @ Ins (chars ''drop'') # (?cs @ post)" using True unfolding ls l by simp_all
    have r: "length (draft ?q1) = length (draft ?p2) + 9" "length (draft ?q3) = length (draft ?q2)"
      "length (draft ?p3) = length (draft ?q3) + 1" using True w1 by (simp_all del: line_draft.simps(2))
    note jnf = gets_jnf [OF f(1) f(3) d, of x w "w # st"]
    show ?thesis
    proof (cases "w = Bool_Val False")
      case w: True
      have "gets x ls (length (draft ?p2)) (w # w # st) (length (draft ?q1)) (w # st)" using jnf w unfolding r by simp
      from gets_trans [OF start gets_trans [OF this gets_jmp [OF f(2) lb d]]] show ?thesis using stop w True by simp
    next
      case w: False
      have a: "gets x ls (length (draft ?p2)) (w # w # st) (length (draft ?q3)) (w # st)" using jnf w unfolding r by simp
      have "gets x ls (length (draft ?q3)) (w # st) (length (draft ?q3) + 1) st"
        by (rule gets_word [OF f(4) stack_words(1), where p = Drop_Top]) simp_all
      then have b: "gets x ls (length (draft ?q3)) (w # st) (length (draft ?p3)) st" unfolding r .
      show ?thesis using gets_trans [OF start gets_trans [OF a gets_trans [OF b rest [OF go]]]] w True by simp
    qed
  next
    case False
    let ?q1 = "?p2 @ [Jump OP_JNF d]"
    have f: "ls = ?p2 @ Jump OP_JNF d # (Ins (chars ''drop'') # ?cs @ post)"
      "ls = ?q1 @ Ins (chars ''drop'') # (?cs @ post)" using False unfolding ls l by simp_all
    have r: "length (draft ?q1) = length (draft ?p2) + 9" "length (draft ?p3) = length (draft ?q1) + 1"
      using False w1 by (simp_all del: line_draft.simps(2))
    note jnf = gets_jnf [OF f(1) lb d, of x w "w # st"]
    show ?thesis
    proof (cases "w = Bool_Val False")
      case w: True
      have a: "gets x ls (length (draft ?p2)) (w # w # st) (length (draft ?q1)) (w # st)" using jnf w unfolding r by simp
      have "gets x ls (length (draft ?q1)) (w # st) (length (draft ?q1) + 1) st"
        by (rule gets_word [OF f(2) stack_words(1), where p = Drop_Top]) simp_all
      then have b: "gets x ls (length (draft ?q1)) (w # st) (length (draft ?p3)) st" unfolding r .
      show ?thesis using gets_trans [OF start gets_trans [OF a gets_trans [OF b rest [OF go]]]] w False by simp
    next
      case w: False
      have "gets x ls (length (draft ?p2)) (w # w # st) (length (draft pre2)) (w # st)" using jnf w by simp
      from gets_trans [OF start this] show ?thesis using stop w False by simp
    qed
  qed
qed

lemma clause_yields:
  assumes d: "distinct (Emit_Labels.labels ls)" and t: "yields x ls (\<lambda>tail. stream_code tail us) w"
    and a: "w = Bool_Val False \<Longrightarrow> yields_at x ls d False (\<lambda>tail. clauses_code tail d cs) v"
    and b: "w \<noteq> Bool_Val False \<Longrightarrow> yields x ls (\<lambda>tail. stream_code tail ts) v"
  shows "yields_at x ls d False (\<lambda>tail. clauses_code tail d ((us, ts) # cs)) v"
  unfolding yields_at_def
proof (intro allI impI)
  fix pre post pre2 post2 :: "line list" and tail :: bool and i st
  assume ls: "ls = pre @ fst (clauses_code tail d ((us, ts) # cs) i) @ post" and lb: "ls = pre2 @ Label d # post2"
  let ?ct = "fst (stream_code False us i)" and ?j = "snd (stream_code False us i)"
  let ?cb = "fst (stream_code tail ts (?j + 1))" and ?k = "snd (stream_code tail ts (?j + 1))"
  let ?cs = "fst (clauses_code tail d cs ?k)"
  have l: "fst (clauses_code tail d ((us, ts) # cs) i) = [Comment ''----Cond Clause----''] @ ?ct @ Ins (chars ''not'') # Jump OP_JNF ?j # ?cb
      @ Jump OP_JMP d # Label ?j # ?cs"
    by (simp add: clauses_code.simps gen_simps)
  let ?p1 = "pre @ [Comment ''----Cond Clause----'']" let ?p2 = "?p1 @ ?ct" let ?p3 = "?p2 @ [Ins (chars ''not'')]"
  let ?p4 = "?p3 @ [Jump OP_JNF ?j]" let ?p5 = "?p4 @ ?cb" let ?p6 = "?p5 @ [Jump OP_JMP d]" let ?p7 = "?p6 @ [Label ?j]"
  have e: "ls = ?p1 @ ?ct @ (Ins (chars ''not'') # Jump OP_JNF ?j # ?cb @ Jump OP_JMP d # Label ?j # ?cs @ post)"
    "ls = ?p2 @ Ins (chars ''not'') # (Jump OP_JNF ?j # ?cb @ Jump OP_JMP d # Label ?j # ?cs @ post)"
    "ls = ?p3 @ Jump OP_JNF ?j # (?cb @ Jump OP_JMP d # Label ?j # ?cs @ post)"
    "ls = ?p4 @ ?cb @ (Jump OP_JMP d # Label ?j # ?cs @ post)" "ls = ?p5 @ Jump OP_JMP d # (Label ?j # ?cs @ post)"
    "ls = ?p6 @ Label ?j # (?cs @ post)" "ls = ?p7 @ ?cs @ post"
    unfolding ls l by simp_all
  have p: "length (draft ?p1) = length (draft pre)" "length (draft ?p3) = length (draft ?p2) + 1"
    "length (draft ?p4) = length (draft ?p3) + 9" "length (draft ?p7) = length (draft ?p6)"
    using draft_word [OF stack_words(3)] by (simp_all del: line_draft.simps(2))
  have test: "gets x ls (length (draft pre)) st (length (draft ?p2)) (w # st)" using yieldsD [OF t e(1), of st] unfolding p(1) .
  have n: "gets x ls (length (draft ?p2)) (w # st) (length (draft ?p3)) (Bool_Val (w = Bool_Val False) # st)"
    unfolding p(2) by (rule gets_word [OF e(2) stack_words(3), where p = Negate]) simp_all
  note jnf = gets_jnf [OF e(3) e(6) d, of x "Bool_Val (w = Bool_Val False)" st]
  show "gets x ls (length (draft pre)) st (length (draft pre2)) (v # st)"
  proof (cases "w = Bool_Val False")
    case True
    have "gets x ls (length (draft ?p3)) (Bool_Val (w = Bool_Val False) # st) (length (draft ?p7)) st"
      using jnf True unfolding p(4) by simp
    moreover have "gets x ls (length (draft ?p7)) st (length (draft pre2)) (v # st)"
      by (rule yields_atD [where c = "\<lambda>tail. clauses_code tail d cs" and tail = tail, OF a [OF True] e(7) lb]) simp
    ultimately show ?thesis using gets_trans [OF test gets_trans [OF n gets_trans]] by blast
  next
    case False
    have "gets x ls (length (draft ?p3)) (Bool_Val (w = Bool_Val False) # st) (length (draft ?p4)) st"
      using jnf False unfolding p(3) by simp
    from gets_trans [OF gets_trans [OF this yieldsD [OF b [OF False] e(4)]] gets_jmp [OF e(5) lb d]]
    show ?thesis using gets_trans [OF test gets_trans [OF n]] by blast
  qed
qed

lemma cond_yields:
  assumes c: "\<And>d. yields_at x ls d False (\<lambda>tail. clauses_code tail d cs) v"
  shows "yields x ls (\<lambda>tail. node_code tail (Cond l cs)) v"
  unfolding yields_def
proof (intro allI impI)
  fix pre post tail i st
  assume ls: "ls = pre @ fst (node_code tail (Cond l cs) i) @ post"
  let ?cs = "fst (clauses_code tail i cs (i + 1))"
  have l: "fst (node_code tail (Cond l cs) i) = [Debug l, Comment ''--Cond Start--''] @ ?cs
      @ [Comment ''--Cond Fall-Through--'', Ins (chars ''()''), Label i, Comment ''--Cond End--'']"
    by (simp add: node_code.simps kind_code.simps gen_simps)
  let ?p1 = "pre @ [Debug l, Comment ''--Cond Start--'']"
  let ?p2 = "?p1 @ ?cs @ [Comment ''--Cond Fall-Through--'', Ins (chars ''()'')]"
  have e: "ls = ?p1 @ ?cs @ ([Comment ''--Cond Fall-Through--'', Ins (chars ''()''), Label i, Comment ''--Cond End--''] @ post)"
    "ls = ?p2 @ Label i # (Comment ''--Cond End--'' # post)" unfolding ls l by simp_all
  have q: "length (draft ?p1) = length (draft pre)"
    "length (draft pre) + length (draft (fst (node_code tail (Cond l cs) i))) = length (draft ?p2)"
    unfolding l by (simp_all del: line_draft.simps(2))
  have "gets x ls (length (draft ?p1)) st (length (draft ?p2)) (v # st)"
    by (rule yields_atD [where c = "\<lambda>tail. clauses_code tail i cs" and tail = tail, OF c e]) simp
  then show "gets x ls (length (draft pre)) st (length (draft pre) + length (draft (fst (node_code tail (Cond l cs) i)))) (v # st)"
    unfolding q .
qed

text \<open>The node of an \<open>and\<close> is that of \<open>True\<close>, the one of an \<open>or\<close> that of \<open>False\<close>.\<close>

definition bool_node :: "bool \<Rightarrow> loc \<Rightarrow> ast list \<Rightarrow> ast" where
  "bool_node and_or l ts = (if and_or then And l ts else Or l ts)"

lemma bool_lines:
  "fst (node_code tail (bool_node and_or l ts) i) = [Debug l, Comment ''--Bool Operator Start--''] @ fst (bool_code and_or i ts (i + 1))
     @ (if ts = [] then [Ins (chars (if and_or then ''#t'' else ''#f''))] else []) @ [Label i, Comment ''--Bool Operator End--'']"
  by (simp add: bool_node_def node_code.simps kind_code.simps gen_simps)

lemma bool_yields:
  assumes c: "\<And>d. ts \<noteq> [] \<Longrightarrow> yields_at x ls d True (\<lambda>tail. bool_code and_or d ts) v"
    and v: "ts = [] \<Longrightarrow> v = Bool_Val and_or"
  shows "yields x ls (\<lambda>tail. node_code tail (bool_node and_or l ts)) v"
  unfolding yields_def
proof (intro allI impI)
  fix pre post tail i st
  assume ls: "ls = pre @ fst (node_code tail (bool_node and_or l ts) i) @ post"
  let ?p1 = "pre @ [Debug l, Comment ''--Bool Operator Start--'']" and ?w = "if and_or then ''#t'' else ''#f''"
  have q: "length (draft ?p1) = length (draft pre)" by simp
  show "gets x ls (length (draft pre)) st (length (draft pre) + length (draft (fst (node_code tail (bool_node and_or l ts) i)))) (v # st)"
  proof (cases "ts = []")
    case True
    have w: "(''#t'', INITIAL, OP_LIT_TRUE) \<in> set words" "(''#f'', INITIAL, OP_LIT_FALSE) \<in> set words" by (simp_all add: words_def)
    have l: "fst (node_code tail (bool_node and_or l ts) i) = [Debug l, Comment ''--Bool Operator Start--''] @ [Ins (chars ?w)]
        @ [Label i, Comment ''--Bool Operator End--'']" unfolding bool_lines True by (simp add: bool_code.simps gen_simps)
    have e: "ls = ?p1 @ Ins (chars ?w) # ([Label i, Comment ''--Bool Operator End--''] @ post)" unfolding ls l by simp
    have "gets x ls (length (draft ?p1)) st (length (draft ?p1) + 1) (Bool_Val and_or # st)"
      by (rule gets_word [OF e, where p = "Push_Bool and_or" and k = "if and_or then OP_LIT_TRUE else OP_LIT_FALSE"]) (use w in simp_all)
    moreover have "length (line_draft (Ins (chars ?w))) = 1" using w draft_word by (cases and_or) fastforce+
    ultimately show ?thesis using v [OF True] unfolding q l by (simp del: line_draft.simps(2))
  next
    case False
    let ?cs = "fst (bool_code and_or i ts (i + 1))"
    have l: "fst (node_code tail (bool_node and_or l ts) i) = [Debug l, Comment ''--Bool Operator Start--''] @ ?cs
        @ [Label i, Comment ''--Bool Operator End--'']" unfolding bool_lines using False by simp
    have e: "ls = ?p1 @ ?cs @ ([Label i, Comment ''--Bool Operator End--''] @ post)"
      "ls = (?p1 @ ?cs) @ Label i # (Comment ''--Bool Operator End--'' # post)" unfolding ls l by simp_all
    have r: "length (draft pre) + length (draft (fst (node_code tail (bool_node and_or l ts) i))) = length (draft (?p1 @ ?cs))"
      unfolding l by simp
    have "gets x ls (length (draft ?p1)) st (length (draft (?p1 @ ?cs))) (v # st)"
      by (rule yields_atD [where c = "\<lambda>tail. bool_code and_or i ts", OF c [OF False] e]) simp
    then show ?thesis unfolding r unfolding q .
  qed
qed

lemma stream_yields:
  "eval_seq ts = Some v \<Longrightarrow> yields x ls (\<lambda>tail. nodes_code tail ts) v \<Longrightarrow> yields x ls (\<lambda>tail. stream_code tail ts) v"
  by (simp add: yields_def stream_code_eval)

text \<open>Expressions compute their values.\<close>

lemma code_yields:
  assumes d: "distinct (Emit_Labels.labels ls)"
  shows "eval_node t = Some v \<Longrightarrow> yields x ls (\<lambda>tail. node_code tail t) v"
    "eval_seq ts = Some v \<Longrightarrow> yields x ls (\<lambda>tail. nodes_code tail ts) v"
    "eval_bool and_or ts = Some v \<Longrightarrow> yields_at x ls e True (\<lambda>tail. bool_code and_or e ts) v"
    "eval_clauses cs = Some v \<Longrightarrow> yields_at x ls e False (\<lambda>tail. clauses_code tail e cs) v"
proof (induction t and ts and and_or ts and cs arbitrary: v and v and v e and v e
    rule: eval_node_eval_seq_eval_bool_eval_clauses.induct)
  case (1 l s)
  then show ?case by (intro lit_yields) simp
next
  case (2 l s us ts)
  from "2.prems" obtain a b where a: "eval_seq us = Some a" and b: "eval_seq ts = Some b" and o: "operate s a b = Some v"
    by (auto split: bind_splits)
  show ?case using stream_yields [OF a "2.IH"(1) [OF a]] stream_yields [OF b "2.IH"(2) [OF a b]] o by (rule math_yields)
next
  case (3 l ts us vs)
  from "3.prems" obtain w where w: "eval_seq ts = Some w" "(if w = Bool_Val False then eval_seq vs else eval_seq us) = Some v"
    by (auto split: bind_splits)
  show ?case
  proof (rule if_yields [OF d stream_yields [OF w(1) "3.IH"(1) [OF w(1)]]])
    assume f: "w = Bool_Val False"
    then have "eval_seq vs = Some v" using w(2) by simp
    then show "yields x ls (\<lambda>tail. stream_code tail vs) v" using stream_yields "3.IH"(2) [OF w(1) f] by blast
  next
    assume f: "w \<noteq> Bool_Val False"
    then have "eval_seq us = Some v" using w(2) by simp
    then show "yields x ls (\<lambda>tail. stream_code tail us) v" using stream_yields "3.IH"(3) [OF w(1) f] by blast
  qed
next
  case (4 l ts)
  then show ?case using bool_yields [of ts x ls True v l] unfolding bool_node_def by (simp split: if_splits)
next
  case (5 l ts)
  then show ?case using bool_yields [of ts x ls False v l] unfolding bool_node_def by (simp split: if_splits)
next
  case (6 l cs)
  then show ?case by (intro cond_yields) simp
next
  case (9 t ts)
  from "9.prems" obtain w where w: "eval_node t = Some w" "(if ts = [] then Some w else eval_seq ts) = Some v" by (auto split: bind_splits)
  show ?case
  proof (rule seq_yields [OF "9.IH"(1) [OF w(1)] eval_pushes [OF w(1)]])
    show "if ts = [] then w = v else yields x ls (\<lambda>tail. nodes_code tail ts) v"
      using "9.IH"(2) [OF w(1)] w(2) by (cases "ts = []") simp_all
  qed
next
  case (11 and_or t ts)
  from "11.prems" obtain w where w: "eval_node t = Some w"
    "(if ts = [] then Some w else if (w = Bool_Val False) = and_or then Some w else eval_bool and_or ts) = Some v" by (auto split: bind_splits)
  show ?case
  proof (cases "ts = []")
    case True
    then show ?thesis using bool_last_yields [OF "11.IH"(1) [OF w(1)] eval_pushes [OF w(1)]] w(2) by simp
  next
    case False
    have "(w = Bool_Val False) = and_or \<Longrightarrow> w = v" "(w = Bool_Val False) \<noteq> and_or \<Longrightarrow> eval_bool and_or ts = Some v"
      using w(2) False by simp_all
    then show ?thesis using "11.IH"(2) [OF w(1) False]
      by (intro bool_step_yields [OF d "11.IH"(1) [OF w(1)] eval_pushes [OF w(1)] False]) blast+
  qed
next
  case (13 us ts cs)
  from "13.prems" obtain w where w: "eval_seq us = Some w" "(if w = Bool_Val False then eval_clauses cs else eval_seq ts) = Some v"
    by (auto split: bind_splits)
  show ?case
  proof (rule clause_yields [OF d stream_yields [OF w(1) "13.IH"(1) [OF w(1)]]])
    assume f: "w = Bool_Val False"
    then have "eval_clauses cs = Some v" using w(2) by simp
    then show "yields_at x ls e False (\<lambda>tail. clauses_code tail e cs) v" using "13.IH"(2) [OF w(1) f] by blast
  next
    assume f: "w \<noteq> Bool_Val False"
    then have "eval_seq ts = Some v" using w(2) by simp
    then show "yields x ls (\<lambda>tail. stream_code tail ts) v" using stream_yields "13.IH"(3) [OF w(1) f] by blast
  qed
qed simp_all

text \<open>A program, evaluated from its first byte on any machine, ends with its value on the stack.\<close>

lemma code_ends:
  assumes v: "eval_seq ts = Some v" and ls: "ls = fst (stream_code tail ts i)"
  shows "\<exists>n. goes x n (link ls) 0 st (length (link ls)) (v # st)"
proof -
  have "resolves {} {} (stream_code tail ts)" by (rule code_resolves(4))
  then have "distinct (Emit_Labels.labels ls)" by (simp add: resolves_def ls)
  then have "yields x ls (\<lambda>tail. stream_code tail ts) v" using stream_yields [OF v] code_yields(2) v by blast
  from yieldsD [OF this, of "[]" tail i "[]" st] show ?thesis by (simp add: gets_def length_link ls)
qed

lemma code_runs:
  assumes r: "ready vm vs" and v: "eval_seq ts = Some v" and ls: "ls = fst (stream_code tail ts i)"
    and len: "length (link ls) < 2 ^ 62"
  shows "\<exists>n vm1 p vm'. code_block vm (link ls) = Inr (vm1, p) \<and> has_stack vm' (v # vs) \<and> same_world vm vm'
    \<and> (\<forall>m. vm_eval (n + m) x vm1 (of_nat (length (link ls))) p dbg = Some (Inr (vm', exit_status vm)))"
proof -
  let ?code = "link ls"
  obtain vm1 p where p: "code_block vm ?code = Inr (vm1, p)" using code_block_run [OF len] by blast
  obtain vm2 where l: "vm_load vm1 (of_nat (length ?code)) p dbg = Inr vm2"
    using r p code_block_run [OF len, of vm] by (auto simp: ready_def vm_load_def upd_env_def get_env_def)
  from loaded [OF r len p l] have v2: "has_stack vm2 vs" "at_code vm2 ?code 0" "same_world vm vm2" by simp_all
  obtain n where "goes x n ?code 0 vs (length ?code) (v # vs)" using code_ends [OF v ls] by blast
  then obtain vm' where v': "has_stack vm' (v # vs)" "at_code vm' ?code (length ?code)" "same_world vm2 vm'"
    "\<And>m. eval_loop (n + m) x vm2 = eval_loop m x vm'" using v2(1,2) unfolding goes_def by blast
  have "running vm' = Inr False" using running_at [OF v'(2)] by simp
  then have "eval_loop (n + 1 + m) x vm2 = Some (Inr vm')" for m using v'(4) [of "1 + m"] by (simp add: add.assoc)
  moreover have "exit_status vm' = exit_status vm" using same_world_trans [OF v2(3) v'(3)] by (simp add: same_world_def)
  ultimately have "vm_eval (n + 1 + m) x vm1 (of_nat (length ?code)) p dbg = Some (Inr (vm', exit_status vm))" for m
    using l by (simp add: vm_eval_def)
  then show ?thesis using p v'(1) same_world_trans [OF v2(3) v'(3)] by blast
qed

end
