(* ===== verification/Compile_Props.thy ===== *)
theory Compile_Props
  imports Emit_Labels
begin

text \<open>
  What the compiler makes of a program: the properties of its streams and of its code generator, at a
  program that is in the heap.
\<close>

section \<open>An example\<close>

text \<open>The program \<open>(if #t 1 2)\<close> of a file \<open>a\<close>, and its tree.\<close>

definition demo_node :: "node_type \<Rightarrow> node_value \<Rightarrow> ins_node" where
  "demo_node ty v = \<lparr>ntype = ty, nvalue = v, nnext = 0, nprev = 0, ncolumn = 3, nline = 1, nfile = Some (chars ''a'')\<rparr>"

definition demo_core :: compiler_core where
  "demo_core =
     \<lparr>nodes = [2 \<mapsto> demo_node STREAM_IF (Two 3 4), 5 \<mapsto> demo_node STREAM_LITERAL (Literal (chars ''#t'')),
        6 \<mapsto> demo_node STREAM_TWO_ARG (Two 7 8), 9 \<mapsto> demo_node STREAM_LITERAL (Literal (chars ''1'')),
        10 \<mapsto> demo_node STREAM_LITERAL (Literal (chars ''2''))],
      streams = [1 \<mapsto> \<lparr>shead = 2, stail = 2\<rparr>, 3 \<mapsto> \<lparr>shead = 5, stail = 5\<rparr>, 4 \<mapsto> \<lparr>shead = 6, stail = 6\<rparr>,
        7 \<mapsto> \<lparr>shead = 9, stail = 9\<rparr>, 8 \<mapsto> \<lparr>shead = 10, stail = 10\<rparr>],
      next_ptr = 11, home = [], include_depth = 0, include_stack = [Some (chars ''a'')],
      scan = \<lparr>yycolumn = 3, yylineno = 1, yyinput = None, yyinputs = []\<rparr>, label_index = 0, stream = 1\<rparr>"

definition demo_tree :: "ast list" where
  "demo_tree = (let l = (chars ''a'', 1, 3) in [If l [Lit l (chars ''#t'')] [Lit l (chars ''1'')] [Lit l (chars ''2'')]])"

lemma demo_stream: "stream_is demo_core 1 demo_tree"
  by (simp add: demo_tree_def Let_def demo_core_def demo_node_def stream_is_def stream_at_def node_at_def
      tagged_def says_text_def two_streams_def two_arg_at_def chars_def)

lemma demo_core_wf: "heap_wf demo_core"
  by (auto simp: heap_wf_def demo_core_def)

section \<open>Properties\<close>

text \<open>C7: the code generator writes exactly the text of the lines of the program's code, and takes exactly
  the labels they use; a program needs no more depth than its size.\<close>

theorem emit_stream_refines:
  assumes "stream_is c s ts" "size_list size ts + 1 < n" "label_index c = of_nat i" "buffer_ok buf"
  shows "\<exists>buf'. emit_stream n c buf s tail
      = Inr (c\<lparr>label_index := of_nat (snd (stream_code tail ts i))\<rparr>, buf')
    \<and> buffer_ok buf' \<and> contents buf' = contents buf @ listing (fst (stream_code tail ts i))"
proof -
  have "relabel c i = c" using assms(3) by (simp add: relabel_def)
  then show ?thesis
    using emit_stream_writes [OF assms(1,2), of tail, unfolded writes_def, rule_format, OF assms(4), of i]
    by (simp add: relabel_def)
qed

lemma demo_fuel: "size_list size demo_tree + 1 < 20" "label_index demo_core = of_nat 0"
  by (simp_all add: demo_tree_def Let_def demo_core_def)

lemma lit_code: "stream_code tail [Lit l s] i = ([Debug l, Ins s], i)"
  by (simp add: code_simps fresh_def run_def put_def stop_def)

lemma if_code:
  assumes "stream_code False ts (Suc (Suc i)) = (ct, j)" "stream_code tail vs j = (cf, k)" "stream_code tail us k = (cu, m)"
  shows "stream_code tail [If l ts us vs] i = ([Debug l, Comment ''--If Start--''] @ ct @ Jump OP_JNF i # cf
    @ [Jump OP_JMP (Suc i), Comment ''--If true--'', Label i] @ cu @ [Comment ''--If Done--'', Label (Suc i), Comment ''--If End--''], m)"
  using assms
  by (simp add: stream_code.simps [of _ "[If l ts us vs]"] nodes_code.simps node_code.simps kind_code.simps
      fresh_def run_def put_def stop_def del: stream_code.simps)

lemmas demo_code = if_code [OF lit_code lit_code lit_code]

theorem emit_stream_refines_witness:
  "\<exists>buf'. emit_stream 20 demo_core buffer_create 1 False = Inr (demo_core\<lparr>label_index := 2\<rparr>, buf')
    \<and> contents buf' = listing (fst (stream_code False demo_tree 0))"
proof -
  have "snd (stream_code False demo_tree 0) = 2" unfolding demo_tree_def Let_def demo_code by simp
  then show ?thesis
    using emit_stream_refines [OF demo_stream demo_fuel buffer_create_ok(1), of False] buffer_create_ok(2)
    by (auto simp del: stream_code.simps)
qed

text \<open>\<open>stream_concat\<close> moves the nodes of one stream, in order, behind those of another, and changes
  nothing that the nodes say.\<close>

theorem stream_concat_appends:
  assumes "stream_holds c s as" "stream_holds c r bs" "s \<noteq> r" "r \<noteq> 0" "distinct (as @ bs)"
  shows "\<exists>c'. stream_concat c s r = Inr c' \<and> stream_holds c' s (as @ bs)
    \<and> (\<forall>a. map_option says (nodes c' a) = map_option says (nodes c a)) \<and> (\<forall>t. t \<noteq> s \<longrightarrow> streams c' t = streams c t)"
  using concat_spec [OF assms] by (auto simp: relinked_def)

theorem stream_concat_appends_witness:
  "\<exists>c'. stream_concat demo_core 3 7 = Inr c' \<and> stream_holds c' 3 [5, 9]"
proof -
  have "stream_holds demo_core 3 [5]" "stream_holds demo_core 7 [9]"
    by (simp_all add: stream_holds_def demo_core_def demo_node_def)
  from stream_concat_appends [OF this] show ?thesis by auto
qed

text \<open>a builder puts one new node at the end of its stream, tagged with the file, line and column of the
  scanner, and leaves every other node and stream.\<close>

theorem build_node_appends:
  assumes "heap_wf c" "stream_holds c s as" "include_path c = Inr f"
  shows "\<exists>c' n. build_node ty v c s = Inr c' \<and> heap_wf c' \<and> stream_holds c' s (as @ [next_ptr c])
    \<and> nodes c' (next_ptr c) = Some n \<and> says n = (ty, v, yycolumn (scan c), yylineno (scan c), f)
    \<and> (\<forall>a. a \<noteq> next_ptr c \<longrightarrow> map_option says (nodes c' a) = map_option says (nodes c a))
    \<and> (\<forall>t. t \<noteq> s \<longrightarrow> streams c' t = streams c t)"
  by (rule build_spec [OF assms])

theorem build_node_appends_witness:
  "\<exists>c'. build_node STREAM_LOAD (One 7) demo_core 3 = Inr c' \<and> stream_holds c' 3 [5, 11]"
proof -
  have "stream_holds demo_core 3 [5]" "include_path demo_core = Inr (Some (chars ''a''))" "next_ptr demo_core = 11"
    by (simp_all add: stream_holds_def demo_core_def demo_node_def include_path_def)
  from build_node_appends [OF demo_core_wf this(1,2), of STREAM_LOAD "One 7"] this(3) show ?thesis by auto
qed

text \<open>C28: \<open>(cond)\<close> without clauses is a node of a null stream, which the code generator follows: it stops at
  a null pointer, whatever the depth.\<close>

theorem empty_cond_faults:
  assumes "nodes c p = Some nd" "tagged nd l STREAM_COND" "nvalue nd = One 0" "streams c 0 = None" "buffer_ok buf"
  shows "emit_node (Suc n) c buf p tail = Inl Bad_Pointer"
proof -
  let ?i = "unat (label_index c)"
  have "relabel c ?i = c" by (simp add: relabel_def)
  then obtain lb where lb: "gen_label c = Inr (relabel c (?i + 1), lb)" using gen_label_run [of c ?i] by auto
  obtain b1 where b1: "emit_debug buf nd = Inr b1" "buffer_ok b1"
    using appends_debug [OF assms(2)] assms(5) by (auto simp: grows_by_def)
  obtain b2 where b2: "emit_comment b1 ''--Cond Start--'' = Inr b2"
    using appends_comment b1(2) by (fastforce simp: grows_by_def)
  have "node_stream (relabel c (?i + 1)) p = Inr 0" "stream_head (relabel c (?i + 1)) 0 = Inl Bad_Pointer"
    using assms by (simp_all add: node_stream_def value_stream_def stream_head_def)
  then have "emit_cond n es c b1 p tail = Inl Bad_Pointer" for es
    by (simp add: emit_cond_def lb b2)
  then show ?thesis using assms(1,2) b1(1) by (simp add: tagged_def pushes_def Let_def)
qed

theorem empty_cond_faults_witness:
  "emit_node 5 (demo_core\<lparr>nodes := [2 \<mapsto> demo_node STREAM_COND (One 0)]\<rparr>) buffer_create 2 False = Inl Bad_Pointer"
proof -
  have "emit_node (Suc 4) (demo_core\<lparr>nodes := [2 \<mapsto> demo_node STREAM_COND (One 0)]\<rparr>) buffer_create 2 False = Inl Bad_Pointer"
    by (rule empty_cond_faults [where nd = "demo_node STREAM_COND (One 0)" and l = "(chars ''a'', 1, 3)"])
      (simp_all add: demo_node_def tagged_def demo_core_def buffer_create_ok chars_def)
  then show ?thesis by simp
qed

end
