(* ===== verification/Program_Props.thy ===== *)
theory Program_Props
  imports Program_Run Compile_Props
begin

text \<open>
  Compiled programs: the text that the code generator writes and what the assembler and the machine make of
  it.
\<close>

section \<open>Compiled code assembles\<close>

text \<open>The text of a stream in the heap, and what the assembler makes of it.\<close>

lemma stream_assembles:
  assumes "stream_is c s ts" "\<forall>t\<in>set ts. good_node t" "size_list size ts + 1 < n" "label_index c = of_nat i"
    "snd (stream_code tail ts i) \<le> 2 ^ 64" "length (draft (fst (stream_code tail ts i))) < 2 ^ 64"
  obtains buf d where
    "emit_stream n c buffer_create s tail = Inr (relabel c (snd (stream_code tail ts i)), buf)"
    "asm_string (yyasm_scan (contents buf)) True = Inr (link (fst (stream_code tail ts i)), Some d)"
    "debug_after (fst (stream_code tail ts i)) d"
proof -
  have "relabel c i = c" using assms(4) by (simp add: relabel_def)
  then obtain buf where "emit_stream n c buffer_create s tail = Inr (relabel c (snd (stream_code tail ts i)), buf)"
    "contents buf = listing (fst (stream_code tail ts i))"
    using emit_stream_writes [OF assms(1,3), of tail, unfolded writes_def, rule_format, OF buffer_create_ok(1), of i]
      buffer_create_ok(2) by auto
  moreover obtain d where "asm_string (yyasm_scan (listing (fst (stream_code tail ts i)))) True
      = Inr (link (fst (stream_code tail ts i)), Some d)" "debug_after (fst (stream_code tail ts i)) d"
    using code_assembles [OF assms(2) HOL.refl assms(5,6)] by blast
  ultimately show thesis using that by simp
qed

text \<open>C8: the code of every program whose strings close and whose other texts are words, numbers or symbols
  assembles: the assembler reads back every line the code generator writes, finds every label, and makes
  of them the linked code and the debug ranges of the program.\<close>

theorem compiled_code_assembles:
  assumes "stream_is c s ts" "\<forall>t\<in>set ts. good_node t" "size_list size ts + 1 < n" "label_index c = of_nat i"
    "snd (stream_code tail ts i) \<le> 2 ^ 64" "length (draft (fst (stream_code tail ts i))) < 2 ^ 64"
  shows "\<exists>c' buf d. emit_stream n c buffer_create s tail = Inr (c', buf)
    \<and> asm_string (yyasm_scan (contents buf)) True = Inr (link (fst (stream_code tail ts i)), Some d)
    \<and> states d = debug_states (fst (stream_code tail ts i))"
  using stream_assembles [OF assms] unfolding debug_after_def by metis

lemma demo_lines:
  "fst (stream_code False demo_tree 0) =
     [Debug (chars ''a'', 1, 3), Comment ''--If Start--'', Debug (chars ''a'', 1, 3), Ins (chars ''#t''), Jump OP_JNF 0,
      Debug (chars ''a'', 1, 3), Ins (chars ''2''), Jump OP_JMP 1, Comment ''--If true--'', Label 0,
      Debug (chars ''a'', 1, 3), Ins (chars ''1''), Comment ''--If Done--'', Label 1, Comment ''--If End--'']"
  "snd (stream_code False demo_tree 0) = 2"
  unfolding demo_tree_def Let_def demo_code by simp_all

lemma demo_texts:
  "ins_code (chars ''#t'') = Some [OP_LIT_TRUE]" "ins_code (chars ''1'') = Some (OP_LIT_FIXNUM # INT_64 1)"
  "ins_code (chars ''2'') = Some (OP_LIT_FIXNUM # INT_64 2)"
  "good_text (chars ''#t'')" "good_text (chars ''1'')" "good_text (chars ''2'')"
proof -
  have w: "(''#t'', INITIAL, OP_LIT_TRUE) \<in> set words \<union> set more_words" by (simp add: words_def)
  have n: "show_int 1 = chars ''1''" "show_int 2 = chars ''2''" by (simp_all add: show_int_def show_nat.simps chars_def)
  show "ins_code (chars ''#t'') = Some [OP_LIT_TRUE]" "good_text (chars ''#t'')"
    using reads_word [OF w] reads_code by blast+
  show "ins_code (chars ''1'') = Some (OP_LIT_FIXNUM # INT_64 1)" "good_text (chars ''1'')"
    using reads_number [of 1] reads_code unfolding n by blast+
  show "ins_code (chars ''2'') = Some (OP_LIT_FIXNUM # INT_64 2)" "good_text (chars ''2'')"
    using reads_number [of 2] reads_code unfolding n by blast+
qed

lemma demo_good: "\<forall>t\<in>set demo_tree. good_node t"
proof -
  have "good_loc (chars ''a'', 1, 3)" by (simp add: good_loc_def chars_def quotable_def)
  then show ?thesis using demo_texts by (simp add: demo_tree_def Let_def)
qed

lemma demo_link:
  "link (fst (stream_code False demo_tree 0)) =
     [OP_LIT_TRUE, OP_JNF] @ INT_64 18 @ [OP_LIT_FIXNUM] @ INT_64 2 @ [OP_JMP] @ INT_64 9 @ [OP_LIT_FIXNUM] @ INT_64 1"
  unfolding demo_lines by (simp add: link_def label_pos_def demo_texts)

theorem compiled_code_assembles_witness:
  "\<exists>c' buf d. emit_stream 20 demo_core buffer_create 1 False = Inr (c', buf)
    \<and> asm_string (yyasm_scan (contents buf)) True = Inr ([OP_LIT_TRUE, OP_JNF] @ INT_64 18 @ [OP_LIT_FIXNUM] @ INT_64 2
        @ [OP_JMP] @ INT_64 9 @ [OP_LIT_FIXNUM] @ INT_64 1, Some d)
    \<and> states d = [\<lparr>ds_file = chars ''a'', ds_line = 1, ds_column = 3, ds_start = 0\<rparr>]"
proof -
  have n: "snd (stream_code False demo_tree 0) \<le> 2 ^ 64" unfolding demo_lines by simp
  have l: "length (draft (fst (stream_code False demo_tree 0))) < 2 ^ 64"
    unfolding length_link [symmetric] demo_link by simp
  have d: "debug_states (fst (stream_code False demo_tree 0)) = [\<lparr>ds_file = chars ''a'', ds_line = 1, ds_column = 3, ds_start = 0\<rparr>]"
    unfolding demo_lines by (simp add: debug_states_def add_range_def demo_texts)
  show ?thesis
    using compiled_code_assembles [OF demo_stream demo_good demo_fuel n l] unfolding demo_link d .
qed

text \<open>C27: the code generator writes the lines of the program's code, each label in them is one of those it
  took from the counter of the compiler, each is placed once, every jump goes to one of them, and as long as
  the counter does not wrap their names in the text differ.\<close>

theorem labels_resolve:
  assumes "stream_is c s ts" "size_list size ts + 1 < n" "label_index c = of_nat i" "buffer_ok b"
    and "snd (stream_code tail ts i) \<le> 2 ^ 64"
  shows "\<exists>buf'. emit_stream n c b s tail = Inr (c\<lparr>label_index := of_nat (snd (stream_code tail ts i))\<rparr>, buf')
    \<and> contents buf' = contents b @ listing (fst (stream_code tail ts i))
    \<and> set (Emit_Labels.labels (fst (stream_code tail ts i))) \<subseteq> {i..<snd (stream_code tail ts i)}
    \<and> set (Emit_Labels.targets (fst (stream_code tail ts i))) \<subseteq> set (Emit_Labels.labels (fst (stream_code tail ts i)))
    \<and> distinct (map label_name (Emit_Labels.labels (fst (stream_code tail ts i))))"
proof -
  let ?ls = "fst (stream_code tail ts i)"
  have "relabel c i = c" using assms(3) by (simp add: relabel_def)
  then obtain buf' where w: "emit_stream n c b s tail = Inr (relabel c (snd (stream_code tail ts i)), buf')"
    "contents buf' = contents b @ listing ?ls"
    using emit_stream_writes [OF assms(1,2), of tail, unfolded writes_def, rule_format, OF assms(4), of i] by auto
  have "resolves {} {} (stream_code tail ts)" by (rule code_resolves(4))
  then have r: "distinct (Emit_Labels.labels ?ls)" "set (Emit_Labels.labels ?ls) \<subseteq> {i..<snd (stream_code tail ts i)}" "set (Emit_Labels.targets ?ls) \<subseteq> set (Emit_Labels.labels ?ls)"
    by (auto simp: resolves_def)
  have "inj_on label_name (set (Emit_Labels.labels ?ls))"
    using r(2) assms(5) by (intro inj_onI label_name_inj) auto
  then show ?thesis using w r by (auto simp: relabel_def distinct_map)
qed

theorem labels_resolve_witness:
  "\<exists>buf'. emit_stream 20 demo_core buffer_create 1 False = Inr (demo_core\<lparr>label_index := 2\<rparr>, buf')
    \<and> contents buf' = listing (fst (stream_code False demo_tree 0))
    \<and> Emit_Labels.labels (fst (stream_code False demo_tree 0)) = [0, 1] \<and> Emit_Labels.targets (fst (stream_code False demo_tree 0)) = [0, 1]
    \<and> distinct (map label_name [0, 1])"
proof -
  have n: "snd (stream_code False demo_tree 0) = 2" "Emit_Labels.labels (fst (stream_code False demo_tree 0)) = [0, 1]"
    "Emit_Labels.targets (fst (stream_code False demo_tree 0)) = [0, 1]"
    unfolding demo_lines by simp_all
  have "snd (stream_code False demo_tree 0) \<le> 2 ^ 64" using demo_lines(2) by simp
  from labels_resolve [OF demo_stream demo_fuel buffer_create_ok(1) this] show ?thesis
    unfolding n buffer_create_ok(2) by simp
qed

section \<open>Compiled programs compute their values\<close>

text \<open>C1: a program of numbers, booleans, arithmetic, comparisons, \<open>if\<close>, \<open>cond\<close>, \<open>and\<close>, \<open>or\<close> and sequences
  that has a value is compiled, assembles, and its code, loaded into any machine that stands between two
  evaluations, runs to its end with that value on top of the stack, however much more fuel it is given,
  and nothing is printed or changed outside the machine.\<close>

theorem compiled_program_runs:
  assumes "stream_is c s ts" "\<forall>t\<in>set ts. good_node t" "size_list size ts + 1 < n" "label_index c = of_nat i"
    "snd (stream_code tail ts i) \<le> 2 ^ 64" "length (draft (fst (stream_code tail ts i))) < 2 ^ 62"
    and v: "eval_seq ts = Some v" and vm: "ready vm vs"
  shows "\<exists>c' buf code d rounds vm1 p vm'. emit_stream n c buffer_create s tail = Inr (c', buf)
    \<and> asm_string (yyasm_scan (contents buf)) True = Inr (code, Some d)
    \<and> code_block vm code = Inr (vm1, p) \<and> has_stack vm' (v # vs) \<and> same_world vm vm'
    \<and> (\<forall>m. vm_eval (rounds + m) x vm1 (of_nat (length code)) p dbg = Some (Inr (vm', exit_status vm)))"
proof -
  have len: "length (draft (fst (stream_code tail ts i))) < 2 ^ 64" "length (link (fst (stream_code tail ts i))) < 2 ^ 62"
    using assms(6) by (simp_all add: length_link)
  show ?thesis
    using stream_assembles [OF assms(1-5) len(1)] code_runs [OF vm v HOL.refl len(2), of x dbg] by metis
qed

text \<open>The program \<open>(+ 1 2)\<close> of a file \<open>a\<close> and its tree, with the text that the scanner gives to its operator.\<close>

definition sum_core :: compiler_core where
  "sum_core = demo_core
     \<lparr>nodes := [2 \<mapsto> demo_node STREAM_MATH (Two 3 4), 5 \<mapsto> demo_node STREAM_OP (Literal (chars ''+ '')),
        6 \<mapsto> demo_node STREAM_TWO_ARG (Two 7 8), 9 \<mapsto> demo_node STREAM_LITERAL (Literal (chars ''1'')),
        10 \<mapsto> demo_node STREAM_LITERAL (Literal (chars ''2''))]\<rparr>"

definition sum_tree :: "ast list" where
  "sum_tree = (let l = (chars ''a'', 1, 3) in [Math l (chars ''+ '') [Lit l (chars ''1'')] [Lit l (chars ''2'')]])"

lemma sum_stream: "stream_is sum_core 1 sum_tree" "size_list size sum_tree + 1 < 20" "label_index sum_core = of_nat 0"
  by (simp_all add: sum_tree_def Let_def sum_core_def demo_core_def demo_node_def stream_is_def stream_at_def node_at_def
      tagged_def says_text_def two_streams_def two_arg_at_def chars_def)

lemma sum_texts: "good_text (chars ''+ '')" "ins_code (chars ''+ '') = Some [OP_ADD]" "good_text (chars ''< '')" "ins_code (chars ''< '') = Some [OP_NUMERIC_LT]"
proof -
  have "(''+'', INITIAL, OP_ADD) \<in> set words \<union> set more_words" "(''<'', INITIAL, OP_NUMERIC_LT) \<in> set words \<union> set more_words"
    by (simp_all add: words_def more_words_def)
  moreover have "list_all is_ws [32]" by (simp add: is_ws_def)
  ultimately have "reads (chars ''+'' @ [32]) [OP_ADD] \<and> good_text (chars ''+'' @ [32])"
    "reads (chars ''<'' @ [32]) [OP_NUMERIC_LT] \<and> good_text (chars ''<'' @ [32])" using reads_word_space by blast+
  moreover have "chars ''+'' @ [32] = chars ''+ ''" "chars ''<'' @ [32] = chars ''< ''" by (simp_all add: chars_def)
  ultimately show "good_text (chars ''+ '')" "ins_code (chars ''+ '') = Some [OP_ADD]"
    "good_text (chars ''< '')" "ins_code (chars ''< '') = Some [OP_NUMERIC_LT]" using reads_code by simp_all
qed

lemma sum_good: "\<forall>t\<in>set sum_tree. good_node t"
proof -
  have "good_loc (chars ''a'', 1, 3)" by (simp add: good_loc_def chars_def quotable_def)
  then show ?thesis using demo_texts sum_texts by (simp add: sum_tree_def Let_def)
qed

lemma math_code: "stream_code tail [Math l s [Lit m u] [Lit n v]] i = ([Debug l, Debug m, Ins u, Debug n, Ins v, Ins s], i)"
  by (simp add: code_simps gen_simps)

lemma sum_lines:
  "snd (stream_code False sum_tree 0) = 0" "length (draft (fst (stream_code False sum_tree 0))) = 19"
  unfolding sum_tree_def Let_def math_code by (simp_all add: draft_def demo_texts sum_texts)

lemma number_values:
  "literal_value (chars ''1'') = Some (Int_Val 1)" "literal_value (chars ''2'') = Some (Int_Val 2)"
proof -
  have n: "show_int 1 = chars ''1''" "show_int 2 = chars ''2''" by (simp_all add: show_int_def show_nat.simps chars_def)
  then have "strtoq (chars ''1'') = 1" "strtoq (chars ''2'') = 2" using strtoq_show_int [of 1] strtoq_show_int [of 2] by simp_all
  moreover have "chars w \<noteq> chars ''#t''" "chars w \<noteq> chars ''#f''" if "w = ''1'' \<or> w = ''2''" for w using that by (auto simp: chars_def)
  ultimately show "literal_value (chars ''1'') = Some (Int_Val 1)" "literal_value (chars ''2'') = Some (Int_Val 2)"
    using n by (simp_all add: literal_value_def)
qed

lemma operate_values: "operate (chars ''+ '') (Int_Val a) (Int_Val b) = Some (Int_Val (a + b))"
  "operate (chars ''< '') (Int_Val a) (Int_Val b) = Some (Bool_Val (sint a < sint b))"
  by (simp_all add: operate_def operator_word_def operators_def chars_def is_ws_def compare_fn_def arith_def op_codes)

lemma sum_value: "eval_seq sum_tree = Some (Int_Val 3)"
  by (simp add: sum_tree_def Let_def number_values operate_values)

theorem compiled_program_runs_witness:
  "\<exists>vm c' buf code d rounds vm1 p vm'. vm_create () = Inr vm
    \<and> emit_stream 20 sum_core buffer_create 1 False = Inr (c', buf)
    \<and> asm_string (yyasm_scan (contents buf)) True = Inr (code, Some d)
    \<and> code_block vm code = Inr (vm1, p) \<and> has_stack vm' [Int_Val 3]
    \<and> vm_eval rounds closed_world vm1 (of_nat (length code)) p [] = Some (Inr (vm', 0))"
proof -
  obtain vm where vm: "vm_create () = Inr vm" "ready vm []" "exit_status vm = 0" using ready_new by metis
  have n: "snd (stream_code False sum_tree 0) \<le> 2 ^ 64" unfolding sum_lines by simp
  have l: "length (draft (fst (stream_code False sum_tree 0))) < 2 ^ 62" unfolding sum_lines by simp
  from compiled_program_runs [OF sum_stream(1) sum_good sum_stream(2,3) n l sum_value vm(2), of closed_world "[]"]
  show ?thesis unfolding vm(3) using vm(1) by (metis add_0_right)
qed

end
