(* ===== verification/Driver_Props.thy ===== *)
theory Driver_Props
  imports Driver_Text Program_Props
begin

text \<open>
  Properties of the compiler's program: what the command line means, what the assembly text holds, and the
  file that comes out for a source program.
\<close>

section \<open>The text of an attachment\<close>

definition attachment_text :: "u8 list \<Rightarrow> u8 list list \<Rightarrow> debug_info \<Rightarrow> u8 list" where
  "attachment_text code names d = target_preamble @ target_global_template (chars ''scheme_code'') @ line_prefix
     @ code_text (length code) 0 code @ newline @ newline
     @ target_global_template (chars ''scheme_code_size'') @ quad (show_nat (minus_one (length code))) @ newline
     @ debug_text names (entries (files d)) (states d) @ target_postamble"

lemma buffer_read_all:
  assumes "buffer_ok b"
  shows "\<exists>pad. buffer_read b (buffer_size b + 1) = contents b @ [pad]"
proof -
  have k: "\<forall>x\<in>set (blocks b). length x = BLOCK_SIZE" "length (blocks b) = used b div BLOCK_SIZE + 1"
    using assms by (simp_all add: buffer_ok_def)
  have "length (concat (blocks b)) = length (blocks b) * BLOCK_SIZE" using k(1) by (simp add: length_concat_blocks)
  also have "\<dots> > used b" unfolding k(2) by (simp add: BLOCK_SIZE_def dividend_less_div_times)
  finally have l: "used b < length (concat (blocks b))" .
  have "buffer_read b (buffer_size b + 1) = take (used b + 1) (concat (blocks b))"
    using read_loop_take [OF k(1), of 0 "used b + 1"] l by (simp add: buffer_read_def buffer_size_def)
  also have "\<dots> = contents b @ [concat (blocks b) ! used b]" using l by (simp add: take_Suc_conv_app_nth contents_def)
  finally show ?thesis ..
qed

lemma attachment_run:
  assumes a: "asm_string (yyasm_scan asm_str) True = Inr (code, Some d)" and d: "debug_ok d bs"
  shows "\<exists>pad. buildAttachment asm_str = Inr (attachment_text code (names_of bs) d @ [pad])"
proof -
  let ?size = "quad (show_nat (minus_one (length code))) @ newline"
  let ?e = "\<lambda>out. rbind (fputs target_preamble out) (\<lambda>out. rbind (writeGlobalSymbol ''scheme_code'' out) (\<lambda>out.
     rbind (fputs line_prefix out) (\<lambda>out. rbind (write_code (length code) 0 code out) (\<lambda>out.
     rbind (fputs (newline @ newline) out) (\<lambda>out. rbind (writeGlobalSymbol ''scheme_code_size'' out) (fputs ?size))))))"
  have "grows_by ?e (target_preamble @ target_global_template (chars ''scheme_code'') @ line_prefix @ code_text (length code) 0 code
      @ (newline @ newline) @ target_global_template (chars ''scheme_code_size'') @ ?size)"
    by (intro grows_seq grows_fputs grows_global write_code_grows)
  then obtain out where o: "?e buffer_create = Inr out" "buffer_ok out" "contents out = target_preamble
      @ target_global_template (chars ''scheme_code'') @ line_prefix @ code_text (length code) 0 code
      @ (newline @ newline) @ target_global_template (chars ''scheme_code_size'') @ ?size"
    using buffer_create_ok unfolding grows_by_def by force
  have r: "buildAttachment asm_str = rbind (?e buffer_create) (\<lambda>out. rbind (writeDebugInfo d out) (\<lambda>out. rbind (fputs target_postamble out)
      (\<lambda>b. Inr (buffer_read b (buffer_size b + 1)))))"
    using a by (simp add: buildAttachment_def Let_def rbind_assoc)
  obtain out2 where o2: "writeDebugInfo d out = Inr out2" "buffer_ok out2"
    "contents out2 = contents out @ debug_text (names_of bs) (entries (files d)) (states d)"
    using writeDebugInfo_run [OF d o(2)] by auto
  obtain out3 where o3: "fputs target_postamble out2 = Inr out3" "buffer_ok out3" "contents out3 = contents out2 @ target_postamble"
    using grows_fputs o2(2) unfolding grows_by_def by blast
  have "contents out3 = attachment_text code (names_of bs) d" by (simp add: attachment_text_def o3(3) o2(3) o(3))
  then show ?thesis using buffer_read_all [OF o3(2)] o2(1) o3(1) unfolding r o(1) by simp
qed

text \<open>The debug information of assembled lines has its names in its table.\<close>

lemma debug_states_names: "s \<in> set (debug_states ls) \<Longrightarrow> ds_file s \<in> file_names ls"
proof (induction ls rule: rev_induct)
  case (snoc l ls)
  then show ?case by (auto simp: debug_states_snoc file_names_snoc add_range_def split: line.splits if_splits)
qed (simp add: debug_states_def)

lemma bucket_keys:
  assumes "b_inv hash_string hash_string_cmp bs" "(k, u) \<in> set (concat bs)"
  shows "b_lookup hash_string hash_string_cmp bs k \<noteq> None"
proof -
  obtain b where "b \<in> set bs" "(k, u) \<in> set b" using assms(2) by auto
  then obtain i where "i < length bs" "(k, u) \<in> set (bs ! i)" by (metis in_set_conv_nth)
  moreover from this have "bucket_of hash_string (length bs) k = i" using assms(1) by (force simp: b_inv_def)
  ultimately show ?thesis unfolding b_lookup_def string_key.chain_lookup_None by (force simp: hash_string_cmp_EQ)
qed

lemma debug_after_ok:
  assumes "debug_after ls d"
  shows "\<exists>bs. debug_ok d bs \<and> set (names_of bs) \<subseteq> file_names ls"
proof -
  obtain bs where bs: "table_ok hash_string hash_string_cmp (files_store d) (files d) bs" "states d = debug_states ls"
    "\<forall>x\<in>set (states d). 0 \<notin> set (ds_file x)"
    "\<And>k. b_lookup hash_string hash_string_cmp bs k = (if c_str k \<in> file_names ls then Some 1 else None)"
    using assms by (auto simp: debug_after_def)
  have i: "b_inv hash_string hash_string_cmp bs" using bs(1) by (simp add: table_ok_def)
  have "\<forall>s\<in>set (states d). c_str (ds_file s) \<in> file_names ls" using bs(2,3) debug_states_names by simp
  then have "debug_ok d bs" using bs(1,4) by (simp add: debug_ok_def)
  moreover have "set (names_of bs) \<subseteq> file_names ls"
    using bucket_keys [OF i] bs(4) unfolding names_of_def by (fastforce split: if_splits)
  ultimately show ?thesis by blast
qed

section \<open>The command line\<close>

definition cli_flags :: "u8 list list" where
  "cli_flags = [chars ''--no-pre'', chars ''--no-baselib'', chars ''--no-assemble'', chars ''--no-debug'']"

lemma flags_neq:
  "chars ''--no-pre'' \<noteq> chars ''--no-baselib''" "chars ''--no-pre'' \<noteq> chars ''--no-assemble''" "chars ''--no-pre'' \<noteq> chars ''--no-debug''"
  "chars ''--no-baselib'' \<noteq> chars ''--no-assemble''" "chars ''--no-baselib'' \<noteq> chars ''--no-debug''"
  "chars ''--no-assemble'' \<noteq> chars ''--no-debug''"
  by (simp_all add: chars_def)

lemma parse_fold:
  "fold parse_option args opts =
     (let names = filter (\<lambda>a. a \<notin> set cli_flags) args;
          file = (case filename opts of None \<Rightarrow> (if names = [] then None else Some (hd names)) | Some f \<Rightarrow> Some f);
          outs = (case filename opts of None \<Rightarrow> tl names | Some f \<Rightarrow> names)
      in opts\<lparr>filename := file, outfile := (if outs = [] then outfile opts else Some (last outs)),
           pre_post_amble := (pre_post_amble opts \<and> chars ''--no-pre'' \<notin> set args),
           include_baselib := (include_baselib opts \<and> chars ''--no-baselib'' \<notin> set args),
           assemble := (assemble opts \<and> chars ''--no-assemble'' \<notin> set args),
           debugging := (debugging opts \<and> chars ''--no-debug'' \<notin> set args)\<rparr>)"
proof (induction args arbitrary: opts)
  case Nil
  then show ?case by (cases opts) (simp add: Let_def split: option.split)
next
  case (Cons a args)
  show ?case
  proof (cases "a \<in> set cli_flags")
    case True
    then consider "a = chars ''--no-pre''" | "a = chars ''--no-baselib''" | "a = chars ''--no-assemble''" | "a = chars ''--no-debug''"
      by (auto simp: cli_flags_def)
    then show ?thesis
    proof cases
      case 1
      then have e: "parse_option a opts = opts\<lparr>pre_post_amble := False\<rparr>" using flags_neq by (simp add: parse_option_def)
      show ?thesis unfolding fold_Cons o_apply Cons.IH e using 1 True flags_neq by (cases opts) (simp add: Let_def)
    next
      case 2
      then have e: "parse_option a opts = opts\<lparr>include_baselib := False\<rparr>" using flags_neq by (simp add: parse_option_def)
      show ?thesis unfolding fold_Cons o_apply Cons.IH e using 2 True flags_neq by (cases opts) (simp add: Let_def)
    next
      case 3
      then have e: "parse_option a opts = opts\<lparr>assemble := False\<rparr>" using flags_neq by (simp add: parse_option_def)
      show ?thesis unfolding fold_Cons o_apply Cons.IH e using 3 True flags_neq by (cases opts) (simp add: Let_def)
    next
      case 4
      then have e: "parse_option a opts = opts\<lparr>debugging := False\<rparr>" using flags_neq by (simp add: parse_option_def)
      show ?thesis unfolding fold_Cons o_apply Cons.IH e using 4 True flags_neq by (cases opts) (simp add: Let_def)
    qed
  next
    case False
    then have "parse_option a opts = (if filename opts = None then opts\<lparr>filename := Some a\<rparr> else opts\<lparr>outfile := Some a\<rparr>)"
      "a \<noteq> chars ''--no-pre''" "a \<noteq> chars ''--no-baselib''" "a \<noteq> chars ''--no-assemble''" "a \<noteq> chars ''--no-debug''"
      by (auto simp: parse_option_def cli_flags_def)
    then show ?thesis using False unfolding fold_Cons o_apply Cons.IH
      by (cases opts; cases "filter (\<lambda>a. a \<notin> set cli_flags) args") (auto simp: Let_def split: option.split)
  qed
qed

text \<open>C11: the command line is accepted exactly when it has one to four arguments of which one is not a flag;
  every flag given turns its option off wherever it stands, the first other argument is the source file and
  the last of the others the output file.\<close>

theorem parse_options_spec:
  "parse_options argv default_options =
     (let args = tl argv; names = filter (\<lambda>a. a \<notin> set cli_flags) args in
      if args = [] \<or> 4 < length args \<or> names = [] then Inl Exited
      else Inr \<lparr>exe = hd argv, filename = Some (hd names), outfile = (if tl names = [] then None else Some (last names)),
        pre_post_amble = (chars ''--no-pre'' \<notin> set args), include_baselib = (chars ''--no-baselib'' \<notin> set args),
        assemble = (chars ''--no-assemble'' \<notin> set args), debugging = (chars ''--no-debug'' \<notin> set args)\<rparr>)"
proof -
  have "length argv < 2 \<longleftrightarrow> tl argv = []" "5 < length argv \<longleftrightarrow> 4 < length (tl argv)" by (cases argv; auto simp: Suc_le_eq not_less_eq)+
  then show ?thesis unfolding parse_options_def parse_fold by (auto simp: Let_def default_options_def last_tl)
qed

section \<open>The file that is written\<close>

text \<open>C10: the text that is built for a program has its code in it: the numbers after \<open>scheme_code\<close> are
  the bytes of the code, in order and all of them. The size after it is one less than their number, and the
  names and ranges of the debug information follow.\<close>

theorem attachment_holds_code:
  assumes "asm_string (yyasm_scan asm_str) True = Inr (code, Some d)" "debug_ok d bs"
  shows "\<exists>rows pad. buildAttachment asm_str = Inr (target_preamble @ target_global_template (chars ''scheme_code'') @ rows @ newline
        @ newline @ target_global_template (chars ''scheme_code_size'') @ quad (show_nat (minus_one (length code))) @ newline
        @ debug_text (names_of bs) (entries (files d)) (states d) @ target_postamble @ [pad])
      \<and> numbers None (rows @ newline) = map unat code"
proof -
  have "numbers None ((line_prefix @ code_text (length code) 0 code) @ newline) = map unat code"
    using numbers_code [of 0 code "length code" "[]"] numbers_skip [OF separators(1)] not_digit by (simp add: newline_def)
  moreover obtain pad where "buildAttachment asm_str = Inr (attachment_text code (names_of bs) d @ [pad])"
    using attachment_run [OF assms] by blast
  ultimately show ?thesis unfolding attachment_text_def append_assoc by fastforce
qed

text \<open>C9: the compiler, run without the bootstrap code, writes to its output file the assembly text of the
  linked code of the program it has parsed.\<close>

theorem compiler_writes_program:
  assumes opts: "parse_options argv default_options = Inr opts" "\<not> pre_post_amble opts" "assemble opts" "filename opts = Some file"
    and w: "case outfile opts of None \<Rightarrow> True | Some f \<Rightarrow> opens w f" "writes_all w"
    and home: "realpath w (exe opts) = Some path" "compiler_create (dirname path) = Inr c0"
    and c: "compile_file (outside.truncate w) c0 file (include_baselib opts) = Inr c"
    and ts: "stream_is c (stream c) ts" "\<forall>t\<in>set ts. good_node t" "size_list size ts + 1 < n" "label_index c = of_nat i"
      "snd (stream_code False ts i) \<le> 2 ^ 64" "length (draft (fst (stream_code False ts i))) < 2 ^ 64"
  shows "\<exists>d bs. states d = debug_states (fst (stream_code False ts i)) \<and> debug_ok d bs
    \<and> compiler_main n w argv = Inr (outfile opts, attachment_text (link (fst (stream_code False ts i))) (names_of bs) d)"
proof -
  let ?ls = "fst (stream_code False ts i)"
  have "relabel c i = c" using ts(4) by (simp add: relabel_def)
  then obtain b where b: "emit_stream n c buffer_create (stream c) False = Inr (relabel c (snd (stream_code False ts i)), b)"
    "buffer_ok b" "contents b = listing ?ls"
    using emit_stream_writes [OF ts(1,3), of False, unfolded writes_def, rule_format, OF buffer_create_ok(1), of i]
      buffer_create_ok(2) by auto
  have g: "compiler_code_gen n (loads w) c buffer_create False = Inr (relabel c (snd (stream_code False ts i)), b)"
    using b(1) by (simp add: compiler_code_gen_def)
  have r: "buffer_read b (buffer_size b) = listing ?ls"
    using buffer_read_take [OF b(2), of "used b"] length_contents [OF b(2)] b(3) by (simp add: buffer_size_def)
  obtain d where d: "asm_string (yyasm_scan (listing ?ls)) True = Inr (link ?ls, Some d)" "debug_after ?ls d"
    using code_assembles [OF ts(2) HOL.refl ts(5,6)] by blast
  obtain bs where bs: "debug_ok d bs" using debug_after_ok [OF d(2)] by blast
  have m: "compiler_main n w argv = rbind (buildAttachment (listing ?ls)) (\<lambda>s. writeToFile w opts s (minus_one (length s)))"
    using opts home c g r by (simp add: compiler_main_def Let_def)
  have "compiler_main n w argv = Inr (outfile opts, attachment_text (link ?ls) (names_of bs) d)"
    using attachment_run [OF d(1) bs] w unfolding m
    by (auto simp: writeToFile_def minus_one_def split: if_splits option.splits)
  then show ?thesis using bs d(2) by (auto simp: debug_after_def)
qed

section \<open>Examples\<close>

definition true_line :: "line list" where "true_line = [Ins (chars ''#t'')]"

lemma true_line_facts:
  "list_all line_good true_line" "0 \<notin> set (listing true_line)" "link true_line = [OP_LIT_TRUE]" "file_names true_line = {}"
  "distinct (Emit_Labels.labels true_line)" "set (Emit_Labels.targets true_line) \<subseteq> set (Emit_Labels.labels true_line)"
  "length (draft true_line) < 2 ^ 64"
proof -
  have w: "(''#t'', INITIAL, OP_LIT_TRUE) \<in> set words \<union> set more_words" by (simp add: words_def)
  then have r: "reads (chars ''#t'') [OP_LIT_TRUE]" by (rule reads_word(1))
  then show "list_all line_good true_line" by (auto simp: true_line_def)
  show "link true_line = [OP_LIT_TRUE]" "length (draft true_line) < 2 ^ 64"
    using reads_code [OF r] by (simp_all add: true_line_def link_def)
  show "0 \<notin> set (listing true_line)" by (simp add: true_line_def chars_def)
qed (simp_all add: true_line_def file_names_def)

theorem attachment_holds_code_witness:
  "\<exists>rows rest. buildAttachment (listing true_line) = Inr (target_preamble @ target_global_template (chars ''scheme_code'') @ rows @ newline
      @ newline @ target_global_template (chars ''scheme_code_size'') @ quad (show_nat 0) @ newline @ rest)
    \<and> numbers None (rows @ newline) = [unat OP_LIT_TRUE]"
proof -
  obtain d where d: "asm_string (yyasm_scan (listing true_line)) True = Inr ([OP_LIT_TRUE], Some d)" "debug_after true_line d"
    using assemble_listing [OF true_line_facts(1,2,5-7)] unfolding true_line_facts(3) by blast
  obtain bs where bs: "debug_ok d bs" "set (names_of bs) \<subseteq> {}" using debug_after_ok [OF d(2)] unfolding true_line_facts(4) by blast
  have m: "minus_one (length [OP_LIT_TRUE]) = 0" by (simp add: minus_one_def)
  from attachment_holds_code [OF d(1) bs(1)] show ?thesis unfolding m by auto
qed

theorem parse_example:
  "parse_options [chars ''/b/c'', chars ''--no-pre'', chars ''--no-baselib'', chars ''x'', chars ''o''] default_options
    = Inr \<lparr>exe = chars ''/b/c'', filename = Some (chars ''x''), outfile = Some (chars ''o''), pre_post_amble = False,
        include_baselib = False, assemble = True, debugging = True\<rparr>"
  by (simp add: parse_options_def parse_option_def default_options_def chars_def)

text \<open>A system where every file can be opened and the parser leaves the program of \<open>demo_core\<close>.\<close>

definition demo_system :: system where
  "demo_system = \<lparr>fopen = (\<lambda>path. Some [49]), realpath = Some, yyparse = (\<lambda>c. Inr demo_core), loads = (\<lambda>path. None),
     opens = (\<lambda>path. True), writes_all = True\<rparr>"

theorem compiler_writes_program_witness:
  "\<exists>d bs. debug_ok d bs
    \<and> compiler_main 20 demo_system [chars ''/b/c'', chars ''--no-pre'', chars ''--no-baselib'', chars ''x'', chars ''o'']
      = Inr (Some (chars ''o''), attachment_text ([OP_LIT_TRUE, OP_JNF] @ INT_64 18 @ [OP_LIT_FIXNUM] @ INT_64 2
          @ [OP_JMP] @ INT_64 9 @ [OP_LIT_FIXNUM] @ INT_64 1) (names_of bs) d)"
proof -
  have dir: "dirname (chars ''/b/c'') = chars ''/b''" by (simp add: dirname_def strip_slashes_def chars_def)
  obtain c0 where c0: "compiler_create (chars ''/b'') = Inr c0" "include_depth c0 = - 1" "length (include_stack c0) = 64"
    by (auto simp: compiler_create_def Let_def PATH_MAX_def c_str_Cons stream_create_def chars_def MAX_INCLUDE_DEPTH_def)
  have cf: "compile_file (outside.truncate demo_system) c0 (chars ''x'') False = Inr demo_core"
    using c0(2,3) by (simp add: compile_file_def push_include_path_def include_base_def demo_system_def outside.truncate_def)
  have s: "stream demo_core = 1" by (simp add: demo_core_def)
  have n: "snd (stream_code False demo_tree 0) \<le> 2 ^ 64" unfolding demo_lines by simp
  have l: "length (draft (fst (stream_code False demo_tree 0))) < 2 ^ 64"
    unfolding length_link [symmetric] demo_link by simp
  obtain opts where opts: "parse_options [chars ''/b/c'', chars ''--no-pre'', chars ''--no-baselib'', chars ''x'', chars ''o''] default_options = Inr opts"
    "\<not> pre_post_amble opts" "assemble opts" "filename opts = Some (chars ''x'')" "outfile opts = Some (chars ''o'')"
    "exe opts = chars ''/b/c''" "\<not> include_baselib opts" using parse_example by simp
  have w: "case outfile opts of None \<Rightarrow> True | Some f \<Rightarrow> opens demo_system f" "writes_all demo_system"
    "realpath demo_system (exe opts) = Some (chars ''/b/c'')" using opts(5,6) by (simp_all add: demo_system_def)
  have c: "compiler_create (dirname (chars ''/b/c'')) = Inr c0"
    "compile_file (outside.truncate demo_system) c0 (chars ''x'') (include_baselib opts) = Inr demo_core"
    "stream_is demo_core (stream demo_core) demo_tree"
    using c0(1) cf opts(7) demo_stream s by (simp_all add: dir)
  show ?thesis
    using compiler_writes_program [OF opts(1-4) w c demo_good demo_fuel n l] unfolding demo_link opts(5) by blast
qed

end
