(* ===== verification/Io_Lib.thy ===== *)
theory Io_Lib
  imports Vm_Props
begin

text \<open>
  The io library, \<open>io_core.c\<close>, and the macros of \<open>vm.h\<close> that put a C pointer into a byte vector of the
  machine. The streams of the C library are numbers, the addresses of their structures.
\<close>

section \<open>Pointers in byte vectors\<close>

text \<open>The bytes of a pointer in memory, the lowest first, are those of a number in code.\<close>

definition UNSTUFF_POINTER :: "'w vm \<Rightarrow> addr \<Rightarrow> u64 res" where
  "UNSTUFF_POINTER vm pointer =
     rbind (get_obj vm pointer) (\<lambda>po.
     rbind (deref (blobs vm (snd (block (ovalue po))))) (\<lambda>vector.
       if length vector < 8 then Inl Out_Of_Bounds else Inr (int_of_bytes (take 8 vector))))"

definition STUFF_POINTER :: "'w vm \<Rightarrow> u64 \<Rightarrow> ('w vm \<times> addr) res" where
  "STUFF_POINTER vm pointer =
     rbind (vm_make_byte_vector vm 8) (\<lambda>(vm, ob).
     rbind (get_obj vm ob) (\<lambda>oo.
     let p = snd (block (ovalue oo)) in
     rbind (deref (blobs vm p)) (\<lambda>vector.
       if length vector < 8 then Inl Out_Of_Bounds
       else Inr (vm\<lparr>blobs := (blobs vm)(p \<mapsto> INT_64 pointer @ drop 8 vector)\<rparr>, ob))))"

definition STUFFED_POINTER_OP :: "u64 \<Rightarrow> 'w vm \<Rightarrow> 'w vm res" where
  "STUFFED_POINTER_OP pointer vm =
     rbind (vm_pop vm) (\<lambda>(vm, _).
     rbind (STUFF_POINTER vm pointer) (\<lambda>(vm, ob). Inr (vm_push vm ob)))"

section \<open>The library\<close>

text \<open>The streams, and writing to one that is not \<open>stdout\<close>, which faults if there is no such stream.\<close>

record 'w stdio =
  f_stdin :: u64
  f_stdout :: u64
  f_stderr :: u64
  f_write :: "u64 \<Rightarrow> u8 list \<Rightarrow> 'w \<Rightarrow> 'w res"

definition hello_world :: "'w vm \<Rightarrow> 'w vm res" where
  "hello_world vm = Inr (print vm (10 # chars ''HELLO WORLD!'' @ [10]))"

text \<open>\<open>vm_output_object\<close> to the stream \<open>fout\<close>.\<close>

definition output_to :: "'w stdio \<Rightarrow> 'w externs \<Rightarrow> u64 \<Rightarrow> 'w vm \<Rightarrow> addr \<Rightarrow> 'w vm res" where
  "output_to f x fout vm message =
     (if fout = f_stdout f then vm_output_object x vm message
      else
        rbind (vm_output_object x (vm\<lparr>out := []\<rparr>) message) (\<lambda>vm'.
        rbind (f_write f fout (out vm') (world vm')) (\<lambda>w. Inr (vm'\<lparr>out := out vm, world := w\<rparr>))))"

definition say_something :: "'w stdio \<Rightarrow> 'w externs \<Rightarrow> 'w vm \<Rightarrow> 'w vm res" where
  "say_something f x vm =
     rbind (vm_pop vm) (\<lambda>(vm, ob).
     rbind (get_obj vm ob) (\<lambda>oo.
     let (port, rest) = pair (ovalue oo) in
     rbind (get_obj vm rest) (\<lambda>ro.
     let message = fst (pair (ovalue ro)) in
     rbind (UNSTUFF_POINTER vm port) (\<lambda>fout.
     rbind (output_to f x fout vm message) (\<lambda>vm.
     let (vm, e) = vm_alloc vm EMPTY in
       Inr (vm_push vm e))))))"

definition get_stdin :: "'w stdio \<Rightarrow> 'w vm \<Rightarrow> 'w vm res" where
  "get_stdin f = STUFFED_POINTER_OP (f_stdin f)"

definition get_stdout :: "'w stdio \<Rightarrow> 'w vm \<Rightarrow> 'w vm res" where
  "get_stdout f = STUFFED_POINTER_OP (f_stdout f)"

definition get_stderr :: "'w stdio \<Rightarrow> 'w vm \<Rightarrow> 'w vm res" where
  "get_stderr f = STUFFED_POINTER_OP (f_stderr f)"

definition io_export_list :: "'w stdio \<Rightarrow> 'w externs \<Rightarrow> (u8 list \<times> ('w vm \<Rightarrow> 'w vm res)) list" where
  "io_export_list f x =
     [(chars ''stdin'', get_stdin f), (chars ''stdout'', get_stdout f), (chars ''stderr'', get_stderr f),
      (chars ''io-hello-world'', hello_world), (chars ''io-say'', say_something f x)]"

text \<open>The outside with the io library's list at \<open>list\<close> and its functions at the addresses from \<open>base\<close> on.\<close>

definition io_loaded :: "'w stdio \<Rightarrow> addr \<Rightarrow> addr \<Rightarrow> 'w externs \<Rightarrow> 'w externs" where
  "io_loaded f list base x =
     (let es = io_export_list f x in
      x\<lparr>x_exports := (\<lambda>a. if a = list then Some (map (\<lambda>i. (fst (es ! i), base + i)) [0..<length es]) else x_exports x a),
        x_call := (\<lambda>a. if base \<le> a \<and> a < base + length es then snd (es ! (a - base)) else x_call x a)\<rparr>)"

section \<open>Streams as objects\<close>

lemma stuff_pointer_run:
  assumes h: "heap_ok vm" and s: "stk vm xs"
  shows "\<exists>vm' ob. STUFF_POINTER vm p = Inr (vm', ob) \<and> grows vm vm' \<and> ob \<noteq> 0 \<and> UNSTUFF_POINTER vm' ob = Inr p
    \<and> (\<exists>q. objs vm' ob = Some \<lparr>otype = BYTE_VECTOR, ovalue = Block 8 q\<rparr> \<and> blobs vm' q = Some (INT_64 p) \<and> ob < next_addr vm' \<and> q < next_addr vm')"
proof -
  let ?a = "next_addr vm" and ?q = "next_addr vm + 1"
  let ?v = "vm\<lparr>objs := (objs vm)(?a \<mapsto> \<lparr>otype = BYTE_VECTOR, ovalue = Block 8 ?q\<rparr>),
     blobs := (blobs vm)(?q \<mapsto> INT_64 p), next_addr := ?q + 1\<rparr>"
  have "STUFF_POINTER vm p = Inr (?v, ?a)"
    by (simp add: STUFF_POINTER_def vm_make_byte_vector_def vm_alloc_def alloc_object_def alloc_blob_def block_size_def set_obj_def
        get_obj_def block_def)
  moreover have "grows vm ?v" using h by (auto simp: grows_def heap_ok_def kept_def same_world_def)
  moreover have "UNSTUFF_POINTER ?v ?a = Inr p" by (simp add: UNSTUFF_POINTER_def get_obj_def block_def int_of_INT_64)
  moreover have "?a \<noteq> 0" using h by (simp add: heap_ok_def)
  ultimately show ?thesis by (intro exI [of _ ?v] exI [of _ ?a]) simp
qed

lemma stuffed_op_run:
  assumes h: "heap_ok vm" and s: "stk vm (a # xs)"
  shows "\<exists>vm' ob. STUFFED_POINTER_OP p vm = Inr vm' \<and> heap_ok vm' \<and> kept vm vm' \<and> stk vm' (ob # xs) \<and> UNSTUFF_POINTER vm' ob = Inr p"
proof -
  obtain v1 where v1: "vm_pop vm = Inr (v1, a)" "stk v1 xs" "quiet vm v1" "heap_ok v1" using vm_pop_ok [OF s] h by metis
  obtain v2 ob q where v2: "STUFF_POINTER v1 p = Inr (v2, ob)" "grows v1 v2" "ob \<noteq> 0"
    "objs v2 ob = Some \<lparr>otype = BYTE_VECTOR, ovalue = Block 8 q\<rparr>" "blobs v2 q = Some (INT_64 p)" "ob < next_addr v2" "q < next_addr v2"
    using stuff_pointer_run [OF v1(4,2)] by metis
  have s2: "heap_ok v2" "stk v2 xs" using v2(2) stk_grows [OF v1(2) v2(2)] by (simp_all add: grows_def)
  note push = vm_push_grows [OF s2 v2(3)]
  have "objs (vm_push v2 ob) ob = objs v2 ob" "blobs (vm_push v2 ob) q = blobs v2 q"
    using push v2(6,7) by (auto simp: kept_def)
  then have "UNSTUFF_POINTER (vm_push v2 ob) ob = Inr p"
    using v2(4,5) by (simp add: UNSTUFF_POINTER_def get_obj_def block_def int_of_INT_64)
  moreover have "kept vm (vm_push v2 ob)"
    using kept_trans [OF quiet_kept [OF v1(3)] kept_trans [of v1 v2]] v2(2) push by (simp add: grows_def)
  ultimately show ?thesis using v1(1) v2(1) push by (intro exI [of _ "vm_push v2 ob"] exI [of _ ob]) (simp add: STUFFED_POINTER_OP_def)
qed

lemma io_exports:
  assumes "i < 5"
  shows "\<exists>es. x_exports (io_loaded f list base x) list = Some es \<and> length es = 5 \<and> es ! i = (fst (io_export_list f x ! i), base + i)"
    "x_call (io_loaded f list base x) (base + i) = snd (io_export_list f x ! i)"
proof -
  have "length (io_export_list f x) = 5" by (simp add: io_export_list_def)
  then show "\<exists>es. x_exports (io_loaded f list base x) list = Some es \<and> length es = 5 \<and> es ! i = (fst (io_export_list f x ! i), base + i)"
    "x_call (io_loaded f list base x) (base + i) = snd (io_export_list f x ! i)"
    using assms by (simp_all add: io_loaded_def Let_def)
qed

text \<open>C25: the functions 0, 1 and 2 of the io library, called by \<open>call_ext\<close> with any argument, replace it by
  a byte vector that holds the pointer of \<open>stdin\<close>, \<open>stdout\<close> or \<open>stderr\<close>; the pointer is read back as it was
  stored, and nothing that existed before changes.\<close>

theorem io_streams_reach_program:
  assumes h: "heap_ok vm" and s: "stk vm (n # lib # a # xs)" and i: "i < 3"
    and n: "objs vm n = Some \<lparr>otype = FIXNUM, ovalue = Integer (of_nat i)\<rparr>"
    and lib: "objs vm lib = Some \<lparr>otype = LIBRARY, ovalue = Library handle exports 5\<rparr>"
  shows "\<exists>vm' port. op_call_ext (io_loaded f exports base x) vm = Inr vm' \<and> heap_ok vm' \<and> kept vm vm' \<and> stk vm' (port # xs)
    \<and> UNSTUFF_POINTER vm' port = Inr ([f_stdin f, f_stdout f, f_stderr f] ! i)"
proof -
  let ?x = "io_loaded f exports base x" and ?p = "[f_stdin f, f_stdout f, f_stderr f] ! i"
  obtain v1 where v1: "vm_pop vm = Inr (v1, n)" "stk v1 (lib # a # xs)" "quiet vm v1" "heap_ok v1" "objs v1 = objs vm"
    using vm_pop_ok [OF s] h by metis
  obtain v2 where v2: "vm_pop v1 = Inr (v2, lib)" "stk v2 (a # xs)" "quiet v1 v2" "heap_ok v2" "objs v2 = objs v1"
    using vm_pop_ok [OF v1(2)] v1(4) by metis
  obtain v3 port where v3: "STUFFED_POINTER_OP ?p v2 = Inr v3" "heap_ok v3" "kept v2 v3" "stk v3 (port # xs)" "UNSTUFF_POINTER v3 port = Inr ?p"
    using stuffed_op_run [OF v2(4,2)] by metis
  have nz: "n \<noteq> 0" "lib \<noteq> 0" using s by (auto simp: stk_def)
  have i5: "i < 5" using i by simp
  obtain es where es: "x_exports ?x exports = Some es" "length es = 5" "es ! i = (fst (io_export_list f x ! i), base + i)"
    using io_exports(1) [OF i5, of f exports base x] by blast
  have fn: "snd (io_export_list f x ! i) = STUFFED_POINTER_OP ?p"
    using i by (cases i rule: nat.exhaust; cases "i - 1") (auto simp: io_export_list_def get_stdin_def get_stdout_def get_stderr_def less_Suc_eq numeral_3_eq_3)
  have c: "call_export ?x v2 exports (of_nat i) = Inr v3"
    using es i5 io_exports(2) [OF i5, of f exports base x] fn v3(1)
    by (simp add: call_export_def nth_checked_in unat_of_nat)
  have d: "depth v3 = depth v2" using v2(2) v3(4) by (simp add: stk_def)
  have lt: "\<not> sint (5 :: vm_int) < sint (of_nat i :: vm_int)" using i by (cases i rule: nat.exhaust; cases "i - 1") (auto simp: less_Suc_eq numeral_3_eq_3)
  have "op_call_ext ?x vm = Inr v3"
    using v1(1,5) v2(1,5) n lib nz c d lt by (simp add: op_call_ext_def is_type_def get_obj_def library_def integer_def Let_def)
  then show ?thesis using v3 kept_trans [OF quiet_kept [OF v1(3)] kept_trans [OF quiet_kept [OF v2(3)] v3(3)]] by blast
qed

theorem io_streams_reach_program_witness:
  "\<exists>(vm :: unit vm) n lib a vm' port. stk vm [n, lib, a]
    \<and> op_call_ext (io_loaded \<lparr>f_stdin = 100, f_stdout = 200, f_stderr = 300, f_write = (\<lambda>fout bs w. Inr w)\<rparr> 7 1000 closed_world) vm = Inr vm'
    \<and> stk vm' [port] \<and> UNSTUFF_POINTER vm' port = Inr 200"
proof -
  obtain vm :: "unit vm" and n lib a where v: "good vm vm [n, lib, a]"
    "objs vm n = Some \<lparr>otype = FIXNUM, ovalue = Integer 1\<rparr>" "objs vm lib = Some \<lparr>otype = LIBRARY, ovalue = Library 3 7 5\<rparr>"
    using object_machine [of "[\<lparr>otype = FIXNUM, ovalue = Integer 1\<rparr>, \<lparr>otype = LIBRARY, ovalue = Library 3 7 5\<rparr>,
      \<lparr>otype = FIXNUM, ovalue = Integer 0\<rparr>]"] by (auto simp: list_all2_Cons2)
  have h: "heap_ok vm" "stk vm [n, lib, a]" using v(1) by (simp_all add: good_def)
  have n: "objs vm n = Some \<lparr>otype = FIXNUM, ovalue = Integer (of_nat 1)\<rparr>" using v(2) by simp
  have i: "(1 :: nat) < 3" by simp
  from io_streams_reach_program [OF h i n v(3), of "\<lparr>f_stdin = 100, f_stdout = 200, f_stderr = 300, f_write = (\<lambda>fout bs w. Inr w)\<rparr>" 1000 closed_world]
  show ?thesis using h(2) by fastforce
qed

end
