(* ===== verification/Gc_Types.thy ===== *)
theory Gc_Types
  imports Gc Ins_Stream Vm_State
begin

text \<open>
  The types the components register with the collector: \<open>vm_types.c\<close>, \<open>hash_types.c\<close>, \<open>asm_types.c\<close>,
  the types of \<open>buffer_core.c\<close> and of \<open>bootstrap_core.c\<close>. A type is a size and the offsets of the
  pointers the collector follows. The structs are laid out as the ABI of x86-64 does; the lemmas say
  which pointers of a cell and of a node the collector sees.
\<close>

section \<open>The layout of a struct\<close>

text \<open>The name, size and alignment of each member, in the order of the declaration; 64-bit pointers and
  the natural alignment of each type.\<close>

type_synonym field = "string \<times> nat \<times> nat"

definition pointer :: "string \<Rightarrow> field" where "pointer f = (f, 8, 8)"
definition word64 :: "string \<Rightarrow> field" where "word64 f = (f, 8, 8)"
definition int32 :: "string \<Rightarrow> field" where "int32 f = (f, 4, 4)"
definition byte :: "string \<Rightarrow> field" where "byte f = (f, 1, 1)"
definition array_of :: "nat \<Rightarrow> field \<Rightarrow> field" where "array_of n f = (fst f, n * fst (snd f), snd (snd f))"

lemmas field_defs = pointer_def word64_def int32_def byte_def array_of_def

definition align :: "nat \<Rightarrow> nat \<Rightarrow> nat" where
  "align a n = (n + a - 1) div a * a"

fun place :: "nat \<Rightarrow> field list \<Rightarrow> (string \<times> nat) list \<times> nat" where
  "place n [] = ([], n)"
| "place n ((f, sz, a) # fs) = (let (os, m) = place (align a n + sz) fs in ((f, align a n) # os, m))"

definition offsetof :: "field list \<Rightarrow> string \<Rightarrow> nat" where
  "offsetof fs f = the (map_of (fst (place 0 fs)) f)"

definition sizeof :: "field list \<Rightarrow> nat" where
  "sizeof fs = align (foldr (\<lambda>(f, sz, a). max a) fs 1) (snd (place 0 fs))"

lemmas layout_simps = field_defs align_def offsetof_def sizeof_def

definition object_struct :: "field list" where "object_struct = [int32 ''type'', (''value'', 24, 8)]"
definition pair_struct :: "field list" where "pair_struct = [pointer ''car'', pointer ''cdr'']"
definition string_struct :: "field list" where "string_struct = [word64 ''length'', pointer ''bytes'']"
definition vector_struct :: "field list" where "vector_struct = [word64 ''length'', pointer ''vector'']"

definition env_struct :: "field list" where
  "env_struct = [pointer ''code_ref'', word64 ''length'', word64 ''ip'', pointer ''bindings'', byte ''handler'',
     word64 ''handler_addr'', pointer ''parent'', pointer ''debug'', word64 ''debug_count'']"

definition CELL_MAX :: nat where "CELL_MAX = 12"

definition vm_struct :: "field list" where
  "vm_struct = [pointer ''stack_root'', word64 ''depth'', pointer ''gc'', pointer ''empty'', pointer ''vm_true'',
     pointer ''vm_false'', pointer ''reg1'', pointer ''reg2'', pointer ''reg3'', array_of CELL_MAX (int32 ''types''),
     array_of 256 (pointer ''ops''), pointer ''symbol_table'', pointer ''import_table'', int32 ''env_type'',
     pointer ''env'', int32 ''exit_status'']"

definition hash_struct :: "field list" where
  "hash_struct = [pointer ''gc'', pointer ''calc_hash'', pointer ''compare'', pointer ''table'', word64 ''size'',
     word64 ''entries'', byte ''copy_on_write'', int32 ''key_value'']"

definition key_value_struct :: "field list" where
  "key_value_struct = [pointer ''key'', pointer ''value'', pointer ''next'']"

definition hash_iterator_struct :: "field list" where
  "hash_iterator_struct = [int32 ''idx'', pointer ''entry'']"

definition buffer_struct :: "field list" where
  "buffer_struct = [pointer ''gc'', pointer ''head'', pointer ''tail'', word64 ''used'', int32 ''block_gc_type'']"

definition block_struct :: "field list" where
  "block_struct = [array_of 4096 (byte ''block''), pointer ''next'']"

definition jump_struct :: "field list" where
  "jump_struct = [pointer ''label'', word64 ''addr'', word64 ''lineno'', pointer ''next'']"

definition debug_info_struct :: "field list" where
  "debug_info_struct = [pointer ''files'', pointer ''head'', pointer ''tail'']"

definition debug_state_struct :: "field list" where
  "debug_state_struct = [pointer ''file'', word64 ''line'', word64 ''column'', word64 ''start_addr'', pointer ''next'']"

definition two_stream_struct :: "field list" where
  "two_stream_struct = [pointer ''stream1'', pointer ''stream2'']"

definition ins_node_struct :: "field list" where
  "ins_node_struct = [int32 ''type'', (''value'', sizeof two_stream_struct, 8), pointer ''next'', pointer ''prev'',
     int32 ''column'', int32 ''line'', pointer ''file'']"

definition ins_stream_struct :: "field list" where
  "ins_stream_struct = [pointer ''head'', pointer ''tail'']"

definition NODE_MAX :: nat where "NODE_MAX = 20"

definition compiler_core_struct :: "field list" where
  "compiler_core_struct = [pointer ''gc'', int32 ''stream_gc_type'', array_of NODE_MAX (int32 ''node_types''),
     array_of 4096 (byte ''home''), int32 ''include_depth'', pointer ''include_stack'', pointer ''scanner'',
     word64 ''label_index'', pointer ''stream'']"

lemmas structs = object_struct_def pair_struct_def string_struct_def vector_struct_def env_struct_def vm_struct_def
  hash_struct_def key_value_struct_def hash_iterator_struct_def buffer_struct_def block_struct_def jump_struct_def
  debug_info_struct_def debug_state_struct_def two_stream_struct_def ins_node_struct_def ins_stream_struct_def
  compiler_core_struct_def CELL_MAX_def NODE_MAX_def

section \<open>Registering a type\<close>

text \<open>A type of a size, and the pointers registered after it, in order.\<close>

fun register_pointers :: "gc_ms \<Rightarrow> nat \<Rightarrow> nat list \<Rightarrow> gc_ms res" where
  "register_pointers gc ty [] = Inr gc"
| "register_pointers gc ty (p # ps) = rbind (gc_register_pointer gc ty p) (\<lambda>gc. register_pointers gc ty ps)"

definition register :: "gc_ms \<Rightarrow> nat \<Rightarrow> nat list \<Rightarrow> (gc_ms \<times> nat) res" where
  "register gc sz ps =
     (let (gc, ty) = gc_register_type gc sz in rbind (register_pointers gc ty ps) (\<lambda>gc. Inr (gc, ty)))"

definition register_basic :: "gc_ms \<Rightarrow> (gc_ms \<times> nat) res" where
  "register_basic gc = register gc (sizeof object_struct) []"

definition register_pair :: "gc_ms \<Rightarrow> (gc_ms \<times> nat) res" where
  "register_pair gc = register gc (sizeof object_struct)
     [offsetof object_struct ''value'' + offsetof pair_struct ''car'',
      offsetof object_struct ''value'' + offsetof pair_struct ''cdr'']"

definition register_string :: "gc_ms \<Rightarrow> (gc_ms \<times> nat) res" where
  "register_string gc = register gc (sizeof object_struct)
     [offsetof object_struct ''value'' + offsetof string_struct ''bytes'']"

definition register_closure :: "gc_ms \<Rightarrow> (gc_ms \<times> nat) res" where
  "register_closure gc = register gc (sizeof object_struct) [offsetof object_struct ''value'']"

definition register_library :: "gc_ms \<Rightarrow> (gc_ms \<times> nat) res" where
  "register_library gc = register gc (sizeof object_struct) []"

definition register_vector :: "gc_ms \<Rightarrow> (gc_ms \<times> nat) res" where
  "register_vector gc = register gc (sizeof object_struct)
     [offsetof object_struct ''value'' + offsetof vector_struct ''vector'']"

definition register_env :: "gc_ms \<Rightarrow> (gc_ms \<times> nat) res" where
  "register_env gc = register gc (sizeof env_struct)
     [offsetof env_struct ''code_ref'', offsetof env_struct ''bindings'', offsetof env_struct ''parent'']"

definition create_vm_type :: "gc_ms \<Rightarrow> (gc_ms \<times> nat) res" where
  "create_vm_type gc = register gc (sizeof vm_struct)
     [offsetof vm_struct ''stack_root'', offsetof vm_struct ''empty'', offsetof vm_struct ''vm_true'',
      offsetof vm_struct ''vm_false'', offsetof vm_struct ''reg1'', offsetof vm_struct ''reg2'',
      offsetof vm_struct ''reg3'', offsetof vm_struct ''symbol_table'', offsetof vm_struct ''import_table'',
      offsetof vm_struct ''env'']"

definition register_hashtable :: "gc_ms \<Rightarrow> (gc_ms \<times> nat) res" where
  "register_hashtable gc = register gc (sizeof hash_struct) [offsetof hash_struct ''table'']"

definition register_key_value :: "gc_ms \<Rightarrow> (gc_ms \<times> nat) res" where
  "register_key_value gc = register gc (sizeof key_value_struct)
     [offsetof key_value_struct ''key'', offsetof key_value_struct ''value'', offsetof key_value_struct ''next'']"

definition register_hash_iterator :: "gc_ms \<Rightarrow> (gc_ms \<times> nat) res" where
  "register_hash_iterator gc = register gc (sizeof hash_iterator_struct) [offsetof hash_iterator_struct ''entry'']"

definition create_buffer_type :: "gc_ms \<Rightarrow> (gc_ms \<times> nat) res" where
  "create_buffer_type gc = register gc (sizeof buffer_struct) [offsetof buffer_struct ''head'']"

definition create_block_type :: "gc_ms \<Rightarrow> (gc_ms \<times> nat) res" where
  "create_block_type gc = register gc (sizeof block_struct) [offsetof block_struct ''next'']"

text \<open>The static variable that keeps the type is an argument; 0 is the type not registered yet.\<close>

definition get_debug_info_def :: "gc_ms \<Rightarrow> nat \<Rightarrow> (gc_ms \<times> nat) res" where
  "get_debug_info_def gc debug_info_def =
     (if debug_info_def = 0
      then register gc (sizeof debug_info_struct)
        [offsetof debug_info_struct ''files'', offsetof debug_info_struct ''head'']
      else Inr (gc, debug_info_def))"

definition get_debug_state_def :: "gc_ms \<Rightarrow> nat \<Rightarrow> (gc_ms \<times> nat) res" where
  "get_debug_state_def gc debug_state_def =
     (if debug_state_def = 0
      then register gc (sizeof debug_state_struct)
        [offsetof debug_state_struct ''file'', offsetof debug_state_struct ''next'']
      else Inr (gc, debug_state_def))"

definition register_jump :: "gc_ms \<Rightarrow> (gc_ms \<times> nat) res" where
  "register_jump gc = register gc (sizeof jump_struct) [offsetof jump_struct ''label'', offsetof jump_struct ''next'']"

definition register_stream_type :: "gc_ms \<Rightarrow> (gc_ms \<times> nat) res" where
  "register_stream_type gc = register gc (sizeof ins_stream_struct) [offsetof ins_stream_struct ''head'']"

definition register_node_literal_type :: "gc_ms \<Rightarrow> (gc_ms \<times> nat) res" where
  "register_node_literal_type gc = register gc (sizeof ins_node_struct)
     [offsetof ins_node_struct ''next'', offsetof ins_node_struct ''value'', offsetof ins_node_struct ''file'']"

definition register_node_single_type :: "gc_ms \<Rightarrow> (gc_ms \<times> nat) res" where
  "register_node_single_type gc = register gc (sizeof ins_node_struct)
     [offsetof ins_node_struct ''next'', offsetof ins_node_struct ''value'', offsetof ins_node_struct ''file'']"

definition register_node_double_type :: "gc_ms \<Rightarrow> (gc_ms \<times> nat) res" where
  "register_node_double_type gc = register gc (sizeof ins_node_struct)
     [offsetof ins_node_struct ''next'',
      offsetof ins_node_struct ''value'' + offsetof two_stream_struct ''stream1'',
      offsetof ins_node_struct ''value'' + offsetof two_stream_struct ''stream2'',
      offsetof ins_node_struct ''file'']"

definition register_compiler_type :: "gc_ms \<Rightarrow> (gc_ms \<times> nat) res" where
  "register_compiler_type gc = register gc (sizeof compiler_core_struct)
     [offsetof compiler_core_struct ''stream'', offsetof compiler_core_struct ''include_stack'']"

section \<open>The tables of types\<close>

text \<open>The types of the nodes, as \<open>compiler_create\<close> sets them.\<close>

fun node_types :: "nat \<Rightarrow> nat \<Rightarrow> nat \<Rightarrow> node_type \<Rightarrow> nat" where
  "node_types lit single dbl STREAM_LITERAL = lit"
| "node_types lit single dbl STREAM_SYMBOL = lit"
| "node_types lit single dbl STREAM_STRING = lit"
| "node_types lit single dbl STREAM_OP = lit"
| "node_types lit single dbl STREAM_QUOTED = single"
| "node_types lit single dbl STREAM_LOAD = single"
| "node_types lit single dbl STREAM_ASM = single"
| "node_types lit single dbl STREAM_ASM_STREAM = single"
| "node_types lit single dbl STREAM_COND = single"
| "node_types lit single dbl STREAM_AND = single"
| "node_types lit single dbl STREAM_OR = single"
| "node_types lit single dbl STREAM_RECORD_TYPE = single"
| "node_types lit single dbl STREAM_BIND = dbl"
| "node_types lit single dbl STREAM_STORE = dbl"
| "node_types lit single dbl STREAM_LET_STAR = dbl"
| "node_types lit single dbl STREAM_TWO_ARG = dbl"
| "node_types lit single dbl STREAM_IF = dbl"
| "node_types lit single dbl STREAM_MATH = dbl"
| "node_types lit single dbl STREAM_LAMBDA = dbl"
| "node_types lit single dbl STREAM_CALL = dbl"

definition compiler_types :: "gc_ms \<Rightarrow> (gc_ms \<times> (node_type \<Rightarrow> nat)) res" where
  "compiler_types gc =
     rbind (register_compiler_type gc) (\<lambda>(gc, compiler_gc_type).
     rbind (register_stream_type gc) (\<lambda>(gc, stream_gc_type).
     rbind (register_node_literal_type gc) (\<lambda>(gc, lit).
     rbind (register_node_single_type gc) (\<lambda>(gc, single).
     rbind (register_node_double_type gc) (\<lambda>(gc, dbl).
       Inr (gc, node_types lit single dbl))))))"

text \<open>The types of the cells. \<open>SYMBOL\<close> is not set: its entry keeps the 0 of the new machine.\<close>

definition create_types :: "gc_ms \<Rightarrow> (gc_ms \<times> (cell_type \<Rightarrow> nat) \<times> nat) res" where
  "create_types gc =
     (let types = (\<lambda>_. 0) in
      rbind (register_basic gc) (\<lambda>(gc, ty). let types = types(FIXNUM := ty) in
      rbind (register_pair gc) (\<lambda>(gc, ty). let types = types(PAIR := ty) in
      rbind (register_basic gc) (\<lambda>(gc, ty). let types = types(BOOL := ty) in
      rbind (register_basic gc) (\<lambda>(gc, ty). let types = types(cell_type.CHAR := ty) in
      rbind (register_string gc) (\<lambda>(gc, ty). let types = types(STRING := ty) in
      rbind (register_vector gc) (\<lambda>(gc, ty). let types = types(VECTOR := ty, RECORD := ty, BYTE_VECTOR := ty) in
      rbind (register_closure gc) (\<lambda>(gc, ty). let types = types(CLOSURE := ty) in
      rbind (register_library gc) (\<lambda>(gc, ty). let types = types(LIBRARY := ty) in
      rbind (register_basic gc) (\<lambda>(gc, ty). let types = types(EMPTY := ty) in
      rbind (register_env gc) (\<lambda>(gc, env_type).
        Inr (gc, types, env_type))))))))))))"

section \<open>What is registered\<close>

text \<open>The offsets the collector follows in an object of a type.\<close>

definition traced :: "gc_ms \<Rightarrow> nat \<Rightarrow> nat set" where
  "traced gc ty = ptr_offset ` set (def_root_list (type_defs gc ! ty))"

lemma register_pointers_run:
  "ty < length (type_defs gc) \<Longrightarrow> \<exists>gc'. register_pointers gc ty ps = Inr gc'
     \<and> type_defs gc' = (type_defs gc)[ty := (type_defs gc ! ty)\<lparr>def_root_list :=
         rev (map (\<lambda>p. \<lparr>ptr_type = PTR, ptr_offset = p\<rparr>) ps) @ def_root_list (type_defs gc ! ty)\<rparr>]"
proof (induction ps arbitrary: gc)
  case (Cons p ps)
  obtain gc1 where gc1: "gc_register_pointer gc ty p = Inr gc1" "type_defs gc1 = (type_defs gc)[ty := (type_defs gc ! ty)\<lparr>def_root_list :=
      \<lparr>ptr_type = PTR, ptr_offset = p\<rparr> # def_root_list (type_defs gc ! ty)\<rparr>]"
    using Cons.prems by (simp add: gc_register_pointer_def register_ptr_def_def gc_malloc_def Let_def)
  obtain gc2 where "register_pointers gc1 ty ps = Inr gc2" "type_defs gc2 = (type_defs gc1)[ty := (type_defs gc1 ! ty)\<lparr>def_root_list :=
      rev (map (\<lambda>p. \<lparr>ptr_type = PTR, ptr_offset = p\<rparr>) ps) @ def_root_list (type_defs gc1 ! ty)\<rparr>]"
    using Cons.IH [of gc1] Cons.prems gc1 by auto
  then show ?case using gc1 Cons.prems by simp
qed simp

text \<open>A new type after the old ones, of the size, with the pointers.\<close>

definition registers :: "gc_ms \<Rightarrow> nat \<Rightarrow> nat list \<Rightarrow> (gc_ms \<times> nat) res \<Rightarrow> bool" where
  "registers gc sz ps r \<longleftrightarrow> (\<exists>gc'. r = Inr (gc', length (type_defs gc))
     \<and> type_defs gc' = type_defs gc @ [\<lparr>def_size = sz, def_root_list = rev (map (\<lambda>p. \<lparr>ptr_type = PTR, ptr_offset = p\<rparr>) ps)\<rparr>])"

lemma register_run: "registers gc sz ps (register gc sz ps)"
proof -
  obtain gc1 where gc1: "gc_register_type gc sz = (gc1, length (type_defs gc))"
    "type_defs gc1 = type_defs gc @ [\<lparr>def_size = sz, def_root_list = []\<rparr>]"
    by (simp add: gc_register_type_def gc_malloc_def gc_free_def Let_def)
  then show ?thesis using register_pointers_run [of "length (type_defs gc)" gc1 ps]
    by (auto simp: registers_def register_def)
qed

lemma registersE:
  assumes "registers gc sz ps r"
  obtains gc' where "r = Inr (gc', length (type_defs gc))"
    "type_defs gc' = type_defs gc @ [\<lparr>def_size = sz, def_root_list = rev (map (\<lambda>p. \<lparr>ptr_type = PTR, ptr_offset = p\<rparr>) ps)\<rparr>]"
  using assms by (auto simp: registers_def)



lemma layout:
  "sizeof object_struct = 32" "sizeof ins_node_struct = 56"
  "offsetof object_struct ''value'' = 8" "offsetof pair_struct ''car'' = 0" "offsetof pair_struct ''cdr'' = 8"
  "offsetof string_struct ''bytes'' = 8" "offsetof vector_struct ''vector'' = 8"
  "offsetof env_struct ''code_ref'' = 0" "offsetof env_struct ''bindings'' = 24" "offsetof env_struct ''parent'' = 48"
  "offsetof ins_node_struct ''next'' = 24" "offsetof ins_node_struct ''value'' = 8" "offsetof ins_node_struct ''file'' = 48"
  "offsetof two_stream_struct ''stream1'' = 0" "offsetof two_stream_struct ''stream2'' = 8"
  by (simp_all add: layout_simps structs)

lemmas cell_registers = register_basic_def register_pair_def register_string_def register_closure_def
  register_library_def register_vector_def register_env_def

text \<open>Where the pointers of a cell are.\<close>

fun cell_pointers :: "cell_type \<Rightarrow> nat set" where
  "cell_pointers PAIR = {8, 16}"
| "cell_pointers STRING = {16}"
| "cell_pointers VECTOR = {16}"
| "cell_pointers BYTE_VECTOR = {16}"
| "cell_pointers RECORD = {16}"
| "cell_pointers CLOSURE = {8}"
| "cell_pointers c = {}"

fun node_pointers :: "node_type \<Rightarrow> nat set" where
  "node_pointers ty = (if ty \<in> {STREAM_BIND, STREAM_STORE, STREAM_LET_STAR, STREAM_TWO_ARG, STREAM_IF, STREAM_MATH,
       STREAM_LAMBDA, STREAM_CALL} then {8, 16, 24, 48} else {8, 24, 48})"

text \<open>C29: the types of the machine's cells tell the collector every pointer of every kind of cell; no type is
  registered for symbols.\<close>

theorem cell_types_traced:
  "\<exists>gc' types env_type. create_types gc = Inr (gc', types, env_type)
    \<and> (\<forall>c. if c = SYMBOL then types c = 0
        else def_size (type_defs gc' ! types c) = sizeof object_struct \<and> traced gc' (types c) = cell_pointers c)
    \<and> traced gc' env_type = {offsetof env_struct ''code_ref'', offsetof env_struct ''bindings'', offsetof env_struct ''parent''}"
proof -
  note r = registersE [OF register_run]
  note f = cell_registers layout
  obtain g1 where g1: "register_basic gc = Inr (g1, length (type_defs gc))"
    "type_defs g1 = type_defs gc @ [\<lparr>def_size = 32, def_root_list = []\<rparr>]"
    by (rule r [of gc 32 "[]"]) (simp add: f)
  obtain g2 where g2: "register_pair g1 = Inr (g2, length (type_defs g1))"
    "type_defs g2 = type_defs g1 @ [\<lparr>def_size = 32, def_root_list = [\<lparr>ptr_type = PTR, ptr_offset = 16\<rparr>, \<lparr>ptr_type = PTR, ptr_offset = 8\<rparr>]\<rparr>]"
    by (rule r [of g1 32 "[8, 16]"]) (simp add: f)
  obtain g3 where g3: "register_basic g2 = Inr (g3, length (type_defs g2))"
    "type_defs g3 = type_defs g2 @ [\<lparr>def_size = 32, def_root_list = []\<rparr>]"
    by (rule r [of g2 32 "[]"]) (simp add: f)
  obtain g4 where g4: "register_basic g3 = Inr (g4, length (type_defs g3))"
    "type_defs g4 = type_defs g3 @ [\<lparr>def_size = 32, def_root_list = []\<rparr>]"
    by (rule r [of g3 32 "[]"]) (simp add: f)
  obtain g5 where g5: "register_string g4 = Inr (g5, length (type_defs g4))"
    "type_defs g5 = type_defs g4 @ [\<lparr>def_size = 32, def_root_list = [\<lparr>ptr_type = PTR, ptr_offset = 16\<rparr>]\<rparr>]"
    by (rule r [of g4 32 "[16]"]) (simp add: f)
  obtain g6 where g6: "register_vector g5 = Inr (g6, length (type_defs g5))"
    "type_defs g6 = type_defs g5 @ [\<lparr>def_size = 32, def_root_list = [\<lparr>ptr_type = PTR, ptr_offset = 16\<rparr>]\<rparr>]"
    by (rule r [of g5 32 "[16]"]) (simp add: f)
  obtain g7 where g7: "register_closure g6 = Inr (g7, length (type_defs g6))"
    "type_defs g7 = type_defs g6 @ [\<lparr>def_size = 32, def_root_list = [\<lparr>ptr_type = PTR, ptr_offset = 8\<rparr>]\<rparr>]"
    by (rule r [of g6 32 "[8]"]) (simp add: f)
  obtain g8 where g8: "register_library g7 = Inr (g8, length (type_defs g7))"
    "type_defs g8 = type_defs g7 @ [\<lparr>def_size = 32, def_root_list = []\<rparr>]"
    by (rule r [of g7 32 "[]"]) (simp add: f)
  obtain g9 where g9: "register_basic g8 = Inr (g9, length (type_defs g8))"
    "type_defs g9 = type_defs g8 @ [\<lparr>def_size = 32, def_root_list = []\<rparr>]"
    by (rule r [of g8 32 "[]"]) (simp add: f)
  obtain g10 where g10: "register_env g9 = Inr (g10, length (type_defs g9))"
    "type_defs g10 = type_defs g9 @ [\<lparr>def_size = sizeof env_struct, def_root_list = [\<lparr>ptr_type = PTR, ptr_offset = 48\<rparr>,
       \<lparr>ptr_type = PTR, ptr_offset = 24\<rparr>, \<lparr>ptr_type = PTR, ptr_offset = 0\<rparr>]\<rparr>]"
    by (rule r [of g9 "sizeof env_struct" "[0, 24, 48]"]) (simp add: f)
  note g = g1 g2 g3 g4 g5 g6 g7 g8 g9 g10
  show ?thesis
    unfolding create_types_def g(1,3,5,7,9,11,13,15,17,19) rbind_Inr case_prod_conv Let_def
    apply (intro exI conjI allI impI)
    apply (rule refl)
    subgoal for c by (cases c) (simp_all add: g nth_append traced_def layout insert_commute)
    apply (simp add: g nth_append traced_def layout insert_commute)
    done
qed


lemma structs_lit:
  "registers gc 56 [24, 8, 48] (register_node_literal_type gc)" "registers gc 56 [24, 8, 48] (register_node_single_type gc)"
  "registers gc 56 [24, 8, 16, 48] (register_node_double_type gc)"
  using register_run [of gc 56 "[24, 8, 48]"] register_run [of gc 56 "[24, 8, 16, 48]"]
  by (simp_all add: register_node_literal_type_def register_node_single_type_def register_node_double_type_def layout)

text \<open>C30: after the compiler's types are registered, the collector follows in a node of every type its next node,
  its file and the streams or the string of its value, and not its previous node.\<close>

theorem node_types_traced:
  "\<exists>gc' types. compiler_types gc = Inr (gc', types)
    \<and> (\<forall>ty. def_size (type_defs gc' ! types ty) = sizeof ins_node_struct \<and> traced gc' (types ty) = node_pointers ty)"
proof -
  obtain g1 where g1: "register_compiler_type gc = Inr (g1, length (type_defs gc))" "length (type_defs g1) = length (type_defs gc) + 1"
    using register_run [of gc "sizeof compiler_core_struct"] by (force simp: register_compiler_type_def registers_def)
  obtain g2 where g2: "register_stream_type g1 = Inr (g2, length (type_defs g1))"
    using register_run [of g1 "sizeof ins_stream_struct"] by (force simp: register_stream_type_def registers_def)
  obtain g3 where g3: "register_node_literal_type g2 = Inr (g3, length (type_defs g2))"
    "type_defs g3 = type_defs g2 @ [\<lparr>def_size = 56, def_root_list = rev (map (\<lambda>p. \<lparr>ptr_type = PTR, ptr_offset = p\<rparr>) [24, 8, 48])\<rparr>]"
    using structs_lit(1) [of g2] by (rule registersE)
  obtain g4 where g4: "register_node_single_type g3 = Inr (g4, length (type_defs g3))"
    "type_defs g4 = type_defs g3 @ [\<lparr>def_size = 56, def_root_list = rev (map (\<lambda>p. \<lparr>ptr_type = PTR, ptr_offset = p\<rparr>) [24, 8, 48])\<rparr>]"
    using structs_lit(2) [of g3] by (rule registersE)
  obtain g5 where g5: "register_node_double_type g4 = Inr (g5, length (type_defs g4))"
    "type_defs g5 = type_defs g4 @ [\<lparr>def_size = 56, def_root_list = rev (map (\<lambda>p. \<lparr>ptr_type = PTR, ptr_offset = p\<rparr>) [24, 8, 16, 48])\<rparr>]"
    using structs_lit(3) [of g4] by (rule registersE)
  note g = g1(1) g2 g3 g4 g5
  have "def_size (type_defs g5 ! node_types (length (type_defs g2)) (length (type_defs g3)) (length (type_defs g4)) ty) = 56
    \<and> traced g5 (node_types (length (type_defs g2)) (length (type_defs g3)) (length (type_defs g4)) ty) = node_pointers ty" for ty
    by (cases ty) (simp_all add: g nth_append traced_def insert_commute)
  then show ?thesis by (simp add: compiler_types_def g layout)
qed

end
