(* ===== verification/Scheme_Scan.thy ===== *)
theory Scheme_Scan
  imports Asm_Scan Compile
begin

text \<open>
  The scanner of the compiler: the patterns and the rules of \<open>libinsomniac_bootstrap/lexer.l\<close>, and the scanner
  \<open>flex\<close> makes of them. It keeps the line and the column, and goes on with the including file at the end of an
  included one.
\<close>

section \<open>Patterns\<close>

definition scheme_ident :: "u8 \<Rightarrow> bool" where
  "scheme_ident ch \<longleftrightarrow> ident ch \<or> ch = 58"

definition is_sign :: "u8 \<Rightarrow> bool" where
  "is_sign ch \<longleftrightarrow> ch = 43 \<or> ch = 45"

text \<open>\<open>-+*/%><=\<close>\<close>

definition math_char :: "u8 \<Rightarrow> bool" where
  "math_char ch \<longleftrightarrow> ch \<in> set [45, 43, 42, 47, 37, 62, 60, 61]"

text \<open>The length of \<open>{SIGNS}?\<close>, and of a part in the middle of a number with the digits that must follow.\<close>

definition sign_len :: "u8 list \<Rightarrow> nat" where
  "sign_len s = (case s of c # _ \<Rightarrow> if is_sign c then 1 else 0 | [] \<Rightarrow> 0)"

definition then_digits :: "u8 \<Rightarrow> nat \<Rightarrow> u8 list \<Rightarrow> nat \<times> nat" where
  "then_digits mid n s =
     whole (case drop n s of c # cs \<Rightarrow> if c = mid \<and> run_of digit cs \<noteq> 0 then n + 1 + run_of digit cs else 0 | [] \<Rightarrow> 0)"

text \<open>\<open>{SIGNS}?({DIGITS}|nan|inf)?"."{DIGITS}\<close>\<close>

definition decimal :: pattern where
  "decimal s =
     (let n = sign_len s; t = drop n s;
          m = (if starts (chars ''nan'') t \<or> starts (chars ''inf'') t then 3 else run_of digit t)
      in then_digits 46 (n + m) s)"

text \<open>\<open>{SIGNS}?{DIGITS}[/]{DIGITS}\<close>\<close>

definition ratio :: pattern where
  "ratio s =
     (let n = sign_len s; m = run_of digit (drop n s) in if m = 0 then whole 0 else then_digits 47 (n + m) s)"

text \<open>\<open>{MATH}{WS}\<close>: an end of line may have two characters.\<close>

definition math_op :: pattern where
  "math_op s =
     whole (case s of
        c # cs \<Rightarrow>
          if \<not> math_char c then 0
          else if starts [13, 10] cs \<or> starts [10, 13] cs then 3
          else if fst (one is_ws cs) \<noteq> 0 then 2 else 0
      | [] \<Rightarrow> 0)"

text \<open>\<open>[;].*\<close>\<close>

definition line_comment :: pattern where
  "line_comment s = whole (case s of c # cs \<Rightarrow> if c = 59 then run_of (\<lambda>ch. ch \<noteq> 10) cs + 1 else 0 | [] \<Rightarrow> 0)"

text \<open>\<open>x[0-9A-F]+\<close>\<close>

definition upper_hex :: "u8 \<Rightarrow> bool" where
  "upper_hex ch \<longleftrightarrow> digit ch \<or> between 65 70 ch"

definition hex_value :: pattern where
  "hex_value s = whole (case s of c # cs \<Rightarrow> if c = 120 \<and> run_of upper_hex cs \<noteq> 0 then run_of upper_hex cs + 1 else 0 | [] \<Rightarrow> 0)"

section \<open>Tokens and rules\<close>

datatype yytokentype =
    OPEN_PAREN | START_VECTOR | START_BYTE_VECTOR | CLOSE_PAREN | DOT
  | TRUE_OBJ | FALSE_OBJ | QUOTE | DOUBLE_QUOTE | STRING_CONSTANT | CHAR_CONSTANT
  | FIXED_NUMBER | FLOAT_NUMBER | MATH_OPS | AST_SYMBOL
  | PRIM_BEGIN | PRIM_QUOTE | PRIM_LAMBDA | PRIM_SET | PRIM_RECORD_TYPE | PRIM_IF | PRIM_COND | PRIM_LET_STAR
  | PRIM_AND | PRIM_OR | PRIM_INCLUDE | SPEC_DEFINE | PRIM_DEFINE | PRIM_ASM | END_OF_FILE

text \<open>A pattern, the condition its action begins, and the token it returns, if any.\<close>

type_synonym scheme_rule = "pattern \<times> start_cond \<times> yytokentype option"

definition word :: "string \<Rightarrow> yytokentype \<Rightarrow> scheme_rule" where
  "word w k = (lit (chars w), INITIAL, Some k)"

definition initial_rules :: "scheme_rule list" where
  "initial_rules =
     [word ''('' OPEN_PAREN, word ''['' OPEN_PAREN, word '')'' CLOSE_PAREN, word '']'' CLOSE_PAREN,
      word ''#('' START_VECTOR, word ''#u8('' START_BYTE_VECTOR, word ''.'' DOT, (lit [39], INITIAL, Some QUOTE),
      word ''#t'' TRUE_OBJ, word ''#f'' FALSE_OBJ,
      (many is_ws, INITIAL, None),
      word ''begin'' PRIM_BEGIN, word ''quote'' PRIM_QUOTE, word ''define'' PRIM_DEFINE, word ''lambda'' PRIM_LAMBDA,
      word ''set!'' PRIM_SET, word ''if'' PRIM_IF, word ''cond'' PRIM_COND, word ''define-record-type'' PRIM_RECORD_TYPE,
      word ''let*'' PRIM_LET_STAR, word ''and'' PRIM_AND, word ''or'' PRIM_OR, word ''include'' PRIM_INCLUDE,
      word ''asm'' PRIM_ASM,
      (number, INITIAL, Some FIXED_NUMBER), (decimal, INITIAL, Some FLOAT_NUMBER), (ratio, INITIAL, Some FLOAT_NUMBER),
      (many scheme_ident, INITIAL, Some AST_SYMBOL), (math_op, INITIAL, Some MATH_OPS),
      (lit [35, 92], EXPECT_CHAR, None), (lit [34], EXPECT_STRING, Some DOUBLE_QUOTE),
      (line_comment, INITIAL, None), (lit (chars ''#!r6rs''), INITIAL, None)]"

text \<open>\<open>CHAR_VAL\<close> and the string rules. \<open>[^{WS}]\<close> is a class: the four characters are left out.\<close>

fun scheme_rules :: "start_cond \<Rightarrow> scheme_rule list" where
  "scheme_rules INITIAL = initial_rules"
| "scheme_rules EXPECT_CHAR =
     [(hex_value, INITIAL, Some CHAR_CONSTANT), (lit (chars ''newline''), INITIAL, Some CHAR_CONSTANT),
      (lit (chars ''space''), INITIAL, Some CHAR_CONSTANT),
      (one (\<lambda>ch. ch \<notin> set [123, 87, 83, 125]), INITIAL, Some CHAR_CONSTANT)]"
| "scheme_rules EXPECT_STRING =
     [(string_body, EXPECT_STRING, Some STRING_CONSTANT), (lit [34], INITIAL, Some DOUBLE_QUOTE)]"
| "scheme_rules sc = []"

section \<open>The scanner\<close>

text \<open>Lines and columns: a match with an end of line sets the column back to 0 before the action of every
  rule, \<open>accumulate_column\<close>, adds the length of the match.\<close>

definition accumulate_column :: "u8 list \<Rightarrow> scanner \<Rightarrow> scanner" where
  "accumulate_column txt sc = sc\<lparr>yycolumn := yycolumn sc + of_nat (length txt)\<rparr>"

definition count_lines :: "u8 list \<Rightarrow> scanner \<Rightarrow> scanner" where
  "count_lines txt sc = (if 10 \<in> set txt then sc\<lparr>yylineno := yylineno sc + of_nat (newlines txt), yycolumn := 0\<rparr> else sc)"

definition matched :: "u8 list \<Rightarrow> u8 list \<Rightarrow> compiler_core \<Rightarrow> compiler_core" where
  "matched txt rest c = c\<lparr>scan := (accumulate_column txt (count_lines txt (scan c)))\<lparr>yyinput := Some rest\<rparr>\<rparr>"

text \<open>What is left to read: the input and those below it.\<close>

definition unread :: "compiler_core \<Rightarrow> nat" where
  "unread c = length (case yyinput (scan c) of None \<Rightarrow> [] | Some s \<Rightarrow> s)
     + (\<Sum>(s, _)\<leftarrow>yyinputs (scan c). Suc (length (case s of None \<Rightarrow> [] | Some s \<Rightarrow> s)))"

lemma unread_matched: "unread (matched txt rest c) = length rest + unread (c\<lparr>scan := (scan c)\<lparr>yyinput := None\<rparr>\<rparr>)"
  by (simp add: unread_def matched_def accumulate_column_def count_lines_def)

lemma unread_input: "yyinput (scan c) = Some s \<Longrightarrow> unread c = length s + unread (c\<lparr>scan := (scan c)\<lparr>yyinput := None\<rparr>\<rparr>)"
  by (simp add: unread_def)

lemma unread_end:
  assumes "end_of_input c = Inr (c', False)"
  shows "unread c' < unread (c\<lparr>scan := (scan c)\<lparr>yyinput := None\<rparr>\<rparr>)"
  using assms
  by (auto simp: end_of_input_def pop_include_path_def yypop_buffer_state_def unread_def res_simps
      split: if_splits list.splits prod.splits)

text \<open>The next token with its text. At the end of the last input the scanner has none and is not called again.\<close>

function yylex :: "start_cond \<Rightarrow> compiler_core \<Rightarrow> (yytokentype \<times> u8 list \<times> start_cond \<times> compiler_core) res" where
  "yylex sc c =
     (case yyinput (scan c) of
        None \<Rightarrow> Inl Bad_Pointer
      | Some [] \<Rightarrow>
          rbind (end_of_input c) (\<lambda>(c, done). if done then Inr (END_OF_FILE, [], sc, c) else yylex sc c)
      | Some (ch # cs) \<Rightarrow>
          (case longest (scheme_rules sc) (ch # cs) of
             (t, l, None) \<Rightarrow> yylex sc (matched [ch] cs c)
           | (t, l, Some (sc', tok)) \<Rightarrow>
               let txt = ch # take (l - 1) cs; c = matched txt (drop (l - 1) cs) c in
               case tok of None \<Rightarrow> yylex sc' c | Some k \<Rightarrow> Inr (k, txt, sc', c)))"
  by pat_completeness auto
termination
  by (relation "measure (\<lambda>(sc, c). unread c)") (auto simp: unread_matched unread_input unread_end)

declare yylex.simps [simp del]

end
