(* ===== verification/Parse.thy ===== *)
theory Parse
  imports Scheme_Scan
begin

text \<open>
  The parser: the productions and actions of \<open>scheme.y\<close> and the machine that \<open>bison\<close> generates from them,
  which shifts tokens onto a stack and reduces the symbols on top of it. The tables that choose the moves
  are generated, so every run of moves that the productions allow is considered; the conflict of the
  grammar is decided as \<open>bison\<close> does.
\<close>

section \<open>Grammar\<close>

datatype yysymbol =
    T yytokentype
  | S_self_evaluating | S_symbol | S_literal | S_expression | S_datum | S_list_end | S_list | S_list_next
  | S_quoted | S_boolean | S_number | S_string_body | S_string | S_procedure_call | S_primitive_procedures
  | S_asm | S_asm_end | S_raw_asm | S_asm_types | S_two_args | S_include | S_if | S_if_end | S_and | S_or
  | S_boolean_body | S_boolean_end | S_cond | S_cond_clause | S_cond_clause_list_end | S_cond_clause_list
  | S_let_star | S_let_binding | S_let_binding_list | S_let_binding_end | S_define | S_define_variable
  | S_define_lambda | S_define_lambda_body | S_define_record_type | S_set | S_begin | S_begin_body | S_begin_end
  | S_math_calls | S_math_call_op | S_user_call | S_user_call_end | S_user_call_body | S_lambda
  | S_lambda_formals | S_lambda_formals_list | S_lambda_formals_list_end

text \<open>The builders of nodes with a text.\<close>

datatype text_kind = Char_Text | Symbol_Text | Literal_Text | String_Text | Op_Text

text \<open>
  The actions, with the numbers of the values they use. A text is a constant or that of the last token.
  \<^item> \<open>Value k\<close>: \<open>$$ = $k\<close>; \<open>New_Stream\<close>: \<open>NEW_STREAM($$)\<close>
  \<^item> \<open>New_Text\<close>, \<open>New_Boolean\<close>, \<open>New_Single ty k\<close>, \<open>New_Double ty j k\<close>: \<open>STREAM_NEW\<close> of a node
  \<^item> \<open>Concat j k\<close>: \<open>$$ = $j; stream_concat($$, $k)\<close>
  \<^item> \<open>New_List_End k\<close>, \<open>New_Clause j k\<close>, \<open>New_If_True k\<close>, \<open>End_List k\<close>: the actions of \<open>list_end\<close>, \<open>cond_clause_list_end\<close>,
    \<open>if_end\<close> and \<open>lambda_formals_list_end\<close>
  \<^item> \<open>Include k\<close>: \<open>NEW_STREAM($$); setup_include(compiler, $k)\<close>
\<close>

datatype action =
    Value nat
  | New_Stream
  | New_Text text_kind "u8 list option"
  | New_Boolean bool
  | New_Single node_type nat
  | New_Double node_type nat nat
  | Concat nat nat
  | New_List_End nat
  | New_Clause nat nat
  | New_If_True nat
  | End_List nat
  | Include nat

text \<open>
  The symbol, its right-hand side and the action. The flag says that the generated parser reads the next
  token before it reduces, because there is another move with the same symbols on the stack; in all
  other states it reduces without.
\<close>

type_synonym production = "yysymbol \<times> yysymbol list \<times> bool \<times> action"

definition keep :: "yysymbol \<Rightarrow> yysymbol \<Rightarrow> production" where
  "keep A B = (A, [B], False, Value 1)"

definition empty_list :: "u8 list" where "empty_list = chars ''()''"

definition data_rules :: "production list" where
  "data_rules =
     [keep S_self_evaluating S_boolean,
      (S_self_evaluating, [T CHAR_CONSTANT], False, New_Text Char_Text None),
      keep S_self_evaluating S_string,
      keep S_self_evaluating S_number,
      (S_symbol, [T AST_SYMBOL], False, New_Text Symbol_Text None),
      (S_literal, [S_quoted], False, New_Single STREAM_QUOTED 1),
      keep S_literal S_self_evaluating,
      keep S_expression S_literal,
      keep S_expression S_procedure_call,
      (S_expression, [S_symbol], False, New_Single STREAM_LOAD 1),
      keep S_datum S_literal,
      keep S_datum S_symbol,
      keep S_datum S_list,
      (S_list_end, [S_list_next, T CLOSE_PAREN], False, New_List_End 1),
      (S_list_end, [S_list_next, T DOT, S_datum, T CLOSE_PAREN], False, Concat 3 1),
      (S_list_end, [T CLOSE_PAREN], False, New_Text Literal_Text (Some empty_list)),
      (S_list, [T OPEN_PAREN, S_list_end], False, New_Single STREAM_QUOTED 2),
      (S_list_next, [S_datum], True, Value 1),
      (S_list_next, [S_datum, S_list_next], False, Concat 2 1),
      (S_quoted, [T QUOTE, S_datum], False, Value 2),
      (S_quoted, [T OPEN_PAREN, T PRIM_QUOTE, S_list_end], False, Value 3),
      (S_boolean, [T TRUE_OBJ], False, New_Boolean True),
      (S_boolean, [T FALSE_OBJ], False, New_Boolean False),
      (S_number, [T FIXED_NUMBER], False, New_Text Literal_Text None),
      (S_number, [T FLOAT_NUMBER], False, New_Text Literal_Text None),
      (S_string_body, [T STRING_CONSTANT], False, New_Text String_Text None),
      (S_string, [T DOUBLE_QUOTE, S_string_body, T DOUBLE_QUOTE], False, Value 2),
      (S_string, [T DOUBLE_QUOTE, T DOUBLE_QUOTE], False, New_Text String_Text (Some []))]"

definition call_rules :: "production list" where
  "call_rules =
     (S_procedure_call, [T OPEN_PAREN, S_primitive_procedures], False, Value 2)
     # map (keep S_primitive_procedures)
         [S_math_calls, S_begin, S_define, S_define_record_type, S_if, S_lambda, S_set, S_user_call, S_include,
          S_asm, S_cond, S_let_star, S_and, S_or]
     @ [(S_asm, [T PRIM_ASM, S_asm_end, T CLOSE_PAREN], False, New_Single STREAM_ASM 2),
        (S_asm_end, [S_raw_asm], True, Value 1),
        (S_asm_end, [S_raw_asm, S_asm_end], False, Concat 1 2),
        (S_raw_asm, [S_asm_types], False, New_Text Op_Text None),
        keep S_raw_asm S_self_evaluating,
        (S_raw_asm, [T OPEN_PAREN, T CLOSE_PAREN], False, New_Text Literal_Text (Some empty_list)),
        (S_raw_asm, [T OPEN_PAREN, S_expression, T CLOSE_PAREN], False, New_Single STREAM_ASM_STREAM 2)]
     @ map (\<lambda>t. keep S_asm_types (T t))
         [AST_SYMBOL, PRIM_BEGIN, PRIM_QUOTE, PRIM_LAMBDA, PRIM_IF, PRIM_SET, PRIM_DEFINE, PRIM_ASM, MATH_OPS,
          PRIM_COND, PRIM_AND, PRIM_OR]
     @ [(S_two_args, [S_expression, S_expression], False, New_Double STREAM_TWO_ARG 1 2),
        (S_include, [T PRIM_INCLUDE, T DOUBLE_QUOTE, S_string_body, T DOUBLE_QUOTE, T CLOSE_PAREN], False, Include 3)]"

definition control_rules :: "production list" where
  "control_rules =
     [(S_if, [T PRIM_IF, S_expression, S_if_end], False, New_Double STREAM_IF 2 3),
      (S_if_end, [S_two_args, T CLOSE_PAREN], False, Value 1),
      (S_if_end, [S_expression, T CLOSE_PAREN], False, New_If_True 1),
      (S_and, [T PRIM_AND, S_boolean_end], False, New_Single STREAM_AND 2),
      (S_or, [T PRIM_OR, S_boolean_end], False, New_Single STREAM_OR 2),
      (S_boolean_body, [S_expression], True, Value 1),
      (S_boolean_body, [S_expression, S_boolean_body], False, Concat 1 2),
      keep S_boolean_end (T CLOSE_PAREN),
      (S_boolean_end, [S_boolean_body, T CLOSE_PAREN], False, Value 1),
      (S_cond, [T PRIM_COND, S_cond_clause_list], False, New_Single STREAM_COND 2),
      (S_cond_clause, [T OPEN_PAREN, S_expression, S_begin_end], False, New_Double STREAM_TWO_ARG 2 3),
      (S_cond_clause_list_end, [S_cond_clause], True, New_Single STREAM_COND 1),
      (S_cond_clause_list_end, [S_cond_clause, S_cond_clause_list_end], False, New_Clause 1 2),
      keep S_cond_clause_list (T CLOSE_PAREN),
      (S_cond_clause_list, [S_cond_clause_list_end, T CLOSE_PAREN], False, Value 1),
      (S_let_star, [T PRIM_LET_STAR, S_let_binding_list, S_begin_end], False, New_Double STREAM_LET_STAR 2 3),
      (S_let_binding, [T OPEN_PAREN, S_symbol, S_expression, T CLOSE_PAREN], False, New_Double STREAM_BIND 3 2),
      (S_let_binding_list, [T OPEN_PAREN, S_let_binding_end, T CLOSE_PAREN], False, Value 2),
      (S_let_binding_end, [S_let_binding], True, Value 1),
      (S_let_binding_end, [S_let_binding, S_let_binding_end], False, Concat 1 2)]"

definition define_rules :: "production list" where
  "define_rules =
     [keep S_define S_define_variable,
      keep S_define S_define_lambda,
      (S_define_variable, [T PRIM_DEFINE, S_symbol, S_expression, T CLOSE_PAREN], False, New_Double STREAM_BIND 3 2),
      (S_define_lambda, [T PRIM_DEFINE, T OPEN_PAREN, S_symbol, S_define_lambda_body], False, New_Double STREAM_BIND 4 3),
      (S_define_lambda_body, [S_lambda_formals_list, S_begin_end], False, New_Double STREAM_LAMBDA 1 2),
      (S_define_record_type, [T PRIM_RECORD_TYPE, S_list_end], False, New_Single STREAM_RECORD_TYPE 2),
      (S_set, [T PRIM_SET, S_symbol, S_expression, T CLOSE_PAREN], False, New_Double STREAM_STORE 3 2),
      (S_set, [T PRIM_SET, S_expression, S_expression, T CLOSE_PAREN], False, New_Double STREAM_STORE 3 2),
      (S_begin, [T PRIM_BEGIN, S_begin_end], False, Value 2),
      (S_begin_body, [S_expression], True, Value 1),
      (S_begin_body, [S_expression, S_begin_body], False, Concat 1 2),
      keep S_begin_end (T CLOSE_PAREN),
      (S_begin_end, [S_begin_body, T CLOSE_PAREN], False, Value 1)]"

definition procedure_rules :: "production list" where
  "procedure_rules =
     [(S_math_calls, [S_math_call_op, S_two_args, T CLOSE_PAREN], False, New_Double STREAM_MATH 1 2),
      (S_math_call_op, [T MATH_OPS], False, New_Text Op_Text None),
      (S_user_call, [S_expression, S_user_call_end], False, New_Double STREAM_CALL 1 2),
      (S_user_call_end, [T CLOSE_PAREN], False, New_Stream),
      (S_user_call_end, [S_user_call_body, T CLOSE_PAREN], False, Value 1),
      (S_user_call_body, [S_expression], True, Value 1),
      (S_user_call_body, [S_expression, S_user_call_body], False, Concat 2 1),
      (S_lambda, [T PRIM_LAMBDA, S_lambda_formals, S_begin_end], False, New_Double STREAM_LAMBDA 2 3),
      keep S_lambda_formals S_symbol,
      (S_lambda_formals, [T OPEN_PAREN, S_lambda_formals_list], False, Value 2),
      (S_lambda_formals_list, [T CLOSE_PAREN], False, New_Stream),
      keep S_lambda_formals_list S_lambda_formals_list_end,
      (S_lambda_formals_list_end, [S_symbol, T CLOSE_PAREN], False, End_List 1),
      (S_lambda_formals_list_end, [S_symbol, S_lambda_formals_list_end], False, Concat 1 2),
      (S_lambda_formals_list_end, [T DOT, S_symbol, T CLOSE_PAREN], False, Value 2)]"

definition scheme_y :: "production list" where
  "scheme_y = data_rules @ call_rules @ control_rules @ define_rules @ procedure_rules"

section \<open>Actions\<close>

text \<open>\<open>$k\<close>\<close>

definition dollar :: "'v list \<Rightarrow> nat \<Rightarrow> 'v" where
  "dollar vs k = vs ! (k - 1)"

definition STREAM_NEW :: "(compiler_core \<Rightarrow> addr \<Rightarrow> compiler_core res) \<Rightarrow> compiler_core \<Rightarrow> (compiler_core \<times> addr) res" where
  "STREAM_NEW build c = (let (c, s) = stream_create c in rbind (build c s) (\<lambda>c. Inr (c, s)))"

fun stream_text :: "text_kind \<Rightarrow> u8 list \<Rightarrow> compiler_core \<Rightarrow> addr \<Rightarrow> compiler_core res" where
  "stream_text Char_Text t c s = stream_char c s t"
| "stream_text Symbol_Text t c s = stream_symbol c s t"
| "stream_text Literal_Text t c s = stream_literal c s t"
| "stream_text String_Text t c s = stream_string c s t"
| "stream_text Op_Text t c s = stream_op c s t"

text \<open>\<open>(if arg true)\<close>: the stream of the missing branch is put in the node just built.\<close>

definition if_true_end :: "addr \<Rightarrow> compiler_core \<Rightarrow> (compiler_core \<times> addr) res" where
  "if_true_end v c =
     rbind (STREAM_NEW (\<lambda>c s. stream_two_arg c s v 0) c) (\<lambda>(c, s).
     rbind (stream_head c s) (\<lambda>head.
     let (c, t) = stream_create c in
     rbind (deref (nodes c head)) (\<lambda>nd.
     rbind (value_two nd) (\<lambda>(stream1, _).
     rbind (set_node c head (\<lambda>n. n\<lparr>nvalue := Two stream1 t\<rparr>)) (\<lambda>c.
     rbind (stream_literal c t empty_list) (\<lambda>c. Inr (c, s)))))))"

fun run_action :: "outside \<Rightarrow> u8 list \<Rightarrow> addr list \<Rightarrow> action \<Rightarrow> compiler_core \<Rightarrow> (compiler_core \<times> addr) res" where
  "run_action w txt vs (Value k) c = Inr (c, dollar vs k)"
| "run_action w txt vs New_Stream c = Inr (stream_create c)"
| "run_action w txt vs (New_Text k t) c =
     STREAM_NEW (stream_text k (case t of None \<Rightarrow> txt | Some t \<Rightarrow> t)) c"
| "run_action w txt vs (New_Boolean b) c = STREAM_NEW (\<lambda>c s. stream_boolean c s b) c"
| "run_action w txt vs (New_Single ty k) c = STREAM_NEW (\<lambda>c s. BUILD_SINGLE_STREAM ty c s (dollar vs k)) c"
| "run_action w txt vs (New_Double ty j k) c =
     STREAM_NEW (\<lambda>c s. BUILD_DOUBLE_STREAM ty c s (dollar vs j) (dollar vs k)) c"
| "run_action w txt vs (Concat j k) c =
     rbind (stream_concat c (dollar vs j) (dollar vs k)) (\<lambda>c. Inr (c, dollar vs j))"
| "run_action w txt vs (New_List_End k) c =
     STREAM_NEW (\<lambda>c s. rbind (stream_literal c s empty_list) (\<lambda>c. stream_concat c s (dollar vs k))) c"
| "run_action w txt vs (New_Clause j k) c =
     STREAM_NEW (\<lambda>c s. rbind (stream_cond c s (dollar vs j)) (\<lambda>c. stream_concat c s (dollar vs k))) c"
| "run_action w txt vs (New_If_True k) c = if_true_end (dollar vs k) c"
| "run_action w txt vs (End_List k) c =
     rbind (stream_literal c (dollar vs k) empty_list) (\<lambda>c. Inr (c, dollar vs k))"
| "run_action w txt vs (Include k) c = STREAM_NEW (\<lambda>c s. setup_include w c (dollar vs k)) c"

section \<open>The machine\<close>

record 'v parser =
  core :: compiler_core
  start :: start_cond
  yytext :: "u8 list"
  lookahead :: "yytokentype option"
  yyss :: "(yysymbol \<times> 'v) list"

definition fetch :: "'v parser \<Rightarrow> 'v parser res" where
  "fetch p =
     (case lookahead p of
        Some k \<Rightarrow> Inr p
      | None \<Rightarrow>
          rbind (yylex (start p) (core p)) (\<lambda>(k, txt, sc, c).
            Inr (p\<lparr>core := c, start := sc, yytext := txt, lookahead := Some k\<rparr>)))"

text \<open>Tokens have a null value.\<close>

definition shift :: "'v \<Rightarrow> 'v parser \<Rightarrow> 'v parser res" where
  "shift null p =
     rbind (fetch p) (\<lambda>p.
     rbind (deref (lookahead p)) (\<lambda>k. Inr (p\<lparr>lookahead := None, yyss := (T k, null) # yyss p\<rparr>)))"

text \<open>
  A production fits when its right-hand side is on top of the stack. After \<open>set!\<close> and a symbol the
  parser shifts, so the symbol does not become an expression.
\<close>

definition fits :: "production \<Rightarrow> 'v parser \<Rightarrow> bool" where
  "fits pr p = (case pr of (A, rhs, look, act) \<Rightarrow>
     map fst (take (length rhs) (yyss p)) = rev rhs
     \<and> (A = S_expression \<and> rhs = [S_symbol] \<longrightarrow> map fst (take 2 (yyss p)) \<noteq> [S_symbol, T PRIM_SET]))"

definition reduce ::
  "(u8 list \<Rightarrow> 'v list \<Rightarrow> action \<Rightarrow> compiler_core \<Rightarrow> (compiler_core \<times> 'v) res) \<Rightarrow> production \<Rightarrow> 'v parser \<Rightarrow> 'v parser res" where
  "reduce sem pr p = (case pr of (A, rhs, look, act) \<Rightarrow>
     rbind (if look then fetch p else Inr p) (\<lambda>p.
     rbind (sem (yytext p) (rev (map snd (take (length rhs) (yyss p)))) act (core p)) (\<lambda>(c, v).
       Inr (p\<lparr>core := c, yyss := (A, v) # drop (length rhs) (yyss p)\<rparr>))))"

datatype move = Shift | Reduce nat

definition applies :: "move \<Rightarrow> 'v parser \<Rightarrow> bool" where
  "applies m p = (case m of Shift \<Rightarrow> True | Reduce i \<Rightarrow> i < length scheme_y \<and> fits (scheme_y ! i) p)"

definition perform ::
  "(u8 list \<Rightarrow> 'v list \<Rightarrow> action \<Rightarrow> compiler_core \<Rightarrow> (compiler_core \<times> 'v) res) \<Rightarrow> 'v \<Rightarrow> move \<Rightarrow> 'v parser \<Rightarrow> 'v parser res" where
  "perform sem null m p = (case m of Shift \<Rightarrow> shift null p | Reduce i \<Rightarrow> reduce sem (scheme_y ! i) p)"

text \<open>The moves of a run; none if one does not apply.\<close>

fun moves ::
  "(u8 list \<Rightarrow> 'v list \<Rightarrow> action \<Rightarrow> compiler_core \<Rightarrow> (compiler_core \<times> 'v) res) \<Rightarrow> 'v \<Rightarrow> move list \<Rightarrow> 'v parser \<Rightarrow> 'v parser res option" where
  "moves sem null [] p = Some (Inr p)"
| "moves sem null (m # ms) p =
     (if applies m p
      then (case perform sem null m p of Inl e \<Rightarrow> Some (Inl e) | Inr p \<Rightarrow> moves sem null ms p)
      else None)"

definition parser_start :: "compiler_core \<Rightarrow> 'v parser" where
  "parser_start c = \<lparr>core = c, start = INITIAL, yytext = [], lookahead = None, yyss = []\<rparr>"

text \<open>\<open>top_level\<close>: the program is whole when the next token is the end of the input; it goes to the
  compiler's stream and the parser accepts.\<close>

definition whole_program :: "'v parser \<Rightarrow> 'v option" where
  "whole_program p =
     (case yyss p of [(A, v)] \<Rightarrow> if A = S_begin_body \<and> lookahead p = Some END_OF_FILE then Some v else None | _ \<Rightarrow> None)"

definition parses :: "outside \<Rightarrow> move list \<Rightarrow> compiler_core \<Rightarrow> compiler_core res option" where
  "parses w ms c =
     (case moves (run_action w) 0 ms (parser_start c) of
        None \<Rightarrow> None
      | Some (Inl e) \<Rightarrow> Some (Inl e)
      | Some (Inr p) \<Rightarrow> map_option (stream_concat (core p) (stream (core p))) (whole_program p))"

end
