(* ===== verification/Parse_Tree.thy ===== *)
theory Parse_Tree
  imports Parse
begin

text \<open>
  What the parser builds, as trees: a stream is null or a list of trees, a tree is a node with its place. The
  same machine runs with the actions on trees. The heap predicates say that a stream holds a list of trees
  in a region of its own; the operations of \<open>Ins_Stream\<close> are shown on them.
\<close>

section \<open>Trees and their actions\<close>

text \<open>Column, line and file.\<close>

type_synonym place = "u32 \<times> u32 \<times> u8 list option"

datatype tree = Tree place node_type tree_value
  and tree_value = Leaf "u8 list" | Sub "tree list option" | Subs "tree list option" "tree list option"

definition place_of :: "compiler_core \<Rightarrow> place res" where
  "place_of c = rbind (include_path c) (\<lambda>f. Inr (yycolumn (scan c), yylineno (scan c), f))"

definition grow :: "compiler_core \<Rightarrow> node_type \<Rightarrow> tree_value \<Rightarrow> tree list option \<Rightarrow> tree list option res" where
  "grow c ty v g =
     rbind (place_of c) (\<lambda>l. case g of None \<Rightarrow> Inl Bad_Pointer | Some gs \<Rightarrow> Inr (Some (gs @ [Tree l ty v])))"

fun join :: "tree list option \<Rightarrow> tree list option \<Rightarrow> tree list option res" where
  "join g None = Inl Assert_Failed"
| "join g (Some []) = Inr g"
| "join None (Some (h # hs)) = Inl Bad_Pointer"
| "join (Some gs) (Some (h # hs)) = Inr (Some (gs @ h # hs))"

fun text_node :: "text_kind \<Rightarrow> u8 list \<Rightarrow> node_type \<times> u8 list" where
  "text_node Char_Text t = (STREAM_LITERAL, [35, 92] @ c_str t)"
| "text_node Symbol_Text t = (STREAM_SYMBOL, [115, 34] @ c_str t @ [34])"
| "text_node Literal_Text t = (STREAM_LITERAL, c_str t)"
| "text_node String_Text t = (STREAM_STRING, c_str t)"
| "text_node Op_Text t = (STREAM_OP, c_str t)"

definition grow_text :: "compiler_core \<Rightarrow> text_kind \<Rightarrow> u8 list \<Rightarrow> tree list option \<Rightarrow> tree list option res" where
  "grow_text c k t g = (case text_node k t of (ty, s) \<Rightarrow> grow c ty (Leaf s) g)"

fun tree_include :: "outside \<Rightarrow> tree list option \<Rightarrow> compiler_core \<Rightarrow> compiler_core res" where
  "tree_include w (Some (Tree l ty (Leaf s) # gs)) c = include_file w c s"
| "tree_include w g c = Inl Bad_Pointer"

definition with_core :: "compiler_core \<Rightarrow> tree list option res \<Rightarrow> (compiler_core \<times> tree list option) res" where
  "with_core c r = rbind r (\<lambda>g. Inr (c, g))"

fun tree_action ::
  "outside \<Rightarrow> u8 list \<Rightarrow> tree list option list \<Rightarrow> action \<Rightarrow> compiler_core \<Rightarrow> (compiler_core \<times> tree list option) res" where
  "tree_action w txt gs (Value k) c = Inr (c, dollar gs k)"
| "tree_action w txt gs New_Stream c = Inr (c, Some [])"
| "tree_action w txt gs (New_Text k t) c = with_core c (grow_text c k (case t of None \<Rightarrow> txt | Some t \<Rightarrow> t) (Some []))"
| "tree_action w txt gs (New_Boolean b) c =
     with_core c (grow c STREAM_LITERAL (Leaf (chars (if b then ''#t'' else ''#f''))) (Some []))"
| "tree_action w txt gs (New_Single ty k) c = with_core c (grow c ty (Sub (dollar gs k)) (Some []))"
| "tree_action w txt gs (New_Double ty j k) c = with_core c (grow c ty (Subs (dollar gs j) (dollar gs k)) (Some []))"
| "tree_action w txt gs (Concat j k) c = with_core c (join (dollar gs j) (dollar gs k))"
| "tree_action w txt gs (New_List_End k) c =
     with_core c (rbind (grow_text c Literal_Text empty_list (Some [])) (\<lambda>g. join g (dollar gs k)))"
| "tree_action w txt gs (New_Clause j k) c =
     with_core c (rbind (grow c STREAM_COND (Sub (dollar gs j)) (Some [])) (\<lambda>g. join g (dollar gs k)))"
| "tree_action w txt gs (New_If_True k) c =
     with_core c (rbind (grow_text c Literal_Text empty_list (Some [])) (\<lambda>g.
       grow c STREAM_TWO_ARG (Subs (dollar gs k) g) (Some [])))"
| "tree_action w txt gs (End_List k) c = with_core c (grow_text c Literal_Text empty_list (dollar gs k))"
| "tree_action w txt gs (Include k) c = rbind (tree_include w (dollar gs k) c) (\<lambda>c. Inr (c, Some []))"

text \<open>A compiler without its heap.\<close>

definition bare :: "compiler_core \<Rightarrow> compiler_core" where
  "bare c = c\<lparr>nodes := (\<lambda>_. None), streams := (\<lambda>_. None), next_ptr := 1, stream := 0\<rparr>"

definition tree_parses :: "outside \<Rightarrow> move list \<Rightarrow> compiler_core \<Rightarrow> tree list option res option" where
  "tree_parses w ms c =
     (case moves (tree_action w) None ms (parser_start (bare c)) of
        None \<Rightarrow> None
      | Some (Inl e) \<Rightarrow> Some (Inl e)
      | Some (Inr p) \<Rightarrow> map_option (join (Some [])) (whole_program p))"

section \<open>Trees in the heap\<close>

text \<open>The addresses of a tree and of all below it lie in a region; parts that are apart have regions that are.\<close>

inductive tree_at :: "compiler_core \<Rightarrow> addr \<Rightarrow> tree \<Rightarrow> addr set \<Rightarrow> bool"
  and value_at :: "compiler_core \<Rightarrow> node_value \<Rightarrow> tree_value \<Rightarrow> addr set \<Rightarrow> bool"
  and trees_at :: "compiler_core \<Rightarrow> addr list \<Rightarrow> tree list \<Rightarrow> addr set \<Rightarrow> bool"
  and strm_at :: "compiler_core \<Rightarrow> addr \<Rightarrow> tree list option \<Rightarrow> addr set \<Rightarrow> bool"
  for c :: compiler_core
where
  at_node: "nodes c a = Some n \<Longrightarrow> says n = (ty, v, l) \<Longrightarrow> value_at c v tv B \<Longrightarrow> insert a B \<subseteq> A \<Longrightarrow> a \<notin> B \<Longrightarrow>
    tree_at c a (Tree l ty tv) A"
| at_leaf: "value_at c (Literal t) (Leaf t) A"
| at_single: "strm_at c s g A \<Longrightarrow> value_at c (One s) (Sub g) A"
| at_double: "strm_at c s g B \<Longrightarrow> strm_at c t h C \<Longrightarrow> B \<inter> C = {} \<Longrightarrow> B \<union> C \<subseteq> A \<Longrightarrow> value_at c (Two s t) (Subs g h) A"
| at_nil: "trees_at c [] [] A"
| at_cons: "tree_at c a g B \<Longrightarrow> trees_at c as gs C \<Longrightarrow> B \<inter> C = {} \<Longrightarrow> B \<union> C \<subseteq> A \<Longrightarrow> trees_at c (a # as) (g # gs) A"
| at_null: "strm_at c 0 None A"
| at_strm: "stream_holds c s as \<Longrightarrow> trees_at c as gs B \<Longrightarrow> s \<noteq> 0 \<Longrightarrow> insert s B \<subseteq> A \<Longrightarrow> s \<notin> B \<Longrightarrow> strm_at c s (Some gs) A"

inductive_cases tree_atE: "tree_at c a g A"
inductive_cases value_atE: "value_at c v g A"
inductive_cases trees_nilE: "trees_at c as [] A"
inductive_cases trees_consE: "trees_at c as (g # gs) A"
inductive_cases nullE: "strm_at c s None A"
inductive_cases strmE: "strm_at c s (Some gs) A"

lemmas at_rules = at_node at_leaf at_single at_double at_nil at_cons at_null at_strm

lemma tree_at_root: "tree_at c a g A \<Longrightarrow> a \<in> A"
  by (auto elim: tree_atE)

lemma trees_at_set: "trees_at c as gs A \<Longrightarrow> set as \<subseteq> A"
proof (induction gs arbitrary: as A)
  case (Cons g gs)
  then obtain a as' B C where "as = a # as'" "tree_at c a g B" "trees_at c as' gs C" "B \<union> C \<subseteq> A"
    by (auto elim!: trees_consE)
  then show ?case using Cons.IH [of as' C] tree_at_root [of c a g B] by auto
qed (auto elim!: trees_nilE)

lemma tree_widen: "tree_at c a g A \<Longrightarrow> A \<subseteq> A' \<Longrightarrow> tree_at c a g A'"
  by (erule tree_atE) (auto intro!: at_node)

lemma trees_widen: "trees_at c as gs A \<Longrightarrow> A \<subseteq> A' \<Longrightarrow> trees_at c as gs A'"
  by (erule trees_at.cases) (simp_all add: at_nil, rule at_cons, assumption+, blast)

lemma strm_widen: "strm_at c s g A \<Longrightarrow> A \<subseteq> A' \<Longrightarrow> strm_at c s g A'"
  by (erule strm_at.cases) (auto intro: at_null intro!: at_strm)

lemma value_widen: "value_at c v tv A \<Longrightarrow> A \<subseteq> A' \<Longrightarrow> value_at c v tv A'"
  by (erule value_at.cases) (simp_all add: at_leaf at_single strm_widen, rule at_double, assumption+, blast)

text \<open>What happens outside the region does not matter.\<close>

definition same_at :: "compiler_core \<Rightarrow> compiler_core \<Rightarrow> addr set \<Rightarrow> bool" where
  "same_at c c' A \<longleftrightarrow> (\<forall>x\<in>A. nodes c' x = nodes c x \<and> streams c' x = streams c x)"

lemma same_at_sub: "same_at c c' A \<Longrightarrow> B \<subseteq> A \<Longrightarrow> same_at c c' B"
  by (auto simp: same_at_def)

lemma holds_frame: "stream_holds c s as \<Longrightarrow> same_at c c' A \<Longrightarrow> insert s (set as) \<subseteq> A \<Longrightarrow> stream_holds c' s as"
  using chain_cong [of as "nodes c'" "nodes c" 0] by (fastforce simp: stream_holds_def same_at_def)

lemma frame:
  "tree_at c a g A \<Longrightarrow> same_at c c' A \<Longrightarrow> tree_at c' a g A"
  "value_at c v tv A \<Longrightarrow> same_at c c' A \<Longrightarrow> value_at c' v tv A"
  "trees_at c as gs A \<Longrightarrow> same_at c c' A \<Longrightarrow> trees_at c' as gs A"
  "strm_at c s sg A \<Longrightarrow> same_at c c' A \<Longrightarrow> strm_at c' s sg A"
proof (induction rule: tree_at_value_at_trees_at_strm_at.inducts)
  case (at_node a n ty v l tv B A)
  then show ?case using same_at_sub [of c c' A B]
    by (intro at_rules(1) [where n = n and B = B]) (auto simp: same_at_def)
next
  case (at_double s g B t h C A)
  then show ?case using same_at_sub [of c c' A]
    by (intro at_rules(4)) auto
next
  case (at_cons a g B as gs C A)
  then show ?case using same_at_sub [of c c' A]
    by (intro at_rules(6)) auto
next
  case (at_strm s as gs B A)
  then show ?case using same_at_sub [of c c' A] holds_frame [of c s as c' A] trees_at_set [of c as gs B]
    by (intro at_rules(8)) auto
qed (auto intro: at_rules)

lemma trees_append:
  "trees_at c as gs A \<Longrightarrow> trees_at c bs hs B \<Longrightarrow> A \<inter> B = {} \<Longrightarrow> trees_at c (as @ bs) (gs @ hs) (A \<union> B)"
proof (induction gs arbitrary: as A)
  case (Cons g gs)
  then obtain a as' B1 C1 where "as = a # as'" "tree_at c a g B1" "trees_at c as' gs C1" "B1 \<inter> C1 = {}" "B1 \<union> C1 \<subseteq> A"
    by (auto elim!: trees_consE)
  then show ?case using Cons.IH [of as' C1] Cons.prems(2,3) at_cons [of c a g B1 "as' @ bs" "gs @ hs" "C1 \<union> B" "A \<union> B"]
    by auto
qed (auto elim!: trees_nilE intro: trees_widen)

text \<open>Relinking the nodes of a list does not touch what they say and what is below them.\<close>

lemma trees_relink:
  assumes "trees_at c as gs A" "\<forall>x\<in>A. map_option says (nodes c' x) = map_option says (nodes c x)"
    "same_at c c' (A - D)" "A \<inter> D \<subseteq> set as" "\<forall>x\<in>A. streams c' x = streams c x"
  shows "trees_at c' as gs A"
  using assms
proof (induction gs arbitrary: as A)
  case (Cons g gs)
  then obtain a as' B C where t: "as = a # as'" "tree_at c a g B" "trees_at c as' gs C" "B \<inter> C = {}" "B \<union> C \<subseteq> A"
    by (auto elim!: trees_consE)
  obtain n ty v l tv K where n: "g = Tree l ty tv" "nodes c a = Some n" "says n = (ty, v, l)" "value_at c v tv K"
    "insert a K \<subseteq> B" "a \<notin> K" using t(2) by (auto elim!: tree_atE)
  obtain n' where n': "nodes c' a = Some n'" "says n' = (ty, v, l)" using Cons.prems(2) n(2,3,5) t(5) by (cases "nodes c' a") fastforce+
  have s: "set as' \<subseteq> C" using trees_at_set [OF t(3)] .
  have "K \<subseteq> A - D"
  proof
    fix x assume x: "x \<in> K"
    then have "x \<in> A" "x \<noteq> a" "x \<notin> set as'" using n(5,6) t(4,5) s by blast+
    then show "x \<in> A - D" using Cons.prems(4) t(1) by auto
  qed
  then have "same_at c c' K" using same_at_sub [OF Cons.prems(3)] by blast
  then have "tree_at c' a g B" using n(1,5,6) n' frame(2) [OF n(4)] by (auto intro: at_node)
  moreover have "C \<inter> D \<subseteq> set as'" using Cons.prems(4) t(1,4,5) tree_at_root [OF t(2)] by auto
  then have "trees_at c' as' gs C"
    using Cons.IH [OF t(3)] same_at_sub [OF Cons.prems(3), of "C - D"] Cons.prems(2,5) t(5) by blast
  ultimately show ?case using t by (auto intro: at_cons)
qed (auto elim!: trees_nilE intro: at_nil)

end
