(* ===== verification/Parse_Ops.thy ===== *)
theory Parse_Ops
  imports Parse_Tree
begin

text \<open>
  The operations on streams, on trees: what each builds, in which region, and that it leaves everything
  outside alone.
\<close>

text \<open>\<open>c'\<close> comes after \<open>c\<close>: new blocks may be there, the old ones outside the region are as they were.\<close>

definition keeps :: "compiler_core \<Rightarrow> addr set \<Rightarrow> compiler_core \<Rightarrow> bool" where
  "keeps c A c' \<longleftrightarrow> heap_wf c' \<and> next_ptr c \<le> next_ptr c' \<and> stream c' = stream c \<and> same_at c c' ({..<next_ptr c} - A)"

lemma keeps_refl [simp]: "heap_wf c \<Longrightarrow> keeps c A c"
  by (simp add: keeps_def same_at_def)

lemma keeps_trans:
  assumes "keeps c A c1" "keeps c1 B c2" "B \<subseteq> A \<union> {next_ptr c..}"
  shows "keeps c A c2"
proof -
  have "{..<next_ptr c} - A \<subseteq> {..<next_ptr c1} - B" using assms by (fastforce simp: keeps_def)
  then have "same_at c1 c2 ({..<next_ptr c} - A)" using assms(2) same_at_sub unfolding keeps_def by blast
  then show ?thesis using assms(1,2) by (simp add: keeps_def same_at_def)
qed

lemma keeps_widen: "keeps c A c' \<Longrightarrow> A \<subseteq> B \<Longrightarrow> keeps c B c'"
  by (auto simp: keeps_def same_at_def)

lemma keeps_strm:
  "strm_at c s g B \<Longrightarrow> keeps c A c' \<Longrightarrow> B \<subseteq> {..<next_ptr c} \<Longrightarrow> A \<inter> B = {} \<Longrightarrow> strm_at c' s g B"
  by (rule frame(4)) (auto simp: keeps_def same_at_def)

lemma keeps_value:
  "value_at c v tv B \<Longrightarrow> keeps c A c' \<Longrightarrow> B \<subseteq> {..<next_ptr c} \<Longrightarrow> A \<inter> B = {} \<Longrightarrow> value_at c' v tv B"
  by (rule frame(2)) (auto simp: keeps_def same_at_def)

lemma bare_fields:
  assumes "bare c' = bare c"
  shows "scan c' = scan c" "include_depth c' = include_depth c" "include_stack c' = include_stack c"
    "home c' = home c" "label_index c' = label_index c" "include_path c' = include_path c" "place_of c' = place_of c"
proof -
  show f: "scan c' = scan c" "include_depth c' = include_depth c" "include_stack c' = include_stack c"
    "home c' = home c" "label_index c' = label_index c"
    using assms by (cases c, cases c', simp add: bare_def)+
  show "include_path c' = include_path c" by (simp add: include_path_def f)
  then show "place_of c' = place_of c" by (simp add: place_of_def f)
qed

lemma place_of_bare [simp]: "place_of (bare c) = place_of c" "bare (bare c) = bare c"
  by (simp_all add: place_of_def include_path_def bare_def)

lemma create_ok:
  assumes "heap_wf c" "stream_create c = (c', s)"
  shows "s = next_ptr c \<and> next_ptr c' = Suc (next_ptr c) \<and> keeps c {} c' \<and> bare c' = bare c \<and> strm_at c' s (Some []) {s}"
proof -
  have "s = next_ptr c" "c' = c\<lparr>streams := (streams c)(next_ptr c \<mapsto> \<lparr>shead = 0, stail = 0\<rparr>), next_ptr := Suc (next_ptr c)\<rparr>"
    using assms(2) by (auto simp: stream_create_def)
  moreover from this have "stream_holds c' s []" by (simp add: stream_holds_def)
  moreover have "0 < next_ptr c" using assms(1) by (simp add: heap_wf_def)
  ultimately show ?thesis using assms(1)
    by (auto simp: keeps_def same_at_def heap_wf_def bare_def less_Suc_eq intro!: at_strm at_nil split: if_splits)
qed

lemma build_frame:
  assumes "build_node ty v c s = Inr c'" "streams c s = Some st"
  shows "(x \<noteq> next_ptr c \<longrightarrow> x \<noteq> stail st \<longrightarrow> nodes c' x = nodes c x) \<and> next_ptr c' = Suc (next_ptr c)
    \<and> bare c' = bare c \<and> stream c' = stream c"
  using assms
  by (auto simp: build_node_def stream_alloc_node_def set_node_def stream_append_def set_stream_def res_simps Let_def
      bare_def split: if_splits)

lemma build_ok:
  assumes wf: "heap_wf c" and s: "strm_at c s (Some gs) A" and v: "value_at c v tv K"
    and d: "A \<inter> K = {}" "A \<union> K \<subseteq> {..<next_ptr c}" and f: "place_of c = Inr l"
  shows "\<exists>c'. build_node ty v c s = Inr c' \<and> keeps c A c' \<and> bare c' = bare c \<and> next_ptr c' = Suc (next_ptr c)
    \<and> strm_at c' s (Some (gs @ [Tree l ty tv])) (insert (next_ptr c) (A \<union> K))"
proof -
  let ?p = "next_ptr c"
  obtain as B where a: "stream_holds c s as" "trees_at c as gs B" "s \<noteq> 0" "insert s B \<subseteq> A" "s \<notin> B"
    using s by (auto elim: strmE)
  obtain fl where l: "include_path c = Inr fl" "l = (yycolumn (scan c), yylineno (scan c), fl)"
    using f by (auto simp: place_of_def res_simps)
  obtain c' n where b: "build_node ty v c s = Inr c'" "heap_wf c'" "stream_holds c' s (as @ [?p])"
    "nodes c' ?p = Some n" "says n = (ty, v, l)"
    "\<forall>a. a \<noteq> ?p \<longrightarrow> map_option says (nodes c' a) = map_option says (nodes c a)" "\<forall>t. t \<noteq> s \<longrightarrow> streams c' t = streams c t"
    using build_spec [OF wf a(1) l(1), of ty v] unfolding l(2) by blast
  obtain st where st: "streams c s = Some st" "stail st = (if as = [] then 0 else last as)"
    using a(1) by (auto simp: stream_holds_def)
  have as: "set as \<subseteq> B" by (rule trees_at_set [OF a(2)])
  have "nodes c' 0 = nodes c 0" using wf b(2) by (metis heap_wf_def less_nat_zero_code)
  then have nf: "nodes c' x = nodes c x" if "x \<noteq> ?p" "x \<notin> set as" for x
    using build_frame [OF b(1) st(1), of x] st(2) that by (cases "as = []") (auto simp: last_in_set)
  note bf = build_frame [OF b(1) st(1)]
  have p: "?p \<notin> B" "?p \<notin> K" "?p \<noteq> s" "B \<subseteq> A" "s \<in> A" using d(2) a(4) by auto
  have "x \<in> B \<Longrightarrow> x \<noteq> ?p \<and> x \<noteq> s" for x using p(1) a(5) by blast
  then have "x \<in> B \<Longrightarrow> map_option says (nodes c' x) = map_option says (nodes c x) \<and> streams c' x = streams c x"
    and "x \<in> B - set as \<Longrightarrow> nodes c' x = nodes c x" for x
    using b(6,7) nf by blast+
  then have tr: "trees_at c' as gs B"
    by (intro trees_relink [OF a(2), where D = "set as"]) (simp_all add: same_at_def)
  have "x \<in> K \<Longrightarrow> x \<noteq> ?p \<and> x \<notin> set as \<and> x \<noteq> s" for x using p as d(1) by blast
  then have "same_at c c' K" using nf b(7) by (simp add: same_at_def)
  then have "trees_at c' [?p] [Tree l ty tv] (insert ?p K)"
    using p(2) b(4,5) frame(2) [OF v] by (intro at_cons [where B = "insert ?p K" and C = "{}"] at_nil at_node [where B = K, OF b(4,5)]) auto
  from trees_append [OF tr this] have "trees_at c' (as @ [?p]) (gs @ [Tree l ty tv]) (B \<union> insert ?p K)"
    using p d(1) by auto
  then have "strm_at c' s (Some (gs @ [Tree l ty tv])) (insert ?p (A \<union> K))"
    using b(3) a(3,4,5) p d(1) by (intro at_strm [where B = "B \<union> insert ?p K"]) auto
  moreover have "x < ?p \<Longrightarrow> x \<notin> A \<Longrightarrow> x \<noteq> ?p \<and> x \<notin> set as \<and> x \<noteq> s" for x using p as by blast
  then have "keeps c A c'" using b(2,7) bf nf by (simp add: keeps_def same_at_def)
  ultimately show ?thesis using b(1) bf by blast
qed

lemma concat_frame:
  assumes "stream_concat c s r = Inr c'" "streams c s = Some st" "streams c r = Some sr"
  shows "(x \<noteq> stail st \<longrightarrow> x \<noteq> shead sr \<longrightarrow> nodes c' x = nodes c x) \<and> next_ptr c' = next_ptr c
    \<and> bare c' = bare c \<and> stream c' = stream c \<and> (x \<noteq> s \<longrightarrow> streams c' x = streams c x) \<and> streams c' s \<noteq> None
    \<and> (nodes c' x = None \<longleftrightarrow> nodes c x = None)"
  using assms
  by (auto simp: stream_concat_def set_node_def stream_append_def set_stream_def res_simps Let_def bare_def split: if_splits)

lemma concat_ok:
  assumes wf: "heap_wf c" and s: "strm_at c s g A" and r: "strm_at c r h B" and d: "A \<inter> B = {}" "A \<union> B \<subseteq> {..<next_ptr c}"
  shows "case join g h of Inl e \<Rightarrow> stream_concat c s r = Inl e
    | Inr g' \<Rightarrow> \<exists>c'. stream_concat c s r = Inr c' \<and> keeps c (A \<union> B) c' \<and> bare c' = bare c \<and> next_ptr c' = next_ptr c
        \<and> strm_at c' s g' (A \<union> B)"
proof -
  have z: "nodes c 0 = None" "streams c 0 = None" using wf by (metis heap_wf_def less_nat_zero_code)+
  show ?thesis
  proof (cases h)
    case None
    then have "r = 0" using r by (auto elim: nullE)
    then show ?thesis by (simp add: None stream_concat_def)
  next
    case (Some hs)
    obtain bs R where b: "stream_holds c r bs" "trees_at c bs hs R" "r \<noteq> 0" "insert r R \<subseteq> B" "r \<notin> R"
      using r by (auto simp: Some elim: strmE)
    obtain sr where sr: "streams c r = Some sr" "shead sr = (if bs = [] then 0 else hd bs)"
      using b(1) by (cases bs) (auto simp: stream_holds_def)
    have e: "bs = [] \<longleftrightarrow> hs = []" using b(2) by (cases hs) (auto elim: trees_nilE trees_consE)
    have hd: "hs \<noteq> [] \<Longrightarrow> shead sr \<noteq> 0" using chain_node [of "nodes c" 0 "shead sr" bs] b(1) sr e
      by (cases bs) (auto simp: stream_holds_def)
    show ?thesis
    proof (cases hs)
      case Nil
      then show ?thesis using b(3) sr e wf strm_widen [OF s, of "A \<union> B"] by (simp add: Some stream_concat_def)
    next
      case (Cons h' hs')
      show ?thesis
      proof (cases g)
        case None
        then have "s = 0" using s by (auto elim: nullE)
        then show ?thesis using b(3) sr hd z
          by (simp add: None Some Cons stream_concat_def stream_append_def)
      next
        case (Some gs)
        obtain as S where a: "stream_holds c s as" "trees_at c as gs S" "s \<noteq> 0" "insert s S \<subseteq> A" "s \<notin> S"
          using s by (auto simp: Some elim: strmE)
        have sub: "set as \<subseteq> S" "set bs \<subseteq> R" using trees_at_set a(2) b(2) by blast+
        have dis: "S \<inter> R = {}" "s \<noteq> r" "s \<notin> R" "S \<union> R \<subseteq> A \<union> B" using a(4) b(4) d(1) by blast+
        have "distinct (as @ bs)" using a(1) b(1) sub dis(1) by (auto simp: stream_holds_def)
        then obtain c' where c': "stream_concat c s r = Inr c'" "relinked c s c'" "stream_holds c' s (as @ bs)"
          using concat_spec [OF a(1) b(1) dis(2) b(3)] by blast
        obtain st where st: "streams c s = Some st" "stail st = (if as = [] then 0 else last as)"
          using a(1) by (auto simp: stream_holds_def)
        note cf = concat_frame [OF c'(1) st(1) sr(1)]
        have wf': "heap_wf c'" using wf cf st(1) unfolding heap_wf_def by (metis option.distinct(1))
        then have "nodes c' 0 = nodes c 0" using z by (metis heap_wf_def less_nat_zero_code)
        then have nf: "nodes c' x = nodes c x" if "x \<notin> set (as @ bs)" for x
          using cf [of x] st(2) sr(2) that by (cases "x = 0") (auto simp: last_in_set hd_in_set split: if_splits)
        have "trees_at c (as @ bs) (gs @ hs) (S \<union> R)" by (rule trees_append [OF a(2) b(2) dis(1)])
        moreover have "\<forall>x\<in>S \<union> R. map_option says (nodes c' x) = map_option says (nodes c x)"
          using c'(2) by (simp add: relinked_def)
        moreover have "\<forall>x\<in>S \<union> R. streams c' x = streams c x" using c'(2) a(5) dis(3) by (auto simp: relinked_def)
        moreover have "same_at c c' (S \<union> R - set (as @ bs))" using nf calculation(3) by (simp add: same_at_def)
        ultimately have "trees_at c' (as @ bs) (gs @ hs) (S \<union> R)"
          using trees_relink [of c "as @ bs" "gs @ hs" "S \<union> R" c' "set (as @ bs)"] by blast
        then have "strm_at c' s (Some (gs @ hs)) (A \<union> B)"
          using c'(3) a(3,4,5) dis by (intro at_strm [where B = "S \<union> R"]) auto
        moreover have "x \<notin> A \<union> B \<Longrightarrow> x \<notin> set (as @ bs) \<and> x \<noteq> s" for x using sub a(4) b(4) by auto
        then have "keeps c (A \<union> B) c'" using wf' cf nf by (simp add: keeps_def same_at_def)
        ultimately show ?thesis using c'(1) cf by (auto simp: Some \<open>h = Some hs\<close> Cons)
      qed
    qed
  qed
qed


section \<open>Values of the parser\<close>

text \<open>The streams of a list of values, each in a region of its own.\<close>

inductive strms_at :: "compiler_core \<Rightarrow> addr list \<Rightarrow> tree list option list \<Rightarrow> addr set \<Rightarrow> bool" for c where
  strms_nil: "strms_at c [] [] A"
| strms_cons: "strm_at c v g B \<Longrightarrow> strms_at c vs gs C \<Longrightarrow> B \<inter> C = {} \<Longrightarrow> B \<union> C \<subseteq> A \<Longrightarrow> strms_at c (v # vs) (g # gs) A"

inductive_cases strms_consE: "strms_at c (v # vs) gs A"

lemma strms_widen: "strms_at c vs gs A \<Longrightarrow> A \<subseteq> B \<Longrightarrow> strms_at c vs gs B"
  by (erule strms_at.cases) (simp_all add: strms_nil, rule strms_cons, assumption+, blast)

lemma strms_keep:
  "strms_at c vs gs B \<Longrightarrow> keeps c A c' \<Longrightarrow> B \<subseteq> {..<next_ptr c} \<Longrightarrow> A \<inter> B = {} \<Longrightarrow> strms_at c' vs gs B"
proof (induction rule: strms_at.induct)
  case (strms_cons v g B vs gs C D)
  have "B \<subseteq> {..<next_ptr c}" "A \<inter> B = {}" "C \<subseteq> {..<next_ptr c}" "A \<inter> C = {}" using strms_cons.prems(2,3) strms_cons.hyps(4) by blast+
  then show ?case
    using strms_at.strms_cons [OF keeps_strm [OF strms_cons.hyps(1) strms_cons.prems(1)]] strms_cons.IH [OF strms_cons.prems(1)]
      strms_cons.hyps(3,4) by blast
qed (rule strms_nil)

lemma strms_length: "strms_at c vs gs A \<Longrightarrow> length vs = length gs"
  by (induction rule: strms_at.induct) auto

lemma strms_append:
  "strms_at c (vs @ ws) gs A \<longleftrightarrow> (\<exists>B C. strms_at c vs (take (length vs) gs) B \<and> strms_at c ws (drop (length vs) gs) C
     \<and> B \<inter> C = {} \<and> B \<union> C \<subseteq> A \<and> length vs \<le> length gs)"
proof (induction vs arbitrary: gs A)
  case Nil
  have "strms_at c [] [] {}" by (rule strms_nil)
  then show ?case by (auto intro: strms_nil strms_widen)
next
  case (Cons v vs)
  show ?case
  proof
    assume "strms_at c ((v # vs) @ ws) gs A"
    then obtain g gs' B C where g: "gs = g # gs'" "strm_at c v g B" "strms_at c (vs @ ws) gs' C" "B \<inter> C = {}" "B \<union> C \<subseteq> A"
      by (auto elim: strms_consE)
    obtain D E where e: "strms_at c vs (take (length vs) gs') D" "strms_at c ws (drop (length vs) gs') E" "D \<inter> E = {}"
      "D \<union> E \<subseteq> C" "length vs \<le> length gs'" using g(3) unfolding Cons.IH by blast
    have "strms_at c (v # vs) (g # take (length vs) gs') (B \<union> D)" using g e by (intro strms_cons [OF g(2) e(1)]) auto
    moreover have "(B \<union> D) \<inter> E = {}" "(B \<union> D) \<union> E \<subseteq> A" using g e by auto
    ultimately show "\<exists>B C. strms_at c (v # vs) (take (length (v # vs)) gs) B \<and> strms_at c ws (drop (length (v # vs)) gs) C
        \<and> B \<inter> C = {} \<and> B \<union> C \<subseteq> A \<and> length (v # vs) \<le> length gs"
      using e(2,5) by (intro exI [of _ "B \<union> D"] exI [of _ E]) (simp add: g(1))
  next
    assume "\<exists>B C. strms_at c (v # vs) (take (length (v # vs)) gs) B \<and> strms_at c ws (drop (length (v # vs)) gs) C
        \<and> B \<inter> C = {} \<and> B \<union> C \<subseteq> A \<and> length (v # vs) \<le> length gs"
    then obtain g gs' B C where g: "gs = g # gs'" "strms_at c (v # vs) (g # take (length vs) gs') B"
      "strms_at c ws (drop (length vs) gs') C" "B \<inter> C = {}" "B \<union> C \<subseteq> A" "length vs \<le> length gs'"
      by (cases gs) auto
    obtain D E where e: "strm_at c v g D" "strms_at c vs (take (length vs) gs') E" "D \<inter> E = {}" "D \<union> E \<subseteq> B"
      using g(2) by (auto elim: strms_consE)
    have "strms_at c (vs @ ws) gs' (E \<union> C)" unfolding Cons.IH using e g by blast
    then show "strms_at c ((v # vs) @ ws) gs A" using e g by (auto simp: g(1) intro!: strms_cons [OF e(1)])
  qed
qed

lemma strms_snoc: "strms_at c vs gs B \<Longrightarrow> strm_at c v g C \<Longrightarrow> B \<inter> C = {} \<Longrightarrow> B \<union> C \<subseteq> A \<Longrightarrow> strms_at c (vs @ [v]) (gs @ [g]) A"
  using strms_length [of c vs gs B] strms_cons [OF _ strms_nil, of c v g C "{}" C] by (auto simp: strms_append)

lemma strms_rev: "strms_at c vs gs A \<Longrightarrow> strms_at c (rev vs) (rev gs) A"
proof (induction rule: strms_at.induct)
  case (strms_cons v g B vs gs C A)
  then show ?case using strms_snoc [OF strms_cons.IH strms_cons.hyps(1), of A] by auto
qed (simp add: strms_nil)

lemma strms_nth:
  "strms_at c vs gs A \<Longrightarrow> i < length vs \<Longrightarrow> \<exists>B. strm_at c (vs ! i) (gs ! i) B \<and> B \<subseteq> A"
proof (induction arbitrary: i rule: strms_at.induct)
  case (strms_cons v g B vs gs C A)
  then show ?case by (cases i) (auto, blast)
qed simp

lemma strms_two:
  assumes "strms_at c vs gs A" "i < j" "j < length vs"
  shows "\<exists>B C. strm_at c (vs ! i) (gs ! i) B \<and> strm_at c (vs ! j) (gs ! j) C \<and> B \<inter> C = {} \<and> B \<union> C \<subseteq> A"
  using assms
proof (induction arbitrary: i j rule: strms_at.induct)
  case (strms_cons v g B vs gs C A)
  obtain j' where j: "j = Suc j'" "j' < length vs" using strms_cons.prems by (cases j) auto
  show ?case
  proof (cases i)
    case 0
    obtain D where "strm_at c (vs ! j') (gs ! j') D" "D \<subseteq> C" using strms_nth [OF strms_cons.hyps(2) j(2)] by blast
    moreover from this have "B \<inter> D = {}" "B \<union> D \<subseteq> A" using strms_cons.hyps(3,4) by blast+
    ultimately show ?thesis using strms_cons.hyps(1) by (auto simp: 0 j(1))
  next
    case (Suc i')
    then obtain D E where "strm_at c (vs ! i') (gs ! i') D" "strm_at c (vs ! j') (gs ! j') E" "D \<inter> E = {}" "D \<union> E \<subseteq> C"
      using strms_cons.IH [of i' j'] strms_cons.prems(1) j by auto
    moreover from this have "D \<union> E \<subseteq> A" using strms_cons.hyps(4) by blast
    ultimately show ?thesis by (auto simp: Suc j(1))
  qed
qed simp

end
