(* ===== verification/Parse_Sim.thy ===== *)
theory Parse_Sim
  imports Parse_Ops
begin

text \<open>
  The parser on the heap and the parser on trees make the same moves: every action builds in the heap what
  it builds as a tree, or faults as it does.
\<close>

section \<open>Operations\<close>

definition op_sim :: "compiler_core \<Rightarrow> addr \<Rightarrow> addr set \<Rightarrow> compiler_core res \<Rightarrow> tree list option res \<Rightarrow> bool" where
  "op_sim c s A r tr \<longleftrightarrow> (case tr of Inl e \<Rightarrow> r = Inl e
     | Inr g \<Rightarrow> \<exists>c'. r = Inr c' \<and> keeps c A c' \<and> bare c' = bare c \<and> strm_at c' s g (A \<union> {next_ptr c..<next_ptr c'}))"

lemma grow_sim:
  assumes "heap_wf c" "strm_at c s g B" "value_at c v tv K" "B \<inter> K = {}" "B \<union> K \<subseteq> A" "A \<subseteq> {..<next_ptr c}"
  shows "op_sim c s A (build_node ty v c s) (grow c ty tv g)"
proof (cases "place_of c")
  case (Inl e)
  then have "include_path c = Inl e" by (cases "include_path c") (auto simp: place_of_def)
  then show ?thesis using Inl by (simp add: op_sim_def grow_def build_node_def stream_alloc_node_def Let_def)
next
  case (Inr l)
  show ?thesis
  proof (cases g)
    case None
    have "streams c 0 = None" using assms(1) by (metis heap_wf_def less_nat_zero_code)
    moreover have "s = 0" using assms(2) by (auto simp: None elim: nullE)
    moreover obtain f where "include_path c = Inr f" using Inr by (cases "include_path c") (auto simp: place_of_def)
    ultimately show ?thesis using Inr
      by (simp add: None op_sim_def grow_def build_node_def stream_alloc_node_def set_node_def stream_append_def Let_def)
  next
    case (Some gs)
    obtain c' where "build_node ty v c s = Inr c'" "keeps c B c'" "bare c' = bare c" "next_ptr c' = Suc (next_ptr c)"
      "strm_at c' s (Some (gs @ [Tree l ty tv])) (insert (next_ptr c) (B \<union> K))"
      using build_ok [OF assms(1) _ assms(3,4) _ Inr, of s gs ty] assms(2,5,6) by (auto simp: Some)
    moreover from this have "strm_at c' s (Some (gs @ [Tree l ty tv])) (A \<union> {next_ptr c..<next_ptr c'})"
      using assms(5) by (auto elim!: strm_widen)
    ultimately show ?thesis using Inr assms(5) keeps_widen [of c B c' A] by (simp add: op_sim_def grow_def Some)
  qed
qed

lemma concat_sim:
  assumes "heap_wf c" "strm_at c s g B" "strm_at c r h C" "B \<inter> C = {}" "B \<union> C \<subseteq> A" "A \<subseteq> {..<next_ptr c}"
  shows "op_sim c s A (stream_concat c s r) (join g h)"
proof -
  have "B \<union> C \<subseteq> {..<next_ptr c}" using assms(5,6) by blast
  note ok = concat_ok [OF assms(1-4) this]
  show ?thesis
  proof (cases "join g h")
    case (Inr g')
    then obtain c' where c': "stream_concat c s r = Inr c'" "keeps c (B \<union> C) c'" "bare c' = bare c" "strm_at c' s g' (B \<union> C)"
      using ok by auto
    have "B \<union> C \<subseteq> A \<union> {next_ptr c..<next_ptr c'}" using assms(5) by blast
    from strm_widen [OF c'(4) this] keeps_widen [OF c'(2) assms(5)] c'(1,3) show ?thesis by (simp add: op_sim_def Inr)
  qed (use ok in \<open>simp add: op_sim_def\<close>)
qed

lemma op_sim_bind:
  assumes "op_sim c s A r tr" "heap_wf c" "A \<subseteq> {..<next_ptr c}"
    "\<And>c' g. keeps c A c' \<Longrightarrow> bare c' = bare c \<Longrightarrow> heap_wf c' \<Longrightarrow> strm_at c' s g (A \<union> {next_ptr c..<next_ptr c'})
       \<Longrightarrow> A \<union> {next_ptr c..<next_ptr c'} \<subseteq> {..<next_ptr c'} \<Longrightarrow> op_sim c' s (A' c') (f c') (tf g)"
    "\<And>c'. A' c' \<subseteq> A \<union> {next_ptr c..<next_ptr c'} \<union> E" "A \<union> E \<subseteq> D" "D \<subseteq> {..<next_ptr c}"
  shows "op_sim c s D (rbind r f) (rbind tr tf)"
proof (cases tr)
  case (Inr g)
  then obtain c1 where c1: "r = Inr c1" "keeps c A c1" "bare c1 = bare c" "strm_at c1 s g (A \<union> {next_ptr c..<next_ptr c1})"
    using assms(1) by (auto simp: op_sim_def)
  then have w: "heap_wf c1" "next_ptr c \<le> next_ptr c1" by (simp_all add: keeps_def)
  then have "A \<union> {next_ptr c..<next_ptr c1} \<subseteq> {..<next_ptr c1}" using assms(3) by fastforce
  from assms(4) [OF c1(2,3) w(1) c1(4) this] have s: "op_sim c1 s (A' c1) (f c1) (tf g)" .
  have k: "A' c1 \<subseteq> D \<union> {next_ptr c..}" using assms(5) [of c1] assms(6) by fastforce
  show ?thesis
  proof (cases "tf g")
    case (Inl e)
    then show ?thesis using s by (simp add: op_sim_def Inr c1(1))
  next
    fix h
    assume h: "tf g = Inr h"
    then obtain c2 where c2: "f c1 = Inr c2" "keeps c1 (A' c1) c2" "bare c2 = bare c1" "strm_at c2 s h (A' c1 \<union> {next_ptr c1..<next_ptr c2})"
      using s by (auto simp: op_sim_def)
    have "A' c1 \<union> {next_ptr c1..<next_ptr c2} \<subseteq> D \<union> {next_ptr c..<next_ptr c2}"
      using assms(5) [of c1] assms(6) w(2) c2(2) by (fastforce simp: keeps_def)
    then have "strm_at c2 s h (D \<union> {next_ptr c..<next_ptr c2})" using strm_widen [OF c2(4)] by blast
    moreover have "keeps c D c2" using keeps_trans [OF keeps_widen [OF c1(2)] c2(2) k] assms(6) by blast
    ultimately show ?thesis using c1(1,3) c2(1,3) by (simp add: op_sim_def Inr h)
  qed
qed (use assms(1) in \<open>simp add: op_sim_def\<close>)

section \<open>Actions\<close>

definition act_sim ::
  "compiler_core \<Rightarrow> addr set \<Rightarrow> (compiler_core \<times> addr) res \<Rightarrow> (compiler_core \<times> tree list option) res \<Rightarrow> bool" where
  "act_sim c A r tr \<longleftrightarrow> (case tr of Inl e \<Rightarrow> r = Inl e
     | Inr (b, g) \<Rightarrow> \<exists>c' v. r = Inr (c', v) \<and> b = bare c' \<and> keeps c A c' \<and> strm_at c' v g (A \<union> {next_ptr c..<next_ptr c'}))"

lemma new_sim:
  assumes "heap_wf c" "A \<subseteq> {..<next_ptr c}"
    "\<And>c1 s. keeps c {} c1 \<Longrightarrow> heap_wf c1 \<Longrightarrow> bare c1 = bare c \<Longrightarrow> s = next_ptr c \<Longrightarrow> strm_at c1 s (Some []) {s}
       \<Longrightarrow> insert s A \<subseteq> {..<next_ptr c1} \<Longrightarrow> s \<notin> A \<Longrightarrow> op_sim c1 s (insert s A) (f c1 s) tr"
  shows "act_sim c A (STREAM_NEW f c) (with_core (bare c) tr)"
proof -
  obtain c1 s where c1: "stream_create c = (c1, s)" by fastforce
  note k = create_ok [OF assms(1) c1]
  have w: "heap_wf c1" using k by (simp add: keeps_def)
  have "insert s A \<subseteq> {..<next_ptr c1}" "s \<notin> A" using assms(2) k by auto
  with assms(3) [OF _ w] k have o: "op_sim c1 s (insert s A) (f c1 s) tr" by blast
  show ?thesis
  proof (cases tr)
    case (Inr g)
    then obtain c2 where c2: "f c1 s = Inr c2" "keeps c1 (insert s A) c2" "bare c2 = bare c1"
      "strm_at c2 s g (insert s A \<union> {next_ptr c1..<next_ptr c2})" using o by (auto simp: op_sim_def)
    have "keeps c A c2" using keeps_trans [of c A c1 "insert s A" c2] keeps_widen [of c "{}" c1 A] k c2(2) by auto
    moreover have "insert s A \<union> {next_ptr c1..<next_ptr c2} \<subseteq> A \<union> {next_ptr c..<next_ptr c2}"
      using k c2(2) by (auto simp: keeps_def)
    ultimately show ?thesis using c2 k strm_widen [OF c2(4)]
      by (auto simp: act_sim_def STREAM_NEW_def c1 with_core_def Inr)
  qed (use o in \<open>simp add: act_sim_def op_sim_def STREAM_NEW_def c1 with_core_def\<close>)
qed

text \<open>The values an action uses are among those of its production, and no value is used twice.\<close>

fun uses :: "action \<Rightarrow> nat list" where
  "uses (Value k) = [k]"
| "uses New_Stream = []"
| "uses (New_Text k t) = []"
| "uses (New_Boolean b) = []"
| "uses (New_Single ty k) = [k]"
| "uses (New_Double ty j k) = [j, k]"
| "uses (Concat j k) = [j, k]"
| "uses (New_List_End k) = [k]"
| "uses (New_Clause j k) = [j, k]"
| "uses (New_If_True k) = [k]"
| "uses (End_List k) = [k]"
| "uses (Include k) = [k]"

definition proper :: "production \<Rightarrow> bool" where
  "proper pr = (case pr of (A, rhs, look, act) \<Rightarrow> list_all (\<lambda>k. 1 \<le> k \<and> k \<le> length rhs) (uses act) \<and> distinct (uses act))"

lemma scheme_y_proper: "list_all proper scheme_y"
  by (simp add: scheme_y_def data_rules_def call_rules_def control_rules_def define_rules_def procedure_rules_def
      proper_def keep_def)


lemma dollar_one:
  assumes "strms_at c vs gs A" "1 \<le> k" "k \<le> length vs"
  obtains B where "strm_at c (dollar vs k) (dollar gs k) B" "B \<subseteq> A"
proof -
  have "k - 1 < length vs" using assms(2,3) by linarith
  from strms_nth [OF assms(1) this] that show thesis by (auto simp: dollar_def)
qed

lemma dollar_two:
  assumes "strms_at c vs gs A" "1 \<le> j" "j \<le> length vs" "1 \<le> k" "k \<le> length vs" "j \<noteq> k"
  obtains B C where "strm_at c (dollar vs j) (dollar gs j) B" "strm_at c (dollar vs k) (dollar gs k) C" "B \<inter> C = {}" "B \<subseteq> A" "C \<subseteq> A"
proof (cases "j < k")
  case True
  then have "j - 1 < k - 1" "k - 1 < length vs" using assms(2-5) by linarith+
  from strms_two [OF assms(1) this] that show ?thesis by (auto simp: dollar_def)
next
  case False
  then have "k - 1 < j - 1" "j - 1 < length vs" using assms(2-6) by linarith+
  then obtain C B where "strm_at c (vs ! (k - 1)) (gs ! (k - 1)) C" "strm_at c (vs ! (j - 1)) (gs ! (j - 1)) B" "C \<inter> B = {}" "C \<union> B \<subseteq> A"
    using strms_two [OF assms(1)] by blast
  then show ?thesis using that [of B C] by (auto simp: dollar_def)
qed

lemma op_act: "op_sim c s A r tr \<Longrightarrow> act_sim c A (rbind r (\<lambda>c. Inr (c, s))) (with_core (bare c) tr)"
  by (cases tr) (auto simp: op_sim_def act_sim_def with_core_def)

lemma stream_text_build:
  "stream_text k t c s = build_node (fst (text_node k t)) (Literal (snd (text_node k t))) c s"
  by (cases k) (simp_all add: stream_char_def stream_symbol_def stream_literal_def stream_string_def stream_op_def stream_bare_def)

lemma grow_text_sim:
  assumes "heap_wf c" "strm_at c s g B" "B \<subseteq> A" "A \<subseteq> {..<next_ptr c}"
  shows "op_sim c s A (stream_text k t c s) (grow_text c k t g)"
  using grow_sim [OF assms(1,2) at_leaf, of "{}" A] assms(3,4)
  by (simp add: stream_text_build grow_text_def case_prod_beta)

lemma bare_grow: "bare c = bare c' \<Longrightarrow> grow c ty tv g = grow c' ty tv g" "bare c = bare c' \<Longrightarrow> grow_text c k t g = grow_text c' k t g"
  using bare_fields(7) [of c c'] by (simp_all add: grow_def grow_text_def)

lemma grow_bare [simp]: "grow (bare c) = grow c" "grow_text (bare c) = grow_text c"
  by (simp_all add: fun_eq_iff grow_def grow_text_def)

text \<open>A null pointer or a stream as the value of a node.\<close>

lemma list_end_sim:
  assumes "heap_wf c" "strm_at c s (Some []) {s}" "value_at c nv tv B" "strm_at c v h C" "B \<inter> C = {}" "s \<notin> B \<union> C"
    "insert s (B \<union> C) \<subseteq> D" "D \<subseteq> {..<next_ptr c}"
  shows "op_sim c s D (rbind (build_node ty nv c s) (\<lambda>c. stream_concat c s v)) (rbind (grow c ty tv (Some [])) (\<lambda>g. join g h))"
proof (rule op_sim_bind [where A = "insert s B" and E = C and A' = "\<lambda>c'. insert s B \<union> {next_ptr c..<next_ptr c'} \<union> C"])
  show "op_sim c s (insert s B) (build_node ty nv c s) (grow c ty tv (Some []))"
    using assms by (intro grow_sim [where B = "{s}" and K = B]) auto
  fix c' g
  assume k: "keeps c (insert s B) c'" "heap_wf c'" "strm_at c' s g (insert s B \<union> {next_ptr c..<next_ptr c'})"
    "insert s B \<union> {next_ptr c..<next_ptr c'} \<subseteq> {..<next_ptr c'}"
  have C: "C \<subseteq> {..<next_ptr c}" "insert s B \<inter> C = {}" using assms(5-8) by auto
  have "strm_at c' v h C" by (rule keeps_strm [OF assms(4) k(1) C])
  moreover have "(insert s B \<union> {next_ptr c..<next_ptr c'}) \<inter> C = {}" using C by auto
  moreover have "C \<subseteq> {..<next_ptr c'}" using C(1) k(1) by (auto simp: keeps_def)
  ultimately show "op_sim c' s (insert s B \<union> {next_ptr c..<next_ptr c'} \<union> C) (stream_concat c' s v) (join g h)"
    using k by (intro concat_sim [OF k(2,3)]) auto
qed (use assms in auto)

lemma include_bare:
  "include_file w (bare c) t = (case include_file w c t of Inl e \<Rightarrow> Inl e | Inr c' \<Rightarrow> Inr (bare c'))"
proof -
  have "include_path (bare c) = include_path c" "include_depth (bare c) = include_depth c"
    by (simp_all add: include_path_def bare_def)
  moreover have "push_include_path (parse_push_state (bare c) b) p
      = (case push_include_path (parse_push_state c b) p of Inl e \<Rightarrow> Inl e | Inr c' \<Rightarrow> Inr (bare c'))" for b p
    by (simp add: push_include_path_def parse_push_state_def bare_def Let_def)
  ultimately show ?thesis
    by (auto simp: include_file_def Let_def rbind_def deref_def split: sum.split option.split)
qed

lemma include_heap:
  assumes "include_file w c t = Inr c'"
  shows "nodes c' = nodes c \<and> streams c' = streams c \<and> next_ptr c' = next_ptr c \<and> stream c' = stream c"
  using assms
  by (auto simp: include_file_def Let_def res_simps push_include_path_def parse_push_state_def split: option.splits if_splits)


lemma if_true_sim:
  assumes "heap_wf c" "strm_at c v g B" "B \<subseteq> A" "A \<subseteq> {..<next_ptr c}"
  shows "act_sim c A (if_true_end v c) (with_core (bare c) (rbind (grow_text c Literal_Text empty_list (Some [])) (\<lambda>t.
      grow c STREAM_TWO_ARG (Subs g t) (Some []))))"
proof (cases "place_of c")
  case (Inl e)
  then have "include_path c = Inl e" by (cases "include_path c") (auto simp: place_of_def)
  then have "include_path (fst (stream_create c)) = Inl e" by (simp add: stream_create_def include_path_def split: if_splits)
  then show ?thesis using Inl
    by (simp add: act_sim_def with_core_def grow_text_def grow_def if_true_end_def STREAM_NEW_def case_prod_beta
        stream_two_arg_def BUILD_DOUBLE_STREAM_def build_node_def stream_alloc_node_def Let_def)
next
  case (Inr l)
  let ?p = "next_ptr c"
  obtain c1 s where c1: "stream_create c = (c1, s)" by fastforce
  note k1 = create_ok [OF assms(1) c1]
  have w1: "heap_wf c1" "place_of c1 = Inr l" using k1 Inr bare_fields(7) [of c1 c] by (simp_all add: keeps_def)
  have B: "B \<subseteq> {..<?p}" using assms(3,4) by blast
  have v1: "strm_at c1 v g B" using keeps_strm [OF assms(2) _ B] k1 by blast
  have n1: "strm_at c1 0 None {}" by (rule at_null)
  have "value_at c1 (Two v 0) (Subs g None) B" by (rule at_double [OF v1 n1]) auto
  moreover have "{s} \<inter> B = {}" "{s} \<union> B \<subseteq> {..<next_ptr c1}" using k1 B by auto
  ultimately obtain c2 where c2: "build_node STREAM_TWO_ARG (Two v 0) c1 s = Inr c2" "keeps c1 {s} c2" "bare c2 = bare c1"
    "next_ptr c2 = Suc (next_ptr c1)" "strm_at c2 s (Some [Tree l STREAM_TWO_ARG (Subs g None)]) (insert (next_ptr c1) ({s} \<union> B))"
    using build_ok [OF w1(1) _ _ _ _ w1(2), of s "[]"] k1 by fastforce
  have w2: "heap_wf c2" using c2(2) by (simp add: keeps_def)
  obtain as R where h: "stream_holds c2 s as" "trees_at c2 as [Tree l STREAM_TWO_ARG (Subs g None)] R" "s \<noteq> 0" "s \<notin> R"
    "insert s R \<subseteq> insert (next_ptr c1) ({s} \<union> B)" using c2(5) by (auto elim: strmE)
  then obtain a nd v' B1 B2 where a: "as = [a]" "nodes c2 a = Some nd" "says nd = (STREAM_TWO_ARG, v', l)" "insert a B2 \<subseteq> B1"
    "a \<notin> B2" "B1 \<subseteq> R" "value_at c2 v' (Subs g None) B2" by (auto elim!: trees_consE trees_nilE tree_atE)
  then obtain u x B3 where u: "v' = Two u x" "strm_at c2 u g B3" "B3 \<subseteq> B2" by (auto elim!: value_atE)
  obtain c3 t where c3: "stream_create c2 = (c3, t)" by fastforce
  note k3 = create_ok [OF w2 c3]
  have np: "next_ptr c1 = Suc ?p" "next_ptr c2 = Suc (Suc ?p)" "next_ptr c3 = Suc (Suc (Suc ?p))" "s = ?p" "t = Suc (Suc ?p)"
    using k1 c2(4) k3 by auto
  have "insert (next_ptr c1) ({s} \<union> B) \<subseteq> {..<next_ptr c2}" using B np by (auto simp: less_SucI)
  then have R: "insert s R \<subseteq> {..<next_ptr c2}" using h(5) by blast
  then have lt: "a < next_ptr c2" "B3 \<subseteq> {..<next_ptr c2}" "s < next_ptr c2" "a \<noteq> s" "s \<notin> B3" "a \<notin> B3"
    using a(4,5,6) u(3) h(4) by auto
  let ?nd = "nd\<lparr>nvalue := Two u t\<rparr>"
  let ?c4 = "c3\<lparr>nodes := (nodes c3)(a \<mapsto> ?nd)\<rparr>"
  have n3: "nodes c3 a = Some nd" "streams c3 s = streams c2 s" using k3 a(2) lt by (auto simp: keeps_def same_at_def)
  have two: "value_two nd = Inr (u, x)" "stream_head c2 s = Inr a"
    using a(3) h(1) by (auto simp: value_two_def says_def u(1) stream_head_def stream_holds_def a(1) split: node_value.split)
  have w4: "heap_wf ?c4" "keeps c3 {a} ?c4" "bare ?c4 = bare c3" "next_ptr ?c4 = next_ptr c3"
    using k3 n3(1) by (auto simp: keeps_def heap_wf_def same_at_def bare_def)
  have t4: "strm_at ?c4 t (Some []) {t}" using keeps_strm [OF _ w4(2), of t "Some []" "{t}"] k3 lt(1) np by auto
  have u3: "strm_at c3 u g B3" using keeps_strm [OF u(2), of "{}" c3] k3 lt(2) by blast
  have b3: "B3 \<subseteq> {..<next_ptr c3}" "{a} \<inter> B3 = {}" "{t} \<inter> B3 = {}" using lt np by auto
  then have u4: "strm_at ?c4 u g B3" using keeps_strm [OF u3 w4(2)] by blast
  have p4: "place_of ?c4 = Inr l" using w1(2) c2(3) k3 w4(3) bare_fields(7) by metis
  obtain c5 where c5: "build_node STREAM_LITERAL (Literal (c_str empty_list)) ?c4 t = Inr c5" "keeps ?c4 {t} c5" "bare c5 = bare ?c4"
    "strm_at c5 t (Some [Tree l STREAM_LITERAL (Leaf (c_str empty_list))]) (insert (next_ptr c3) {t})" "next_ptr c5 = Suc (next_ptr c3)"
    using build_ok [OF w4(1) t4 at_leaf, of "{}", OF _ _ p4] np by fastforce
  have n5: "nodes c5 a = Some ?nd" "streams c5 s = streams c2 s" "strm_at c5 u g B3"
    using c5(2) lt np n3 keeps_strm [OF u4 c5(2)] b3 w4(4) by (simp_all add: keeps_def same_at_def)
  have h5: "stream_holds c5 s [a]" using h(1) n5 a(1,2) by (auto simp: stream_holds_def)
  have "B3 \<inter> insert (next_ptr c3) {t} = {}" using lt np by auto
  then have "value_at c5 (Two u t) (Subs g (Some [Tree l STREAM_LITERAL (Leaf (c_str empty_list))])) (B3 \<union> insert (next_ptr c3) {t})"
    using n5(3) c5(4) by (intro at_double) auto
  then have "tree_at c5 a (Tree l STREAM_TWO_ARG (Subs g (Some [Tree l STREAM_LITERAL (Leaf (c_str empty_list))])))
      (insert a (B3 \<union> insert (next_ptr c3) {t}))"
    using n5(1) a(3) lt np
    by (intro at_node [where n = ?nd and v = "Two u t" and B = "B3 \<union> insert (next_ptr c3) {t}"]) (auto simp: says_def)
  then have t5: "trees_at c5 [a] [Tree l STREAM_TWO_ARG (Subs g (Some [Tree l STREAM_LITERAL (Leaf (c_str empty_list))]))]
      (insert a (B3 \<union> insert (next_ptr c3) {t}))"
    by (intro at_cons [where B = "insert a (B3 \<union> insert (next_ptr c3) {t})" and C = "{}"] at_nil) auto
  have "insert a B3 \<subseteq> insert (next_ptr c1) (insert s A)" using h(5) a(4,6) u(3) assms(3) by blast
  moreover have "insert (next_ptr c1) (insert s A) \<subseteq> A \<union> {?p..<next_ptr c5}"
    and "{next_ptr c3, t, s} \<subseteq> A \<union> {?p..<next_ptr c5}" using np c5(5) by auto
  ultimately have "insert s (insert a (B3 \<union> insert (next_ptr c3) {t})) \<subseteq> A \<union> {?p..<next_ptr c5}"
    by blast
  then have "strm_at c5 s (Some [Tree l STREAM_TWO_ARG (Subs g (Some [Tree l STREAM_LITERAL (Leaf (c_str empty_list))]))])
      (A \<union> {?p..<next_ptr c5})"
    using h(3) lt np h5 t5 by (intro at_strm [where B = "insert a (B3 \<union> insert (next_ptr c3) {t})"]) auto
  moreover have "a \<in> A \<union> {?p..}" using h(5) a(4,6) assms(3) np by auto
  then have "keeps c A c5"
    using keeps_trans [OF keeps_trans [OF keeps_trans [OF keeps_trans [of c A c1 "{s}" c2] _, of "{}" c3] w4(2)] c5(2)]
      k1 k3 c2(2) np keeps_widen [of c "{}" c1 A] by auto
  ultimately show ?thesis
    using c2(1,3) c5(1,3) k1 k3 w4(3) n3(1) two Inr
    by (simp add: act_sim_def with_core_def grow_text_def grow_def if_true_end_def STREAM_NEW_def c1 c3
        stream_two_arg_def BUILD_DOUBLE_STREAM_def set_node_def stream_literal_def stream_bare_def)
qed


lemma include_sim:
  assumes "heap_wf c" "strm_at c v g B" "B \<subseteq> A" "A \<subseteq> {..<next_ptr c}"
  shows "act_sim c A (STREAM_NEW (\<lambda>c s. setup_include w c v) c)
    (rbind (tree_include w g (bare c)) (\<lambda>c. Inr (c, Some [])))"
proof -
  obtain c1 s where c1: "stream_create c = (c1, s)" by fastforce
  note k1 = create_ok [OF assms(1) c1]
  have w1: "heap_wf c1" using k1 by (simp add: keeps_def)
  have B: "B \<subseteq> {..<next_ptr c}" using assms(3,4) by blast
  have v1: "strm_at c1 v g B" using keeps_strm [OF assms(2) _ B] k1 by blast
  have "nodes c1 0 = None" "streams c1 0 = None" using w1 by (metis heap_wf_def less_nat_zero_code)+
  have si: "setup_include w c1 v = (case g of Some (Tree l ty (Leaf t) # gs) \<Rightarrow> include_file w c1 t | _ \<Rightarrow> Inl Bad_Pointer)"
  proof (cases g)
    case None
    then have "v = 0" using v1 by (auto elim: nullE)
    then show ?thesis using \<open>streams c1 0 = None\<close> by (simp add: None setup_include_def stream_head_def)
  next
    case (Some gs)
    obtain as C where a: "stream_holds c1 v as" "trees_at c1 as gs C" using v1 by (auto simp: Some elim: strmE)
    show ?thesis
    proof (cases gs)
      case Nil
      then have "as = []" using a(2) by (auto elim: trees_nilE)
      then show ?thesis using a(1) \<open>nodes c1 0 = None\<close>
        by (auto simp: Some Nil setup_include_def stream_head_def stream_holds_def)
    next
      case (Cons h hs)
      obtain l ty tv where h: "h = Tree l ty tv" by (cases h)
      then obtain a as' nd v' D where n: "as = a # as'" "nodes c1 a = Some nd" "says nd = (ty, v', l)" "value_at c1 v' tv D"
        using a(2) by (auto simp: Cons elim!: trees_consE tree_atE)
      have "stream_head c1 v = Inr a" using a(1) by (auto simp: n(1) stream_head_def stream_holds_def)
      moreover have "nvalue nd = v'" using n(3) by (simp add: says_def)
      ultimately show ?thesis using n(2,4)
        by (cases tv) (auto simp: Some Cons h setup_include_def value_literal_def elim!: value_atE)
    qed
  qed
  show ?thesis
  proof (cases "\<exists>l ty t gs. g = Some (Tree l ty (Leaf t) # gs)")
    case True
    then obtain l ty t gs where g: "g = Some (Tree l ty (Leaf t) # gs)" by blast
    have s: "setup_include w c1 v = include_file w c1 t" by (simp add: si g)
    have tr: "tree_include w g (bare c) = (case include_file w c1 t of Inl e \<Rightarrow> Inl e | Inr c' \<Rightarrow> Inr (bare c'))"
      using k1 include_bare [of w c1 t] by (simp add: g)
    show ?thesis
    proof (cases "include_file w c1 t")
      case (Inr c2)
      note h = include_heap [OF Inr]
      have "heap_wf c2" using w1 h by (simp add: heap_wf_def)
      then have "keeps c {} c2" using k1 h by (simp add: keeps_def same_at_def)
      moreover have "strm_at c1 s (Some []) {s}" using k1 by blast
      then have "strm_at c2 s (Some []) {s}" using frame(4) [of c1 s "Some []" "{s}" c2] h by (simp add: same_at_def)
      moreover have "{s} \<subseteq> A \<union> {next_ptr c..<next_ptr c2}" using k1 h by simp
      ultimately have "strm_at c2 s (Some []) (A \<union> {next_ptr c..<next_ptr c2})" by (metis strm_widen)
      then show ?thesis using tr s Inr keeps_widen [OF \<open>keeps c {} c2\<close>, of A]
        by (simp add: act_sim_def STREAM_NEW_def c1)
    qed (use tr s in \<open>simp add: act_sim_def STREAM_NEW_def c1\<close>)
  next
    case False
    then have "setup_include w c1 v = Inl Bad_Pointer"
      by (auto simp: si split: option.split list.split tree.split tree_value.split)
    moreover have "tree_include w g (bare c) = Inl Bad_Pointer"
      using False by (cases "(w, g, bare c)" rule: tree_include.cases) auto
    ultimately show ?thesis by (simp add: act_sim_def STREAM_NEW_def c1)
  qed
qed

lemma action_sim:
  assumes wf: "heap_wf c" and vs: "strms_at c vs gs A" and A: "A \<subseteq> {..<next_ptr c}"
    and u: "list_all (\<lambda>k. 1 \<le> k \<and> k \<le> length vs) (uses act)" "distinct (uses act)"
  shows "act_sim c A (run_action w txt vs act c) (tree_action w txt gs act (bare c))"
proof (cases act)
  case (Value k)
  obtain B where "strm_at c (dollar vs k) (dollar gs k) B" "B \<subseteq> A" using u dollar_one [OF vs, of k] by (auto simp: Value)
  then have "strm_at c (dollar vs k) (dollar gs k) (A \<union> {next_ptr c..<next_ptr c})" by (auto elim!: strm_widen)
  then show ?thesis using wf by (simp add: Value act_sim_def)
next
  case New_Stream
  obtain c1 s where c1: "stream_create c = (c1, s)" by fastforce
  note k = create_ok [OF wf c1]
  then have "strm_at c1 s (Some []) (A \<union> {next_ptr c..<next_ptr c1})" by (auto elim!: strm_widen)
  then show ?thesis using k keeps_widen [of c "{}" c1 A] by (simp add: New_Stream act_sim_def c1)
next
  case (New_Text k t)
  show ?thesis unfolding New_Text run_action.simps tree_action.simps grow_bare
  proof (rule new_sim [OF wf A])
    fix c1 s
    assume k: "heap_wf c1" "bare c1 = bare c" "strm_at c1 s (Some []) {s}" "insert s A \<subseteq> {..<next_ptr c1}"
    have "{s} \<subseteq> insert s A" by blast
    from grow_text_sim [OF k(1,3) this k(4)] show "op_sim c1 s (insert s A) (stream_text k (case t of None \<Rightarrow> txt | Some t \<Rightarrow> t) c1 s)
        (grow_text c k (case t of None \<Rightarrow> txt | Some t \<Rightarrow> t) (Some []))"
      by (simp only: bare_grow(2) [OF k(2)])
  qed
next
  case (New_Boolean b)
  show ?thesis unfolding New_Boolean run_action.simps tree_action.simps grow_bare stream_boolean_def
  proof (rule new_sim [OF wf A])
    fix c1 s
    assume k: "heap_wf c1" "bare c1 = bare c" "strm_at c1 s (Some []) {s}" "insert s A \<subseteq> {..<next_ptr c1}"
    from grow_sim [OF k(1,3) at_leaf [of _ _ "{}"] _ _ k(4)] show "op_sim c1 s (insert s A)
        (build_node STREAM_LITERAL (Literal (chars (if b then ''#t'' else ''#f''))) c1 s)
        (grow c STREAM_LITERAL (Leaf (chars (if b then ''#t'' else ''#f''))) (Some []))"
      by (simp add: bare_grow(1) [OF k(2)])
  qed
next
  case (New_Single ty k)
  obtain B where B: "strm_at c (dollar vs k) (dollar gs k) B" "B \<subseteq> A" using u dollar_one [OF vs, of k] by (auto simp: New_Single)
  show ?thesis unfolding New_Single run_action.simps tree_action.simps grow_bare BUILD_SINGLE_STREAM_def
  proof (rule new_sim [OF wf A])
    fix c1 s
    assume k: "keeps c {} c1" "heap_wf c1" "bare c1 = bare c" "s = next_ptr c" "strm_at c1 s (Some []) {s}"
      "insert s A \<subseteq> {..<next_ptr c1}" "s \<notin> A"
    have "strm_at c1 (dollar vs k) (dollar gs k) B" using keeps_strm [OF B(1) k(1)] B(2) A by auto
    from grow_sim [OF k(2,5) at_single [OF this] _ _ k(6)] show "op_sim c1 s (insert s A)
        (build_node ty (One (dollar vs k)) c1 s) (grow c ty (Sub (dollar gs k)) (Some []))"
      using B(2) k(7) by (auto simp: bare_grow(1) [OF k(3)])
  qed
next
  case (New_Double ty j k)
  obtain B C where B: "strm_at c (dollar vs j) (dollar gs j) B" "strm_at c (dollar vs k) (dollar gs k) C" "B \<inter> C = {}" "B \<subseteq> A" "C \<subseteq> A"
    using u dollar_two [OF vs, of j k] by (auto simp: New_Double)
  show ?thesis unfolding New_Double run_action.simps tree_action.simps grow_bare BUILD_DOUBLE_STREAM_def
  proof (rule new_sim [OF wf A])
    fix c1 s
    assume k: "keeps c {} c1" "heap_wf c1" "bare c1 = bare c" "s = next_ptr c" "strm_at c1 s (Some []) {s}"
      "insert s A \<subseteq> {..<next_ptr c1}" "s \<notin> A"
    have "strm_at c1 (dollar vs j) (dollar gs j) B" "strm_at c1 (dollar vs k) (dollar gs k) C"
      using keeps_strm [OF B(1) k(1)] keeps_strm [OF B(2) k(1)] B(4,5) A by auto
    from grow_sim [OF k(2,5) at_double [OF this B(3) subset_refl] _ _ k(6)] show "op_sim c1 s (insert s A)
        (build_node ty (Two (dollar vs j) (dollar vs k)) c1 s) (grow c ty (Subs (dollar gs j) (dollar gs k)) (Some []))"
      using B(4,5) k(7) by (auto simp: bare_grow(1) [OF k(3)])
  qed
next
  case (Concat j k)
  obtain B C where B: "strm_at c (dollar vs j) (dollar gs j) B" "strm_at c (dollar vs k) (dollar gs k) C" "B \<inter> C = {}" "B \<subseteq> A" "C \<subseteq> A"
    using u dollar_two [OF vs, of j k] by (auto simp: Concat)
  show ?thesis unfolding Concat run_action.simps tree_action.simps
    by (rule op_act [OF concat_sim [OF wf B(1,2,3) _ A]]) (use B in auto)
next
  case (New_List_End k)
  obtain B where B: "strm_at c (dollar vs k) (dollar gs k) B" "B \<subseteq> A" using u dollar_one [OF vs, of k] by (auto simp: New_List_End)
  show ?thesis unfolding New_List_End run_action.simps tree_action.simps grow_bare
  proof (rule new_sim [OF wf A])
    fix c1 s
    assume k: "keeps c {} c1" "heap_wf c1" "bare c1 = bare c" "s = next_ptr c" "strm_at c1 s (Some []) {s}"
      "insert s A \<subseteq> {..<next_ptr c1}" "s \<notin> A"
    have "strm_at c1 (dollar vs k) (dollar gs k) B" using keeps_strm [OF B(1) k(1)] B(2) A by auto
    from list_end_sim [OF k(2,5) at_leaf [of _ "c_str empty_list" "{}"] this, where ty = STREAM_LITERAL and D = "insert s A"]
    show "op_sim c1 s (insert s A) (rbind (stream_literal c1 s empty_list) (\<lambda>c. stream_concat c s (dollar vs k)))
        (rbind (grow_text c Literal_Text empty_list (Some [])) (\<lambda>g. join g (dollar gs k)))"
      using B(2) k(6,7) by (auto simp: bare_grow(1) [OF k(3)] grow_text_def stream_literal_def stream_bare_def)
  qed
next
  case (New_Clause j k)
  obtain B C where B: "strm_at c (dollar vs j) (dollar gs j) B" "strm_at c (dollar vs k) (dollar gs k) C" "B \<inter> C = {}" "B \<subseteq> A" "C \<subseteq> A"
    using u dollar_two [OF vs, of j k] by (auto simp: New_Clause)
  show ?thesis unfolding New_Clause run_action.simps tree_action.simps grow_bare
  proof (rule new_sim [OF wf A])
    fix c1 s
    assume k: "keeps c {} c1" "heap_wf c1" "bare c1 = bare c" "s = next_ptr c" "strm_at c1 s (Some []) {s}"
      "insert s A \<subseteq> {..<next_ptr c1}" "s \<notin> A"
    have v: "strm_at c1 (dollar vs j) (dollar gs j) B" "strm_at c1 (dollar vs k) (dollar gs k) C"
      using keeps_strm [OF B(1) k(1)] keeps_strm [OF B(2) k(1)] B(4,5) A by auto
    from list_end_sim [OF k(2,5) at_single [OF v(1)] v(2) B(3), where ty = STREAM_COND and D = "insert s A"]
    show "op_sim c1 s (insert s A) (rbind (stream_cond c1 s (dollar vs j)) (\<lambda>c. stream_concat c s (dollar vs k)))
        (rbind (grow c STREAM_COND (Sub (dollar gs j)) (Some [])) (\<lambda>g. join g (dollar gs k)))"
      using B(4,5) k(6,7) by (auto simp: bare_grow(1) [OF k(3)] stream_cond_def BUILD_SINGLE_STREAM_def)
  qed
next
  case (New_If_True k)
  obtain B where "strm_at c (dollar vs k) (dollar gs k) B" "B \<subseteq> A" using u dollar_one [OF vs, of k] by (auto simp: New_If_True)
  from if_true_sim [OF wf this A] show ?thesis by (simp add: New_If_True)
next
  case (End_List k)
  obtain B where B: "strm_at c (dollar vs k) (dollar gs k) B" "B \<subseteq> A" using u dollar_one [OF vs, of k] by (auto simp: End_List)
  show ?thesis unfolding End_List run_action.simps tree_action.simps grow_bare
    using op_act [OF grow_text_sim [OF wf B A, of Literal_Text empty_list]] by simp
next
  case (Include k)
  obtain B where "strm_at c (dollar vs k) (dollar gs k) B" "B \<subseteq> A" using u dollar_one [OF vs, of k] by (auto simp: Include)
  from include_sim [OF wf this A] show ?thesis by (simp add: Include)
qed

end
