(* ===== verification/Parse_Run.thy ===== *)
theory Parse_Run
  imports Parse_Sim
begin

text \<open>
  Whole runs of the parser: move by move the heap holds the trees of the parser on trees, and the trees of a
  program are one in the sense of the code generator.
\<close>

section \<open>Moves\<close>

text \<open>The scanner does not look at the heap.\<close>

lemma end_of_input_bare:
  "end_of_input (bare c) = (case end_of_input c of Inl e \<Rightarrow> Inl e | Inr (c', b) \<Rightarrow> Inr (bare c', b))"
  by (auto simp: end_of_input_def pop_include_path_def bare_def rbind_def split: sum.splits)

lemma end_of_input_heap:
  "end_of_input c = Inr (c', b) \<Longrightarrow> nodes c' = nodes c \<and> streams c' = streams c \<and> next_ptr c' = next_ptr c \<and> stream c' = stream c"
  by (auto simp: end_of_input_def pop_include_path_def res_simps split: if_splits)

lemma matched_bare: "matched txt rest (bare c) = bare (matched txt rest c)"
  by (simp add: matched_def bare_def)

lemma scan_bare [simp]: "scan (bare c) = scan c"
  by (simp add: bare_def)

lemma yylex_bare:
  "yylex sc (bare c) = (case yylex sc c of Inl e \<Rightarrow> Inl e | Inr (k, t, sc', c') \<Rightarrow> Inr (k, t, sc', bare c'))"
proof (induction sc c rule: yylex.induct)
  case (1 sc c)
  show ?case
  proof (cases "yyinput (scan c)")
    case None
    then show ?thesis by (simp add: yylex.simps [of sc c] yylex.simps [of sc "bare c"])
  next
    case (Some s)
    show ?thesis
    proof (cases s)
      case Nil
      then show ?thesis using 1(1) [OF Some Nil]
        by (simp add: yylex.simps [of sc c] yylex.simps [of sc "bare c"] Some end_of_input_bare split: sum.split)
    next
      case (Cons ch cs)
      obtain t l a where m: "longest (scheme_rules sc) (ch # cs) = (t, l, a)" by (metis prod_cases3)
      show ?thesis
      proof (cases a)
        case None
        then show ?thesis using 1(2) [OF Some Cons m [symmetric]]
          by (simp add: yylex.simps [of sc c] yylex.simps [of sc "bare c"] Some Cons m matched_bare)
      next
        fix act
        assume a: "a = Some act"
        obtain sc' tok where act: "act = (sc', tok)" by (cases act)
        show ?thesis
        proof (cases tok)
          case None
          then show ?thesis using 1(3) [OF Some Cons m [symmetric]]
            by (simp add: yylex.simps [of sc c] yylex.simps [of sc "bare c"] Some Cons m matched_bare Let_def a act)
        next
          fix k
          assume "tok = Some k"
          then show ?thesis
            by (simp add: yylex.simps [of sc c] yylex.simps [of sc "bare c"] Some Cons m matched_bare Let_def a act)
        qed
      qed
    qed
  qed
qed


definition same_heap :: "compiler_core \<Rightarrow> compiler_core \<Rightarrow> bool" where
  "same_heap c c' \<longleftrightarrow> nodes c' = nodes c \<and> streams c' = streams c \<and> next_ptr c' = next_ptr c \<and> stream c' = stream c"

lemma same_heap_matched: "same_heap (matched txt rest c) c' \<Longrightarrow> same_heap c c'"
  by (simp add: same_heap_def matched_def)

lemma yylex_heap: "yylex sc c = Inr (k, t, sc', c') \<Longrightarrow> same_heap c c'"
proof (induction sc c rule: yylex.induct)
  case (1 sc c)
  show ?case
  proof (cases "yyinput (scan c)")
    case None
    then show ?thesis using 1(4) by (simp add: yylex.simps [of sc c])
  next
    case (Some s)
    show ?thesis
    proof (cases s)
      case Nil
      then obtain c1 b where e: "end_of_input c = Inr (c1, b)"
        "(if b then Inr (END_OF_FILE, [], sc, c1) else yylex sc c1) = Inr (k, t, sc', c')"
        using 1(4) by (auto simp: yylex.simps [of sc c] Some res_simps)
      have "same_heap c1 c'"
      proof (cases b)
        case True
        then show ?thesis using e(2) by (simp add: same_heap_def)
      next
        case False
        then show ?thesis using 1(1) [OF Some Nil e(1)] e(2) by simp
      qed
      then show ?thesis using end_of_input_heap [OF e(1)] by (simp add: same_heap_def)
    next
      case (Cons ch cs)
      obtain m l a where m: "longest (scheme_rules sc) (ch # cs) = (m, l, a)" by (metis prod_cases3)
      show ?thesis
      proof (cases a)
        case None
        then have "same_heap (matched [ch] cs c) c'" using 1(2) [OF Some Cons m [symmetric]] 1(4)
          by (auto simp: yylex.simps [of sc c] Some Cons m)
        then show ?thesis by (rule same_heap_matched)
      next
        fix act
        assume a: "a = Some act"
        obtain sc' tok where act: "act = (sc', tok)" by (cases act)
        show ?thesis
        proof (cases tok)
          case None
          then have "same_heap (matched (ch # take (l - 1) cs) (drop (l - 1) cs) c) c'"
            using 1(3) [OF Some Cons m [symmetric]] 1(4) by (auto simp: yylex.simps [of sc c] Some Cons m Let_def a act)
          then show ?thesis by (rule same_heap_matched)
        next
          fix k
          assume "tok = Some k"
          then show ?thesis using 1(4)
            by (auto simp: yylex.simps [of sc c] Some Cons m Let_def a act same_heap_def matched_def)
        qed
      qed
    qed
  qed
qed

text \<open>
  The parser on the heap and the parser on trees: the same symbols, and the values in regions apart from each
  other and from the compiler's own stream, which is empty until the program is whole.
\<close>

definition parser_rel :: "addr parser \<Rightarrow> tree list option parser \<Rightarrow> bool" where
  "parser_rel p q \<longleftrightarrow> core q = bare (core p) \<and> start q = start p \<and> yytext q = yytext p \<and> lookahead q = lookahead p
     \<and> map fst (yyss q) = map fst (yyss p) \<and> heap_wf (core p)
     \<and> (\<exists>A P. strms_at (core p) (map snd (yyss p)) (map snd (yyss q)) A \<and> strm_at (core p) (stream (core p)) (Some []) P
          \<and> A \<inter> P = {} \<and> A \<union> P \<subseteq> {..<next_ptr (core p)})"

definition results_rel :: "addr parser res \<Rightarrow> tree list option parser res \<Rightarrow> bool" where
  "results_rel r tr \<longleftrightarrow> (case tr of Inl e \<Rightarrow> r = Inl e | Inr q \<Rightarrow> \<exists>p. r = Inr p \<and> parser_rel p q)"

lemma results_rel_bind:
  assumes "results_rel r tr" "\<And>p q. r = Inr p \<Longrightarrow> tr = Inr q \<Longrightarrow> parser_rel p q \<Longrightarrow> results_rel (f p) (g q)"
  shows "results_rel (rbind r f) (rbind tr g)"
proof (cases tr)
  case (Inr q)
  then obtain p where "r = Inr p" "parser_rel p q" using assms(1) by (auto simp: results_rel_def)
  then show ?thesis using assms(2) Inr by simp
qed (use assms(1) in \<open>simp add: results_rel_def\<close>)

lemma strms_frame: "strms_at c vs gs A \<Longrightarrow> same_at c c' A \<Longrightarrow> strms_at c' vs gs A"
proof (induction rule: strms_at.induct)
  case (strms_cons v g B vs gs C A)
  then show ?case using same_at_sub [of c c' A B] same_at_sub [of c c' A C] frame(4) [of c v g B c']
    by (intro strms_at.strms_cons [of c' v g B]) auto
qed (rule strms_nil)

lemma fetch_sim:
  assumes "parser_rel p q"
  shows "results_rel (fetch p) (fetch q)"
proof (cases "lookahead p")
  case None
  then have n: "lookahead q = None" "start q = start p" "core q = bare (core p)" using assms by (simp_all add: parser_rel_def)
  show ?thesis
  proof (cases "yylex (start p) (core p)")
    case (Inr r)
    obtain k t sc c where r: "r = (k, t, sc, c)" by (metis prod_cases4)
    have h: "same_heap (core p) c" using yylex_heap [of "start p" "core p"] by (simp add: Inr r)
    have sa: "same_at (core p) c A" for A using h by (simp add: same_heap_def same_at_def)
    obtain A P where a: "strms_at (core p) (map snd (yyss p)) (map snd (yyss q)) A"
      "strm_at (core p) (stream (core p)) (Some []) P" "A \<inter> P = {}" "A \<union> P \<subseteq> {..<next_ptr (core p)}" "heap_wf (core p)"
      using assms by (auto simp: parser_rel_def)
    have "strms_at c (map snd (yyss p)) (map snd (yyss q)) A" "strm_at c (stream c) (Some []) P"
      using strms_frame [OF a(1) sa] frame(4) [OF a(2) sa] h by (simp_all add: same_heap_def)
    moreover have "heap_wf c" "next_ptr c = next_ptr (core p)" using a(5) h by (simp_all add: heap_wf_def same_heap_def)
    moreover have "map fst (yyss q) = map fst (yyss p)" using assms by (simp add: parser_rel_def)
    ultimately have "parser_rel (p\<lparr>core := c, start := sc, yytext := t, lookahead := Some k\<rparr>)
        (q\<lparr>core := bare c, start := sc, yytext := t, lookahead := Some k\<rparr>)"
      using a(3,4) by (auto simp: parser_rel_def)
    then show ?thesis using n Inr r None by (simp add: results_rel_def fetch_def yylex_bare)
  qed (use n None in \<open>simp add: results_rel_def fetch_def yylex_bare\<close>)
next
  case (Some k)
  then show ?thesis using assms by (simp add: results_rel_def fetch_def parser_rel_def)
qed

lemma shift_sim:
  assumes "parser_rel p q"
  shows "results_rel (shift 0 p) (shift None q)"
  unfolding shift_def
proof (rule results_rel_bind [OF fetch_sim [OF assms]])
  fix p q
  assume r: "parser_rel p q"
  then obtain A P where a: "strms_at (core p) (map snd (yyss p)) (map snd (yyss q)) A"
    "strm_at (core p) (stream (core p)) (Some []) P" "A \<inter> P = {}" "A \<union> P \<subseteq> {..<next_ptr (core p)}"
    by (auto simp: parser_rel_def)
  have "strms_at (core p) (0 # map snd (yyss p)) (None # map snd (yyss q)) A"
    by (rule strms_cons [OF at_null [of _ "{}"] a(1)]) auto
  then show "results_rel (rbind (deref (lookahead p)) (\<lambda>k. Inr (p\<lparr>lookahead := None, yyss := (T k, 0) # yyss p\<rparr>)))
      (rbind (deref (lookahead q)) (\<lambda>k. Inr (q\<lparr>lookahead := None, yyss := (T k, None) # yyss q\<rparr>)))"
    using r a(2-4) by (cases "lookahead p") (auto simp: results_rel_def parser_rel_def)
qed

lemma fits_rel: "map fst (yyss q) = map fst (yyss p) \<Longrightarrow> fits pr q = fits pr p"
  by (simp add: fits_def take_map [symmetric] split: prod.split)

lemma reduce_sim:
  assumes "parser_rel p q" "fits pr p" "proper pr"
  shows "results_rel (reduce (run_action w) pr p) (reduce (tree_action w) pr q)"
proof -
  obtain A rhs look act where pr: "pr = (A, rhs, look, act)" by (metis prod_cases4)
  let ?n = "length rhs"
  have base: "results_rel (if look then fetch p else Inr p) (if look then fetch q else Inr q)"
    using fetch_sim [OF assms(1)] assms(1) by (simp add: results_rel_def)
  have same: "yyss p' = yyss p" if "(if look then fetch p else Inr p) = Inr p'" for p'
    using that by (auto simp: fetch_def res_simps split: if_splits option.splits)
  have "results_rel
      (rbind (run_action w (yytext p') (rev (map snd (take ?n (yyss p')))) act (core p')) (\<lambda>(c, v).
         Inr (p'\<lparr>core := c, yyss := (A, v) # drop ?n (yyss p')\<rparr>)))
      (rbind (tree_action w (yytext q') (rev (map snd (take ?n (yyss q')))) act (core q')) (\<lambda>(c, v).
         Inr (q'\<lparr>core := c, yyss := (A, v) # drop ?n (yyss q')\<rparr>)))"
    if r: "parser_rel p' q'" and y: "yyss p' = yyss p" for p' q'
  proof -
    let ?c = "core p'" and ?vs = "map snd (yyss p')" and ?gs = "map snd (yyss q')"
    have "map fst (take ?n (yyss p)) = rev rhs" using assms(2) by (simp add: fits_def pr)
    then have n: "?n \<le> length (yyss p')" unfolding y by (metis length_map length_rev length_take min.cobounded1)
    obtain S P where a: "strms_at ?c ?vs ?gs S" "strm_at ?c (stream ?c) (Some []) P" "S \<inter> P = {}" "S \<union> P \<subseteq> {..<next_ptr ?c}"
      "heap_wf ?c" and f: "map fst (yyss q') = map fst (yyss p')" and c: "core q' = bare ?c" "yytext q' = yytext p'"
      using r by (auto simp: parser_rel_def)
    have "strms_at ?c (take ?n ?vs @ drop ?n ?vs) ?gs S" using a(1) by simp
    then obtain B C where b: "strms_at ?c (take ?n ?vs) (take ?n ?gs) B" "strms_at ?c (drop ?n ?vs) (drop ?n ?gs) C"
      "B \<inter> C = {}" "B \<union> C \<subseteq> S" unfolding strms_append using n by auto
    have B: "B \<subseteq> {..<next_ptr ?c}" "C \<subseteq> {..<next_ptr ?c}" "P \<subseteq> {..<next_ptr ?c}" "B \<inter> P = {}" "C \<inter> P = {}"
      using a(3,4) b(4) by blast+
    have "act_sim ?c B (run_action w (yytext p') (rev (take ?n ?vs)) act ?c) (tree_action w (yytext p') (rev (take ?n ?gs)) act (bare ?c))"
      using assms(3) n by (intro action_sim [OF a(5) strms_rev [OF b(1)] B(1)]) (simp_all add: proper_def pr)
    then have s: "act_sim ?c B (run_action w (yytext p') (rev (map snd (take ?n (yyss p')))) act ?c)
        (tree_action w (yytext q') (rev (map snd (take ?n (yyss q')))) act (core q'))" by (simp add: take_map c)
    show ?thesis
    proof (cases "tree_action w (yytext q') (rev (map snd (take ?n (yyss q')))) act (core q')")
      case (Inl e)
      then show ?thesis using s by (simp add: act_sim_def results_rel_def)
    next
      case (Inr bg)
      obtain b g where bg: "bg = (b, g)" by (cases bg)
      obtain c' v where d: "run_action w (yytext p') (rev (map snd (take ?n (yyss p')))) act ?c = Inr (c', v)" "b = bare c'"
        "keeps ?c B c'" "strm_at c' v g (B \<union> {next_ptr ?c..<next_ptr c'})" using s Inr bg by (auto simp: act_sim_def)
      let ?B = "B \<union> {next_ptr ?c..<next_ptr c'}"
      have k: "next_ptr ?c \<le> next_ptr c'" "heap_wf c'" "stream c' = stream ?c" using d(3) by (simp_all add: keeps_def)
      have rest: "strms_at c' (drop ?n ?vs) (drop ?n ?gs) C" "strm_at c' (stream c') (Some []) P"
        using strms_keep [OF b(2) d(3) B(2) b(3)] keeps_strm [OF a(2) d(3) B(3,4)] k(3) by simp_all
      have "?B \<inter> C = {}" "?B \<union> C \<subseteq> {..<next_ptr c'}" "(?B \<union> C) \<inter> P = {}" "P \<subseteq> {..<next_ptr c'}"
        using b(3) B k(1) by fastforce+
      moreover from this have "strms_at c' (v # drop ?n ?vs) (g # drop ?n ?gs) (?B \<union> C)"
        by (intro strms_cons [OF d(4) rest(1)]) auto
      ultimately have "\<exists>S P. strms_at c' (v # drop ?n ?vs) (g # drop ?n ?gs) S \<and> strm_at c' (stream c') (Some []) P
          \<and> S \<inter> P = {} \<and> S \<union> P \<subseteq> {..<next_ptr c'}" using rest(2) by blast
      moreover have "map fst (drop ?n (yyss q')) = map fst (drop ?n (yyss p'))" using f by (simp add: drop_map [symmetric])
      ultimately have "parser_rel (p'\<lparr>core := c', yyss := (A, v) # drop ?n (yyss p')\<rparr>) (q'\<lparr>core := b, yyss := (A, g) # drop ?n (yyss q')\<rparr>)"
        using r k(2) unfolding parser_rel_def d(2) by (simp add: drop_map)
      then show ?thesis using d(1) Inr bg by (simp add: results_rel_def)
    qed
  qed
  then show ?thesis unfolding reduce_def pr prod.case
    by (rule results_rel_bind [OF base]) (use same in blast)+
qed


lemma perform_sim:
  assumes "parser_rel p q" "applies m p"
  shows "results_rel (perform (run_action w) 0 m p) (perform (tree_action w) None m q)"
proof (cases m)
  case Shift
  then show ?thesis using shift_sim [OF assms(1)] by (simp add: perform_def)
next
  case (Reduce i)
  then have "i < length scheme_y" "fits (scheme_y ! i) p" using assms(2) by (simp_all add: applies_def)
  moreover from this have "proper (scheme_y ! i)" using scheme_y_proper by (simp add: list_all_length)
  ultimately show ?thesis using reduce_sim [OF assms(1)] by (simp add: perform_def Reduce)
qed

lemma applies_rel: "parser_rel p q \<Longrightarrow> applies m q = applies m p"
  using fits_rel [of q p] by (auto simp: applies_def parser_rel_def split: move.split)

lemma moves_sim:
  assumes "parser_rel p q"
  shows "case moves (tree_action w) None ms q of None \<Rightarrow> moves (run_action w) 0 ms p = None
    | Some tr \<Rightarrow> \<exists>r. moves (run_action w) 0 ms p = Some r \<and> results_rel r tr"
  using assms
proof (induction ms arbitrary: p q)
  case Nil
  then show ?case by (simp add: results_rel_def)
next
  case (Cons m ms)
  show ?case
  proof (cases "applies m p")
    case True
    note s = perform_sim [OF Cons.prems True, of w]
    show ?thesis
    proof (cases "perform (tree_action w) None m q")
      case (Inl e)
      then show ?thesis using s True applies_rel [OF Cons.prems] by (simp add: results_rel_def)
    next
      case (Inr q')
      then obtain p' where "perform (run_action w) 0 m p = Inr p'" "parser_rel p' q'" using s by (auto simp: results_rel_def)
      then show ?thesis using Cons.IH [of p' q'] Inr True applies_rel [OF Cons.prems]
        by (cases "moves (tree_action w) None ms q'") auto
    qed
  qed (use applies_rel [OF Cons.prems] in simp)
qed

text \<open>A compiler whose program is still empty.\<close>

definition fresh_compiler :: "compiler_core \<Rightarrow> bool" where
  "fresh_compiler c \<longleftrightarrow> heap_wf c \<and> stream_holds c (stream c) []"

lemma start_rel:
  assumes "fresh_compiler c"
  shows "parser_rel (parser_start c) (parser_start (bare c))"
proof -
  have w: "heap_wf c" "stream_holds c (stream c) []" using assms by (simp_all add: fresh_compiler_def)
  then have "0 < stream c \<and> stream c < next_ptr c" by (auto simp: stream_holds_def heap_wf_def)
  moreover from this have "strm_at c (stream c) (Some []) {stream c}" using w(2) at_nil [of c "{}"] by (intro at_strm [where B = "{}"]) auto
  moreover have "strms_at c [] [] {}" by (rule strms_nil)
  ultimately show ?thesis using w(1) by (fastforce simp: parser_rel_def parser_start_def)
qed

lemma parses_sim:
  assumes "fresh_compiler c"
  shows "case tree_parses w ms c of None \<Rightarrow> parses w ms c = None
    | Some (Inl e) \<Rightarrow> parses w ms c = Some (Inl e)
    | Some (Inr g) \<Rightarrow> \<exists>c' A. parses w ms c = Some (Inr c') \<and> heap_wf c' \<and> strm_at c' (stream c') g A"
proof -
  note s = moves_sim [OF start_rel [OF assms], of w ms]
  show ?thesis
  proof (cases "moves (tree_action w) None ms (parser_start (bare c))")
    case None
    then show ?thesis using s by (simp add: tree_parses_def parses_def)
  next
    case (Some tr)
    then obtain r where r: "moves (run_action w) 0 ms (parser_start c) = Some r" "results_rel r tr" using s by auto
    show ?thesis
    proof (cases tr)
      case (Inl e)
      then show ?thesis using r Some by (simp add: results_rel_def tree_parses_def parses_def)
    next
      case (Inr q)
      then obtain p where p: "r = Inr p" "parser_rel p q" using r(2) by (auto simp: results_rel_def)
      then have wp: "whole_program q = None \<longleftrightarrow> whole_program p = None"
        by (auto simp: whole_program_def parser_rel_def split: list.splits)
      show ?thesis
      proof (cases "whole_program q")
        case None
        then show ?thesis using wp r(1) p(1) Some Inr by (simp add: tree_parses_def parses_def)
      next
        fix g
        assume g: "whole_program q = Some g"
        then obtain v where v: "whole_program p = Some v" using wp by (cases "whole_program p") auto
        then have y: "yyss p = [(S_begin_body, v)]" "yyss q = [(S_begin_body, g)]"
          using g by (auto simp: whole_program_def split: list.splits if_splits)
        let ?c = "core p"
        obtain A P where "strms_at ?c [v] [g] A" and a: "strm_at ?c (stream ?c) (Some []) P" "A \<inter> P = {}" "A \<union> P \<subseteq> {..<next_ptr ?c}"
          "heap_wf ?c" using p(2) by (auto simp: parser_rel_def y)
        then have "strm_at ?c v g A" by (auto elim!: strms_consE intro: strm_widen)
        then have "op_sim ?c (stream ?c) (A \<union> P) (stream_concat ?c (stream ?c) v) (join (Some []) g)"
          using a by (intro concat_sim [OF a(4,1)]) auto
        then show ?thesis using g v r(1) p(1) Some Inr
          by (cases "join (Some []) g") (auto simp: tree_parses_def parses_def op_sim_def keeps_def)
      qed
    qed
  qed
qed

end
