(* ===== verification/Parse_Ast.thy ===== *)
theory Parse_Ast
  imports Parse_Run
begin

text \<open>
  The trees of the parser as programs of the code generator: \<open>ast_of\<close> reads a tree as one, and what is read
  so is what the heap holds for the code generator.
\<close>

section \<open>Reading trees\<close>

definition lift2 :: "('a \<Rightarrow> 'b \<Rightarrow> 'c) \<Rightarrow> 'a option \<Rightarrow> 'b option \<Rightarrow> 'c option" where
  "lift2 f x y = (case x of None \<Rightarrow> None | Some a \<Rightarrow> map_option (f a) y)"

lemma lift2_eq_Some [simp]: "lift2 f x y = Some z \<longleftrightarrow> (\<exists>a b. x = Some a \<and> y = Some b \<and> z = f a b)"
  by (auto simp: lift2_def split: option.splits)

lemma lift2_cong [fundef_cong]: "x = x' \<Longrightarrow> y = y' \<Longrightarrow> lift2 f x y = lift2 f x' y'"
  by simp

fun loc_of_place :: "place \<Rightarrow> loc option" where
  "loc_of_place (col, lno, f) = (case f of None \<Rightarrow> None | Some f \<Rightarrow> if 0 \<in> set f then None else Some (f, lno, col))"

fun op_text :: "tree list option \<Rightarrow> u8 list option" where
  "op_text (Some (Tree p ty (Leaf s) # gs)) = (if 0 \<in> set s then None else Some s)"
| "op_text g = None"

function (sequential) ast_of :: "tree \<Rightarrow> ast option"
and value_ast :: "loc \<Rightarrow> node_type \<Rightarrow> tree_value \<Rightarrow> ast option"
and asts_of :: "tree list \<Rightarrow> ast list option"
and opt_asts :: "tree list option \<Rightarrow> ast list option"
and two_asts :: "tree list option \<Rightarrow> (ast list \<times> ast list) option"
and clauses_of :: "tree list \<Rightarrow> (ast list \<times> ast list) list option"
where
  "ast_of (Tree p ty v) = (case loc_of_place p of None \<Rightarrow> None | Some l \<Rightarrow> value_ast l ty v)"
| "value_ast l ty (Leaf s) =
     (if 0 \<in> set s then None
      else case ty of
        STREAM_LITERAL \<Rightarrow> Some (Lit l s) | STREAM_SYMBOL \<Rightarrow> Some (Sym l s)
      | STREAM_STRING \<Rightarrow> Some (Str l s) | STREAM_OP \<Rightarrow> Some (Op l s) | _ \<Rightarrow> None)"
| "value_ast l ty (Sub g) =
     (if g = None then (case ty of
        STREAM_LOAD \<Rightarrow> Some (Load l []) | STREAM_ASM_STREAM \<Rightarrow> Some (Asm_Stream l [])
      | STREAM_AND \<Rightarrow> Some (And l []) | STREAM_OR \<Rightarrow> Some (Or l []) | _ \<Rightarrow> None)
      else case ty of
        STREAM_QUOTED \<Rightarrow> map_option (Quote l) (opt_asts g)
      | STREAM_LOAD \<Rightarrow> map_option (Load l) (opt_asts g)
      | STREAM_ASM \<Rightarrow> (case opt_asts g of None \<Rightarrow> None | Some ts \<Rightarrow> if list_all is_raw ts then Some (Asm l ts) else None)
      | STREAM_ASM_STREAM \<Rightarrow> map_option (Asm_Stream l) (opt_asts g)
      | STREAM_COND \<Rightarrow> (case g of None \<Rightarrow> None | Some cs \<Rightarrow> map_option (Cond l) (clauses_of cs))
      | STREAM_RECORD_TYPE \<Rightarrow> map_option (Record_Type l) (opt_asts g)
      | STREAM_AND \<Rightarrow> map_option (And l) (opt_asts g)
      | STREAM_OR \<Rightarrow> map_option (Or l) (opt_asts g)
      | _ \<Rightarrow> None)"
| "value_ast l ty (Subs g h) =
     (case ty of
        STREAM_BIND \<Rightarrow> lift2 (Bind l) (opt_asts g) (opt_asts h)
      | STREAM_STORE \<Rightarrow> lift2 (Store l) (opt_asts g) (opt_asts h)
      | STREAM_LET_STAR \<Rightarrow> lift2 (Let_Star l) (opt_asts g) (opt_asts h)
      | STREAM_IF \<Rightarrow> lift2 (\<lambda>ts (us, vs). If l ts us vs) (opt_asts g) (two_asts h)
      | STREAM_MATH \<Rightarrow> lift2 (\<lambda>s (us, ts). Math l s us ts) (op_text g) (two_asts h)
      | STREAM_LAMBDA \<Rightarrow>
          if g = None then None
          else lift2 (Lambda l) (case opt_asts g of None \<Rightarrow> None | Some us \<Rightarrow> if list_all is_formal us then Some us else None)
            (opt_asts h)
      | STREAM_CALL \<Rightarrow> if h = None then None else lift2 (Call l) (opt_asts g) (opt_asts h)
      | _ \<Rightarrow> None)"
| "asts_of [] = Some []"
| "asts_of (g # gs) = lift2 (#) (ast_of g) (asts_of gs)"
| "opt_asts None = Some []"
| "opt_asts (Some gs) = asts_of gs"
| "two_asts (Some (Tree p ty (Subs g h) # gs)) = lift2 Pair (opt_asts g) (opt_asts h)"
| "two_asts g = None"
| "clauses_of [] = Some []"
| "clauses_of (Tree p ty (Sub g) # cs) = lift2 (#) (two_asts g) (clauses_of cs)"
| "clauses_of (g # cs) = None"
  by pat_completeness auto
termination
  by (relation "measure (\<lambda>x. case x of
      Inl (Inl t) \<Rightarrow> 2 * size t
    | Inl (Inr (Inl (l, ty, v))) \<Rightarrow> 2 * size v + 1
    | Inl (Inr (Inr gs)) \<Rightarrow> 2 * size_list size gs
    | Inr (Inl g) \<Rightarrow> 2 * size_option (size_list size) g + 1
    | Inr (Inr (Inl g)) \<Rightarrow> 2 * size_option (size_list size) g + 1
    | Inr (Inr (Inr cs)) \<Rightarrow> 2 * size_list size cs)") auto


section \<open>The heap holds the program\<close>

lemma says_tagged:
  "says nd = (ty, v, p) \<Longrightarrow> loc_of_place p = Some l \<Longrightarrow> tagged nd l ty \<and> nvalue nd = v"
  by (cases p) (auto simp: says_def tagged_def split: option.splits if_splits)

lemma op_text_at:
  assumes "op_text g = Some t" "strm_at c s g A"
  shows "stream_at c s (\<lambda>p. node_at c p (\<lambda>nd. says_text nd t))"
proof -
  obtain p ty gs where g: "g = Some (Tree p ty (Leaf t) # gs)" "0 \<notin> set t"
    using assms(1) by (cases g rule: op_text.cases) (auto split: if_splits)
  then obtain as B where a: "stream_holds c s as" "trees_at c as (Tree p ty (Leaf t) # gs) B" "s \<noteq> 0"
    using assms(2) by (auto elim: strmE)
  then obtain x as' nd v D where x: "as = x # as'" "nodes c x = Some nd" "says nd = (ty, v, p)" "value_at c v (Leaf t) D"
    by (auto elim!: trees_consE tree_atE)
  then have "nvalue nd = Literal t" by (auto simp: says_def elim!: value_atE)
  then show ?thesis using a(1,3) x(1,2) g(2)
    by (auto simp: stream_at_def node_at_def says_text_def stream_holds_def)
qed

text \<open>The streams of \<open>node_is\<close>.\<close>

abbreviation maybe_stream :: "compiler_core \<Rightarrow> addr \<Rightarrow> ast list \<Rightarrow> bool" where
  "maybe_stream c s ts \<equiv> s = 0 \<and> ts = [] \<or> stream_at c s (\<lambda>p. nodes_are c p ts)"

text \<open>What a stream that holds a tree is for the code generator, whatever it is read as.\<close>

definition stream_fact :: "compiler_core \<Rightarrow> addr \<Rightarrow> tree list option \<Rightarrow> bool" where
  "stream_fact c s g \<longleftrightarrow>
     (\<forall>ts. opt_asts g = Some ts \<longrightarrow> maybe_stream c s ts \<and> (g \<noteq> None \<longrightarrow> stream_at c s (\<lambda>p. nodes_are c p ts)))
     \<and> (\<forall>us vs. two_asts g = Some (us, vs) \<longrightarrow> two_arg_at c s (\<lambda>s. maybe_stream c s us) (\<lambda>s. maybe_stream c s vs))
     \<and> (\<forall>cs ds. g = Some cs \<longrightarrow> clauses_of cs = Some ds \<longrightarrow> stream_at c s (\<lambda>p. clauses_are c p ds))
     \<and> (\<forall>t. op_text g = Some t \<longrightarrow> stream_at c s (\<lambda>p. node_at c p (\<lambda>nd. says_text nd t)))"

definition value_fact :: "compiler_core \<Rightarrow> node_value \<Rightarrow> tree_value \<Rightarrow> bool" where
  "value_fact c v tv = (case tv of
       Leaf t \<Rightarrow> v = Literal t
     | Sub g \<Rightarrow> (\<exists>s. v = One s \<and> stream_fact c s g)
     | Subs g h \<Rightarrow> (\<exists>s t. v = Two s t \<and> stream_fact c s g \<and> stream_fact c t h))"

definition tree_fact :: "compiler_core \<Rightarrow> addr \<Rightarrow> tree \<Rightarrow> bool" where
  "tree_fact c a t \<longleftrightarrow> (case t of Tree l ty tv \<Rightarrow>
     (\<exists>nd v. nodes c a = Some nd \<and> says nd = (ty, v, l) \<and> value_fact c v tv))"

lemma opt_fact: "stream_fact c s g \<Longrightarrow> opt_asts g = Some ts \<Longrightarrow> maybe_stream c s ts"
  and some_fact: "stream_fact c s (Some gs) \<Longrightarrow> asts_of gs = Some ts \<Longrightarrow> stream_at c s (\<lambda>p. nodes_are c p ts)"
  and two_fact: "stream_fact c s g \<Longrightarrow> two_asts g = Some (us, vs) \<Longrightarrow> two_arg_at c s (\<lambda>s. maybe_stream c s us) (\<lambda>s. maybe_stream c s vs)"
  and clauses_fact: "stream_fact c s (Some cs) \<Longrightarrow> clauses_of cs = Some ds \<Longrightarrow> stream_at c s (\<lambda>p. clauses_are c p ds)"
  and op_fact: "stream_fact c s g \<Longrightarrow> op_text g = Some t \<Longrightarrow> stream_at c s (\<lambda>p. node_at c p (\<lambda>nd. says_text nd t))"
  unfolding stream_fact_def by fastforce+

lemma stream_fact_null: "stream_fact c s None \<Longrightarrow> s = 0 \<or> stream_at c s (\<lambda>p. p = 0)"
  using opt_fact [of c s None "[]"] by auto

lemma value_fact_ast:
  assumes "tagged nd l ty" "value_fact c (nvalue nd) v" "value_ast l ty v = Some a"
  shows "node_is c nd a"
proof (cases v)
  case (Leaf s)
  then show ?thesis using assms by (auto simp: value_fact_def says_text_def split: if_splits node_type.splits)
next
  case (Sub g)
  then obtain s where s: "nvalue nd = One s" "stream_fact c s g" using assms(2) by (auto simp: value_fact_def)
  show ?thesis
  proof (cases g)
    case None
    then show ?thesis using assms(1,3) s opt_fact [OF s(2)] unfolding Sub
      by (cases ty) (auto simp: one_stream_def)
  next
    case (Some cs)
    then show ?thesis using assms(1,3) s(1) some_fact [of c s cs] clauses_fact [of c s cs] s(2) unfolding Sub
      by (cases ty) (auto simp: one_stream_def split: option.splits if_splits)
  qed
next
  case (Subs g h)
  then obtain s t where s: "nvalue nd = Two s t" "stream_fact c s g" "stream_fact c t h"
    using assms(2) by (auto simp: value_fact_def)
  note f = opt_fact [OF s(2)] opt_fact [OF s(3)] two_fact [OF s(3)] op_fact [OF s(2)]
  show ?thesis
  proof (cases ty)
    case STREAM_LAMBDA
    then show ?thesis using assms(1,3) s f(2) some_fact [of c s]
      by (cases g) (auto simp: Subs two_streams_def split: option.splits if_splits)
  next
    case STREAM_CALL
    then show ?thesis using assms(1,3) s f(1) some_fact [of c t]
      by (cases h) (auto simp: Subs two_streams_def split: if_splits)
  qed (use assms(1,3) s(1) f in \<open>auto simp: Subs two_streams_def\<close>)
qed


definition list_fact :: "compiler_core \<Rightarrow> addr list \<Rightarrow> tree list \<Rightarrow> bool" where
  "list_fact c as gs \<longleftrightarrow> list_all2 (tree_fact c) as gs"

lemma tree_fact_ast:
  "tree_fact c a t \<Longrightarrow> ast_of t = Some x \<Longrightarrow> \<exists>nd. nodes c a = Some nd \<and> node_is c nd x"
  using value_fact_ast says_tagged by (fastforce simp: tree_fact_def split: tree.splits option.splits)

lemma list_fact_asts:
  "list_all2 (tree_fact c) as gs \<Longrightarrow> chain (nodes c) q p as \<Longrightarrow> asts_of gs = Some ts \<Longrightarrow> nodes_are c p ts"
proof (induction as gs arbitrary: q p ts rule: list_all2_induct)
  case (Cons a as g gs)
  obtain x xs where x: "ast_of g = Some x" "asts_of gs = Some xs" "ts = x # xs" using Cons.prems(2) by auto
  obtain nd where n: "nodes c a = Some nd" "node_is c nd x" using tree_fact_ast [OF Cons.hyps(1) x(1)] by blast
  have "chain (nodes c) a (nnext nd) as" "p = a" "a \<noteq> 0" using Cons.prems(1) n(1) by auto
  then show ?case using Cons.IH [OF _ x(2)] n by (simp add: x(3) node_at_def)
qed auto

lemma list_fact_clauses:
  "list_all2 (tree_fact c) as gs \<Longrightarrow> chain (nodes c) q p as \<Longrightarrow> clauses_of gs = Some cs \<Longrightarrow> clauses_are c p cs"
proof (induction as gs arbitrary: q p cs rule: list_all2_induct)
  case (Cons a as g gs)
  obtain l ty h us vs ds where x: "g = Tree l ty (Sub h)" "two_asts h = Some (us, vs)" "clauses_of gs = Some ds" "cs = (us, vs) # ds"
    using Cons.prems(2) by (cases "g # gs" rule: clauses_of.cases) auto
  obtain nd s where n: "nodes c a = Some nd" "nvalue nd = One s" "stream_fact c s h"
    using Cons.hyps(1) by (auto simp: x(1) tree_fact_def value_fact_def says_def)
  have "chain (nodes c) a (nnext nd) as" "p = a" "a \<noteq> 0" using Cons.prems(1) n(1) by auto
  then show ?case using Cons.IH [OF _ x(3)] n two_fact [OF n(3) x(2)] by (simp add: x(4) node_at_def one_stream_def)
qed auto

lemma holds_at: "stream_holds c s as \<Longrightarrow> s \<noteq> 0 \<Longrightarrow> (\<And>p. chain (nodes c) 0 p as \<Longrightarrow> P p) \<Longrightarrow> stream_at c s P"
  by (auto simp: stream_holds_def stream_at_def)

lemma heap_facts:
  "tree_at c a t A \<Longrightarrow> tree_fact c a t"
  "value_at c v tv A \<Longrightarrow> value_fact c v tv"
  "trees_at c as gs A \<Longrightarrow> list_all2 (tree_fact c) as gs"
  "strm_at c s g A \<Longrightarrow> stream_fact c s g"
proof (induction rule: tree_at_value_at_trees_at_strm_at.inducts)
  case (at_null A)
  then show ?case by (simp add: stream_fact_def)
next
  case (at_strm s as gs B A)
  have f: "list_all2 (tree_fact c) as gs" "stream_holds c s as" "s \<noteq> 0" "trees_at c as gs B" using at_strm by blast+
  have "stream_at c s (\<lambda>p. nodes_are c p ts)" if "asts_of gs = Some ts" for ts
    by (rule holds_at [OF f(2,3)]) (rule list_fact_asts [OF f(1) _ that])
  moreover have "stream_at c s (\<lambda>p. clauses_are c p ds)" if "clauses_of gs = Some ds" for ds
    by (rule holds_at [OF f(2,3)]) (rule list_fact_clauses [OF f(1) _ that])
  moreover have "two_arg_at c s (\<lambda>s. maybe_stream c s us) (\<lambda>s. maybe_stream c s vs)" if two: "two_asts (Some gs) = Some (us, vs)" for us vs
  proof -
    obtain l ty g h gs' where g: "gs = Tree l ty (Subs g h) # gs'" "opt_asts g = Some us" "opt_asts h = Some vs"
      using two by (cases "Some gs" rule: two_asts.cases) auto
    then obtain a as' nd s1 s2 where a: "as = a # as'" "nodes c a = Some nd" "nvalue nd = Two s1 s2" "stream_fact c s1 g" "stream_fact c s2 h"
      using f(1) by (auto simp: list_all2_Cons2 tree_fact_def value_fact_def says_def)
    have "node_at c a (\<lambda>nd. two_streams nd (\<lambda>s. maybe_stream c s us) (\<lambda>s. maybe_stream c s vs))" if "a \<noteq> 0"
      using that a(2,3) opt_fact [OF a(4) g(2)] opt_fact [OF a(5) g(3)] by (simp add: node_at_def two_streams_def)
    then show ?thesis unfolding two_arg_at_def
      by (intro holds_at [OF f(2,3)]) (auto simp: a(1))
  qed
  moreover have "stream_at c s (\<lambda>p. node_at c p (\<lambda>nd. says_text nd t))" if "op_text (Some gs) = Some t" for t
    using op_text_at [OF that at_rules(8) [OF f(2,4,3) subset_refl]] at_strm by blast
  ultimately show ?case by (simp add: stream_fact_def)
next
  case (at_node a n ty v l tv B A)
  then show ?case by (simp add: tree_fact_def)
qed (simp_all add: value_fact_def)

text \<open>The program that a stream holds.\<close>

lemma strm_is:
  assumes "strm_at c s (Some gs) A" "asts_of gs = Some ts"
  shows "stream_is c s ts"
  using some_fact [OF heap_facts(4) [OF assms(1)] assms(2)] by (simp add: stream_is_def)

end
