(* ===== verification/Parse_Shape.thy ===== *)
theory Parse_Shape
  imports Parse_Ast
begin

text \<open>
  The shapes of what the parser builds: every symbol of the grammar has values of one kind, and every action
  keeps the kinds. Two forms escape: \<open>(cond)\<close>, and a call with an empty \<open>begin\<close> as its last argument, which
  leave a null stream where the code generator follows a pointer.
\<close>

declare loc_of_place.simps [simp del]

section \<open>Kinds of values\<close>

function (sequential) null_stream :: "tree \<Rightarrow> bool"
and null_value :: "node_type \<Rightarrow> tree_value \<Rightarrow> bool"
and null_streams :: "tree list option \<Rightarrow> bool"
where
  "null_stream (Tree p ty v) = null_value ty v"
| "null_value ty (Leaf s) = False"
| "null_value ty (Sub g) = (ty = STREAM_COND \<and> g = None \<or> null_streams g)"
| "null_value ty (Subs g h) = (ty = STREAM_CALL \<and> h = None \<or> null_streams g \<or> null_streams h)"
| "null_streams None = False"
| "null_streams (Some []) = False"
| "null_streams (Some (g # gs)) = (null_stream g \<or> null_streams (Some gs))"
  by pat_completeness auto
termination
  by (relation "measure (\<lambda>x. case x of
      Inl t \<Rightarrow> 2 * size t | Inr (Inl (ty, v)) \<Rightarrow> 2 * size v + 1 | Inr (Inr g) \<Rightarrow> 2 * size_option (size_list size) g)") auto

lemma null_streams_append [simp]: "null_streams (Some (gs @ hs)) = (null_streams (Some gs) \<or> null_streams (Some hs))"
  by (induction gs) auto

text \<open>A tree that the code generator can read, unless it contains one of the two forms.\<close>

definition good :: "tree \<Rightarrow> bool" where
  "good t \<longleftrightarrow> null_stream t \<or> ast_of t \<noteq> None"

definition data :: "tree list option \<Rightarrow> bool" where
  "data g \<longleftrightarrow> (\<exists>gs. g = Some gs \<and> list_all good gs)"

definition exprs :: "tree list option \<Rightarrow> bool" where
  "exprs g \<longleftrightarrow> g = None \<or> data g"

definition raws :: "tree list option \<Rightarrow> bool" where
  "raws g \<longleftrightarrow> (\<exists>gs. g = Some gs \<and> list_all (\<lambda>t. null_stream t \<or> (\<exists>a. ast_of t = Some a \<and> is_raw a)) gs)"

definition formals :: "tree list option \<Rightarrow> bool" where
  "formals g \<longleftrightarrow> (\<exists>gs. g = Some gs \<and> list_all (\<lambda>t. \<not> null_stream t \<and> (\<exists>a. ast_of t = Some a \<and> is_formal a)) gs)"

definition pair :: "tree list option \<Rightarrow> bool" where
  "pair g \<longleftrightarrow> (\<exists>p ty a b. g = Some [Tree p ty (Subs a b)] \<and> exprs a \<and> exprs b)"

definition clauses :: "tree list option \<Rightarrow> bool" where
  "clauses g \<longleftrightarrow> (\<exists>cs. g = Some cs \<and> list_all (\<lambda>t. \<exists>p ty h. t = Tree p ty (Sub h) \<and> pair h) cs)"

definition op_node :: "tree list option \<Rightarrow> bool" where
  "op_node g \<longleftrightarrow> (\<exists>p ty s. g = Some [Tree p ty (Leaf s)] \<and> 0 \<notin> set s)"

definition sym_ok :: "yysymbol \<Rightarrow> tree list option \<Rightarrow> bool" where
  "sym_ok A g =
     (case A of
        T k \<Rightarrow> g = None | S_asm_types \<Rightarrow> g = None
      | S_self_evaluating \<Rightarrow> raws g | S_boolean \<Rightarrow> raws g | S_number \<Rightarrow> raws g | S_string \<Rightarrow> raws g | S_string_body \<Rightarrow> raws g
      | S_raw_asm \<Rightarrow> raws g | S_asm_end \<Rightarrow> raws g
      | S_symbol \<Rightarrow> formals g | S_lambda_formals \<Rightarrow> formals g | S_lambda_formals_list \<Rightarrow> formals g
      | S_lambda_formals_list_end \<Rightarrow> formals g
      | S_two_args \<Rightarrow> pair g | S_if_end \<Rightarrow> pair g | S_cond_clause \<Rightarrow> pair g
      | S_cond_clause_list_end \<Rightarrow> clauses g | S_cond_clause_list \<Rightarrow> g = None \<or> clauses g
      | S_math_call_op \<Rightarrow> op_node g
      | S_literal \<Rightarrow> data g | S_datum \<Rightarrow> data g | S_list \<Rightarrow> data g | S_list_end \<Rightarrow> data g | S_list_next \<Rightarrow> data g
      | S_quoted \<Rightarrow> data g | S_let_binding \<Rightarrow> data g | S_let_binding_list \<Rightarrow> data g | S_let_binding_end \<Rightarrow> data g
      | _ \<Rightarrow> exprs g)"

lemma kinds:
  "raws g \<Longrightarrow> data g" "formals g \<Longrightarrow> data g" "data g \<Longrightarrow> exprs g"
  by (fastforce simp: raws_def formals_def data_def exprs_def good_def list_all_iff)+

lemma good_asts: "list_all good gs \<Longrightarrow> \<not> null_streams (Some gs) \<Longrightarrow> \<exists>ts. asts_of gs = Some ts"
  by (induction gs) (auto simp: good_def)

lemma exprs_asts: "exprs g \<Longrightarrow> \<not> null_streams g \<Longrightarrow> \<exists>ts. opt_asts g = Some ts"
  using good_asts by (auto simp: exprs_def data_def)

lemma raws_asts: "raws g \<Longrightarrow> \<not> null_streams g \<Longrightarrow> \<exists>ts. opt_asts g = Some ts \<and> list_all is_raw ts"
proof -
  have "list_all (\<lambda>t. null_stream t \<or> (\<exists>a. ast_of t = Some a \<and> is_raw a)) gs \<Longrightarrow> \<not> null_streams (Some gs)
      \<Longrightarrow> \<exists>ts. asts_of gs = Some ts \<and> list_all is_raw ts" for gs
    by (induction gs) auto
  then show "raws g \<Longrightarrow> \<not> null_streams g \<Longrightarrow> ?thesis" by (auto simp: raws_def)
qed

lemma formals_asts: "formals g \<Longrightarrow> \<exists>ts. opt_asts g = Some ts \<and> list_all is_formal ts \<and> g \<noteq> None \<and> \<not> null_streams g"
proof -
  have "list_all (\<lambda>t. \<not> null_stream t \<and> (\<exists>a. ast_of t = Some a \<and> is_formal a)) gs
      \<Longrightarrow> \<exists>ts. asts_of gs = Some ts \<and> list_all is_formal ts \<and> \<not> null_streams (Some gs)" for gs
    by (induction gs) auto
  then show "formals g \<Longrightarrow> ?thesis" by (auto simp: formals_def)
qed

lemma pair_asts: "pair g \<Longrightarrow> \<not> null_streams g \<Longrightarrow> \<exists>us vs. two_asts g = Some (us, vs)"
  using exprs_asts by (fastforce simp: pair_def)

lemma op_node_text: "op_node g \<Longrightarrow> \<exists>s. op_text g = Some s \<and> \<not> null_streams g"
  by (auto simp: op_node_def)

lemma clauses_asts:
  assumes "clauses g" "\<not> null_streams g"
  shows "\<exists>cs ds. g = Some cs \<and> clauses_of cs = Some ds"
proof -
  have "list_all (\<lambda>t. \<exists>p ty h. t = Tree p ty (Sub h) \<and> pair h) cs \<Longrightarrow> \<not> null_streams (Some cs) \<Longrightarrow> \<exists>ds. clauses_of cs = Some ds" for cs
    by (induction cs) (use pair_asts in fastforce)+
  then show ?thesis using assms by (auto simp: clauses_def)
qed

section \<open>Actions keep the kinds\<close>

text \<open>The names of the open files are there.\<close>

definition names_ok :: "compiler_core \<Rightarrow> bool" where
  "names_ok c \<longleftrightarrow> (\<forall>i. int i \<le> include_depth c \<longrightarrow> i < length (include_stack c) \<longrightarrow>
     (case include_stack c ! i of None \<Rightarrow> False | Some f \<Rightarrow> 0 \<notin> set f))"

lemma names_place:
  assumes "names_ok c" "place_of c = Inr p"
  shows "\<exists>l. loc_of_place p = Some l"
proof -
  obtain f where f: "include_path c = Inr f" "p = (yycolumn (scan c), yylineno (scan c), f)"
    using assms(2) by (auto simp: place_of_def res_simps)
  have "0 \<le> include_depth c" "nat (include_depth c) < length (include_stack c)" "include_stack c ! nat (include_depth c) = f"
    using f(1) by (auto simp: include_path_def res_simps split: if_splits)
  then have "case f of None \<Rightarrow> False | Some s \<Rightarrow> 0 \<notin> set s" using assms(1) unfolding names_ok_def by (metis int_nat_eq order_refl)
  then show ?thesis by (cases f) (simp_all add: f(2) loc_of_place.simps)
qed

lemma grown:
  assumes "names_ok c" "grow c ty v g = Inr h"
  obtains gs p l where "g = Some gs" "h = Some (gs @ [Tree p ty v])" "loc_of_place p = Some l"
proof -
  obtain p where p: "place_of c = Inr p" "(case g of None \<Rightarrow> Inl Bad_Pointer | Some gs \<Rightarrow> Inr (Some (gs @ [Tree p ty v]))) = Inr h"
    using assms(2) by (auto simp: grow_def res_simps)
  obtain l where "loc_of_place p = Some l" using names_place [OF assms(1) p(1)] by blast
  then show thesis using p(2) that [of _ p l] by (cases g) simp_all
qed

lemma grown_text:
  assumes "names_ok c" "grow_text c k t g = Inr h"
  obtains gs p l where "g = Some gs" "h = Some (gs @ [Tree p (fst (text_node k t)) (Leaf (snd (text_node k t)))])"
    "loc_of_place p = Some l" "0 \<notin> set (snd (text_node k t))"
proof -
  have "0 \<notin> set (snd (text_node k t))" by (cases k) auto
  then show thesis using assms that by (auto simp: grow_text_def case_prod_beta elim!: grown)
qed

lemma goodI:
  assumes "loc_of_place p = Some l" "\<not> null_value ty v \<Longrightarrow> \<exists>a. value_ast l ty v = Some a"
  shows "good (Tree p ty v)"
  using assms by (cases "null_value ty v") (auto simp: good_def)

lemma good_single:
  assumes "loc_of_place p = Some l"
  shows "data g \<Longrightarrow> good (Tree p STREAM_QUOTED (Sub g))" "exprs g \<Longrightarrow> good (Tree p STREAM_LOAD (Sub g))"
    "raws g \<Longrightarrow> good (Tree p STREAM_ASM (Sub g))" "exprs g \<Longrightarrow> good (Tree p STREAM_ASM_STREAM (Sub g))"
    "g = None \<or> clauses g \<Longrightarrow> good (Tree p STREAM_COND (Sub g))" "data g \<Longrightarrow> good (Tree p STREAM_RECORD_TYPE (Sub g))"
    "exprs g \<Longrightarrow> good (Tree p STREAM_AND (Sub g))" "exprs g \<Longrightarrow> good (Tree p STREAM_OR (Sub g))"
proof -
  have e: "exprs g \<Longrightarrow> \<not> null_streams g \<Longrightarrow> \<exists>ts. opt_asts g = Some ts" by (rule exprs_asts)
  show "exprs g \<Longrightarrow> good (Tree p STREAM_LOAD (Sub g))" "exprs g \<Longrightarrow> good (Tree p STREAM_ASM_STREAM (Sub g))"
    "exprs g \<Longrightarrow> good (Tree p STREAM_AND (Sub g))" "exprs g \<Longrightarrow> good (Tree p STREAM_OR (Sub g))"
    by (rule goodI [OF assms], use e in fastforce)+
  have d: "g \<noteq> None" "exprs g" if "data g" using that kinds(3) by (auto simp: data_def)
  show "data g \<Longrightarrow> good (Tree p STREAM_QUOTED (Sub g))" "data g \<Longrightarrow> good (Tree p STREAM_RECORD_TYPE (Sub g))"
    by (rule goodI [OF assms], use d e in fastforce)+
  show "good (Tree p STREAM_ASM (Sub g))" if r: "raws g"
  proof (rule goodI [OF assms])
    assume "\<not> null_value STREAM_ASM (Sub g)"
    then obtain ts where "opt_asts g = Some ts" "list_all is_raw ts" using raws_asts [OF r] by auto
    moreover have "g \<noteq> None" using r by (auto simp: raws_def)
    ultimately show "\<exists>a. value_ast l STREAM_ASM (Sub g) = Some a" by simp
  qed
  show "good (Tree p STREAM_COND (Sub g))" if c: "g = None \<or> clauses g"
  proof (rule goodI [OF assms])
    assume "\<not> null_value STREAM_COND (Sub g)"
    then obtain cs ds where "g = Some cs" "clauses_of cs = Some ds" using clauses_asts [of g] c by auto
    then show "\<exists>a. value_ast l STREAM_COND (Sub g) = Some a" by simp
  qed
qed

lemma good_double:
  assumes "loc_of_place p = Some l"
  shows "exprs g \<Longrightarrow> exprs h \<Longrightarrow> good (Tree p STREAM_BIND (Subs g h))" "exprs g \<Longrightarrow> exprs h \<Longrightarrow> good (Tree p STREAM_STORE (Subs g h))"
    "exprs g \<Longrightarrow> exprs h \<Longrightarrow> good (Tree p STREAM_LET_STAR (Subs g h))" "exprs g \<Longrightarrow> pair h \<Longrightarrow> good (Tree p STREAM_IF (Subs g h))"
    "op_node g \<Longrightarrow> pair h \<Longrightarrow> good (Tree p STREAM_MATH (Subs g h))" "formals g \<Longrightarrow> exprs h \<Longrightarrow> good (Tree p STREAM_LAMBDA (Subs g h))"
    "exprs g \<Longrightarrow> exprs h \<Longrightarrow> good (Tree p STREAM_CALL (Subs g h))"
proof -
  note f = exprs_asts [of g] exprs_asts [of h] pair_asts [of h]
  show "exprs g \<Longrightarrow> exprs h \<Longrightarrow> good (Tree p STREAM_BIND (Subs g h))" "exprs g \<Longrightarrow> exprs h \<Longrightarrow> good (Tree p STREAM_STORE (Subs g h))"
    "exprs g \<Longrightarrow> exprs h \<Longrightarrow> good (Tree p STREAM_LET_STAR (Subs g h))" "exprs g \<Longrightarrow> exprs h \<Longrightarrow> good (Tree p STREAM_CALL (Subs g h))"
    "exprs g \<Longrightarrow> pair h \<Longrightarrow> good (Tree p STREAM_IF (Subs g h))"
    by (rule goodI [OF assms], use f in fastforce)+
  show "op_node g \<Longrightarrow> pair h \<Longrightarrow> good (Tree p STREAM_MATH (Subs g h))"
    by (rule goodI [OF assms]) (use f(3) op_node_text [of g] in fastforce)
  show "formals g \<Longrightarrow> exprs h \<Longrightarrow> good (Tree p STREAM_LAMBDA (Subs g h))"
    by (rule goodI [OF assms]) (use f(2) formals_asts [of g] in fastforce)
qed


text \<open>What the actions of each form return.\<close>

lemma new_leaf:
  assumes "names_ok c" "with_core c (grow_text c k t (Some [])) = Inr (c', g)"
  shows "c' = c \<and> (\<exists>p l. g = Some [Tree p (fst (text_node k t)) (Leaf (snd (text_node k t)))] \<and> loc_of_place p = Some l
    \<and> 0 \<notin> set (snd (text_node k t)))"
  using assms by (auto simp: with_core_def res_simps elim!: grown_text)

lemma new_node:
  assumes "names_ok c" "with_core c (grow c ty v (Some [])) = Inr (c', g)"
  shows "c' = c \<and> (\<exists>p l. g = Some [Tree p ty v] \<and> loc_of_place p = Some l)"
  using assms by (auto simp: with_core_def res_simps elim!: grown)

lemma joined: "join g h = Inr k \<Longrightarrow> \<exists>hs. h = Some hs \<and> (hs = [] \<and> k = g \<or> (\<exists>gs. g = Some gs \<and> k = Some (gs @ hs)))"
  by (cases "(g, h)" rule: join.cases) auto

lemma join_kinds:
  assumes "join g h = Inr k"
  shows "exprs g \<Longrightarrow> exprs h \<Longrightarrow> exprs k" "data g \<Longrightarrow> data h \<Longrightarrow> data k" "raws g \<Longrightarrow> raws h \<Longrightarrow> raws k"
    "formals g \<Longrightarrow> formals h \<Longrightarrow> formals k" "clauses g \<Longrightarrow> clauses h \<Longrightarrow> clauses k"
  using joined [OF assms] by (auto simp: exprs_def data_def raws_def formals_def clauses_def)

definition keeps_kinds :: "production \<Rightarrow> bool" where
  "keeps_kinds pr = (case pr of (A, rhs, look, act) \<Rightarrow>
     \<forall>w txt c gs c' g. names_ok c \<longrightarrow> list_all2 sym_ok rhs gs \<longrightarrow> tree_action w txt gs act c = Inr (c', g) \<longrightarrow> sym_ok A g)"

lemma keeps_kindsI:
  "(\<And>w txt c gs c' g. names_ok c \<Longrightarrow> list_all2 sym_ok rhs gs \<Longrightarrow> tree_action w txt gs act c = Inr (c', g) \<Longrightarrow> sym_ok A g)
   \<Longrightarrow> keeps_kinds (A, rhs, look, act)"
  by (simp add: keeps_kinds_def)

lemma dollar_ok: "list_all2 sym_ok rhs gs \<Longrightarrow> k - 1 < length rhs \<Longrightarrow> sym_ok (rhs ! (k - 1)) (dollar gs k)"
  by (simp add: dollar_def list_all2_nthD)

lemma keeps_keep:
  "(\<And>g. sym_ok B g \<Longrightarrow> sym_ok A g) \<Longrightarrow> keeps_kinds (keep A B)"
  by (auto simp: keeps_kinds_def keep_def list_all2_Cons1 dollar_def)

lemma kind_of_dollar:
  assumes "\<And>g. sym_ok (rhs ! (k - 1)) g \<Longrightarrow> sym_ok A g" "k - 1 < length rhs"
  shows "keeps_kinds (A, rhs, look, Value k)"
proof (rule keeps_kindsI)
  fix w tx c gs c' g
  assume "list_all2 sym_ok rhs gs" "tree_action w tx gs (Value k) c = Inr (c', g)"
  then show "sym_ok A g" using assms(1) [OF dollar_ok [OF _ assms(2)]] by auto
qed

lemma keeps_text:
  assumes "\<And>p l s. loc_of_place p = Some l \<Longrightarrow> 0 \<notin> set s \<Longrightarrow> sym_ok A (Some [Tree p (fst (text_node k [])) (Leaf s)])"
  shows "keeps_kinds (A, rhs, look, New_Text k t)"
proof (rule keeps_kindsI)
  fix w tx c gs c' g
  assume n: "names_ok c" "tree_action w tx gs (New_Text k t) c = Inr (c', g)"
  have k: "fst (text_node k s) = fst (text_node k [])" for s by (cases k) simp_all
  obtain s p l where "g = Some [Tree p (fst (text_node k s)) (Leaf (snd (text_node k s)))]" "loc_of_place p = Some l"
    "0 \<notin> set (snd (text_node k s))" using new_leaf [OF n(1)] n(2) unfolding tree_action.simps by blast
  then show "sym_ok A g" using assms k [of s] by metis
qed

lemma keeps_single:
  assumes "\<And>p l g. loc_of_place p = Some l \<Longrightarrow> sym_ok (rhs ! (k - 1)) g \<Longrightarrow> sym_ok A (Some [Tree p ty (Sub g)])" "k - 1 < length rhs"
  shows "keeps_kinds (A, rhs, look, New_Single ty k)"
proof (rule keeps_kindsI)
  fix w tx c gs c' g
  assume n: "names_ok c" "list_all2 sym_ok rhs gs" "tree_action w tx gs (New_Single ty k) c = Inr (c', g)"
  obtain p l where "g = Some [Tree p ty (Sub (dollar gs k))]" "loc_of_place p = Some l"
    using new_node [OF n(1)] n(3) unfolding tree_action.simps by blast
  then show "sym_ok A g" using assms(1) dollar_ok [OF n(2) assms(2)] by blast
qed

lemma keeps_double:
  assumes "\<And>p l g h. loc_of_place p = Some l \<Longrightarrow> sym_ok (rhs ! (j - 1)) g \<Longrightarrow> sym_ok (rhs ! (k - 1)) h \<Longrightarrow>
      sym_ok A (Some [Tree p ty (Subs g h)])" "j - 1 < length rhs" "k - 1 < length rhs"
  shows "keeps_kinds (A, rhs, look, New_Double ty j k)"
proof (rule keeps_kindsI)
  fix w tx c gs c' g
  assume n: "names_ok c" "list_all2 sym_ok rhs gs" "tree_action w tx gs (New_Double ty j k) c = Inr (c', g)"
  obtain p l where "g = Some [Tree p ty (Subs (dollar gs j) (dollar gs k))]" "loc_of_place p = Some l"
    using new_node [OF n(1)] n(3) unfolding tree_action.simps by blast
  then show "sym_ok A g" using assms(1) dollar_ok [OF n(2) assms(2)] dollar_ok [OF n(2) assms(3)] by blast
qed

lemma keeps_concat:
  assumes "\<And>g h f. join g h = Inr f \<Longrightarrow> sym_ok (rhs ! (j - 1)) g \<Longrightarrow> sym_ok (rhs ! (k - 1)) h \<Longrightarrow> sym_ok A f"
    "j - 1 < length rhs" "k - 1 < length rhs"
  shows "keeps_kinds (A, rhs, look, Concat j k)"
proof (rule keeps_kindsI)
  fix w tx c gs c' g
  assume n: "list_all2 sym_ok rhs gs" "tree_action w tx gs (Concat j k) c = Inr (c', g)"
  then have "join (dollar gs j) (dollar gs k) = Inr g" by (simp add: with_core_def res_simps)
  then show "sym_ok A g" using assms(1) dollar_ok [OF n(1) assms(2)] dollar_ok [OF n(1) assms(3)] by blast
qed

lemma leaf_kinds:
  assumes "loc_of_place p = Some l" "0 \<notin> set s"
  shows "raws (Some [Tree p STREAM_LITERAL (Leaf s)])" "raws (Some [Tree p STREAM_STRING (Leaf s)])"
    "raws (Some [Tree p STREAM_OP (Leaf s)])" "formals (Some [Tree p STREAM_SYMBOL (Leaf s)])"
    "formals (Some [Tree p STREAM_LITERAL (Leaf s)])" "op_node (Some [Tree p STREAM_OP (Leaf s)])"
proof -
  have "ast_of (Tree p ty (Leaf s)) = value_ast l ty (Leaf s)" for ty using assms(1) by simp
  then show "raws (Some [Tree p STREAM_LITERAL (Leaf s)])" "raws (Some [Tree p STREAM_STRING (Leaf s)])"
    "raws (Some [Tree p STREAM_OP (Leaf s)])" "formals (Some [Tree p STREAM_SYMBOL (Leaf s)])"
    "formals (Some [Tree p STREAM_LITERAL (Leaf s)])" "op_node (Some [Tree p STREAM_OP (Leaf s)])"
    using assms(2) by (cases p, auto simp: raws_def formals_def op_node_def is_raw_def is_formal_def simp del: ast_of.simps)+
qed

lemma good_kinds: "good t \<Longrightarrow> data (Some [t])" "good t \<Longrightarrow> exprs (Some [t])"
  by (simp_all add: data_def exprs_def)

lemma empty_kinds: "exprs (Some [])" "formals (Some [])" "exprs None"
  by (simp_all add: data_def exprs_def formals_def)

lemma raw_stream: "loc_of_place p = Some l \<Longrightarrow> exprs g \<Longrightarrow> raws (Some [Tree p STREAM_ASM_STREAM (Sub g)])"
  using good_single(4) [of p l g] exprs_asts [of g]
  by (cases "null_streams g") (auto simp: raws_def is_raw_def good_def split: if_splits)

lemma pairI: "exprs a \<Longrightarrow> exprs b \<Longrightarrow> pair (Some [Tree p ty (Subs a b)])"
  by (cases p) (auto simp: pair_def)

lemma clauseI: "pair h \<Longrightarrow> clauses (Some [Tree p ty (Sub h)])"
  by (cases p) (auto simp: clauses_def)

lemma chars_no_null: "0 \<notin> set (chars ''#t'')" "0 \<notin> set (chars ''#f'')"
  by (simp_all add: chars_def)

lemma keeps_boolean: "keeps_kinds (S_boolean, rhs, look, New_Boolean b)"
proof (rule keeps_kindsI)
  fix w tx c gs c' g
  assume n: "names_ok c" "tree_action w tx gs (New_Boolean b) c = Inr (c', g)"
  then show "sym_ok S_boolean g" using new_node [OF n(1)] leaf_kinds(1) chars_no_null
    by (fastforce simp: sym_ok_def simp del: ast_of.simps)
qed

lemma keeps_stream: "sym_ok A (Some []) \<Longrightarrow> keeps_kinds (A, rhs, look, New_Stream)"
  by (simp add: keeps_kinds_def)

lemma keeps_include: "sym_ok A (Some []) \<Longrightarrow> keeps_kinds (A, rhs, look, Include k)"
  by (auto simp: keeps_kinds_def res_simps)

lemma keeps_other:
  "keeps_kinds (S_list_end, [S_list_next, T CLOSE_PAREN], False, New_List_End 1)"
  "keeps_kinds (S_cond_clause_list_end, [S_cond_clause, S_cond_clause_list_end], False, New_Clause 1 2)"
  "keeps_kinds (S_if_end, [S_expression, T CLOSE_PAREN], False, New_If_True 1)"
  "keeps_kinds (S_lambda_formals_list_end, [S_symbol, T CLOSE_PAREN], False, End_List 1)"
proof -
  have e: "0 \<notin> set (c_str empty_list)" by simp
  show "keeps_kinds (S_list_end, [S_list_next, T CLOSE_PAREN], False, New_List_End 1)"
  proof (rule keeps_kindsI)
    fix w tx c gs c' g
    assume n: "names_ok c" "list_all2 sym_ok [S_list_next, T CLOSE_PAREN] gs" "tree_action w tx gs (New_List_End 1) c = Inr (c', g)"
    obtain h where h: "grow_text c Literal_Text empty_list (Some []) = Inr h" "join h (dollar gs 1) = Inr g"
      using n(3) by (auto simp: with_core_def res_simps)
    obtain p l where p: "h = Some [Tree p STREAM_LITERAL (Leaf (c_str empty_list))]" "loc_of_place p = Some l"
      using h(1) n(1) by (auto elim: grown_text)
    have "data h" unfolding p(1) by (rule kinds(1) [OF leaf_kinds(1) [OF p(2) e]])
    moreover have "data (dollar gs 1)" using n(2) by (auto simp: list_all2_Cons1 dollar_def sym_ok_def)
    ultimately show "sym_ok S_list_end g" using join_kinds(2) [OF h(2)] by (simp add: sym_ok_def)
  qed
  show "keeps_kinds (S_cond_clause_list_end, [S_cond_clause, S_cond_clause_list_end], False, New_Clause 1 2)"
  proof (rule keeps_kindsI)
    fix w tx c gs c' g
    assume n: "names_ok c" "list_all2 sym_ok [S_cond_clause, S_cond_clause_list_end] gs" "tree_action w tx gs (New_Clause 1 2) c = Inr (c', g)"
    obtain h where h: "grow c STREAM_COND (Sub (dollar gs 1)) (Some []) = Inr h" "join h (dollar gs 2) = Inr g"
      using n(3) by (auto simp: with_core_def res_simps)
    obtain p where p: "h = Some [Tree p STREAM_COND (Sub (dollar gs 1))]" using h(1) n(1) by (auto elim: grown)
    have "pair (dollar gs 1)" "clauses (dollar gs 2)" using n(2) by (auto simp: list_all2_Cons1 dollar_def sym_ok_def)
    then show "sym_ok S_cond_clause_list_end g" using join_kinds(5) [OF h(2)] clauseI by (simp add: sym_ok_def p)
  qed
  show "keeps_kinds (S_if_end, [S_expression, T CLOSE_PAREN], False, New_If_True 1)"
  proof (rule keeps_kindsI)
    fix w tx c gs c' g
    assume n: "names_ok c" "list_all2 sym_ok [S_expression, T CLOSE_PAREN] gs" "tree_action w tx gs (New_If_True 1) c = Inr (c', g)"
    obtain h where h: "grow_text c Literal_Text empty_list (Some []) = Inr h"
      "grow c STREAM_TWO_ARG (Subs (dollar gs 1) h) (Some []) = Inr g" using n(3) by (auto simp: with_core_def res_simps)
    obtain p l where p: "h = Some [Tree p STREAM_LITERAL (Leaf (c_str empty_list))]" "loc_of_place p = Some l"
      using h(1) n(1) by (auto elim: grown_text)
    have "exprs h" unfolding p(1) by (intro kinds(3) kinds(1) leaf_kinds(1) [OF p(2) e])
    moreover have "exprs (dollar gs 1)" using n(2) by (auto simp: list_all2_Cons1 dollar_def sym_ok_def)
    ultimately show "sym_ok S_if_end g" using h(2) n(1) pairI by (auto simp: sym_ok_def elim!: grown)
  qed
  show "keeps_kinds (S_lambda_formals_list_end, [S_symbol, T CLOSE_PAREN], False, End_List 1)"
  proof (rule keeps_kindsI)
    fix w tx c gs c' g
    assume n: "names_ok c" "list_all2 sym_ok [S_symbol, T CLOSE_PAREN] gs" "tree_action w tx gs (End_List 1) c = Inr (c', g)"
    have h: "grow_text c Literal_Text empty_list (dollar gs 1) = Inr g" using n(3) by (auto simp: with_core_def res_simps)
    obtain hs p l where p: "dollar gs 1 = Some hs" "g = Some (hs @ [Tree p STREAM_LITERAL (Leaf (c_str empty_list))])" "loc_of_place p = Some l"
      using h n(1) by (auto elim: grown_text)
    have "formals (Some hs)" using n(2) p(1) by (auto simp: list_all2_Cons1 dollar_def sym_ok_def)
    then show "sym_ok S_lambda_formals_list_end g" using leaf_kinds(5) [OF p(3) e] by (auto simp: sym_ok_def formals_def p(2) simp del: ast_of.simps)
  qed
qed

lemmas keeps_rules = keeps_keep kind_of_dollar keeps_text keeps_single keeps_double keeps_concat keeps_boolean keeps_stream
  keeps_include keeps_other

lemmas kind_rules = leaf_kinds good_kinds empty_kinds raw_stream pairI clauseI kinds good_single good_double join_kinds

lemma data_rules_kinds: "list_all keeps_kinds data_rules"
  unfolding data_rules_def list.pred_inject
  by (intro conjI keeps_rules TrueI) (auto simp: sym_ok_def simp del: ast_of.simps intro: kind_rules)


lemma call_rules_kinds: "list_all keeps_kinds call_rules"
  unfolding call_rules_def list.pred_inject list.map append.simps
  by (intro conjI keeps_rules TrueI) (auto simp: sym_ok_def simp del: ast_of.simps intro: kind_rules)

lemma control_rules_kinds: "list_all keeps_kinds control_rules"
  unfolding control_rules_def list.pred_inject
  by (intro conjI keeps_rules TrueI) (auto simp: sym_ok_def simp del: ast_of.simps intro: kind_rules)

lemma define_rules_kinds: "list_all keeps_kinds define_rules"
  unfolding define_rules_def list.pred_inject
  by (intro conjI keeps_rules TrueI) (auto simp: sym_ok_def simp del: ast_of.simps intro: kind_rules)

lemma procedure_rules_kinds: "list_all keeps_kinds procedure_rules"
  unfolding procedure_rules_def list.pred_inject
  by (intro conjI keeps_rules TrueI) (auto simp: sym_ok_def simp del: ast_of.simps intro: kind_rules)

lemma scheme_y_kinds: "list_all keeps_kinds scheme_y"
  unfolding scheme_y_def list_all_append
  using data_rules_kinds call_rules_kinds control_rules_kinds define_rules_kinds procedure_rules_kinds by blast

section \<open>Runs keep the kinds\<close>

text \<open>The scanner and the includes keep the names; the labels are not touched.\<close>

definition follows :: "compiler_core \<Rightarrow> compiler_core \<Rightarrow> bool" where
  "follows c c' \<longleftrightarrow> (names_ok c \<longrightarrow> names_ok c') \<and> label_index c' = label_index c"

lemma follows_trans: "follows c c1 \<Longrightarrow> follows c1 c2 \<Longrightarrow> follows c c2"
  by (simp add: follows_def)

lemma end_follows: "end_of_input c = Inr (c', b) \<Longrightarrow> follows c c'"
  by (auto simp: end_of_input_def pop_include_path_def res_simps follows_def names_ok_def nth_list_update split: if_splits)

lemma matched_follows: "follows c (matched txt rest c)"
  by (simp add: follows_def names_ok_def matched_def)

lemma include_follows: "include_file w c t = Inr c' \<Longrightarrow> follows c c'"
  by (auto simp: include_file_def Let_def res_simps push_include_path_def parse_push_state_def follows_def names_ok_def
      nth_list_update split: option.splits if_splits)

lemma yylex_follows: "yylex sc c = Inr (k, t, sc', c') \<Longrightarrow> follows c c'"
proof (induction sc c rule: yylex.induct)
  case (1 sc c)
  show ?case
  proof (cases "yyinput (scan c)")
    case None
    then show ?thesis using 1(4) by (simp add: yylex.simps [of sc c])
  next
    case (Some s)
    show ?thesis
    proof (cases s)
      case Nil
      then obtain c1 b where e: "end_of_input c = Inr (c1, b)"
        "(if b then Inr (END_OF_FILE, [], sc, c1) else yylex sc c1) = Inr (k, t, sc', c')"
        using 1(4) by (auto simp: yylex.simps [of sc c] Some res_simps)
      show ?thesis
      proof (cases b)
        case True
        then show ?thesis using e(2) end_follows [OF e(1)] by simp
      next
        case False
        then have "follows c1 c'" using 1(1) [OF Some Nil e(1)] e(2) by simp
        then show ?thesis using end_follows [OF e(1)] follows_trans by blast
      qed
    next
      case (Cons ch cs)
      obtain m l a where m: "longest (scheme_rules sc) (ch # cs) = (m, l, a)" by (metis prod_cases3)
      show ?thesis
      proof (cases a)
        case None
        then have "follows (matched [ch] cs c) c'" using 1(2) [OF Some Cons m [symmetric]] 1(4)
          by (auto simp: yylex.simps [of sc c] Some Cons m)
        then show ?thesis using matched_follows follows_trans by blast
      next
        fix act
        assume a: "a = Some act"
        obtain sc1 tok where act: "act = (sc1, tok)" by (cases act)
        let ?c = "matched (ch # take (l - 1) cs) (drop (l - 1) cs) c"
        have "follows ?c c'"
        proof (cases tok)
          case None
          then show ?thesis using 1(3) [OF Some Cons m [symmetric]] 1(4)
            by (auto simp: yylex.simps [of sc c] Some Cons m Let_def a act)
        next
          fix tk
          assume "tok = Some tk"
          then show ?thesis using 1(4) by (auto simp: yylex.simps [of sc c] Some Cons m Let_def a act follows_def)
        qed
        then show ?thesis using matched_follows follows_trans by blast
      qed
    qed
  qed
qed

lemma fetch_follows: "fetch p = Inr p' \<Longrightarrow> follows (core p) (core p') \<and> yyss p' = yyss p"
  using yylex_follows by (fastforce simp: fetch_def res_simps follows_def split: option.splits)

lemma action_follows: "tree_action w tx gs act c = Inr (c', g) \<Longrightarrow> follows c c'"
proof -
  have "tree_include w h c = Inr c' \<Longrightarrow> follows c c'" for h c'
    by (cases "(w, h, c)" rule: tree_include.cases) (auto dest: include_follows)
  then show "tree_action w tx gs act c = Inr (c', g) \<Longrightarrow> ?thesis"
    by (cases act) (auto simp: with_core_def res_simps follows_def)
qed

definition kinds_ok :: "tree list option parser \<Rightarrow> bool" where
  "kinds_ok q \<longleftrightarrow> names_ok (core q) \<and> list_all (\<lambda>(A, g). sym_ok A g) (yyss q)"

lemma list_all_kinds: "list_all (\<lambda>(A, g). sym_ok A g) xs \<Longrightarrow> list_all2 sym_ok (map fst xs) (map snd xs)"
  by (induction xs) auto

lemma reduce_kinds:
  assumes "kinds_ok q" "fits pr q" "keeps_kinds pr" "reduce (tree_action w) pr q = Inr q'"
  shows "kinds_ok q' \<and> label_index (core q') = label_index (core q)"
proof -
  obtain A rhs look act where pr: "pr = (A, rhs, look, act)" by (metis prod_cases4)
  let ?n = "length rhs" and ?vs = "rev (map snd (take (length rhs) (yyss q)))"
  obtain q1 where q1: "(if look then fetch q else Inr q) = Inr q1" "rbind (tree_action w (yytext q1) (rev (map snd (take ?n (yyss q1)))) act (core q1))
      (\<lambda>(c, v). Inr (q1\<lparr>core := c, yyss := (A, v) # drop ?n (yyss q1)\<rparr>)) = Inr q'"
    using assms(4) by (auto simp: reduce_def pr res_simps)
  have f: "follows (core q) (core q1)" "yyss q1 = yyss q"
    using q1(1) fetch_follows [of q q1] by (auto simp: follows_def split: if_splits)
  obtain c g where a: "tree_action w (yytext q1) ?vs act (core q1) = Inr (c, g)"
    "q' = q1\<lparr>core := c, yyss := (A, g) # drop ?n (yyss q)\<rparr>" using q1(2) f(2) by (auto simp: res_simps)
  have n: "names_ok (core q1)" "names_ok c" "label_index c = label_index (core q)"
    using assms(1) f(1) action_follows [OF a(1)] by (simp_all add: kinds_ok_def follows_def)
  have all: "list_all (\<lambda>(A, g). sym_ok A g) (take ?n (yyss q))" "list_all (\<lambda>(A, g). sym_ok A g) (drop ?n (yyss q))"
    using assms(1) by (auto simp: kinds_ok_def list_all_iff dest: in_set_takeD in_set_dropD)
  have "map fst (take ?n (yyss q)) = rev rhs" using assms(2) by (simp add: fits_def pr)
  then have "list_all2 sym_ok (rev rhs) (map snd (take ?n (yyss q)))" using list_all_kinds [OF all(1)] by simp
  then have "list_all2 sym_ok rhs ?vs" by (metis list_all2_rev rev_rev_ident)
  then have "sym_ok A g" using assms(3) n(1) a(1) by (auto simp: keeps_kinds_def pr)
  then show ?thesis using n all(2) by (simp add: a(2) kinds_ok_def)
qed

lemma moves_kinds:
  "moves (tree_action w) None ms q = Some (Inr q') \<Longrightarrow> kinds_ok q \<Longrightarrow> kinds_ok q' \<and> label_index (core q') = label_index (core q)"
proof (induction ms arbitrary: q)
  case (Cons m ms)
  then obtain q1 where q1: "applies m q" "perform (tree_action w) None m q = Inr q1" "moves (tree_action w) None ms q1 = Some (Inr q')"
    by (auto split: if_splits sum.splits)
  have "kinds_ok q1 \<and> label_index (core q1) = label_index (core q)"
  proof (cases m)
    case Shift
    then obtain q2 k where q2: "fetch q = Inr q2" "q1 = q2\<lparr>lookahead := None, yyss := (T k, None) # yyss q2\<rparr>"
      using q1(2) by (auto simp: perform_def shift_def res_simps)
    show ?thesis using fetch_follows [OF q2(1)] Cons.prems(2) by (simp add: q2(2) kinds_ok_def follows_def sym_ok_def)
  next
    case (Reduce i)
    then have "keeps_kinds (scheme_y ! i)" using q1(1) scheme_y_kinds by (simp add: applies_def list_all_length)
    moreover have "fits (scheme_y ! i) q" "reduce (tree_action w) (scheme_y ! i) q = Inr q1"
      using q1(1,2) by (simp_all add: Reduce applies_def perform_def)
    ultimately show ?thesis using reduce_kinds [OF Cons.prems(2)] by blast
  qed
  then show ?case using Cons.IH [OF q1(3)] by simp
qed simp

lemma tree_parses_kinds:
  assumes "tree_parses w ms c = Some (Inr g)" "names_ok c"
  shows "data g"
proof -
  obtain q v where q: "moves (tree_action w) None ms (parser_start (bare c)) = Some (Inr q)" "whole_program q = Some v"
    "join (Some []) v = Inr g" using assms(1) by (auto simp: tree_parses_def split: option.splits sum.splits)
  have "kinds_ok (parser_start (bare c))" using assms(2) by (simp add: kinds_ok_def parser_start_def names_ok_def bare_def)
  then have "kinds_ok q" using moves_kinds [OF q(1)] by blast
  then have "exprs v" using q(2) by (auto simp: whole_program_def kinds_ok_def sym_ok_def split: list.splits if_splits)
  then show ?thesis using joined [OF q(3)] by (auto simp: exprs_def data_def)
qed

end
