(* ===== verification/Parse_Demo.thy ===== *)
theory Parse_Demo
  imports Parse_Shape
begin

text \<open>A run of the parser on a text: \<open>(if (< 1 2) (+ 1 2) 0)\<close>.\<close>

definition demo_text :: "u8 list" where
  "demo_text = [40, 105, 102, 32, 40, 60, 32, 49, 32, 50, 41, 32, 40, 43, 32, 49, 32, 50, 41, 32, 48, 41]"

definition demo_moves :: "move list" where
  "demo_moves =
     (let number = [Shift, Reduce 23, Reduce 3, Reduce 6, Reduce 7];
          sum = [Shift, Shift, Reduce 98] @ number @ number @ [Reduce 62, Shift, Reduce 97, Reduce 29, Reduce 28, Reduce 8]
      in [Shift, Shift] @ sum @ sum @ number @ [Reduce 62, Shift, Reduce 65, Reduce 64, Reduce 33, Reduce 28, Reduce 8, Reduce 93])"

lemmas pattern_defs = lit_def whole_def many_def number_def decimal_def ratio_def math_op_def line_comment_def then_digits_def
  sign_len_def is_sign_def one_def

lemma demo_classes:
  "is_ws 32" "\<not> is_ws 40" "\<not> is_ws 41" "\<not> is_ws 49" "\<not> is_ws 50" "\<not> is_ws 48" "\<not> is_ws 60" "\<not> is_ws 43"
  "\<not> is_ws 105" "digit 49" "digit 50" "digit 48" "\<not> digit 32" "\<not> digit 41" "\<not> digit 40" "\<not> digit 60"
  "\<not> digit 43" "\<not> digit 105" "scheme_ident 105" "scheme_ident 102" "scheme_ident 49" "scheme_ident 50" "scheme_ident 48" "scheme_ident 60"
  "scheme_ident 43" "\<not> scheme_ident 32" "\<not> scheme_ident 40" "\<not> scheme_ident 41" "math_char 60" "math_char 43" "\<not> math_char 40" "\<not> math_char 41"
  "\<not> math_char 32" "\<not> math_char 49" "\<not> math_char 50" "\<not> math_char 48" "\<not> math_char 105"
  by (simp_all add: is_ws_def digit_def between_def scheme_ident_def ident_def alnum_def math_char_def)

lemma demo_matches:
  "longest initial_rules (40 # s) = (1, 1, Some (INITIAL, Some OPEN_PAREN))"
  "longest initial_rules (41 # s) = (1, 1, Some (INITIAL, Some CLOSE_PAREN))"
  "longest initial_rules (105 # 102 # 32 # s) = (2, 2, Some (INITIAL, Some PRIM_IF))"
  "longest initial_rules (60 # 32 # s) = (2, 2, Some (INITIAL, Some MATH_OPS))"
  "longest initial_rules (43 # 32 # s) = (2, 2, Some (INITIAL, Some MATH_OPS))"
  "longest initial_rules (49 # 32 # s) = (1, 1, Some (INITIAL, Some FIXED_NUMBER))"
  "longest initial_rules (50 # 41 # s) = (1, 1, Some (INITIAL, Some FIXED_NUMBER))"
  "longest initial_rules (48 # 41 # s) = (1, 1, Some (INITIAL, Some FIXED_NUMBER))"
  "longest initial_rules (32 # 40 # s) = (1, 1, Some (INITIAL, None))"
  "longest initial_rules (32 # 50 # s) = (1, 1, Some (INITIAL, None))"
  "longest initial_rules (32 # 48 # s) = (1, 1, Some (INITIAL, None))"
  by (simp_all add: initial_rules_def word_def chars_def pattern_defs demo_classes starts.simps Let_def)

text \<open>The scanner in one file, at a column of its first line.\<close>

definition at_col :: "u32 \<Rightarrow> u8 list \<Rightarrow> scanner" where
  "at_col col s = \<lparr>yycolumn = col, yylineno = 1, yyinput = Some s, yyinputs = []\<rparr>"

lemma at_col_simps [simp]:
  "yycolumn (at_col col s) = col" "yylineno (at_col col s) = 1" "yyinput (at_col col s) = Some s"
  by (simp_all add: at_col_def)

lemma matched_at: "10 \<notin> set txt \<Longrightarrow> matched txt s (c\<lparr>scan := at_col col r\<rparr>) = c\<lparr>scan := at_col (col + of_nat (length txt)) s\<rparr>"
  by (simp add: matched_def accumulate_column_def count_lines_def at_col_def)

lemma demo_tokens:
  "yylex INITIAL (c\<lparr>scan := at_col col (40 # s)\<rparr>) = Inr (OPEN_PAREN, [40], INITIAL, c\<lparr>scan := at_col (col + 1) s\<rparr>)"
  "yylex INITIAL (c\<lparr>scan := at_col col (41 # s)\<rparr>) = Inr (CLOSE_PAREN, [41], INITIAL, c\<lparr>scan := at_col (col + 1) s\<rparr>)"
  "yylex INITIAL (c\<lparr>scan := at_col col (105 # 102 # 32 # s)\<rparr>) = Inr (PRIM_IF, [105, 102], INITIAL, c\<lparr>scan := at_col (col + 2) (32 # s)\<rparr>)"
  "yylex INITIAL (c\<lparr>scan := at_col col (32 # 40 # s)\<rparr>) = Inr (OPEN_PAREN, [40], INITIAL, c\<lparr>scan := at_col (col + 2) s\<rparr>)"
  "yylex INITIAL (c\<lparr>scan := at_col col (60 # 32 # s)\<rparr>) = Inr (MATH_OPS, [60, 32], INITIAL, c\<lparr>scan := at_col (col + 2) s\<rparr>)"
  "yylex INITIAL (c\<lparr>scan := at_col col (43 # 32 # s)\<rparr>) = Inr (MATH_OPS, [43, 32], INITIAL, c\<lparr>scan := at_col (col + 2) s\<rparr>)"
  "yylex INITIAL (c\<lparr>scan := at_col col (49 # 32 # s)\<rparr>) = Inr (FIXED_NUMBER, [49], INITIAL, c\<lparr>scan := at_col (col + 1) (32 # s)\<rparr>)"
  "yylex INITIAL (c\<lparr>scan := at_col col (32 # 50 # 41 # s)\<rparr>) = Inr (FIXED_NUMBER, [50], INITIAL, c\<lparr>scan := at_col (col + 2) (41 # s)\<rparr>)"
  "yylex INITIAL (c\<lparr>scan := at_col col (32 # 48 # 41 # s)\<rparr>) = Inr (FIXED_NUMBER, [48], INITIAL, c\<lparr>scan := at_col (col + 2) (41 # s)\<rparr>)"
  by (simp_all add: yylex.simps demo_matches matched_at add.assoc)

lemma demo_end:
  assumes "include_depth c = 0" "include_stack c \<noteq> []"
  shows "yylex INITIAL (c\<lparr>scan := at_col col []\<rparr>) = Inr (END_OF_FILE, [], INITIAL,
    c\<lparr>scan := (at_col col [])\<lparr>yyinput := None\<rparr>, include_stack := (include_stack c)[0 := None], include_depth := - 1\<rparr>)"
proof -
  have "yylex INITIAL (c\<lparr>scan := at_col col []\<rparr>)
      = rbind (end_of_input (c\<lparr>scan := at_col col []\<rparr>)) (\<lambda>(c, done). if done then Inr (END_OF_FILE, [], INITIAL, c) else yylex INITIAL c)"
    by (subst yylex.simps) simp
  moreover have "end_of_input (c\<lparr>scan := at_col col []\<rparr>)
      = Inr (c\<lparr>scan := (at_col col [])\<lparr>yyinput := None\<rparr>, include_stack := (include_stack c)[0 := None], include_depth := - 1\<rparr>, True)"
    using assms by (simp add: end_of_input_def pop_include_path_def yypop_buffer_state_def at_col_def)
  ultimately show ?thesis by simp
qed

lemma demo_rules:
  "scheme_y ! 3 = keep S_self_evaluating S_number"
  "scheme_y ! 6 = keep S_literal S_self_evaluating"
  "scheme_y ! 7 = keep S_expression S_literal"
  "scheme_y ! 8 = keep S_expression S_procedure_call"
  "scheme_y ! 23 = (S_number, [T FIXED_NUMBER], False, New_Text Literal_Text None)"
  "scheme_y ! 28 = (S_procedure_call, [T OPEN_PAREN, S_primitive_procedures], False, Value 2)"
  "scheme_y ! 29 = keep S_primitive_procedures S_math_calls"
  "scheme_y ! 33 = keep S_primitive_procedures S_if"
  "scheme_y ! 62 = (S_two_args, [S_expression, S_expression], False, New_Double STREAM_TWO_ARG 1 2)"
  "scheme_y ! 64 = (S_if, [T PRIM_IF, S_expression, S_if_end], False, New_Double STREAM_IF 2 3)"
  "scheme_y ! 65 = (S_if_end, [S_two_args, T CLOSE_PAREN], False, Value 1)"
  "scheme_y ! 93 = (S_begin_body, [S_expression], True, Value 1)"
  "scheme_y ! 97 = (S_math_calls, [S_math_call_op, S_two_args, T CLOSE_PAREN], False, New_Double STREAM_MATH 1 2)"
  "scheme_y ! 98 = (S_math_call_op, [T MATH_OPS], False, New_Text Op_Text None)"
  "length scheme_y = 112"
  by (simp_all add: scheme_y_def data_rules_def call_rules_def control_rules_def define_rules_def procedure_rules_def)

definition demo_trees :: "u8 list \<Rightarrow> tree list" where
  "demo_trees f =
     (let leaf = (\<lambda>col t. Tree (col, 1, Some f) STREAM_LITERAL (Leaf t));
          two = (\<lambda>col ty t u. Tree (col, 1, Some f) ty (Subs (Some [t]) (Some [u])));
          sum = (\<lambda>col op. two (col + 6) STREAM_MATH (Tree (col + 2, 1, Some f) STREAM_OP (Leaf [op, 32]))
            (two (col + 5) STREAM_TWO_ARG (leaf (col + 3) [49]) (leaf (col + 5) [50])))
      in [two 22 STREAM_IF (sum 5 60) (two 21 STREAM_TWO_ARG (sum 13 43) (leaf 21 [48]))])"

lemma demo_parses:
  assumes "scan c = at_col 0 demo_text" "include_depth c = 0" "include_stack c = Some f # fs"
  shows "tree_parses w demo_moves c = Some (Inr (Some (demo_trees f)))"
proof -
  have c: "bare c = (bare c)\<lparr>scan := at_col 0 demo_text\<rparr>" using assms(1) by (simp add: bare_def)
  let ?c = "bare c"
  have s: "include_depth ?c = 0" "include_stack ?c = Some f # fs" "include_stack ?c \<noteq> []" using assms(2,3) by (simp_all add: bare_def)
  have p: "place_of (?c\<lparr>scan := at_col col r\<rparr>) = Inr (col, 1, Some f)" for col r
    using s by (simp add: place_of_def include_path_def nth_checked_def)
  have "moves (tree_action w) None demo_moves (parser_start (?c\<lparr>scan := at_col 0 demo_text\<rparr>))
     = Some (Inr \<lparr>core = ?c\<lparr>scan := (at_col 22 [])\<lparr>yyinput := None\<rparr>, include_stack := (include_stack ?c)[0 := None], include_depth := - 1\<rparr>,
         start = INITIAL, yytext = [], lookahead = Some END_OF_FILE, yyss = [(S_begin_body, Some (demo_trees f))]\<rparr>)"
    unfolding demo_moves_def demo_text_def Let_def
    by (simp add: parser_start_def applies_def fits_def perform_def shift_def fetch_def reduce_def demo_tokens demo_end [OF s(1,3)]
        demo_rules keep_def dollar_def grow_def grow_text_def with_core_def p demo_trees_def c_str_def)
  then show ?thesis using c by (simp add: tree_parses_def whole_program_def demo_trees_def)
qed

end
