(* ===== verification/Parse_Props.thy ===== *)
theory Parse_Props
  imports Parse_Demo Program_Props
begin

text \<open>
  The parser: it builds in the heap what its grammar says, what it builds is a program for the code
  generator, and a source file, parsed, compiled, assembled and run, leaves the value of its program.
\<close>

section \<open>The parser and its grammar\<close>

text \<open>C3: in every run of moves the parser builds in the heap the trees that the grammar's actions build, with
  streams as lists, and stops with a fault exactly when they do, with the same one; nothing is shared
  between the values on its stack.\<close>

theorem parser_builds_trees:
  assumes "fresh_compiler c"
  shows "case tree_parses w ms c of None \<Rightarrow> parses w ms c = None
    | Some (Inl e) \<Rightarrow> parses w ms c = Some (Inl e)
    | Some (Inr g) \<Rightarrow> \<exists>c' A. parses w ms c = Some (Inr c') \<and> heap_wf c' \<and> strm_at c' (stream c') g A"
  by (rule parses_sim [OF assms])

text \<open>C4: every program the parser accepts is one the code generator can read, with all its nodes in the
  places it follows pointers to, unless it contains \<open>(cond)\<close> or a call with an empty \<open>begin\<close> as its last argument.\<close>

theorem parsed_program_readable:
  assumes "fresh_compiler c" "names_ok c" "tree_parses w ms c = Some (Inr g)" "\<not> null_streams g"
  shows "\<exists>c' gs ts. parses w ms c = Some (Inr c') \<and> g = Some gs \<and> asts_of gs = Some ts \<and> stream_is c' (stream c') ts"
proof -
  obtain gs where gs: "g = Some gs" "list_all Parse_Shape.good gs" using tree_parses_kinds [OF assms(3,2)] by (auto simp: data_def)
  obtain ts where ts: "asts_of gs = Some ts" using good_asts [OF gs(2)] assms(4) gs(1) by blast
  obtain c' A where "parses w ms c = Some (Inr c')" "strm_at c' (stream c') g A"
    using parses_sim [OF assms(1), of w ms] assms(3) by auto
  then show ?thesis using gs(1) ts strm_is [of c' "stream c'" gs A ts] by blast
qed

section \<open>From a source file to its value\<close>

text \<open>The compiler with a file open and nothing read.\<close>

definition opened :: "compiler_core \<Rightarrow> u8 list \<Rightarrow> u8 list \<Rightarrow> compiler_core" where
  "opened c file_name src_text = c\<lparr>scan := yy_switch_to_buffer yylex_init src_text, include_depth := 0,
     include_stack := (include_stack c)[0 := Some (c_str file_name)]\<rparr>"

lemma created_opened:
  assumes "compiler_create dir = Inr c"
  shows "fresh_compiler (opened c f src_text)" "names_ok (opened c f src_text)" "label_index (opened c f src_text) = 0"
    "include_depth (opened c f src_text) = 0" "\<exists>fs. include_stack (opened c f src_text) = Some (c_str f) # fs"
proof -
  have c: "c = \<lparr>nodes = (\<lambda>_. None), streams = [1 \<mapsto> \<lparr>shead = 0, stail = 0\<rparr>], next_ptr = 2, home = c_str dir, include_depth = - 1,
      include_stack = replicate MAX_INCLUDE_DEPTH None, scan = yylex_init, label_index = 0, stream = 1\<rparr>"
    using assms by (auto simp: compiler_create_def stream_create_def split: if_splits)
  show "fresh_compiler (opened c f src_text)"
    by (auto simp: fresh_compiler_def opened_def c heap_wf_def stream_holds_def split: if_splits)
  show "names_ok (opened c f src_text)" by (simp add: names_ok_def opened_def c MAX_INCLUDE_DEPTH_def)
  show "label_index (opened c f src_text) = 0" "include_depth (opened c f src_text) = 0" by (simp_all add: opened_def c)
  show "\<exists>fs. include_stack (opened c f src_text) = Some (c_str f) # fs"
    by (simp add: opened_def c MAX_INCLUDE_DEPTH_def eval_nat_numeral)
qed

lemma compile_file_opened:
  assumes "compiler_create dir = Inr c" "fopen w (Some (c_str f)) = Some src_text"
  shows "compile_file w c f False = yyparse w (opened c f src_text)"
  using assms
  by (auto simp: compiler_create_def stream_create_def compile_file_def include_base_def push_include_path_def opened_def
      MAX_INCLUDE_DEPTH_def Let_def split: if_splits)

lemma concat_labels: "stream_concat c s r = Inr c' \<Longrightarrow> label_index c' = label_index c"
  by (auto simp: stream_concat_def stream_append_def set_stream_def set_node_def res_simps split: if_splits)

lemma parses_labels:
  assumes "fresh_compiler c" "names_ok c" "parses w ms c = Some (Inr c')"
  shows "label_index c' = label_index c"
proof -
  obtain p v where p: "moves (run_action w) 0 ms (parser_start c) = Some (Inr p)" "stream_concat (core p) (stream (core p)) v = Inr c'"
    using assms(3) by (auto simp: parses_def split: option.splits sum.splits)
  then obtain q where q: "moves (tree_action w) None ms (parser_start (bare c)) = Some (Inr q)" "parser_rel p q"
    using moves_sim [OF start_rel [OF assms(1)], of w ms] by (auto simp: results_rel_def split: option.splits sum.splits)
  have "kinds_ok (parser_start (bare c))" using assms(2) by (simp add: kinds_ok_def parser_start_def names_ok_def bare_def)
  then have "label_index (core q) = label_index (bare c)" using moves_kinds [OF q(1)] by (simp add: parser_start_def)
  then show ?thesis using concat_labels [OF p(2)] q(2) by (simp add: parser_rel_def bare_def)
qed

text \<open>C2: a source file without the base library, whose text the parser accepts by some run of moves, and
  whose program is one of numbers, booleans, arithmetic, comparisons, \<open>if\<close>, \<open>cond\<close>, \<open>and\<close>, \<open>or\<close> and sequences
  that has a value: the compiler reads it, its code assembles, and any machine between two evaluations
  that runs the code ends with that value on top of its stack.\<close>

theorem source_program_runs:
  assumes "compiler_create dir = Inr c0" "fopen w (Some (c_str file_name)) = Some src_text"
    and bison: "parses w ms (opened c0 file_name src_text) = Some (yyparse w (opened c0 file_name src_text))"
    and tree: "tree_parses w ms (opened c0 file_name src_text) = Some (Inr (Some gs))" "asts_of gs = Some ts"
    and good: "\<forall>t\<in>set ts. good_node t" "size_list size ts + 1 < n" "snd (stream_code tail ts 0) \<le> 2 ^ 64"
      "length (draft (fst (stream_code tail ts 0))) < 2 ^ 62"
    and v: "eval_seq ts = Some v" and vm: "ready vm vs"
  shows "\<exists>c c' buf code d rounds vm1 p vm'. compile_file w c0 file_name False = Inr c
    \<and> emit_stream n c buffer_create (stream c) tail = Inr (c', buf)
    \<and> asm_string (yyasm_scan (contents buf)) True = Inr (code, Some d)
    \<and> code_block vm code = Inr (vm1, p) \<and> has_stack vm' (v # vs) \<and> same_world vm vm'
    \<and> (\<forall>m. vm_eval (rounds + m) x vm1 (of_nat (length code)) p dbg = Some (Inr (vm', exit_status vm)))"
proof -
  let ?c = "opened c0 file_name src_text"
  note o = created_opened [OF assms(1), of file_name src_text]
  obtain c A where c: "parses w ms ?c = Some (Inr c)" "strm_at c (stream c) (Some gs) A"
    using parses_sim [OF o(1), of w ms] tree(1) by auto
  have f: "compile_file w c0 file_name False = Inr c"
    using compile_file_opened [OF assms(1,2)] bison c(1) by simp
  have l: "label_index c = of_nat 0" using parses_labels [OF o(1,2) c(1)] o(3) by simp
  have len: "length (draft (fst (stream_code tail ts 0))) < 2 ^ 64" "length (link (fst (stream_code tail ts 0))) < 2 ^ 62"
    using good(4) by (simp_all add: length_link)
  show ?thesis
    using f stream_assembles [OF strm_is [OF c(2) tree(2)] good(1,2) l good(3) len(1)]
      code_runs [OF vm v HOL.refl len(2), of x dbg] by metis
qed

section \<open>Operators\<close>

text \<open>What the scanner gives to the parser as an operator: one of eight characters and the white space that has to
  follow it. Every such text names an operator of expressions, and the assembler reads its instruction.\<close>

lemma longest_some: "longest rs s = (t, l, Some act) \<Longrightarrow> \<exists>(p, act')\<in>set rs. act' = act \<and> p s = (t, l) \<and> t \<noteq> 0"
  by (induction rs arbitrary: t l) (fastforce simp: Let_def split: prod.splits if_splits)+

lemma no_operators: "sc \<noteq> INITIAL \<Longrightarrow> \<forall>(p, sc', k)\<in>set (scheme_rules sc). k \<noteq> Some MATH_OPS"
  by (cases sc) simp_all

lemma operator_rule: "(p, sc', Some MATH_OPS) \<in> set (scheme_rules sc) \<Longrightarrow> p = math_op"
  using no_operators [of sc] by (cases "sc = INITIAL") (auto simp: initial_rules_def word_def)

lemma starts_two: "starts [a, b] s \<longleftrightarrow> (\<exists>r. s = a # b # r)"
  by (cases s; cases "tl s") auto

lemma math_op_text:
  assumes "math_op (ch # cs) = (t, l)" "t \<noteq> 0"
  shows "math_char ch" "list_all is_ws (take (l - 1) cs)"
  using assms
  by (auto simp: math_op_def whole_def one_def is_ws_def starts_two split: if_splits list.splits)

lemma scanned_operator:
  "yylex sc c = Inr (MATH_OPS, s, sc', c') \<Longrightarrow> \<exists>ch ws. s = ch # ws \<and> math_char ch \<and> list_all is_ws ws"
proof (induction sc c rule: yylex.induct)
  case (1 sc c)
  note y = "1.prems" [unfolded yylex.simps [of sc c]]
  show ?case
  proof (cases "yyinput (scan c)")
    case (Some i)
    show ?thesis
    proof (cases i)
      case Nil
      then obtain c1 b where e: "end_of_input c = Inr (c1, b)" "(if b then Inr (END_OF_FILE, [], sc, c1) else yylex sc c1) = Inr (MATH_OPS, s, sc', c')"
        using y by (auto simp: Some res_simps)
      then show ?thesis using "1.IH"(1) [OF Some Nil e(1)] by (cases b) auto
    next
      case (Cons ch cs)
      obtain m l a where m: "longest (scheme_rules sc) (ch # cs) = (m, l, a)" by (metis prod_cases3)
      consider "a = None" | sc1 where "a = Some (sc1, None)" | sc1 k1 where "a = Some (sc1, Some k1)" by (metis option.exhaust surj_pair)
      then show ?thesis
      proof cases
        case 1
        then show ?thesis using "1.IH"(2) [OF Some Cons m [symmetric]] y by (auto simp: Some Cons m)
      next
        case 2
        then show ?thesis using "1.IH"(3) [OF Some Cons m [symmetric]] y by (auto simp: Some Cons m Let_def)
      next
        case 3
        then have k: "a = Some (sc1, Some MATH_OPS)" "s = ch # take (l - 1) cs" using y by (auto simp: Some Cons m Let_def)
        obtain p where "(p, sc1, Some MATH_OPS) \<in> set (scheme_rules sc)" "p (ch # cs) = (m, l)" "m \<noteq> 0"
          using longest_some [OF m [unfolded k(1)]] by (auto simp del: longest.simps)
        then have "math_op (ch # cs) = (m, l)" "m \<noteq> 0" using operator_rule by metis+
        then show ?thesis using math_op_text [of ch cs m l] k(2) by blast
      qed
    qed
  qed (use y in simp)
qed

lemma scanned_operator_named:
  assumes "yylex sc c = Inr (MATH_OPS, s, sc', c')"
  shows "\<exists>(w, p)\<in>set operators. operator_word s = chars w" "good_text s"
proof -
  obtain ch ws where s: "s = ch # ws" "math_char ch" "list_all is_ws ws" using scanned_operator [OF assms] by blast
  have n: "\<not> is_ws ch" using s(2) by (auto simp: math_char_def is_ws_def)
  have d: "dropWhile (\<lambda>c. \<not> is_ws c) ws = ws" "takeWhile (\<lambda>c. \<not> is_ws c) ws = []"
    using s(3) by (cases ws; simp)+
  have "operator_word s = [ch]" using s(3) n d by (simp add: operator_word_def s(1))
  moreover have "\<exists>(w, p)\<in>set operators. [ch] = chars w"
    using s(2) by (auto simp: math_char_def operators_def chars_def)
  ultimately show "\<exists>(w, p)\<in>set operators. operator_word s = chars w" by simp
  have "list_all (\<lambda>c. list_ex (\<lambda>(w, sc, k). sc = INITIAL \<and> chars w = [c]) (words @ more_words)) [45, 43, 42, 47, 37, 62, 60, 61]"
    by (simp add: words_def more_words_def chars_def)
  then have "list_ex (\<lambda>(w, sc, k). sc = INITIAL \<and> chars w = [ch]) (words @ more_words)"
    using s(2) unfolding math_char_def list_all_iff by blast
  then obtain w k where w: "(w, INITIAL, k) \<in> set words \<union> set more_words" "chars w = [ch]"
    unfolding list_ex_iff by fastforce
  show "good_text s" using reads_word_space(2) [OF w(1) s(3)] by (simp add: w(2) s(1))
qed

section \<open>An example\<close>

text \<open>The file \<open>a\<close> with the text \<open>(if (< 1 2) (+ 1 2) 0)\<close>.\<close>

lemma demo_opened: "scan (opened c f demo_text) = at_col 0 demo_text"
  by (simp add: opened_def at_col_def yy_switch_to_buffer_def yylex_init_def)

definition demo_ast :: "ast list" where
  "demo_ast =
     (let num = (\<lambda>col w. [Lit (chars ''a'', 1, col) (chars w)]);
          sum = (\<lambda>col w. [Math (chars ''a'', 1, col + 6) (chars w) (num (col + 3) ''1'') (num (col + 5) ''2'')])
      in [If (chars ''a'', 1, 22) (sum 5 ''< '') (sum 13 ''+ '') (num 21 ''0'')])"

lemma demo_asts: "asts_of (demo_trees (chars ''a'')) = Some demo_ast" "\<not> null_streams (Some (demo_trees (chars ''a'')))"
  by (simp_all add: demo_trees_def demo_ast_def Let_def loc_of_place.simps chars_def lift2_def)

lemma demo_creates: obtains c where "compiler_create [47] = Inr c"
  by (auto simp: compiler_create_def Let_def PATH_MAX_def c_str_Cons stream_create_def)

lemma demo_tree_parses:
  assumes "compiler_create [47] = Inr c"
  shows "tree_parses w demo_moves (opened c (chars ''a'') demo_text) = Some (Inr (Some (demo_trees (chars ''a''))))"
proof -
  have "c_str (chars ''a'') = chars ''a''" by (simp add: c_str_def chars_def)
  then obtain fs where "include_stack (opened c (chars ''a'') demo_text) = Some (chars ''a'') # fs"
    using created_opened(5) [OF assms, of "chars ''a''" demo_text] by auto
  then show ?thesis using demo_parses [OF demo_opened created_opened(4) [OF assms]] by blast
qed

theorem parser_builds_trees_witness:
  "\<exists>c c' A. compiler_create [47] = Inr c \<and> parses all_files demo_moves (opened c (chars ''a'') demo_text) = Some (Inr c')
    \<and> strm_at c' (stream c') (Some (demo_trees (chars ''a''))) A"
proof -
  obtain c where c: "compiler_create [47] = Inr c" by (rule demo_creates)
  from parser_builds_trees [OF created_opened(1) [OF c], of all_files demo_moves "chars ''a''" demo_text] c
  show ?thesis by (auto simp: demo_tree_parses [OF c])
qed

theorem parsed_program_readable_witness:
  "\<exists>c c'. compiler_create [47] = Inr c \<and> parses all_files demo_moves (opened c (chars ''a'') demo_text) = Some (Inr c')
    \<and> stream_is c' (stream c') demo_ast"
proof -
  obtain c where c: "compiler_create [47] = Inr c" by (rule demo_creates)
  from parsed_program_readable [OF created_opened(1,2) [OF c] demo_tree_parses [OF c] demo_asts(2), of all_files] demo_asts(1) c
  show ?thesis by auto
qed

text \<open>The world with that file, and a parser that makes those moves.\<close>

definition demo_world :: outside where
  "demo_world = \<lparr>fopen = (\<lambda>path. Some demo_text), realpath = Some,
     yyparse = (\<lambda>c. case parses (all_files\<lparr>fopen := (\<lambda>path. Some demo_text)\<rparr>) demo_moves c of None \<Rightarrow> Inl Assert_Failed | Some r \<Rightarrow> r)\<rparr>"

lemma run_action_outside: "fopen w = fopen w' \<Longrightarrow> realpath w = realpath w' \<Longrightarrow> run_action w = run_action w'"
proof (intro ext)
  fix t vs a c
  assume w: "fopen w = fopen w'" "realpath w = realpath w'"
  have "setup_include w = setup_include w'" unfolding include_defs w by simp
  then show "run_action w t vs a c = run_action w' t vs a c" by (cases a) simp_all
qed

lemma demo_bison:
  assumes "parses demo_world demo_moves c = Some r"
  shows "parses demo_world demo_moves c = Some (yyparse demo_world c)"
proof -
  have "run_action demo_world = run_action (all_files\<lparr>fopen := (\<lambda>path. Some demo_text)\<rparr>)"
    by (rule run_action_outside) (simp_all add: demo_world_def all_files_def)
  then have "parses demo_world demo_moves = parses (all_files\<lparr>fopen := (\<lambda>path. Some demo_text)\<rparr>) demo_moves"
    unfolding parses_def by simp
  then show ?thesis using assms by (simp add: demo_world_def)
qed

lemma zero_text: "good_text (chars ''0'')" "ins_code (chars ''0'') = Some (OP_LIT_FIXNUM # INT_64 0)"
proof -
  have n: "show_int 0 = chars ''0''" by (simp add: show_int_def show_nat.simps chars_def)
  show "good_text (chars ''0'')" "ins_code (chars ''0'') = Some (OP_LIT_FIXNUM # INT_64 0)"
    using reads_number [of 0] reads_code unfolding n by blast+
qed

lemma demo_ast_good: "\<forall>t\<in>set demo_ast. good_node t"
proof -
  have "good_loc (chars ''a'', 1, n)" for n by (simp add: good_loc_def chars_def quotable_def)
  then show ?thesis using demo_texts sum_texts zero_text by (simp add: demo_ast_def Let_def)
qed

lemma demo_ast_value: "eval_seq demo_ast = Some (Int_Val 3)"
  by (simp add: demo_ast_def Let_def number_values operate_values)

lemma demo_ast_code: "snd (stream_code False demo_ast 0) = 2" "length (draft (fst (stream_code False demo_ast 0))) < 200"
  unfolding demo_ast_def Let_def if_code [OF math_code lit_code math_code]
  by (simp_all add: draft_def demo_texts sum_texts zero_text)

theorem source_program_runs_witness:
  "\<exists>c0 vm c c' buf code d rounds vm1 p vm'. compiler_create [47] = Inr c0 \<and> vm_create () = Inr vm
    \<and> compile_file demo_world c0 (chars ''a'') False = Inr c
    \<and> emit_stream 40 c buffer_create (stream c) False = Inr (c', buf)
    \<and> asm_string (yyasm_scan (contents buf)) True = Inr (code, Some d)
    \<and> code_block vm code = Inr (vm1, p) \<and> has_stack vm' [Int_Val 3]
    \<and> vm_eval rounds closed_world vm1 (of_nat (length code)) p [] = Some (Inr (vm', 0))"
proof -
  obtain c0 where c: "compiler_create [47] = Inr c0" by (rule demo_creates)
  obtain vm where vm: "vm_create () = Inr vm" "ready vm []" "exit_status vm = 0" using ready_new by metis
  have f: "fopen demo_world (Some (c_str (chars ''a''))) = Some demo_text" by (simp add: demo_world_def)
  obtain c1 where "parses demo_world demo_moves (opened c0 (chars ''a'') demo_text) = Some (Inr c1)"
    using parses_sim [OF created_opened(1) [OF c], of demo_world demo_moves "chars ''a''" demo_text]
    unfolding demo_tree_parses [OF c] by auto
  note b = demo_bison [OF this]
  have n: "size_list size demo_ast + 1 < 40" by (simp add: demo_ast_def Let_def chars_def)
  have "snd (stream_code False demo_ast 0) \<le> 2 ^ 64" "length (draft (fst (stream_code False demo_ast 0))) < 2 ^ 62"
    using demo_ast_code by simp_all
  from source_program_runs [OF c f b demo_tree_parses [OF c] demo_asts(1) demo_ast_good n this demo_ast_value vm(2), of closed_world "[]"]
  show ?thesis unfolding vm(3) using c vm(1) by (metis add_0_right)
qed

end
