(* ===== verification/Parse_Include.thy ===== *)
theory Parse_Include
  imports Parse_Demo
begin

text \<open>
  Includes and their ends. While the parser reads an included file the scanner and the parser's actions work
  above the including file; the end of the included file takes the scanner back to where the include was.
\<close>

section \<open>What the parser does to the scanner\<close>








section \<open>Actions and the scanner\<close>

text \<open>The scanner and the stack of includes. Only the action of an include touches them.\<close>

definition reader :: "compiler_core \<Rightarrow> scanner \<times> int \<times> u8 list option list" where
  "reader c = (scan c, include_depth c, include_stack c)"

lemma reader_nodes:
  "set_node c p f = Inr c' \<Longrightarrow> reader c' = reader c"
  "set_stream c p g = Inr c' \<Longrightarrow> reader c' = reader c"
  "stream_create c = (c', s) \<Longrightarrow> reader c' = reader c"
  by (auto simp: set_node_def set_stream_def stream_create_def reader_def res_simps)

lemma reader_append: "stream_append c s n = Inr c' \<Longrightarrow> reader c' = reader c"
  unfolding stream_append_def by (auto simp: res_simps dest!: reader_nodes split: if_splits)

lemma reader_concat: "stream_concat c s r = Inr c' \<Longrightarrow> reader c' = reader c"
  unfolding stream_concat_def by (auto simp: res_simps dest!: reader_nodes reader_append split: if_splits)

lemma reader_build: "build_node ty v c s = Inr c' \<Longrightarrow> reader c' = reader c"
  unfolding build_node_def stream_alloc_node_def
  by (auto simp: res_simps Let_def dest!: reader_nodes reader_append) (simp_all add: reader_def)

lemma reader_text: "stream_text k t c s = Inr c' \<Longrightarrow> reader c' = reader c"
  by (cases k) (auto simp: stream_char_def stream_symbol_def stream_literal_def stream_string_def stream_op_def stream_bare_def
      dest: reader_build)


lemmas reader_ops = reader_nodes(1,2) reader_concat reader_build reader_text



section \<open>Inside an included file\<close>












section \<open>Ends of includes\<close>







end
