(* ===== verification/Spec2Isabelle.thy ===== *)
theory Spec2Isabelle
  imports Gc_Props Vm_Props Driver_Props Io_Lib Gc_Types Parse_Props Parse_Include
begin

text \<open>
  Insomniac is a Scheme system in C. The compiler reads Scheme, builds streams of nodes, writes assembly
  text for a virtual machine, assembles that text and embeds the code in an assembly file for the C
  toolchain; the runtime of the program so built creates the machine and runs the code. The interpreter
  does the last two steps for an assembly file given to it. Below all of this lie a mark and sweep
  collector, a hash table and a buffer of blocks.

  \<^bold>\<open>The theories and the code\<close> (paths under \<open>src/src\<close>)

  \<^item> \<open>Prelude\<close>: results of functions that may fail (\<open>fault + 'a\<close>: an assertion, a bad pointer, an access out of
    bounds, a division trap, a failed allocation, an exhausted C stack, an exit), C strings, \<open>printf\<close>'s numbers.
    \<open>Interfaces\<close>: the locales \<open>allocator\<close>, \<open>key_map\<close> and \<open>byte_sink\<close>, which the collector, the hash table and
    the buffer interpret.
  \<^item> \<open>Gc\<close> (\<open>libinsomniac_gc\<close>): the object lists, the table of types, roots, marking, sweeping, allocation and
    destruction on a heap of objects with headers. \<open>Gc_Mark\<close>, \<open>Gc_Sweep\<close> and \<open>Gc_Alloc\<close> hold the reachability
    and invariant lemmas, \<open>Gc_Props\<close> the properties. \<open>Gc_Types\<close>: the registrations that the other libraries make,
    with the layouts of their structs, and which pointers the collector therefore follows.
  \<^item> \<open>Floats\<close>: rounding to \<open>float\<close> and \<open>double\<close>. \<open>Hash_Table\<close> (\<open>libinsomniac_hash\<close>): chains, creation, deletion, growth,
    whose load is a \<open>float\<close>, copy on write and iteration; \<open>Hash_Load\<close> bounds what rounding changes, \<open>Hash_Map\<close> and
    \<open>Hash_Ops\<close> relate tables to maps, \<open>Hash_Props\<close> holds the properties.
  \<^item> \<open>Buffer\<close> (\<open>libinsomniac_buffer\<close>) and \<open>Utf8\<close> (\<open>vm_utf8.c\<close>).
  \<^item> \<open>Ops\<close> (\<open>ops.h\<close>), \<open>Asm_Scan\<close> (the rules of \<open>libinsomniac_asm/lexer.l\<close> with longest match), \<open>Asm\<close>
    (\<open>asm_core.c\<close>). \<open>Asm_Props\<close>: labels, jumps and debug information; \<open>Asm_Line\<close> and \<open>Asm_Text\<close>: what the scanner
    and the assembler make of lines, words, numbers, strings and labels.
  \<^item> \<open>Vm_State\<close>, \<open>Vm_Ops\<close>, \<open>Vm_Flow\<close>, \<open>Vm_Io\<close>, \<open>Vm_Eval\<close> (\<open>libinsomniac_vm\<close>): cells, environments, the stack, one
    definition per instruction, output, exceptions, files and libraries, the table of instructions and the
    loop of evaluation. \<open>Vm_Inv\<close> shows that every instruction keeps the order of environments; \<open>Vm_Stack\<close>,
    \<open>Vm_Exec\<close>, \<open>Vm_Control\<close>, \<open>Vm_Facts\<close> and \<open>Vm_Scope\<close> execute instructions symbolically; \<open>Vm_Props\<close> and \<open>Vm_Scope\<close>
    hold the properties. \<open>Io_Lib\<close> (\<open>libinsomniac_io\<close>) is the loadable library over streams.
  \<^item> \<open>Ins_Stream\<close> (the builders of \<open>libinsomniac_bootstrap\<close>), \<open>Compile\<close> (files and includes), \<open>Scheme_Scan\<close> (the scanner of the
    compiler's \<open>lexer.l\<close>), \<open>Parse\<close> (the grammar, the actions and the stack machine of \<open>scheme.y\<close>), \<open>Emit\<close> (the
    code generator). \<open>Emit_Tree\<close> gives the program that a stream holds as a tree and its code as a list of
    lines; \<open>Emit_Rules\<close>, \<open>Emit_Loops\<close> and \<open>Emit_Refine\<close> show that \<open>Emit\<close> writes the text of those lines,
    \<open>Emit_Labels\<close> that their labels resolve, \<open>Emit_Asm\<close> and \<open>Emit_Good\<close> that the assembler reads the text back and
    links it, \<open>Program_Run\<close> that the linked code computes the value of the program. \<open>Compile_Props\<close> and
    \<open>Program_Props\<close> hold the properties.
  \<^item> \<open>Parse_Tree\<close> runs the same grammar on trees and says when a stream in the heap is a list of trees; \<open>Parse_Ops\<close>,
    \<open>Parse_Sim\<close> and \<open>Parse_Run\<close> show that the actions on the heap follow those on trees; \<open>Parse_Ast\<close> turns trees into
    the programs of \<open>Emit_Tree\<close>, and \<open>Parse_Shape\<close> shows by the kinds of the symbols that this succeeds. \<open>Parse_Demo\<close>
    parses a text, \<open>Parse_Props\<close> holds the properties, \<open>Parse_Include\<close> those of includes.
  \<^item> \<open>Runtime\<close> (\<open>main.c\<close>, \<open>libinsomniac_runtime\<close>): the interpreter and the runtime of compiled programs.
    \<open>Driver\<close> (\<open>compiler.c\<close>): the command line, the text with the code and its debug information, the file
    written; \<open>Driver_Text\<close> and \<open>Driver_Props\<close> say what the text holds.

  \<^bold>\<open>State and representation\<close>

  Addresses are natural numbers and every kind of block has a store of its own with one counter; 0 is the
  null pointer. Machine integers are words of their width. Structs are records with the fields of the C
  code; a cell's union is a datatype with the members, read back through its bytes. Functions that may fail
  return a \<open>fault\<close>; reading or writing outside a block is one, so a theorem that a function returns includes
  that it does neither. Strings and arrays of buckets stand in blocks that the collector rounds up and clears;
  what is read from that padding reads as null. The machine takes the collector's part through its contract only (a new block is
  fresh and zeroed, a live one keeps its contents), which \<open>Gc_Props\<close> proves of the collector.

  \<^bold>\<open>Bounds and fuel\<close>

  \<open>mark_graph\<close> and \<open>hash_find\<close> carry the depth of the C stack that is left; enough is shown to exist where they
  end (the number of unmarked objects, four calls). \<open>output_object\<close> needs no more than \<open>OUTPUT_MAX_DEPTH\<close> levels.
  The code generator's depth is bounded by the size of the program. The evaluation loop takes a number of
  rounds and returns \<open>None\<close> when they do not suffice; the properties about programs give a number that does, and
  say that more change nothing. Loops over chains of environments are bounded by the number of
  environments, which suffices because parents are older (\<open>searches_end\<close>).

  \<^bold>\<open>What the properties show\<close>

  From the top: a source file whose program has a value leaves it on the stack of the machine that runs what
  the compiler made of it (\<open>source_program_runs\<close>), since the parser builds the program its grammar describes
  (\<open>parser_builds_trees\<close>, \<open>parsed_program_readable\<close>) and compiled programs compute their values
  (\<open>compiled_program_runs\<close>); this rests on the text that the code generator writes (\<open>emit_stream_refines\<close>), on
  what the assembler makes of it (\<open>compiled_code_assembles\<close>, \<open>asm_jumps_land\<close>) and on the instructions. For
  programs without jumps \<open>eval_string_straight_line\<close> and \<open>run_scheme_exit_status\<close> relate the interpreter and the
  runtime to a stack machine. \<open>compiler_writes_program\<close> and \<open>attachment_holds_code\<close> say what file the compiler
  writes. Calls, exceptions, scopes and output are specified one by one, and so are the operations of the
  hash table, the buffer, the UTF-8 functions and the collector (\<open>gc_sweep_exact\<close>: exactly the live objects
  stay). Several properties state defects of the code as it is; the manifest lists them as findings.

  \<^bold>\<open>Not modelled\<close>

  The tables that bison generates from \<open>scheme.y\<close> are not in the repository. \<open>Compile\<close> therefore takes \<open>yyparse\<close> as
  an argument, and \<open>Parse\<close> considers every run of shifts and reductions that the productions allow; that the
  generated parser makes one of them is a hypothesis (\<open>bison\<close> in \<open>source_program_runs\<close>), for which \<open>Parse_Demo\<close> has an
  instance. The limit on the depth of bison's stack and the report of a syntax error are left out. The locale,
  \<open>printf\<close> to \<open>stderr\<close> and \<open>hash_info\<close> only report. The system's calls, the dynamic
  linker, \<open>fopencookie\<close> and \<open>stdio\<close>'s own buffering are arguments (\<open>externs\<close>, \<open>outside\<close>, \<open>system\<close>, \<open>stdio\<close>). The branches for
  other systems than Linux are left out. The Scheme and assembly files of the library and the tests are not C
  code; \<open>compiler_code_gen\<close> takes them as files that may hold anything.
\<close>

end
